(* ===== verification/C_Prelude.thy ===== *)
theory C_Prelude
  imports Main "HOL-Library.Word" "HOL-Library.Monad_Syntax" "HOL-Library.Signed_Division"
    "HOL-Library.Char_ord"
begin

text \<open>
  The vocabulary every component shares: machine integers as words, C strings and bounded
  buffers, the byte streams behind \<open>getchar\<close> and \<open>putchar\<close>, and the interface of a
  prefix codec (an encoder and a decoder over byte streams).

  Undefined behaviour of C (a read or write outside an object, a dereference of NULL) is the
  value \<^term>\<open>None\<close> of the option monad; every error that the code itself detects and
  returns is an ordinary value. A theorem that an operation yields \<open>Some\<close> thus also says
  that it is free of such memory faults.
\<close>

unbundle bit_operations_syntax

named_theorems buf_simps \<open>reads and writes of bounded buffers\<close>
named_theorems be_simps \<open>big-endian packing and unpacking of words\<close>

type_synonym byte = "8 word"
type_synonym u32 = "32 word"
type_synonym u64 = "64 word"

text \<open>
  A C string is the list of the bytes that start at its address; the end of the list is the
  end of the object and counts as the terminating zero byte.
\<close>
type_synonym cstr = "byte list"

abbreviation ch :: "char \<Rightarrow> byte" where
  "ch c \<equiv> of_char c"

abbreviation cs :: "string \<Rightarrow> cstr" where
  "cs s \<equiv> map of_char s"

text \<open>\<open>/\<close> and \<open>%\<close> of signed 32-bit ints truncate towards zero.\<close>

definition c_div :: "u32 \<Rightarrow> u32 \<Rightarrow> u32" where
  "c_div a b = word_of_int (sint a sdiv sint b)"

definition c_mod :: "u32 \<Rightarrow> u32 \<Rightarrow> u32" where
  "c_mod a b = word_of_int (sint a smod sint b)"

subsection \<open>Strings and buffers\<close>

text \<open>\<open>*(s + i)\<close>: the terminator may be read, anything behind it may not.\<close>

definition c_at :: "cstr \<Rightarrow> nat \<Rightarrow> byte option" where
  "c_at s i = (if i < length s then Some (s ! i) else if i = length s then Some 0 else None)"

text \<open>\<open>argv[i]\<close>: the vector ends with NULL, so an index at or above the length faults.\<close>

definition arg :: "cstr list \<Rightarrow> nat \<Rightarrow> cstr option" where
  "arg argv i = (if i < length argv then Some (argv ! i) else None)"

definition arg_at :: "cstr list \<Rightarrow> nat \<Rightarrow> nat \<Rightarrow> byte option" where
  "arg_at argv i j = do { s \<leftarrow> arg argv i; c_at s j }"

definition buf_get :: "'a list \<Rightarrow> nat \<Rightarrow> 'a option" where
  "buf_get b i = (if i < length b then Some (b ! i) else None)"

definition buf_put :: "'a list \<Rightarrow> nat \<Rightarrow> 'a \<Rightarrow> 'a list option" where
  "buf_put b i x = (if i < length b then Some (b[i := x]) else None)"

lemma c_at_less [buf_simps]: "i < length s \<Longrightarrow> c_at s i = Some (s ! i)"
  by (simp add: c_at_def)

lemma c_at_length [buf_simps]: "c_at s (length s) = Some 0"
  by (simp add: c_at_def)

lemma arg_less [buf_simps]: "i < length argv \<Longrightarrow> arg argv i = Some (argv ! i)"
  by (simp add: arg_def)

lemma arg_ge [buf_simps]: "length argv \<le> i \<Longrightarrow> arg argv i = None"
  by (simp add: arg_def)

lemma buf_get_less [buf_simps]: "i < length b \<Longrightarrow> buf_get b i = Some (b ! i)"
  by (simp add: buf_get_def)

lemma buf_get_ge [buf_simps]: "length b \<le> i \<Longrightarrow> buf_get b i = None"
  by (simp add: buf_get_def)

lemma buf_put_less [buf_simps]: "i < length b \<Longrightarrow> buf_put b i x = Some (b[i := x])"
  by (simp add: buf_put_def)

lemma buf_put_ge [buf_simps]: "length b \<le> i \<Longrightarrow> buf_put b i x = None"
  by (simp add: buf_put_def)

lemma buf_put_SomeD: "buf_put b i x = Some b' \<Longrightarrow> length b' = length b \<and> b' = b[i := x]"
  by (auto simp: buf_put_def split: if_splits)

text \<open>Overwriting a prefix of a buffer, which is what a filling loop has done.\<close>

definition overwrite :: "'a list \<Rightarrow> nat \<Rightarrow> 'a list \<Rightarrow> 'a list" where
  "overwrite b i xs = take i b @ xs @ drop (i + length xs) b"

lemma length_overwrite [simp]:
  "i + length xs \<le> length b \<Longrightarrow> length (overwrite b i xs) = length b"
  by (simp add: overwrite_def)

lemma overwrite_Nil [simp]: "overwrite b i [] = b"
  by (simp add: overwrite_def)

lemma overwrite_Cons:
  assumes "i < length b"
  shows "overwrite (b[i := x]) (Suc i) xs = overwrite b i (x # xs)"
  using assms by (simp add: overwrite_def take_Suc_conv_app_nth)

lemma take_overwrite:
  "i + length xs \<le> length b \<Longrightarrow> take (i + length xs) (overwrite b i xs) = take i b @ xs"
  by (simp add: overwrite_def)

lemma take_overwrite_0: "length xs \<le> length b \<Longrightarrow> take (length xs) (overwrite b 0 xs) = xs"
  by (simp add: overwrite_def)

lemma nth_overwrite:
  "i + length xs \<le> length b \<Longrightarrow> j < length b \<Longrightarrow>
   overwrite b i xs ! j = (if i \<le> j \<and> j < i + length xs then xs ! (j - i) else b ! j)"
  by (auto simp: overwrite_def nth_append)

lemma overwrite_overwrite:
  "i + length xs + length ys \<le> length b \<Longrightarrow>
   overwrite (overwrite b i xs) (i + length xs) ys = overwrite b i (xs @ ys)"
  by (simp add: overwrite_def ac_simps)

subsection \<open>Standard input and output\<close>

text \<open>\<open>getchar\<close> returns the byte as a non-negative int, or EOF (-1); \<open>putchar\<close>
  writes the low byte of its int argument.\<close>

definition EOF :: u32 where
  "EOF = - 1"

fun getchar :: "byte list \<Rightarrow> u32 \<times> byte list" where
  "getchar [] = (EOF, [])"
| "getchar (b # bs) = (ucast b, bs)"

definition putchar :: "u32 \<Rightarrow> byte list \<Rightarrow> byte list" where
  "putchar c out = out @ [ucast c]"

lemma bit_byte_less: "bit (b :: byte) n \<Longrightarrow> n < 8"
  by (drule bit_imp_le_length) simp

lemma ucast_byte_neq_EOF [simp]: "(ucast (b :: byte) :: u32) \<noteq> EOF"
proof
  assume "(ucast b :: u32) = EOF"
  then have "bit (ucast b :: u32) 31 = bit (- 1 :: u32) 31" by (simp add: EOF_def)
  then show False by (auto simp: bit_simps dest: bit_byte_less)
qed

lemma ucast_ucast_byte [simp]: "(ucast (ucast (b :: byte) :: u32) :: byte) = b"
  by (simp add: ucast_down_ucast_id is_down)

subsection \<open>Big-endian bytes of a 32-bit word\<close>

definition be32 :: "u32 \<Rightarrow> byte list" where
  "be32 w = [ucast (drop_bit 24 w), ucast (drop_bit 16 w), ucast (drop_bit 8 w), ucast w]"

definition be_val :: "byte list \<Rightarrow> u32" where
  "be_val bs = foldl (\<lambda>acc b. acc * 256 + ucast b) 0 bs"

lemma length_be32 [simp]: "length (be32 w) = 4"
  by (simp add: be32_def)

lemma word_256_times: "(w :: u32) * 256 = push_bit 8 w"
  by (simp add: push_bit_eq_mult)

lemma word_add_or_byte: "push_bit 8 (w :: u32) + ucast (b :: byte) = push_bit 8 w OR ucast b"
  by (rule disjunctive_add) (auto simp: bit_simps dest: bit_byte_less)

lemma be_val_be32 [be_simps]: "be_val (be32 w) = w"
proof -
  let ?l = "push_bit 8 (push_bit 8 (push_bit 8 (ucast (ucast (drop_bit 24 w) :: byte))
      OR ucast (ucast (drop_bit 16 w) :: byte)) OR ucast (ucast (drop_bit 8 w) :: byte))
      OR ucast (ucast w :: byte) :: u32"
  have "be_val (be32 w) = ?l"
    by (simp add: be_val_def be32_def word_256_times word_add_or_byte)
  also have "\<dots> = w"
  proof (rule bit_word_eqI)
    fix n assume "n < LENGTH(32)"
    then consider "n < 8" | "8 \<le> n" "n < 16" | "16 \<le> n" "n < 24" | "24 \<le> n" "n < 32"
      by fastforce
    then show "bit ?l n = bit w n"
      by cases (auto simp: bit_simps less_diff_conv2)
  qed
  finally show ?thesis .
qed

lemma be32_be_val: "length bs = 4 \<Longrightarrow> be32 (be_val bs) = bs"
proof -
  assume "length bs = 4"
  then obtain a b c d where bs: "bs = [a, b, c, d]"
    by (auto simp: numeral_eq_Suc length_Suc_conv)
  have "be_val bs = push_bit 8 (push_bit 8 (push_bit 8 (ucast a) OR ucast b) OR ucast c) OR ucast d"
    by (simp add: bs be_val_def word_256_times word_add_or_byte)
  then show ?thesis
    by (simp add: bs be32_def) (intro conjI; rule bit_word_eqI; auto simp: bit_simps dest: bit_byte_less)
qed

subsection \<open>Prefix codecs\<close>

text \<open>
  The contract between a writer and a reader of a byte stream: what was written is read back,
  whatever follows it in the stream. Sequences of items then travel through the stream too.
\<close>

fun dec_many :: "(byte list \<Rightarrow> ('a \<times> byte list) option) \<Rightarrow> nat \<Rightarrow> byte list
    \<Rightarrow> ('a list \<times> byte list) option" where
  "dec_many dec 0 bs = Some ([], bs)"
| "dec_many dec (Suc n) bs = do {
     (x, bs1) \<leftarrow> dec bs;
     (xs, bs2) \<leftarrow> dec_many dec n bs1;
     Some (x # xs, bs2)
   }"

locale prefix_codec =
  fixes enc :: "'a \<Rightarrow> byte list"
    and dec :: "byte list \<Rightarrow> ('a \<times> byte list) option"
    and ok :: "'a \<Rightarrow> bool"
  assumes dec_enc: "ok x \<Longrightarrow> dec (enc x @ rest) = Some (x, rest)"
begin

lemma enc_inj: "ok x \<Longrightarrow> ok y \<Longrightarrow> enc x = enc y \<Longrightarrow> x = y"
  by (metis dec_enc prod.inject option.inject)

lemma enc_prefix_free:
  assumes "ok x" "ok y" "enc x @ r = enc y @ s"
  shows "x = y \<and> r = s"
  by (metis assms dec_enc prod.inject option.inject)

lemma dec_many_enc:
  "list_all ok xs \<Longrightarrow> dec_many dec (length xs) (concat (map enc xs) @ rest) = Some (xs, rest)"
  by (induction xs) (simp_all add: dec_enc)

end

subsection \<open>Termination of the program\<close>

text \<open>A call may end the program (\<open>abort()\<close>, \<open>exit(...)\<close>) instead of returning.\<close>

datatype 'a outcome = Abort | Done 'a

subsection \<open>Data refinement\<close>

text \<open>
  The contract between an operation on concrete states that may fault and its abstract
  counterpart: where the precondition holds, the concrete step returns, in a state that again
  represents the abstract one. Sequences of operations then do too.
\<close>

fun run_steps :: "('op \<Rightarrow> 'c \<Rightarrow> 'c option) \<Rightarrow> 'op list \<Rightarrow> 'c \<Rightarrow> 'c option" where
  "run_steps f [] c = Some c"
| "run_steps f (x # xs) c = do { c \<leftarrow> f x c; run_steps f xs c }"

fun all_pre :: "('op \<Rightarrow> 'a \<Rightarrow> bool) \<Rightarrow> ('op \<Rightarrow> 'a \<Rightarrow> 'a) \<Rightarrow> 'op list \<Rightarrow> 'a \<Rightarrow> bool" where
  "all_pre pre step [] a \<longleftrightarrow> True"
| "all_pre pre step (x # xs) a \<longleftrightarrow> pre x a \<and> all_pre pre step xs (step x a)"

locale refinement =
  fixes rel :: "'c \<Rightarrow> 'a \<Rightarrow> bool"
    and cstep :: "'op \<Rightarrow> 'c \<Rightarrow> 'c option"
    and astep :: "'op \<Rightarrow> 'a \<Rightarrow> 'a"
    and pre :: "'op \<Rightarrow> 'a \<Rightarrow> bool"
  assumes simulate: "rel c a \<Longrightarrow> pre x a \<Longrightarrow> \<exists>c'. cstep x c = Some c' \<and> rel c' (astep x a)"
begin

lemma run:
  "rel c a \<Longrightarrow> all_pre pre astep xs a \<Longrightarrow>
   \<exists>c'. run_steps cstep xs c = Some c' \<and> rel c' (fold astep xs a)"
proof (induction xs arbitrary: c a)
  case (Cons x xs)
  then obtain c1 where "cstep x c = Some c1" "rel c1 (astep x a)" using simulate by force
  then show ?case using Cons by auto
qed simp

lemma run_append:
  "rel c a \<Longrightarrow> all_pre pre astep (xs @ ys) a \<Longrightarrow>
   \<exists>c1 c2. run_steps cstep xs c = Some c1 \<and> run_steps cstep ys c1 = Some c2 \<and>
     rel c2 (fold astep (xs @ ys) a)"
proof (induction xs arbitrary: c a)
  case Nil
  then show ?case using run [of c a ys] by auto
next
  case (Cons x xs)
  then obtain c1 where "cstep x c = Some c1" "rel c1 (astep x a)" using simulate by force
  then show ?case using Cons by auto
qed

end

end
