(* ===== verification/Audio_Args.thy ===== *)
theory Audio_Args
  imports C_Prelude
begin

text \<open>
  Command-line validation of the audio recoder: \<open>strToInt\<close>, \<open>strToHex\<close> and
  \<open>validargs\<close> of hw1/src/hw1.c. The global bitmap \<open>global_options\<close> is passed and
  returned as a 64-bit word; the results are the int the function returns (0 or 1) and the
  new bitmap. \<open>None\<close> is an access outside the argument vector or a string.
\<close>

subsection \<open>Number parsing\<close>

text \<open>\<open>res = res*10 + *(str+i) - '0'\<close> in 32-bit int arithmetic; there is no check that
  the character is a digit.\<close>

fun strToInt_loop :: "u32 \<Rightarrow> cstr \<Rightarrow> u32" where
  "strToInt_loop res [] = res"
| "strToInt_loop res (c # str) =
     (if c = 0 then res else strToInt_loop (res * 10 + scast c - 48) str)"

definition strToInt :: "cstr \<Rightarrow> u32" where
  "strToInt str = strToInt_loop 0 str"

fun strToHex_loop :: "u32 \<Rightarrow> cstr \<Rightarrow> u32" where
  "strToHex_loop result [] = result"
| "strToHex_loop result (c # str) =
     (if c = 0 then result
      else
        let result = push_bit 4 result;
            d = sint c - 48; \<comment> \<open>'0'\<close>
            u = sint c - 65; \<comment> \<open>'A'\<close>
            l = sint c - 97 \<comment> \<open>'a'\<close>
        in if 0 \<le> d \<and> d \<le> 9 then strToHex_loop (result OR word_of_int d) str
           else if 0 \<le> u \<and> u \<le> 5 then strToHex_loop (result OR word_of_int (u + 10)) str
           else if 0 \<le> l \<and> l \<le> 5 then strToHex_loop (result OR word_of_int (l + 10)) str
           else result)"

definition strToHex :: "cstr \<Rightarrow> u32" where
  "strToHex str = strToHex_loop 0 str"

subsection \<open>Option bits\<close>

definition bit_h :: u64 where
  "bit_h = push_bit 63 1"

definition bit_u :: u64 where
  "bit_u = push_bit 62 1"

definition bit_d :: u64 where
  "bit_d = push_bit 61 1"

definition bit_c :: u64 where
  "bit_c = push_bit 60 1"

definition bit_p :: u64 where
  "bit_p = push_bit 59 1"

lemma bit_push_one: "k < 64 \<Longrightarrow> bit (push_bit k (1 :: u64)) i \<longleftrightarrow> i = k"
  by (auto simp: bit_simps bit_1_iff)

lemma bit_bit_h [simp]: "bit bit_h i \<longleftrightarrow> i = 63"
  by (simp add: bit_h_def bit_push_one del: push_bit_of_1)

lemma bit_bit_u [simp]: "bit bit_u i \<longleftrightarrow> i = 62"
  by (simp add: bit_u_def bit_push_one del: push_bit_of_1)

lemma bit_bit_d [simp]: "bit bit_d i \<longleftrightarrow> i = 61"
  by (simp add: bit_d_def bit_push_one del: push_bit_of_1)

lemma bit_bit_c [simp]: "bit bit_c i \<longleftrightarrow> i = 60"
  by (simp add: bit_c_def bit_push_one del: push_bit_of_1)

lemma bit_bit_p [simp]: "bit bit_p i \<longleftrightarrow> i = 59"
  by (simp add: bit_p_def bit_push_one del: push_bit_of_1)

subsection \<open>The branches of validargs\<close>

text \<open>Speed-up and slow-down share their text but for the mode bit that has been set: the
  argument \<open>go\<close> is the bitmap after that.\<close>

definition validargs_u :: "cstr list \<Rightarrow> u64 \<Rightarrow> (int \<times> u64) option" where
  "validargs_u argv go =
    (let argc = length argv in
     if argc > 2 then do {
       t \<leftarrow> arg_at argv 2 1;
       if t = ch CHR ''f'' then
         if argc > 3 then do {
           fac \<leftarrow> arg_at argv 3 0;
           if fac = ch CHR ''-'' then Some (0, go)
           else do {
             s \<leftarrow> arg argv 3;
             let ret = (scast (strToInt s) :: u64);
             if 1 \<le> sint ret \<and> sint ret \<le> 1024 then
               let ret = ret - 1; go = go OR push_bit 48 ret in
               if argc = 5 then do {
                 t \<leftarrow> arg_at argv 4 1;
                 if t = ch CHR ''p'' then Some (1, go OR bit_p) else Some (0, go)
               }
               else if argc > 5 then Some (0, go)
               else Some (1, go)
             else Some (0, go)
           }
         }
         else Some (0, go)
       else if t = ch CHR ''p'' then
         let go = go OR bit_p in
         if argc > 3 \<and> argc = 5 then do {
           t \<leftarrow> arg_at argv 3 1;
           if t = ch CHR ''f'' then do {
             s \<leftarrow> arg argv 4;
             let ret = (scast (strToInt s) :: u64);
             if 1 \<le> sint ret \<and> sint ret \<le> 1024
             then let ret = ret - 1 in Some (1, go OR push_bit 48 ret)
             else Some (0, go)
           }
           else Some (0, go)
         }
         else if argc = 3 then Some (1, go)
         else Some (0, go)
       else Some (0, go)
     }
     else Some (1, go))"

definition validargs_d :: "cstr list \<Rightarrow> u64 \<Rightarrow> (int \<times> u64) option" where
  "validargs_d argv go = validargs_u argv go"

text \<open>The scan for hexadecimal digits: the number of characters before the terminator, or
  \<open>None\<close> where the code returns 0 at once.\<close>

fun hex_scan :: "cstr \<Rightarrow> nat \<Rightarrow> nat option" where
  "hex_scan [] counter = Some counter"
| "hex_scan (c # str) counter =
     (if c = 0 then Some counter
      else if 48 \<le> sint c \<and> sint c \<le> 57 then hex_scan str (Suc counter)
      else if 65 \<le> sint c \<and> sint c \<le> 70 then hex_scan str (Suc counter)
      else if 97 \<le> sint c \<and> sint c \<le> 102 then hex_scan str (Suc counter)
      else None)"

definition validargs_c :: "cstr list \<Rightarrow> u64 \<Rightarrow> (int \<times> u64) option" where
  "validargs_c argv go =
    (let argc = length argv in
     if argc > 2 then do {
       t \<leftarrow> arg_at argv 2 1;
       if t = ch CHR ''k'' \<and> argc \<ge> 4 then do {
         s \<leftarrow> arg argv 3;
         case hex_scan s 0 of
           None \<Rightarrow> Some (0, go)
         | Some counter \<Rightarrow>
             if counter \<le> 8 then
               let go = go OR ucast (strToHex s) in
               do {
                 p \<leftarrow> (if argc = 5 then arg_at argv 4 1 else Some 0);
                 if argc = 5 \<and> p = ch CHR ''p'' then Some (1, go OR bit_p)
                 else if argc > 4 then Some (0, go)
                 else Some (1, go)
               }
             else Some (0, go)
       }
       else if t = ch CHR ''p'' then
         let go = go OR bit_p in
         if argc = 5 then do {
           t \<leftarrow> arg_at argv 3 1;
           if t = ch CHR ''k'' then do {
             s3 \<leftarrow> arg argv 3;
             case hex_scan s3 0 of
               None \<Rightarrow> Some (0, go)
             | Some counter \<Rightarrow>
                 if counter \<le> 8 then do {
                   s4 \<leftarrow> arg argv 4;
                   Some (1, go OR ucast (strToHex s4))
                 }
                 else Some (0, go)
           }
           else Some (0, go)
         }
         else Some (0, go)
       else Some (0, go)
     }
     else Some (1, go))"

definition validargs :: "cstr list \<Rightarrow> u64 \<Rightarrow> (int \<times> u64) option" where
  "validargs argv go =
    (let argc = length argv in
     if argc = 1 then Some (0, go)
     else if argc > 1 then do {
       t \<leftarrow> arg_at argv 1 1;
       if t = ch CHR ''h'' then Some (1, go OR bit_h)
       else if t = ch CHR ''u'' then validargs_u argv (go OR bit_u)
       else if t = ch CHR ''d'' then validargs_d argv (go OR bit_d)
       else if t = ch CHR ''c'' then validargs_c argv (go OR bit_c)
       else Some (0, go)
     }
     else Some (0, go))"

subsection \<open>Parsing decimal and hexadecimal numbers\<close>

definition is_dec :: "byte \<Rightarrow> bool" where
  "is_dec c \<longleftrightarrow> 48 \<le> c \<and> c \<le> 57"

definition is_hex :: "byte \<Rightarrow> bool" where
  "is_hex c \<longleftrightarrow> is_dec c \<or> (65 \<le> c \<and> c \<le> 70) \<or> (97 \<le> c \<and> c \<le> 102)"

text \<open>The value of a digit and of a number, as the reader means it.\<close>

definition dec_digit :: "byte \<Rightarrow> nat" where
  "dec_digit c = unat c - 48"

definition hex_digit :: "byte \<Rightarrow> nat" where
  "hex_digit c = (if c \<le> 57 then unat c - 48 else if c \<le> 70 then unat c - 55 else unat c - 87)"

definition number :: "nat \<Rightarrow> (byte \<Rightarrow> nat) \<Rightarrow> cstr \<Rightarrow> nat" where
  "number base digit s = foldl (\<lambda>n c. base * n + digit c) 0 s"

lemma sint_small_byte: "(c :: byte) < 128 \<Longrightarrow> sint c = uint c"
  by (simp add: sint_uint word_less_def signed_take_bit_int_eq_self_iff order_trans [OF _ uint_ge_0])

lemma scast_small_byte: "(c :: byte) < 128 \<Longrightarrow> (scast c :: u32) = of_nat (unat c)"
  by (simp only: scast_eq sint_small_byte uint_nat of_int_of_nat_eq)

lemma small_bit: "d < 16 \<Longrightarrow> bit (d :: nat) n \<Longrightarrow> n < 4"
  using bit_take_bit_iff [of 4 d n] by (simp add: take_bit_nat_eq_self)

lemma or_digit: "d < 16 \<Longrightarrow> push_bit 4 (of_nat n :: u32) OR of_nat d = of_nat (16 * n + d)"
proof -
  assume d: "d < 16"
  have "push_bit 4 (of_nat n :: u32) OR of_nat d = push_bit 4 (of_nat n) + of_nat d"
    by (rule disjunctive_add [symmetric]) (auto simp: bit_simps dest: small_bit [OF d])
  then show ?thesis by (simp add: push_bit_eq_mult)
qed

lemma strToInt_loop_number:
  "list_all is_dec s \<Longrightarrow>
   strToInt_loop (of_nat n) s = of_nat (foldl (\<lambda>n c. 10 * n + dec_digit c) n s)"
proof (induction s arbitrary: n)
  case (Cons c s)
  then have d: "48 \<le> c" "c \<le> 57" by (simp_all add: is_dec_def)
  then have c: "c \<noteq> 0" "c < 128" "48 \<le> unat c"
    by (auto simp: word_le_nat_alt word_less_nat_alt)
  have "(scast c :: u32) - 48 = of_nat (dec_digit c)"
    using c(3) by (simp add: scast_small_byte [OF c(2)] dec_digit_def of_nat_diff)
  then have eq: "of_nat n * 10 + scast c - 48 = (of_nat (10 * n + dec_digit c) :: u32)"
    by (simp add: algebra_simps)
  then have "strToInt_loop (of_nat n) (c # s) = strToInt_loop (of_nat (10 * n + dec_digit c)) s"
    using c(1) by (simp only: strToInt_loop.simps eq if_False)
  also have "\<dots> = of_nat (foldl (\<lambda>n c. 10 * n + dec_digit c) (10 * n + dec_digit c) s)"
    using Cons by (intro Cons.IH) simp
  finally show ?case by (simp only: foldl_Cons)
qed simp

lemma digit_offset:
  "48 \<le> (m :: nat) \<and> m \<le> 57 \<or> 65 \<le> m \<and> m \<le> 70 \<or> 97 \<le> m \<and> m \<le> 102 \<Longrightarrow>
   \<exists>k. m = 48 + k \<and> k \<le> 9 \<or> m = 65 + k \<and> k \<le> 5 \<or> m = 97 + k \<and> k \<le> 5"
  by presburger

lemma strToHex_loop_number:
  "list_all is_hex s \<Longrightarrow>
   strToHex_loop (of_nat n) s = of_nat (foldl (\<lambda>n c. 16 * n + hex_digit c) n s)"
proof (induction s arbitrary: n)
  case (Cons c s)
  then have h: "is_hex c" by simp
  then have c: "c \<noteq> 0" "c < 128"
    by (auto simp: is_hex_def is_dec_def word_le_nat_alt word_less_nat_alt)
  have d: "sint c = int (unat c)" by (simp only: sint_small_byte [OF c(2)] uint_nat)
  have u: "48 \<le> unat c \<and> unat c \<le> 57 \<or> 65 \<le> unat c \<and> unat c \<le> 70 \<or> 97 \<le> unat c \<and> unat c \<le> 102"
    using h unfolding is_hex_def is_dec_def word_le_nat_alt by simp
  then obtain k where
    "unat c = 48 + k \<and> k \<le> 9 \<or> unat c = 65 + k \<and> k \<le> 5 \<or> unat c = 97 + k \<and> k \<le> 5"
    using digit_offset by blast
  then have "strToHex_loop (of_nat n) (c # s) =
      strToHex_loop (push_bit 4 (of_nat n) OR of_nat (hex_digit c)) s"
    by (elim disjE conjE)
      (simp_all add: c(1) d hex_digit_def word_le_nat_alt, simp_all add: add.commute)
  also have "\<dots> = strToHex_loop (of_nat (16 * n + hex_digit c)) s"
    using u by (subst or_digit) (auto simp: hex_digit_def word_le_nat_alt)
  also have "\<dots> = of_nat (foldl (\<lambda>n c. 16 * n + hex_digit c) (16 * n + hex_digit c) s)"
    using Cons by (intro Cons.IH) simp
  finally show ?case by (simp only: foldl_Cons)
qed simp

lemma number_bound:
  fixes base :: nat
  shows
  "(\<And>c. c \<in> set s \<Longrightarrow> digit c < base) \<Longrightarrow>
   foldl (\<lambda>n c. base * n + digit c) n s < (n + 1) * base ^ length s"
proof (induction s arbitrary: n)
  case (Cons c s)
  have "foldl (\<lambda>n c. base * n + digit c) n (c # s) < (base * n + digit c + 1) * base ^ length s"
    using Cons by simp
  also have "\<dots> \<le> (base * (n + 1)) * base ^ length s"
  proof (rule mult_right_mono)
    have "digit c < base" by (rule Cons.prems) simp
    then show "base * n + digit c + 1 \<le> base * (n + 1)" by simp
  qed simp
  finally show ?case by (simp add: algebra_simps)
qed simp

lemma number_less: "(\<And>c. c \<in> set s \<Longrightarrow> digit c < base) \<Longrightarrow> number base digit s < base ^ length s"
  using number_bound [of s digit base 0] by (simp add: number_def)

lemma strToHex_value:
  assumes "list_all is_hex s" "length s \<le> 8"
  shows "unat (strToHex s) = number 16 hex_digit s"
proof -
  have "number 16 hex_digit s < 16 ^ length s"
    using assms(1) by (intro number_less)
      (auto simp: list_all_iff is_hex_def is_dec_def hex_digit_def word_le_nat_alt split: if_splits)
  also have "\<dots> \<le> 16 ^ 8" using assms(2) by (intro power_increasing) simp_all
  finally have "number 16 hex_digit s < 2 ^ 32" by simp
  moreover have "strToHex s = of_nat (number 16 hex_digit s)"
    using strToHex_loop_number [OF assms(1), of 0] by (simp add: strToHex_def number_def)
  ultimately show ?thesis by (simp add: unat_of_nat)
qed

lemma strToInt_value:
  assumes "list_all is_dec s"
  shows "unat (strToInt s) = number 10 dec_digit s mod 2 ^ 32"
  using strToInt_loop_number [OF assms, of 0] by (simp add: strToInt_def number_def unat_of_nat)


subsection \<open>The branches\<close>

lemma factor_minus_one:
  assumes "1 \<le> sint (ret :: u64)" "sint ret \<le> 1024"
  shows "\<exists>k < 1024. ret = of_nat (Suc k) \<and> sint ret = int (Suc k)"
proof -
  have "ret = word_of_int (sint ret)" by simp
  moreover have "int (Suc (nat (sint ret - 1))) = sint ret" using assms by simp
  ultimately have "ret = of_nat (Suc (nat (sint ret - 1)))"
    by (metis of_int_of_nat_eq)
  then show ?thesis using assms by (intro exI [of _ "nat (sint ret - 1)"]) auto
qed

lemma bit_factor:
  assumes "1 \<le> sint (ret :: u64)" "sint ret \<le> 1024" "bit (push_bit 48 (ret - 1)) i"
  shows "48 \<le> i \<and> i < 58"
proof -
  obtain k where k: "k < 1024" "ret = of_nat (Suc k)"
    using factor_minus_one [OF assms(1,2)] by blast
  then have "ret - 1 = of_nat k" by simp
  with assms(3) have "48 \<le> i" "bit k (i - 48)" by (auto simp: bit_simps)
  moreover have "bit k j \<Longrightarrow> j < 10" for j
    using bit_take_bit_iff [of 10 k j] k(1) by (simp add: take_bit_nat_eq_self)
  ultimately show ?thesis by fastforce
qed

lemma bit_factor_high:
  "1 \<le> sint ret \<Longrightarrow> sint ret \<le> 1024 \<Longrightarrow> 58 \<le> i \<Longrightarrow> \<not> bit (push_bit 48 (ret - 1) :: u64) i"
  using bit_factor by fastforce

lemma bit_key_high: "32 \<le> i \<Longrightarrow> \<not> bit (ucast (w :: u32) :: u64) i"
  by (auto simp: bit_simps dest: bit_imp_le_length)

lemma validargs_u_high:
  assumes "validargs_u argv go = Some (r, go')" "60 \<le> i"
  shows "bit go' i = bit go i"
  using assms
  by (auto simp: validargs_u_def Let_def bit_or_iff bit_factor_high split: if_splits bind_splits)

lemma validargs_c_high:
  assumes "validargs_c argv go = Some (r, go')" "60 \<le> i"
  shows "bit go' i = bit go i"
  using assms
  by (auto simp: validargs_c_def Let_def bit_or_iff bit_key_high
      split: if_splits bind_splits option.splits)

lemma validargs_mode:
  assumes "validargs argv 0 = Some (1, go)"
  shows "\<exists>m \<in> {60, 61, 62, 63}. \<forall>i \<ge> 60. bit go i \<longleftrightarrow> i = m"
  using assms
  by (auto simp: validargs_def validargs_d_def Let_def bit_or_iff validargs_u_high validargs_c_high
      split: if_splits bind_splits)

definition mode_bits :: "u64 \<Rightarrow> nat list" where
  "mode_bits go = filter (bit go) [60, 61, 62, 63]"

text \<open>C10: When the arguments are accepted, exactly one of the mode bits (help, speed-up,
  slow-down, crypt) of the option bitmap is set, whatever factor, key and other options follow.\<close>

theorem validargs_one_mode:
  assumes "validargs argv 0 = Some (1, go)"
  shows "length (mode_bits go) = 1"
  using validargs_mode [OF assms] by (auto simp: mode_bits_def)

lemma arg_at_total:
  assumes "list_all (\<lambda>s. s \<noteq> []) argv" "i < length argv" "j \<le> 1"
  shows "arg_at argv i j = Some (if j < length (argv ! i) then argv ! i ! j else 0)"
proof -
  have "argv ! i \<noteq> []" using assms(1,2) by (simp add: list_all_length)
  then have "j \<le> length (argv ! i)" using assms(3) by (cases "argv ! i") auto
  then show ?thesis using assms(2) by (auto simp: arg_at_def arg_def c_at_def)
qed

lemma validargs_u_no_fault:
  assumes "list_all (\<lambda>s. s \<noteq> []) argv"
  shows "validargs_u argv go \<noteq> None"
  by (auto simp: validargs_u_def Let_def arg_at_total [OF assms] buf_simps split: if_splits)

lemma validargs_c_no_fault:
  assumes "list_all (\<lambda>s. s \<noteq> []) argv"
  shows "validargs_c argv go \<noteq> None"
  by (auto simp: validargs_c_def Let_def arg_at_total [OF assms] buf_simps split: if_splits option.splits)

text \<open>\<open>validargs\<close> never reads outside the argument vector or a string, for every
  vector of non-empty strings.\<close>

theorem validargs_no_fault:
  assumes "list_all (\<lambda>s. s \<noteq> []) argv"
  shows "validargs argv go \<noteq> None"
  using validargs_u_no_fault [OF assms] validargs_c_no_fault [OF assms]
  by (simp add: validargs_def validargs_d_def Let_def arg_at_total [OF assms])

text \<open>\<open>-c -p -k KEY\<close> is rejected for every key: the scan for hexadecimal digits runs
  over the option \<open>-k\<close> itself instead of the key.\<close>

theorem validargs_c_p_k_rejected:
  assumes "length argv = 5" "1 < length (argv ! 1)" "argv ! 1 ! 1 = ch CHR ''c''"
    and "1 < length (argv ! 2)" "argv ! 2 ! 1 = ch CHR ''p''" "argv ! 3 = cs ''-k''"
  shows "validargs argv 0 = Some (0, bit_c OR bit_p)"
  using assms by (simp add: validargs_def validargs_c_def Let_def arg_at_def arg_def c_at_def)

theorem validargs_one_mode_witness:
  "length (mode_bits (bit_c OR ucast (strToHex (cs ''1F'')))) = 1"
  by (rule validargs_one_mode [of "[cs ''audio'', cs ''-c'', cs ''-k'', cs ''1F'']"])
    (simp add: validargs_def validargs_c_def arg_at_def arg_def c_at_def)

theorem validargs_no_fault_witness: "validargs [cs ''audio'', cs ''-u'', cs ''-f''] 0 \<noteq> None"
  by (rule validargs_no_fault) simp

theorem validargs_c_p_k_rejected_witness:
  "validargs [cs ''audio'', cs ''-c'', cs ''-p'', cs ''-k'', cs ''1F''] 0 = Some (0, bit_c OR bit_p)"
  by (rule validargs_c_p_k_rejected) simp_all

end
