(* ===== verification/Audio_Header.thy ===== *)
theory Audio_Header
  imports C_Prelude
begin

text \<open>
  The Sun audio header and the annotation field: \<open>read_header\<close>, \<open>write_header\<close>,
  \<open>read_annotation\<close> and \<open>write_annotation\<close> of hw1/src/hw1.c. The global \<open>hp\<close> is a
  record that is passed and returned; the annotation buffers are byte lists whose length is
  their capacity.
\<close>

record audio_header =
  magic_number :: u32
  data_offset :: u32
  data_size :: u32
  encoding :: u32
  sample_rate :: u32
  channels :: u32

definition ANNOTATION_MAX :: u32 where
  "ANNOTATION_MAX = 1024"

definition AUDIO_HEADER_SIZE :: u32 where
  "AUDIO_HEADER_SIZE = 24"

subsection \<open>Reading\<close>

text \<open>The loop over the magic bytes. The characters are read into a \<open>char\<close>; the
  accumulator is the field of the global, which starts at its value before the call.
  \<open>None\<close> is the early return.\<close>

fun read_magic :: "nat \<Rightarrow> byte list \<Rightarrow> u32 \<Rightarrow> byte list \<Rightarrow> u32 \<times> bool \<times> byte list" where
  "read_magic j [] m inp = (m, True, inp)"
| "read_magic j (x # xs) m inp =
     (let (b, inp) = getchar inp; c = (ucast b :: byte) in
      if c \<noteq> x then (m, False, inp)
      else
        let m = m + scast c;
            m = (if j \<noteq> 3 then m * 256 else m)
        in read_magic (Suc j) xs m inp)"

text \<open>\<open>temp *= 256; b = getchar(); temp += b;\<close>, an EOF being the int -1.\<close>

fun read_int :: "nat \<Rightarrow> u32 \<Rightarrow> byte list \<Rightarrow> u32 \<times> byte list" where
  "read_int 0 temp inp = (temp, inp)"
| "read_int (Suc n) temp inp =
     (let temp = temp * 256; (b, inp) = getchar inp in read_int n (temp + b) inp)"

definition read_header :: "audio_header \<Rightarrow> byte list \<Rightarrow> int \<times> audio_header \<times> byte list" where
  "read_header hp inp =
    (let (m, ok, inp) = read_magic 0 [46, 115, 110, 100] (magic_number hp) inp;
         hp = hp\<lparr>magic_number := m\<rparr>
     in if \<not> ok then (0, hp, inp)
     else if m \<noteq> 779316836 then (0, hp, inp)
     else
     let (temp, inp) = read_int 4 0 inp in
     if c_mod temp 8 \<noteq> 0 \<or> sint ANNOTATION_MAX < sint temp then (0, hp, inp)
     else
     let hp = hp\<lparr>data_offset := temp\<rparr>;
         (temp, inp) = read_int 4 0 inp;
         hp = hp\<lparr>data_size := temp\<rparr>;
         (temp, inp) = read_int 4 0 inp
     in if \<not> (temp = 2 \<or> temp = 3 \<or> temp = 4 \<or> temp = 5) then (0, hp, inp)
     else
     let hp = hp\<lparr>encoding := temp\<rparr>;
         (temp, inp) = read_int 4 0 inp;
         hp = hp\<lparr>sample_rate := temp\<rparr>;
         (temp, inp) = read_int 4 0 inp
     in if \<not> (temp = 1 \<or> temp = 2) then (0, hp, inp)
     else (1, hp\<lparr>channels := temp\<rparr>, inp))"

subsection \<open>Writing\<close>

text \<open>\<open>a = field << (j*8); a = a >> 24; putchar(a);\<close> for j from 0 to 3: the shift to
  the right is that of a signed int.\<close>

fun write_int :: "nat \<Rightarrow> u32 \<Rightarrow> byte list \<Rightarrow> byte list" where
  "write_int 0 w out = out"
| "write_int (Suc n) w out =
     (let a = push_bit ((3 - n) * 8) w; a = signed_drop_bit 24 a
      in write_int n w (putchar a out))"

definition write_header :: "audio_header \<Rightarrow> byte list \<Rightarrow> int \<times> byte list" where
  "write_header hp out =
    (let out = write_int 4 (magic_number hp) out;
         out = write_int 4 (data_offset hp) out;
         out = write_int 4 (data_size hp) out;
         out = write_int 4 (encoding hp) out;
         out = write_int 4 (sample_rate hp) out;
         out = write_int 4 (channels hp) out
     in (1, out))"

subsection \<open>Annotations\<close>

text \<open>The loop of \<open>read_annotation\<close>; \<open>c\<close> is a local variable without initialiser, so the
  value it has before the loop is a parameter.\<close>

fun read_annotation_loop ::
  "nat \<Rightarrow> nat \<Rightarrow> byte \<Rightarrow> byte list \<Rightarrow> byte list \<Rightarrow> (byte \<times> byte list \<times> byte list) option" where
  "read_annotation_loop 0 j c ap inp = Some (c, ap, inp)"
| "read_annotation_loop (Suc n) j c ap inp =
     (let (b, inp) = getchar inp; c = ucast b in
      do {
        ap \<leftarrow> buf_put ap j c;
        read_annotation_loop n (Suc j) c ap inp
      })"

definition read_annotation ::
  "byte \<Rightarrow> byte list \<Rightarrow> u32 \<Rightarrow> byte list \<Rightarrow> (int \<times> byte list \<times> byte list) option" where
  "read_annotation c ap sz inp = do {
     (c, ap, inp) \<leftarrow> read_annotation_loop (unat sz) 0 c ap inp;
     Some (if c \<noteq> 0 then 0 else 1, ap, inp)
   }"

fun write_annotation_loop ::
  "nat \<Rightarrow> nat \<Rightarrow> byte \<Rightarrow> byte list \<Rightarrow> byte list \<Rightarrow> (byte \<times> byte list) option" where
  "write_annotation_loop 0 j c ap out = Some (c, out)"
| "write_annotation_loop (Suc n) j c ap out = do {
     c \<leftarrow> buf_get ap j;
     write_annotation_loop n (Suc j) c ap (putchar (scast c) out)
   }"

definition write_annotation ::
  "byte \<Rightarrow> byte list \<Rightarrow> u32 \<Rightarrow> byte list \<Rightarrow> (int \<times> byte list) option" where
  "write_annotation c ap sz out =
    (if sz > ANNOTATION_MAX then Some (0, out)
     else do {
       (c, out) \<leftarrow> write_annotation_loop (unat sz) 0 c ap out;
       Some (if c \<noteq> 0 then 0 else 1, out)
     })"

subsection \<open>The bytes of a header\<close>

definition header_bytes :: "audio_header \<Rightarrow> byte list" where
  "header_bytes h = be32 (magic_number h) @ be32 (data_offset h) @ be32 (data_size h)
     @ be32 (encoding h) @ be32 (sample_rate h) @ be32 (channels h)"

definition header_accepted :: "audio_header \<Rightarrow> bool" where
  "header_accepted h \<longleftrightarrow> magic_number h = 779316836 \<and> c_mod (data_offset h) 8 = 0 \<and>
     sint (data_offset h) \<le> sint ANNOTATION_MAX \<and> encoding h \<in> {2, 3, 4, 5} \<and> channels h \<in> {1, 2}"

lemma length_header_bytes [simp]: "length (header_bytes h) = 24"
  by (simp add: header_bytes_def)

lemma ucast_signed_drop_24:
  "n \<le> 3 \<Longrightarrow>
   (ucast (signed_drop_bit 24 (push_bit ((3 - n) * 8) (w :: u32))) :: byte) = ucast (drop_bit (8 * n) w)"
proof -
  assume n: "n \<le> 3"
  have *: "24 + i - (3 - n) * 8 = 8 * n + i" for i using n by linarith
  show ?thesis using n by (intro bit_word_eqI) (auto simp: bit_simps *)
qed

lemma numeral_4_Suc: "(4 :: nat) = Suc (Suc (Suc (Suc 0)))"
  by simp

lemma write_int_Suc:
  "n \<le> 3 \<Longrightarrow> write_int (Suc n) w out = write_int n w (out @ [ucast (drop_bit (8 * n) w)])"
  by (simp only: write_int.simps Let_def putchar_def ucast_signed_drop_24)

lemma write_int_be32 [be_simps]: "write_int 4 w out = out @ be32 w"
proof -
  have "write_int 4 w out = write_int 0 w (out @ [ucast (drop_bit (8 * 3) w)]
      @ [ucast (drop_bit (8 * 2) w)] @ [ucast (drop_bit (8 * 1) w)] @ [ucast (drop_bit (8 * 0) w)])"
    unfolding numeral_4_Suc by (simp add: write_int_Suc del: write_int.simps)
  then show ?thesis by (simp add: be32_def)
qed

lemma read_int_bytes:
  "read_int (length bs) t (bs @ rest) = (foldl (\<lambda>acc b. acc * 256 + ucast b) t bs, rest)"
  by (induction bs arbitrary: t) (simp_all add: Let_def)

lemma read_int_4 [be_simps]: "read_int 4 0 (a # b # c # d # rest) = (be_val [a, b, c, d], rest)"
proof -
  have "length [a, b, c, d] = 4" by simp
  with read_int_bytes [of "[a, b, c, d]" 0 rest] show ?thesis
    by (simp only: be_val_def append.simps)
qed

lemma read_int_be32 [be_simps]: "read_int 4 0 (be32 w @ rest) = (w, rest)"
  using read_int_bytes [of "be32 w" 0 rest] be_val_be32 [of w] by (simp add: be_val_def)

lemma write_header_bytes: "write_header h out = (1, out @ header_bytes h)"
  by (simp add: write_header_def header_bytes_def be_simps Let_def)

lemma read_magic_eq:
  "read_magic 0 [46, 115, 110, 100] 0 (be32 779316836 @ inp) = (779316836, True, inp)"
  by (simp add: be32_def Let_def)

lemma read_header_bytes:
  assumes "header_accepted h" "magic_number hp = 0"
  shows "read_header hp (header_bytes h @ rest) = (1, h, rest)"
  using assms
  by (simp add: read_header_def header_bytes_def header_accepted_def read_magic_eq be_simps Let_def not_less del: read_magic.simps)

subsection \<open>What is accepted\<close>

lemma read_int_short:
  assumes "length inp \<le> n"
  shows "(ucast (fst (read_int (Suc n) t inp)) :: byte) = 255"
  using assms
proof (induction n arbitrary: t inp)
  case 0
  have "t * 256 + (- 1) = word_of_int (uint t * 256 - 1)" by simp
  then have "(ucast (t * 256 + (- 1) :: u32) :: byte) = word_of_int (uint t * 256 - 1)"
    by (simp only:) (rule ucast_down_wi, simp add: is_down)
  moreover have "(256 :: byte) = 0" using word_exp_length_eq_0 [where 'a=8] by simp
  ultimately have "(ucast (t * 256 + (- 1) :: u32) :: byte) = 255" by simp
  then show ?case using 0 by (simp add: EOF_def Let_def)
next
  case (Suc n)
  have "length (snd (getchar inp)) \<le> n" using Suc.prems by (cases inp) simp_all
  then show ?case
    unfolding read_int.simps(2) [of "Suc n"] by (simp only: Let_def case_prod_beta Suc.IH)
qed


lemma read_int_rest: "snd (read_int n t inp) = drop n inp"
proof (induction n arbitrary: t inp)
  case (Suc n)
  then show ?case by (cases inp) (simp_all add: Let_def)
qed simp

lemma read_int_split: "read_int n t inp = (fst (read_int n t inp), drop n inp)"
  by (metis prod.collapse read_int_rest)

lemma be32_read_int:
  assumes "4 \<le> length inp"
  shows "be32 (fst (read_int 4 0 inp)) = take 4 inp"
proof -
  have "\<exists>a b c d r. inp = a # b # c # d # r"
    using assms unfolding numeral_4_Suc by (auto simp: Suc_le_length_iff)
  then show ?thesis by (auto simp: read_int_4 be32_be_val)
qed

lemma read_int_enough:
  assumes "fst (read_int 4 0 inp) \<in> {1, 2}"
  shows "4 \<le> length inp"
proof (rule ccontr)
  assume "\<not> 4 \<le> length inp"
  then have "(ucast (fst (read_int 4 0 inp)) :: byte) = 255"
    using read_int_short [of inp 3 0] by (simp add: numeral_4_Suc numeral_3_eq_3)
  with assms show False by auto
qed

lemma ucast_EOF: "(ucast EOF :: byte) = 255"
proof -
  have "(ucast (- 1 :: u32) :: byte) = - 1" by (rule bit_word_eqI) (simp add: bit_simps)
  then show ?thesis by (simp only: EOF_def) simp
qed

lemma be32_magic: "be32 779316836 = [46, 115, 110, 100]"
  by code_simp

lemma getchar_byte:
  "getchar bs = (y, bs') \<Longrightarrow> (ucast y :: byte) = x \<Longrightarrow> x \<noteq> 255 \<Longrightarrow> bs = x # bs'"
  by (cases bs) (auto simp: ucast_EOF)

lemma read_magic_True:
  assumes "read_magic 0 [46, 115, 110, 100] 0 inp = (m, True, inp')"
  shows "m = 779316836 \<and> inp = be32 779316836 @ inp'"
  using assms
  by (auto simp: Let_def be32_magic split: if_splits prod.splits dest!: getchar_byte)

lemma read_header_accepts:
  assumes "read_header hp inp = (1, h, rest)" "magic_number hp = 0"
  shows "header_accepted h \<and> inp = header_bytes h @ rest"
proof -
  obtain m ok inp' where m: "read_magic 0 [46, 115, 110, 100] 0 inp = (m, ok, inp')"
    by (metis prod_cases3)
  define f where "f k = fst (read_int 4 0 (drop k inp'))" for k
  have r: "read_int 4 0 (drop k inp') = (f k, drop (4 + k) inp')" for k
    using read_int_split [of 4 0 "drop k inp'"] by (simp add: f_def)
  note s = r [of 0, simplified] r [of 4, simplified] r [of 8, simplified] r [of 12, simplified]
    r [of 16, simplified]
  have ok: "ok" "m = 779316836" and f: "f 8 \<in> {2, 3, 4, 5}" "f 16 \<in> {1, 2}" "c_mod (f 0) 8 = 0"
      "sint (f 0) \<le> sint ANNOTATION_MAX"
    and h: "h = \<lparr>magic_number = m, data_offset = f 0, data_size = f 4, encoding = f 8,
      sample_rate = f 12, channels = f 16\<rparr>" and rest: "rest = drop 20 inp'"
    using assms by (auto simp: read_header_def m s Let_def not_less simp del: read_magic.simps
        split: if_splits)
  have inp: "inp = be32 779316836 @ inp'" using read_magic_True [of inp m inp'] m ok by simp
  have len: "20 \<le> length inp'" using read_int_enough [of "drop 16 inp'"] f(2) by (auto simp: f_def)
  have "be32 (f k) = take 4 (drop k inp')" if "k \<le> 16" for k
    using len that by (simp add: f_def be32_read_int)
  then have "inp' = be32 (f 0) @ be32 (f 4) @ be32 (f 8) @ be32 (f 12) @ be32 (f 16) @ drop 20 inp'"
    using append_take_drop_id [of 4 inp'] append_take_drop_id [of 4 "drop 4 inp'"]
      append_take_drop_id [of 4 "drop 8 inp'"] append_take_drop_id [of 4 "drop 12 inp'"]
      append_take_drop_id [of 4 "drop 16 inp'"] by simp
  then show ?thesis using f h ok inp rest by (simp add: header_accepted_def header_bytes_def)
qed

subsection \<open>Headers as a prefix codec\<close>

definition dec_header :: "byte list \<Rightarrow> (audio_header \<times> byte list) option" where
  "dec_header inp =
    (let (r, h, rest) = read_header \<lparr>magic_number = 0, data_offset = 0, data_size = 0,
        encoding = 0, sample_rate = 0, channels = 0\<rparr> inp
     in if r = 1 then Some (h, rest) else None)"

interpretation header_codec: prefix_codec header_bytes dec_header header_accepted
  by unfold_locales (simp add: dec_header_def read_header_bytes)

interpretation be32_codec: prefix_codec be32 "\<lambda>bs. Some (read_int 4 0 bs)" "\<lambda>_. True"
  by unfold_locales (simp add: be_simps)

subsection \<open>Annotations that are read and written\<close>

lemma ucast_scast_byte [simp]: "(ucast (scast (c :: byte) :: u32) :: byte) = c"
  by (rule bit_word_eqI) (auto simp: bit_simps)

lemma read_annotation_loop_bytes:
  assumes "length xs \<le> n" "j + n \<le> length ap" "n = length xs"
  shows "read_annotation_loop n j c ap (xs @ rest) =
    Some (if xs = [] then c else last xs, overwrite ap j xs, rest)"
  using assms
proof (induction xs arbitrary: n j c ap)
  case (Cons x xs)
  then show ?case
    by (cases n) (auto simp: buf_simps overwrite_Cons)
qed simp

lemma read_annotation_bytes:
  assumes "length xs = unat sz" "unat sz \<le> length ap"
  shows "read_annotation c ap sz (xs @ rest) =
    Some (if (if xs = [] then c else last xs) \<noteq> 0 then 0 else 1, overwrite ap 0 xs, rest)"
  using assms by (simp add: read_annotation_def read_annotation_loop_bytes)

lemma write_annotation_loop_bytes:
  assumes "j + n \<le> length ap"
  shows "write_annotation_loop n j c ap out =
    Some (if n = 0 then c else ap ! (j + n - 1), out @ take n (drop j ap))"
  using assms
proof (induction n arbitrary: j c out)
  case (Suc n)
  have "drop j ap = ap ! j # drop (Suc j) ap" using Suc.prems by (simp add: Cons_nth_drop_Suc)
  then show ?case using Suc by (simp add: buf_simps putchar_def)
qed simp

lemma write_annotation_bytes:
  assumes "unat sz \<le> length ap" "sz \<le> ANNOTATION_MAX"
  shows "\<exists>r. write_annotation c ap sz out = Some (r, out @ take (unat sz) ap)"
  using assms by (auto simp: write_annotation_def write_annotation_loop_bytes dest: leD)

subsection \<open>Acceptance\<close>

text \<open>C8: Called with the magic number 0 of the zeroed global, \<open>read_header\<close> accepts exactly the
  inputs that start with the 24 big-endian bytes of a header that passes its tests: the magic
  number, a data offset that is a multiple of eight and, read as a signed int, at most 1024, an
  encoding from 2 to 5, one or two channels, any data size and sample rate. It returns the fields
  and leaves the rest of the input; a truncated header is never accepted. These are the tests of
  the code and not those of audio.h: an offset of 2^31 or more is negative as an int and passes, an
  offset below 24 passes, and the offsets 1032 to 1048 of the longest annotations are refused.\<close>

theorem read_header_exact:
  assumes "magic_number hp = 0"
  shows "read_header hp inp = (1, h, rest) \<longleftrightarrow> header_accepted h \<and> inp = header_bytes h @ rest"
  using read_header_accepts [OF _ assms] read_header_bytes [OF _ assms] by blast

definition sample_head :: audio_header where
  "sample_head = \<lparr>magic_number = 779316836, data_offset = 24, data_size = 4, encoding = 2,
     sample_rate = 8000, channels = 2\<rparr>"

theorem read_header_exact_witness:
  "read_header \<lparr>magic_number = 0, data_offset = 0, data_size = 0, encoding = 0, sample_rate = 0,
      channels = 0\<rparr> (header_bytes sample_head @ [1, 2]) = (1, sample_head, [1, 2])"
proof -
  have "header_accepted sample_head" by code_simp
  then show ?thesis by (subst read_header_exact) simp_all
qed

end
