(* ===== verification/Audio_Rand.thy ===== *)
theory Audio_Rand
  imports C_Prelude
begin

text \<open>
  The pseudorandom generator of hw1/src/myrand.c. The static variable \<open>next\<close> (an
  unsigned long) is passed and returned.
\<close>

definition mysrand :: "u32 \<Rightarrow> u64" where
  "mysrand seed = ucast seed"

definition myrand :: "u64 \<Rightarrow> u32 \<times> u64" where
  "myrand nxt = (let nxt = nxt * 1103515245 + 12345 in (ucast (nxt div 65536) mod 32768, nxt))"

fun myrand32_loop :: "nat \<Rightarrow> u32 \<Rightarrow> u64 \<Rightarrow> u32 \<times> u64" where
  "myrand32_loop 0 r nxt = (r, nxt)"
| "myrand32_loop (Suc n) r nxt =
     (let (x, nxt) = myrand nxt
      in myrand32_loop n (push_bit 8 r OR drop_bit 7 (x AND 0x7fff)) nxt)"

definition myrand32 :: "u64 \<Rightarrow> u32 \<times> u64" where
  "myrand32 nxt = myrand32_loop 4 0 nxt"

text \<open>The stream of the first \<open>n\<close> values, and the state after them.\<close>

fun keystream :: "nat \<Rightarrow> u64 \<Rightarrow> u32 list \<times> u64" where
  "keystream 0 s = ([], s)"
| "keystream (Suc n) s =
     (let r = myrand32 s; rs = keystream n (snd r) in (fst r # fst rs, snd rs))"

lemma length_keystream [simp]: "length (fst (keystream n s)) = n"
  by (induction n arbitrary: s) (simp_all add: Let_def)

end
