(* ===== verification/Audio_Frames.thy ===== *)
theory Audio_Frames
  imports Audio_Header Audio_Rand
begin

text \<open>
  Frames of audio samples: \<open>read_frame\<close>, \<open>write_frame\<close>, \<open>calcu_frame\<close> and
  \<open>framecpy\<close> of hw1/src/hw1.c, and the body of the encryption loop of \<open>recode\<close>. A frame
  buffer is the list of the ints it holds; its length is its capacity, and an access behind it
  is \<^term>\<open>None\<close>. The channel count (1 or 2) and the bytes per sample (1 to 4) are
  natural numbers.
\<close>

subsection \<open>Reading, writing and copying\<close>

fun read_frame_loop ::
  "nat \<Rightarrow> nat \<Rightarrow> u32 list \<Rightarrow> byte list \<Rightarrow> (int \<times> u32 list \<times> byte list) option" where
  "read_frame_loop 0 j fp inp = Some (1, fp, inp)"
| "read_frame_loop (Suc n) j fp inp =
     (let (a, inp) = getchar inp in
      if a = EOF then Some (0, fp, inp)
      else do {
        fp \<leftarrow> buf_put fp j a;
        read_frame_loop n (Suc j) fp inp
      })"

definition read_frame ::
  "u32 list \<Rightarrow> nat \<Rightarrow> nat \<Rightarrow> byte list \<Rightarrow> (int \<times> u32 list \<times> byte list) option" where
  "read_frame fp chans bytes_per_sample inp =
    read_frame_loop (chans * bytes_per_sample) 0 fp inp"

fun write_frame_loop :: "nat \<Rightarrow> nat \<Rightarrow> u32 list \<Rightarrow> byte list \<Rightarrow> byte list option" where
  "write_frame_loop 0 j fp out = Some out"
| "write_frame_loop (Suc n) j fp out = do {
     c \<leftarrow> buf_get fp j;
     write_frame_loop n (Suc j) fp (putchar c out)
   }"

definition write_frame :: "u32 list \<Rightarrow> nat \<Rightarrow> nat \<Rightarrow> byte list \<Rightarrow> byte list option" where
  "write_frame fp chans bytes_per_sample out =
    write_frame_loop (chans * bytes_per_sample) 0 fp out"

fun framecpy_loop :: "nat \<Rightarrow> nat \<Rightarrow> u32 list \<Rightarrow> u32 list \<Rightarrow> u32 list option" where
  "framecpy_loop 0 i dest src = Some dest"
| "framecpy_loop (Suc n) i dest src = do {
     x \<leftarrow> buf_get src i;
     dest \<leftarrow> buf_put dest i x;
     framecpy_loop n (Suc i) dest src
   }"

definition framecpy :: "u32 list \<Rightarrow> u32 list \<Rightarrow> nat \<Rightarrow> nat \<Rightarrow> u32 list option" where
  "framecpy dest src chans bytes_per_sample =
    framecpy_loop (chans * bytes_per_sample) 0 dest src"

subsection \<open>Samples\<close>

text \<open>\<open>c *= 256; c += *(fp + base + g)\<close> for the remaining \<open>n\<close> values of \<open>g\<close>.\<close>

fun sample_loop :: "nat \<Rightarrow> nat \<Rightarrow> u32 \<Rightarrow> u32 list \<Rightarrow> u32 option" where
  "sample_loop 0 i c fp = Some c"
| "sample_loop (Suc n) i c fp = do {
     x \<leftarrow> buf_get fp i;
     sample_loop n (Suc i) (c * 256 + x) fp
   }"

text \<open>\<open>f = e << (32 - 8*bps + 8*g); f = f >> 24\<close> for \<open>g = bps - n\<close>; the second shift
  keeps the sign in \<open>calcu_frame\<close> and does not in the encryption loop.\<close>

fun split_loop :: "(u32 \<Rightarrow> u32) \<Rightarrow> nat \<Rightarrow> nat \<Rightarrow> u32 \<Rightarrow> u32 list \<Rightarrow> u32 list option" where
  "split_loop shr24 0 i e op = Some op"
| "split_loop shr24 (Suc n) i e op = do {
     op \<leftarrow> buf_put op i (shr24 (push_bit (32 - 8 * Suc n) e));
     split_loop shr24 n (Suc i) e op
   }"

fun calcu_frame_loop ::
  "nat \<Rightarrow> nat \<Rightarrow> u32 list \<Rightarrow> u32 list \<Rightarrow> u32 list \<Rightarrow> nat \<Rightarrow> u32 \<Rightarrow> u32 \<Rightarrow> u32 list option" where
  "calcu_frame_loop 0 j pp ip op bps fac k = Some op"
| "calcu_frame_loop (Suc n) j pp ip op bps fac k = do {
     c \<leftarrow> sample_loop bps (j * bps) 0 pp;
     d \<leftarrow> sample_loop bps (j * bps) 0 ip;
     let e = c + c_div ((d - c) * k) fac;
     op \<leftarrow> split_loop (signed_drop_bit 24) bps (j * bps) e op;
     calcu_frame_loop n (Suc j) pp ip op bps fac k
   }"

definition calcu_frame ::
  "u32 list \<Rightarrow> u32 list \<Rightarrow> u32 list \<Rightarrow> nat \<Rightarrow> nat \<Rightarrow> u32 \<Rightarrow> u32 \<Rightarrow> u32 list option" where
  "calcu_frame pp ip op chans bytes_per_sample fac k =
    calcu_frame_loop chans 0 pp ip op bytes_per_sample fac k"

text \<open>The loop over the chans of one frame in \<open>recode\<close> with \<open>-c\<close>.\<close>

fun crypt_frame_loop ::
  "nat \<Rightarrow> nat \<Rightarrow> u32 list \<Rightarrow> u32 list \<Rightarrow> nat \<Rightarrow> u64 \<Rightarrow> (u32 list \<times> u64) option" where
  "crypt_frame_loop 0 g ip op bps rnd = Some (op, rnd)"
| "crypt_frame_loop (Suc n) g ip op bps rnd =
     (let (prng, rnd) = myrand32 rnd in
      do {
        k \<leftarrow> sample_loop bps (g * bps) 0 ip;
        let k = k XOR prng;
        op \<leftarrow> split_loop (drop_bit 24) bps (g * bps) k op;
        crypt_frame_loop n (Suc g) ip op bps rnd
      })"

definition crypt_frame ::
  "u32 list \<Rightarrow> u32 list \<Rightarrow> nat \<Rightarrow> nat \<Rightarrow> u64 \<Rightarrow> (u32 list \<times> u64) option" where
  "crypt_frame ip op chans bytes_per_sample rnd =
    crypt_frame_loop chans 0 ip op bytes_per_sample rnd"

subsection \<open>Loops over a buffer\<close>

lemma write_frame_loop_bytes [buf_simps]:
  "j + n \<le> length fp \<Longrightarrow>
   write_frame_loop n j fp out = Some (out @ map ucast (take n (drop j fp)))"
proof (induction n arbitrary: j out)
  case (Suc n)
  have "drop j fp = fp ! j # drop (Suc j) fp" using Suc.prems by (simp add: Cons_nth_drop_Suc)
  then show ?case using Suc by (simp add: buf_simps putchar_def)
qed simp

lemma read_frame_loop_bytes [buf_simps]:
  "j + length xs \<le> length fp \<Longrightarrow>
   read_frame_loop (length xs) j fp (xs @ rest) = Some (1, overwrite fp j (map ucast xs), rest)"
  by (induction xs arbitrary: j fp) (simp_all add: buf_simps overwrite_Cons)

lemma read_frame_loop_short:
  "length xs < n \<Longrightarrow> j + length xs \<le> length fp \<Longrightarrow>
   read_frame_loop n j fp xs = Some (0, overwrite fp j (map ucast xs), [])"
proof (induction n arbitrary: j fp xs)
  case (Suc n)
  then show ?case by (cases xs) (simp_all add: buf_simps overwrite_Cons)
qed simp

lemma read_frame_loop_fault:
  "j \<le> length fp \<Longrightarrow> length fp < j + n \<Longrightarrow> length fp - j < length xs \<Longrightarrow>
   read_frame_loop n j fp xs = None"
proof (induction n arbitrary: j fp xs)
  case (Suc n)
  then obtain x ys where xs: "xs = x # ys" by (cases xs) auto
  show ?case
  proof (cases "j < length fp")
    case True
    then show ?thesis using Suc.prems by (simp add: xs buf_simps Suc.IH)
  next
    case False
    then show ?thesis by (simp add: xs buf_simps)
  qed
qed simp

lemma framecpy_loop_bytes [buf_simps]:
  "i + n \<le> length dest \<Longrightarrow> i + n \<le> length src \<Longrightarrow>
   framecpy_loop n i dest src = Some (overwrite dest i (take n (drop i src)))"
proof (induction n arbitrary: i dest)
  case (Suc n)
  have "drop i src = src ! i # drop (Suc i) src" using Suc.prems by (simp add: Cons_nth_drop_Suc)
  then show ?case using Suc by (simp add: buf_simps overwrite_Cons)
qed simp

definition be_fold :: "u32 \<Rightarrow> u32 list \<Rightarrow> u32" where
  "be_fold c xs = foldl (\<lambda>acc x. acc * 256 + x) c xs"

lemma sample_loop_fold [buf_simps]:
  "i + n \<le> length fp \<Longrightarrow> sample_loop n i c fp = Some (be_fold c (take n (drop i fp)))"
proof (induction n arbitrary: i c)
  case (Suc n)
  have "drop i fp = fp ! i # drop (Suc i) fp" using Suc.prems by (simp add: Cons_nth_drop_Suc)
  then show ?case using Suc by (simp add: buf_simps be_fold_def)
qed (simp add: be_fold_def)

lemma be_fold_bytes: "be_fold 0 (map ucast bs) = be_val bs"
  by (simp add: be_fold_def be_val_def foldl_map)

fun split_ints :: "(u32 \<Rightarrow> u32) \<Rightarrow> nat \<Rightarrow> u32 \<Rightarrow> u32 list" where
  "split_ints shr 0 e = []"
| "split_ints shr (Suc n) e = shr (push_bit (32 - 8 * Suc n) e) # split_ints shr n e"

lemma length_split_ints [simp]: "length (split_ints shr n e) = n"
  by (induction n) simp_all

lemma split_loop_ints [buf_simps]:
  "i + n \<le> length op \<Longrightarrow> split_loop shr n i e op = Some (overwrite op i (split_ints shr n e))"
  by (induction n arbitrary: i op) (simp_all add: buf_simps overwrite_Cons)

subsection \<open>Samples as bytes\<close>

fun low_bytes :: "nat \<Rightarrow> u32 \<Rightarrow> byte list" where
  "low_bytes 0 e = []"
| "low_bytes (Suc n) e = ucast (drop_bit (8 * n) e) # low_bytes n e"

lemma length_low_bytes [simp]: "length (low_bytes n e) = n"
  by (induction n) simp_all

lemma split_ints_bytes:
  assumes "n \<le> 4" "shr = drop_bit 24 \<or> shr = signed_drop_bit 24"
  shows "map ucast (split_ints shr n e) = low_bytes n e"
  using assms(1)
proof (induction n)
  case (Suc n)
  have *: "24 + i - (32 - 8 * Suc n) = 8 * n + i" for i using Suc.prems by arith
  have "32 - 8 * Suc n \<le> 24 + i" for i by arith
  note * = * this
  have "(ucast (shr (push_bit (32 - 8 * Suc n) e)) :: byte) = ucast (drop_bit (8 * n) e)"
    using assms(2) * Suc.prems by (intro bit_word_eqI) (auto simp: bit_simps add.commute)
  then show ?case using Suc by simp
qed simp

lemma low_bytes_cong:
  assumes "\<And>i. i < 8 * n \<Longrightarrow> bit e i = bit e' i"
  shows "low_bytes n e = low_bytes n e'"
  using assms
proof (induction n)
  case (Suc n)
  have "(ucast (drop_bit (8 * n) e) :: byte) = ucast (drop_bit (8 * n) e')"
    using Suc.prems by (intro bit_word_eqI) (auto simp: bit_simps)
  then show ?case using Suc by simp
qed simp

lemma low_bytes_snoc: "low_bytes (Suc n) e = low_bytes n (drop_bit 8 e) @ [ucast e]"
  by (induction n) (simp_all add: ac_simps)

lemma be_val_snoc: "be_val (bs @ [b]) = push_bit 8 (be_val bs) OR ucast b"
  by (simp add: be_val_def word_256_times word_add_or_byte)

lemma low_bytes_be_val: "length bs \<le> 4 \<Longrightarrow> low_bytes (length bs) (be_val bs) = bs"
proof (induction bs rule: rev_induct)
  case (snoc b bs)
  let ?e = "push_bit 8 (be_val bs) OR ucast b"
  have "low_bytes (length bs) (drop_bit 8 ?e) = low_bytes (length bs) (be_val bs)"
    using snoc.prems by (intro low_bytes_cong) (auto simp: bit_simps dest: bit_byte_less)
  moreover have "ucast ?e = b"
    by (rule bit_word_eqI) (auto simp: bit_simps dest: bit_byte_less)
  ultimately show ?case using snoc
    by (simp add: be_val_snoc low_bytes_snoc del: low_bytes.simps)
qed simp

lemma bit_be_val_low_bytes:
  "n \<le> 4 \<Longrightarrow> bit (be_val (low_bytes n e)) i \<longleftrightarrow> i < 8 * n \<and> bit e i"
proof (induction n arbitrary: e i)
  case 0
  then show ?case by (simp add: be_val_def)
next
  case (Suc n)
  show ?case unfolding low_bytes_snoc be_val_snoc using Suc.prems Suc.IH [of "drop_bit 8 e" "i - 8"]
    by (auto simp: bit_simps dest: bit_imp_le_length)
qed

subsection \<open>Encryption\<close>

definition crypt_sample :: "u32 \<Rightarrow> byte list \<Rightarrow> byte list" where
  "crypt_sample r bs = low_bytes (length bs) (be_val bs XOR r)"

lemma length_crypt_sample [simp]: "length (crypt_sample r bs) = length bs"
  by (simp add: crypt_sample_def)

lemma crypt_sample_twice:
  assumes "length bs \<le> 4"
  shows "crypt_sample r (crypt_sample r bs) = bs"
proof -
  have "low_bytes (length bs) (be_val (low_bytes (length bs) (be_val bs XOR r)) XOR r)
      = low_bytes (length bs) (be_val bs)"
    using assms by (intro low_bytes_cong) (auto simp: bit_simps bit_be_val_low_bytes)
  then show ?thesis using assms by (simp add: crypt_sample_def low_bytes_be_val)
qed

fun crypt_bytes :: "nat \<Rightarrow> u32 list \<Rightarrow> byte list \<Rightarrow> byte list" where
  "crypt_bytes bps [] f = []"
| "crypt_bytes bps (r # rs) f = crypt_sample r (take bps f) @ crypt_bytes bps rs (drop bps f)"

lemma length_crypt_bytes [simp]:
  "length f = length rs * bps \<Longrightarrow> length (crypt_bytes bps rs f) = length f"
  by (induction rs arbitrary: f) simp_all

lemma crypt_bytes_twice:
  "bps \<le> 4 \<Longrightarrow> length f = length rs * bps \<Longrightarrow> crypt_bytes bps rs (crypt_bytes bps rs f) = f"
  by (induction rs arbitrary: f) (simp_all add: crypt_sample_twice)

lemma crypt_frame_loop_bytes:
  assumes "bps \<le> 4" "length f = n * bps" "(g + n) * bps \<le> length op"
    and "length ip = length op" "take (n * bps) (drop (g * bps) ip) = map ucast f"
  shows "\<exists>xs. crypt_frame_loop n g ip op bps rnd =
      Some (overwrite op (g * bps) xs, snd (keystream n rnd)) \<and>
    map ucast xs = crypt_bytes bps (fst (keystream n rnd)) f"
  using assms(2-)
proof (induction n arbitrary: g op rnd f)
  case (Suc n)
  obtain r rnd' where r: "myrand32 rnd = (r, rnd')" by (metis prod.collapse)
  let ?ys = "split_ints (drop_bit 24) bps (be_val (take bps f) XOR r)"
  let ?op = "overwrite op (g * bps) ?ys"
  have len: "g * bps + bps + n * bps \<le> length op" using Suc.prems(2) by (simp add: algebra_simps)
  have f: "take bps (drop (g * bps) ip) = map ucast (take bps f)"
    using arg_cong [OF Suc.prems(4), of "take bps"] by (simp add: take_map)
  have "take (n * bps) (drop (Suc g * bps) ip) = map ucast (drop bps f)"
    using arg_cong [OF Suc.prems(4), of "drop bps"] by (simp add: drop_map drop_take ac_simps)
  moreover have oplen: "length ?op = length op" using len by simp
  moreover have "length (drop bps f) = n * bps" using Suc.prems(1) by simp
  moreover have "(Suc g + n) * bps \<le> length op" using Suc.prems(2) by simp
  ultimately have "\<exists>xs. crypt_frame_loop n (Suc g) ip ?op bps rnd' =
      Some (overwrite ?op (Suc g * bps) xs, snd (keystream n rnd')) \<and>
      map ucast xs = crypt_bytes bps (fst (keystream n rnd')) (drop bps f)"
    using Suc.prems(3) by (intro Suc.IH) (simp_all only:)
  then obtain xs where xs: "crypt_frame_loop n (Suc g) ip ?op bps rnd' =
      Some (overwrite ?op (Suc g * bps) xs, snd (keystream n rnd'))"
    "map ucast xs = crypt_bytes bps (fst (keystream n rnd')) (drop bps f)"
    by blast
  have bytes: "map ucast ?ys = crypt_sample r (take bps f)"
    using assms(1) Suc.prems(1) by (simp add: crypt_sample_def split_ints_bytes)
  have "length (map ucast xs :: byte list) = n * bps" using xs(2) Suc.prems(1) by simp
  then have "overwrite ?op (Suc g * bps) xs = overwrite op (g * bps) (?ys @ xs)"
    using overwrite_overwrite [of "g * bps" ?ys xs op] len by (simp add: algebra_simps)
  moreover have "crypt_frame_loop (Suc n) g ip op bps rnd = crypt_frame_loop n (Suc g) ip ?op bps rnd'"
    using len Suc.prems(3) f by (simp add: r buf_simps be_fold_bytes)
  ultimately show ?case
    using xs bytes by (intro exI [of _ "?ys @ xs"]) (simp add: r Let_def)
qed simp

lemma crypt_frame_bytes:
  assumes "bps \<le> 4" "length f = n * bps" "n * bps \<le> length op" "length ip = length op"
    and "take (n * bps) ip = map ucast f"
  shows "\<exists>xs. crypt_frame ip op n bps rnd = Some (overwrite op 0 xs, snd (keystream n rnd)) \<and>
    map ucast xs = crypt_bytes bps (fst (keystream n rnd)) f"
  using crypt_frame_loop_bytes [of bps f n 0 op ip rnd] assms by (simp add: crypt_frame_def)

subsection \<open>Interpolation\<close>

text \<open>The bytes of the frame between \<open>p\<close> and \<open>q\<close>: one sample per channel.\<close>

definition blend :: "u32 \<Rightarrow> u32 \<Rightarrow> u32 \<Rightarrow> u32 \<Rightarrow> u32" where
  "blend c d fac k = c + c_div ((d - c) * k) fac"

fun blend_bytes :: "nat \<Rightarrow> nat \<Rightarrow> u32 \<Rightarrow> u32 \<Rightarrow> byte list \<Rightarrow> byte list \<Rightarrow> byte list" where
  "blend_bytes 0 bps fac k p q = []"
| "blend_bytes (Suc n) bps fac k p q =
     low_bytes bps (blend (be_val (take bps p)) (be_val (take bps q)) fac k)
     @ blend_bytes n bps fac k (drop bps p) (drop bps q)"

lemma length_blend_bytes [simp]: "length (blend_bytes n bps fac k p q) = n * bps"
  by (induction n arbitrary: p q) simp_all

lemma calcu_frame_loop_bytes:
  assumes "bps \<le> 4" "(g + n) * bps \<le> length op" "length pp = length op" "length ip = length op"
    and "take (n * bps) (drop (g * bps) pp) = map ucast p"
    and "take (n * bps) (drop (g * bps) ip) = map ucast q"
  shows "\<exists>xs. calcu_frame_loop n g pp ip op bps fac k = Some (overwrite op (g * bps) xs) \<and>
    map ucast xs = blend_bytes n bps fac k p q"
  using assms(2-)
proof (induction n arbitrary: g op p q)
  case (Suc n)
  let ?ys = "split_ints (signed_drop_bit 24) bps (blend (be_val (take bps p)) (be_val (take bps q)) fac k)"
  let ?op = "overwrite op (g * bps) ?ys"
  have len: "g * bps + bps + n * bps \<le> length op" using Suc.prems(1) by (simp add: algebra_simps)
  have p: "take bps (drop (g * bps) pp) = map ucast (take bps p)"
    using arg_cong [OF Suc.prems(4), of "take bps"] by (simp add: take_map)
  have q: "take bps (drop (g * bps) ip) = map ucast (take bps q)"
    using arg_cong [OF Suc.prems(5), of "take bps"] by (simp add: take_map)
  have "take (n * bps) (drop (Suc g * bps) pp) = map ucast (drop bps p)"
    using arg_cong [OF Suc.prems(4), of "drop bps"] by (simp add: drop_map drop_take ac_simps)
  moreover have "take (n * bps) (drop (Suc g * bps) ip) = map ucast (drop bps q)"
    using arg_cong [OF Suc.prems(5), of "drop bps"] by (simp add: drop_map drop_take ac_simps)
  moreover have "length ?op = length op" using len by simp
  moreover have "(Suc g + n) * bps \<le> length op" using Suc.prems(1) by simp
  ultimately have "\<exists>xs. calcu_frame_loop n (Suc g) pp ip ?op bps fac k =
      Some (overwrite ?op (Suc g * bps) xs) \<and>
      map ucast xs = blend_bytes n bps fac k (drop bps p) (drop bps q)"
    using Suc.prems(2,3) by (intro Suc.IH) (simp_all only:)
  then obtain xs where xs: "calcu_frame_loop n (Suc g) pp ip ?op bps fac k =
      Some (overwrite ?op (Suc g * bps) xs)"
    "map ucast xs = blend_bytes n bps fac k (drop bps p) (drop bps q)"
    by blast
  have "length (map ucast xs :: byte list) = n * bps" using xs(2) by simp
  then have "overwrite ?op (Suc g * bps) xs = overwrite op (g * bps) (?ys @ xs)"
    using overwrite_overwrite [of "g * bps" ?ys xs op] len by (simp add: algebra_simps)
  moreover have "calcu_frame_loop (Suc n) g pp ip op bps fac k =
      calcu_frame_loop n (Suc g) pp ip ?op bps fac k"
    using len Suc.prems(2,3) p q by (simp add: buf_simps be_fold_bytes blend_def)
  ultimately show ?case
    using xs assms(1) by (intro exI [of _ "?ys @ xs"]) (simp add: split_ints_bytes)
qed simp

end
