(* ===== verification/Audio_Recode.thy ===== *)
theory Audio_Recode
  imports Audio_Args Audio_Frames
begin

text \<open>
  The recoding driver of hw1/src/hw1.c, \<open>annotationcpy\<close> and \<open>recode\<close>, and \<open>main\<close> of
  hw1/src/main.c. The globals of hw1.c and const.h are the fields of one record; standard input
  and output are byte lists. \<^term>\<open>None\<close> stands for an access outside a buffer or
  through the NULL that ends \<open>argv\<close>, or for a loop that does not end.
\<close>

record audio =
  hp :: audio_header
  input_annotation :: "byte list"
  output_annotation :: "byte list"
  previous_frame :: "u32 list"
  input_frame :: "u32 list"
  output_frame :: "u32 list"
  stdin :: "byte list"
  stdout :: "byte list"

subsection \<open>Annotations\<close>

text \<open>\<open>annotationcpy(dest + at, src + i)\<close>: copies up to and including a zero byte and
  returns the number of bytes copied.\<close>

partial_function (option) annotationcpy ::
  "nat \<Rightarrow> byte list \<Rightarrow> nat \<Rightarrow> byte list \<Rightarrow> nat \<Rightarrow> (nat \<times> byte list) option" where
  "annotationcpy at dest i src counter = do {
     x \<leftarrow> buf_get src i;
     dest \<leftarrow> buf_put dest at x;
     if x = 0 then Some (Suc counter, dest)
     else annotationcpy (Suc at) dest (Suc i) src (Suc counter)
   }"

text \<open>The loops that copy an argument string without its terminator, and the runs of
  \<open>*(output_annotation+at) = x; at++\<close>.\<close>

fun put_bytes :: "nat \<Rightarrow> byte list \<Rightarrow> byte list \<Rightarrow> (nat \<times> byte list) option" where
  "put_bytes at ann [] = Some (at, ann)"
| "put_bytes at ann (x # xs) = do {
     ann \<leftarrow> buf_put ann at x;
     put_bytes (Suc at) ann xs
   }"

fun put_string :: "nat \<Rightarrow> byte list \<Rightarrow> cstr \<Rightarrow> (nat \<times> byte list) option" where
  "put_string at ann [] = Some (at, ann)"
| "put_string at ann (x # xs) =
     (if x = 0 then Some (at, ann)
      else do {
        ann \<leftarrow> buf_put ann at x;
        put_string (Suc at) ann xs
      })"

text \<open>One of the three branches: " -u", " -d" or " -c", and the factor or key option.\<close>

definition put_mode ::
  "cstr list \<Rightarrow> char \<Rightarrow> char \<Rightarrow> nat \<Rightarrow> byte list \<Rightarrow> (nat \<times> byte list) option" where
  "put_mode argv mode opt at ann = do {
     (at, ann) \<leftarrow> put_bytes at ann [ch CHR '' '', ch CHR ''-'', ch mode];
     t \<leftarrow> arg_at argv 2 1;
     if t = ch opt then do {
       (at, ann) \<leftarrow> put_bytes at ann [ch CHR '' '', ch CHR ''-'', ch opt, ch CHR '' ''];
       s \<leftarrow> arg argv 3;
       put_string at ann s
     }
     else Some (at, ann)
   }"

definition make_annotation ::
  "cstr list \<Rightarrow> u64 \<Rightarrow> u32 \<Rightarrow> byte list \<Rightarrow> byte list \<Rightarrow> (nat \<times> byte list) option" where
  "make_annotation argv go sz input_ann ann = do {
     s \<leftarrow> arg argv 0;
     (at, ann) \<leftarrow> put_string 0 ann s;
     (at, ann) \<leftarrow>
       (if bit go 62 then put_mode argv (CHR ''u'') (CHR ''f'') at ann
        else if bit go 61 then put_mode argv (CHR ''d'') (CHR ''f'') at ann
        else if bit go 60 then put_mode argv (CHR ''c'') (CHR ''k'') at ann
        else Some (at, ann));
     (at, ann) \<leftarrow> put_bytes at ann [10];
     (at, ann) \<leftarrow>
       (if sz = 0 then put_bytes at ann [0]
        else do {
          (n, ann) \<leftarrow> annotationcpy at ann 0 input_ann 0;
          Some (at + n, ann)
        });
     let tat = at mod 8;
     if tat \<noteq> 0 then put_bytes at ann (replicate (8 - tat) 0)
     else Some (at, ann)
   }"

subsection \<open>The three transformations\<close>

text \<open>\<open>int factor = (global_options << 6 >> 54) + 1\<close>\<close>

definition get_factor :: "u64 \<Rightarrow> u32" where
  "get_factor go = ucast (drop_bit 54 (push_bit 6 go)) + 1"

text \<open>\<open>while(read_frame(...) != 0) { if(counter % factor == 0) write_frame(...); counter++; }\<close>\<close>

partial_function (option) speed_loop ::
  "nat \<Rightarrow> nat \<Rightarrow> u32 \<Rightarrow> u32 \<Rightarrow> u32 list \<Rightarrow> byte list \<Rightarrow> byte list
    \<Rightarrow> (u32 list \<times> byte list \<times> byte list) option" where
  "speed_loop chans bps factor counter fp inp out = do {
     (r, fp, inp) \<leftarrow> read_frame fp chans bps inp;
     if r = 0 then Some (fp, inp, out)
     else do {
       out \<leftarrow> (if c_mod counter factor = 0 then write_frame fp chans bps out else Some out);
       speed_loop chans bps factor (counter + 1) fp inp out
     }
   }"

text \<open>The interpolated frames between two frames, for \<open>i\<close> up to \<open>factor - 1\<close>.\<close>

function between_loop ::
  "nat \<Rightarrow> nat \<Rightarrow> nat \<Rightarrow> nat \<Rightarrow> u32 list \<Rightarrow> u32 list \<Rightarrow> u32 list \<Rightarrow> byte list
    \<Rightarrow> (u32 list \<times> byte list) option" where
  "between_loop chans bps i factor pf fp op out =
     (if i < factor then do {
        op \<leftarrow> calcu_frame pf fp op chans bps (of_nat factor) (of_nat i);
        out \<leftarrow> write_frame op chans bps out;
        between_loop chans bps (Suc i) factor pf fp op out
      }
      else Some (op, out))"
  by pat_completeness auto
termination by (relation "measure (\<lambda>(chans, bps, i, factor, pf, fp, op, out). factor - i)") auto

declare between_loop.simps [simp del]

partial_function (option) slow_loop ::
  "nat \<Rightarrow> nat \<Rightarrow> u32 \<Rightarrow> u32 list \<Rightarrow> u32 list \<Rightarrow> u32 list \<Rightarrow> byte list \<Rightarrow> byte list
    \<Rightarrow> (u32 list \<times> u32 list \<times> u32 list \<times> byte list \<times> byte list) option" where
  "slow_loop chans bps factor pf fp op inp out = do {
     (r, fp, inp) \<leftarrow> read_frame fp chans bps inp;
     if r = 0 then Some (pf, fp, op, inp, out)
     else do {
       (op, out) \<leftarrow> between_loop chans bps 1 (unat factor) pf fp op out;
       out \<leftarrow> write_frame fp chans bps out;
       pf \<leftarrow> framecpy pf fp chans bps;
       slow_loop chans bps factor pf fp op inp out
     }
   }"

partial_function (option) crypt_loop ::
  "nat \<Rightarrow> nat \<Rightarrow> u64 \<Rightarrow> u32 list \<Rightarrow> u32 list \<Rightarrow> byte list \<Rightarrow> byte list
    \<Rightarrow> (u32 list \<times> u32 list \<times> byte list \<times> byte list) option" where
  "crypt_loop chans bps rnd fp op inp out = do {
     (r, fp, inp) \<leftarrow> read_frame fp chans bps inp;
     if r = 0 then Some (fp, op, inp, out)
     else do {
       (op, rnd) \<leftarrow> crypt_frame fp op chans bps rnd;
       out \<leftarrow> write_frame op chans bps out;
       crypt_loop chans bps rnd fp op inp out
     }
   }"

subsection \<open>recode and main\<close>

text \<open>\<open>c0\<close> is the content of the uninitialised locals of \<open>read_annotation\<close> and
  \<open>write_annotation\<close>.\<close>

definition recode_speed :: "u64 \<Rightarrow> byte \<Rightarrow> u32 \<Rightarrow> audio \<Rightarrow> (int \<times> audio) option" where
  "recode_speed go c0 sz st =
    (let factor = get_factor go;
         h = (hp st)\<lparr>data_size := data_size (hp st) div factor\<rparr>;
         (_, out) = write_header h (stdout st);
         chans = unat (channels h); bps = unat (encoding h - 1)
     in do {
       (_, out) \<leftarrow> write_annotation c0 (output_annotation st) sz out;
       (fp, inp, out) \<leftarrow> speed_loop chans bps factor 0 (input_frame st) (stdin st) out;
       Some (1, st\<lparr>hp := h, input_frame := fp, stdin := inp, stdout := out\<rparr>)
     })"

definition recode_slow :: "u64 \<Rightarrow> byte \<Rightarrow> u32 \<Rightarrow> audio \<Rightarrow> (int \<times> audio) option" where
  "recode_slow go c0 sz st =
    (let factor = get_factor go;
         h = (hp st)\<lparr>data_size := data_size (hp st) * factor\<rparr>;
         (_, out) = write_header h (stdout st);
         chans = unat (channels h); bps = unat (encoding h - 1)
     in do {
       (_, out) \<leftarrow> write_annotation c0 (output_annotation st) sz out;
       (counter, pf, inp) \<leftarrow> read_frame (previous_frame st) chans bps (stdin st);
       if counter \<noteq> 0 then do {
         out \<leftarrow> write_frame pf chans bps out;
         (pf, fp, op, inp, out) \<leftarrow>
           slow_loop chans bps factor pf (input_frame st) (output_frame st) inp out;
         Some (1, st\<lparr>hp := h, previous_frame := pf, input_frame := fp, output_frame := op,
           stdin := inp, stdout := out\<rparr>)
       }
       else Some (1, st\<lparr>hp := h, previous_frame := pf, stdin := inp, stdout := out\<rparr>)
     })"

definition recode_crypt :: "u64 \<Rightarrow> byte \<Rightarrow> u32 \<Rightarrow> audio \<Rightarrow> (int \<times> audio) option" where
  "recode_crypt go c0 sz st =
    (let tkey = push_bit 32 go; key = (ucast (drop_bit 32 tkey) :: u32); h = hp st;
         (_, out) = write_header h (stdout st);
         chans = unat (channels h); bps = unat (encoding h - 1)
     in do {
       (_, out) \<leftarrow> write_annotation c0 (output_annotation st) sz out;
       (fp, op, inp, out) \<leftarrow>
         crypt_loop chans bps (mysrand key) (input_frame st) (output_frame st) (stdin st) out;
       Some (1, st\<lparr>input_frame := fp, output_frame := op, stdin := inp, stdout := out\<rparr>)
     })"

definition recode :: "cstr list \<Rightarrow> u64 \<Rightarrow> byte \<Rightarrow> audio \<Rightarrow> (int \<times> audio) option" where
  "recode argv go c0 st =
    (let (flag, h, inp) = read_header (hp st) (stdin st);
         st = st\<lparr>hp := h, stdin := inp\<rparr>
     in if flag = 0 then Some (0, st)
     else let sz = data_offset h - AUDIO_HEADER_SIZE
     in if sz > 1024 then Some (0, st)
     else do {
       (flag, ann, inp) \<leftarrow> read_annotation c0 (input_annotation st) sz (stdin st);
       let st = st\<lparr>input_annotation := ann, stdin := inp\<rparr>;
       if flag = 0 then Some (0, st)
       else do {
         (sz, st) \<leftarrow>
           (if bit go 59 then do {
              (_, oann) \<leftarrow> annotationcpy 0 (output_annotation st) 0 ann 0;
              Some (sz, st\<lparr>output_annotation := oann\<rparr>)
            }
            else do {
              (at, oann) \<leftarrow> make_annotation argv go sz ann (output_annotation st);
              let h = (hp st)\<lparr>data_offset := 24 + of_nat at\<rparr>;
              Some (data_offset h - AUDIO_HEADER_SIZE, st\<lparr>hp := h, output_annotation := oann\<rparr>)
            });
         if bit go 62 then recode_speed go c0 sz st
         else if bit go 61 then recode_slow go c0 sz st
         else if bit go 60 then recode_crypt go c0 sz st
         else Some (1, st)
       }
     })"

text \<open>\<open>main\<close>: the usage text goes to standard error; the result is the exit status.\<close>

definition audio_main :: "cstr list \<Rightarrow> u64 \<Rightarrow> byte \<Rightarrow> audio \<Rightarrow> (int \<times> audio) option" where
  "audio_main argv go c0 st = do {
     (ok, go) \<leftarrow> validargs argv go;
     if ok = 0 then Some (1, st)
     else if bit go 63 then Some (0, st)
     else do {
       (_, st) \<leftarrow> recode argv go c0 st;
       Some (0, st)
     }
   }"

subsection \<open>Frames of a stream\<close>

text \<open>A stream of audio data: whole frames of \<open>n\<close> bytes and the bytes of a partial one.\<close>

definition frames_ok :: "nat \<Rightarrow> byte list list \<Rightarrow> byte list \<Rightarrow> bool" where
  "frames_ok n fs t \<longleftrightarrow> (\<forall>f \<in> set fs. length f = n) \<and> length t < n"

lemma frames_ok_Cons [simp]: "frames_ok n (f # fs) t \<longleftrightarrow> length f = n \<and> frames_ok n fs t"
  by (auto simp: frames_ok_def)

lemma read_frame_ok [buf_simps]:
  assumes "length f = chans * bps" "chans * bps \<le> length fp"
  shows "read_frame fp chans bps (f @ rest) = Some (1, overwrite fp 0 (map ucast f), rest)"
  using assms read_frame_loop_bytes [of 0 f fp rest] by (simp add: read_frame_def)

lemma read_frame_end [buf_simps]:
  assumes "length t < chans * bps" "chans * bps \<le> length fp"
  shows "read_frame fp chans bps t = Some (0, overwrite fp 0 (map ucast t), [])"
  using assms read_frame_loop_short [of t "chans * bps" 0 fp] by (simp add: read_frame_def)

lemma write_frame_ok:
  assumes "chans * bps \<le> length fp" "map ucast (take (chans * bps) fp) = f"
  shows "write_frame fp chans bps out = Some (out @ f)"
  using assms by (simp add: write_frame_def buf_simps)

lemma take_overwrite_bytes:
  "length f = n \<Longrightarrow> n \<le> length fp \<Longrightarrow> take n (overwrite fp 0 (map ucast f)) = (map ucast f :: u32 list)"
  using take_overwrite_0 [of "map ucast f" fp] by simp

lemma map_ucast_bytes [simp]: "map ucast (map ucast f :: u32 list) = (f :: byte list)"
  by (induction f) simp_all

lemma map_ucast_comp [simp]: "map ((ucast :: u32 \<Rightarrow> byte) \<circ> ucast) f = f"
  by (induction f) simp_all

lemma c_mod_nat:
  assumes "i < 2 ^ 31" "0 < f" "f < 2 ^ 31"
  shows "c_mod (of_nat i) (of_nat f) = 0 \<longleftrightarrow> i mod f = 0"
proof -
  have s: "sint (of_nat k :: u32) = int k" if "k < 2 ^ 31" for k
    using that by (simp add: signed_of_nat signed_take_bit_int_eq_self_iff)
  have "int i smod int f = int i mod int f"
    using assms(2) by (cases "i = 0")
      (simp_all add: signed_modulo_int_def signed_divide_int_def minus_div_mult_eq_mod)
  then have "sint (of_nat i :: u32) smod sint (of_nat f :: u32) = int (i mod f)"
    using assms by (simp add: s zmod_int)
  moreover have "i mod f < f" using assms(2) by simp
  then have "(word_of_int (int (i mod f)) :: u32) = 0 \<longleftrightarrow> i mod f = 0"
    using assms(3) by (auto simp: word_of_nat_eq_0_iff dest: dvd_imp_le)
  ultimately show ?thesis by (simp only: c_mod_def)
qed

subsection \<open>Speeding up\<close>

lemma speed_loop_frames:
  assumes "frames_ok (chans * bps) fs t" "chans * bps \<le> length fp"
    and "0 < f" "f \<le> 1024" "i + length fs < 2 ^ 31"
  shows "\<exists>fp'. speed_loop chans bps (of_nat f) (of_nat i) fp (concat fs @ t) out =
    Some (fp', [], out @ concat (nths fs {j. (i + j) mod f = 0}))"
  using assms
proof (induction fs arbitrary: fp i out)
  case Nil
  then show ?case
    by (subst speed_loop.simps) (simp add: frames_ok_def buf_simps)
next
  case (Cons x xs)
  let ?fp = "overwrite fp 0 (map ucast x)"
  have fp: "length ?fp = length fp" "map ucast (take (chans * bps) ?fp) = x"
    using Cons.prems by (simp_all add: take_overwrite_bytes)
  have eq: "{j. (i + Suc j) mod f = 0} = {j. (Suc i + j) mod f = 0}" by simp
  let ?out = "if i mod f = 0 then out @ x else out"
  obtain fp' where "speed_loop chans bps (of_nat f) (of_nat (Suc i)) ?fp (concat xs @ t) ?out =
      Some (fp', [], ?out @ concat (nths xs {j. (Suc i + j) mod f = 0}))"
    using Cons.IH [of ?fp "Suc i" ?out] Cons.prems fp by auto
  moreover have "speed_loop chans bps (of_nat f) (of_nat i) fp (concat (x # xs) @ t) out =
      speed_loop chans bps (of_nat f) (of_nat (Suc i)) ?fp (concat xs @ t) ?out"
    using Cons.prems fp write_frame_ok [of chans bps ?fp x out]
    by (subst speed_loop.simps) (simp add: buf_simps c_mod_nat add.commute)
  ultimately show ?case
    by (simp add: nths_Cons eq)
qed

subsection \<open>Slowing down\<close>

fun slow_frames :: "nat \<Rightarrow> nat \<Rightarrow> nat \<Rightarrow> byte list \<Rightarrow> byte list list \<Rightarrow> byte list list" where
  "slow_frames chans bps f p [] = []"
| "slow_frames chans bps f p (q # qs) =
     map (\<lambda>k. blend_bytes chans bps (of_nat f) (of_nat k) p q) [1..<f] @ q # slow_frames chans bps f q qs"

lemma between_loop_frames:
  assumes "bps \<le> 4" "chans * bps \<le> length op" "length pf = length op" "length fp = length op"
    and "take (chans * bps) pf = map ucast p" "take (chans * bps) fp = map ucast q" "i \<le> f"
  shows "\<exists>op'. between_loop chans bps i f pf fp op out =
    Some (op', out @ concat (map (\<lambda>k. blend_bytes chans bps (of_nat f) (of_nat k) p q) [i..<f]))
    \<and> length op' = length op"
  using assms(2-)
proof (induction "f - i" arbitrary: i op out)
  case 0
  then show ?case by (subst between_loop.simps) simp
next
  case (Suc d)
  then have i: "i < f" "d = f - Suc i" "[i..<f] = i # [Suc i..<f]" by (simp_all add: upt_conv_Cons)
  let ?b = "blend_bytes chans bps (of_nat f) (of_nat i) p q"
  obtain xs where xs: "calcu_frame pf fp op chans bps (of_nat f) (of_nat i) = Some (overwrite op 0 xs)"
    "map ucast xs = ?b"
    using calcu_frame_loop_bytes [of bps 0 chans op pf fp p q "of_nat f" "of_nat i"] assms(1) Suc.prems
    by (auto simp: calcu_frame_def)
  have len: "length xs = chans * bps" using arg_cong [OF xs(2), of length] by simp
  let ?op = "overwrite op 0 xs"
  have op: "length ?op = length op" "map ucast (take (chans * bps) ?op) = ?b"
    using Suc.prems len xs(2) take_overwrite_0 [of xs op] by simp_all
  obtain op' where "between_loop chans bps (Suc i) f pf fp ?op (out @ ?b) =
      Some (op', (out @ ?b) @ concat (map (\<lambda>k. blend_bytes chans bps (of_nat f) (of_nat k) p q) [Suc i..<f]))
      \<and> length op' = length op"
    using Suc.hyps(1) [of "Suc i" ?op "out @ ?b"] Suc.prems i op by auto
  then show ?case
    using i xs(1) write_frame_ok [of chans bps ?op ?b out] op Suc.prems
    by (subst between_loop.simps) simp
qed

lemma slow_loop_frames:
  assumes "frames_ok (chans * bps) fs t" "chans * bps \<le> length op" "length pf = length op"
    and "length fp = length op" "take (chans * bps) pf = map ucast p"
    and "0 < f" "f \<le> 1024" "bps \<le> 4"
  shows "\<exists>pf' fp' op'. slow_loop chans bps (of_nat f) pf fp op (concat fs @ t) out =
    Some (pf', fp', op', [], out @ concat (slow_frames chans bps f p fs))"
  using assms
proof (induction fs arbitrary: fp pf op p out)
  case Nil
  then show ?case
    by (subst slow_loop.simps) (simp add: frames_ok_def buf_simps)
next
  case (Cons q qs)
  let ?fp = "overwrite fp 0 (map ucast q)"
  have fp: "length ?fp = length op" "take (chans * bps) ?fp = map ucast q"
    using Cons.prems by (simp_all add: take_overwrite_bytes)
  have f: "unat (of_nat f :: u32) = f" using Cons.prems by (simp add: unat_of_nat)
  let ?bs = "concat (map (\<lambda>k. blend_bytes chans bps (of_nat f) (of_nat k) p q) [1..<f])"
  obtain op' where b: "between_loop chans bps 1 f pf ?fp op out = Some (op', out @ ?bs)"
      "length op' = length op"
    using between_loop_frames [of bps chans op pf ?fp p q 1 f out] Cons.prems fp by auto
  have w: "write_frame ?fp chans bps (out @ ?bs) = Some ((out @ ?bs) @ q)"
    using Cons.prems fp by (intro write_frame_ok) simp_all
  let ?pf = "overwrite pf 0 (map ucast q)"
  have c: "framecpy pf ?fp chans bps = Some ?pf"
    using Cons.prems fp by (simp add: framecpy_def buf_simps)
  have pf: "length ?pf = length op" "take (chans * bps) ?pf = map ucast q"
    using Cons.prems by (simp_all add: take_overwrite_bytes)
  obtain pf' fp' op'' where "slow_loop chans bps (of_nat f) ?pf ?fp op' (concat qs @ t) ((out @ ?bs) @ q) =
      Some (pf', fp', op'', [], ((out @ ?bs) @ q) @ concat (slow_frames chans bps f q qs))"
    using Cons.IH [of op' ?pf ?fp q "(out @ ?bs) @ q"] Cons.prems pf fp b by auto
  then show ?case
    using Cons.prems b w c f
    by (subst slow_loop.simps) (simp add: buf_simps)
qed

subsection \<open>Encrypting\<close>

fun crypt_frames :: "nat \<Rightarrow> nat \<Rightarrow> u64 \<Rightarrow> byte list list \<Rightarrow> byte list list" where
  "crypt_frames chans bps rnd [] = []"
| "crypt_frames chans bps rnd (f # fs) =
     crypt_bytes bps (fst (keystream chans rnd)) f
     # crypt_frames chans bps (snd (keystream chans rnd)) fs"

lemma frames_ok_crypt:
  "frames_ok (chans * bps) fs t \<Longrightarrow> frames_ok (chans * bps) (crypt_frames chans bps rnd fs) t"
  by (induction fs arbitrary: rnd) (simp_all)

lemma crypt_frames_twice:
  "frames_ok (chans * bps) fs t \<Longrightarrow> bps \<le> 4 \<Longrightarrow>
   crypt_frames chans bps rnd (crypt_frames chans bps rnd fs) = fs"
  by (induction fs arbitrary: rnd) (simp_all add: crypt_bytes_twice)

lemma crypt_loop_frames:
  assumes "frames_ok (chans * bps) fs t" "chans * bps \<le> length op" "length fp = length op" "bps \<le> 4"
  shows "\<exists>fp' op'. crypt_loop chans bps rnd fp op (concat fs @ t) out =
    Some (fp', op', [], out @ concat (crypt_frames chans bps rnd fs))"
  using assms
proof (induction fs arbitrary: fp op out rnd)
  case Nil
  then show ?case
    by (subst crypt_loop.simps) (simp add: frames_ok_def buf_simps)
next
  case (Cons q qs)
  let ?fp = "overwrite fp 0 (map ucast q)"
  let ?k = "keystream chans rnd"
  have fp: "length ?fp = length op" "take (chans * bps) ?fp = map ucast q"
    using Cons.prems by (simp_all add: take_overwrite_bytes)
  obtain xs where xs: "crypt_frame ?fp op chans bps rnd = Some (overwrite op 0 xs, snd ?k)"
    "map ucast xs = crypt_bytes bps (fst ?k) q"
    using crypt_frame_bytes [of bps q chans op ?fp rnd] Cons.prems fp by auto
  let ?op = "overwrite op 0 xs"
  have len: "length xs = chans * bps"
    using arg_cong [OF xs(2), of length] Cons.prems by simp
  have op: "length ?op = length op" "map ucast (take (chans * bps) ?op) = crypt_bytes bps (fst ?k) q"
    using Cons.prems len xs(2) take_overwrite_0 [of xs op] by simp_all
  obtain fp' op' where "crypt_loop chans bps (snd ?k) ?fp ?op (concat qs @ t)
      (out @ crypt_bytes bps (fst ?k) q) =
      Some (fp', op', [], (out @ crypt_bytes bps (fst ?k) q) @ concat (crypt_frames chans bps (snd ?k) qs))"
    using Cons.IH [of ?op ?fp "snd ?k" "out @ crypt_bytes bps (fst ?k) q"] Cons.prems op fp by auto
  then show ?case
    using Cons.prems xs(1) write_frame_ok [of chans bps ?op _ out, OF _ op(2)] op(1)
    by (subst crypt_loop.simps) (simp add: buf_simps)
qed

subsection \<open>Whole runs\<close>

definition ann_trunc :: "byte list \<Rightarrow> byte list" where
  "ann_trunc ann = (let s = takeWhile (\<lambda>x. x \<noteq> 0) ann in s @ replicate (length ann - length s) 0)"

lemma length_ann_trunc [simp]: "length (ann_trunc ann) = length ann"
  using length_takeWhile_le [of "\<lambda>x. x \<noteq> 0" ann] by (simp add: ann_trunc_def Let_def)

lemma takeWhile_replicate_0: "takeWhile (\<lambda>x. x \<noteq> 0) (replicate n (0 :: byte)) = []"
  by (cases n) simp_all

lemma ann_trunc_idem [simp]: "ann_trunc (ann_trunc ann) = ann_trunc ann"
proof -
  let ?s = "takeWhile (\<lambda>x. x \<noteq> 0) ann"
  have "takeWhile (\<lambda>x. x \<noteq> 0) (?s @ replicate n 0) = ?s" for n
    by (subst takeWhile_append2) (auto dest: set_takeWhileD simp: takeWhile_replicate_0)
  then have "takeWhile (\<lambda>x. x \<noteq> 0) (ann_trunc ann) = ?s" by (simp add: ann_trunc_def Let_def)
  then show ?thesis by (simp add: ann_trunc_def [of "ann_trunc ann"]) (simp add: ann_trunc_def Let_def)
qed

lemma last_ann_trunc:
  assumes "ann = [] \<or> last ann = 0"
  shows "ann_trunc ann = [] \<or> last (ann_trunc ann) = 0"
proof (cases "ann = []")
  case False
  then have "0 \<in> set ann" using assms last_in_set by fastforce
  then have "length (takeWhile (\<lambda>x. x \<noteq> 0) ann) < length ann"
    by (metis (full_types) length_takeWhile_le nat_less_le takeWhile_eq_all_conv takeWhile_eq_take take_all)
  then show ?thesis by (simp add: ann_trunc_def Let_def)
qed (simp add: ann_trunc_def)

lemma annotationcpy_string [buf_simps]:
  assumes "0 \<notin> set xs" "at + length xs < length dest"
  shows "annotationcpy at dest (length pre) (pre @ xs @ 0 # rest) n =
    Some (n + Suc (length xs), overwrite dest at (xs @ [0]))"
  using assms
proof (induction xs arbitrary: at dest pre n)
  case Nil
  then show ?case
    by (subst annotationcpy.simps)
      (auto simp: buf_get_def buf_put_def nth_append overwrite_Cons [where xs = "[]", simplified, symmetric])
next
  case (Cons x xs)
  have "annotationcpy at dest (length pre) (pre @ (x # xs) @ 0 # rest) n =
      annotationcpy (Suc at) (dest[at := x]) (length (pre @ [x])) ((pre @ [x]) @ xs @ 0 # rest) (Suc n)"
    using Cons.prems by (subst annotationcpy.simps) (simp add: buf_get_def buf_put_def nth_append)
  also have "\<dots> = Some (n + Suc (length (x # xs)), overwrite dest at ((x # xs) @ [0]))"
    using Cons.prems Cons.IH [of "Suc at" "dest[at := x]" "pre @ [x]" "Suc n"]
    by (simp add: overwrite_Cons)
  finally show ?case .
qed

text \<open>
  The globals before \<open>main\<close> runs: zeroed, and frame buffers of the same capacity. The code
  declares them as \<open>char [CHANNELS_MAX * sizeof(int)]\<close> and passes them as \<open>int *\<close>, one int for
  each byte of a sample, so each has room for \<open>FRAME_INTS\<close> bytes of samples: this is \<open>fresh\<close>.
  The lemmas need only room for one frame (\<open>roomy\<close>).
\<close>

definition FRAME_INTS :: nat where
  "FRAME_INTS = 2"

definition roomy :: "nat \<Rightarrow> audio \<Rightarrow> bool" where
  "roomy n st \<longleftrightarrow> magic_number (hp st) = 0 \<and> input_annotation st = replicate 1024 0 \<and>
     output_annotation st = replicate 1024 0 \<and> length (previous_frame st) = length (output_frame st) \<and>
     length (input_frame st) = length (output_frame st) \<and> n \<le> length (output_frame st) \<and> stdout st = []"

definition fresh :: "audio \<Rightarrow> bool" where
  "fresh st \<longleftrightarrow> roomy 0 st \<and> length (output_frame st) = FRAME_INTS"

lemma fresh_roomy: "fresh st \<Longrightarrow> n \<le> FRAME_INTS \<Longrightarrow> roomy n st"
  by (simp add: fresh_def roomy_def)

definition chans_of :: "audio_header \<Rightarrow> nat" where
  "chans_of h = unat (channels h)"

definition bps_of :: "audio_header \<Rightarrow> nat" where
  "bps_of h = unat (encoding h - 1)"

definition stream_ok :: "audio_header \<Rightarrow> byte list \<Rightarrow> byte list list \<Rightarrow> byte list \<Rightarrow> bool" where
  "stream_ok h ann fs t \<longleftrightarrow> header_accepted h \<and> unat (data_offset h) = 24 + length ann \<and>
     length ann \<le> 1000 \<and> (ann = [] \<or> last ann = 0) \<and> frames_ok (chans_of h * bps_of h) fs t"

lemma bps_le: "header_accepted h \<Longrightarrow> bps_of h \<le> 4"
  by (auto simp: header_accepted_def bps_of_def)

lemma chans_pos: "header_accepted h \<Longrightarrow> 0 < chans_of h * bps_of h"
  by (auto simp: header_accepted_def bps_of_def chans_of_def)

lemma upto_first_zero:
  assumes "0 < k"
  shows "\<exists>rest. ann @ replicate k 0 = takeWhile (\<lambda>x. x \<noteq> 0) ann @ (0 :: byte) # rest"
proof (cases "0 \<in> set ann")
  case True
  then obtain rest where "dropWhile (\<lambda>x. x \<noteq> 0) ann = 0 # rest"
    by (metis (mono_tags, lifting) dropWhile_eq_Nil_conv hd_dropWhile list.collapse)
  then show ?thesis
    by (metis append.assoc append_Cons takeWhile_dropWhile_id)
next
  case False
  then have tw: "takeWhile (\<lambda>x. x \<noteq> 0) ann = ann" by (auto simp: takeWhile_eq_all_conv)
  show ?thesis unfolding tw using assms by (cases k) auto
qed

lemma stream_read:
  assumes "stream_ok h ann fs t" "roomy n st" "stdin st = header_bytes h @ ann @ concat fs @ t"
  shows "unat (data_offset h - AUDIO_HEADER_SIZE) = length ann"
    and "\<not> 1024 < data_offset h - AUDIO_HEADER_SIZE"
    and "read_header (hp st) (stdin st) = (1, h, ann @ concat fs @ t)"
    and "read_annotation 0 (replicate 1024 0) (data_offset h - AUDIO_HEADER_SIZE) (ann @ concat fs @ t) =
      Some (1, overwrite (replicate 1024 0) 0 ann, concat fs @ t)"
proof -
  let ?sz = "data_offset h - AUDIO_HEADER_SIZE"
  have s: "header_accepted h" "unat (data_offset h) = 24 + length ann" "length ann \<le> 1000"
      "ann = [] \<or> last ann = 0"
    using assms(1) by (simp_all add: stream_ok_def)
  have f: "magic_number (hp st) = 0" using assms(2) by (simp_all add: roomy_def)
  have "?sz = of_nat (24 + length ann) - 24"
    using s(2) by (simp only: AUDIO_HEADER_SIZE_def flip: s(2)) simp
  then have "?sz = of_nat (length ann)" by simp
  then show sz: "unat ?sz = length ann" "\<not> 1024 < ?sz"
    using s(3) by (simp_all add: unat_of_nat word_less_nat_alt)
  show "read_header (hp st) (stdin st) = (1, h, ann @ concat fs @ t)"
    using read_header_bytes [of h "hp st"] s f assms(3) by simp
  show "read_annotation 0 (replicate 1024 0) ?sz (ann @ concat fs @ t) =
      Some (1, overwrite (replicate 1024 0) 0 ann, concat fs @ t)"
    using read_annotation_bytes [of ann ?sz "replicate 1024 0" 0] sz s by auto
qed

text \<open>What every run with \<open>-p\<close> does before the transformation.\<close>

lemma recode_p:
  assumes "bit go 59" "stream_ok h ann fs t" "roomy n st"
    and "stdin st = header_bytes h @ ann @ concat fs @ t"
  shows "\<exists>st'. recode argv go 0 st =
      (let sz = data_offset h - AUDIO_HEADER_SIZE in
       if bit go 62 then recode_speed go 0 sz st'
       else if bit go 61 then recode_slow go 0 sz st'
       else if bit go 60 then recode_crypt go 0 sz st' else Some (1, st')) \<and>
    hp st' = h \<and> stdin st' = concat fs @ t \<and> stdout st' = [] \<and>
    length (output_annotation st') = 1024 \<and>
    take (length ann) (output_annotation st') = ann_trunc ann \<and>
    previous_frame st' = previous_frame st \<and> input_frame st' = input_frame st \<and>
    output_frame st' = output_frame st"
proof -
  let ?xs = "takeWhile (\<lambda>x. x \<noteq> 0) ann"
  let ?oann = "overwrite (replicate 1024 0) 0 (?xs @ [0])"
  let ?sz = "data_offset h - AUDIO_HEADER_SIZE"
  have s: "length ann \<le> 1000" using assms(2) by (simp add: stream_ok_def)
  have f: "magic_number (hp st) = 0" "input_annotation st = replicate 1024 0"
      "output_annotation st = replicate 1024 0"
    using assms(3) by (simp_all add: roomy_def)
  note r = stream_read [OF assms(2-4)]
  let ?iann = "overwrite (replicate 1024 0) 0 ann"
  have "?iann = ann @ replicate (1024 - length ann) 0"
    by (simp add: overwrite_def)
  then obtain rest where i: "?iann = ?xs @ 0 # rest"
    using upto_first_zero [of "1024 - length ann" ann] s by auto
  have le: "length ?xs \<le> length ann" by (rule length_takeWhile_le)
  have c: "annotationcpy 0 (replicate 1024 0) 0 ?iann 0 = Some (Suc (length ?xs), ?oann)"
    using annotationcpy_string [of ?xs 0 "replicate 1024 0" "[]" rest 0] le s
    by (auto simp: i dest: set_takeWhileD)
  have o: "take (length ann) ?oann = ann_trunc ann" "length ?oann = 1024"
    using le s by (simp_all add: overwrite_def ann_trunc_def Let_def take_Cons' min_def
        flip: replicate_Suc)
  show ?thesis
    using assms(1,3,4) s f r c o
    by (intro exI [of _ "st\<lparr>hp := h, input_annotation := ?iann, stdin := concat fs @ t,
      output_annotation := ?oann\<rparr>"])
      (simp add: recode_def Let_def roomy_def)
qed


definition run_p :: "audio_header \<Rightarrow> byte list \<Rightarrow> byte list list \<Rightarrow> byte list" where
  "run_p h ann fs = header_bytes h @ ann_trunc ann @ concat fs"

lemma header_ok_data_size [simp]: "header_accepted (h\<lparr>data_size := x\<rparr>) = header_accepted h"
  by (simp add: header_accepted_def)

lemma write_annotation_p:
  assumes "stream_ok h ann fs t" "length oann = 1024" "take (length ann) oann = ann_trunc ann"
  shows "\<exists>r. write_annotation c oann (data_offset h - AUDIO_HEADER_SIZE) out = Some (r, out @ ann_trunc ann)"
proof -
  have s: "unat (data_offset h) = 24 + length ann" "length ann \<le> 1000"
    using assms(1) by (simp_all add: stream_ok_def)
  have "data_offset h - AUDIO_HEADER_SIZE = of_nat (24 + length ann) - 24"
    using s(1) by (simp only: AUDIO_HEADER_SIZE_def flip: s(1)) simp
  then have "unat (data_offset h - AUDIO_HEADER_SIZE) = length ann"
      "data_offset h - AUDIO_HEADER_SIZE \<le> ANNOTATION_MAX"
    using s(2) by (simp_all add: unat_of_nat word_le_nat_alt ANNOTATION_MAX_def)
  then show ?thesis
    using write_annotation_bytes [of "data_offset h - AUDIO_HEADER_SIZE" oann c out] assms s by simp
qed

lemma recode_speed_p:
  assumes "stream_ok h ann fs t" "roomy (chans_of h * bps_of h) st" "length fs < 2 ^ 31"
    and "stdin st = header_bytes h @ ann @ concat fs @ t"
    and "bit go 59" "bit go 62" "get_factor go = of_nat f" "0 < f" "f \<le> 1024"
  shows "\<exists>st'. recode argv go 0 st = Some (1, st') \<and>
    stdout st' = run_p (h\<lparr>data_size := data_size h div of_nat f\<rparr>) ann (nths fs {j. j mod f = 0})"
proof -
  obtain st1 where st1: "recode argv go 0 st = recode_speed go 0 (data_offset h - AUDIO_HEADER_SIZE) st1"
      "hp st1 = h" "stdin st1 = concat fs @ t" "stdout st1 = []" "length (output_annotation st1) = 1024"
      "take (length ann) (output_annotation st1) = ann_trunc ann" "input_frame st1 = input_frame st"
    using recode_p [OF assms(5,1,2,4), of argv] assms(6) by (auto simp: Let_def)
  let ?h = "h\<lparr>data_size := data_size h div of_nat f\<rparr>"
  obtain r where w: "write_annotation 0 (output_annotation st1) (data_offset h - AUDIO_HEADER_SIZE)
      (header_bytes ?h) = Some (r, header_bytes ?h @ ann_trunc ann)"
    using write_annotation_p [OF assms(1) st1(5,6)] by blast
  have "chans_of h * bps_of h \<le> length (input_frame st)" using assms(2) by (simp add: roomy_def)
  then obtain fp' where l: "speed_loop (chans_of h) (bps_of h) (of_nat f) 0 (input_frame st)
      (concat fs @ t) (header_bytes ?h @ ann_trunc ann) =
      Some (fp', [], (header_bytes ?h @ ann_trunc ann) @ concat (nths fs {j. j mod f = 0}))"
    using speed_loop_frames [of "chans_of h" "bps_of h" fs t "input_frame st" f 0
        "header_bytes ?h @ ann_trunc ann"] assms
    by (auto simp: stream_ok_def)
  show ?thesis
    unfolding st1(1) recode_speed_def using st1 w l assms(7)
    by (simp add: write_header_bytes run_p_def chans_of_def bps_of_def Let_def)
qed

lemma recode_slow_p:
  assumes "stream_ok h ann (x # fs) t" "roomy (chans_of h * bps_of h) st"
    and "stdin st = header_bytes h @ ann @ concat (x # fs) @ t"
    and "bit go 59" "\<not> bit go 62" "bit go 61" "get_factor go = of_nat f" "0 < f" "f \<le> 1024"
  shows "\<exists>st'. recode argv go 0 st = Some (1, st') \<and>
    stdout st' = run_p (h\<lparr>data_size := data_size h * of_nat f\<rparr>) ann
      (x # slow_frames (chans_of h) (bps_of h) f x fs)"
proof -
  obtain st1 where st1: "recode argv go 0 st = recode_slow go 0 (data_offset h - AUDIO_HEADER_SIZE) st1"
      "hp st1 = h" "stdin st1 = x @ concat fs @ t" "stdout st1 = []" "length (output_annotation st1) = 1024"
      "take (length ann) (output_annotation st1) = ann_trunc ann" "input_frame st1 = input_frame st"
      "output_frame st1 = output_frame st" "previous_frame st1 = previous_frame st"
    using recode_p [OF assms(4,1,2,3), of argv] assms(5,6) by (auto simp: Let_def)
  let ?h = "h\<lparr>data_size := data_size h * of_nat f\<rparr>"
  let ?n = "chans_of h * bps_of h"
  obtain r where w: "write_annotation 0 (output_annotation st1) (data_offset h - AUDIO_HEADER_SIZE)
      (header_bytes ?h) = Some (r, header_bytes ?h @ ann_trunc ann)"
    using write_annotation_p [OF assms(1) st1(5,6)] by blast
  have len: "?n \<le> length (output_frame st)" "length (previous_frame st) = length (output_frame st)"
      "length (input_frame st) = length (output_frame st)"
    using assms(2) by (simp_all add: roomy_def)
  have s: "length x = ?n" "frames_ok ?n fs t" "bps_of h \<le> 4"
    using assms(1) by (simp_all add: stream_ok_def bps_le)
  let ?pf = "overwrite (previous_frame st) 0 (map ucast x)"
  have rd: "read_frame (previous_frame st) (chans_of h) (bps_of h) (x @ concat fs @ t) =
      Some (1, ?pf, concat fs @ t)"
    using s len by (simp add: buf_simps)
  have pf: "length ?pf = length (output_frame st)" "take ?n ?pf = map ucast x"
    using s len by (simp_all add: take_overwrite_bytes)
  have wf: "write_frame ?pf (chans_of h) (bps_of h) (header_bytes ?h @ ann_trunc ann) =
      Some ((header_bytes ?h @ ann_trunc ann) @ x)"
    using pf len by (intro write_frame_ok) simp_all
  obtain a b c where l: "slow_loop (chans_of h) (bps_of h) (of_nat f) ?pf (input_frame st)
      (output_frame st) (concat fs @ t) ((header_bytes ?h @ ann_trunc ann) @ x) =
      Some (a, b, c, [], ((header_bytes ?h @ ann_trunc ann) @ x)
        @ concat (slow_frames (chans_of h) (bps_of h) f x fs))"
    using slow_loop_frames [of "chans_of h" "bps_of h" fs t "output_frame st" ?pf "input_frame st" x f]
      s len pf assms(8,9) by blast
  show ?thesis
    unfolding st1(1) recode_slow_def using st1 w rd wf l assms(7)
    by (simp add: write_header_bytes run_p_def chans_of_def bps_of_def Let_def)
qed

definition key_of :: "u64 \<Rightarrow> u32" where
  "key_of go = ucast go"

lemma drop_push_32: "(ucast (drop_bit 32 (push_bit 32 (go :: u64))) :: u32) = ucast go"
  by (rule bit_word_eqI) (auto simp: bit_simps)

lemma recode_crypt_p:
  assumes "stream_ok h ann fs t" "roomy (chans_of h * bps_of h) st"
    and "stdin st = header_bytes h @ ann @ concat fs @ t"
    and "bit go 59" "\<not> bit go 62" "\<not> bit go 61" "bit go 60"
  shows "\<exists>st'. recode argv go 0 st = Some (1, st') \<and>
    stdout st' = run_p h ann (crypt_frames (chans_of h) (bps_of h) (mysrand (key_of go)) fs)"
proof -
  obtain st1 where st1: "recode argv go 0 st = recode_crypt go 0 (data_offset h - AUDIO_HEADER_SIZE) st1"
      "hp st1 = h" "stdin st1 = concat fs @ t" "stdout st1 = []" "length (output_annotation st1) = 1024"
      "take (length ann) (output_annotation st1) = ann_trunc ann" "input_frame st1 = input_frame st"
      "output_frame st1 = output_frame st"
    using recode_p [OF assms(4,1,2,3), of argv] assms(5-7) by (auto simp: Let_def)
  obtain r where w: "write_annotation 0 (output_annotation st1) (data_offset h - AUDIO_HEADER_SIZE)
      (header_bytes h) = Some (r, header_bytes h @ ann_trunc ann)"
    using write_annotation_p [OF assms(1) st1(5,6)] by blast
  have "chans_of h * bps_of h \<le> length (output_frame st)"
      "length (input_frame st) = length (output_frame st)"
    using assms(2) by (simp_all add: roomy_def)
  then obtain a b where l: "crypt_loop (chans_of h) (bps_of h) (mysrand (key_of go)) (input_frame st)
      (output_frame st) (concat fs @ t) (header_bytes h @ ann_trunc ann) =
      Some (a, b, [], (header_bytes h @ ann_trunc ann)
        @ concat (crypt_frames (chans_of h) (bps_of h) (mysrand (key_of go)) fs))"
    using crypt_loop_frames [of "chans_of h" "bps_of h" fs t "output_frame st" "input_frame st"
        "mysrand (key_of go)"] assms(1) bps_le [of h] unfolding stream_ok_def by blast
  show ?thesis
    unfolding st1(1) recode_crypt_def using st1 w l
    by (simp add: write_header_bytes run_p_def chans_of_def bps_of_def key_of_def drop_push_32 Let_def)
qed

subsection \<open>From the command line to the output\<close>

lemma is_dec_not_dash: "is_dec c \<Longrightarrow> c \<noteq> ch CHR ''-''"
  by (auto simp: is_dec_def)

lemma list_all_hd: "list_all P s \<Longrightarrow> s \<noteq> [] \<Longrightarrow> P (s ! 0)"
  by (cases s) simp_all

lemma strToInt_factor:
  assumes "list_all is_dec s" "number 10 dec_digit s \<le> 1024"
  shows "(scast (strToInt s) :: u64) = of_nat (number 10 dec_digit s)"
proof -
  let ?m = "number 10 dec_digit s"
  have "strToInt s = of_nat ?m"
    using strToInt_loop_number [OF assms(1), of 0] by (simp add: strToInt_def number_def)
  moreover have "sint (of_nat ?m :: u32) = int ?m"
    using assms(2) by (simp add: signed_of_nat signed_take_bit_int_eq_self_iff)
  ultimately show ?thesis by (simp add: scast_eq)
qed

lemma sint_small_u64: "m \<le> 1024 \<Longrightarrow> sint (of_nat m :: u64) = int m"
  by (simp add: signed_of_nat signed_take_bit_int_eq_self_iff)

lemma bit_small_nat: "m < 1024 \<Longrightarrow> bit (m :: nat) i \<Longrightarrow> i < 10"
  using bit_take_bit_iff [of 10 m i] by (simp add: take_bit_nat_eq_self)

definition factor_bits :: "nat \<Rightarrow> u64" where
  "factor_bits f = push_bit 48 (of_nat (f - 1))"

lemma bit_factor_bits:
  assumes "1 \<le> f" "f \<le> 1024"
  shows "bit (factor_bits f) i \<longleftrightarrow> 48 \<le> i \<and> i < 58 \<and> bit (f - 1) (i - 48)"
proof -
  obtain k where "f = Suc k" "k < 1024" using assms by (cases f) auto
  then show ?thesis
    using bit_small_nat [of k "i - 48"] by (auto simp: factor_bits_def bit_simps)
qed

lemma get_factor_bits:
  assumes "1 \<le> f" "f \<le> 1024" "m = bit_u \<or> m = bit_d"
  shows "get_factor (m OR factor_bits f OR bit_p) = of_nat f"
proof -
  obtain k where k: "f = Suc k" "k < 1024" using assms by (cases f) auto
  have "(ucast (drop_bit 54 (push_bit 6 (m OR factor_bits f OR bit_p))) :: u32) = of_nat k"
    using assms k bit_small_nat [of k]
    by (intro bit_word_eqI) (auto simp: bit_simps bit_factor_bits)
  then show ?thesis using k by (simp add: get_factor_def)
qed

lemma validargs_factor_p:
  assumes "m = CHR ''u'' \<and> b = bit_u \<or> m = CHR ''d'' \<and> b = bit_d"
    and "ds \<noteq> []" "list_all is_dec ds" "1 \<le> number 10 dec_digit ds" "number 10 dec_digit ds \<le> 1024"
  shows "validargs [prog, cs [CHR ''-'', m], cs ''-f'', ds, cs ''-p''] 0 =
    Some (1, b OR factor_bits (number 10 dec_digit ds) OR bit_p)"
proof -
  let ?f = "number 10 dec_digit ds"
  have c: "c_at ds 0 = Some (ds ! 0)" "ds ! 0 \<noteq> ch CHR ''-''"
    using assms(2) is_dec_not_dash [OF list_all_hd [OF assms(3,2)]] by (simp_all add: c_at_def)
  have "(scast (strToInt ds) :: u64) - 1 = of_nat (?f - 1)"
    using assms(3-5) by (simp add: strToInt_factor of_nat_diff)
  then have "push_bit 48 ((scast (strToInt ds) :: u64) - 1) = factor_bits ?f"
    by (simp add: factor_bits_def)
  then show ?thesis
    using assms c sint_small_u64 [of ?f]
    by (elim disjE conjE; simp add: validargs_def validargs_d_def validargs_u_def Let_def arg_at_def
        arg_def c_at_def strToInt_factor or.assoc)
qed

lemma hex_scan_ok:
  assumes "list_all is_hex ks"
  shows "hex_scan ks n = Some (n + length ks)"
  using assms
proof (induction ks arbitrary: n)
  case (Cons c ks)
  then have c: "c \<noteq> 0" "c < 128" by (auto simp: is_hex_def is_dec_def word_le_nat_alt word_less_nat_alt)
  have d: "sint c = int (unat c)" by (simp only: sint_small_byte [OF c(2)] uint_nat)
  have "48 \<le> unat c \<and> unat c \<le> 57 \<or> 65 \<le> unat c \<and> unat c \<le> 70 \<or> 97 \<le> unat c \<and> unat c \<le> 102"
    using Cons.prems unfolding is_hex_def is_dec_def word_le_nat_alt by simp
  then have "48 \<le> sint c \<and> sint c \<le> 57 \<or> 65 \<le> sint c \<and> sint c \<le> 70 \<or> 97 \<le> sint c \<and> sint c \<le> 102"
    unfolding d by linarith
  then show ?case using c(1) Cons by auto
qed simp

lemma validargs_key_p:
  assumes "list_all is_hex ks" "length ks \<le> 8"
  shows "validargs [prog, cs ''-c'', cs ''-k'', ks, cs ''-p''] 0 =
    Some (1, bit_c OR ucast (strToHex ks) OR bit_p)"
  using assms hex_scan_ok [OF assms(1), of 0]
  by (simp add: validargs_def validargs_c_def Let_def arg_at_def arg_def c_at_def or.assoc)

lemma key_of_bits: "key_of (bit_c OR ucast (w :: u32) OR bit_p) = w"
  unfolding key_of_def by (rule bit_word_eqI) (auto simp: bit_simps)



lemma audio_main_crypt:
  assumes "stream_ok h ann fs t" "roomy (chans_of h * bps_of h) st"
    and "stdin st = header_bytes h @ ann @ concat fs @ t" "list_all is_hex ks" "length ks \<le> 8"
  shows "map_option (\<lambda>(r, st). (r, stdout st))
      (audio_main [prog, cs ''-c'', cs ''-k'', ks, cs ''-p''] 0 0 st) =
    Some (0, run_p h ann (crypt_frames (chans_of h) (bps_of h) (mysrand (strToHex ks)) fs))"
proof -
  let ?go = "bit_c OR ucast (strToHex ks) OR bit_p"
  have bits: "bit ?go 59" "\<not> bit ?go 62" "\<not> bit ?go 61" "bit ?go 60" "\<not> bit ?go 63"
    by (simp_all add: bit_or_iff bit_key_high)
  obtain st' where "recode [prog, cs ''-c'', cs ''-k'', ks, cs ''-p''] ?go 0 st = Some (1, st')"
    "stdout st' = run_p h ann (crypt_frames (chans_of h) (bps_of h) (mysrand (strToHex ks)) fs)"
    using recode_crypt_p [OF assms(1-3) bits(1-4)] key_of_bits by auto
  then show ?thesis using validargs_key_p [OF assms(4,5)] bits by (simp add: audio_main_def)
qed


text \<open>The annotation that is written without \<open>-p\<close>.\<close>

lemma put_bytes_ok:
  "at + length xs \<le> length ann \<Longrightarrow> put_bytes at ann xs = Some (at + length xs, overwrite ann at xs)"
  by (induction xs arbitrary: at ann) (simp_all add: buf_simps overwrite_Cons)

lemma put_bytes_fault:
  "length ann < at + length xs \<Longrightarrow> at \<le> length ann \<Longrightarrow> put_bytes at ann xs = None"
proof (induction xs arbitrary: at ann)
  case (Cons x xs)
  then show ?case by (cases "at < length ann") (simp_all add: buf_simps)
qed simp

definition cstr_of :: "cstr \<Rightarrow> byte list" where
  "cstr_of s = takeWhile (\<lambda>x. x \<noteq> 0) s"

lemma put_string_bytes: "put_string at ann s = put_bytes at ann (cstr_of s)"
  by (induction s arbitrary: at ann) (simp_all add: cstr_of_def)

lemma put_bytes_append:
  "put_bytes at ann (xs @ ys) =
   do { (at, ann) \<leftarrow> put_bytes at ann xs; put_bytes at ann ys }"
  by (induction xs arbitrary: at ann) (simp_all split: bind_splits)

lemma put_bytes_at: "put_bytes at ann xs = Some (at', ann') \<Longrightarrow> at' = at + length xs"
proof (induction xs arbitrary: at ann)
  case (Cons x xs)
  then obtain b where "put_bytes (Suc at) b xs = Some (at', ann')" by (auto split: bind_splits)
  then show ?case using Cons.IH by fastforce
qed simp

lemma annotationcpy_put_bytes:
  assumes "0 \<notin> set xs"
  shows "annotationcpy at dest (length pre) (pre @ xs @ 0 # rest) n =
    do { (_, d) \<leftarrow> put_bytes at dest (xs @ [0]); Some (n + Suc (length xs), d) }"
  using assms
proof (induction xs arbitrary: at dest pre n)
  case Nil
  then show ?case
    by (subst annotationcpy.simps) (simp add: buf_get_def nth_append)
next
  case (Cons x xs)
  have "annotationcpy at dest (length pre) (pre @ (x # xs) @ 0 # rest) n =
      do { d \<leftarrow> buf_put dest at x;
           annotationcpy (Suc at) d (length (pre @ [x])) ((pre @ [x]) @ xs @ 0 # rest) (Suc n) }"
    using Cons.prems by (subst annotationcpy.simps) (simp add: buf_get_def nth_append)
  also have "\<dots> = do { d \<leftarrow> buf_put dest at x; (_, d) \<leftarrow> put_bytes (Suc at) d (xs @ [0]);
      Some (Suc n + Suc (length xs), d) }"
    using Cons.prems by (subst Cons.IH) simp_all
  finally show ?case by simp
qed

definition mode_text :: "cstr list \<Rightarrow> char \<Rightarrow> char \<Rightarrow> byte list" where
  "mode_text argv m opt = [ch CHR '' '', ch CHR ''-'', ch m] @
    (if arg_at argv 2 1 = Some (ch opt)
     then [ch CHR '' '', ch CHR ''-'', ch opt, ch CHR '' ''] @ cstr_of (argv ! 3) else [])"

definition ann_line :: "cstr list \<Rightarrow> u64 \<Rightarrow> byte list" where
  "ann_line argv go = cstr_of (argv ! 0) @
    (if bit go 62 then mode_text argv (CHR ''u'') (CHR ''f'')
     else if bit go 61 then mode_text argv (CHR ''d'') (CHR ''f'')
     else if bit go 60 then mode_text argv (CHR ''c'') (CHR ''k'') else []) @ [10]"

definition pad8 :: "byte list \<Rightarrow> byte list" where
  "pad8 xs = xs @ replicate ((8 - length xs mod 8) mod 8) 0"

lemma put_mode_text:
  assumes "arg_at argv 2 1 \<noteq> None" "arg_at argv 2 1 = Some (ch opt) \<Longrightarrow> 3 < length argv"
  shows "put_mode argv m opt at ann = put_bytes at ann (mode_text argv m opt)"
proof (cases "arg_at argv 2 1 = Some (ch opt)")
  case True
  have m: "mode_text argv m opt = [ch CHR '' '', ch CHR ''-'', ch m] @
      [ch CHR '' '', ch CHR ''-'', ch opt, ch CHR '' ''] @ cstr_of (argv ! 3)"
    using True by (simp add: mode_text_def)
  show ?thesis
    unfolding put_mode_def m put_bytes_append using True assms(2)
    by (simp add: arg_def put_string_bytes case_prod_beta del: put_bytes.simps)
next
  case False
  then have m: "mode_text argv m opt = [ch CHR '' '', ch CHR ''-'', ch m]"
    by (simp add: mode_text_def)
  show ?thesis
    unfolding put_mode_def m using False assms(1)
    by (auto simp: case_prod_beta simp del: put_bytes.simps split: bind_splits)
qed

lemma make_annotation_text:
  assumes "arg_at argv 2 1 \<noteq> None" "3 < length argv" "iann = xs @ 0 # rest" "0 \<notin> set xs"
    and "sz = 0 \<Longrightarrow> xs = []"
  shows "make_annotation argv go sz iann oann =
    put_bytes 0 oann (pad8 (ann_line argv go @ xs @ [0]))"
proof -
  let ?m = "if bit go 62 then mode_text argv (CHR ''u'') (CHR ''f'')
     else if bit go 61 then mode_text argv (CHR ''d'') (CHR ''f'')
     else if bit go 60 then mode_text argv (CHR ''c'') (CHR ''k'') else []"
  let ?t = "ann_line argv go @ xs @ [0]"
  have cpy: "annotationcpy at dest 0 iann 0 = do { (_, d) \<leftarrow> put_bytes at dest (xs @ [0]); Some (Suc (length xs), d) }"
    for at dest using annotationcpy_put_bytes [OF assms(4), of at dest "[]" rest 0] assms(3) by simp
  have body: "(if sz = 0 then put_bytes at ann [0]
        else do { (n, ann) \<leftarrow> annotationcpy at ann 0 iann 0; Some (at + n, ann) })
      = put_bytes at ann (xs @ [0])" for at ann
  proof (cases "put_bytes at ann (xs @ [0])")
    case (Some r)
    then have "fst r = at + Suc (length xs)" using put_bytes_at [of at ann "xs @ [0]"] by (cases r) auto
    then show ?thesis using Some assms(5) by (cases r) (auto simp: cpy simp del: put_bytes.simps)
  qed (use assms(5) in \<open>auto simp: cpy simp del: put_bytes.simps\<close>)
  have mode: "(if bit go 62 then put_mode argv (CHR ''u'') (CHR ''f'') at ann
        else if bit go 61 then put_mode argv (CHR ''d'') (CHR ''f'') at ann
        else if bit go 60 then put_mode argv (CHR ''c'') (CHR ''k'') at ann
        else Some (at, ann)) = put_bytes at ann ?m" for at ann
    using assms(1,2) by (simp add: put_mode_text)
  have "argv \<noteq> []" using assms(2) by auto
  then have "make_annotation argv go sz iann oann =
      do { (at, ann) \<leftarrow> put_bytes 0 oann ?t;
           if at mod 8 \<noteq> 0 then put_bytes at ann (replicate (8 - at mod 8) 0) else Some (at, ann) }"
    unfolding make_annotation_def mode body ann_line_def append.assoc put_bytes_append Let_def
    by (simp add: arg_def put_string_bytes case_prod_unfold del: put_bytes.simps)
  also have "\<dots> = put_bytes 0 oann (pad8 ?t)"
    unfolding pad8_def put_bytes_append [of _ _ ?t]
  proof (cases "put_bytes 0 oann ?t")
    case (Some r)
    obtain at ann where r: "r = (at, ann)" by (cases r)
    then have at: "at = length ?t" using put_bytes_at [of 0 oann ?t] Some by simp
    show "(put_bytes 0 oann ?t \<bind> (\<lambda>(at, ann). if at mod 8 \<noteq> 0
        then put_bytes at ann (replicate (8 - at mod 8) 0) else Some (at, ann))) =
      (put_bytes 0 oann ?t \<bind> (\<lambda>(at, ann). put_bytes at ann (replicate ((8 - length ?t mod 8) mod 8) 0)))"
      unfolding Some r at bind.bind_lunit prod.case by simp
  qed simp
  finally show ?thesis .
qed

text \<open>Without \<open>-p\<close> the new annotation is the command line (program name, mode, and factor
  or key when that is the second option), a newline, the old annotation up to its first zero
  byte, and zero bytes up to a multiple of eight, whenever that fits the buffer.\<close>

theorem make_annotation_fits:
  assumes "arg_at argv 2 1 \<noteq> None" "3 < length argv" "0 \<notin> set xs" "sz = 0 \<longrightarrow> xs = []"
    and "length (pad8 (ann_line argv go @ xs @ [0])) \<le> length oann"
  shows "make_annotation argv go sz (xs @ 0 # rest) oann =
    Some (length (pad8 (ann_line argv go @ xs @ [0])),
      overwrite oann 0 (pad8 (ann_line argv go @ xs @ [0])))"
  using assms make_annotation_text [of argv "xs @ 0 # rest" xs rest sz go oann]
    put_bytes_ok [of 0 "pad8 (ann_line argv go @ xs @ [0])" oann] by simp

lemma length_pad8: "length (pad8 xs) mod 8 = 0"
proof -
  have r: "r < 8 \<Longrightarrow> (r + (8 - r) mod 8) mod 8 = 0" for r :: nat by (cases "r = 0") auto
  have "(n + (8 - n mod 8) mod 8) mod 8 = 0" for n :: nat
    using r [of "n mod 8"] by (simp add: mod_add_left_eq)
  then show ?thesis by (simp add: pad8_def)
qed

lemma make_annotation_overflow:
  assumes "arg_at argv 2 1 \<noteq> None" "3 < length argv" "0 \<notin> set xs" "sz = 0 \<longrightarrow> xs = []"
    and "length oann < length (pad8 (ann_line argv go @ xs @ [0]))"
  shows "make_annotation argv go sz (xs @ 0 # rest) oann = None"
  using assms make_annotation_text [of argv "xs @ 0 # rest" xs rest sz go oann]
    put_bytes_fault [of oann 0 "pad8 (ann_line argv go @ xs @ [0])"] by simp

lemma make_annotation_no_arg:
  assumes "length argv \<le> 2" "bit go 60 \<or> bit go 61 \<or> bit go 62"
  shows "make_annotation argv go sz iann oann = None"
  using assms
  by (auto simp: make_annotation_def put_mode_def arg_at_def arg_ge case_prod_unfold Let_def
      split: bind_splits)

text \<open>A mode option alone (\<open>-u\<close>, \<open>-d\<close> or \<open>-c\<close>) is accepted by \<open>validargs\<close>,
  but on every well-formed file the run then dereferences the NULL that ends \<open>argv\<close>.\<close>

theorem mode_alone_fault:
  assumes "stream_ok h ann fs t" "roomy n st" "stdin st = header_bytes h @ ann @ concat fs @ t"
    and "m \<in> {CHR ''u'', CHR ''d'', CHR ''c''}"
  shows "audio_main [prog, cs [CHR ''-'', m]] 0 0 st = None"
proof -
  let ?argv = "[prog, cs [CHR ''-'', m]]"
  obtain go where go: "validargs ?argv 0 = Some (1, go)" "\<not> bit go 59" "\<not> bit go 63"
      "bit go 60 \<or> bit go 61 \<or> bit go 62"
    using assms(4) by (auto simp: validargs_def validargs_d_def validargs_u_def validargs_c_def
        Let_def arg_at_def arg_def c_at_def)
  have "input_annotation st = replicate 1024 0" using assms(2) by (simp add: roomy_def)
  then have "recode ?argv go 0 st = None"
    using stream_read [OF assms(1-3)] go(2) make_annotation_no_arg [of ?argv go] go(4)
    by (simp add: recode_def Let_def)
  then show ?thesis using go by (simp add: audio_main_def)
qed

text \<open>C9: A frame with more samples bytes than the input frame buffer has ints makes
  \<open>read_frame\<close> write behind the buffer (the global buffers have two ints, so any frame of more
  than two bytes does).\<close>

theorem frame_overflow:
  assumes "stream_ok h ann (f # fs) t" "roomy 0 st" "length (input_frame st) < chans_of h * bps_of h"
    and "stdin st = header_bytes h @ ann @ concat (f # fs) @ t"
    and "ds \<noteq> []" "list_all is_dec ds" "1 \<le> number 10 dec_digit ds" "number 10 dec_digit ds \<le> 1024"
  shows "audio_main [prog, cs ''-u'', cs ''-f'', ds, cs ''-p''] 0 0 st = None"
proof -
  let ?f = "number 10 dec_digit ds"
  let ?go = "bit_u OR factor_bits ?f OR bit_p"
  let ?argv = "[prog, cs ''-u'', cs ''-f'', ds, cs ''-p'']"
  have v: "validargs ?argv 0 = Some (1, ?go)"
    using assms(5-8) by (intro validargs_factor_p) simp_all
  have bits: "bit ?go 59" "bit ?go 62" "\<not> bit ?go 63"
    using assms(7,8) by (simp_all add: bit_or_iff bit_factor_bits)
  obtain st1 where st1: "recode ?argv ?go 0 st = recode_speed ?go 0 (data_offset h - AUDIO_HEADER_SIZE) st1"
      "hp st1 = h" "stdin st1 = concat (f # fs) @ t" "input_frame st1 = input_frame st"
    using recode_p [OF bits(1) assms(1,2,4), of ?argv] bits(2) by (auto simp: Let_def)
  have "length f = chans_of h * bps_of h" using assms(1) by (simp add: stream_ok_def)
  then have "read_frame (input_frame st) (chans_of h) (bps_of h) (concat (f # fs) @ t) = None"
    using read_frame_loop_fault [of 0 "input_frame st" "chans_of h * bps_of h" "concat (f # fs) @ t"] assms(3)
    by (simp add: read_frame_def)
  then have "speed_loop (chans_of h) (bps_of h) fac c (input_frame st) (concat (f # fs) @ t) out = None"
    for fac c out by (subst speed_loop.simps) simp
  then have "recode ?argv ?go 0 st = None"
    unfolding st1(1) recode_speed_def by (auto simp: st1 chans_of_def bps_of_def Let_def case_prod_unfold split: bind_splits)
  then show ?thesis using v bits by (simp add: audio_main_def)
qed

subsection \<open>Interpolation stays between the endpoints\<close>

lemma sint_small_int: "\<bar>x\<bar> < 2 ^ 31 \<Longrightarrow> sint (word_of_int x :: u32) = x"
  by (simp add: signed_of_int signed_take_bit_int_eq_self_iff) arith

lemma blend_int:
  assumes "a < 2 ^ 16" "b < 2 ^ 16" "k < f" "f \<le> 1024"
  shows "blend (of_nat a) (of_nat b) (of_nat f) (of_nat k) =
    word_of_int (int a + ((int b - int a) * int k) sdiv int f)"
proof -
  let ?x = "(int b - int a) * int k"
  have "\<bar>?x\<bar> = \<bar>int b - int a\<bar> * int k" by (simp add: abs_mult)
  also have "\<dots> \<le> 2 ^ 16 * 2 ^ 10" using assms by (intro mult_mono) auto
  finally have x: "sint (word_of_int ?x :: u32) = ?x" by (intro sint_small_int) simp
  have f: "sint (of_nat f :: u32) = int f"
    using assms by (simp add: signed_of_nat signed_take_bit_int_eq_self_iff)
  have "((of_nat b - of_nat a) * of_nat k :: u32) = word_of_int ?x" by simp
  then show ?thesis by (simp only: blend_def c_div_def x f) simp
qed

lemma sdiv_between:
  assumes "0 \<le> k" "k < (f :: int)"
  shows "min 0 x \<le> (x * k) sdiv f \<and> (x * k) sdiv f \<le> max 0 x"
proof -
  have d: "0 \<le> (\<bar>x\<bar> * k) div f" "(\<bar>x\<bar> * k) div f \<le> \<bar>x\<bar>"
  proof -
    have "\<bar>x\<bar> * k \<le> \<bar>x\<bar> * f" using assms by (intro mult_left_mono) auto
    then have "(\<bar>x\<bar> * k) div f \<le> (\<bar>x\<bar> * f) div f" using assms by (intro zdiv_mono1) auto
    then show "(\<bar>x\<bar> * k) div f \<le> \<bar>x\<bar>" using assms by simp
  qed (use assms in \<open>simp add: pos_imp_zdiv_nonneg_iff\<close>)
  show ?thesis
    using d assms by (cases "x = 0"; cases "k = 0"; cases "x < 0")
      (auto simp: signed_divide_int_def abs_mult sgn_mult)
qed

lemma between_shift:
  "min 0 (int b - int a) \<le> s \<Longrightarrow> s \<le> max 0 (int b - int a) \<Longrightarrow>
   int (min a b) \<le> int a + s \<and> int a + s \<le> int (max a b)"
  by (auto simp: min_def max_def split: if_splits)

lemma int_unat_word_of_int: "0 \<le> x \<Longrightarrow> x < 2 ^ 32 \<Longrightarrow> int (unat (word_of_int x :: u32)) = x"
  by (simp add: uint_word_of_int_eq take_bit_int_eq_self_iff)

definition channel :: "nat \<Rightarrow> nat \<Rightarrow> byte list \<Rightarrow> byte list" where
  "channel bps j f = take bps (drop (j * bps) f)"

lemma channel_blend:
  "j < n \<Longrightarrow> channel bps j (blend_bytes n bps fac k p q) =
   low_bytes bps (blend (be_val (channel bps j p)) (be_val (channel bps j q)) fac k)"
proof (induction n arbitrary: j p q)
  case (Suc n)
  then show ?case
    by (cases j) (simp_all add: channel_def ac_simps)
qed simp

lemma be_val_less:
  assumes "length r \<le> 4"
  shows "unat (be_val r) < 2 ^ (8 * length r)"
proof -
  have "bit (be_val r) i \<Longrightarrow> i < 8 * length r" for i
    using bit_be_val_low_bytes [of "length r" "be_val r" i] low_bytes_be_val [of r] assms by simp
  then have "take_bit (8 * length r) (be_val r) = be_val r" by (intro bit_word_eqI) (auto simp: bit_simps)
  then have "take_bit (8 * length r) (unat (be_val r)) = unat (be_val r)" by (metis unsigned_take_bit_eq)
  then show ?thesis by (metis take_bit_nat_less_exp)
qed

lemma be_val_low_bytes:
  assumes "n \<le> 4" "unat e < 2 ^ (8 * n)"
  shows "be_val (low_bytes n e) = e"
proof -
  have "unat (take_bit (8 * n) e) = unat e"
    using assms(2) by (simp add: unsigned_take_bit_eq take_bit_nat_eq_self)
  then have "take_bit (8 * n) e = e" by (simp only: word_unat_eq_iff)
  then have "bit e i \<Longrightarrow> i < 8 * n" for i by (metis bit_take_bit_iff)
  then show ?thesis using assms(1) by (intro bit_word_eqI) (auto simp: bit_be_val_low_bytes)
qed

lemma blend_between:
  assumes "length p \<le> 2" "length q \<le> 2" "k < f" "f \<le> 1024"
  shows "let a = unat (be_val p); b = unat (be_val q); e = unat (blend (be_val p) (be_val q) (of_nat f) (of_nat k))
    in min a b \<le> e \<and> e \<le> max a b"
proof -
  have small: "unat (be_val r) < 2 ^ 16" if "length r \<le> 2" for r
    using be_val_less [of r] that power_increasing [of "8 * length r" 16 "2 :: nat"] by simp
  let ?a = "unat (be_val p)" and ?b = "unat (be_val q)"
  let ?e = "int ?a + ((int ?b - int ?a) * int k) sdiv int f"
  have w: "blend (be_val p) (be_val q) (of_nat f) (of_nat k) = word_of_int ?e"
    using blend_int [OF small [OF assms(1)] small [OF assms(2)] assms(3,4)] by simp
  have e: "int (min ?a ?b) \<le> ?e" "?e \<le> int (max ?a ?b)"
  proof -
    have "0 \<le> int k" "int k < int f" using assms(3) by simp_all
    note d = sdiv_between [OF this, of "int ?b - int ?a"]
    show "int (min ?a ?b) \<le> ?e" "?e \<le> int (max ?a ?b)"
      using between_shift [OF d [THEN conjunct1] d [THEN conjunct2]] by blast+
  qed
  have "?e < 2 ^ 32" using e(2) small [OF assms(1)] small [OF assms(2)] by simp
  moreover have "0 \<le> ?e" using e(1) by linarith
  ultimately have "int (unat (blend (be_val p) (be_val q) (of_nat f) (of_nat k))) = ?e"
    unfolding w by (intro int_unat_word_of_int)
  then show ?thesis using e unfolding Let_def by linarith
qed

text \<open>Every sample of an interpolated frame lies between the samples of the two frames it is
  computed from, channel by channel, for samples of one or two bytes read as unsigned numbers and
  every factor up to 1024.\<close>

theorem calcu_frame_between:
  assumes "bps \<le> 2" "length p = chans * bps" "length q = chans * bps" "chans * bps \<le> length op"
    and "length pp = length op" "length ip = length op"
    and "take (chans * bps) pp = map ucast p" "take (chans * bps) ip = map ucast q" "k < f" "f \<le> 1024"
  shows "\<exists>op'. calcu_frame pp ip op chans bps (of_nat f) (of_nat k) = Some op' \<and>
    (\<forall>j<chans. let a = unat (be_val (channel bps j p)); b = unat (be_val (channel bps j q));
        e = unat (be_val (channel bps j (map ucast op')))
      in min a b \<le> e \<and> e \<le> max a b)"
proof -
  obtain xs where c: "calcu_frame pp ip op chans bps (of_nat f) (of_nat k) = Some (overwrite op 0 xs)"
      "map ucast xs = blend_bytes chans bps (of_nat f) (of_nat k) p q"
    using calcu_frame_loop_bytes [of bps 0 chans op pp ip p q "of_nat f" "of_nat k"] assms
    by (auto simp: calcu_frame_def)
  have len: "length xs = chans * bps" using arg_cong [OF c(2), of length] by simp
  have "let a = unat (be_val (channel bps j p)); b = unat (be_val (channel bps j q));
        e = unat (be_val (channel bps j (map ucast (overwrite op 0 xs))))
      in min a b \<le> e \<and> e \<le> max a b" if j: "j < chans" for j
  proof -
    have fits: "j * bps + bps \<le> chans * bps"
      using mult_le_mono1 [of "Suc j" chans bps] j by simp
    let ?p = "channel bps j p" and ?q = "channel bps j q"
    let ?e = "blend (be_val ?p) (be_val ?q) (of_nat f) (of_nat k)"
    have "channel bps j (map ucast (overwrite op 0 xs)) = channel bps j (map ucast xs)"
      using fits len by (simp add: channel_def overwrite_def)
    then have ch: "channel bps j (map ucast (overwrite op 0 xs)) = low_bytes bps ?e"
      by (simp add: c(2) channel_blend j)
    have l: "length ?p = bps" "length ?q = bps" using fits assms(2,3) by (simp_all add: channel_def)
    have b: "min (unat (be_val ?p)) (unat (be_val ?q)) \<le> unat ?e \<and>
        unat ?e \<le> max (unat (be_val ?p)) (unat (be_val ?q))"
      using blend_between [of ?p ?q k f] l assms(1,9,10) by (simp add: Let_def)
    moreover have "unat ?e < 2 ^ (8 * bps)"
      using b be_val_less [of ?p] be_val_less [of ?q] l assms(1) by auto
    ultimately show ?thesis unfolding ch Let_def using assms(1) by (simp add: be_val_low_bytes)
  qed
  then show ?thesis using c(1) by blast
qed

subsection \<open>Witnesses\<close>

text \<open>A mono file with 16-bit samples, an annotation of eight bytes and three frames.\<close>

definition sample_header :: audio_header where
  "sample_header = \<lparr>magic_number = 779316836, data_offset = 32, data_size = 6, encoding = 3,
     sample_rate = 8000, channels = 1\<rparr>"

definition sample_ann :: "byte list" where
  "sample_ann = [104, 105, 0, 0, 0, 0, 0, 0]"

definition sample_frames :: "byte list list" where
  "sample_frames = [[1, 2], [3, 4], [5, 6]]"

definition sample_state :: audio where
  "sample_state = \<lparr>hp = \<lparr>magic_number = 0, data_offset = 0, data_size = 0, encoding = 0,
       sample_rate = 0, channels = 0\<rparr>,
     input_annotation = replicate 1024 0, output_annotation = replicate 1024 0,
     previous_frame = [0, 0], input_frame = [0, 0], output_frame = [0, 0],
     stdin = header_bytes sample_header @ sample_ann @ concat sample_frames @ [7], stdout = []\<rparr>"

lemma sample_ok: "stream_ok sample_header sample_ann sample_frames [7]"
  by code_simp

lemma sample_n: "chans_of sample_header * bps_of sample_header = 2"
  by code_simp

lemma sample_fits: "chans_of sample_header * bps_of sample_header \<le> FRAME_INTS"
  by (simp add: sample_n FRAME_INTS_def)

lemma sample_fresh: "fresh sample_state"
  by (simp add: fresh_def roomy_def sample_state_def FRAME_INTS_def)

lemma sample_stdin: "stdin sample_state = header_bytes sample_header @ sample_ann @ concat sample_frames @ [7]"
  by (simp add: sample_state_def)

lemma sample_factor: "number 10 dec_digit [50] = 2" "is_dec 50"
  by code_simp+




theorem make_annotation_fits_witness:
  "make_annotation [cs ''audio'', cs ''-u'', cs ''-f'', cs ''2''] bit_u 8 ([104, 105] @ 0 # [0]) (replicate 24 1) =
    Some (length (pad8 (ann_line [cs ''audio'', cs ''-u'', cs ''-f'', cs ''2''] bit_u @ [104, 105] @ [0])),
      overwrite (replicate 24 1) 0
        (pad8 (ann_line [cs ''audio'', cs ''-u'', cs ''-f'', cs ''2''] bit_u @ [104, 105] @ [0])))"
  by (rule make_annotation_fits) code_simp+

theorem mode_alone_fault_witness: "audio_main [cs ''audio'', cs [CHR ''-'', CHR ''u'']] 0 0 sample_state = None"
  by (rule mode_alone_fault [OF sample_ok fresh_roomy [OF sample_fresh, of 0] sample_stdin]) simp_all

text \<open>Stereo 16-bit samples with the buffers of the program, which hold two ints.\<close>

theorem frame_overflow_witness:
  "audio_main [cs ''audio'', cs ''-u'', cs ''-f'', [50], cs ''-p''] 0 0
     (sample_state\<lparr>stdin := header_bytes (sample_header\<lparr>channels := 2\<rparr>) @ sample_ann
        @ concat [[1, 2, 3, 4]] @ []\<rparr>) = None"
proof (rule frame_overflow [of "sample_header\<lparr>channels := 2\<rparr>" sample_ann "[1, 2, 3, 4]" "[]" "[]"])
  show "stream_ok (sample_header\<lparr>channels := 2\<rparr>) sample_ann [[1, 2, 3, 4]] []" by code_simp
  show "roomy 0 (sample_state\<lparr>stdin := header_bytes (sample_header\<lparr>channels := 2\<rparr>) @ sample_ann
        @ concat [[1, 2, 3, 4]] @ []\<rparr>)" by (simp add: roomy_def sample_state_def)
  have "chans_of (sample_header\<lparr>channels := 2\<rparr>) * bps_of (sample_header\<lparr>channels := 2\<rparr>) = 4"
    by code_simp
  then show "length (input_frame (sample_state\<lparr>stdin := header_bytes (sample_header\<lparr>channels := 2\<rparr>)
      @ sample_ann @ concat [[1, 2, 3, 4]] @ []\<rparr>))
    < chans_of (sample_header\<lparr>channels := 2\<rparr>) * bps_of (sample_header\<lparr>channels := 2\<rparr>)"
    by (simp add: sample_state_def)
qed (simp_all add: sample_factor)

theorem calcu_frame_between_witness:
  "\<exists>op'. calcu_frame (map ucast [1, 0 :: byte]) (map ucast [0, 5 :: byte]) [0, 0] 1 2 (of_nat 4) (of_nat 3) = Some op' \<and>
    (\<forall>j<1. let a = unat (be_val (channel 2 j [1, 0])); b = unat (be_val (channel 2 j [0, 5]));
        e = unat (be_val (channel 2 j (map ucast op')))
      in min a b \<le> e \<and> e \<le> max a b)"
  by (rule calcu_frame_between) simp_all

end
