(* ===== verification/Sf_Heap.thy ===== *)
theory Sf_Heap
  imports C_Prelude
begin

text \<open>
  The heap of the storage allocator hw3: the information words of hw3/include/sfmm.h as bit
  fields, memory as a partial map from addresses to 64-bit rows, and the operations that
  hw3/lib/sfutil.o provides as a record of parameters. An access to an address that is not mapped
  (NULL, outside the heap, or not aligned to a row) is \<^term>\<open>None\<close>.
\<close>

subsection \<open>Bit fields\<close>

definition bf_get :: "nat \<Rightarrow> nat \<Rightarrow> u64 \<Rightarrow> u64" where
  "bf_get lo len w = take_bit len (drop_bit lo w)"

definition bf_put :: "nat \<Rightarrow> nat \<Rightarrow> u64 \<Rightarrow> u64 \<Rightarrow> u64" where
  "bf_put lo len v w = (w AND NOT (push_bit lo (mask len))) OR push_bit lo (take_bit len v)"

text \<open>The fields of \<open>sf_block_info\<close>, least significant first.\<close>

definition allocated :: "u64 \<Rightarrow> u64" where
  "allocated w = bf_get 0 1 w"

definition prev_allocated :: "u64 \<Rightarrow> u64" where
  "prev_allocated w = bf_get 1 1 w"

definition block_size :: "u64 \<Rightarrow> u64" where
  "block_size w = bf_get 4 28 w"

definition requested_size :: "u64 \<Rightarrow> u64" where
  "requested_size w = bf_get 32 32 w"

definition set_allocated :: "u64 \<Rightarrow> u64 \<Rightarrow> u64" where
  "set_allocated v w = bf_put 0 1 v w"

definition set_prev_allocated :: "u64 \<Rightarrow> u64 \<Rightarrow> u64" where
  "set_prev_allocated v w = bf_put 1 1 v w"

definition set_block_size :: "u64 \<Rightarrow> u64 \<Rightarrow> u64" where
  "set_block_size v w = bf_put 4 28 v w"

definition set_requested_size :: "u64 \<Rightarrow> u64 \<Rightarrow> u64" where
  "set_requested_size v w = bf_put 32 32 v w"

text \<open>\<open>info.block_size << 4\<close>: a field of 28 bits is promoted to int, so the shift is one of
  32 bits; it is sign-extended where it meets a pointer or a \<open>size_t\<close>.\<close>

definition bs_int :: "u64 \<Rightarrow> u32" where
  "bs_int w = push_bit 4 (ucast (block_size w))"

definition bsz :: "u64 \<Rightarrow> u64" where
  "bsz w = scast (bs_int w)"

text \<open>An int stored into the field after \<open>>> 4\<close>.\<close>

definition int_to_bs :: "u32 \<Rightarrow> u64" where
  "int_to_bs x = ucast (drop_bit 4 x)"

subsection \<open>Memory\<close>

record heap =
  mem :: "u64 \<Rightarrow> u64 option"
  mem_start :: u64
  mem_end :: u64
  free_list_head :: u64 \<comment> \<open>the address of \<open>sf_free_list_head\<close>\<close>

record sf_ext =
  sf_mem_grow :: "heap \<Rightarrow> u64 \<times> heap"
  sf_add_free_list :: "u64 \<Rightarrow> u64 \<Rightarrow> heap \<Rightarrow> u64 \<times> heap"

definition PAGE_SZ :: u64 where
  "PAGE_SZ = 4096"

definition ld :: "heap \<Rightarrow> u64 \<Rightarrow> u64 option" where
  "ld h a = mem h a"

definition sto :: "heap \<Rightarrow> u64 \<Rightarrow> u64 \<Rightarrow> heap option" where
  "sto h a v = (case mem h a of None \<Rightarrow> None | Some _ \<Rightarrow> Some (h\<lparr>mem := (mem h)(a \<mapsto> v)\<rparr>))"

text \<open>An assignment to bit fields of the information word at an address.\<close>

definition upd :: "heap \<Rightarrow> u64 \<Rightarrow> (u64 \<Rightarrow> u64) \<Rightarrow> heap option" where
  "upd h a f = do { w \<leftarrow> ld h a; sto h a (f w) }"

text \<open>Offsets in \<open>sf_header\<close> (info, links.next, links.prev) and in
  \<open>sf_free_list_node\<close> (size, head, next, prev).\<close>

definition link_next :: "u64 \<Rightarrow> u64" where
  "link_next b = b + 8"

definition link_prev :: "u64 \<Rightarrow> u64" where
  "link_prev b = b + 16"

definition node_size :: "u64 \<Rightarrow> u64" where
  "node_size n = n"

definition node_head :: "u64 \<Rightarrow> u64" where
  "node_head n = n + 8"

definition node_next :: "u64 \<Rightarrow> u64" where
  "node_next n = n + 32"

definition node_prev :: "u64 \<Rightarrow> u64" where
  "node_prev n = n + 40"

subsection \<open>Pieces of code that recur\<close>

text \<open>\<open>footer->info.f = header->info.f\<close> for the four named fields.\<close>

definition copy_info :: "u64 \<Rightarrow> u64 \<Rightarrow> u64" where
  "copy_info src w = set_requested_size (requested_size src) (set_allocated (allocated src)
     (set_prev_allocated (prev_allocated src) (set_block_size (block_size src) w)))"

text \<open>\<open>(b->links.next)->links.prev = b->links.prev; (b->links.prev)->links.next = b->links.next\<close>\<close>

definition unlink_block :: "heap \<Rightarrow> u64 \<Rightarrow> heap option" where
  "unlink_block h b = do {
     n \<leftarrow> ld h (link_next b);
     p \<leftarrow> ld h (link_prev b);
     h \<leftarrow> sto h (link_prev n) p;
     p \<leftarrow> ld h (link_prev b);
     n \<leftarrow> ld h (link_next b);
     sto h (link_next p) n
   }"

text \<open>The new list node \<open>n\<close> gets the block \<open>b\<close> as its only element.\<close>

definition link_single :: "heap \<Rightarrow> u64 \<Rightarrow> u64 \<Rightarrow> heap option" where
  "link_single h n b = do {
     let hd = node_head n;
     h \<leftarrow> sto h (link_next hd) b;
     h \<leftarrow> sto h (link_prev hd) b;
     h \<leftarrow> sto h (link_prev b) hd;
     sto h (link_next b) hd
   }"

text \<open>\<open>n = sf_add_free_list(bs, x->next); x->next = n; n->prev = x;\<close> and the links.\<close>

definition new_list_after :: "sf_ext \<Rightarrow> heap \<Rightarrow> u64 \<Rightarrow> u64 \<Rightarrow> u64 \<Rightarrow> heap option" where
  "new_list_after E h bs x b = do {
     nx \<leftarrow> ld h (node_next x);
     let (n, h) = sf_add_free_list E bs nx h;
     h \<leftarrow> sto h (node_next x) n;
     h \<leftarrow> sto h (node_prev n) x;
     link_single h n b
   }"

subsection \<open>Laws of the fields\<close>

text \<open>The interface of an independent pair of fields of one word.\<close>

locale field =
  fixes get :: "u64 \<Rightarrow> u64" and put :: "u64 \<Rightarrow> u64 \<Rightarrow> u64" and len :: nat
  assumes get_put: "get (put v w) = take_bit len v"
    and put_get: "put (get w) w = w"
    and put_put: "put v (put v' w) = put v w"
begin

lemma get_put_small: "unat v < 2 ^ len \<Longrightarrow> get (put v w) = v"
proof -
  assume v: "unat v < 2 ^ len"
  then have "unat (take_bit len v) = unat v"
    by (simp add: unsigned_take_bit_eq take_bit_nat_eq_self)
  then show ?thesis by (simp only: get_put word_unat_eq_iff)
qed

lemma put_same: "get w = v \<Longrightarrow> put v (put v' w) = w"
  by (metis put_get put_put)

end

lemma bf_get_put: "lo + len \<le> 64 \<Longrightarrow> bf_get lo len (bf_put lo len v w) = take_bit len v"
  by (rule bit_word_eqI) (auto simp: bf_get_def bf_put_def bit_simps)

lemma bf_put_get: "bf_put lo len (bf_get lo len w) w = w"
  by (rule bit_word_eqI) (auto simp: bf_get_def bf_put_def bit_simps)

lemma bf_put_put: "bf_put lo len v (bf_put lo len v' w) = bf_put lo len v w"
  by (rule bit_word_eqI) (auto simp: bf_put_def bit_simps)

lemma bf_get_put_other:
  "lo + len \<le> lo' \<or> lo' + len' \<le> lo \<Longrightarrow> bf_get lo len (bf_put lo' len' v w) = bf_get lo len w"
  by (rule bit_word_eqI) (auto simp: bf_get_def bf_put_def bit_simps dest: bit_imp_le_length)

interpretation alloc_field: field allocated set_allocated 1
  by unfold_locales (simp_all add: allocated_def set_allocated_def bf_get_put bf_put_get bf_put_put)

interpretation prev_field: field prev_allocated set_prev_allocated 1
  by unfold_locales
    (simp_all add: prev_allocated_def set_prev_allocated_def bf_get_put bf_put_get bf_put_put)

interpretation size_field: field block_size set_block_size 28
  by unfold_locales (simp_all add: block_size_def set_block_size_def bf_get_put bf_put_get bf_put_put)

interpretation req_field: field requested_size set_requested_size 32
  by unfold_locales
    (simp_all add: requested_size_def set_requested_size_def bf_get_put bf_put_get bf_put_put)

lemmas field_defs = allocated_def prev_allocated_def block_size_def requested_size_def
  set_allocated_def set_prev_allocated_def set_block_size_def set_requested_size_def

lemma other_field [simp]:
  "allocated (set_prev_allocated v w) = allocated w"
  "allocated (set_block_size v w) = allocated w"
  "allocated (set_requested_size v w) = allocated w"
  "prev_allocated (set_allocated v w) = prev_allocated w"
  "prev_allocated (set_block_size v w) = prev_allocated w"
  "prev_allocated (set_requested_size v w) = prev_allocated w"
  "block_size (set_allocated v w) = block_size w"
  "block_size (set_prev_allocated v w) = block_size w"
  "block_size (set_requested_size v w) = block_size w"
  "requested_size (set_allocated v w) = requested_size w"
  "requested_size (set_prev_allocated v w) = requested_size w"
  "requested_size (set_block_size v w) = requested_size w"
  by (simp_all add: field_defs bf_get_put_other)

lemma own_field [simp]:
  "allocated (set_allocated v w) = v mod 2"
  "prev_allocated (set_prev_allocated v w) = v mod 2"
  "block_size (set_block_size v w) = take_bit 28 v"
  "requested_size (set_requested_size v w) = take_bit 32 v"
  using alloc_field.get_put [of v w] prev_field.get_put [of v w] size_field.get_put [of v w]
    req_field.get_put [of v w]
  by (simp_all add: take_bit_Suc)

lemma word_mod_2: "(x :: u64) mod 2 = 0 \<or> x mod 2 = 1"
  by (cases "even x") (simp_all add: even_iff_mod_2_eq_zero odd_iff_mod_2_eq_one)

lemma word_mod_2_2 [simp]: "(x :: u64) mod 2 mod 2 = x mod 2"
  using word_mod_2 [of x] by (elim disjE) (simp_all only: mod_0 one_mod_two_eq_one)

lemma take_bit_field [simp]:
  "allocated w mod 2 = allocated w" "prev_allocated w mod 2 = prev_allocated w"
  "take_bit 28 (block_size w) = block_size w" "take_bit 32 (requested_size w) = requested_size w"
  by (simp_all add: field_defs bf_get_def)

lemma allocated_cases: "allocated w = 0 \<or> allocated w = 1"
  using word_mod_2 [of "allocated w"] by simp

lemma copy_info_fields [simp]:
  "allocated (copy_info s w) = allocated s" "prev_allocated (copy_info s w) = prev_allocated s"
  "block_size (copy_info s w) = block_size s" "requested_size (copy_info s w) = requested_size s"
  by (simp_all add: copy_info_def)

lemma bs_int_copy_info [simp]: "bs_int (copy_info s w) = bs_int s"
  by (simp add: bs_int_def)

text \<open>Sizes in bytes: what an int that is a multiple of 16 leaves in the field.\<close>

lemma bs_int_set:
  assumes "take_bit 4 x = 0"
  shows "bs_int (set_block_size (int_to_bs x) w) = x"
proof -
  have "bit x i \<Longrightarrow> 4 \<le> i" for i
    using arg_cong [OF assms, of "\<lambda>y. bit y i"] by (auto simp: bit_take_bit_iff not_le)
  then show ?thesis
    by (intro bit_word_eqI) (auto simp: bs_int_def int_to_bs_def bit_simps dest: bit_imp_le_length)
qed

lemma take_bit_4_bs_int [simp]: "take_bit 4 (bs_int w) = 0"
  by (simp add: bs_int_def take_bit_push_bit)

lemma take_bit_4_add:
  assumes "take_bit 4 (x :: u32) = 0" "take_bit 4 y = 0"
  shows "take_bit 4 (x + y) = 0"
proof -
  have "push_bit 4 (drop_bit 4 z) = z" if "take_bit 4 z = 0" for z :: u32
    using bits_ident [of 4 z] that by simp
  then have "x + y = push_bit 4 (drop_bit 4 x + drop_bit 4 y)"
    using assms by (simp add: push_bit_add)
  then show ?thesis by (simp add: take_bit_push_bit)
qed

subsection \<open>Reading what was written\<close>

lemma sto_Some: "sto h a v = Some h' \<longleftrightarrow> ld h a \<noteq> None \<and> h' = h\<lparr>mem := (mem h)(a \<mapsto> v)\<rparr>"
  by (auto simp: sto_def ld_def split: option.splits)

lemma ld_mem [simp]: "ld (h\<lparr>mem := (mem h)(a \<mapsto> v)\<rparr>) b = (if b = a then Some v else ld h b)"
  by (simp add: ld_def)

lemma ld_mem2 [simp]: "ld (h\<lparr>mem := m(a \<mapsto> v)\<rparr>) b = (if b = a then Some v else ld (h\<lparr>mem := m\<rparr>) b)"
  by (simp add: ld_def)

lemma ld_self [simp]: "ld (h\<lparr>mem := mem h\<rparr>) a = ld h a"
  by simp

lemma sto_mapped: "ld h a = Some w \<Longrightarrow> sto h a v = Some (h\<lparr>mem := (mem h)(a \<mapsto> v)\<rparr>)"
  by (simp add: sto_Some)

lemma upd_mapped: "ld h a = Some w \<Longrightarrow> upd h a f = Some (h\<lparr>mem := (mem h)(a \<mapsto> f w)\<rparr>)"
  by (simp add: upd_def sto_mapped)

end
