(* ===== verification/Sf_Malloc.thy ===== *)
theory Sf_Malloc
  imports Sf_Heap
begin

text \<open>
  \<open>sf_malloc\<close> of hw3/src/sfmm.c: initialisation of an empty heap, the first-fit search of the
  list of free lists, splitting and exact allocation, and growing the heap. NULL is 0. The loops
  over the circular lists are partial functions: \<^term>\<open>None\<close> also stands for a scan that
  does not end.
\<close>

subsection \<open>Initialisation\<close>

definition sf_init :: "sf_ext \<Rightarrow> heap \<Rightarrow> heap option" where
  "sf_init E h = do {
     let (_, h) = sf_mem_grow E h;
     h \<leftarrow> upd h (mem_start h + 8) (set_allocated 1);
     h \<leftarrow> upd h (mem_start h + 32) (set_allocated 1);
     h \<leftarrow> upd h (mem_end h - 8) (set_allocated 1);
     let first_free = mem_start h + 40;
     h \<leftarrow> upd h first_free (set_block_size (drop_bit 4 (PAGE_SZ - 48)));
     h \<leftarrow> upd h first_free (set_prev_allocated 1);
     h \<leftarrow> upd h first_free (set_allocated 0);
     let first_free_f = mem_end h - 16;
     h \<leftarrow> upd h first_free_f (set_block_size (drop_bit 4 (PAGE_SZ - 48)));
     h \<leftarrow> upd h first_free_f (set_allocated 0);
     h \<leftarrow> upd h first_free_f (set_prev_allocated 1);
     nx \<leftarrow> ld h (node_next (free_list_head h));
     let (n, h) = sf_add_free_list E (PAGE_SZ - 48) nx h;
     h \<leftarrow> sto h (node_next (free_list_head h)) n;
     h \<leftarrow> sto h (node_prev (free_list_head h)) n;
     h \<leftarrow> sto h (node_next n) (free_list_head h);
     h \<leftarrow> sto h (node_prev n) (free_list_head h);
     link_single h n first_free
   }"

subsection \<open>Search\<close>

definition round_size :: "u64 \<Rightarrow> u64" where
  "round_size sz =
    (if sz + 8 < 32 then 32
     else if (sz + 8) mod 16 \<noteq> 0 then sz + 8 + (16 - (sz + 8) mod 16)
     else sz + 8)"

text \<open>The while loop over the list nodes; \<^term>\<open>Some None\<close> when no node fits.\<close>

partial_function (option) find_node :: "heap \<Rightarrow> u64 \<Rightarrow> u64 \<Rightarrow> u64 option option" where
  "find_node h sz t = do {
     nx \<leftarrow> ld h (node_next t);
     if nx = free_list_head h then Some None
     else do {
       let t = nx;
       s \<leftarrow> ld h (node_size t);
       f \<leftarrow> ld h (link_next (node_head t));
       if sz + 8 \<le> s \<and> f \<noteq> node_head t then Some (Some t)
       else find_node h sz t
     }
   }"

subsection \<open>Insertion of the remainder\<close>

text \<open>The loop that looks for a list of the size \<open>bs\<close>; the flag says whether the block was
  linked behind the first element.\<close>

partial_function (option) remainder_scan ::
  "heap \<Rightarrow> u64 \<Rightarrow> u64 \<Rightarrow> u64 \<Rightarrow> (bool \<times> heap) option" where
  "remainder_scan h bs b x = do {
     nx \<leftarrow> ld h (node_next x);
     if nx \<noteq> free_list_head h then do {
       s \<leftarrow> ld h (node_size x);
       if s = bs then do {
         flag_header \<leftarrow> ld h (link_next (node_head x));
         n \<leftarrow> ld h (link_next flag_header);
         h \<leftarrow> sto h (link_next b) n;
         h \<leftarrow> sto h (link_prev b) flag_header;
         n \<leftarrow> ld h (link_next flag_header);
         h \<leftarrow> sto h (link_prev n) b;
         Some (True, h)
       }
       else if s > bs then Some (False, h)
       else remainder_scan h bs b nx
     }
     else Some (False, h)
   }"

text \<open>The loop of the split branch that makes a new list between two others.\<close>

partial_function (option) remainder_new ::
  "sf_ext \<Rightarrow> heap \<Rightarrow> u64 \<Rightarrow> u64 \<Rightarrow> u64 \<Rightarrow> heap option" where
  "remainder_new E h bs b x = do {
     nx \<leftarrow> ld h (node_next x);
     if nx \<noteq> free_list_head h then do {
       s \<leftarrow> ld h (node_size x);
       s' \<leftarrow> ld h (node_size nx);
       if s < bs \<and> s' > bs then new_list_after E h bs x b
       else remainder_new E h bs b nx
     }
     else Some h
   }"

text \<open>The loop after growing: it starts at the first node and also appends at the end.\<close>

partial_function (option) page_new ::
  "sf_ext \<Rightarrow> heap \<Rightarrow> u64 \<Rightarrow> u64 \<Rightarrow> u64 \<Rightarrow> heap option" where
  "page_new E h bs b x = do {
     if x \<noteq> free_list_head h then do {
       nx \<leftarrow> ld h (node_next x);
       s \<leftarrow> ld h (node_size x);
       s' \<leftarrow> ld h (node_size nx);
       if (s < bs \<and> s' > bs) \<or> nx = free_list_head h then new_list_after E h bs x b
       else page_new E h bs b nx
     }
     else Some h
   }"

subsection \<open>Allocation from a list\<close>

text \<open>The header of the first block, the header and footer of the remainder, and the removal of
  the block from its list.\<close>

definition carve_block :: "heap \<Rightarrow> u64 \<Rightarrow> u64 \<Rightarrow> u64 \<Rightarrow> u64 \<Rightarrow> (u64 \<times> u64 \<times> heap) option" where
  "carve_block h t s bs sz = do {
     b \<leftarrow> ld h (link_next (node_head t));
     h \<leftarrow> upd h b (set_block_size (drop_bit 4 bs));
     h \<leftarrow> upd h b (set_requested_size sz);
     h \<leftarrow> upd h b (set_allocated 1);
     w \<leftarrow> ld h b;
     let v = b + bsz w;
     h \<leftarrow> upd h v (set_prev_allocated 1);
     h \<leftarrow> upd h v (set_allocated 0);
     h \<leftarrow> upd h v (set_block_size (drop_bit 4 (s - bs)));
     let f = v + s - bs - 8;
     h \<leftarrow> upd h f (set_block_size (drop_bit 4 (s - bs)));
     h \<leftarrow> upd h f (set_prev_allocated 1);
     h \<leftarrow> upd h f (set_allocated 0);
     n \<leftarrow> ld h (link_next b);
     h \<leftarrow> sto h (link_next (node_head t)) n;
     Some (b, v, h)
   }"

definition alloc_split :: "sf_ext \<Rightarrow> heap \<Rightarrow> u64 \<Rightarrow> u64 \<Rightarrow> u64 \<Rightarrow> u64 \<Rightarrow> (u64 \<times> heap) option" where
  "alloc_split E h t s bs sz = do {
     (b, v, h) \<leftarrow> carve_block h t s bs sz;
     (flag, h) \<leftarrow> remainder_scan h (s - bs) v (free_list_head h);
     h \<leftarrow> (if flag then Some h else remainder_new E h (s - bs) v (free_list_head h));
     Some (b + 8, h)
   }"

definition alloc_exact :: "heap \<Rightarrow> u64 \<Rightarrow> u64 \<Rightarrow> u64 \<Rightarrow> (u64 \<times> heap) option" where
  "alloc_exact h t s sz = do {
     b \<leftarrow> ld h (link_next (node_head t));
     h \<leftarrow> upd h b (set_block_size (drop_bit 4 s));
     h \<leftarrow> upd h b (set_requested_size sz);
     h \<leftarrow> upd h b (set_allocated 1);
     w \<leftarrow> ld h b;
     let v = b + bsz w;
     h \<leftarrow> (if v = mem_end h - 8 then upd h v (set_prev_allocated 1)
           else upd h v (set_prev_allocated 1));
     n \<leftarrow> ld h (link_next b);
     h \<leftarrow> sto h (link_next (node_head t)) n;
     Some (b + 8, h)
   }"

definition alloc_from :: "sf_ext \<Rightarrow> heap \<Rightarrow> u64 \<Rightarrow> u64 \<Rightarrow> (u64 \<times> heap) option" where
  "alloc_from E h t sz = do {
     s \<leftarrow> ld h (node_size t);
     let bs = round_size sz;
     if s - bs \<ge> 32 then alloc_split E h t s bs sz
     else alloc_exact h t s sz
   }"

subsection \<open>Growing the heap\<close>

text \<open>After \<open>sf_mem_grow\<close>: the new page becomes a free block, joined with a free block before it.\<close>

definition page_insert :: "sf_ext \<Rightarrow> heap \<Rightarrow> u64 \<Rightarrow> u64 \<Rightarrow> heap option" where
  "page_insert E h bs b = do {
     (flag, h) \<leftarrow> remainder_scan h bs b (free_list_head h);
     if flag then Some h
     else do {
       x \<leftarrow> ld h (node_next (free_list_head h));
       page_new E h bs b x
     }
   }"

definition grow_page :: "sf_ext \<Rightarrow> heap \<Rightarrow> heap option" where
  "grow_page E h = do {
     let p = mem_end h;
     h \<leftarrow> upd h (p - 8) (set_allocated 1);
     let p = p - PAGE_SZ - 8;
     old_epilogue \<leftarrow> ld h p;
     if prev_allocated old_epilogue = 1 then do {
       h \<leftarrow> upd h p (set_block_size (drop_bit 4 PAGE_SZ));
       h \<leftarrow> upd h p (set_prev_allocated 1);
       h \<leftarrow> upd h p (set_allocated 0);
       let f = p + PAGE_SZ - 8;
       h \<leftarrow> upd h f (set_block_size (drop_bit 4 PAGE_SZ));
       h \<leftarrow> upd h f (set_prev_allocated 1);
       h \<leftarrow> upd h f (set_allocated 0);
       page_insert E h PAGE_SZ p
     }
     else do {
       prev_footer \<leftarrow> ld h (p - 8);
       let b = p - bsz prev_footer;
       h \<leftarrow> upd h b (\<lambda>w. set_block_size (int_to_bs (bs_int w + 4096)) w);
       w \<leftarrow> ld h b;
       let f = mem_end h - 16;
       h \<leftarrow> upd h f (set_block_size (block_size w));
       h \<leftarrow> upd h f (set_prev_allocated (prev_allocated w));
       h \<leftarrow> upd h f (set_allocated (allocated w));
       h \<leftarrow> unlink_block h b;
       w \<leftarrow> ld h b;
       page_insert E h (bsz w) b
     }
   }"

partial_function (option) sf_malloc :: "sf_ext \<Rightarrow> heap \<Rightarrow> u64 \<Rightarrow> (u64 \<times> heap) option" where
  "sf_malloc E h sz =
     (if sz = 0 then Some (0, h)
      else do {
        h \<leftarrow> (if mem_start h = mem_end h then sf_init E h else Some h);
        r \<leftarrow> find_node h sz (free_list_head h);
        case r of
          Some t \<Rightarrow> alloc_from E h t sz
        | None \<Rightarrow>
            let (p, h) = sf_mem_grow E h in
            if p \<noteq> 0 then do {
              h \<leftarrow> grow_page E h;
              sf_malloc E h sz
            }
            else Some (0, h)
      })"

end
