(* ===== verification/Sf_Free.thy ===== *)
theory Sf_Free
  imports Sf_Malloc
begin

text \<open>
  \<open>sf_free\<close> and \<open>sf_realloc\<close> of hw3/src/sfmm.c. A call of \<open>abort()\<close> ends the program and
  is the value \<open>Abort\<close>.
\<close>

subsection \<open>Validation of the pointer\<close>

text \<open>The checks at the start of both functions; \<^term>\<open>Some False\<close> is \<open>abort()\<close>.\<close>

definition valid_pointer :: "heap \<Rightarrow> u64 \<Rightarrow> bool option" where
  "valid_pointer h pp =
    (if pp = 0 then Some False
     else if pp < mem_start h + 40 \<or> pp > mem_end h - 8 then Some False
     else do {
       w \<leftarrow> ld h (pp - 8);
       if allocated w = 0 then Some False
       else if c_mod (bs_int w) 16 \<noteq> 0 \<or> sint (bs_int w) < 32 then Some False
       else if ucast (requested_size w) + 8 > bs_int w then Some False
       else if prev_allocated w = 0 then do {
         f \<leftarrow> ld h (pp - 16);
         if allocated f \<noteq> 0 then Some False
         else do {
           ph \<leftarrow> ld h (pp - 16 + 8 - bsz f);
           Some (allocated ph = 0)
         }
       }
       else Some True
     })"

subsection \<open>Coalescing\<close>

text \<open>The four cases; the result is the address of the header of the resulting free block.\<close>

definition free_alone :: "heap \<Rightarrow> u64 \<Rightarrow> u64 \<Rightarrow> (u64 \<times> heap) option" where
  "free_alone h pp nh = do {
     let b = pp - 8;
     h \<leftarrow> upd h b (set_allocated 0);
     h \<leftarrow> upd h b (set_requested_size 0);
     h \<leftarrow> upd h nh (set_prev_allocated 0);
     w \<leftarrow> ld h b;
     h \<leftarrow> upd h (nh - 8) (copy_info w);
     Some (b, h)
   }"

definition free_prev :: "heap \<Rightarrow> u64 \<Rightarrow> u64 \<Rightarrow> (u64 \<times> heap) option" where
  "free_prev h pp nh = do {
     let b = pp - 8;
     h \<leftarrow> upd h b (set_allocated 0);
     pf \<leftarrow> ld h (pp - 16);
     let pb = pp - 16 + 8 - bsz pf;
     w \<leftarrow> ld h b;
     h \<leftarrow> upd h pb (\<lambda>p. set_block_size (int_to_bs (bs_int p + bs_int w)) p);
     p \<leftarrow> ld h pb;
     h \<leftarrow> upd h (pb + bsz p - 8) (copy_info p);
     h \<leftarrow> unlink_block h pb;
     h \<leftarrow> upd h nh (set_prev_allocated 0);
     Some (pb, h)
   }"

definition free_next :: "heap \<Rightarrow> u64 \<Rightarrow> u64 \<Rightarrow> (u64 \<times> heap) option" where
  "free_next h pp nh = do {
     let b = pp - 8;
     h \<leftarrow> upd h b (set_allocated 0);
     h \<leftarrow> upd h b (set_requested_size 0);
     n \<leftarrow> ld h nh;
     h \<leftarrow> upd h b (\<lambda>w. set_block_size (int_to_bs (bs_int w + bs_int n)) w);
     w \<leftarrow> ld h b;
     h \<leftarrow> upd h (nh + bsz n - 8) (copy_info w);
     h \<leftarrow> unlink_block h nh;
     Some (b, h)
   }"

definition free_both :: "heap \<Rightarrow> u64 \<Rightarrow> u64 \<Rightarrow> (u64 \<times> heap) option" where
  "free_both h pp nh = do {
     let b = pp - 8;
     h \<leftarrow> upd h b (set_allocated 0);
     pf \<leftarrow> ld h (pp - 16);
     let pb = pp - 16 + 8 - bsz pf;
     w \<leftarrow> ld h b;
     n \<leftarrow> ld h nh;
     h \<leftarrow> upd h pb (\<lambda>p. set_block_size (int_to_bs (bs_int p + bs_int w + bs_int n)) p);
     p \<leftarrow> ld h pb;
     h \<leftarrow> upd h (nh + bsz n - 8) (copy_info p);
     h \<leftarrow> unlink_block h nh;
     h \<leftarrow> unlink_block h pb;
     Some (pb, h)
   }"

definition coalesce :: "heap \<Rightarrow> u64 \<Rightarrow> (u64 \<times> heap) option" where
  "coalesce h pp = do {
     w \<leftarrow> ld h (pp - 8);
     let nh = pp - 8 + bsz w;
     n \<leftarrow> ld h nh;
     if allocated n = 1 then
       (if prev_allocated w = 1 then free_alone h pp nh else free_prev h pp nh)
     else (if prev_allocated w = 1 then free_next h pp nh else free_both h pp nh)
   }"

subsection \<open>Insertion into the list of free lists\<close>

text \<open>The new block becomes the first of the list with the dummy header \<open>lh\<close>.\<close>

definition link_front :: "heap \<Rightarrow> u64 \<Rightarrow> u64 \<Rightarrow> heap option" where
  "link_front h lh b = do {
     n \<leftarrow> ld h (link_next lh);
     h \<leftarrow> sto h (link_prev n) b;
     h \<leftarrow> sto h (link_prev b) lh;
     n \<leftarrow> ld h (link_next lh);
     h \<leftarrow> sto h (link_next b) n;
     sto h (link_next lh) b
   }"

partial_function (option) insert_scan ::
  "heap \<Rightarrow> u64 \<Rightarrow> u64 \<Rightarrow> u64 \<Rightarrow> (bool \<times> heap) option" where
  "insert_scan h bs b x =
     (if x \<noteq> free_list_head h then do {
        s \<leftarrow> ld h (node_size x);
        if s = bs then do {
          h \<leftarrow> link_front h (node_head x) b;
          Some (True, h)
        }
        else if s > bs then Some (False, h)
        else do {
          nx \<leftarrow> ld h (node_next x);
          insert_scan h bs b nx
        }
      }
      else Some (False, h))"

partial_function (option) insert_new ::
  "sf_ext \<Rightarrow> heap \<Rightarrow> u64 \<Rightarrow> u64 \<Rightarrow> u64 \<Rightarrow> heap option" where
  "insert_new E h bs b x =
     (if x \<noteq> free_list_head h then do {
        s \<leftarrow> ld h (node_size x);
        nx \<leftarrow> ld h (node_next x);
        s' \<leftarrow> ld h (node_size nx);
        pv \<leftarrow> ld h (node_prev x);
        if (s < bs \<and> s' > bs) \<or> nx = free_list_head h then new_list_after E h bs x b
        else if pv = free_list_head h \<and> s > bs then do {
          let (n, h) = sf_add_free_list E bs x h;
          h \<leftarrow> sto h (node_next (free_list_head h)) n;
          h \<leftarrow> sto h (node_prev n) (free_list_head h);
          link_single h n b
        }
        else insert_new E h bs b nx
      }
      else Some h)"

definition free_insert :: "sf_ext \<Rightarrow> heap \<Rightarrow> u64 \<Rightarrow> heap option" where
  "free_insert E h b = do {
     w \<leftarrow> ld h b;
     x \<leftarrow> ld h (node_next (free_list_head h));
     (flag, h) \<leftarrow> insert_scan h (bsz w) b x;
     if flag then Some h
     else do {
       x \<leftarrow> ld h (node_next (free_list_head h));
       insert_new E h (bsz w) b x
     }
   }"

definition sf_free :: "sf_ext \<Rightarrow> heap \<Rightarrow> u64 \<Rightarrow> heap outcome option" where
  "sf_free E h pp = do {
     ok \<leftarrow> valid_pointer h pp;
     if \<not> ok then Some Abort
     else do {
       (b, h) \<leftarrow> coalesce h pp;
       h \<leftarrow> free_insert E h b;
       Some (Done h)
     }
   }"

subsection \<open>sf_realloc\<close>

text \<open>\<open>memcpy\<close>: whole rows, then the low bytes of the last row.\<close>

fun copy_rows :: "nat \<Rightarrow> heap \<Rightarrow> u64 \<Rightarrow> u64 \<Rightarrow> nat \<Rightarrow> heap option" where
  "copy_rows 0 h dst src r =
     (if r = 0 then Some h
      else do {
        s \<leftarrow> ld h src;
        upd h dst (\<lambda>d. (s AND mask (8 * r)) OR (d AND NOT (mask (8 * r))))
      })"
| "copy_rows (Suc n) h dst src r = do {
     s \<leftarrow> ld h src;
     h \<leftarrow> sto h dst s;
     copy_rows n h (dst + 8) (src + 8) r
   }"

definition memcpy :: "heap \<Rightarrow> u64 \<Rightarrow> u64 \<Rightarrow> u64 \<Rightarrow> heap option" where
  "memcpy h dst src n = copy_rows (unat n div 8) h dst src (unat n mod 8)"

definition split_size :: "u64 \<Rightarrow> u32" where
  "split_size rsize =
    (let split = ucast (rsize + 8) in
     if sint split < 32 then 32
     else if c_mod split 16 \<noteq> 0 then split + (16 - c_mod split 16)
     else split)"

definition shrink_block :: "sf_ext \<Rightarrow> heap \<Rightarrow> u64 \<Rightarrow> u32 \<Rightarrow> heap option" where
  "shrink_block E h pp split = do {
     w \<leftarrow> ld h (pp - 8);
     let nh = pp - 8 + bsz w;
     n \<leftarrow> ld h nh;
     let b = pp - 8 + scast split;
     if allocated n = 1 then do {
       h \<leftarrow> upd h nh (set_prev_allocated 0);
       let x = set_prev_allocated 1 \<circ> set_allocated 0 \<circ> set_requested_size 0;
       h \<leftarrow> upd h b (x \<circ> set_block_size (int_to_bs (bs_int w - split)));
       v \<leftarrow> ld h b;
       h \<leftarrow> upd h (nh - 8) (x \<circ> set_block_size (block_size v));
       h \<leftarrow> upd h (pp - 8) (set_block_size (int_to_bs split));
       free_insert E h b
     }
     else do {
       let x = set_prev_allocated 1 \<circ> set_allocated 0 \<circ> set_requested_size 0;
       h \<leftarrow> upd h b x;
       h \<leftarrow> upd h b (set_block_size (int_to_bs (bs_int w - split + bs_int n)));
       v \<leftarrow> ld h b;
       h \<leftarrow> upd h (b + bsz v - 8) (x \<circ> set_block_size (block_size v));
       h \<leftarrow> unlink_block h nh;
       h \<leftarrow> upd h (pp - 8) (set_block_size (int_to_bs split));
       free_insert E h b
     }
   }"

definition sf_realloc :: "sf_ext \<Rightarrow> heap \<Rightarrow> u64 \<Rightarrow> u64 \<Rightarrow> (u64 \<times> heap) outcome option" where
  "sf_realloc E h pp rsize = do {
     ok \<leftarrow> valid_pointer h pp;
     if \<not> ok then Some Abort
     else if rsize = 0 then do {
       r \<leftarrow> sf_free E h pp;
       Some (case r of Abort \<Rightarrow> Abort | Done h \<Rightarrow> Done (0, h))
     }
     else do {
       w \<leftarrow> ld h (pp - 8);
       if requested_size w < rsize then do {
         (p, h) \<leftarrow> sf_malloc E h rsize;
         if p = 0 then Some (Done (0, h))
         else do {
           w \<leftarrow> ld h (pp - 8);
           h \<leftarrow> memcpy h p pp (requested_size w);
           r \<leftarrow> sf_free E h pp;
           Some (case r of Abort \<Rightarrow> Abort | Done h \<Rightarrow> Done (p, h))
         }
       }
       else if requested_size w > rsize then do {
         let split = split_size rsize;
         if sint (bs_int w - split) < 32 then do {
           h \<leftarrow> upd h (pp - 8) (set_requested_size rsize);
           Some (Done (pp, h))
         }
         else do {
           h \<leftarrow> upd h (pp - 8) (set_requested_size rsize);
           h \<leftarrow> shrink_block E h pp split;
           Some (Done (pp, h))
         }
       }
       else Some (Done (pp, h))
     }
   }"

end
