(* ===== verification/Sf_Lists.thy ===== *)
theory Sf_Lists
  imports Sf_Free "HOL-Library.Multiset"
begin

text \<open>
  The free lists as data structures: a circular doubly linked list with a dummy header is
  abstracted to the list of its blocks, and the pointer operations of the allocator are shown to
  implement the operations on that list.
\<close>

subsection \<open>Circular lists\<close>

text \<open>\<open>seg h p xs q\<close>: from \<open>p\<close> the \<open>next\<close> links lead through \<open>xs\<close> to
  \<open>q\<close>, and the \<open>prev\<close> links lead back.\<close>

fun seg :: "heap \<Rightarrow> u64 \<Rightarrow> u64 list \<Rightarrow> u64 \<Rightarrow> bool" where
  "seg h p [] q \<longleftrightarrow> ld h (link_next p) = Some q \<and> ld h (link_prev q) = Some p"
| "seg h p (x # xs) q \<longleftrightarrow>
     ld h (link_next p) = Some x \<and> ld h (link_prev x) = Some p \<and> seg h x xs q"

text \<open>The link rows of the blocks do not overlap.\<close>

definition apart :: "u64 set \<Rightarrow> bool" where
  "apart S \<longleftrightarrow> (\<forall>b \<in> S. \<forall>c \<in> S. link_next b \<noteq> link_prev c)"

definition dlist :: "heap \<Rightarrow> u64 \<Rightarrow> u64 list \<Rightarrow> bool" where
  "dlist h a xs \<longleftrightarrow> seg h a xs a \<and> distinct (a # xs) \<and> apart (set (a # xs))"

lemma link_next_eq [simp]: "link_next b = link_next c \<longleftrightarrow> b = c"
  by (simp add: link_next_def)

lemma link_prev_eq [simp]: "link_prev b = link_prev c \<longleftrightarrow> b = c"
  by (simp add: link_prev_def)

lemma link_next_prev [simp]: "link_next b \<noteq> link_prev b" "link_prev b \<noteq> link_next b"
  by (simp_all add: link_next_def link_prev_def)

lemma seg_append [simp]: "seg h p (xs @ x # ys) q \<longleftrightarrow> seg h p xs x \<and> seg h x ys q"
  by (induction xs arbitrary: p) auto

lemma seg_cong:
  assumes "\<And>x. x \<in> set (p # xs) \<Longrightarrow> ld h' (link_next x) = ld h (link_next x)"
    and "\<And>x. x \<in> set (xs @ [q]) \<Longrightarrow> ld h' (link_prev x) = ld h (link_prev x)"
  shows "seg h' p xs q = seg h p xs q"
  using assms by (induction xs arbitrary: p) simp_all

text \<open>The list is cut on both sides of an element.\<close>

lemma seg_snoc_cases:
  obtains "xs = []" | ys y where "xs = ys @ [y]"
  by (cases xs rule: rev_cases) auto

lemma apartD: "apart S \<Longrightarrow> b \<in> S \<Longrightarrow> c \<in> S \<Longrightarrow> link_next b \<noteq> link_prev c \<and> link_prev c \<noteq> link_next b"
  by (fastforce simp: apart_def)

lemma apart_mono: "apart S \<Longrightarrow> T \<subseteq> S \<Longrightarrow> apart T"
  by (fastforce simp: apart_def)

lemma seg_last: "seg h p xs q \<Longrightarrow> ld h (link_prev q) = Some (last (p # xs)) \<and> ld h (link_next (last (p # xs))) = Some q"
  by (induction xs arbitrary: p) auto

lemma seg_hd: "seg h p xs q \<Longrightarrow> ld h (link_next p) = Some (hd (xs @ [q])) \<and> ld h (link_prev (hd (xs @ [q]))) = Some p"
  by (cases xs) auto

lemma seg_update_ends:
  assumes "seg h a xs b" "distinct (a # xs)" "b \<notin> set xs" "apart (set (a # b # c # xs))" "c \<notin> set xs"
  shows "seg (h\<lparr>mem := (mem h)(link_prev c \<mapsto> last (a # xs), link_next (last (a # xs)) \<mapsto> c)\<rparr>) a xs c"
proof (cases xs rule: rev_cases)
  case Nil
  then show ?thesis using apartD [OF assms(4), of a c] by auto
next
  case (snoc ys y)
  let ?h = "h\<lparr>mem := (mem h)(link_prev c \<mapsto> y, link_next y \<mapsto> c)\<rparr>"
  have "seg ?h a ys y = seg h a ys y"
    using assms snoc by (intro seg_cong) (auto dest: apartD)
  moreover have "link_prev c \<noteq> link_next y" using apartD [OF assms(4), of y c] snoc by auto
  ultimately show ?thesis using assms(1) snoc by auto
qed

lemma seg_update_other:
  assumes "seg h b ys a" "p \<notin> set (b # ys)" "n \<notin> set (ys @ [a])" "apart (set (p # n # b # a # ys))"
  shows "seg (h\<lparr>mem := (mem h)(link_prev n \<mapsto> v, link_next p \<mapsto> w)\<rparr>) b ys a"
proof -
  have "seg (h\<lparr>mem := (mem h)(link_prev n \<mapsto> v, link_next p \<mapsto> w)\<rparr>) b ys a = seg h b ys a"
    using assms by (intro seg_cong) (auto dest: apartD)
  then show ?thesis using assms(1) by simp
qed

text \<open>\<open>unlink_block\<close> removes the block from its list, wherever it is.\<close>

lemma unlink_block_dlist:
  assumes "dlist h a (xs @ b # ys)"
  shows "\<exists>h'. unlink_block h b = Some h' \<and> dlist h' a (xs @ ys) \<and>
    h' = h\<lparr>mem := (mem h)(link_prev (hd (ys @ [a])) \<mapsto> last (a # xs),
                            link_next (last (a # xs)) \<mapsto> hd (ys @ [a]))\<rparr>"
proof -
  let ?n = "hd (ys @ [a])" and ?p = "last (a # xs)"
  let ?h = "h\<lparr>mem := (mem h)(link_prev ?n \<mapsto> ?p, link_next ?p \<mapsto> ?n)\<rparr>"
  have d: "seg h a xs b" "seg h b ys a" "distinct (a # xs @ b # ys)" "apart (set (a # xs @ b # ys))"
    using assms by (simp_all add: dlist_def)
  have p: "?p \<in> set (a # xs)" and n: "?n \<in> set (ys @ [a])"
    using last_in_set [of "a # xs"] hd_in_set [of "ys @ [a]"] by simp_all
  have pn: "?p \<noteq> b" "?n \<noteq> b" using p n d(3) by auto
  have ld: "ld h (link_next b) = Some ?n" "ld h (link_prev b) = Some ?p"
      "ld h (link_prev ?n) = Some b" "ld h (link_next ?p) = Some b"
    using seg_last [OF d(1)] seg_hd [OF d(2)] by simp_all
  have ap: "link_prev ?n \<noteq> link_next b" "link_prev ?n \<noteq> link_next ?p"
    using apartD [OF d(4), of b ?n] apartD [OF d(4), of ?p ?n] p n by auto
  have un: "unlink_block h b = Some ?h"
    using ld ap pn by (simp add: unlink_block_def sto_mapped)
  have "seg ?h a (xs @ ys) a"
  proof (cases ys)
    case Nil
    then show ?thesis
      using seg_update_ends [OF d(1), of a] d by (simp add: insert_commute)
  next
    case (Cons n zs)
    have "seg ?h a xs n"
      using seg_update_ends [OF d(1), of n] d Cons by (simp add: insert_commute apart_def)
    moreover have "seg h n zs a" using d(2) Cons by simp
    then have "seg ?h n zs a"
      using d Cons p by (intro seg_update_other) (auto simp: apart_def)
    ultimately show ?thesis using Cons by simp
  qed
  then have "dlist ?h a (xs @ ys)" using d by (auto simp: dlist_def apart_def)
  then show ?thesis using un by blast
qed

text \<open>\<open>link_front\<close> puts a block before the others.\<close>

lemma link_front_dlist:
  assumes "dlist h a xs" "b \<notin> set (a # xs)" "apart (set (b # a # xs))"
    and "ld h (link_next b) \<noteq> None" "ld h (link_prev b) \<noteq> None"
  shows "\<exists>h'. link_front h a b = Some h' \<and> dlist h' a (b # xs) \<and>
    h' = h\<lparr>mem := (mem h)(link_prev (hd (xs @ [a])) \<mapsto> b, link_prev b \<mapsto> a,
       link_next b \<mapsto> hd (xs @ [a]), link_next a \<mapsto> b)\<rparr>"
proof -
  let ?n = "hd (xs @ [a])"
  let ?h = "h\<lparr>mem := (mem h)(link_prev ?n \<mapsto> b, link_prev b \<mapsto> a, link_next b \<mapsto> ?n, link_next a \<mapsto> b)\<rparr>"
  have d: "seg h a xs a" "distinct (a # xs)" using assms(1) by (simp_all add: dlist_def)
  have n: "?n \<in> set (xs @ [a])" using hd_in_set [of "xs @ [a]"] by simp
  have ld: "ld h (link_next a) = Some ?n" "ld h (link_prev ?n) = Some a"
    using seg_hd [OF d(1)] by simp_all
  have ap: "link_prev ?n \<noteq> link_next a" "link_prev b \<noteq> link_next a" "link_prev ?n \<noteq> link_next b"
      "link_prev ?n \<noteq> link_prev b" "a \<noteq> b"
    using apartD [OF assms(3), of a ?n] apartD [OF assms(3), of a b] apartD [OF assms(3), of b ?n] n assms(2)
    by auto
  have lf: "link_front h a b = Some ?h"
    using ld ap assms(4,5) by (auto simp: link_front_def sto_mapped)
  have "seg ?h a (b # xs) a"
  proof (cases xs)
    case Nil
    then show ?thesis using ap by auto
  next
    case (Cons x zs)
    have "seg ?h x zs a = seg h x zs a"
      using assms d Cons by (intro seg_cong) (auto dest: apartD simp: apart_def)
    then show ?thesis using d Cons ap assms(2) by auto
  qed
  then have "dlist ?h a (b # xs)" using assms d by (auto simp: dlist_def apart_def)
  then show ?thesis using lf by blast
qed

subsection \<open>First fit\<close>

text \<open>The forward chain of the list nodes behind \<open>x\<close>.\<close>

fun chain :: "heap \<Rightarrow> u64 \<Rightarrow> u64 list \<Rightarrow> bool" where
  "chain h x [] \<longleftrightarrow> ld h (node_next x) = Some (free_list_head h)"
| "chain h x (n # ns) \<longleftrightarrow> ld h (node_next x) = Some n \<and> n \<noteq> free_list_head h \<and>
     ld h (node_size n) \<noteq> None \<and> ld h (link_next (node_head n)) \<noteq> None \<and> chain h n ns"

definition fits :: "heap \<Rightarrow> u64 \<Rightarrow> u64 \<Rightarrow> bool" where
  "fits h sz n \<longleftrightarrow> sz + 8 \<le> the (ld h (node_size n)) \<and>
     the (ld h (link_next (node_head n))) \<noteq> node_head n"

lemma find_node_chain: "chain h x ns \<Longrightarrow> find_node h sz x = Some (find (fits h sz) ns)"
proof (induction ns arbitrary: x)
  case Nil
  then show ?case by (subst find_node.simps) simp
next
  case (Cons n ns)
  then have f: "fits h sz n \<longleftrightarrow> sz + 8 \<le> the (ld h (node_size n)) \<and>
      the (ld h (link_next (node_head n))) \<noteq> node_head n" by (simp add: fits_def)
  show ?case using Cons by (subst find_node.simps) (auto simp: f)
qed

subsection \<open>Block sizes\<close>

text \<open>The block size that \<open>sf_malloc\<close> computes is the least multiple of 16 that is at least 32
  and holds the request and the 8-byte header.\<close>

theorem round_size_least:
  assumes "unat sz < 2 ^ 63"
  shows "32 \<le> unat (round_size sz) \<and> 16 dvd unat (round_size sz) \<and> unat sz + 8 \<le> unat (round_size sz) \<and>
    (\<forall>c. 32 \<le> c \<and> 16 dvd c \<and> unat sz + 8 \<le> c \<longrightarrow> unat (round_size sz) \<le> c)"
proof -
  define n where "n = unat sz + 8"
  have n: "unat (sz + 8) = n" "n < 2 ^ 63 + 8"
    using assms by (simp_all add: n_def unat_word_ariths)
  have m: "unat ((sz + 8) mod 16) = n mod 16" by (simp add: unat_mod n)
  have r: "unat (round_size sz) = (if n < 32 then 32 else if n mod 16 \<noteq> 0 then n + (16 - n mod 16) else n)"
  proof -
    have "unat (16 - (sz + 8) mod 16) = 16 - n mod 16"
      using m by (simp add: unat_sub_if_size word_le_nat_alt)
    moreover have on: "x = of_nat (unat x)" for x :: u64 by simp
    ultimately have "16 - (sz + 8) mod 16 = of_nat (16 - n mod 16)" "sz + 8 = of_nat n"
      using on [of "16 - (sz + 8) mod 16"] on [of "sz + 8"] n(1) by (simp_all only:)
    then have "unat (sz + 8 + (16 - (sz + 8) mod 16)) = unat (of_nat (n + (16 - n mod 16)) :: u64)"
      by (simp only: of_nat_add)
    also have "\<dots> = n + (16 - n mod 16)"
      using n(2) by (simp only: unat_of_nat) (rule mod_less, simp)
    finally show ?thesis
      using n m by (simp add: round_size_def word_less_nat_alt unat_eq_0 [symmetric] del: unat_eq_0)
  qed
  obtain q k where q: "n = 16 * q + k" "k < 16" "n mod 16 = k"
    by (metis mod_less_divisor mult_div_mod_eq zero_less_numeral)
  have "unat (round_size sz) \<le> c" if "32 \<le> c" "16 dvd c" "n \<le> c" for c
    using that q unfolding r by (auto elim!: dvdE) arith
  moreover have "32 \<le> unat (round_size sz)" "n \<le> unat (round_size sz)"
    unfolding r using q by auto
  moreover have "16 dvd unat (round_size sz)"
    unfolding r using q by (auto simp: dvd_eq_mod_eq_0)
  ultimately show ?thesis unfolding n_def by blast
qed

subsection \<open>Carving a block\<close>

text \<open>Sizes below \<open>2 ^ 31\<close> are read back as they were written.\<close>

lemma bsz_set_block_size:
  assumes "unat s < 2 ^ 31" "16 dvd unat s"
  shows "bsz (set_block_size (drop_bit 4 s) w) = s"
proof -
  have "unat (take_bit 31 s) = unat s" "unat (take_bit 4 s) = unat (0 :: u64)"
    using assms take_bit_nat_eq_self [of "unat s" 31]
    by (simp_all only: unsigned_take_bit_eq) (simp add: take_bit_eq_mod dvd_eq_mod_eq_0)
  then have t: "take_bit 31 s = s" "take_bit 4 s = 0" by (simp_all only: word_unat_eq_iff)
  have b: "bit s i \<Longrightarrow> i < 31 \<and> 4 \<le> i" for i
    using arg_cong [OF t(1), of "\<lambda>x. bit x i"] arg_cong [OF t(2), of "\<lambda>x. bit x i"]
    by (auto simp: bit_take_bit_iff)
  then have b4: "bit s i \<Longrightarrow> 4 + (i - 4) = i" for i by fastforce
  show ?thesis
    by (rule bit_word_eqI) (auto simp: bsz_def bs_int_def bit_simps min_def b4 split: if_splits dest: b)
qed

text \<open>Splitting a free block of \<open>s\<close> bytes for a request: the allocated header has the rounded size,
  the requested size and the allocated bit; header and footer of the remainder say \<open>s - bs\<close> bytes,
  free, previous block allocated; the block leaves the front of its list; no other row changes.\<close>

theorem carve_block_headers:
  assumes "ld h (link_next (node_head t)) = Some b" "ld h b = Some w" "ld h (link_next b) = Some n"
    and "ld h (b + bs) = Some v" "ld h (b + s - 8) = Some f"
    and "unat s < 2 ^ 31" "16 dvd unat s" "16 dvd unat bs" "32 \<le> unat bs" "bs \<le> s" "32 \<le> s - bs"
    and "link_next (node_head t) \<notin> {b, b + bs, b + s - 8}" "unat sz < 2 ^ 32"
  shows "\<exists>h'. carve_block h t s bs sz = Some (b, b + bs, h') \<and>
    (\<exists>w' v' f'. ld h' b = Some w' \<and> allocated w' = 1 \<and> bsz w' = bs \<and> requested_size w' = sz \<and>
       prev_allocated w' = prev_allocated w \<and>
       ld h' (b + bs) = Some v' \<and> allocated v' = 0 \<and> prev_allocated v' = 1 \<and> bsz v' = s - bs \<and>
       ld h' (b + s - 8) = Some f' \<and> allocated f' = 0 \<and> prev_allocated f' = 1 \<and> bsz f' = s - bs) \<and>
    ld h' (link_next (node_head t)) = Some n \<and>
    (\<forall>a. a \<notin> {b, b + bs, b + s - 8, link_next (node_head t)} \<longrightarrow> ld h' a = ld h a)"
proof -
  have ne: "bs \<noteq> 0" "bs \<noteq> 8" "s \<noteq> 8" "s \<noteq> 16" "s - bs \<noteq> 8"
    using assms(6-11) by (auto simp: word_le_nat_alt)
  have u: "unat (s - bs) = unat s - unat bs" using assms(10) by (simp add: unat_sub)
  have sizes: "bsz (set_block_size (drop_bit 4 bs) x) = bs"
      "bsz (set_block_size (drop_bit 4 (s - bs)) x) = s - bs" for x
    using assms(6-10) u by (intro bsz_set_block_size; simp add: word_le_nat_alt)+
  have addr: "b + bs + s - bs - 8 = b + s - 8" by simp
  have e: "b + s - 8 = b \<longleftrightarrow> s = 8" "b + bs = b + s - 8 \<longleftrightarrow> s - bs = 8" "b + 8 = b + s - 8 \<longleftrightarrow> s = 16"
    "b + 8 = b + bs \<longleftrightarrow> bs = 8" for b s bs :: u64
  proof -
    have "b + s - 8 = b + (s - 8)" "b + bs = b + s - 8 \<longleftrightarrow> bs + 8 = s" "s = 16 \<longleftrightarrow> s - 8 = 8" by (simp_all add: eq_diff_eq diff_eq_eq)
    then show "b + s - 8 = b \<longleftrightarrow> s = 8" "b + bs = b + s - 8 \<longleftrightarrow> s - bs = 8" "b + 8 = b + s - 8 \<longleftrightarrow> s = 16"
      "b + 8 = b + bs \<longleftrightarrow> bs = 8" by (auto simp: diff_eq_eq)
  qed
  have dis: "b + bs \<noteq> b" "b + s - 8 \<noteq> b" "b + bs \<noteq> b + s - 8" "link_next b \<noteq> b"
      "link_next b \<noteq> b + bs" "link_next b \<noteq> b + s - 8"
    unfolding link_next_def e using ne by simp_all
  have w: "bsz (set_allocated x (set_requested_size y (set_block_size (drop_bit 4 bs) z))) = bs" for x y z
    using sizes(1) [of z] by (simp add: bsz_def bs_int_def)
  have v: "bsz (set_allocated x (set_prev_allocated y (set_block_size (drop_bit 4 (s - bs)) z))) = s - bs"
    for x y z using sizes(2) [of z] by (simp add: bsz_def bs_int_def)
  have "unat (take_bit 32 sz) = unat sz"
    using assms(13) by (simp only: unsigned_take_bit_eq) (rule take_bit_nat_eq_self)
  then have rq: "take_bit 32 sz = sz" by (simp only: word_unat_eq_iff)
  have l: "b \<noteq> link_next (node_head t)" "b + bs \<noteq> link_next (node_head t)"
      "b + s - 8 \<noteq> link_next (node_head t)" using assms(12) by (metis insertCI)+
  show ?thesis
    using assms dis l w v sizes rq addr
    by (simp add: carve_block_def upd_mapped sto_mapped Let_def)
qed

subsection \<open>Taking a block of the exact size\<close>

text \<open>C15: Taking the first of several blocks of the exact size leaves the \<open>prev\<close> link of the next
  free block pointing at the allocated block; when that neighbour is later unlinked (by coalescing),
  the write through it overwrites the first word of the payload \<open>sf_malloc\<close> returned.\<close>

theorem alloc_exact_back_link:
  assumes "dlist h (node_head t) (b # c # xs)" "ld h b = Some w" "ld h (b + s) = Some v"
    and "bsz (set_allocated 1 (set_requested_size sz (set_block_size (drop_bit 4 s) w))) = s"
    and "s \<noteq> 0" "b \<notin> link_rows" "b + s \<notin> link_rows"
    and "link_rows = link_next ` set (node_head t # b # c # xs) \<union> link_prev ` set (node_head t # b # c # xs)"
  shows "\<exists>h'. alloc_exact h t s sz = Some (b + 8, h') \<and>
    ld h' (link_next (node_head t)) = Some c \<and> ld h' (link_prev c) = Some b \<and>
    ld h' (link_next c) = ld h (link_next c) \<and>
    (\<exists>h''. unlink_block h' c = Some h'' \<and> ld h'' (b + 8) = ld h (link_next c))"
proof -
  let ?a = "node_head t"
  have d: "ld h (link_next ?a) = Some b" "ld h (link_next b) = Some c" "ld h (link_prev c) = Some b"
      "distinct (?a # b # c # xs)" "apart (set (?a # b # c # xs))" "seg h c xs ?a"
    using assms(1) by (simp_all add: dlist_def)
  have r: "link_next x \<noteq> b \<and> link_prev x \<noteq> b \<and> link_next x \<noteq> b + s \<and> link_prev x \<noteq> b + s"
    if "x \<in> set (?a # b # c # xs)" for x using assms(6-8) that by (metis UnCI imageI)
  note ra = r [of ?a] and rb = r [of b] and rc = r [of c]
  let ?m = "(mem h)(b \<mapsto> set_allocated 1 (set_requested_size sz (set_block_size (drop_bit 4 s) w)),
     b + s \<mapsto> set_prev_allocated 1 v, link_next ?a \<mapsto> c)"
  let ?h = "h\<lparr>mem := ?m\<rparr>"
  have e: "alloc_exact h t s sz = Some (b + 8, ?h)"
    using d assms(2-5) ra rb by (simp add: alloc_exact_def upd_mapped sto_mapped Let_def)
  let ?n = "hd (xs @ [?a])"
  have n: "?n \<in> set (?a # b # c # xs)" "ld h (link_next c) = Some ?n" "ld h (link_prev ?n) = Some c"
    using hd_in_set [of "xs @ [?a]"] seg_hd [OF d(6)] by auto
  note rn = r [OF n(1)]
  have ap: "link_next x \<noteq> link_prev y" "link_prev y \<noteq> link_next x"
    if "x \<in> set (?a # b # c # xs)" "y \<in> set (?a # b # c # xs)" for x y
    using apartD [OF d(5) that] by auto
  have "c \<noteq> b" "c \<noteq> ?a" "?n \<noteq> c" "?n \<noteq> b" using d(4) by (cases xs; auto)+
  then have "unlink_block ?h c = Some (h\<lparr>mem := ?m(link_prev ?n \<mapsto> b, link_next b \<mapsto> ?n)\<rparr>)"
    using d n(2,3) ra rb rc rn ap [OF _ n(1), of c] ap [OF _ n(1), of ?a] ap [OF _ n(1), of b]
      ap [of ?a c]
    by (simp add: unlink_block_def sto_mapped)
  then have "\<exists>h''. unlink_block ?h c = Some h'' \<and> ld h'' (b + 8) = ld h (link_next c)"
    using n(2) by (simp add: link_next_def [of b])
  then show ?thesis using e d ra rb rc ap [of ?a c] \<open>c \<noteq> ?a\<close> by auto
qed

subsection \<open>The family of the free lists\<close>

text \<open>All free lists at once: pairs of a dummy header and its blocks, on disjoint link rows.\<close>

definition nodes :: "(u64 \<times> u64 list) list \<Rightarrow> u64 list" where
  "nodes Ls = concat (map (\<lambda>(a, xs). a # xs) Ls)"

definition blocks :: "(u64 \<times> u64 list) list \<Rightarrow> u64 list" where
  "blocks Ls = concat (map snd Ls)"

definition link_rows :: "(u64 \<times> u64 list) list \<Rightarrow> u64 set" where
  "link_rows Ls = link_next ` set (nodes Ls) \<union> link_prev ` set (nodes Ls)"

definition flists :: "heap \<Rightarrow> (u64 \<times> u64 list) list \<Rightarrow> bool" where
  "flists h Ls \<longleftrightarrow> (\<forall>(a, xs) \<in> set Ls. seg h a xs a) \<and> distinct (nodes Ls) \<and> apart (set (nodes Ls))"

definition drop_block :: "u64 \<Rightarrow> (u64 \<times> u64 list) list \<Rightarrow> (u64 \<times> u64 list) list" where
  "drop_block b Ls = map (\<lambda>(a, xs). (a, remove1 b xs)) Ls"

lemma nodes_simps [simp]: "nodes [] = []" "nodes ((a, xs) # Ls) = a # xs @ nodes Ls"
  "nodes (Ks @ Ls) = nodes Ks @ nodes Ls"
  by (simp_all add: nodes_def)

lemma blocks_simps [simp]: "blocks [] = []" "blocks ((a, xs) # Ls) = xs @ blocks Ls"
  "blocks (Ks @ Ls) = blocks Ks @ blocks Ls"
  by (simp_all add: blocks_def)

lemma blocks_nodes: "b \<in> set (blocks Ls) \<Longrightarrow> b \<in> set (nodes Ls)"
  by (induction Ls) auto

lemma drop_block_other: "b \<notin> set (blocks Ls) \<Longrightarrow> drop_block b Ls = Ls"
  by (induction Ls) (auto simp: drop_block_def remove1_idem)

lemma blocks_split:
  "b \<in> set (blocks Ls) \<Longrightarrow> \<exists>K a xs ys L. Ls = K @ (a, xs @ b # ys) # L"
proof (induction Ls)
  case (Cons l Ls)
  obtain a zs where l: "l = (a, zs)" by (cases l)
  show ?case
  proof (cases "b \<in> set zs")
    case True
    then show ?thesis using l by (metis append_Nil split_list)
  next
    case False
    then show ?thesis using Cons l by (metis Un_iff append_Cons blocks_simps(2) set_append)
  qed
qed simp

lemma drop_block_split:
  assumes "distinct (nodes (K @ (a, xs @ b # ys) # L))"
  shows "drop_block b (K @ (a, xs @ b # ys) # L) = K @ (a, xs @ ys) # L"
proof -
  have "b \<notin> set (blocks K)" "b \<notin> set (blocks L)" using assms by (auto dest: blocks_nodes)
  moreover have "remove1 b (xs @ b # ys) = xs @ ys" using assms by (simp add: remove1_append)
  ultimately show ?thesis using drop_block_other [of b K] drop_block_other [of b L]
    by (simp add: drop_block_def)
qed

lemma set_nodes_drop: "set (nodes (drop_block b Ls)) \<subseteq> set (nodes Ls)"
  by (induction Ls) (auto simp: drop_block_def dest: set_remove1_subset [THEN subsetD])

lemma link_rows_drop: "r \<notin> link_rows Ls \<Longrightarrow> r \<notin> link_rows (drop_block b Ls)"
  using set_nodes_drop [of b Ls] by (auto simp: link_rows_def)

lemma blocks_drop: "x \<noteq> b \<Longrightarrow> x \<in> set (blocks Ls) \<Longrightarrow> x \<in> set (blocks (drop_block b Ls))"
  by (induction Ls) (auto simp: drop_block_def in_set_remove1)

text \<open>A write to a row that is not a link row.\<close>

lemma flists_write:
  assumes "flists h Ls" "r \<notin> link_rows Ls"
  shows "flists (h\<lparr>mem := (mem h)(r \<mapsto> v)\<rparr>) Ls"
proof -
  have "seg (h\<lparr>mem := (mem h)(r \<mapsto> v)\<rparr>) a xs a" if "(a, xs) \<in> set Ls" for a xs
  proof -
    have n: "set (a # xs) \<subseteq> set (nodes Ls)" using that by (auto simp: nodes_def)
    have "seg (h\<lparr>mem := (mem h)(r \<mapsto> v)\<rparr>) a xs a = seg h a xs a"
      using n assms(2) by (intro seg_cong) (auto simp: link_rows_def)
    then show ?thesis using assms(1) that by (auto simp: flists_def)
  qed
  then show ?thesis using assms(1) by (auto simp: flists_def)
qed

lemma flists_unlink:
  assumes "flists h Ls" "b \<in> set (blocks Ls)"
  shows "\<exists>m. unlink_block h b = Some (h\<lparr>mem := m\<rparr>) \<and> flists (h\<lparr>mem := m\<rparr>) (drop_block b Ls) \<and>
    (\<forall>r. r \<notin> link_rows Ls \<longrightarrow> ld (h\<lparr>mem := m\<rparr>) r = ld h r)"
proof -
  obtain K a xs ys L where Ls: "Ls = K @ (a, xs @ b # ys) # L" using blocks_split [OF assms(2)] by blast
  have d: "distinct (nodes Ls)" "apart (set (nodes Ls))" using assms(1) by (simp_all add: flists_def)
  have dn: "distinct (a # xs @ b # ys)" "set (a # xs @ b # ys) \<subseteq> set (nodes Ls)" using d(1) Ls by auto
  have "seg h a (xs @ b # ys) a" using assms(1) unfolding Ls flists_def by simp
  then have "dlist h a (xs @ b # ys)"
    using dn apart_mono [OF d(2) dn(2)] unfolding dlist_def by blast
  note un = unlink_block_dlist [OF this]
  define n p where "n = hd (ys @ [a])" and "p = last (a # xs)"
  have u: "unlink_block h b = Some (h\<lparr>mem := (mem h)(link_prev n \<mapsto> p, link_next p \<mapsto> n)\<rparr>)"
      "dlist (h\<lparr>mem := (mem h)(link_prev n \<mapsto> p, link_next p \<mapsto> n)\<rparr>) a (xs @ ys)"
    using un unfolding n_def p_def by (elim exE conjE; simp only:)+
  let ?h = "h\<lparr>mem := (mem h)(link_prev n \<mapsto> p, link_next p \<mapsto> n)\<rparr>"
  have n: "n \<in> set (a # xs @ b # ys)" "p \<in> set (a # xs @ b # ys)"
    using hd_in_set [of "ys @ [a]"] last_in_set [of "a # xs"] unfolding n_def p_def by auto
  have dis: "(set (nodes K) \<union> set (nodes L)) \<inter> set (a # xs @ b # ys) = {}"
    using d(1) unfolding Ls by auto
  have other: "seg ?h a' xs' a'" if "(a', xs') \<in> set (K @ L)" for a' xs'
  proof -
    have x: "x \<in> set (nodes K) \<union> set (nodes L)" if "x \<in> set (a' # xs')" for x
      using \<open>(a', xs') \<in> set (K @ L)\<close> that by (auto simp: nodes_def)
    then have x': "x \<noteq> n \<and> x \<noteq> p" if "x \<in> set (a' # xs')" for x
      using that n dis by blast
    have f: "link_next x \<noteq> link_prev n" "link_next x \<noteq> link_next p" "link_prev x \<noteq> link_prev n"
        "link_prev x \<noteq> link_next p" if "x \<in> set (a' # xs')" for x
    proof -
      have "x \<in> set (nodes Ls)" "n \<in> set (nodes Ls)" "p \<in> set (nodes Ls)"
        using x [OF that] n unfolding Ls by auto
      then show "link_next x \<noteq> link_prev n" "link_next x \<noteq> link_next p" "link_prev x \<noteq> link_prev n"
        "link_prev x \<noteq> link_next p"
        using apartD [OF d(2), of x n] apartD [OF d(2), of p x] x' [OF that] by auto
    qed
    have "seg ?h a' xs' a' = seg h a' xs' a'"
    proof (rule seg_cong)
      fix x assume "x \<in> set (a' # xs')"
      from f [OF this] show "ld ?h (link_next x) = ld h (link_next x)" by simp
    next
      fix x assume "x \<in> set (xs' @ [a'])"
      then have "x \<in> set (a' # xs')" by auto
      from f [OF this] show "ld ?h (link_prev x) = ld h (link_prev x)" by simp
    qed
    moreover have "(a', xs') \<in> set Ls" using that unfolding Ls by auto
    ultimately show ?thesis using assms(1) unfolding flists_def by auto
  qed
  have "distinct (nodes (K @ (a, xs @ ys) # L))" using d(1) unfolding Ls by auto
  moreover have "apart (set (nodes (K @ (a, xs @ ys) # L)))"
    using d(2) unfolding Ls by (rule apart_mono) auto
  moreover have "seg ?h a (xs @ ys) a" using u(2) unfolding dlist_def by blast
  then have "seg ?h a' xs' a'" if "(a', xs') \<in> set (K @ (a, xs @ ys) # L)" for a' xs'
    using that other by auto
  ultimately have "flists ?h (K @ (a, xs @ ys) # L)" unfolding flists_def by blast
  moreover have "\<forall>r. r \<notin> link_rows Ls \<longrightarrow> ld ?h r = ld h r"
  proof (intro allI impI)
    fix r assume "r \<notin> link_rows Ls"
    moreover have "n \<in> set (nodes Ls)" "p \<in> set (nodes Ls)" using n unfolding Ls by auto
    ultimately have "r \<noteq> link_prev n" "r \<noteq> link_next p" unfolding link_rows_def by auto
    then show "ld ?h r = ld h r" by simp
  qed
  moreover have "drop_block b Ls = K @ (a, xs @ ys) # L"
    using drop_block_split [of K a xs b ys L] d(1) unfolding Ls by blast
  ultimately show ?thesis using u(1) by (intro exI [of _ "(mem h)(link_prev n \<mapsto> p, link_next p \<mapsto> n)"]) simp
qed


lemma link_rows_D:
  "r \<notin> link_rows Ls \<Longrightarrow> x \<in> set (nodes Ls) \<Longrightarrow> r \<noteq> link_next x \<and> r \<noteq> link_prev x"
  by (auto simp: link_rows_def)

subsection \<open>Coalescing\<close>

text \<open>The free block of \<open>tot\<close> bytes at \<open>b\<close>: header, and footer with the same fields.\<close>

definition free_block :: "heap \<Rightarrow> u64 \<Rightarrow> u32 \<Rightarrow> u64 \<Rightarrow> bool" where
  "free_block h b tot prev \<longleftrightarrow> (\<exists>v f. ld h b = Some v \<and> allocated v = 0 \<and> bs_int v = tot \<and>
     prev_allocated v = prev \<and> ld h (b + scast tot - 8) = Some f \<and> allocated f = 0 \<and>
     bs_int f = tot \<and> prev_allocated f = prev)"

lemma bs_int_other [simp]:
  "bs_int (set_allocated x w) = bs_int w" "bs_int (set_prev_allocated x w) = bs_int w"
  "bs_int (set_requested_size x w) = bs_int w"
  by (simp_all add: bs_int_def)

lemma bs_int_sum [simp]:
  "bs_int (set_block_size (int_to_bs (bs_int x + bs_int y)) w) = bs_int x + bs_int y"
  "bs_int (set_block_size (int_to_bs (bs_int x + bs_int y + bs_int z)) w) = bs_int x + bs_int y + bs_int z"
  by (simp_all add: bs_int_set take_bit_4_add)

lemma sint_of_nat_u32: "n < 2 ^ 31 \<Longrightarrow> sint (of_nat n :: u32) = int n"
  by (simp add: signed_of_nat signed_take_bit_int_eq_self_iff)

lemma scast_unat: "unat (z :: u32) < 2 ^ 31 \<Longrightarrow> (scast z :: u64) = of_nat (unat z)"
proof -
  assume z: "unat z < 2 ^ 31"
  have "(of_nat (unat z) :: u32) = z" by simp
  then have "sint z = int (unat z)" using sint_of_nat_u32 [OF z] by (simp only:)
  then show ?thesis by (simp only: scast_eq of_int_of_nat_eq)
qed

lemma scast_add:
  assumes "unat x + unat y < 2 ^ 31"
  shows "(scast (x + y :: u32) :: u64) = scast x + scast y"
proof -
  have u: "unat (x + y) = unat x + unat y" using assms by (simp add: unat_word_ariths)
  have "(of_nat (unat x + unat y) :: u64) = of_nat (unat x) + of_nat (unat y)" by (simp only: of_nat_add)
  then show ?thesis
    using assms u scast_unat [of "x + y"] scast_unat [of x] scast_unat [of y] by (simp only:)
qed

text \<open>Both neighbours are allocated.\<close>

lemma coalesce_alone:
  assumes "flists h Ls" "ld h b = Some w" "nh = b + bsz w" "ld h nh = Some n" "ld h (nh - 8) = Some f"
    and "allocated n = 1" "prev_allocated w = 1" "distinct [b, nh, nh - 8]"
    and "b \<notin> link_rows Ls" "nh \<notin> link_rows Ls" "nh - 8 \<notin> link_rows Ls"
  shows "\<exists>m. coalesce h (b + 8) = Some (b, h\<lparr>mem := m\<rparr>) \<and> flists (h\<lparr>mem := m\<rparr>) Ls \<and>
    free_block (h\<lparr>mem := m\<rparr>) b (bs_int w) 1 \<and> ld (h\<lparr>mem := m\<rparr>) nh = Some (set_prev_allocated 0 n) \<and>
    (\<forall>r. r \<notin> {b, nh, nh - 8} \<longrightarrow> ld (h\<lparr>mem := m\<rparr>) r = ld h r)"
proof -
  let ?w = "set_requested_size 0 (set_allocated 0 w)"
  let ?m = "(mem h)(b \<mapsto> ?w, nh \<mapsto> set_prev_allocated 0 n, nh - 8 \<mapsto> copy_info ?w f)"
  have nh: "b + 8 - 8 + bsz w = nh" "b + 8 - 8 = b" using assms(3) by simp_all
  have ne: "b \<noteq> nh" "b \<noteq> nh - 8" "nh \<noteq> b" "nh - 8 \<noteq> b" using assms(8) by auto
  have "coalesce h (b + 8) = Some (b, h\<lparr>mem := ?m\<rparr>)"
    using assms(2,4-7) nh ne by (simp add: coalesce_def free_alone_def upd_mapped Let_def)
  moreover have "flists (h\<lparr>mem := ?m\<rparr>) Ls"
    using flists_write [OF flists_write [OF flists_write [OF assms(1,9)] assms(10)] assms(11)] by simp
  moreover have "b + scast (bs_int w) - 8 = nh - 8" using assms(3) by (simp add: bsz_def)
  ultimately show ?thesis using assms(7) ne by (intro exI [of _ ?m]) (simp add: free_block_def)
qed

text \<open>The block behind is free: it leaves its list.\<close>

lemma coalesce_next:
  assumes "flists h Ls" "ld h b = Some w" "nh = b + bsz w" "ld h nh = Some n"
    and "ft = nh + bsz n - 8" "ld h ft = Some f"
    and "allocated n = 0" "prev_allocated w = 1" "distinct [b, nh, ft]"
    and "b \<notin> link_rows Ls" "ft \<notin> link_rows Ls" "nh \<in> set (blocks Ls)"
    and "unat (bs_int w) + unat (bs_int n) < 2 ^ 31"
  shows "\<exists>m. coalesce h (b + 8) = Some (b, h\<lparr>mem := m\<rparr>) \<and> flists (h\<lparr>mem := m\<rparr>) (drop_block nh Ls) \<and>
    free_block (h\<lparr>mem := m\<rparr>) b (bs_int w + bs_int n) 1 \<and>
    (\<forall>r. r \<notin> link_rows Ls \<union> {b, ft} \<longrightarrow> ld (h\<lparr>mem := m\<rparr>) r = ld h r)"
proof -
  let ?w0 = "set_requested_size 0 (set_allocated 0 w)"
  let ?w = "set_block_size (int_to_bs (bs_int w + bs_int n)) ?w0"
  let ?m = "(mem h)(b \<mapsto> ?w, ft \<mapsto> copy_info ?w f)"
  let ?h = "h\<lparr>mem := ?m\<rparr>"
  have nh: "b + 8 - 8 + bsz w = nh" "b + 8 - 8 = b" using assms(3) by simp_all
  have "flists ?h Ls"
    using flists_write [OF flists_write [OF assms(1,10)] assms(11)] by simp
  from flists_unlink [OF this assms(12)]
  obtain m where u: "unlink_block ?h nh = Some (?h\<lparr>mem := m\<rparr>)" "flists (?h\<lparr>mem := m\<rparr>) (drop_block nh Ls)"
    "\<forall>r. r \<notin> link_rows Ls \<longrightarrow> ld (?h\<lparr>mem := m\<rparr>) r = ld ?h r" by blast
  have ne: "b \<noteq> nh" "b \<noteq> ft" "nh \<noteq> b" "ft \<noteq> b" using assms(9) by auto
  have "coalesce h (b + 8) = Some (b, ?h\<lparr>mem := m\<rparr>)"
    using assms(2,4,6-8) assms(5) [symmetric] nh ne u(1) by (simp add: coalesce_def free_next_def upd_mapped Let_def)
  moreover have "b + scast (bs_int w + bs_int n) - 8 = ft"
    using assms(3,5) scast_add [OF assms(13)] by (simp add: bsz_def algebra_simps)
  moreover have "ld (?h\<lparr>mem := m\<rparr>) b = Some ?w" "ld (?h\<lparr>mem := m\<rparr>) ft = Some (copy_info ?w f)"
    using u(3) assms(9-11) by auto
  moreover have "ld (?h\<lparr>mem := m\<rparr>) r = ld h r" if "r \<notin> link_rows Ls \<union> {b, ft}" for r
    using that u(3) by simp
  ultimately show ?thesis using u(2) assms(8) unfolding free_block_def by (intro exI [of _ m]) simp
qed

text \<open>The block before is free: it leaves its list and takes the freed block over.\<close>

lemma coalesce_prev:
  assumes "flists h Ls" "ld h b = Some w" "nh = b + bsz w" "ld h nh = Some n" "ld h (nh - 8) = Some f"
    and "ld h (b - 8) = Some pf" "pb = b - bsz pf" "ld h pb = Some p" "bs_int pf = bs_int p"
    and "allocated n = 1" "allocated p = 0" "prev_allocated w = 0" "distinct [pb, b - 8, b, nh, nh - 8]"
    and "pb \<notin> link_rows Ls" "b \<notin> link_rows Ls" "nh \<notin> link_rows Ls" "nh - 8 \<notin> link_rows Ls"
    and "pb \<in> set (blocks Ls)" "unat (bs_int p) + unat (bs_int w) < 2 ^ 31"
  shows "\<exists>m. coalesce h (b + 8) = Some (pb, h\<lparr>mem := m\<rparr>) \<and> flists (h\<lparr>mem := m\<rparr>) (drop_block pb Ls) \<and>
    free_block (h\<lparr>mem := m\<rparr>) pb (bs_int p + bs_int w) (prev_allocated p) \<and>
    ld (h\<lparr>mem := m\<rparr>) nh = Some (set_prev_allocated 0 n) \<and>
    (\<forall>r. r \<notin> link_rows Ls \<union> {pb, b, nh, nh - 8} \<longrightarrow> ld (h\<lparr>mem := m\<rparr>) r = ld h r)"
proof -
  let ?p = "set_block_size (int_to_bs (bs_int p + bs_int w)) p"
  let ?m = "(mem h)(b \<mapsto> set_allocated 0 w, pb \<mapsto> ?p, nh - 8 \<mapsto> copy_info ?p f)"
  let ?h = "h\<lparr>mem := ?m\<rparr>"
  have nh: "b + 8 - 8 + bsz w = nh" "b + 8 - 8 = b" "b + 8 - 16 = b - 8" "b + 8 - 16 + 8 - bsz pf = pb"
    using assms(3,7) by simp_all
  have "pb + scast (bs_int p + bs_int w) - 8 = nh - 8"
    using assms(3,7,9) scast_add [OF assms(19)] by (simp add: bsz_def)
  then have ft: "pb + bsz ?p - 8 = nh - 8" "pb + scast (bs_int p + bs_int w) - 8 = nh - 8"
    by (simp_all add: bsz_def)
  have "flists ?h Ls"
    using flists_write [OF flists_write [OF flists_write [OF assms(1,15)] assms(14)] assms(17)] by simp
  from flists_unlink [OF this assms(18)]
  obtain m where u: "unlink_block ?h pb = Some (?h\<lparr>mem := m\<rparr>)" "flists (?h\<lparr>mem := m\<rparr>) (drop_block pb Ls)"
    "\<forall>r. r \<notin> link_rows Ls \<longrightarrow> ld (?h\<lparr>mem := m\<rparr>) r = ld ?h r" by blast
  let ?g = "h\<lparr>mem := m(nh \<mapsto> set_prev_allocated 0 n)\<rparr>"
  have r: "ld (h\<lparr>mem := m\<rparr>) nh = Some n" "ld (h\<lparr>mem := m\<rparr>) pb = Some ?p"
      "ld (h\<lparr>mem := m\<rparr>) (nh - 8) = Some (copy_info ?p f)"
    using u(3) assms(4,13-17) by auto
  have ne: "b \<noteq> nh" "b \<noteq> pb" "pb \<noteq> b" "nh \<noteq> b" "b \<noteq> nh - 8" "nh - 8 \<noteq> b" "pb \<noteq> nh - 8" "nh - 8 \<noteq> pb"
      "b - 8 \<noteq> b" "b \<noteq> b - 8"
    using assms(13) by auto
  have "coalesce h (b + 8) = Some (pb, ?g)"
    using assms(2,4-6,8-12) nh ne u(1) ft r(1)
    by (simp add: coalesce_def free_prev_def upd_mapped Let_def)
  moreover have "flists ?g (drop_block pb Ls)"
    using flists_write [OF u(2) link_rows_drop [OF assms(16)]] by simp
  moreover have "ld ?g r = ld h r" if "r \<notin> link_rows Ls \<union> {pb, b, nh, nh - 8}" for r
    using that u(3) by simp
  ultimately show ?thesis using r ft(2) assms(11,13) unfolding free_block_def
    by (intro exI [of _ "m(nh \<mapsto> set_prev_allocated 0 n)"]) simp
qed

text \<open>Freeing a block between two free blocks removes both neighbours from their lists and leaves
  one free block at the address of the first, with header and footer of the sum of the three sizes
  and the previous-allocated bit of the first; all lists stay well formed.\<close>

lemma coalesce_both:
  assumes "flists h Ls" "ld h b = Some w" "nh = b + bsz w" "ld h nh = Some n"
    and "ft = nh + bsz n - 8" "ld h ft = Some f"
    and "ld h (b - 8) = Some pf" "pb = b - bsz pf" "ld h pb = Some p" "bs_int pf = bs_int p"
    and "allocated n = 0" "allocated p = 0" "prev_allocated w = 0" "distinct [pb, b - 8, b, nh, ft]"
    and "pb \<notin> link_rows Ls" "b \<notin> link_rows Ls" "ft \<notin> link_rows Ls"
    and "pb \<in> set (blocks Ls)" "nh \<in> set (blocks Ls)"
    and "unat (bs_int p) + unat (bs_int w) + unat (bs_int n) < 2 ^ 31"
  shows "\<exists>m. coalesce h (b + 8) = Some (pb, h\<lparr>mem := m\<rparr>) \<and>
    flists (h\<lparr>mem := m\<rparr>) (drop_block pb (drop_block nh Ls)) \<and>
    free_block (h\<lparr>mem := m\<rparr>) pb (bs_int p + bs_int w + bs_int n) (prev_allocated p) \<and>
    (\<forall>r. r \<notin> link_rows Ls \<union> {pb, b, ft} \<longrightarrow> ld (h\<lparr>mem := m\<rparr>) r = ld h r)"
proof -
  let ?p = "set_block_size (int_to_bs (bs_int p + bs_int w + bs_int n)) p"
  let ?m = "(mem h)(b \<mapsto> set_allocated 0 w, pb \<mapsto> ?p, ft \<mapsto> copy_info ?p f)"
  let ?h = "h\<lparr>mem := ?m\<rparr>"
  have nh: "b + 8 - 8 + bsz w = nh" "b + 8 - 8 = b" "b + 8 - 16 = b - 8" "b + 8 - 16 + 8 - bsz pf = pb"
    using assms(3,8) by simp_all
  have u1: "unat (bs_int p) + unat (bs_int w) < 2 ^ 31" using assms(20) by simp
  then have "unat (bs_int p + bs_int w) = unat (bs_int p) + unat (bs_int w)"
    by (simp add: unat_word_ariths)
  then have u2: "unat (bs_int p + bs_int w) + unat (bs_int n) < 2 ^ 31" using assms(20) by simp
  have ft: "pb + scast (bs_int p + bs_int w + bs_int n) - 8 = ft"
    using assms(3,5,8,10) scast_add [OF u1] scast_add [OF u2] by (simp add: bsz_def algebra_simps)
  have "flists ?h Ls"
    using flists_write [OF flists_write [OF flists_write [OF assms(1,16)] assms(15)] assms(17)] by simp
  from flists_unlink [OF this assms(19)]
  obtain m where u: "unlink_block ?h nh = Some (h\<lparr>mem := m\<rparr>)" "flists (h\<lparr>mem := m\<rparr>) (drop_block nh Ls)"
    "\<forall>r. r \<notin> link_rows Ls \<longrightarrow> ld (h\<lparr>mem := m\<rparr>) r = ld ?h r" by auto
  have "pb \<noteq> nh" using assms(14) by auto
  then have "pb \<in> set (blocks (drop_block nh Ls))"
    using assms(18) by (intro blocks_drop)
  from flists_unlink [OF u(2) this]
  obtain m' where v: "unlink_block (h\<lparr>mem := m\<rparr>) pb = Some (h\<lparr>mem := m'\<rparr>)"
    "flists (h\<lparr>mem := m'\<rparr>) (drop_block pb (drop_block nh Ls))"
    "\<forall>r. r \<notin> link_rows (drop_block nh Ls) \<longrightarrow> ld (h\<lparr>mem := m'\<rparr>) r = ld (h\<lparr>mem := m\<rparr>) r" by auto
  have r: "ld (h\<lparr>mem := m'\<rparr>) pb = Some ?p" "ld (h\<lparr>mem := m'\<rparr>) ft = Some (copy_info ?p f)"
    using u(3) v(3) assms(14-17) link_rows_drop [of pb Ls nh] link_rows_drop [of ft Ls nh] by auto
  have ne: "b \<noteq> nh" "b \<noteq> pb" "pb \<noteq> b" "nh \<noteq> b" "b \<noteq> ft" "ft \<noteq> b" "pb \<noteq> ft" "ft \<noteq> pb"
      "b - 8 \<noteq> b" "b \<noteq> b - 8" "pb \<noteq> nh" "nh \<noteq> pb"
    using assms(14) by auto
  have "coalesce h (b + 8) = Some (pb, h\<lparr>mem := m'\<rparr>)"
    using assms(2,4,6,7,9-13) assms(5) [symmetric] nh ne u(1) v(1)
    by (simp add: coalesce_def free_both_def upd_mapped Let_def)
  moreover have "ld (h\<lparr>mem := m'\<rparr>) x = ld h x" if "x \<notin> link_rows Ls \<union> {pb, b, ft}" for x
    using that u(3) v(3) link_rows_drop [of x Ls nh] by simp
  ultimately show ?thesis using v(2) r ft assms(12) unfolding free_block_def by (intro exI [of _ m']) simp
qed

subsection \<open>Insertion\<close>

definition add_front :: "u64 \<Rightarrow> u64 \<Rightarrow> (u64 \<times> u64 list) list \<Rightarrow> (u64 \<times> u64 list) list" where
  "add_front a b Ls = map (\<lambda>(a', xs). if a' = a then (a', b # xs) else (a', xs)) Ls"

lemma add_front_other: "a \<notin> fst ` set Ls \<Longrightarrow> add_front a b Ls = Ls"
  by (induction Ls) (auto simp: add_front_def)

lemma nodes_add_front:
  "distinct (map fst Ls) \<Longrightarrow> a \<in> fst ` set Ls \<Longrightarrow> mset (nodes (add_front a b Ls)) = mset (b # nodes Ls)"
proof (induction Ls)
  case (Cons l Ls)
  obtain a' xs where l: "l = (a', xs)" by (cases l)
  show ?case
  proof (cases "a' = a")
    case True
    then have "a \<notin> fst ` set Ls" using Cons.prems(1) l by simp
    then have "add_front a b Ls = Ls" by (rule add_front_other)
    then show ?thesis using True l by (simp add: add_front_def)
  next
    case False
    then show ?thesis using Cons l by (auto simp: add_front_def)
  qed
qed simp

lemma fst_nodes: "a \<in> fst ` set Ls \<Longrightarrow> a \<in> set (nodes Ls)"
  by (force simp: nodes_def)

lemma distinct_heads: "distinct (nodes Ls) \<Longrightarrow> distinct (map fst Ls)"
proof (induction Ls)
  case (Cons l Ls)
  then show ?case using fst_nodes by (cases l) auto
qed simp

lemma flists_link_front:
  assumes "flists h Ls" "a \<in> fst ` set Ls" "b \<notin> set (nodes Ls)" "apart (insert b (set (nodes Ls)))"
    and "ld h (link_next b) \<noteq> None" "ld h (link_prev b) \<noteq> None"
  shows "\<exists>m. link_front h a b = Some (h\<lparr>mem := m\<rparr>) \<and> flists (h\<lparr>mem := m\<rparr>) (add_front a b Ls) \<and>
    (\<forall>r. r \<notin> link_rows Ls \<and> r \<noteq> link_next b \<and> r \<noteq> link_prev b \<longrightarrow> ld (h\<lparr>mem := m\<rparr>) r = ld h r)"
proof -
  obtain xs where xs: "(a, xs) \<in> set Ls" using assms(2) by auto
  have d: "distinct (nodes Ls)" "apart (set (nodes Ls))" "seg h a xs a"
    using assms(1) xs by (auto simp: flists_def)
  have sub: "set (a # xs) \<subseteq> set (nodes Ls)" using xs by (auto simp: nodes_def)
  have "distinct (a # xs)" using d(1) xs
    by (induction Ls) (auto simp: nodes_def)
  then have dl: "dlist h a xs" using d sub by (auto simp: dlist_def apart_def)
  have "b \<notin> set (a # xs)" using sub assms(3) by blast
  moreover have "apart (set (b # a # xs))" using assms(4) sub by (auto simp: apart_def)
  ultimately obtain n where n: "n = hd (xs @ [a])" and
    u: "link_front h a b = Some (h\<lparr>mem := (mem h)(link_prev n \<mapsto> b, link_prev b \<mapsto> a, link_next b \<mapsto> n, link_next a \<mapsto> b)\<rparr>)"
      "dlist (h\<lparr>mem := (mem h)(link_prev n \<mapsto> b, link_prev b \<mapsto> a, link_next b \<mapsto> n, link_next a \<mapsto> b)\<rparr>) a (b # xs)"
    using link_front_dlist [OF dl _ _ assms(5,6)] by blast
  let ?h = "h\<lparr>mem := (mem h)(link_prev n \<mapsto> b, link_prev b \<mapsto> a, link_next b \<mapsto> n, link_next a \<mapsto> b)\<rparr>"
  have nin: "n \<in> set (a # xs)" using hd_in_set [of "xs @ [a]"] n by auto
  have other: "seg ?h a' xs' a'" if "(a', xs') \<in> set Ls" "a' \<noteq> a" for a' xs'
  proof -
    have sub': "set (a' # xs') \<subseteq> set (nodes Ls)" using that(1) by (auto simp: nodes_def)
    have dis: "set (a' # xs') \<inter> set (a # xs) = {}"
      using d(1) xs that
      by (induction Ls) (auto simp: nodes_def dest!: fst_nodes)
    have f: "link_next x \<noteq> link_prev n \<and> link_next x \<noteq> link_prev b \<and> link_next x \<noteq> link_next b \<and> link_next x \<noteq> link_next a
      \<and> link_prev x \<noteq> link_prev n \<and> link_prev x \<noteq> link_prev b \<and> link_prev x \<noteq> link_next b \<and> link_prev x \<noteq> link_next a"
      if x: "x \<in> set (a' # xs')" for x
    proof -
      have i: "x \<in> insert b (set (nodes Ls))" "n \<in> insert b (set (nodes Ls))" "a \<in> insert b (set (nodes Ls))"
          "b \<in> insert b (set (nodes Ls))"
        using x sub sub' nin by auto
      have "x \<noteq> n" "x \<noteq> a" using dis x nin by auto
      moreover have "x \<noteq> b" using x sub' assms(3) by blast
      ultimately show ?thesis
        using apartD [OF assms(4) i(1,2)] apartD [OF assms(4) i(1,4)] apartD [OF assms(4) i(4,1)]
          apartD [OF assms(4) i(3,1)] by auto
    qed
    have "seg ?h a' xs' a' = seg h a' xs' a'"
    proof (rule seg_cong)
      fix x assume "x \<in> set (a' # xs')"
      from f [OF this] show "ld ?h (link_next x) = ld h (link_next x)" by simp
    next
      fix x assume "x \<in> set (xs' @ [a'])"
      then have "x \<in> set (a' # xs')" by auto
      from f [OF this] show "ld ?h (link_prev x) = ld h (link_prev x)" by simp
    qed
    then show ?thesis using assms(1) that by (auto simp: flists_def)
  qed
  have dh: "distinct (map fst Ls)" using d(1) by (rule distinct_heads)
  have nm: "mset (nodes (add_front a b Ls)) = mset (b # nodes Ls)"
    using nodes_add_front [OF dh assms(2)] .
  have "seg ?h a' ys a'" if ys: "(a', ys) \<in> set (add_front a b Ls)" for a' ys
  proof (cases "a' = a")
    case True
    then obtain xs' where "(a, xs') \<in> set Ls" "ys = b # xs'" using ys by (auto simp: add_front_def split: if_splits)
    moreover have "xs' = xs" using calculation(1) xs dh by (metis eq_key_imp_eq_value)
    ultimately show ?thesis using u(2) True by (simp only: dlist_def)
  next
    case False
    then show ?thesis using other ys by (auto simp: add_front_def split: if_splits)
  qed
  moreover have "distinct (nodes (add_front a b Ls))"
    using nm d(1) assms(3) by (metis distinct.simps(2) mset_eq_imp_distinct_iff)
  moreover have "set (nodes (add_front a b Ls)) = insert b (set (nodes Ls))"
    using nm by (metis list.simps(15) mset_eq_setD)
  ultimately have "flists ?h (add_front a b Ls)"
    using assms(4) unfolding flists_def by auto
  moreover have "\<forall>r. r \<notin> link_rows Ls \<and> r \<noteq> link_next b \<and> r \<noteq> link_prev b \<longrightarrow> ld ?h r = ld h r"
    using nin sub by (auto simp: link_rows_def)
  ultimately show ?thesis using u(1) by blast
qed


subsection \<open>Freeing\<close>

text \<open>The list nodes from \<open>x\<close> on.\<close>

fun nchain :: "heap \<Rightarrow> u64 \<Rightarrow> u64 list \<Rightarrow> bool" where
  "nchain h x [] \<longleftrightarrow> x = free_list_head h"
| "nchain h x (n # ns) \<longleftrightarrow> x = n \<and> n \<noteq> free_list_head h \<and> ld h (node_size n) \<noteq> None \<and>
     (case ld h (node_next n) of None \<Rightarrow> False | Some y \<Rightarrow> nchain h y ns)"

lemma insert_scan_nodes:
  assumes "nchain h x (ms @ n # ns)" "\<forall>m \<in> set ms. the (ld h (node_size m)) < bs"
    and "ld h (node_size n) = Some bs" "link_front h (node_head n) b = Some h'"
  shows "insert_scan h bs b x = Some (True, h')"
  using assms
proof (induction ms arbitrary: x)
  case Nil
  then show ?case by (subst insert_scan.simps) (simp split: option.splits)
next
  case (Cons m ms)
  then obtain y where "ld h (node_next m) = Some y" "nchain h y (ms @ n # ns)"
    by (auto split: option.splits)
  moreover have "\<exists>s. ld h (node_size m) = Some s \<and> s < bs" using Cons.prems(1,2) by auto
  ultimately show ?case using Cons by (subst insert_scan.simps) auto
qed

text \<open>When a list for the size of the coalesced block exists, \<open>sf_free\<close> of a valid pointer puts
  the block at the front of that list, keeps every list well formed and keeps its header and footer.\<close>

theorem sf_free_into_list:
  assumes "valid_pointer h pp = Some True" "coalesce h pp = Some (b, h1)"
    and "flists h1 Ls" "free_block h1 b tot pv"
    and "ld h1 (node_next (free_list_head h1)) = Some x" "nchain h1 x (ms @ n # ns)"
    and "\<forall>m \<in> set ms. the (ld h1 (node_size m)) < scast tot" "ld h1 (node_size n) = Some (scast tot)"
    and "node_head n \<in> fst ` set Ls" "b \<notin> set (nodes Ls)" "apart (insert b (set (nodes Ls)))"
    and "ld h1 (link_next b) \<noteq> None" "ld h1 (link_prev b) \<noteq> None"
    and "b \<notin> link_rows Ls" "b + scast tot - 8 \<notin> link_rows Ls \<union> {link_next b, link_prev b}"
  shows "\<exists>h'. sf_free E h pp = Some (Done h') \<and> flists h' (add_front (node_head n) b Ls) \<and>
    free_block h' b tot pv"
proof -
  from flists_link_front [OF assms(3,9-13)]
  obtain m where m: "link_front h1 (node_head n) b = Some (h1\<lparr>mem := m\<rparr>)"
    "flists (h1\<lparr>mem := m\<rparr>) (add_front (node_head n) b Ls)"
    "\<forall>r. r \<notin> link_rows Ls \<and> r \<noteq> link_next b \<and> r \<noteq> link_prev b \<longrightarrow> ld (h1\<lparr>mem := m\<rparr>) r = ld h1 r"
    by blast
  obtain w where w: "ld h1 b = Some w" "bsz w = scast tot"
    using assms(4) by (auto simp: free_block_def bsz_def)
  have "insert_scan h1 (scast tot) b x = Some (True, h1\<lparr>mem := m\<rparr>)"
    using insert_scan_nodes [OF assms(6-8) m(1)] .
  then have "free_insert E h1 b = Some (h1\<lparr>mem := m\<rparr>)"
    using w assms(5) by (simp add: free_insert_def)
  then have "sf_free E h pp = Some (Done (h1\<lparr>mem := m\<rparr>))"
    using assms(1,2) by (simp add: sf_free_def)
  moreover have "b \<noteq> link_next b" "b \<noteq> link_prev b"
    by (simp_all add: link_next_def link_prev_def)
  then have "ld (h1\<lparr>mem := m\<rparr>) b = ld h1 b" "ld (h1\<lparr>mem := m\<rparr>) (b + scast tot - 8) = ld h1 (b + scast tot - 8)"
    using m(3) assms(14,15) by auto
  then have "free_block (h1\<lparr>mem := m\<rparr>) b tot pv" using assms(4) by (simp add: free_block_def)
  ultimately show ?thesis using m(2) by blast
qed

lemma valid_pointer_not_allocated:
  assumes "ld h (pp - 8) = Some w" "allocated w = 0"
  shows "valid_pointer h pp = Some False"
  using assms by (simp add: valid_pointer_def)

text \<open>A block that is freed between two allocated blocks cannot be freed again.\<close>

lemma sf_free_twice:
  assumes "sf_free E h pp = Some (Done h')" "free_block h' (pp - 8) tot pv"
  shows "sf_free E' h' pp = Some Abort"
  using assms by (auto simp: sf_free_def free_block_def valid_pointer_def)

subsection \<open>The lists as an abstract data type\<close>

text \<open>The two pointer operations, and what they mean for the family of lists.\<close>

datatype list_op = Unlink u64 | Front u64 u64

fun list_step :: "list_op \<Rightarrow> heap \<Rightarrow> heap option" where
  "list_step (Unlink b) h = unlink_block h b"
| "list_step (Front a b) h = link_front h a b"

fun list_abs :: "list_op \<Rightarrow> (u64 \<times> u64 list) list \<Rightarrow> (u64 \<times> u64 list) list" where
  "list_abs (Unlink b) Ls = drop_block b Ls"
| "list_abs (Front a b) Ls = add_front a b Ls"

fun list_pre :: "u64 set \<Rightarrow> list_op \<Rightarrow> (u64 \<times> u64 list) list \<Rightarrow> bool" where
  "list_pre U (Unlink b) Ls \<longleftrightarrow> b \<in> set (blocks Ls)"
| "list_pre U (Front a b) Ls \<longleftrightarrow> a \<in> fst ` set Ls \<and> b \<in> U \<and> b \<notin> set (nodes Ls)"

text \<open>\<open>U\<close>: the blocks and dummy headers that exist, with mapped, disjoint link rows.\<close>

definition flists_on :: "u64 set \<Rightarrow> heap \<Rightarrow> (u64 \<times> u64 list) list \<Rightarrow> bool" where
  "flists_on U h Ls \<longleftrightarrow> flists h Ls \<and> set (nodes Ls) \<subseteq> U \<and> apart U \<and>
     (\<forall>b \<in> U. ld h (link_next b) \<noteq> None \<and> ld h (link_prev b) \<noteq> None)"

lemma sto_mono: "sto h a v = Some h' \<Longrightarrow> ld h r \<noteq> None \<Longrightarrow> ld h' r \<noteq> None"
  by (auto simp: sto_Some)

lemma unlink_block_mono: "unlink_block h b = Some h' \<Longrightarrow> ld h r \<noteq> None \<Longrightarrow> ld h' r \<noteq> None"
  unfolding unlink_block_def by (auto split: bind_splits simp: sto_Some split: if_splits)

lemma link_front_mono: "link_front h a b = Some h' \<Longrightarrow> ld h r \<noteq> None \<Longrightarrow> ld h' r \<noteq> None"
  unfolding link_front_def by (auto split: bind_splits simp: sto_Some split: if_splits)

lemma nodes_list_abs:
  assumes "flists h Ls" "list_pre U x Ls" "set (nodes Ls) \<subseteq> U"
  shows "set (nodes (list_abs x Ls)) \<subseteq> U"
proof (cases x)
  case (Unlink b)
  then show ?thesis using set_nodes_drop [of b Ls] assms(3) by auto
next
  case (Front a b)
  then have "mset (nodes (add_front a b Ls)) = mset (b # nodes Ls)"
    using assms distinct_heads by (intro nodes_add_front) (auto simp: flists_def)
  then have "set (nodes (add_front a b Ls)) = insert b (set (nodes Ls))"
    by (metis list.simps(15) mset_eq_setD)
  then show ?thesis using Front assms by simp
qed

lemma list_step_simulates:
  assumes "flists_on U h Ls" "list_pre U x Ls"
  shows "\<exists>h'. list_step x h = Some h' \<and> flists_on U h' (list_abs x Ls)"
proof -
  have f: "flists h Ls" "set (nodes Ls) \<subseteq> U" "apart U"
      "\<forall>b \<in> U. ld h (link_next b) \<noteq> None \<and> ld h (link_prev b) \<noteq> None"
    using assms(1) unfolding flists_on_def by blast+
  have "\<exists>h'. list_step x h = Some h' \<and> flists h' (list_abs x Ls)"
  proof (cases x)
    case (Unlink b)
    then show ?thesis using flists_unlink [OF f(1), of b] assms(2) by auto
  next
    case (Front a b)
    moreover have "apart (insert b (set (nodes Ls)))"
      using Front f(2,3) assms(2) by (intro apart_mono [OF f(3)]) auto
    ultimately show ?thesis using flists_link_front [OF f(1), of a b] f(4) assms(2) by auto
  qed
  then obtain h' where h': "list_step x h = Some h'" "flists h' (list_abs x Ls)" by blast
  have "ld h' r \<noteq> None" if "ld h r \<noteq> None" for r
    using h'(1) that by (cases x) (auto dest: unlink_block_mono link_front_mono)
  then show ?thesis
    using h' f nodes_list_abs [OF f(1) assms(2) f(2)] unfolding flists_on_def by blast
qed

interpretation free_lists: refinement "flists_on U" list_step list_abs "list_pre U" for U
  by unfold_locales (rule list_step_simulates)

text \<open>Every sequence of unlinking blocks and linking blocks at the front of a list, as the allocator
  does them on its doubly linked circular lists, runs without a memory fault and has the effect of
  removing and prepending elements of the abstract lists.\<close>

theorem list_operations_refine:
  assumes "flists_on U h Ls" "all_pre (list_pre U) list_abs ops Ls"
  shows "\<exists>h'. run_steps list_step ops h = Some h' \<and> flists_on U h' (fold list_abs ops Ls)"
  using assms by (rule free_lists.run)

end
