(* ===== verification/Sf_Blocks.thy ===== *)
theory Sf_Blocks
  imports Sf_Lists
begin

text \<open>
  The heap of hw3/src/sfmm.c as a sequence of blocks. An abstract block has a size in bytes and, when
  it is allocated, the size that was requested; \<open>tiling\<close> says that the headers and footers in memory
  describe a sequence of blocks that lie one behind the other from the first block to the
  epilogue, \<open>lists_ok\<close> that the circular lists of lists and of free blocks are well linked,
  \<open>heap_ok\<close> that moreover the lists hold exactly the free blocks and no two free blocks are
  neighbours. Positions are byte offsets from the first block, so that the geometry is arithmetic
  on natural numbers.
\<close>

subsection \<open>Blocks\<close>

datatype ablock = Free nat | Used nat nat

fun bytes :: "ablock \<Rightarrow> nat" where
  "bytes (Free n) = n"
| "bytes (Used n r) = n"

fun used :: "ablock \<Rightarrow> bool" where
  "used (Free n) = False"
| "used (Used n r) = True"

definition extent :: "ablock list \<Rightarrow> nat" where
  "extent bs = sum_list (map bytes bs)"

definition sized :: "ablock list \<Rightarrow> bool" where
  "sized bs \<longleftrightarrow> (\<forall>B \<in> set bs. 32 \<le> bytes B \<and> 16 dvd bytes B)"

definition last_used :: "bool \<Rightarrow> ablock list \<Rightarrow> bool" where
  "last_used pv bs = (if bs = [] then pv else used (last bs))"

text \<open>Offsets of the headers and footers, of the free blocks, of their links, and of the payloads.\<close>

fun infos :: "nat \<Rightarrow> ablock list \<Rightarrow> nat set" where
  "infos p [] = {}"
| "infos p (B # bs) = insert p (if used B then {} else {p + bytes B - 8}) \<union> infos (p + bytes B) bs"

fun frees :: "nat \<Rightarrow> ablock list \<Rightarrow> nat list" where
  "frees p [] = []"
| "frees p (B # bs) = (if used B then [] else [p]) @ frees (p + bytes B) bs"

definition links :: "nat \<Rightarrow> ablock list \<Rightarrow> nat set" where
  "links p bs = (\<lambda>c. c + 8) ` set (frees p bs) \<union> (\<lambda>c. c + 16) ` set (frees p bs)"

fun payload :: "nat \<Rightarrow> ablock list \<Rightarrow> nat set" where
  "payload p [] = {}"
| "payload p (B # bs) = (if used B then {p + 8 ..< p + bytes B} else {}) \<union> payload (p + bytes B) bs"

lemma extent_simps [simp]: "extent [] = 0" "extent (B # bs) = bytes B + extent bs"
  "extent (xs @ ys) = extent xs + extent ys"
  by (simp_all add: extent_def)

lemma sized_simps [simp]: "sized []" "sized (B # bs) \<longleftrightarrow> 32 \<le> bytes B \<and> 16 dvd bytes B \<and> sized bs"
  "sized (xs @ ys) \<longleftrightarrow> sized xs \<and> sized ys"
  by (auto simp: sized_def)

lemma last_used_simps [simp]: "last_used pv [] = pv" "last_used pv (bs @ [B]) = used B"
  "last_used pv (xs @ B # ys) = last_used (used B) ys" "last_used pv (B # ys) = last_used (used B) ys"
  by (auto simp: last_used_def)

lemma infos_append [simp]: "infos p (xs @ ys) = infos p xs \<union> infos (p + extent xs) ys"
  by (induction xs arbitrary: p) (auto simp: add.assoc)

lemma frees_append [simp]: "frees p (xs @ ys) = frees p xs @ frees (p + extent xs) ys"
  by (induction xs arbitrary: p) (auto simp: add.assoc)

lemma payload_append [simp]: "payload p (xs @ ys) = payload p xs \<union> payload (p + extent xs) ys"
  by (induction xs arbitrary: p) (auto simp: add.assoc)

text \<open>The geometry: where these offsets lie, and that they do not meet.\<close>

lemma infos_range: "sized bs \<Longrightarrow> x \<in> infos p bs \<Longrightarrow> p \<le> x \<and> x + 8 \<le> p + extent bs"
  by (induction bs arbitrary: p) (fastforce split: if_splits)+

lemma frees_range: "sized bs \<Longrightarrow> c \<in> set (frees p bs) \<Longrightarrow> p \<le> c \<and> c + 32 \<le> p + extent bs"
  by (induction bs arbitrary: p) (fastforce split: if_splits)+

lemma payload_range: "x \<in> payload p bs \<Longrightarrow> p + 8 \<le> x \<and> x < p + extent bs"
  by (induction bs arbitrary: p) (fastforce split: if_splits)+

lemma frees_infos: "c \<in> set (frees p bs) \<Longrightarrow> c \<in> infos p bs"
  by (induction bs arbitrary: p) (auto split: if_splits)

lemma links_infos: "sized bs \<Longrightarrow> c \<in> set (frees p bs) \<Longrightarrow> x \<in> infos p bs \<Longrightarrow> x \<noteq> c + 8 \<and> x \<noteq> c + 16"
proof (induction bs arbitrary: p)
  case (Cons B bs)
  note r = infos_range [of bs x "p + bytes B"] frees_range [of bs c "p + bytes B"]
  show ?case using Cons r by (auto split: if_splits)
qed simp

lemma frees_spaced: "sized bs \<Longrightarrow> c \<in> set (frees p bs) \<Longrightarrow> d \<in> set (frees p bs) \<Longrightarrow> c \<noteq> d \<Longrightarrow> c + 32 \<le> d \<or> d + 32 \<le> c"
proof (induction bs arbitrary: p)
  case (Cons B bs)
  note r = frees_range [of bs c "p + bytes B"] frees_range [of bs d "p + bytes B"]
  show ?case using Cons r by (auto split: if_splits)
qed simp

lemma payload_frees: "sized bs \<Longrightarrow> x \<in> payload p bs \<Longrightarrow> c \<in> set (frees p bs) \<Longrightarrow> x < c \<or> c + 32 \<le> x"
proof (induction bs arbitrary: p)
  case (Cons B bs)
  note r = frees_range [of bs c "p + bytes B"] payload_range [of x "p + bytes B" bs]
  show ?case using Cons r by (auto split: if_splits)
qed simp

lemma linksE: "x \<in> links p bs \<Longrightarrow> (\<And>c. c \<in> set (frees p bs) \<Longrightarrow> x = c + 8 \<or> x = c + 16 \<Longrightarrow> P) \<Longrightarrow> P"
  by (auto simp: links_def)

subsection \<open>Tilings\<close>

definition at :: "u64 \<Rightarrow> nat \<Rightarrow> u64" where
  "at a p = a + of_nat p"

lemma at_zero [simp]: "at a 0 = a"
  by (simp add: at_def)

lemma at_at [simp]: "at (at a p) q = at a (p + q)"
  by (simp add: at_def)

lemma at_inj: "p < 2 ^ 63 \<Longrightarrow> q < 2 ^ 63 \<Longrightarrow> at a p = at a q \<longleftrightarrow> p = q"
  by (simp add: at_def word_of_nat_eq_iff take_bit_nat_eq_self)

lemma at_add: "at a p + numeral k = at a (p + numeral k)"
  by (simp add: at_def)

lemma at_diff: "numeral k \<le> p \<Longrightarrow> at a p - numeral k = at a (p - numeral k)"
  by (simp add: at_def of_nat_diff)

definition block_at :: "heap \<Rightarrow> u64 \<Rightarrow> nat \<Rightarrow> bool \<Rightarrow> ablock \<Rightarrow> bool" where
  "block_at h a p pv B \<longleftrightarrow> (\<exists>w. ld h (at a p) = Some w \<and> prev_allocated w = of_bool pv \<and> unat (bs_int w) = bytes B \<and>
     (case B of Used n r \<Rightarrow> allocated w = 1 \<and> unat (requested_size w) = r \<and> r + 8 \<le> n
      | Free n \<Rightarrow> allocated w = 0 \<and>
          (\<exists>f. ld h (at a (p + n - 8)) = Some f \<and> allocated f = 0 \<and> unat (bs_int f) = n)))"

fun tiled :: "heap \<Rightarrow> u64 \<Rightarrow> nat \<Rightarrow> bool \<Rightarrow> ablock list \<Rightarrow> bool" where
  "tiled h a p pv [] \<longleftrightarrow> True"
| "tiled h a p pv (B # bs) \<longleftrightarrow> block_at h a p pv B \<and> tiled h a (p + bytes B) (used B) bs"

text \<open>Behind the blocks there is the epilogue.\<close>

definition closed :: "heap \<Rightarrow> u64 \<Rightarrow> nat \<Rightarrow> bool \<Rightarrow> ablock list \<Rightarrow> bool" where
  "closed h a p pv bs \<longleftrightarrow> tiled h a p pv bs \<and>
     (\<exists>w. ld h (at a (p + extent bs)) = Some w \<and> allocated w = 1 \<and> prev_allocated w = of_bool (last_used pv bs))"

lemma tiled_append: "tiled h a p pv (xs @ ys) \<longleftrightarrow> tiled h a p pv xs \<and> tiled h a (p + extent xs) (last_used pv xs) ys"
  by (induction xs arbitrary: p pv) (auto simp: add.assoc last_used_def)

lemma last_used_append: "last_used pv (xs @ ys) = last_used (last_used pv xs) ys"
  by (simp add: last_used_def)

lemma closed_append: "closed h a p pv (xs @ ys) \<longleftrightarrow> tiled h a p pv xs \<and> closed h a (p + extent xs) (last_used pv xs) ys"
  by (auto simp: closed_def tiled_append last_used_append add.assoc)

lemma closed_Cons: "closed h a p pv (B # bs) \<longleftrightarrow> block_at h a p pv B \<and> closed h a (p + bytes B) (used B) bs"
  by (auto simp: closed_def add.assoc)

lemma block_at_cong:
  "ld h' (at a p) = ld h (at a p) \<Longrightarrow> \<not> used B \<Longrightarrow> ld h' (at a (p + bytes B - 8)) = ld h (at a (p + bytes B - 8)) \<Longrightarrow>
   block_at h' a p pv B = block_at h a p pv B"
  "ld h' (at a p) = ld h (at a p) \<Longrightarrow> used B \<Longrightarrow> block_at h' a p pv B = block_at h a p pv B"
  by (cases B; simp add: block_at_def)+

lemma tiled_cong:
  "(\<And>x. x \<in> infos p bs \<Longrightarrow> ld h' (at a x) = ld h (at a x)) \<Longrightarrow> tiled h' a p pv bs = tiled h a p pv bs"
proof (induction bs arbitrary: p pv)
  case (Cons B bs)
  have "ld h' (at a p) = ld h (at a p)" by (rule Cons.prems) simp
  moreover have "ld h' (at a (p + bytes B - 8)) = ld h (at a (p + bytes B - 8))" if "\<not> used B"
    by (rule Cons.prems) (simp add: that)
  ultimately have "block_at h' a p pv B = block_at h a p pv B" by (metis block_at_cong)
  moreover have "tiled h' a (p + bytes B) (used B) bs = tiled h a (p + bytes B) (used B) bs"
    using Cons.prems by (intro Cons.IH) simp
  ultimately show ?case by simp
qed simp

lemma closed_cong:
  "(\<And>x. x \<in> insert (p + extent bs) (infos p bs) \<Longrightarrow> ld h' (at a x) = ld h (at a x)) \<Longrightarrow>
   closed h' a p pv bs = closed h a p pv bs"
  using tiled_cong [of p bs h' a h pv] by (auto simp: closed_def)

text \<open>The row at the start of a closed tiling: the next header, or the epilogue.\<close>

lemma closed_head:
  "closed h a p pv bs \<Longrightarrow> \<exists>w. ld h (at a p) = Some w \<and> prev_allocated w = of_bool pv \<and>
     allocated w = of_bool (bs = [] \<or> used (hd bs)) \<and> (bs \<noteq> [] \<longrightarrow> unat (bs_int w) = bytes (hd bs))"
proof (cases bs)
  case (Cons B cs)
  assume "closed h a p pv bs"
  then have "block_at h a p pv B" using Cons by (simp add: closed_Cons)
  then show ?thesis using Cons by (cases B) (auto simp: block_at_def)
qed (auto simp: closed_def)

lemma closed_prev:
  assumes "closed h a p pv bs" "sized bs"
    and "ld h (at a p) = Some w" "ld h' (at a p) = Some (set_prev_allocated (of_bool v) w)"
    and "\<And>x. x \<in> insert (p + extent bs) (infos p bs) - {p} \<Longrightarrow> ld h' (at a x) = ld h (at a x)"
  shows "closed h' a p v bs"
proof (cases bs)
  case Nil
  then show ?thesis using assms by (auto simp: closed_def)
next
  case (Cons B cs)
  have "x \<noteq> p" if "x \<in> insert (p + bytes B + extent cs) (infos (p + bytes B) cs)" for x
    using that infos_range [of cs x "p + bytes B"] assms(2) Cons by auto
  then have "closed h' a (p + bytes B) (used B) cs = closed h a (p + bytes B) (used B) cs"
    using assms(5) Cons by (intro closed_cong) (auto simp: add.assoc)
  moreover have "ld h' (at a (p + bytes B - 8)) = ld h (at a (p + bytes B - 8))" if "\<not> used B"
    using assms(2) Cons that by (intro assms(5)) auto
  then have "block_at h' a p v B"
    using assms(1,3,4) Cons by (cases B) (auto simp: closed_Cons block_at_def)
  ultimately show ?thesis using assms(1) Cons by (simp add: closed_Cons)
qed


subsection \<open>The invariant of the heap\<close>

type_synonym node_list = "(u64 \<times> u64 \<times> u64 list) list"

definition heads :: "node_list \<Rightarrow> (u64 \<times> u64 list) list" where
  "heads N = map (\<lambda>(n, s, xs). (node_head n, xs)) N"

fun nseg :: "heap \<Rightarrow> u64 \<Rightarrow> u64 list \<Rightarrow> u64 \<Rightarrow> bool" where
  "nseg h p [] q \<longleftrightarrow> ld h (node_next p) = Some q \<and> ld h (node_prev q) = Some p"
| "nseg h p (x # xs) q \<longleftrightarrow> ld h (node_next p) = Some x \<and> ld h (node_prev x) = Some p \<and> nseg h x xs q"

definition node_rows :: "u64 \<Rightarrow> u64 set" where
  "node_rows n = {n, n + 8, n + 16, n + 24, n + 32, n + 40}"

definition base :: "heap \<Rightarrow> u64" where
  "base h = mem_start h + 40"

definition heap_rows :: "heap \<Rightarrow> u64 set" where
  "heap_rows h = at (base h) ` {..< unat (mem_end h - base h)}"

text \<open>The blocks \<open>bs\<close> fill the heap between the prologue and the epilogue.\<close>

definition tiling :: "heap \<Rightarrow> ablock list \<Rightarrow> bool" where
  "tiling h bs \<longleftrightarrow> mem_end h = at (base h) (extent bs + 8) \<and> unat (mem_start h) + 48 + extent bs < 2 ^ 64 \<and>
     extent bs < 2 ^ 31 \<and> sized bs \<and> closed h (base h) 0 True bs \<and>
     (\<forall>x < extent bs. 8 dvd x \<longrightarrow> ld h (at (base h) x) \<noteq> None)"

text \<open>The list of free lists: nodes in a doubly linked ring in increasing order of size, apart from
  one another and from the heap. The dummy node has size 0.\<close>

definition nodes_ok :: "heap \<Rightarrow> node_list \<Rightarrow> bool" where
  "nodes_ok h N \<longleftrightarrow> (\<forall>(n, s, xs) \<in> set N. ld h (node_size n) = Some s) \<and> sorted_wrt (<) (map (fst \<circ> snd) N) \<and>
     nseg h (free_list_head h) (map fst N) (free_list_head h) \<and> distinct (free_list_head h # map fst N) \<and>
     ld h (node_size (free_list_head h)) = Some 0 \<and>
     (\<forall>n \<in> set (free_list_head h # map fst N). node_rows n \<inter> heap_rows h = {} \<and> node_rows n \<subseteq> dom (mem h)) \<and>
     (\<forall>n \<in> set (free_list_head h # map fst N). \<forall>m \<in> set (free_list_head h # map fst N).
        n \<noteq> m \<longrightarrow> node_rows n \<inter> node_rows m = {})"

text \<open>Each node has a well linked list of blocks of its size.\<close>

definition lists_ok :: "heap \<Rightarrow> node_list \<Rightarrow> bool" where
  "lists_ok h N \<longleftrightarrow> nodes_ok h N \<and> flists h (heads N) \<and>
     (\<forall>(n, s, xs) \<in> set N. \<forall>b \<in> set xs. \<exists>w. ld h b = Some w \<and> bsz w = s)"

definition listed :: "heap \<Rightarrow> node_list \<Rightarrow> nat set \<Rightarrow> bool" where
  "listed h N C \<longleftrightarrow> set (blocks (heads N)) = at (base h) ` C"

text \<open>Free blocks are joined at once: no two of them are neighbours.\<close>

definition compact :: "ablock list \<Rightarrow> bool" where
  "compact bs \<longleftrightarrow> successively (\<lambda>x y. used x \<or> used y) bs"

definition heap_ok :: "heap \<Rightarrow> ablock list \<Rightarrow> node_list \<Rightarrow> bool" where
  "heap_ok h bs N \<longleftrightarrow> tiling h bs \<and> lists_ok h N \<and> listed h N (set (frees 0 bs)) \<and> compact bs"

lemma nodes_okD:
  assumes "nodes_ok h N"
  shows "(k, s, ys) \<in> set N \<Longrightarrow> ld h (node_size k) = Some s"
    "sorted_wrt (<) (map (fst \<circ> snd) N)" "nseg h (free_list_head h) (map fst N) (free_list_head h)"
    "distinct (free_list_head h # map fst N)" "ld h (node_size (free_list_head h)) = Some 0"
    "n \<in> set (free_list_head h # map fst N) \<Longrightarrow> node_rows n \<inter> heap_rows h = {}"
    "n \<in> set (free_list_head h # map fst N) \<Longrightarrow> node_rows n \<subseteq> dom (mem h)"
    "n \<in> set (free_list_head h # map fst N) \<Longrightarrow> m \<in> set (free_list_head h # map fst N) \<Longrightarrow> n \<noteq> m \<Longrightarrow>
       node_rows n \<inter> node_rows m = {}"
  using assms unfolding nodes_ok_def by blast+

lemma nodes_okI:
  assumes "\<And>k s ys. (k, s, ys) \<in> set N \<Longrightarrow> ld h (node_size k) = Some s"
    "sorted_wrt (<) (map (fst \<circ> snd) N)" "nseg h (free_list_head h) (map fst N) (free_list_head h)"
    "distinct (free_list_head h # map fst N)" "ld h (node_size (free_list_head h)) = Some 0"
    "\<And>n. n \<in> set (free_list_head h # map fst N) \<Longrightarrow> node_rows n \<inter> heap_rows h = {}"
    "\<And>n. n \<in> set (free_list_head h # map fst N) \<Longrightarrow> node_rows n \<subseteq> dom (mem h)"
    "\<And>n m. n \<in> set (free_list_head h # map fst N) \<Longrightarrow> m \<in> set (free_list_head h # map fst N) \<Longrightarrow> n \<noteq> m \<Longrightarrow>
       node_rows n \<inter> node_rows m = {}"
  shows "nodes_ok h N"
proof -
  have "\<forall>(n, s, xs) \<in> set N. ld h (node_size n) = Some s"
    by clarify (rule assms(1))
  moreover have "\<forall>n \<in> set (free_list_head h # map fst N). node_rows n \<inter> heap_rows h = {} \<and> node_rows n \<subseteq> dom (mem h)"
    by (intro ballI conjI assms(6,7))
  moreover have "\<forall>n \<in> set (free_list_head h # map fst N). \<forall>m \<in> set (free_list_head h # map fst N).
      n \<noteq> m \<longrightarrow> node_rows n \<inter> node_rows m = {}"
    by (intro ballI impI assms(8))
  ultimately show ?thesis using assms(2-5) unfolding nodes_ok_def by (intro conjI)
qed

lemma lists_okD:
  assumes "lists_ok h N"
  shows "flists h (heads N)" "nodes_ok h N"
    "(k, s, ys) \<in> set N \<Longrightarrow> b \<in> set ys \<Longrightarrow> \<exists>w. ld h b = Some w \<and> bsz w = s"
  using assms unfolding lists_ok_def by blast+

lemma lists_okI:
  assumes "flists h (heads N)" "nodes_ok h N"
    "\<And>k s ys b. (k, s, ys) \<in> set N \<Longrightarrow> b \<in> set ys \<Longrightarrow> \<exists>w. ld h b = Some w \<and> bsz w = s"
  shows "lists_ok h N"
proof -
  have "\<forall>(n, s, xs) \<in> set N. \<forall>b \<in> set xs. \<exists>w. ld h b = Some w \<and> bsz w = s"
    by clarify (rule assms(3))
  then show ?thesis using assms(1,2) unfolding lists_ok_def by (intro conjI)
qed

lemma base_mem [simp]: "base (h\<lparr>mem := m\<rparr>) = base h"
  by (simp add: base_def)

lemma heap_rows_mem [simp]: "heap_rows (h\<lparr>mem := m\<rparr>) = heap_rows h"
  by (simp add: heap_rows_def)

lemma listed_mem [simp]: "listed (h\<lparr>mem := m\<rparr>) N C = listed h N C"
  by (simp add: listed_def)

lemma heads_simps [simp]: "heads [] = []" "heads ((n, s, xs) # N) = (node_head n, xs) # heads N"
  "heads (N @ N') = heads N @ heads N'"
  by (simp_all add: heads_def)

lemma tiling_rows: "tiling h bs \<Longrightarrow> heap_rows h = at (base h) ` {..< extent bs + 8}"
proof -
  assume "tiling h bs"
  then have e: "mem_end h - base h = of_nat (extent bs + 8)" and l: "extent bs + 8 < 2 ^ 64" by (simp_all add: tiling_def at_def)
  have "unat (mem_end h - base h) = (extent bs + 8) mod 2 ^ 64" unfolding e by (simp only: unat_of_nat) simp
  also have "\<dots> = extent bs + 8" using l by (rule mod_less)
  finally have "unat (mem_end h - base h) = extent bs + 8" .
  then show ?thesis by (simp add: heap_rows_def)
qed

text \<open>Rows of the heap that carry links are those of listed blocks.\<close>

lemma nodes_heads: "x \<in> set (nodes (heads N)) \<longleftrightarrow> x \<in> set (blocks (heads N)) \<or> (\<exists>n \<in> fst ` set N. x = node_head n)"
  by (induction N) (auto simp: image_iff)

lemma head_rows: "link_next (node_head n) \<in> node_rows n" "link_prev (node_head n) \<in> node_rows n"
  "node_size n \<in> node_rows n" "node_next n \<in> node_rows n" "node_prev n \<in> node_rows n"
  by (simp_all add: node_rows_def link_next_def link_prev_def node_head_def node_size_def node_next_def node_prev_def)

lemma link_at: "link_next (at a p) = at a (p + 8)" "link_prev (at a p) = at a (p + 16)"
  by (simp_all add: link_next_def link_prev_def at_add)

lemma link_row_off:
  assumes "tiling h bs" "lists_ok h N" "listed h N C" "C \<subseteq> set (frees 0 bs)" "x < extent bs + 8"
    and "at (base h) x \<in> link_rows (heads N)"
  shows "\<exists>c \<in> C. x = c + 8 \<or> x = c + 16"
proof -
  obtain y where y: "y \<in> set (nodes (heads N))" "at (base h) x = link_next y \<or> at (base h) x = link_prev y"
    using assms(6) by (auto simp: link_rows_def)
  have hr: "at (base h) x \<in> heap_rows h" using assms(5) by (simp add: tiling_rows [OF assms(1)])
  have "y \<noteq> node_head n" if "n \<in> fst ` set N" for n
  proof -
    have "node_rows n \<inter> heap_rows h = {}" using nodes_okD(6) [OF lists_okD(2) [OF assms(2)]] that by simp
    then show ?thesis using hr head_rows [of n] y(2) by auto
  qed
  then have "y \<in> set (blocks (heads N))" using y(1) nodes_heads [of y N] by auto
  then obtain c where c: "c \<in> C" "y = at (base h) c" using assms(3) by (auto simp: listed_def)
  have "c + 32 \<le> extent bs" using frees_range [of bs c 0] c(1) assms(1,4) by (auto simp: tiling_def)
  moreover have "extent bs < 2 ^ 31" using assms(1) by (simp add: tiling_def)
  ultimately have "x = c + 8 \<or> x = c + 16" using y(2) c(2) assms(5) by (auto simp: link_at at_inj)
  then show ?thesis using c(1) by blast
qed

lemma info_not_link:
  assumes "tiling h bs" "lists_ok h N" "listed h N (set (frees 0 bs))" "x \<in> insert (extent bs) (infos 0 bs)"
  shows "at (base h) x \<notin> link_rows (heads N)"
proof
  assume a: "at (base h) x \<in> link_rows (heads N)"
  have s: "sized bs" using assms(1) by (simp add: tiling_def)
  have "x < extent bs + 8" using assms(4) infos_range [OF s, of x 0] by auto
  from link_row_off [OF assms(1-3) order.refl this a] obtain c where "c \<in> set (frees 0 bs)" "x = c + 8 \<or> x = c + 16" by blast
  then show False using links_infos [OF s, of c 0 x] frees_range [OF s, of c 0] assms(4) by auto
qed

lemma node_row_not_link:
  assumes "tiling h bs" "lists_ok h N" "listed h N C" "C \<subseteq> set (frees 0 bs)" "n \<in> set (free_list_head h # map fst N)"
    and "r \<in> {node_size n, node_next n, node_prev n}"
  shows "r \<notin> link_rows (heads N)" "r \<notin> heap_rows h"
proof -
  have sep: "node_rows n \<inter> heap_rows h = {}"
      "m \<in> set (free_list_head h # map fst N) \<Longrightarrow> n \<noteq> m \<Longrightarrow> node_rows n \<inter> node_rows m = {}" for m
    using nodes_okD(6,8) [OF lists_okD(2) [OF assms(2)]] assms(5) by blast+
  have rn: "r \<in> node_rows n" using assms(6) head_rows [of n] by auto
  then show "r \<notin> heap_rows h" using sep(1) by blast
  show "r \<notin> link_rows (heads N)"
  proof
    assume "r \<in> link_rows (heads N)"
    then obtain y where y: "y \<in> set (nodes (heads N))" "r = link_next y \<or> r = link_prev y" by (auto simp: link_rows_def)
    show False
    proof (cases "y \<in> set (blocks (heads N))")
      case True
      then obtain c where c: "c \<in> C" "y = at (base h) c" using assms(3) by (auto simp: listed_def)
      have "c + 32 \<le> extent bs" using frees_range [of bs c 0] c(1) assms(1,4) by (auto simp: tiling_def)
      then have "r \<in> heap_rows h" using y(2) c(2) by (auto simp: tiling_rows [OF assms(1)] link_at)
      then show False using rn sep(1) by blast
    next
      case False
      then obtain m where m: "m \<in> fst ` set N" "y = node_head m" using y(1) nodes_heads [of y N] by auto
      have "r \<in> node_rows m" using y(2) m(2) head_rows [of m] by auto
      moreover have "m \<in> set (free_list_head h # map fst N)" using m(1) by simp
      ultimately have "n = m" using rn sep(2) by blast
      then show False using assms(6) y(2) m(2)
        by (auto simp: link_next_def link_prev_def node_head_def node_size_def node_next_def node_prev_def)
    qed
  qed
qed


subsection \<open>Coalescing\<close>

text \<open>The lists of \<open>N'\<close> are those of \<open>N\<close> without some of the blocks.\<close>

definition sublists :: "node_list \<Rightarrow> node_list \<Rightarrow> bool" where
  "sublists N' N \<longleftrightarrow> list_all2 (\<lambda>(n', s', xs') (n, s, xs). n' = n \<and> s' = s \<and> set xs' \<subseteq> set xs) N' N"

definition drop_listed :: "u64 \<Rightarrow> node_list \<Rightarrow> node_list" where
  "drop_listed b N = map (\<lambda>(n, s, xs). (n, s, remove1 b xs)) N"

lemma sublists_refl: "sublists N N"
  by (simp add: sublists_def list_all2_refl split_beta)

lemma sublists_trans: "sublists A B \<Longrightarrow> sublists B C \<Longrightarrow> sublists A C"
  unfolding sublists_def by (rule list_all2_trans) auto

lemma sublists_drop: "sublists (drop_listed b N) N"
  by (auto simp: sublists_def drop_listed_def list_all2_conv_all_nth split_beta dest: set_remove1_subset [THEN subsetD])

lemma heads_drop: "heads (drop_listed b N) = drop_block b (heads N)"
  by (simp add: heads_def drop_listed_def drop_block_def split_beta)

lemma sublists_keys: "sublists N' N \<Longrightarrow> map fst N' = map fst N \<and> map (fst \<circ> snd) N' = map (fst \<circ> snd) N"
  unfolding sublists_def by (induction rule: list_all2_induct) auto

lemma sublists_member: "sublists N' N \<Longrightarrow> (n, s, xs') \<in> set N' \<Longrightarrow> \<exists>xs. (n, s, xs) \<in> set N \<and> set xs' \<subseteq> set xs"
  unfolding sublists_def by (induction rule: list_all2_induct) fastforce+

lemma blocks_dropped: "distinct (nodes Ls) \<Longrightarrow> set (blocks (drop_block b Ls)) = set (blocks Ls) - {b}"
proof (induction Ls)
  case (Cons l Ls)
  then show ?case by (cases l) (auto simp: drop_block_def dest: blocks_nodes)
qed (simp add: drop_block_def)

text \<open>The lists survive a change that leaves the rows of the nodes and the sizes of the listed blocks alone.\<close>

lemma nseg_cong:
  "(\<And>n. n \<in> set (p # xs) \<Longrightarrow> ld h' (node_next n) = ld h (node_next n)) \<Longrightarrow>
   (\<And>n. n \<in> set (xs @ [q]) \<Longrightarrow> ld h' (node_prev n) = ld h (node_prev n)) \<Longrightarrow> nseg h' p xs q = nseg h p xs q"
  by (induction xs arbitrary: p) simp_all

lemma nodes_ok_cong:
  assumes "nodes_ok h N" "map fst N' = map fst N" "map (fst \<circ> snd) N' = map (fst \<circ> snd) N"
    and r: "\<And>n r. n \<in> set (free_list_head h # map fst N) \<Longrightarrow> r \<in> {node_size n, node_next n, node_prev n} \<Longrightarrow>
      ld (h\<lparr>mem := m\<rparr>) r = ld h r"
    and d: "dom (mem h) \<subseteq> dom m"
  shows "nodes_ok (h\<lparr>mem := m\<rparr>) N'"
proof (rule nodes_okI; (unfold assms(2,3))?)
  note D = nodes_okD [OF assms(1)]
  fix k s ys assume a: "(k, s, ys) \<in> set N'"
  have "map (\<lambda>x. (fst x, fst (snd x))) N' = zip (map fst N') (map (fst \<circ> snd) N')"
    by (simp add: zip_map_map zip_same_conv_map)
  also have "\<dots> = map (\<lambda>x. (fst x, fst (snd x))) N" unfolding assms(2,3)
    by (simp add: zip_map_map zip_same_conv_map)
  finally have e: "map (\<lambda>x. (fst x, fst (snd x))) N' = map (\<lambda>x. (fst x, fst (snd x))) N" .
  have "(k, s) \<in> set (map (\<lambda>x. (fst x, fst (snd x))) N')" using imageI [OF a, of "\<lambda>x. (fst x, fst (snd x))"] by simp
  then have "(k, s) \<in> set (map (\<lambda>x. (fst x, fst (snd x))) N)" unfolding e .
  then obtain zs where zs: "(k, s, zs) \<in> set N" by auto
  then have "k \<in> set (free_list_head h # map fst N)" by (force intro: rev_image_eqI)
  then have "ld (h\<lparr>mem := m\<rparr>) (node_size k) = ld h (node_size k)" by (rule r) simp
  then show "ld (h\<lparr>mem := m\<rparr>) (node_size k) = Some s" using D(1) [OF zs] by simp
next
  note D = nodes_okD [OF assms(1)]
  show "nseg (h\<lparr>mem := m\<rparr>) (free_list_head (h\<lparr>mem := m\<rparr>)) (map fst N) (free_list_head (h\<lparr>mem := m\<rparr>))"
    using D(3) nseg_cong [of "free_list_head h" "map fst N" "h\<lparr>mem := m\<rparr>" h "free_list_head h"] r by simp
  fix n assume "n \<in> set (free_list_head (h\<lparr>mem := m\<rparr>) # map fst N)"
  then show "node_rows n \<subseteq> dom (mem (h\<lparr>mem := m\<rparr>))" using D(7) [of n] d by simp
qed (use nodes_okD [OF assms(1)] r [of "free_list_head h" "node_size (free_list_head h)"] in simp_all)

lemma lists_ok_cong:
  assumes "lists_ok h N" "sublists N' N" "flists (h\<lparr>mem := m\<rparr>) (heads N')"
    and r: "\<And>n r. n \<in> set (free_list_head h # map fst N) \<Longrightarrow> r \<in> {node_size n, node_next n, node_prev n} \<Longrightarrow>
      ld (h\<lparr>mem := m\<rparr>) r = ld h r"
    and "\<And>b. b \<in> set (blocks (heads N')) \<Longrightarrow> ld (h\<lparr>mem := m\<rparr>) b = ld h b" and "dom m = dom (mem h)"
  shows "lists_ok (h\<lparr>mem := m\<rparr>) N'"
proof (rule lists_okI)
  show "flists (h\<lparr>mem := m\<rparr>) (heads N')" by (rule assms(3))
  show "nodes_ok (h\<lparr>mem := m\<rparr>) N'"
    using sublists_keys [OF assms(2)] assms(6) by (intro nodes_ok_cong [OF lists_okD(2) [OF assms(1)] _ _ r]) auto
  fix n s xs' b assume i: "(n, s, xs') \<in> set N'" "b \<in> set xs'"
  obtain xs where xs: "(n, s, xs) \<in> set N" "set xs' \<subseteq> set xs" using sublists_member [OF assms(2) i(1)] by blast
  have "b \<in> set (blocks (heads N'))" using i by (force simp: blocks_def heads_def)
  then show "\<exists>w. ld (h\<lparr>mem := m\<rparr>) b = Some w \<and> bsz w = s"
    using assms(5) lists_okD(3) [OF assms(1) xs(1)] xs(2) i(2) by auto
qed

lemma bs_int_tot: "unat (bs_int w) = n \<Longrightarrow> n < 2 ^ 31 \<Longrightarrow> bsz w = of_nat n"
  by (simp add: bsz_def scast_unat)

text \<open>The blocks \<open>M\<close> become one free block, and leave their lists.\<close>

lemma coalesced_tiling:
  assumes t: "tiling h (ls @ M @ rs)" and M: "M \<noteq> []" and rs: "rs = [] \<or> used (hd rs)"
    and fb: "free_block (h\<lparr>mem := m\<rparr>) (at (base h) (extent ls)) tot (of_bool (last_used True ls))" "unat tot = extent M"
    and e: "ld h (at (base h) (extent ls + extent M)) = Some w"
      "ld (h\<lparr>mem := m\<rparr>) (at (base h) (extent ls + extent M)) = Some (set_prev_allocated 0 w)"
    and fr: "\<And>x. x \<in> insert (extent (ls @ M @ rs)) (infos 0 (ls @ M @ rs)) \<Longrightarrow> x < extent ls \<or> extent ls + extent M < x \<Longrightarrow>
      ld (h\<lparr>mem := m\<rparr>) (at (base h) x) = ld h (at (base h) x)"
    and dom: "dom m = dom (mem h)"
  shows "tiling (h\<lparr>mem := m\<rparr>) (ls @ Free (extent M) # rs)"
proof -
  let ?h = "h\<lparr>mem := m\<rparr>" and ?a = "base h" and ?p = "extent ls" and ?e = "extent ls + extent M"
  have s: "sized ls" "sized M" "sized rs" "extent M < 2 ^ 31" using t by (simp_all add: tiling_def)
  have em: "32 \<le> extent M" "16 dvd extent M"
  proof -
    show "32 \<le> extent M" using s(2) M by (cases M) auto
    show "16 dvd extent M" using s(2) by (induction M) auto
  qed
  have c: "tiled h ?a 0 True ls" "closed h ?a ?e (last_used (last_used True ls) M) rs"
    using t by (simp_all add: tiling_def closed_append add.assoc)
  have "tiled ?h ?a 0 True ls = tiled h ?a 0 True ls"
    using infos_range [OF s(1)] by (intro tiled_cong fr) fastforce+
  moreover have "closed ?h ?a ?e False rs"
  proof (rule closed_prev [OF c(2) s(3) e(1)])
    show "ld ?h (at ?a ?e) = Some (set_prev_allocated (of_bool False) w)" using e(2) by simp
  next
    fix x assume x: "x \<in> insert (?e + extent rs) (infos ?e rs) - {?e}"
    then have "?e < x" using infos_range [OF s(3), of x ?e] by (cases "x = ?e") auto
    then show "ld ?h (at ?a x) = ld h (at ?a x)" using x by (intro fr) (auto simp: add.assoc)
  qed
  moreover have "block_at ?h ?a ?p (last_used True ls) (Free (extent M))"
  proof -
    have "(scast tot :: u64) = of_nat (extent M)" using fb(2) s(4) by (simp add: scast_unat)
    then have "at ?a ?p + scast tot - 8 = at ?a (?p + extent M - 8)"
      using em(1) by (simp add: at_def of_nat_diff)
    then show ?thesis using fb by (auto simp: block_at_def free_block_def)
  qed
  ultimately have "closed ?h ?a 0 True (ls @ Free (extent M) # rs)"
    using c(1) by (simp add: closed_append closed_Cons)
  moreover have "ld ?h r \<noteq> None \<longleftrightarrow> ld h r \<noteq> None" for r using dom by (auto simp: ld_def)
  ultimately show ?thesis using t em by (simp add: tiling_def add.assoc)
qed

lemma coalesced:
  assumes t: "tiling h (ls @ M @ rs)" and l: "lists_ok h N" "listed h N (set (frees 0 (ls @ M @ rs)))"
    and M: "M \<noteq> []" and rs: "rs = [] \<or> used (hd rs)"
    and fl: "flists (h\<lparr>mem := m\<rparr>) (heads N')" "sublists N' N"
      "set (blocks (heads N')) = set (blocks (heads N)) - at (base h) ` set (frees (extent ls) M)"
    and fb: "free_block (h\<lparr>mem := m\<rparr>) (at (base h) (extent ls)) tot (of_bool (last_used True ls))" "unat tot = extent M"
    and e: "ld h (at (base h) (extent ls + extent M)) = Some w"
      "ld (h\<lparr>mem := m\<rparr>) (at (base h) (extent ls + extent M)) = Some (set_prev_allocated 0 w)"
    and fr: "\<And>r. r \<notin> link_rows (heads N) \<union> at (base h) ` {extent ls .. extent ls + extent M} \<Longrightarrow> ld (h\<lparr>mem := m\<rparr>) r = ld h r"
    and dom: "dom m = dom (mem h)"
  shows "tiling (h\<lparr>mem := m\<rparr>) (ls @ Free (extent M) # rs) \<and> lists_ok (h\<lparr>mem := m\<rparr>) N' \<and>
    listed h N' (set (frees 0 ls) \<union> set (frees (extent ls + extent M) rs)) \<and>
    (\<forall>x \<in> payload 0 ls \<union> payload (extent ls + extent M) rs. ld (h\<lparr>mem := m\<rparr>) (at (base h) x) = ld h (at (base h) x))"
proof -
  let ?h = "h\<lparr>mem := m\<rparr>" and ?a = "base h" and ?p = "extent ls" and ?e = "extent ls + extent M" and ?bs = "ls @ M @ rs"
  have s: "sized ls" "sized M" "sized rs" "extent ?bs < 2 ^ 31" "sized ?bs" using t by (simp_all add: tiling_def)
  have out: "at ?a x \<notin> at ?a ` {?p .. ?e}" if "x < ?p \<or> ?e < x" "x < extent ?bs + 8" for x
    using that s(4) by (auto simp: at_inj)
  have fi: "ld ?h (at ?a x) = ld h (at ?a x)"
    if "x \<in> insert (extent ?bs) (infos 0 ?bs)" "x < ?p \<or> ?e < x" for x
  proof -
    have "x < extent ?bs + 8" using infos_range [OF s(5), of x 0] that(1) by auto
    then show ?thesis using info_not_link [OF t l that(1)] out [OF that(2)] by (intro fr) simp
  qed
  have T: "tiling ?h (ls @ Free (extent M) # rs)"
    by (rule coalesced_tiling [OF t M rs fb e fi dom])
  have fd: "set (frees 0 ?bs) - set (frees ?p M) = set (frees 0 ls) \<union> set (frees ?e rs)"
    using frees_range [OF s(1), of _ 0] frees_range [OF s(2), of _ ?p] frees_range [OF s(3), of _ ?e]
    by (fastforce simp: add.assoc)
  have inj: "inj_on (at ?a) (set (frees 0 ?bs))"
  proof (rule inj_onI)
    fix x y assume "x \<in> set (frees 0 ?bs)" "y \<in> set (frees 0 ?bs)" "at ?a x = at ?a y"
    moreover from this have "x < 2 ^ 63" "y < 2 ^ 63"
      using frees_range [OF s(5), of x 0] frees_range [OF s(5), of y 0] s(4) by auto
    ultimately show "x = y" by (simp add: at_inj)
  qed
  have L: "set (blocks (heads N')) = at ?a ` (set (frees 0 ls) \<union> set (frees ?e rs))"
  proof -
    have "set (frees ?p M) \<subseteq> set (frees 0 ?bs)" by auto
    from inj_on_image_set_diff [OF inj Diff_subset this] have
      "at ?a ` (set (frees 0 ls) \<union> set (frees ?e rs)) = at ?a ` set (frees 0 ?bs) - at ?a ` set (frees ?p M)"
      unfolding fd by blast
    then show ?thesis using fl(3) l(2) by (simp only: listed_def)
  qed
  have "lists_ok ?h N'"
  proof (rule lists_ok_cong [OF l(1) fl(2,1)])
    fix n r assume "n \<in> set (free_list_head h # map fst N)" "r \<in> {node_size n, node_next n, node_prev n}"
    note nr = node_row_not_link [OF t l order.refl this]
    have "at ?a ` {?p .. ?e} \<subseteq> heap_rows h" unfolding tiling_rows [OF t] by auto
    then show "ld ?h r = ld h r" using nr by (intro fr) blast
  next
    fix b assume "b \<in> set (blocks (heads N'))"
    then obtain c where c: "b = at ?a c" "c \<in> set (frees 0 ls) \<union> set (frees ?e rs)" using L by auto
    then have "c \<in> infos 0 ?bs" using frees_infos [of c 0 ls] frees_infos [of c ?e rs] by (auto simp: add.assoc)
    moreover have "c < ?p \<or> ?e < c" if "c \<noteq> ?e"
      using c(2) that frees_range [OF s(1), of c 0] frees_range [OF s(3), of c ?e] by auto
    moreover have "c \<noteq> ?e"
    proof
      assume "c = ?e"
      then have "c \<in> set (frees ?e rs)" using c(2) frees_range [OF s(1), of c 0] by auto
      then show False using rs frees_range [of "tl rs" ?e "?e + bytes (hd rs)"] s(3) \<open>c = ?e\<close>
        by (cases rs) auto
    qed
    ultimately show "ld ?h b = ld h b" using fi c(1) by simp
  qed (rule dom)
  moreover have "ld ?h (at ?a x) = ld h (at ?a x)" if "x \<in> payload 0 ls \<union> payload ?e rs" for x
  proof -
    have x: "x < ?p \<or> ?e < x" "x < extent ?bs + 8"
      using that payload_range [of x 0 ls] payload_range [of x ?e rs] by auto
    have "x \<in> payload 0 ?bs" using that by (auto simp: add.assoc)
    then have "at ?a x \<notin> link_rows (heads N)"
      using link_row_off [OF t l order.refl x(2)] payload_frees [OF s(5), of x 0] by fastforce
    then show ?thesis using out [OF x] by (intro fr) simp
  qed
  ultimately show ?thesis using T L by (simp add: listed_def)
qed

text \<open>\<open>sto\<close> never maps a new row.\<close>

lemma dom_sto: "sto h a v = Some h' \<Longrightarrow> dom (mem h') = dom (mem h)"
  by (auto simp: sto_Some ld_def)

lemma dom_upd: "upd h a f = Some h' \<Longrightarrow> dom (mem h') = dom (mem h)"
  by (auto simp: upd_def bind_eq_Some_conv dest: dom_sto del: equalityI)

lemma dom_unlink: "unlink_block h b = Some h' \<Longrightarrow> dom (mem h') = dom (mem h)"
  unfolding unlink_block_def by (auto simp: bind_eq_Some_conv dest!: dom_sto del: equalityI)

lemma dom_coalesce: "coalesce h pp = Some (b, h') \<Longrightarrow> dom (mem h') = dom (mem h)"
  unfolding coalesce_def free_alone_def free_prev_def free_next_def free_both_def
  by (auto simp: bind_eq_Some_conv Let_def split: if_splits dest!: dom_upd dom_unlink del: equalityI)

end
