(* ===== verification/Sf_Merge.thy ===== *)
theory Sf_Merge
  imports Sf_Blocks
begin

text \<open>
  The four cases of \<open>coalesce\<close> in \<open>sf_free\<close>, as steps on the sequence of blocks: a released block
  is merged with its free neighbours (\<open>merged\<close>).
\<close>

text \<open>What a closed tiling says about the rows around a block.\<close>

lemma sized_dvd: "sized bs \<Longrightarrow> 16 dvd extent bs"
  by (induction bs) auto

lemma tiling_mapped: "tiling h bs \<Longrightarrow> x < extent bs \<Longrightarrow> 8 dvd x \<Longrightarrow> \<exists>w. ld h (at (base h) x) = Some w"
  by (auto simp: tiling_def)

lemma tiling_block: "tiling h (ls @ B # rs) \<Longrightarrow> block_at h (base h) (extent ls) (last_used True ls) B"
  by (simp add: tiling_def closed_append closed_Cons)

lemma tiling_behind:
  "tiling h (ls @ rs) \<Longrightarrow> \<exists>w. ld h (at (base h) (extent ls)) = Some w \<and> prev_allocated w = of_bool (last_used True ls) \<and>
     allocated w = of_bool (rs = [] \<or> used (hd rs)) \<and> (rs \<noteq> [] \<longrightarrow> unat (bs_int w) = bytes (hd rs))"
  using closed_head [of h "base h" "extent ls" "last_used True ls" rs] by (simp add: tiling_def closed_append)

lemma payload_not_link:
  assumes "tiling h bs" "lists_ok h N" "listed h N (set (frees 0 bs))" "x \<in> payload 0 bs"
  shows "at (base h) x \<notin> link_rows (heads N)"
proof -
  have "x < extent bs + 8" using payload_range [OF assms(4)] by simp
  moreover have "sized bs" using assms(1) by (simp add: tiling_def)
  ultimately show ?thesis
    using link_row_off [OF assms(1-3) order.refl, of x] payload_frees [of bs x 0] assms(4) by fastforce
qed

lemma listed_in: "listed h N C \<Longrightarrow> c \<in> C \<Longrightarrow> at (base h) c \<in> set (blocks (heads N))"
  by (simp add: listed_def)

text \<open>The four cases of \<open>coalesce\<close>, on a tiling.\<close>

definition merged :: "heap \<Rightarrow> ablock list \<Rightarrow> ablock list \<Rightarrow> ablock list \<Rightarrow> node_list \<Rightarrow> u64 \<Rightarrow> bool" where
  "merged h ls M rs N pp \<longleftrightarrow> (\<exists>m N'. coalesce h pp = Some (at (base h) (extent ls), h\<lparr>mem := m\<rparr>) \<and> dom m = dom (mem h) \<and>
     tiling (h\<lparr>mem := m\<rparr>) (ls @ Free (extent M) # rs) \<and> lists_ok (h\<lparr>mem := m\<rparr>) N' \<and> sublists N' N \<and>
     listed h N' (set (frees 0 ls) \<union> set (frees (extent ls + extent M) rs)) \<and>
     (\<forall>x \<in> payload 0 ls \<union> payload (extent ls + extent M) rs. ld (h\<lparr>mem := m\<rparr>) (at (base h) x) = ld h (at (base h) x)))"

lemma mergedI:
  assumes t: "tiling h (ls @ M @ rs)" and l: "lists_ok h N" "listed h N (set (frees 0 (ls @ M @ rs)))"
    and c: "coalesce h pp = Some (at (base h) (extent ls), h\<lparr>mem := m\<rparr>)" and M: "M \<noteq> []" and rs: "rs = [] \<or> used (hd rs)"
    and fl: "flists (h\<lparr>mem := m\<rparr>) (heads N')" "sublists N' N"
      "set (blocks (heads N')) = set (blocks (heads N)) - at (base h) ` set (frees (extent ls) M)"
    and fb: "free_block (h\<lparr>mem := m\<rparr>) (at (base h) (extent ls)) tot (of_bool (last_used True ls))" "unat tot = extent M"
    and e: "ld h (at (base h) (extent ls + extent M)) = Some w"
      "ld (h\<lparr>mem := m\<rparr>) (at (base h) (extent ls + extent M)) = Some (set_prev_allocated 0 w)"
    and fr: "\<forall>r. r \<notin> link_rows (heads N) \<union> at (base h) ` W \<longrightarrow> ld (h\<lparr>mem := m\<rparr>) r = ld h r"
      "W \<subseteq> {extent ls .. extent ls + extent M}"
  shows "merged h ls M rs N pp"
proof -
  have d: "dom m = dom (mem h)" using dom_coalesce [OF c] by simp
  have "ld (h\<lparr>mem := m\<rparr>) r = ld h r" if "r \<notin> link_rows (heads N) \<union> at (base h) ` {extent ls .. extent ls + extent M}" for r
    using that fr by blast
  from coalesced [OF t l M rs fl fb e this d] show ?thesis unfolding merged_def using c d fl(2) by blast
qed

lemma of_nat_at: "a + of_nat n = at a n"
  by (simp add: at_def)

lemma at_neq: "p < q \<Longrightarrow> q < 2 ^ 63 \<Longrightarrow> at a p \<noteq> at a q \<and> at a q \<noteq> at a p"
  by (simp add: at_inj)

lemma release_alone:
  assumes t: "tiling h (ls @ [Used n r] @ rs)" and l: "lists_ok h N" "listed h N (set (frees 0 (ls @ [Used n r] @ rs)))"
    and u: "last_used True ls" "rs = [] \<or> used (hd rs)"
  shows "merged h ls [Used n r] rs N (at (base h) (extent ls + 8))"
proof -
  let ?a = "base h" and ?p = "extent ls" and ?bs = "ls @ [Used n r] @ rs"
  have s: "sized ?bs" "extent ?bs < 2 ^ 31" and n: "32 \<le> n" "n < 2 ^ 31" using t by (simp_all add: tiling_def)
  obtain w where w: "ld h (at ?a ?p) = Some w" "prev_allocated w = 1" "unat (bs_int w) = n"
    using tiling_block [of h ls "Used n r" rs] t u(1) by (auto simp: block_at_def)
  obtain v where v: "ld h (at ?a (?p + n)) = Some v" "allocated v = 1"
    using tiling_behind [of h "ls @ [Used n r]" rs] t u(2) by auto
  have "16 dvd ?p" "16 dvd n" using s(1) sized_dvd [of ls] by auto
  then have "8 dvd ?p + n - 8" by presburger
  moreover have "?p + n - 8 < extent ?bs" using n by simp
  ultimately obtain f where f: "ld h (at ?a (?p + n - 8)) = Some f" using tiling_mapped [OF t] by blast
  have nh: "at ?a ?p + bsz w = at ?a (?p + n)" using bs_int_tot [OF w(3) n(2)] by (simp add: of_nat_at)
  have f8: "at ?a (?p + n) - 8 = at ?a (?p + n - 8)" using n by (simp add: at_diff)
  have lr: "at ?a ?p \<notin> link_rows (heads N)" "at ?a (?p + n) \<notin> link_rows (heads N)" "at ?a (?p + n - 8) \<notin> link_rows (heads N)"
  proof -
    show "at ?a ?p \<notin> link_rows (heads N)" by (rule info_not_link [OF t l]) simp
    show "at ?a (?p + n) \<notin> link_rows (heads N)"
      by (rule info_not_link [OF t l]) (cases rs, auto)
    show "at ?a (?p + n - 8) \<notin> link_rows (heads N)" using n by (intro payload_not_link [OF t l]) auto
  qed
  have "distinct [at ?a ?p, at ?a (?p + n), at ?a (?p + n - 8)]"
    using n s(2) at_neq [of ?p "?p + n" ?a] at_neq [of ?p "?p + n - 8" ?a] at_neq [of "?p + n - 8" "?p + n" ?a] by simp
  from coalesce_alone [of h "heads N", OF _ w(1) nh [symmetric] v(1) _ v(2) w(2), of f] this lr f f8 l(1)
  obtain m where m: "coalesce h (at ?a ?p + 8) = Some (at ?a ?p, h\<lparr>mem := m\<rparr>)" "flists (h\<lparr>mem := m\<rparr>) (heads N)"
    "free_block (h\<lparr>mem := m\<rparr>) (at ?a ?p) (bs_int w) 1"
    "ld (h\<lparr>mem := m\<rparr>) (at ?a (?p + n)) = Some (set_prev_allocated 0 v)"
    "\<forall>r. r \<notin> {at ?a ?p, at ?a (?p + n), at ?a (?p + n - 8)} \<longrightarrow> ld (h\<lparr>mem := m\<rparr>) r = ld h r"
    by (auto simp: lists_ok_def)
  show ?thesis
  proof (rule mergedI [OF t l _ _ u(2) m(2) sublists_refl, where tot = "bs_int w" and w = v and W = "{?p, ?p + n, ?p + n - 8}"])
    show "coalesce h (at ?a (?p + 8)) = Some (at ?a ?p, h\<lparr>mem := m\<rparr>)" using m(1) by (simp add: at_add)
    show "\<forall>r. r \<notin> link_rows (heads N) \<union> at ?a ` {?p, ?p + n, ?p + n - 8} \<longrightarrow> ld (h\<lparr>mem := m\<rparr>) r = ld h r"
      using m(5) by blast
    show "{?p, ?p + n, ?p + n - 8} \<subseteq> {?p .. ?p + extent [Used n r]}" using n by auto
  qed (use m(3,4) v(1) w(3) u(1) in simp_all)
qed


lemma prev_clear: "prev_allocated w = 0 \<Longrightarrow> set_prev_allocated 0 w = w"
  using prev_field.put_get [of w] by simp

text \<open>A free block of the tiling: header, footer, and its place in a list.\<close>

lemma tiling_free:
  assumes t: "tiling h (ls @ Free k # rs)" and l: "lists_ok h N" "listed h N (set (frees 0 (ls @ Free k # rs)))"
  shows "\<exists>v f. ld h (at (base h) (extent ls)) = Some v \<and> allocated v = 0 \<and> unat (bs_int v) = k \<and>
    prev_allocated v = of_bool (last_used True ls) \<and> ld h (at (base h) (extent ls + k - 8)) = Some f \<and> allocated f = 0 \<and>
    bs_int f = bs_int v \<and> bsz v = of_nat k \<and> at (base h) (extent ls) \<in> set (blocks (heads N)) \<and>
    at (base h) (extent ls) \<notin> link_rows (heads N) \<and> at (base h) (extent ls + k - 8) \<notin> link_rows (heads N)"
proof -
  have k: "k < 2 ^ 31" using t by (simp add: tiling_def)
  obtain v f where v: "ld h (at (base h) (extent ls)) = Some v" "allocated v = 0" "unat (bs_int v) = k"
    "prev_allocated v = of_bool (last_used True ls)" "ld h (at (base h) (extent ls + k - 8)) = Some f" "allocated f = 0"
    "unat (bs_int f) = k"
    using tiling_block [OF t] by (auto simp: block_at_def)
  have "bs_int f = bs_int v" using v(3,7) by (simp only: word_unat_eq_iff)
  moreover have "at (base h) (extent ls) \<in> set (blocks (heads N))" by (rule listed_in [OF l(2)]) simp
  moreover have "at (base h) (extent ls) \<notin> link_rows (heads N)" "at (base h) (extent ls + k - 8) \<notin> link_rows (heads N)"
    by (rule info_not_link [OF t l]; simp)+
  ultimately show ?thesis using v bs_int_tot [OF v(3) k] by blast
qed

lemma bs_int_add: "unat (bs_int v) + unat (bs_int w) < 2 ^ 31 \<Longrightarrow> unat (bs_int v + bs_int w) = unat (bs_int v) + unat (bs_int w)"
  by (simp add: unat_word_ariths)

lemma flists_distinct: "lists_ok h N \<Longrightarrow> distinct (nodes (heads N)) \<and> flists h (heads N)"
  by (simp add: lists_ok_def flists_def)

lemma release_next:
  assumes t: "tiling h (ls @ [Used n r, Free k] @ rs)" and l: "lists_ok h N" "listed h N (set (frees 0 (ls @ [Used n r, Free k] @ rs)))"
    and u: "last_used True ls" "rs = [] \<or> used (hd rs)"
  shows "merged h ls [Used n r, Free k] rs N (at (base h) (extent ls + 8))"
proof -
  let ?a = "base h" and ?p = "extent ls" and ?M = "[Used n r, Free k]"
  have s: "extent (ls @ ?M @ rs) < 2 ^ 31" and n: "32 \<le> n" "32 \<le> k" using t by (simp_all add: tiling_def)
  obtain w where w: "ld h (at ?a ?p) = Some w" "prev_allocated w = 1" "unat (bs_int w) = n"
    using tiling_block [of h ls "Used n r" "Free k # rs"] t u(1) by (auto simp: block_at_def)
  obtain v f where v: "ld h (at ?a (?p + n)) = Some v" "allocated v = 0" "unat (bs_int v) = k"
    "ld h (at ?a (?p + n + k - 8)) = Some f" "bsz v = of_nat k" "at ?a (?p + n) \<in> set (blocks (heads N))"
    "at ?a (?p + n + k - 8) \<notin> link_rows (heads N)"
    using tiling_free [of h "ls @ [Used n r]" k rs N] t l by auto
  have b: "at ?a ?p \<notin> link_rows (heads N)" by (rule info_not_link [OF t l]) simp
  obtain z where z: "ld h (at ?a (?p + n + k)) = Some z" "prev_allocated z = 0"
    using tiling_behind [of h "ls @ ?M" rs] t by (auto simp: add.assoc)
  have "bsz w = of_nat n" using s by (intro bs_int_tot w) simp
  then have nh: "at ?a (?p + n) = at ?a ?p + bsz w" by (simp add: of_nat_at)
  have ft: "at ?a (?p + n + k - 8) = at ?a (?p + n) + bsz v - 8" using v(5) n by (simp add: of_nat_at at_diff)
  have ne: "distinct [at ?a ?p, at ?a (?p + n), at ?a (?p + n + k - 8)]" "at ?a (?p + n + k) \<notin> {at ?a ?p, at ?a (?p + n + k - 8)}"
    using n s by (auto simp: at_inj)
  have tot: "unat (bs_int w) + unat (bs_int v) < 2 ^ 31" using w(3) v(3) s by simp
  from coalesce_next [OF conjunct2 [OF flists_distinct [OF l(1)]] w(1) nh v(1) ft v(4,2) w(2) ne(1) b v(7,6) tot]
  obtain m where m: "coalesce h (at ?a ?p + 8) = Some (at ?a ?p, h\<lparr>mem := m\<rparr>)"
    "flists (h\<lparr>mem := m\<rparr>) (drop_block (at ?a (?p + n)) (heads N))"
    "free_block (h\<lparr>mem := m\<rparr>) (at ?a ?p) (bs_int w + bs_int v) 1"
    "\<forall>r. r \<notin> link_rows (heads N) \<union> {at ?a ?p, at ?a (?p + n + k - 8)} \<longrightarrow> ld (h\<lparr>mem := m\<rparr>) r = ld h r"
    by blast
  have "at ?a (?p + n + k) \<notin> link_rows (heads N)"
    by (rule info_not_link [OF t l]) (cases rs, auto simp: add.assoc)
  then have "ld (h\<lparr>mem := m\<rparr>) (at ?a (?p + n + k)) = Some z" using m(4) z(1) ne(2) by auto
  then have e: "ld (h\<lparr>mem := m\<rparr>) (at ?a (?p + extent ?M)) = Some (set_prev_allocated 0 z)"
    by (simp add: prev_clear [OF z(2)] add.assoc)
  show ?thesis
  proof (rule mergedI [OF t l _ _ u(2) _ sublists_drop _ _ _ _ e, where W = "{?p, ?p + n + k - 8}"])
    show "coalesce h (at ?a (?p + 8)) = Some (at ?a ?p, h\<lparr>mem := m\<rparr>)" using m(1) by (simp add: at_add)
    show "set (blocks (heads (drop_listed (at ?a (?p + n)) N))) = set (blocks (heads N)) - at ?a ` set (frees ?p ?M)"
      using blocks_dropped flists_distinct [OF l(1)] by (simp add: heads_drop)
    show "\<forall>r. r \<notin> link_rows (heads N) \<union> at ?a ` {?p, ?p + n + k - 8} \<longrightarrow> ld (h\<lparr>mem := m\<rparr>) r = ld h r"
      using m(4) by simp
    show "{?p, ?p + n + k - 8} \<subseteq> {?p .. ?p + extent ?M}" using n by auto
  qed (use m(2,3) z(1) u(1) bs_int_add [OF tot] w(3) v(3) in \<open>simp_all add: heads_drop add.assoc\<close>)
qed

lemma release_prev:
  assumes t: "tiling h (ls @ [Free k, Used n r] @ rs)" and l: "lists_ok h N" "listed h N (set (frees 0 (ls @ [Free k, Used n r] @ rs)))"
    and u: "rs = [] \<or> used (hd rs)"
  shows "merged h ls [Free k, Used n r] rs N (at (base h) (extent ls + k + 8))"
proof -
  let ?a = "base h" and ?p = "extent ls" and ?M = "[Free k, Used n r]"
  have s: "extent (ls @ ?M @ rs) < 2 ^ 31" "sized (ls @ ?M @ rs)" and n: "32 \<le> n" "32 \<le> k" using t by (simp_all add: tiling_def)
  obtain w where w: "ld h (at ?a (?p + k)) = Some w" "prev_allocated w = 0" "unat (bs_int w) = n"
    using tiling_block [of h "ls @ [Free k]" "Used n r" rs] t by (auto simp: block_at_def)
  obtain v f where v: "ld h (at ?a ?p) = Some v" "allocated v = 0" "unat (bs_int v) = k"
    "prev_allocated v = of_bool (last_used True ls)" "ld h (at ?a (?p + k - 8)) = Some f" "bs_int f = bs_int v"
    "bsz v = of_nat k" "at ?a ?p \<in> set (blocks (heads N))" "at ?a ?p \<notin> link_rows (heads N)"
    using tiling_free [of h ls k "Used n r # rs" N] t l by auto
  obtain z where z: "ld h (at ?a (?p + k + n)) = Some z" "allocated z = 1"
    using tiling_behind [of h "ls @ ?M" rs] t u by (auto simp: add.assoc)
  have "16 dvd ?p" "16 dvd n" "16 dvd k" using s(2) sized_dvd [of ls] by auto
  then have "8 dvd ?p + k + n - 8" by presburger
  moreover have "?p + k + n - 8 < extent (ls @ ?M @ rs)" using n by simp
  ultimately obtain g where g: "ld h (at ?a (?p + k + n - 8)) = Some g" using tiling_mapped [OF t] by blast
  have "bsz w = of_nat n" using s by (intro bs_int_tot w) simp
  then have nh: "at ?a (?p + k + n) = at ?a (?p + k) + bsz w" by (simp add: of_nat_at)
  have pf: "bsz f = of_nat k" using v(6,7) by (simp add: bsz_def)
  have e8: "at ?a (?p + k) - 8 = at ?a (?p + k - 8)" "at ?a (?p + k + n) - 8 = at ?a (?p + k + n - 8)"
    using n by (simp_all add: at_diff)
  have pb: "at ?a ?p = at ?a (?p + k) - bsz f" using pf by (simp add: at_def)
  have ne: "distinct [at ?a ?p, at ?a (?p + k) - 8, at ?a (?p + k), at ?a (?p + k + n), at ?a (?p + k + n) - 8]"
    unfolding e8 using n s by (auto simp: at_inj)
  have lr: "at ?a (?p + k) \<notin> link_rows (heads N)" "at ?a (?p + k + n) \<notin> link_rows (heads N)"
      "at ?a (?p + k + n) - 8 \<notin> link_rows (heads N)"
  proof -
    show "at ?a (?p + k) \<notin> link_rows (heads N)" by (rule info_not_link [OF t l]) simp
    show "at ?a (?p + k + n) \<notin> link_rows (heads N)"
      by (rule info_not_link [OF t l]) (cases rs, auto simp: add.assoc)
    show "at ?a (?p + k + n) - 8 \<notin> link_rows (heads N)" unfolding e8 using n by (intro payload_not_link [OF t l]) auto
  qed
  have tot: "unat (bs_int v) + unat (bs_int w) < 2 ^ 31" using w(3) v(3) s by simp
  have g': "ld h (at ?a (?p + k + n) - 8) = Some g" "ld h (at ?a (?p + k) - 8) = Some f" using g v(5) by (simp_all only: e8)
  from coalesce_prev [OF conjunct2 [OF flists_distinct [OF l(1)]] w(1) nh z(1) g' pb v(1,6) z(2) v(2) w(2) ne v(9) lr v(8) tot]
  obtain m where m: "coalesce h (at ?a (?p + k) + 8) = Some (at ?a ?p, h\<lparr>mem := m\<rparr>)"
    "flists (h\<lparr>mem := m\<rparr>) (drop_block (at ?a ?p) (heads N))"
    "free_block (h\<lparr>mem := m\<rparr>) (at ?a ?p) (bs_int v + bs_int w) (prev_allocated v)"
    "ld (h\<lparr>mem := m\<rparr>) (at ?a (?p + k + n)) = Some (set_prev_allocated 0 z)"
    "\<forall>r. r \<notin> link_rows (heads N) \<union> {at ?a ?p, at ?a (?p + k), at ?a (?p + k + n), at ?a (?p + k + n - 8)} \<longrightarrow>
       ld (h\<lparr>mem := m\<rparr>) r = ld h r"
    unfolding e8 by blast
  show ?thesis
  proof (rule mergedI [OF t l _ _ u(1) _ sublists_drop, where W = "{?p, ?p + k, ?p + k + n, ?p + k + n - 8}" and w = z])
    show "coalesce h (at ?a (?p + k + 8)) = Some (at ?a ?p, h\<lparr>mem := m\<rparr>)" using m(1) by (simp add: at_add)
    show "set (blocks (heads (drop_listed (at ?a ?p) N))) = set (blocks (heads N)) - at ?a ` set (frees ?p ?M)"
      using blocks_dropped flists_distinct [OF l(1)] by (simp add: heads_drop)
    show "\<forall>r. r \<notin> link_rows (heads N) \<union> at ?a ` {?p, ?p + k, ?p + k + n, ?p + k + n - 8} \<longrightarrow> ld (h\<lparr>mem := m\<rparr>) r = ld h r"
      using m(5) by simp
    show "{?p, ?p + k, ?p + k + n, ?p + k + n - 8} \<subseteq> {?p .. ?p + extent ?M}" using n by auto
  qed (use m(2,3,4) z(1) v(4) bs_int_add [OF tot] w(3) v(3) in \<open>simp_all add: heads_drop add.assoc\<close>)
qed

lemma distinct_dropped: "distinct (nodes Ls) \<Longrightarrow> distinct (nodes (drop_block b Ls))"
proof (induction Ls)
  case (Cons l Ls)
  obtain a xs where l: "l = (a, xs)" by (cases l)
  have "drop_block b (l # Ls) = (a, remove1 b xs) # drop_block b Ls" by (simp add: l drop_block_def)
  then show ?case using Cons l set_nodes_drop [of b Ls] set_remove1_subset [of b xs] by auto
qed (simp add: drop_block_def)

lemma release_both:
  assumes t: "tiling h (ls @ [Free k, Used n r, Free j] @ rs)"
    and l: "lists_ok h N" "listed h N (set (frees 0 (ls @ [Free k, Used n r, Free j] @ rs)))"
    and u: "rs = [] \<or> used (hd rs)"
  shows "merged h ls [Free k, Used n r, Free j] rs N (at (base h) (extent ls + k + 8))"
proof -
  let ?a = "base h" and ?p = "extent ls" and ?M = "[Free k, Used n r, Free j]"
  have s: "extent (ls @ ?M @ rs) < 2 ^ 31" and n: "32 \<le> n" "32 \<le> k" "32 \<le> j" using t by (simp_all add: tiling_def)
  obtain w where w: "ld h (at ?a (?p + k)) = Some w" "prev_allocated w = 0" "unat (bs_int w) = n"
    using tiling_block [of h "ls @ [Free k]" "Used n r" "Free j # rs"] t by (auto simp: block_at_def)
  obtain v f where v: "ld h (at ?a ?p) = Some v" "allocated v = 0" "unat (bs_int v) = k"
    "prev_allocated v = of_bool (last_used True ls)" "ld h (at ?a (?p + k - 8)) = Some f" "bs_int f = bs_int v"
    "bsz v = of_nat k" "at ?a ?p \<in> set (blocks (heads N))" "at ?a ?p \<notin> link_rows (heads N)"
    using tiling_free [of h ls k "Used n r # Free j # rs" N] t l by auto
  obtain x g where x: "ld h (at ?a (?p + k + n)) = Some x" "allocated x = 0" "unat (bs_int x) = j"
    "ld h (at ?a (?p + k + n + j - 8)) = Some g" "bsz x = of_nat j" "at ?a (?p + k + n) \<in> set (blocks (heads N))"
    "at ?a (?p + k + n + j - 8) \<notin> link_rows (heads N)"
    using tiling_free [of h "ls @ [Free k, Used n r]" j rs N] t l by (auto simp: add.assoc)
  obtain z where z: "ld h (at ?a (?p + k + n + j)) = Some z" "prev_allocated z = 0"
    using tiling_behind [of h "ls @ ?M" rs] t by (auto simp: add.assoc)
  have lr: "at ?a (?p + k) \<notin> link_rows (heads N)" "at ?a (?p + k + n + j) \<notin> link_rows (heads N)"
  proof -
    show "at ?a (?p + k) \<notin> link_rows (heads N)" by (rule info_not_link [OF t l]) simp
    show "at ?a (?p + k + n + j) \<notin> link_rows (heads N)"
      by (rule info_not_link [OF t l]) (cases rs, auto simp: add.assoc)
  qed
  have "bsz w = of_nat n" using s by (intro bs_int_tot w) simp
  then have nh: "at ?a (?p + k + n) = at ?a (?p + k) + bsz w" by (simp add: of_nat_at)
  have pf: "bsz f = of_nat k" using v(6,7) by (simp add: bsz_def)
  have e8: "at ?a (?p + k) - 8 = at ?a (?p + k - 8)" using n by (simp add: at_diff)
  have ft: "at ?a (?p + k + n + j - 8) = at ?a (?p + k + n) + bsz x - 8" using x(5) n by (simp add: of_nat_at at_diff)
  have pb: "at ?a ?p = at ?a (?p + k) - bsz f" using pf by (simp add: at_def)
  have ne: "distinct [at ?a ?p, at ?a (?p + k) - 8, at ?a (?p + k), at ?a (?p + k + n), at ?a (?p + k + n + j - 8)]"
      "at ?a (?p + k + n + j) \<notin> {at ?a ?p, at ?a (?p + k), at ?a (?p + k + n + j - 8)}"
    unfolding e8 using n s by (auto simp: at_inj)
  have tot: "unat (bs_int v) + unat (bs_int w) + unat (bs_int x) < 2 ^ 31" using w(3) v(3) x(3) s by simp
  have f': "ld h (at ?a (?p + k) - 8) = Some f" using v(5) by (simp only: e8)
  from coalesce_both [OF conjunct2 [OF flists_distinct [OF l(1)]] w(1) nh x(1) ft x(4) f' pb v(1,6) x(2) v(2) w(2) ne(1) v(9)
      lr(1) x(7) v(8) x(6) tot]
  obtain m where m: "coalesce h (at ?a (?p + k) + 8) = Some (at ?a ?p, h\<lparr>mem := m\<rparr>)"
    "flists (h\<lparr>mem := m\<rparr>) (drop_block (at ?a ?p) (drop_block (at ?a (?p + k + n)) (heads N)))"
    "free_block (h\<lparr>mem := m\<rparr>) (at ?a ?p) (bs_int v + bs_int w + bs_int x) (prev_allocated v)"
    "\<forall>r. r \<notin> link_rows (heads N) \<union> {at ?a ?p, at ?a (?p + k), at ?a (?p + k + n + j - 8)} \<longrightarrow> ld (h\<lparr>mem := m\<rparr>) r = ld h r"
    by blast
  have "ld (h\<lparr>mem := m\<rparr>) (at ?a (?p + k + n + j)) = Some z" using m(4) z(1) ne(2) lr(2) by auto
  then have e: "ld (h\<lparr>mem := m\<rparr>) (at ?a (?p + extent ?M)) = Some (set_prev_allocated 0 z)"
    by (simp add: prev_clear [OF z(2)] add.assoc)
  let ?N = "drop_listed (at ?a ?p) (drop_listed (at ?a (?p + k + n)) N)"
  have dd: "set (blocks (heads ?N)) = set (blocks (heads N)) - at ?a ` set (frees ?p ?M)"
  proof -
    have "distinct (nodes (drop_block (at ?a (?p + k + n)) (heads N)))"
      using flists_distinct [OF l(1)] by (simp add: distinct_dropped)
    then show ?thesis using flists_distinct [OF l(1)] by (auto simp: heads_drop blocks_dropped)
  qed
  have "unat (bs_int v + bs_int w + bs_int x) = k + n + j"
    using tot w(3) v(3) x(3) by (simp add: unat_word_ariths)
  then show ?thesis
    using m(2,3) z(1) v(4) m(1)
    by (intro mergedI [OF t l _ _ u _ sublists_trans [OF sublists_drop sublists_drop] dd _ _ _ e, where W = "{?p, ?p + k, ?p + k + n + j - 8}"])
      (use m(4) n in \<open>simp_all add: heads_drop add.assoc at_add\<close>)
qed

end
