(* ===== verification/Sf_Release.thy ===== *)
theory Sf_Release
  imports Sf_Merge
begin

text \<open>
  \<open>sf_free\<close> on the sequence of blocks: the address of an allocated block passes the validation, and
  the merged block is inserted into the list of its size, or into a new list at its place in the
  order of sizes. \<open>adds_lists\<close> is the contract of \<open>sf_add_free_list\<close> (hw3/lib/sfutil.o), which is
  not in the repository: it links a new node, with rows of its own, before the given one.
\<close>

subsection \<open>Validation\<close>

lemma unat_at:
  assumes "tiling h bs" "x \<le> extent bs + 8"
  shows "unat (at (base h) x) = unat (mem_start h) + 40 + x"
proof -
  have l: "unat (mem_start h) + 48 + extent bs < 2 ^ 64" using assms(1) by (simp add: tiling_def)
  have "at (base h) x = of_nat (unat (mem_start h) + (40 + x))" by (simp add: at_def base_def)
  then have "unat (at (base h) x) = (unat (mem_start h) + (40 + x)) mod 2 ^ 64" by (simp only: unat_of_nat) simp
  also have "\<dots> = unat (mem_start h) + (40 + x)" using l assms(2) by (intro mod_less) simp
  finally show ?thesis by simp
qed

lemma c_mod_16: "unat (x :: u32) < 2 ^ 31 \<Longrightarrow> 16 dvd unat x \<Longrightarrow> c_mod x 16 = 0"
proof -
  assume x: "unat x < 2 ^ 31" "16 dvd unat x"
  have "sint (of_nat (unat x) :: u32) = int (unat x)" by (rule sint_of_nat_u32 [OF x(1)])
  then have "sint x = int (unat x)" by simp
  moreover have "(16 :: int) dvd int (unat x)" using x(2) by presburger
  ultimately have "sint x smod 16 = 0" by (auto simp: signed_modulo_int_def sgn_if elim: dvdE)
  then show ?thesis by (simp add: c_mod_def)
qed

lemma valid_pointer_tiled:
  assumes t: "tiling h (ls @ Used n r # rs)"
  shows "valid_pointer h (at (base h) (extent ls + 8)) = Some True"
proof -
  let ?a = "base h" and ?p = "extent ls"
  have n: "32 \<le> n" "16 dvd n" "n < 2 ^ 31" and s: "sized ls" using t by (simp_all add: tiling_def)
  obtain w where w: "ld h (at ?a ?p) = Some w" "allocated w = 1" "prev_allocated w = of_bool (last_used True ls)"
    "unat (bs_int w) = n" "unat (requested_size w) + 8 \<le> n"
    using tiling_block [OF t] by (auto simp: block_at_def)
  have pp: "at ?a (?p + 8) - 8 = at ?a ?p" "at ?a (?p + 8) \<noteq> 0"
      "\<not> at ?a (?p + 8) < mem_start h + 40" "\<not> at ?a (?p + 8) > mem_end h - 8"
  proof -
    show "at ?a (?p + 8) - 8 = at ?a ?p" by (simp add: at_diff)
    have u: "unat (at ?a (?p + 8)) = unat (mem_start h) + 40 + (?p + 8)" by (rule unat_at [OF t]) (simp add: n)
    then show "at ?a (?p + 8) \<noteq> 0" by (metis add_is_0 numeral_neq_zero unat_0)
    have "mem_start h + 40 = at ?a 0" by (simp add: base_def)
    then show "\<not> at ?a (?p + 8) < mem_start h + 40" using u unat_at [OF t, of 0] by (simp add: word_less_nat_alt)
    have "mem_end h - 8 = at ?a (extent (ls @ Used n r # rs))" using t by (simp add: tiling_def at_def)
    then show "\<not> at ?a (?p + 8) > mem_end h - 8"
      using u unat_at [OF t, of "extent (ls @ Used n r # rs)"] n by (simp add: word_less_nat_alt)
  qed
  have sz: "c_mod (bs_int w) 16 = 0" "\<not> sint (bs_int w) < 32"
  proof -
    show "c_mod (bs_int w) 16 = 0" using c_mod_16 w(4) n by simp
    have "sint (of_nat (unat (bs_int w)) :: u32) = int n" using sint_of_nat_u32 [of n] n(3) w(4) by simp
    then show "\<not> sint (bs_int w) < 32" using n(1) by simp
  qed
  have rq: "\<not> ucast (requested_size w) + 8 > bs_int w"
  proof -
    have "unat (ucast (requested_size w) :: u32) = unat (requested_size w)"
      using w(5) n(3) by (simp add: unsigned_ucast_eq take_bit_nat_eq_self)
    then have "unat (ucast (requested_size w) + 8 :: u32) = unat (requested_size w) + 8"
      using w(5) n(3) by (simp add: unat_word_ariths)
    then show ?thesis using w(4,5) by (simp add: word_less_nat_alt)
  qed
  show ?thesis
  proof (cases "last_used True ls")
    case True
    then show ?thesis using pp w sz rq by (simp add: valid_pointer_def)
  next
    case False
    then obtain ls' k where ls: "ls = ls' @ [Free k]"
      by (cases ls rule: rev_cases; cases "last ls") (auto simp: last_used_def)
    have k: "32 \<le> k" "k < 2 ^ 31" using t ls by (simp_all add: tiling_def)
    have "block_at h ?a (extent ls') (last_used True ls') (Free k)"
      using tiling_block [of h ls' "Free k" "Used n r # rs"] t ls by simp
    then obtain v f where v: "ld h (at ?a (extent ls')) = Some v" "allocated v = 0" "ld h (at ?a (extent ls' + k - 8)) = Some f"
        "allocated f = 0" "unat (bs_int f) = k"
      by (auto simp: block_at_def)
    have "at ?a (?p + 8) - 16 = at ?a (extent ls' + k - 8)" using k ls by (simp add: at_diff)
    moreover have "at ?a (extent ls' + k - 8) + 8 - bsz f = at ?a (extent ls')"
      using k bs_int_tot [OF v(5) k(2)] by (simp add: at_def of_nat_diff)
    ultimately show ?thesis using pp w sz rq v False by (simp add: valid_pointer_def)
  qed
qed

subsection \<open>Insertion of a free block\<close>

text \<open>The list of free lists with a block \<open>b\<close> of \<open>s\<close> bytes, in a new node \<open>n\<close> when there is none of its size.\<close>

fun place :: "u64 \<Rightarrow> u64 \<Rightarrow> u64 \<Rightarrow> node_list \<Rightarrow> node_list" where
  "place s b n [] = [(n, s, [b])]"
| "place s b n ((k, t, xs) # N) =
     (if t = s then (k, t, b # xs) # N
      else if s < t then (n, s, [b]) # (k, t, xs) # N
      else (k, t, xs) # place s b n N)"

lemma place_skip: "\<forall>(k, t, xs) \<in> set A. t < s \<Longrightarrow> place s b n (A @ B) = A @ place s b n B"
  by (induction A) (auto simp: order_less_imp_not_eq)

lemma split_sizes:
  "sorted_wrt (<) (map (fst \<circ> snd) N) \<Longrightarrow>
   \<exists>A B. N = A @ B \<and> (\<forall>(k, t, xs) \<in> set A. t < s) \<and> (\<forall>(k, t, xs) \<in> set B. s \<le> t)" for s :: u64
proof (induction N)
  case (Cons x N)
  obtain k t xs where x: "x = (k, t, xs)" by (cases x)
  obtain A B where ih: "N = A @ B" "\<forall>(k, t, xs) \<in> set A. t < s" "\<forall>(k, t, xs) \<in> set B. s \<le> t"
    using Cons by auto
  show ?case
  proof (cases "t < s")
    case True
    then show ?thesis using ih x by (intro exI [of _ "x # A"] exI [of _ B]) auto
  next
    case False
    then have "\<forall>(k', t', xs') \<in> set (x # N). s \<le> t'" using Cons.prems x by fastforce
    then show ?thesis by (intro exI [of _ "[]"] exI [of _ "x # N"]) auto
  qed
qed simp

text \<open>The contract of \<open>sf_add_free_list\<close>, for all heaps with the rows of \<open>h\<close>: a new node outside of the
  mapped rows and of the heap, with an empty list, is linked into the ring before \<open>nx\<close>.\<close>

definition add_node :: "heap \<Rightarrow> u64 \<Rightarrow> u64 \<Rightarrow> u64 \<Rightarrow> u64 \<Rightarrow> heap" where
  "add_node h n s p nx = h\<lparr>mem := (mem h)(node_size n \<mapsto> s, node_head n \<mapsto> 0, link_next (node_head n) \<mapsto> node_head n,
     link_prev (node_head n) \<mapsto> node_head n, node_next n \<mapsto> nx, node_prev n \<mapsto> p, node_prev nx \<mapsto> n, node_next p \<mapsto> n)\<rparr>"

definition adds_lists :: "sf_ext \<Rightarrow> heap \<Rightarrow> bool" where
  "adds_lists E h \<longleftrightarrow> (\<forall>m s p nx. dom m = dom (mem h) \<longrightarrow> m (node_prev nx) = Some p \<longrightarrow> m (node_next p) = Some nx \<longrightarrow>
     (\<exists>n. sf_add_free_list E s nx (h\<lparr>mem := m\<rparr>) = (n, add_node (h\<lparr>mem := m\<rparr>) n s p nx) \<and>
        node_rows n \<inter> (dom m \<union> heap_rows h) = {}))"

text \<open>The walks over the nodes.\<close>

lemma nseg_append [simp]: "nseg h p (xs @ x # ys) q \<longleftrightarrow> nseg h p xs x \<and> nseg h x ys q"
  by (induction xs arbitrary: p) auto

lemma insert_scan_skip:
  "nseg h p (map fst A @ ys) (free_list_head h) \<Longrightarrow> free_list_head h \<notin> fst ` set A \<Longrightarrow>
   \<forall>(k, t, xs) \<in> set A. ld h (node_size k) = Some t \<and> t < s \<Longrightarrow>
   insert_scan h s b (hd (map fst A @ ys @ [free_list_head h])) = insert_scan h s b (hd (ys @ [free_list_head h]))"
proof (induction A arbitrary: p)
  case (Cons x A)
  obtain k t xs where x: "x = (k, t, xs)" by (cases x)
  have "nseg h k (map fst A @ ys) (free_list_head h)" using Cons.prems(1) x by simp
  then have "ld h (node_next k) = Some (hd (map fst A @ ys @ [free_list_head h]))"
    by (cases "map fst A @ ys") (auto simp: append_eq_Cons_conv)
  then show ?case
    using Cons.prems x Cons.IH [of k] by (subst insert_scan.simps) (auto simp: order_less_imp_not_eq)
qed simp

lemma insert_new_skip:
  "nseg h p (map fst A @ l # ys) (free_list_head h) \<Longrightarrow> free_list_head h \<notin> fst ` set A \<union> {l} \<Longrightarrow>
   \<forall>(k, t, xs) \<in> set A. ld h (node_size k) = Some t \<and> t < s \<Longrightarrow> ld h (node_size l) = Some t' \<Longrightarrow> t' < s \<Longrightarrow>
   insert_new E h s b (hd (map fst A @ [l])) = insert_new E h s b l"
proof (induction A arbitrary: p)
  case (Cons x A)
  obtain k t xs where x: "x = (k, t, xs)" by (cases x)
  let ?y = "hd (map fst A @ [l])"
  have "nseg h k (map fst A @ l # ys) (free_list_head h)" using Cons.prems(1) x by simp
  then have y: "ld h (node_next k) = Some ?y" by (cases "map fst A") auto
  have pv: "ld h (node_prev k) = Some p" using Cons.prems(1) x by simp
  have "\<exists>u. ld h (node_size ?y) = Some u \<and> u < s" using Cons.prems(3-5) by (cases A) auto
  moreover have "?y \<noteq> free_list_head h" using Cons.prems(2) by (cases A) auto
  ultimately show ?case
    using Cons.prems x Cons.IH [of k] y pv by (subst insert_new.simps) (auto simp: order_less_imp_not_less)
qed simp


text \<open>Inside the heap, an insertion writes links of free blocks only.\<close>

lemma frees_dvd: "sized bs \<Longrightarrow> 16 dvd p \<Longrightarrow> c \<in> set (frees p bs) \<Longrightarrow> 16 dvd c"
proof (induction bs arbitrary: p)
  case (Cons B bs)
  have "16 dvd p + bytes B" using Cons.prems(1,2) by (simp add: dvd_add)
  then have "c \<in> set (frees (p + bytes B) bs) \<Longrightarrow> 16 dvd c" using Cons.IH Cons.prems(1) by simp
  moreover have "c = p \<or> c \<in> set (frees (p + bytes B) bs)" using Cons.prems(3) by (cases "used B") simp_all
  ultimately show ?case using Cons.prems(2) by blast
qed simp

lemma tiling_links:
  assumes t: "tiling h bs" and fr: "\<And>x. x < extent bs + 8 \<Longrightarrow> x \<notin> links 0 bs \<Longrightarrow> ld (h\<lparr>mem := m\<rparr>) (at (base h) x) = ld h (at (base h) x)"
    and d: "dom (mem h) \<subseteq> dom m"
  shows "tiling (h\<lparr>mem := m\<rparr>) bs" "x \<in> payload 0 bs \<Longrightarrow> ld (h\<lparr>mem := m\<rparr>) (at (base h) x) = ld h (at (base h) x)"
    "c \<in> set (frees 0 bs) \<Longrightarrow> ld (h\<lparr>mem := m\<rparr>) (at (base h) c) = ld h (at (base h) c)"
proof -
  have s: "sized bs" using t by (simp add: tiling_def)
  have i: "ld (h\<lparr>mem := m\<rparr>) (at (base h) x) = ld h (at (base h) x)" if "x \<in> insert (extent bs) (infos 0 bs)" for x
  proof (rule fr)
    show "x < extent bs + 8" using that infos_range [OF s, of x 0] by auto
    show "x \<notin> links 0 bs"
    proof
      assume "x \<in> links 0 bs"
      then show False using that links_infos [OF s, of _ 0 x] frees_range [OF s, of _ 0] by (elim linksE) fastforce
    qed
  qed
  have "closed (h\<lparr>mem := m\<rparr>) (base h) 0 True bs = closed h (base h) 0 True bs" using i by (intro closed_cong) simp
  moreover have "ld h r \<noteq> None \<Longrightarrow> ld (h\<lparr>mem := m\<rparr>) r \<noteq> None" for r using d by (auto simp: ld_def)
  ultimately show "tiling (h\<lparr>mem := m\<rparr>) bs" using t by (simp add: tiling_def)
  show "ld (h\<lparr>mem := m\<rparr>) (at (base h) x) = ld h (at (base h) x)" if "x \<in> payload 0 bs"
    using payload_range [OF that] payload_frees [OF s that] by (intro fr) (fastforce elim: linksE)+
  show "ld (h\<lparr>mem := m\<rparr>) (at (base h) c) = ld h (at (base h) c)" if "c \<in> set (frees 0 bs)"
    using frees_infos [OF that] by (intro i) simp
qed

lemma link_row_links:
  assumes "tiling h bs" "lists_ok h N" "listed h N C" "C \<subseteq> set (frees 0 bs)" "x < extent bs + 8" "x \<notin> links 0 bs"
  shows "at (base h) x \<notin> link_rows (heads N)"
  using link_row_off [OF assms(1-5)] assms(4,6) by (auto simp: links_def)

text \<open>A free block that is in no list is apart from the lists.\<close>

lemma free_block_apart:
  assumes t: "tiling h bs" and l: "lists_ok h N" "listed h N (set (frees 0 bs) - {c})" and c: "c \<in> set (frees 0 bs)"
  shows "at (base h) c \<notin> set (nodes (heads N))" "apart (insert (at (base h) c) (set (nodes (heads N))))"
    "ld h (link_next (at (base h) c)) \<noteq> None" "ld h (link_prev (at (base h) c)) \<noteq> None"
    "link_next (at (base h) c) \<notin> link_rows (heads N)" "link_prev (at (base h) c) \<notin> link_rows (heads N)"
proof -
  let ?a = "base h"
  have s: "sized bs" "extent bs < 2 ^ 31" using t by (simp_all add: tiling_def)
  have cr: "c + 32 \<le> extent bs" using frees_range [OF s(1) c] by simp
  have hr: "at ?a x \<in> heap_rows h" if "x < extent bs + 8" for x using that by (simp add: tiling_rows [OF t])
  have dis: "link_next x \<noteq> link_prev (at ?a c) \<and> link_prev x \<noteq> link_next (at ?a c) \<and> x \<noteq> at ?a c"
    if x: "x \<in> set (nodes (heads N))" for x
  proof (cases "x \<in> set (blocks (heads N))")
    case True
    then obtain d where d: "d \<in> set (frees 0 bs)" "d \<noteq> c" "x = at ?a d" using l(2) by (auto simp: listed_def)
    have "d + 32 \<le> extent bs" "d + 32 \<le> c \<or> c + 32 \<le> d"
      using frees_range [OF s(1) d(1)] frees_spaced [OF s(1) c d(1)] d(2) by auto
    then show ?thesis using cr s(2) by (auto simp: d(3) link_at at_inj)
  next
    case False
    then obtain n where n: "n \<in> fst ` set N" "x = node_head n" using x nodes_heads [of x N] by auto
    have "node_rows n \<inter> heap_rows h = {}" using nodes_okD(6) [OF lists_okD(2) [OF l(1)]] n(1) by simp
    moreover have "at ?a c \<in> heap_rows h" "link_next (at ?a c) \<in> heap_rows h" "link_prev (at ?a c) \<in> heap_rows h"
      using cr hr by (simp_all add: link_at)
    moreover have "node_head n \<in> node_rows n" by (simp add: node_rows_def node_head_def)
    ultimately show ?thesis using head_rows [of n] n(2) by (metis IntI empty_iff)
  qed
  have f: "apart (set (nodes (heads N)))" using l(1) by (simp add: lists_ok_def flists_def)
  show "at ?a c \<notin> set (nodes (heads N))" using dis by blast
  show "apart (insert (at ?a c) (set (nodes (heads N))))" using f dis by (fastforce simp: apart_def)
  have "16 dvd c" by (rule frees_dvd [OF s(1) _ c]) simp
  then have "8 dvd c + 8" "8 dvd c + 16" by presburger+
  then show "ld h (link_next (at ?a c)) \<noteq> None" "ld h (link_prev (at ?a c)) \<noteq> None"
    using tiling_mapped [OF t, of "c + 8"] tiling_mapped [OF t, of "c + 16"] cr by (auto simp: link_at)
  show "link_next (at ?a c) \<notin> link_rows (heads N)" "link_prev (at ?a c) \<notin> link_rows (heads N)"
    using dis f \<open>at ?a c \<notin> set (nodes (heads N))\<close> by (fastforce simp: link_rows_def)+
qed

text \<open>There is a list of the size of the block.\<close>

lemma heads_place: "\<forall>(k, t, xs) \<in> set A. t < s \<Longrightarrow> distinct (map fst (A @ (n, s, xs) # B)) \<Longrightarrow>
    heads (place s b v (A @ (n, s, xs) # B)) = add_front (node_head n) b (heads (A @ (n, s, xs) # B))"
proof -
  assume a: "\<forall>(k, t, xs) \<in> set A. t < s" and d: "distinct (map fst (A @ (n, s, xs) # B))"
  have "node_head n \<notin> fst ` set (heads A)" "node_head n \<notin> fst ` set (heads B)"
    using d by (auto simp: heads_def node_head_def image_iff)
  then have "add_front (node_head n) b (heads A) = heads A" "add_front (node_head n) b (heads B) = heads B"
    by (auto intro: add_front_other)
  then show ?thesis using place_skip [OF a, of b v "(n, s, xs) # B"] by (simp add: add_front_def)
qed

lemma nseg_firsts: "nseg h p xs q \<Longrightarrow> ld h (node_next p) = Some (hd (xs @ [q]))"
  by (cases xs) auto

lemma insert_existing:
  assumes t: "tiling h bs" and l: "lists_ok h N" "listed h N (set (frees 0 bs) - {c})" and c: "c \<in> set (frees 0 bs)"
    and w: "ld h (at (base h) c) = Some w" and cb: "compact bs" and N: "N = A @ (n, bsz w, xs) # B" "\<forall>(k, t, xs) \<in> set A. t < bsz w"
  shows "\<exists>m. free_insert E h (at (base h) c) = Some (h\<lparr>mem := m\<rparr>) \<and> dom (mem h) \<subseteq> dom m \<and>
    heap_ok (h\<lparr>mem := m\<rparr>) bs (place (bsz w) (at (base h) c) v N) \<and>
    (\<forall>x \<in> payload 0 bs. ld (h\<lparr>mem := m\<rparr>) (at (base h) x) = ld h (at (base h) x))"
proof -
  let ?q = "free_list_head h" and ?b = "at (base h) c" and ?N = "place (bsz w) (at (base h) c) v N"
  note ap = free_block_apart [OF t l c]
  note D = lists_okD [OF l(1)] and O = nodes_okD [OF lists_okD(2) [OF l(1)]]
  have L: "flists h (heads N)" "nseg h ?q (map fst A @ n # map fst B) ?q" "distinct (?q # map fst N)"
      "ld h (node_size n) = Some (bsz w)" "\<forall>(k, t, xs) \<in> set A. ld h (node_size k) = Some t"
    using D(1) O(1,3,4) N(1) by auto
  have hN: "heads ?N = add_front (node_head n) ?b (heads N)" using heads_place [OF N(2), of n xs B] L(3) N(1) by simp
  have "node_head n \<in> fst ` set (heads N)" by (simp add: N(1))
  from flists_link_front [OF L(1) this ap(1-4)]
  obtain m where m: "link_front h (node_head n) ?b = Some (h\<lparr>mem := m\<rparr>)" "flists (h\<lparr>mem := m\<rparr>) (heads ?N)"
    "\<And>r. r \<notin> link_rows (heads N) \<Longrightarrow> r \<noteq> link_next ?b \<Longrightarrow> r \<noteq> link_prev ?b \<Longrightarrow> ld (h\<lparr>mem := m\<rparr>) r = ld h r"
    unfolding hN by blast
  have d: "dom m = dom (mem h)" 
    using m(1) unfolding link_front_def by (auto simp: bind_eq_Some_conv dest!: dom_sto del: equalityI)
  have "insert_scan h (bsz w) ?b n = Some (True, h\<lparr>mem := m\<rparr>)"
    using L(3,4) N(1) m(1) by (subst insert_scan.simps) auto
  moreover have "insert_scan h (bsz w) ?b (hd (map fst A @ (n # map fst B) @ [?q])) = insert_scan h (bsz w) ?b (hd ((n # map fst B) @ [?q]))"
    using L N by (intro insert_scan_skip [of _ ?q]) auto
  moreover have "ld h (node_next ?q) = Some (hd (map fst A @ (n # map fst B) @ [?q]))"
    using nseg_firsts [OF L(2)] by simp
  ultimately have e: "free_insert E h ?b = Some (h\<lparr>mem := m\<rparr>)" using w by (simp add: free_insert_def)
  have fr: "ld (h\<lparr>mem := m\<rparr>) (at (base h) x) = ld h (at (base h) x)" if "x < extent bs + 8" "x \<notin> links 0 bs" for x
  proof (rule m(3))
    show "at (base h) x \<notin> link_rows (heads N)" using link_row_links [OF t l _ that] by simp
    have "x \<noteq> c + 8" "x \<noteq> c + 16" "c + 32 \<le> extent bs" "extent bs < 2 ^ 31"
      using that(2) c frees_range [of bs c 0] t by (auto simp: links_def tiling_def)
    then show "at (base h) x \<noteq> link_next ?b" "at (base h) x \<noteq> link_prev ?b" using that(1) by (simp_all add: link_at at_inj)
  qed
  note T = tiling_links [OF t fr eq_refl [OF d [symmetric]]]
  have pl: "?N = A @ (n, bsz w, ?b # xs) # B" using place_skip [OF N(2)] N(1) by simp
  have bl: "set (blocks (heads ?N)) = insert ?b (set (blocks (heads N)))" using pl N(1) by auto
  have "lists_ok (h\<lparr>mem := m\<rparr>) ?N"
  proof -
    have nr: "ld (h\<lparr>mem := m\<rparr>) r = ld h r" if "k \<in> set (?q # map fst N)" "r \<in> {node_size k, node_next k, node_prev k}" for k r
    proof -
      note x = node_row_not_link [OF t l _ that]
      have "link_next ?b \<in> heap_rows h" "link_prev ?b \<in> heap_rows h"
        using frees_range [of bs c 0] c t by (auto simp: link_at tiling_rows [OF t] tiling_def)
      then show ?thesis using x by (intro m(3)) auto
    qed
    have k: "map fst ?N = map fst N" "map (fst \<circ> snd) ?N = map (fst \<circ> snd) N" unfolding pl by (simp_all add: N(1))
    have i: "\<exists>zs. (k, s, zs) \<in> set N \<and> set ys \<subseteq> insert ?b (set zs) \<and> (?b \<in> set ys \<longrightarrow> ?b \<notin> set zs \<longrightarrow> s = bsz w)"
      if "(k, s, ys) \<in> set ?N" for k s ys
      using that [unfolded pl] unfolding N(1) by auto
    show ?thesis
    proof (rule lists_okI)
      show "nodes_ok (h\<lparr>mem := m\<rparr>) ?N" using d by (intro nodes_ok_cong [OF D(2) k nr]) auto
    next
      fix k s ys b assume a: "(k, s, ys) \<in> set ?N" "b \<in> set ys"
      then have "b \<in> set (blocks (heads ?N))" by (force simp: blocks_def heads_def)
      then obtain d where "d \<in> set (frees 0 bs)" "b = at (base h) d" using bl l(2) c by (auto simp: listed_def)
      then have "ld (h\<lparr>mem := m\<rparr>) b = ld h b" using T(3) by simp
      moreover obtain zs where "(k, s, zs) \<in> set N" "b \<in> set zs \<or> b = ?b \<and> s = bsz w" using i [OF a(1)] a(2) by blast
      then have "\<exists>w. ld h b = Some w \<and> bsz w = s" using D(3) w by blast
      ultimately show "\<exists>w. ld (h\<lparr>mem := m\<rparr>) b = Some w \<and> bsz w = s" by simp
    qed (rule m(2))
  qed
  moreover have "listed h ?N (set (frees 0 bs))" using bl l(2) c by (auto simp: listed_def)
  ultimately have "heap_ok (h\<lparr>mem := m\<rparr>) bs ?N" using T(1) cb by (simp add: heap_ok_def)
  then show ?thesis using e d T(2) by (intro exI [of _ m]) auto
qed


text \<open>There is no list of the size: a new node between \<open>p\<close> and \<open>nx\<close> gets the block.\<close>

lemma sto4:
  "ld g a \<noteq> None \<Longrightarrow> ld g b \<noteq> None \<Longrightarrow> ld g c \<noteq> None \<Longrightarrow> ld g d \<noteq> None \<Longrightarrow>
   do { g \<leftarrow> sto g a w; g \<leftarrow> sto g b x; g \<leftarrow> sto g c y; sto g d z } =
   Some (g\<lparr>mem := (mem g)(a \<mapsto> w, b \<mapsto> x, c \<mapsto> y, d \<mapsto> z)\<rparr>)"
  by (auto simp: sto_def ld_def split: option.splits)

lemma add_then_link:
  assumes d: "distinct [node_size n, node_head n, link_next (node_head n), link_prev (node_head n), node_next n, node_prev n,
      node_prev nx, node_next p, link_next b, link_prev b]"
    and l: "ld h (link_next b) \<noteq> None" "ld h (link_prev b) \<noteq> None"
  shows "\<exists>m. do { g \<leftarrow> sto (add_node h n s p nx) (node_next p) n; g \<leftarrow> sto g (node_prev n) p; link_single g n b } = Some (h\<lparr>mem := m\<rparr>) \<and>
    m (node_size n) = Some s \<and> m (node_next n) = Some nx \<and> m (node_prev n) = Some p \<and> m (node_prev nx) = Some n \<and>
    m (node_next p) = Some n \<and> m (link_next (node_head n)) = Some b \<and> m (link_prev (node_head n)) = Some b \<and>
    m (link_next b) = Some (node_head n) \<and> m (link_prev b) = Some (node_head n) \<and> m (node_head n) = Some 0 \<and>
    (\<forall>r. r \<notin> node_rows n \<union> {node_prev nx, node_next p, link_next b, link_prev b} \<longrightarrow> m r = mem h r)"
proof -
  have r: "node_rows n = {node_size n, node_head n, link_next (node_head n), link_prev (node_head n), node_next n, node_prev n}"
    by (simp add: node_rows_def node_size_def node_head_def link_next_def link_prev_def node_next_def node_prev_def ac_simps)
  define m where "m = (mem h)(node_size n \<mapsto> s, node_head n \<mapsto> 0, node_next n \<mapsto> nx, node_prev nx \<mapsto> n, node_next p \<mapsto> n,
    node_prev n \<mapsto> p, link_next (node_head n) \<mapsto> b, link_prev (node_head n) \<mapsto> b, link_prev b \<mapsto> node_head n, link_next b \<mapsto> node_head n)"
  have l': "\<exists>y. mem h (link_next b) = Some y" "\<exists>y. mem h (link_prev b) = Some y" using l by (auto simp: ld_def)
  let ?g = "add_node h n s p nx"
  have 1: "sto ?g (node_next p) n = Some ?g"
    by (simp add: sto_def add_node_def fun_upd_idem)
  have 2: "sto ?g (node_prev n) p = Some ?g"
    using d by (simp add: sto_def add_node_def fun_upd_idem)
  have e: "mem ?g = (mem h)(node_size n \<mapsto> s, node_head n \<mapsto> 0, link_next (node_head n) \<mapsto> node_head n,
     link_prev (node_head n) \<mapsto> node_head n, node_next n \<mapsto> nx, node_prev n \<mapsto> p, node_prev nx \<mapsto> n, node_next p \<mapsto> n)"
    by (simp add: add_node_def)
  have "link_single ?g n b = Some (?g\<lparr>mem := (mem ?g)(link_next (node_head n) \<mapsto> b, link_prev (node_head n) \<mapsto> b,
      link_prev b \<mapsto> node_head n, link_next b \<mapsto> node_head n)\<rparr>)"
    unfolding link_single_def Let_def
    by (rule sto4) (use l' in \<open>auto simp: ld_def e\<close>)
  also have "?g\<lparr>mem := (mem ?g)(link_next (node_head n) \<mapsto> b, link_prev (node_head n) \<mapsto> b,
      link_prev b \<mapsto> node_head n, link_next b \<mapsto> node_head n)\<rparr> = h\<lparr>mem := m\<rparr>"
  proof -
    have "(mem ?g)(link_next (node_head n) \<mapsto> b, link_prev (node_head n) \<mapsto> b, link_prev b \<mapsto> node_head n, link_next b \<mapsto> node_head n) = m"
      unfolding e m_def by (rule ext) (use d in simp)
    then show ?thesis by (simp add: add_node_def)
  qed
  finally have "do { g \<leftarrow> sto ?g (node_next p) n; g \<leftarrow> sto g (node_prev n) p; link_single g n b } = Some (h\<lparr>mem := m\<rparr>)"
    by (simp add: 1 2)
  moreover have "m (node_size n) = Some s" "m (node_next n) = Some nx" "m (node_prev n) = Some p" "m (node_prev nx) = Some n"
      "m (node_next p) = Some n" "m (link_next (node_head n)) = Some b" "m (link_prev (node_head n)) = Some b"
      "m (link_next b) = Some (node_head n)" "m (link_prev b) = Some (node_head n)" "m (node_head n) = Some 0"
    unfolding m_def using d iffD2 [OF distinct_rev d] by simp_all
  moreover have "m r = mem h r" if "r \<notin> node_rows n \<union> {node_prev nx, node_next p, link_next b, link_prev b}" for r
    using that unfolding r m_def by simp
  ultimately show ?thesis by blast
qed

lemma nseg_insert:
  "nseg h p (as @ bs) q \<Longrightarrow> distinct (p # as @ bs) \<Longrightarrow> q \<notin> set (as @ bs) \<Longrightarrow>
   ld h' (node_next n) = Some (hd (bs @ [q])) \<Longrightarrow> ld h' (node_prev n) = Some (last (p # as)) \<Longrightarrow>
   ld h' (node_next (last (p # as))) = Some n \<Longrightarrow> ld h' (node_prev (hd (bs @ [q]))) = Some n \<Longrightarrow>
   (\<And>x. x \<in> set (p # as @ bs) \<Longrightarrow> x \<noteq> last (p # as) \<Longrightarrow> ld h' (node_next x) = ld h (node_next x)) \<Longrightarrow>
   (\<And>x. x \<in> set (as @ bs @ [q]) \<Longrightarrow> x \<noteq> hd (bs @ [q]) \<Longrightarrow> ld h' (node_prev x) = ld h (node_prev x)) \<Longrightarrow>
   nseg h' p (as @ n # bs) q"
proof (induction as arbitrary: p)
  case Nil
  show ?case
  proof (cases bs)
    case (Cons y ys)
    have "nseg h' y ys q = nseg h y ys q"
      using Nil.prems(2,3,8,9) Cons by (intro nseg_cong) auto
    then show ?thesis using Nil.prems(1,4-7) Cons by simp
  qed (use Nil.prems in simp)
next
  case (Cons a as)
  have "last (a # as) \<noteq> p" using Cons.prems(2) last_in_set [of "a # as"] by auto
  then have "ld h' (node_next p) = ld h (node_next p)" using Cons.prems(8) [of p] by auto
  moreover have "a \<noteq> hd (bs @ [q])" using Cons.prems(2,3) by (cases bs) auto
  then have "ld h' (node_prev a) = ld h (node_prev a)" using Cons.prems(9) [of a] by auto
  moreover have "nseg h' a (as @ n # bs) q"
  proof (rule Cons.IH)
    show "\<And>x. x \<in> set (a # as @ bs) \<Longrightarrow> x \<noteq> last (a # as) \<Longrightarrow> ld h' (node_next x) = ld h (node_next x)"
      using Cons.prems(8) by auto
    show "\<And>x. x \<in> set (as @ bs @ [q]) \<Longrightarrow> x \<noteq> hd (bs @ [q]) \<Longrightarrow> ld h' (node_prev x) = ld h (node_prev x)"
      using Cons.prems(9) by auto
  qed (use Cons.prems in auto)
  ultimately show ?case using Cons.prems(1) by simp
qed

lemma nseg_between: "nseg h p (as @ bs) q \<Longrightarrow> ld h (node_next (last (p # as))) = Some (hd (bs @ [q])) \<and>
    ld h (node_prev (hd (bs @ [q]))) = Some (last (p # as))"
proof (induction as arbitrary: p)
  case Nil
  then show ?case by (cases bs) auto
qed simp

definition new_node :: "sf_ext \<Rightarrow> heap \<Rightarrow> u64 \<Rightarrow> u64 \<Rightarrow> u64 \<Rightarrow> u64 \<Rightarrow> heap option" where
  "new_node E h s p nx b = (case sf_add_free_list E s nx h of (n, h) \<Rightarrow> do {
     h \<leftarrow> sto h (node_next p) n; h \<leftarrow> sto h (node_prev n) p; link_single h n b })"

text \<open>The code reaches this with the neighbours of the place that the order of the sizes gives.\<close>

lemma insert_between:
  assumes w: "ld h b = Some w" and D: "lists_ok h N" and N: "N = A @ B"
    and A: "\<forall>(k, t, xs) \<in> set A. t < bsz w" and B: "\<forall>(k, t, xs) \<in> set B. bsz w < t" and two: "2 \<le> length N" and E: "adds_lists E h"
  shows "free_insert E h b =
    new_node E h (bsz w) (last (free_list_head h # map fst A)) (hd (map fst B @ [free_list_head h])) b"
proof -
  let ?q = "free_list_head h" and ?s = "bsz w"
  let ?y = "hd (map fst B @ [?q])"
  note D = nodes_okD [OF lists_okD(2) [OF D]]
  have L: "nseg h ?q (map fst A @ map fst B) ?q" "?q \<notin> fst ` set A" "?q \<notin> fst ` set B" using D(3,4) N by auto
  have szA: "\<forall>(k, t, xs) \<in> set A. ld h (node_size k) = Some t" and szB: "\<forall>(k, t, xs) \<in> set B. ld h (node_size k) = Some t"
    using D(1) N by auto
  have "insert_scan h ?s b ?y = Some (False, h)"
  proof (cases B)
    case Nil
    then show ?thesis by (subst insert_scan.simps) simp
  next
    case (Cons x B')
    then show ?thesis using szB B L(3) by (subst insert_scan.simps) auto
  qed
  moreover have "insert_scan h ?s b (hd (map fst A @ map fst B @ [?q])) = insert_scan h ?s b ?y"
    using L szA A by (intro insert_scan_skip [of _ ?q]) auto
  moreover have first: "ld h (node_next ?q) = Some (hd (map fst A @ map fst B @ [?q]))" using nseg_firsts [OF L(1)] by simp
  ultimately have "free_insert E h b = insert_new E h ?s b (hd (map fst A @ map fst B @ [?q]))"
    using w by (simp add: free_insert_def)
  also have "\<dots> = new_node E h ?s (last (?q # map fst A)) ?y b"
  proof (cases A rule: rev_cases)
    case Nil
    then obtain k t xs k' B' where B': "B = (k, t, xs) # B'" "hd (map fst B' @ [?q]) = k'" "k' \<noteq> ?q" "k' \<in> fst ` set B'"
      using two N L(3) by (cases B; cases "tl B") auto
    have k: "ld h (node_size k) = Some t" "\<not> t < ?s" "?s < t" "ld h (node_next k) = Some k'" "ld h (node_prev k) = Some ?q" "k \<noteq> ?q"
      using szB B L(1,3) B' Nil nseg_firsts [of h k "map fst B'" ?q] by auto
    moreover obtain t' where "ld h (node_size k') = Some t'" using szB B'(1,4) by auto
    moreover obtain n where "sf_add_free_list E ?s k h = (n, add_node h n ?s ?q k)"
      using E [unfolded adds_lists_def, rule_format, of "mem h" k ?q ?s] k(5) first B' Nil by (auto simp: ld_def)
    ultimately show ?thesis using Nil B'
      by (subst insert_new.simps) (simp add: new_node_def add_node_def sto_def split: option.splits)
  next
    case (snoc A' x)
    obtain l t xs where x: "x = (l, t, xs)" by (cases x)
    have l: "ld h (node_size l) = Some t" "t < ?s" "l \<noteq> ?q" using snoc x szA A L(2) by auto
    have lk: "ld h (node_next l) = Some ?y" using nseg_between [OF L(1)] snoc x by simp
    obtain v where v: "ld h (node_prev l) = Some v" using L(1) snoc x nseg_between [of h ?q "map fst A'" "l # map fst B" ?q] by auto
    have "\<exists>t'. ld h (node_size ?y) = Some t' \<and> (?y = ?q \<or> ?s < t')" using D(5) szB B by (cases B) auto
    then have "insert_new E h ?s b l = new_node E h ?s l ?y b"
      using l lk v by (subst insert_new.simps) (auto simp: new_node_def new_list_after_def Let_def split: prod.splits)
    moreover have "insert_new E h ?s b (hd (map fst A' @ [l])) = insert_new E h ?s b l"
      using L(1,2) szA A snoc x l by (intro insert_new_skip [of _ ?q _ _ "map fst B"]) auto
    moreover have "hd (map fst A @ map fst B @ [?q]) = hd (map fst A' @ [l])" using snoc x by (cases A') auto
    ultimately show ?thesis using snoc x by simp
  qed
  finally show ?thesis .
qed


lemma flists_agree:
  assumes "flists h Ls" "\<And>r. r \<in> link_rows Ls \<Longrightarrow> ld h' r = ld h r"
  shows "flists h' Ls"
proof -
  have "seg h' a xs a" if "(a, xs) \<in> set Ls" for a xs
  proof -
    have n: "set (a # xs) \<subseteq> set (nodes Ls)" using that by (auto simp: nodes_def)
    have "seg h' a xs a = seg h a xs a"
      using n assms(2) by (intro seg_cong) (auto simp: link_rows_def)
    then show ?thesis using assms(1) that by (auto simp: flists_def)
  qed
  then show ?thesis using assms(1) by (auto simp: flists_def)
qed

lemma flists_add:
  assumes "flists h (Ks @ Ls)" "seg h a [b] a" "a \<notin> set (nodes (Ks @ Ls))" "b \<notin> set (nodes (Ks @ Ls))" "a \<noteq> b"
    and "apart (insert a (insert b (set (nodes (Ks @ Ls)))))"
  shows "flists h (Ks @ (a, [b]) # Ls)"
proof -
  have "set (nodes (Ks @ (a, [b]) # Ls)) = insert a (insert b (set (nodes (Ks @ Ls))))" by auto
  then show ?thesis using assms by (auto simp: flists_def)
qed

lemma link_rows_mapped: "flists h Ls \<Longrightarrow> r \<in> link_rows Ls \<Longrightarrow> ld h r \<noteq> None"
proof -
  assume f: "flists h Ls" and r: "r \<in> link_rows Ls"
  have s: "seg h p xs q \<Longrightarrow> x \<in> set (p # xs) \<Longrightarrow> ld h (link_next x) \<noteq> None"
    "seg h p xs q \<Longrightarrow> x \<in> set (xs @ [q]) \<Longrightarrow> ld h (link_prev x) \<noteq> None" for p xs q x
    by (induction xs arbitrary: p) auto
  obtain y a xs where y: "r = link_next y \<or> r = link_prev y" "(a, xs) \<in> set Ls" "y \<in> set (a # xs)"
    using r by (auto simp: link_rows_def nodes_def)
  then have "seg h a xs a" using f by (auto simp: flists_def)
  then show ?thesis using y s [of a xs a y] by auto
qed

lemma next_not_prev:
  assumes "nodes_ok h N" "p \<in> set (free_list_head h # map fst N)" "k \<in> set (free_list_head h # map fst N)"
  shows "node_prev k \<noteq> node_next p \<and> node_next p \<noteq> node_prev k \<and> node_size p \<noteq> node_prev k \<and> node_size k \<noteq> node_next p"
proof (cases "p = k")
  case False
  then show ?thesis using nodes_okD(8) [OF assms False] head_rows [of p] head_rows [of k] by auto
qed (simp add: node_prev_def node_next_def node_size_def)

text \<open>The rows that the insertion of a new node reads and writes do not overlap.\<close>

lemma insert_rows:
  assumes t: "tiling h bs" and l: "nodes_ok h N" and c: "c \<in> set (frees 0 bs)"
    and p: "p \<in> set (free_list_head h # map fst N)" "nx \<in> set (free_list_head h # map fst N)"
    and n: "node_rows n \<inter> (dom (mem h) \<union> heap_rows h) = {}"
  shows "distinct [node_size n, node_head n, link_next (node_head n), link_prev (node_head n), node_next n, node_prev n,
      node_prev nx, node_next p, link_next (at (base h) c), link_prev (at (base h) c)]"
proof -
  note D = nodes_okD [OF l]
  have hr: "link_next (at (base h) c) \<in> heap_rows h" "link_prev (at (base h) c) \<in> heap_rows h"
    using frees_range [of bs c 0] c t by (auto simp: link_at tiling_rows [OF t] tiling_def)
  have "node_rows p \<subseteq> dom (mem h)" "node_rows nx \<subseteq> dom (mem h)" "node_rows p \<inter> heap_rows h = {}" "node_rows nx \<inter> heap_rows h = {}"
    using D(6,7) [OF p(1)] D(6,7) [OF p(2)] by auto
  then have o: "node_next p \<notin> node_rows n" "node_prev nx \<notin> node_rows n" "link_next (at (base h) c) \<notin> node_rows n"
      "link_prev (at (base h) c) \<notin> node_rows n" "node_next p \<notin> heap_rows h" "node_prev nx \<notin> heap_rows h"
    using n hr head_rows [of p] head_rows [of nx] by blast+
  note pn = next_not_prev [OF l p]
  have r: "node_rows n = {node_size n, node_head n, link_next (node_head n), link_prev (node_head n), node_next n, node_prev n}"
    by (simp add: node_rows_def node_size_def node_head_def link_next_def link_prev_def node_next_def node_prev_def ac_simps)
  have "distinct [node_size n, node_head n, link_next (node_head n), link_prev (node_head n), node_next n, node_prev n]"
    by (simp add: node_size_def node_head_def link_next_def link_prev_def node_next_def node_prev_def)
  moreover have "link_next (at (base h) c) \<noteq> link_prev (at (base h) c)" by simp
  moreover have "node_prev nx \<noteq> link_next (at (base h) c)" "node_prev nx \<noteq> link_prev (at (base h) c)"
    "node_next p \<noteq> link_next (at (base h) c)" "node_next p \<noteq> link_prev (at (base h) c)"
    using o(5,6) hr by auto
  ultimately show ?thesis using o(1-4) pn unfolding r by auto
qed

text \<open>The new node is part of the ring, its list has one block, and little else has changed.\<close>

text \<open>A node whose rows are new, linked between its neighbours, extends the ring.\<close>

lemma nodes_ok_insert:
  assumes o: "nodes_ok h N" and N: "N = A @ B" "\<forall>(k, t, xs) \<in> set A. t < s" "\<forall>(k, t, xs) \<in> set B. s < t"
    and p: "p = last (free_list_head h # map fst A)" "nx = hd (map fst B @ [free_list_head h])"
    and n: "node_rows n \<inter> (dom (mem h) \<union> heap_rows h) = {}" and dm: "dom (mem h) \<subseteq> dom m" "node_rows n \<subseteq> dom m"
    and m: "m (node_size n) = Some s" "m (node_next n) = Some nx" "m (node_prev n) = Some p" "m (node_prev nx) = Some n" "m (node_next p) = Some n"
    and ns: "\<And>k r. k \<in> set (free_list_head h # map fst N) \<Longrightarrow> r \<in> node_rows k \<Longrightarrow> r \<noteq> node_prev nx \<Longrightarrow> r \<noteq> node_next p \<Longrightarrow>
      ld (h\<lparr>mem := m\<rparr>) r = ld h r"
  shows "nodes_ok (h\<lparr>mem := m\<rparr>) (A @ (n, s, xs) # B)"
proof -
  let ?q = "free_list_head h" and ?h = "h\<lparr>mem := m\<rparr>" and ?N = "A @ (n, s, xs) # B"
  note D = nodes_okD [OF o]
  have ring: "nseg h ?q (map fst A @ map fst B) ?q" using D(3) N(1) by simp
  have pin: "p \<in> set (?q # map fst N)" "nx \<in> set (?q # map fst N)"
  proof -
    have "p \<in> set (?q # map fst A)" "nx \<in> set (map fst B @ [?q])" unfolding p by (rule last_in_set hd_in_set; simp)+
    then show "p \<in> set (?q # map fst N)" "nx \<in> set (?q # map fst N)" unfolding N(1) by auto
  qed
  have nn: "n \<notin> set (?q # map fst N)"
  proof
    assume "n \<in> set (?q # map fst N)"
    then have "node_rows n \<subseteq> dom (mem h)" by (rule D(7))
    then show False using n head_rows [of n] by blast
  qed
  have ring': "nseg ?h ?q (map fst A @ n # map fst B) ?q"
  proof (rule nseg_insert [OF ring])
    fix x assume "x \<in> set (?q # map fst A @ map fst B)" "x \<noteq> last (?q # map fst A)"
    then have x: "x \<in> set (?q # map fst N)" "x \<noteq> p" by (simp_all add: N(1) p(1))
    have "node_next x \<noteq> node_next p" using x(2) by (simp add: node_next_def)
    then show "ld ?h (node_next x) = ld h (node_next x)"
      using ns [OF x(1)] next_not_prev [OF o x(1) pin(2)] head_rows [of x] by blast
  next
    fix x assume "x \<in> set (map fst A @ map fst B @ [?q])" "x \<noteq> hd (map fst B @ [?q])"
    then have x: "x \<in> set (?q # map fst N)" "x \<noteq> nx" by (auto simp: N(1) p(2))
    have "node_prev x \<noteq> node_prev nx" using x(2) by (simp add: node_prev_def)
    then show "ld ?h (node_prev x) = ld h (node_prev x)"
      using ns [OF x(1)] next_not_prev [OF o pin(1) x(1)] head_rows [of x] by blast
  qed (use D(4) m N(1) in \<open>simp_all add: ld_def p\<close>)
  have sz: "ld ?h (node_size k) = ld h (node_size k)" if k: "k \<in> set (?q # map fst N)" for k
    using next_not_prev [OF o k pin(2)] next_not_prev [OF o pin(1) k] head_rows [of k]
    by (intro ns [OF k]) auto
  show "nodes_ok ?h ?N"
  proof (rule nodes_okI)
    fix k s' ys assume "(k, s', ys) \<in> set ?N"
    then consider "k = n" "s' = s" | "(k, s', ys) \<in> set N" using N(1) by auto
    then show "ld ?h (node_size k) = Some s'"
    proof cases
      case 2
      then have "k \<in> set (?q # map fst N)" by (force intro: rev_image_eqI)
      then show ?thesis using sz D(1) [OF 2] by simp
    qed (use m(1) in \<open>simp add: ld_def\<close>)
  next
    show "sorted_wrt (<) (map (fst \<circ> snd) ?N)" using D(2) N by (force simp: sorted_wrt_append)
  next
    fix k assume k: "k \<in> set (free_list_head ?h # map fst ?N)"
    then have kn: "k = n \<or> k \<in> set (?q # map fst N)" using N(1) by auto
    then show "node_rows k \<inter> heap_rows ?h = {}" using D(6) [of k] n by auto
    have "node_rows k \<subseteq> dom m" using kn D(7) [of k] dm by blast
    then show "node_rows k \<subseteq> dom (mem ?h)" by simp
    fix j assume j: "j \<in> set (free_list_head ?h # map fst ?N)" "k \<noteq> j"
    then have "j = n \<or> j \<in> set (?q # map fst N)" using N(1) by auto
    then show "node_rows k \<inter> node_rows j = {}"
      using kn j(2) D(7) [of k] D(7) [of j] D(8) [of k j] n by blast
  qed (use ring' nn D(4,5) sz [of ?q] N(1) in auto)
qed

lemma new_node_runs:
  assumes t: "tiling h bs" and o: "nodes_ok h N" and c: "c \<in> set (frees 0 bs)" and E: "adds_lists E h"
    and N: "N = A @ B" "\<forall>(k, t, xs) \<in> set A. t < s" "\<forall>(k, t, xs) \<in> set B. s < t"
    and p: "p = last (free_list_head h # map fst A)" "nx = hd (map fst B @ [free_list_head h])"
    and b: "b = at (base h) c" "ld h (link_next b) \<noteq> None" "ld h (link_prev b) \<noteq> None"
  shows "\<exists>m n. new_node E h s p nx b = Some (h\<lparr>mem := m\<rparr>) \<and> node_rows n \<inter> (dom (mem h) \<union> heap_rows h) = {} \<and>
    dom (mem h) \<subseteq> dom m \<and> nodes_ok (h\<lparr>mem := m\<rparr>) (A @ (n, s, [b]) # B) \<and> seg (h\<lparr>mem := m\<rparr>) (node_head n) [b] (node_head n) \<and>
    (\<forall>r. r \<notin> node_rows n \<union> {node_prev nx, node_next p, link_next b, link_prev b} \<longrightarrow> ld (h\<lparr>mem := m\<rparr>) r = ld h r)"
proof -
  let ?q = "free_list_head h"
  note D = nodes_okD [OF o]
  have ring: "nseg h ?q (map fst A @ map fst B) ?q" using D(3) N(1) by simp
  have pin: "p \<in> set (?q # map fst N)" "nx \<in> set (?q # map fst N)"
  proof -
    have "p \<in> set (?q # map fst A)" "nx \<in> set (map fst B @ [?q])" unfolding p by (rule last_in_set hd_in_set; simp)+
    then show "p \<in> set (?q # map fst N)" "nx \<in> set (?q # map fst N)" unfolding N(1) by auto
  qed
  have bt: "ld h (node_next p) = Some nx" "ld h (node_prev nx) = Some p"
    using nseg_between [OF ring] unfolding p by simp_all
  obtain n where n: "sf_add_free_list E s nx h = (n, add_node h n s p nx)" "node_rows n \<inter> (dom (mem h) \<union> heap_rows h) = {}"
    using E [unfolded adds_lists_def, rule_format, of "mem h" nx p s] bt by (auto simp: ld_def)
  from add_then_link [OF insert_rows [OF t o c pin n(2)] b(2,3) [unfolded b(1)], of s, folded b(1)]
  obtain m where m: "do { g \<leftarrow> sto (add_node h n s p nx) (node_next p) n; g \<leftarrow> sto g (node_prev n) p; link_single g n b } = Some (h\<lparr>mem := m\<rparr>)"
    "m (node_size n) = Some s" "m (node_next n) = Some nx" "m (node_prev n) = Some p" "m (node_prev nx) = Some n"
    "m (node_next p) = Some n" "m (link_next (node_head n)) = Some b" "m (link_prev (node_head n)) = Some b"
    "m (link_next b) = Some (node_head n)" "m (link_prev b) = Some (node_head n)" "m (node_head n) = Some 0"
    "\<And>r. r \<notin> node_rows n \<union> {node_prev nx, node_next p, link_next b, link_prev b} \<Longrightarrow> m r = mem h r"
    by blast
  let ?h = "h\<lparr>mem := m\<rparr>" and ?N = "A @ (n, s, [b]) # B"
  have same: "ld ?h r = ld h r" if "r \<notin> node_rows n \<union> {node_prev nx, node_next p, link_next b, link_prev b}" for r
    using m(12) [OF that] by (simp add: ld_def)
  have rows: "node_rows n = {node_size n, node_head n, link_next (node_head n), link_prev (node_head n), node_next n, node_prev n}"
    by (simp add: node_rows_def node_size_def node_head_def link_next_def link_prev_def node_next_def node_prev_def ac_simps)
  have dm: "dom (mem h) \<subseteq> dom m" "node_rows n \<subseteq> dom m"
  proof -
    show "node_rows n \<subseteq> dom m" unfolding rows using m(2-11) by auto
    have "m r \<noteq> None" if "mem h r \<noteq> None" for r
      using that m(2-11) m(12) [of r] unfolding rows by (cases "r \<in> node_rows n \<union> {node_prev nx, node_next p, link_next b, link_prev b}") (auto simp: rows)
    then show "dom (mem h) \<subseteq> dom m" by auto
  qed
  have heap: "link_next b \<in> heap_rows h" "link_prev b \<in> heap_rows h"
    using frees_range [of bs c 0] c t b(1) by (auto simp: link_at tiling_rows [OF t] tiling_def)
  have ns: "ld ?h r = ld h r" if "k \<in> set (?q # map fst N)" "r \<in> node_rows k" "r \<noteq> node_prev nx" "r \<noteq> node_next p" for k r
    using D(6,7) [OF that(1)] that(2-4) n(2) heap by (intro same) blast
  have "nodes_ok ?h ?N"
    by (rule nodes_ok_insert [OF o N p n(2) _ _ _ _ _ _ _ ns]) (use dm m(2-6) in auto)
  moreover have "new_node E h s p nx b = Some ?h" using n(1) m(1) by (simp add: new_node_def)
  moreover have "seg ?h (node_head n) [b] (node_head n)" using m(7-10) by (simp add: ld_def)
  ultimately show ?thesis using n(2) dm(1) same by blast
qed

lemma outside_new_node:
  assumes t: "tiling h bs" and o: "nodes_ok h N" and c: "c \<in> set (frees 0 bs)"
    and pin: "p \<in> set (free_list_head h # map fst N)" "nx \<in> set (free_list_head h # map fst N)"
    and n: "node_rows n \<inter> (dom (mem h) \<union> heap_rows h) = {}" and x: "x < extent bs + 8" "x \<notin> links 0 bs"
  shows "at (base h) x \<notin> node_rows n \<union> {node_prev nx, node_next p, link_next (at (base h) c), link_prev (at (base h) c)}"
proof -
  have "at (base h) x \<in> heap_rows h" using x(1) by (simp add: tiling_rows [OF t])
  moreover have "node_prev nx \<notin> heap_rows h" "node_next p \<notin> heap_rows h"
    using nodes_okD(6) [OF o pin(1)] nodes_okD(6) [OF o pin(2)] head_rows [of p] head_rows [of nx] by blast+
  moreover have "x \<noteq> c + 8" "x \<noteq> c + 16" "c + 32 \<le> extent bs" "extent bs < 2 ^ 31"
    using x(2) c frees_range [of bs c 0] t by (auto simp: links_def tiling_def)
  then have "at (base h) x \<noteq> link_next (at (base h) c)" "at (base h) x \<noteq> link_prev (at (base h) c)"
    using x(1) by (simp_all add: link_at at_inj)
  ultimately show ?thesis using n by auto
qed

lemma new_node_heap:
  assumes t: "tiling h bs" and l: "lists_ok h N" "listed h N (set (frees 0 bs) - {c})" and c: "c \<in> set (frees 0 bs)"
    and w: "ld h (at (base h) c) = Some w" and E: "adds_lists E h" and cb: "compact bs"
    and N: "N = A @ B" "\<forall>(k, t, xs) \<in> set A. t < bsz w" "\<forall>(k, t, xs) \<in> set B. bsz w < t"
  shows "\<exists>m n. new_node E h (bsz w) (last (free_list_head h # map fst A)) (hd (map fst B @ [free_list_head h])) (at (base h) c) = Some (h\<lparr>mem := m\<rparr>) \<and>
    dom (mem h) \<subseteq> dom m \<and>
    heap_ok (h\<lparr>mem := m\<rparr>) bs (place (bsz w) (at (base h) c) n N) \<and>
    (\<forall>x \<in> payload 0 bs. ld (h\<lparr>mem := m\<rparr>) (at (base h) x) = ld h (at (base h) x))"
proof -
  let ?q = "free_list_head h" and ?b = "at (base h) c" and ?s = "bsz w"
  define p nx where "p = last (?q # map fst A)" and "nx = hd (map fst B @ [?q])"
  note D = lists_okD [OF l(1)] and O = nodes_okD [OF lists_okD(2) [OF l(1)]] and ap = free_block_apart [OF t l c]
  obtain m n where m: "new_node E h ?s p nx ?b = Some (h\<lparr>mem := m\<rparr>)" "node_rows n \<inter> (dom (mem h) \<union> heap_rows h) = {}"
    "dom (mem h) \<subseteq> dom m" "nodes_ok (h\<lparr>mem := m\<rparr>) (A @ (n, ?s, [?b]) # B)" "seg (h\<lparr>mem := m\<rparr>) (node_head n) [?b] (node_head n)"
    "\<And>r. r \<notin> node_rows n \<union> {node_prev nx, node_next p, link_next ?b, link_prev ?b} \<Longrightarrow> ld (h\<lparr>mem := m\<rparr>) r = ld h r"
    using new_node_runs [OF t D(2) c E N p_def nx_def refl ap(3,4)] by blast
  let ?h = "h\<lparr>mem := m\<rparr>" and ?N = "A @ (n, ?s, [?b]) # B"
  note n = m(2) and same = m(6)
  have pin: "p \<in> set (?q # map fst N)" "nx \<in> set (?q # map fst N)"
  proof -
    have "p \<in> set (?q # map fst A)" "nx \<in> set (map fst B @ [?q])" unfolding p_def nx_def by (rule last_in_set hd_in_set; simp)+
    then show "p \<in> set (?q # map fst N)" "nx \<in> set (?q # map fst N)" unfolding N(1) by auto
  qed
  have heap: "link_next ?b \<in> heap_rows h" "link_prev ?b \<in> heap_rows h" "?b \<in> heap_rows h"
    using frees_range [of bs c 0] c t by (auto simp: link_at tiling_rows [OF t] tiling_def)
  have fr: "ld ?h (at (base h) x) = ld h (at (base h) x)" if "x < extent bs + 8" "x \<notin> links 0 bs" for x
    by (rule same) (rule outside_new_node [OF t D(2) c pin n that])
  note T = tiling_links [OF t fr m(3)]
  have lm: "r \<notin> node_rows n" if "r \<in> link_rows (heads N)" for r
    using link_rows_mapped [OF D(1) that] n by (auto simp: ld_def)
  have lr: "ld ?h r = ld h r" if "r \<in> link_rows (heads N)" for r
  proof (rule same)
    have "node_prev nx \<notin> link_rows (heads N)" "node_next p \<notin> link_rows (heads N)"
      using node_row_not_link [OF t l _ pin(2)] node_row_not_link [OF t l _ pin(1)] by auto
    then show "r \<notin> node_rows n \<union> {node_prev nx, node_next p, link_next ?b, link_prev ?b}"
      using that lm [OF that] ap(5,6) by auto
  qed
  have fl: "flists ?h (heads ?N)"
  proof -
    have hn: "node_head n \<notin> set (nodes (heads N))"
    proof
      assume "node_head n \<in> set (nodes (heads N))"
      then have "link_next (node_head n) \<in> link_rows (heads N)" by (auto simp: link_rows_def)
      then show False using lm head_rows [of n] by blast
    qed
    have nl: "link_next (node_head n) \<noteq> link_prev y" "link_next y \<noteq> link_prev (node_head n)"
      if "y \<in> insert (node_head n) (insert ?b (set (nodes (heads N))))" for y
    proof -
      have "link_prev y \<notin> node_rows n \<and> link_next y \<notin> node_rows n" if "y \<noteq> node_head n"
        using that \<open>y \<in> _\<close> lm heap n by (auto simp: link_rows_def)
      then show "link_next (node_head n) \<noteq> link_prev y" "link_next y \<noteq> link_prev (node_head n)"
        using head_rows [of n] by (cases "y = node_head n"; auto)+
    qed
    have "apart (insert (node_head n) (insert ?b (set (nodes (heads N)))))"
      using ap(2) nl by (fastforce simp: apart_def)
    moreover have "node_head n \<in> node_rows n" by (simp add: node_rows_def node_head_def)
    then have "node_head n \<noteq> ?b" using heap(3) n by auto
    moreover have "flists ?h (heads N)" by (rule flists_agree [OF D(1) lr])
    ultimately show ?thesis using flists_add [of ?h "heads A" "heads B" "node_head n" ?b] m(5) hn ap(1) by (simp add: N(1))
  qed
  have pl: "place ?s ?b n N = ?N"
    using place_skip [OF N(2), of ?b n B] N(1,3) by (cases B) auto
  have "lists_ok ?h ?N"
  proof (rule lists_okI [OF fl m(4)])
    fix k s' ys b assume a: "(k, s', ys) \<in> set ?N" "b \<in> set ys"
    have "b \<in> insert ?b (set (blocks (heads N)))" using a N(1) by (fastforce simp: blocks_def heads_def)
    then obtain d where "d \<in> set (frees 0 bs)" "b = at (base h) d" using l(2) c by (auto simp: listed_def)
    then have "ld ?h b = ld h b" using T(3) by simp
    moreover have "\<exists>w. ld h b = Some w \<and> bsz w = s'" using a w D(3) [of k s' ys b] N(1) by auto
    ultimately show "\<exists>w. ld ?h b = Some w \<and> bsz w = s'" by simp
  qed
  moreover have "listed h ?N (set (frees 0 bs))" using l(2) c N(1) by (auto simp: listed_def)
  ultimately have "heap_ok ?h bs ?N" using T(1) cb by (simp add: heap_ok_def)
  then show ?thesis using m(1) [unfolded p_def nx_def] m(3) T(2) pl by (intro exI [of _ m] exI [of _ n]) auto
qed

lemma insert_fresh:
  assumes t: "tiling h bs" and l: "lists_ok h N" "listed h N (set (frees 0 bs) - {c})" and c: "c \<in> set (frees 0 bs)"
    and w: "ld h (at (base h) c) = Some w" and E: "adds_lists E h" and two: "2 \<le> length N" and cb: "compact bs"
    and N: "N = A @ B" "\<forall>(k, t, xs) \<in> set A. t < bsz w" "\<forall>(k, t, xs) \<in> set B. bsz w < t"
  shows "\<exists>m n. free_insert E h (at (base h) c) = Some (h\<lparr>mem := m\<rparr>) \<and> dom (mem h) \<subseteq> dom m \<and>
    heap_ok (h\<lparr>mem := m\<rparr>) bs (place (bsz w) (at (base h) c) n N) \<and>
    (\<forall>x \<in> payload 0 bs. ld (h\<lparr>mem := m\<rparr>) (at (base h) x) = ld h (at (base h) x))"
  using new_node_heap [OF t l c w E cb N] insert_between [OF w l(1) N two E] by simp


lemma sorted_wrt_less_split:
  assumes "sorted_wrt (<) (map (fst \<circ> snd) (A @ (k, t, xs) # B))" "s \<le> t" "t \<noteq> s"
  shows "\<forall>(k, t, xs) \<in> set ((k, t, xs) # B). s < (t :: u64)"
  using assms by (auto simp: sorted_wrt_append)

lemma free_insert_ok:
  assumes t: "tiling h bs" and l: "lists_ok h N" "listed h N (set (frees 0 bs) - {c})" and c: "c \<in> set (frees 0 bs)"
    and w: "ld h (at (base h) c) = Some w" and E: "adds_lists E h" and two: "2 \<le> length N" and cb: "compact bs"
  shows "\<exists>m n. free_insert E h (at (base h) c) = Some (h\<lparr>mem := m\<rparr>) \<and> dom (mem h) \<subseteq> dom m \<and>
    heap_ok (h\<lparr>mem := m\<rparr>) bs (place (bsz w) (at (base h) c) n N) \<and>
    (\<forall>x \<in> payload 0 bs. ld (h\<lparr>mem := m\<rparr>) (at (base h) x) = ld h (at (base h) x))"
proof -
  have so: "sorted_wrt (<) (map (fst \<circ> snd) N)" using nodes_okD(2) [OF lists_okD(2) [OF l(1)]] .
  obtain A B where N: "N = A @ B" "\<forall>(k, t, xs) \<in> set A. t < bsz w" "\<forall>(k, t, xs) \<in> set B. bsz w \<le> t"
    using split_sizes [OF so, of "bsz w"] by blast
  show ?thesis
  proof (cases "\<exists>k xs B'. B = (k, bsz w, xs) # B'")
    case True
    then show ?thesis using insert_existing [OF t l c w cb _ N(2)] N(1) by blast
  next
    case False
    have "\<forall>(k, t, xs) \<in> set B. bsz w < t"
    proof (cases B)
      case (Cons x B')
      obtain k t xs where x: "x = (k, t, xs)" by (cases x)
      have "bsz w \<le> t" "t \<noteq> bsz w" using N(3) False Cons x by auto
      then show ?thesis using sorted_wrt_less_split [of A k t xs B' "bsz w"] so unfolding N(1) Cons x by blast
    qed simp
    then show ?thesis using insert_fresh [OF t l c w E two cb N(1,2)] by blast
  qed
qed

subsection \<open>Freeing\<close>

text \<open>The blocks after freeing the one of \<open>n\<close> bytes between \<open>ls\<close> and \<open>rs\<close>.\<close>

fun join_left :: "ablock list \<Rightarrow> nat \<Rightarrow> ablock list" where
  "join_left (Free k # ls) n = Free (k + n) # ls"
| "join_left ls n = Free n # ls"

fun released :: "ablock list \<Rightarrow> nat \<Rightarrow> ablock list \<Rightarrow> ablock list" where
  "released ls n (Free j # rs) = rev (join_left (rev ls) (n + j)) @ rs"
| "released ls n rs = rev (join_left (rev ls) n) @ rs"

lemma sublists_length: "sublists N' N \<Longrightarrow> length N' = length N"
  unfolding sublists_def by (rule list_all2_lengthD)

lemma free_merged:
  assumes h: "heap_ok h (ls @ M @ rs) N" and mg: "merged h ls M rs N pp" and v: "valid_pointer h pp = Some True"
    and E: "adds_lists E h" and two: "2 \<le> length N" and cb: "compact (ls @ Free (extent M) # rs)"
  shows "\<exists>m N'. sf_free E h pp = Some (Done (h\<lparr>mem := m\<rparr>)) \<and> heap_ok (h\<lparr>mem := m\<rparr>) (ls @ Free (extent M) # rs) N' \<and>
    (\<forall>x \<in> payload 0 ls \<union> payload (extent ls + extent M) rs. ld (h\<lparr>mem := m\<rparr>) (at (base h) x) = ld h (at (base h) x))"
proof -
  let ?bs = "ls @ Free (extent M) # rs"
  obtain m N1 where m: "coalesce h pp = Some (at (base h) (extent ls), h\<lparr>mem := m\<rparr>)" "dom m = dom (mem h)"
    "tiling (h\<lparr>mem := m\<rparr>) ?bs" "lists_ok (h\<lparr>mem := m\<rparr>) N1" "sublists N1 N"
    "listed h N1 (set (frees 0 ls) \<union> set (frees (extent ls + extent M) rs))"
    "\<forall>x \<in> payload 0 ls \<union> payload (extent ls + extent M) rs. ld (h\<lparr>mem := m\<rparr>) (at (base h) x) = ld h (at (base h) x)"
    using mg unfolding merged_def by blast
  let ?h = "h\<lparr>mem := m\<rparr>"
  have s: "sized ls" "sized rs" "32 \<le> extent M" using m(3) by (simp_all add: tiling_def)
  have "set (frees 0 ls) \<union> set (frees (extent ls + extent M) rs) = set (frees 0 ?bs) - {extent ls}"
    using frees_range [OF s(1), of _ 0] frees_range [OF s(2), of _ "extent ls + extent M"] s(3) by fastforce
  then have l: "listed ?h N1 (set (frees 0 ?bs) - {extent ls})" using m(6) by simp
  obtain w where w: "ld ?h (at (base ?h) (extent ls)) = Some w"
    using tiling_block [OF m(3)] by (auto simp: block_at_def)
  have E': "adds_lists E ?h" using E m(2) unfolding adds_lists_def by simp
  have c: "extent ls \<in> set (frees 0 ?bs)" by simp
  have two': "2 \<le> length N1" using two sublists_length [OF m(5)] by simp
  from free_insert_ok [OF m(3,4) l c w E' two' cb]
  obtain m' n where i: "free_insert E ?h (at (base h) (extent ls)) = Some (h\<lparr>mem := m'\<rparr>)"
    "heap_ok (h\<lparr>mem := m'\<rparr>) ?bs (place (bsz w) (at (base h) (extent ls)) n N1)"
    "\<forall>x \<in> payload 0 ?bs. ld (h\<lparr>mem := m'\<rparr>) (at (base h) x) = ld ?h (at (base h) x)"
    by auto
  have "sf_free E h pp = Some (Done (h\<lparr>mem := m'\<rparr>))" using v m(1) i(1) by (simp add: sf_free_def)
  then show ?thesis using i(2,3) m(7) by (intro exI conjI) (auto simp del: ld_mem)
qed

lemma last_free: "\<not> last_used True ls \<Longrightarrow> \<exists>ls' k. ls = ls' @ [Free k]"
  by (cases ls rule: rev_cases; cases "last ls") (auto simp: last_used_def)

lemma compact_append [simp]:
  "compact (xs @ B # ys) \<longleftrightarrow> compact xs \<and> compact (B # ys) \<and> (xs = [] \<or> used (last xs) \<or> used B)"
  by (auto simp: compact_def successively_append_iff)

lemma compact_Cons: "compact (B # ys) \<longleftrightarrow> compact ys \<and> (ys = [] \<or> used B \<or> used (hd ys))"
  by (cases ys) (auto simp: compact_def)

lemma last_used_True: "last_used True ls \<longleftrightarrow> ls = [] \<or> used (last ls)"
  by (simp add: last_used_def)

text \<open>C11: On a heap whose headers and footers tile it with blocks, whose free lists hold exactly the
  free blocks, and in which no two free blocks are neighbours, \<open>sf_free\<close> of the address of an allocated block
  succeeds. The block becomes free and is merged with its free neighbours, it is in the list of its new
  size, the heap again satisfies all of this, and the payload of every other block is unchanged.
  (There are at least two lists: with a single larger one, the code appends out of order.)\<close>

theorem sf_free_correct:
  assumes h: "heap_ok h (ls @ Used n r # rs) N" and E: "adds_lists E h" and two: "2 \<le> length N"
  shows "\<exists>m N'. sf_free E h (at (base h) (extent ls + 8)) = Some (Done (h\<lparr>mem := m\<rparr>)) \<and>
    heap_ok (h\<lparr>mem := m\<rparr>) (released ls n rs) N' \<and>
    (\<forall>x \<in> payload 0 ls \<union> payload (extent ls + n) rs. ld (h\<lparr>mem := m\<rparr>) (at (base h) x) = ld h (at (base h) x))"
proof -
  have t: "tiling h (ls @ Used n r # rs)" and l: "lists_ok h N" "listed h N (set (frees 0 (ls @ Used n r # rs)))"
    and cb: "compact ls" "compact rs"
    using h by (auto simp: heap_ok_def compact_Cons)
  note v = valid_pointer_tiled [OF t]
  show ?thesis
  proof (cases "last_used True ls"; cases "rs = [] \<or> used (hd rs)")
    assume u: "last_used True ls" "rs = [] \<or> used (hd rs)"
    have "merged h ls [Used n r] rs N (at (base h) (extent ls + 8))" using release_alone [of h ls n r rs N] t l u by simp
    from free_merged [OF _ this v E two] h show ?thesis
      using u cb by (cases rs; cases "hd rs"; cases ls rule: rev_cases; cases "last ls") (auto simp: compact_Cons last_used_True)
  next
    assume u: "last_used True ls" "\<not> (rs = [] \<or> used (hd rs))"
    then obtain j rs' where rs: "rs = Free j # rs'" by (cases rs; cases "hd rs") auto
    then have u': "rs' = [] \<or> used (hd rs')" using cb by (simp add: compact_Cons)
    have "merged h ls [Used n r, Free j] rs' N (at (base h) (extent ls + 8))"
      using release_next [of h ls n r j rs' N] t l u(1) u' rs by simp
    from free_merged [OF _ this v E two] h show ?thesis
      using u cb u' by (cases ls rule: rev_cases; cases "last ls") (auto simp: compact_Cons last_used_True rs add.assoc)
  next
    assume u: "\<not> last_used True ls" "rs = [] \<or> used (hd rs)"
    then obtain k ls' where ls: "ls = ls' @ [Free k]" using last_free by blast
    have "merged h ls' [Free k, Used n r] rs N (at (base h) (extent ls + 8))"
      using release_prev [of h ls' k n r rs N] t l u(2) ls by simp
    from free_merged [OF _ this v E two] h show ?thesis
      using u cb by (cases rs; cases "hd rs") (auto simp: compact_Cons ls add.assoc)
  next
    assume u: "\<not> last_used True ls" "\<not> (rs = [] \<or> used (hd rs))"
    then obtain k ls' j rs' where e: "ls = ls' @ [Free k]" "rs = Free j # rs'" using last_free [of ls] by (cases rs; cases "hd rs") auto
    then have u': "rs' = [] \<or> used (hd rs')" using cb by (simp add: compact_Cons)
    have "merged h ls' [Free k, Used n r, Free j] rs' N (at (base h) (extent ls + 8))"
      using release_both [of h ls' k n r j rs' N] t l u' e by simp
    from free_merged [OF _ this v E two] h show ?thesis
      using u cb u' by (auto simp: compact_Cons e add.assoc)
  qed
qed

end
