(* ===== verification/Sf_Epilogue.thy ===== *)
theory Sf_Epilogue
  imports Sf_Release
begin

text \<open>
  The code writes the allocated bit of a new epilogue and leaves the rest of the word as it was in the
  page. The lemmas here let a heap with another word in the place of the epilogue (\<open>soil\<close>) take the
  steps of the heap with the proper one: no operation on the lists reads or writes that row.
\<close>

definition soil :: "u64 \<Rightarrow> u64 \<Rightarrow> heap \<Rightarrow> heap" where
  "soil e d h = h\<lparr>mem := (mem h)(e \<mapsto> d)\<rparr>"

lemma soil_simps [simp]:
  "mem (soil e d h) = (mem h)(e \<mapsto> d)" "mem_start (soil e d h) = mem_start h" "mem_end (soil e d h) = mem_end h"
  "free_list_head (soil e d h) = free_list_head h" "base (soil e d h) = base h" "heap_rows (soil e d h) = heap_rows h"
  "listed (soil e d h) N C = listed h N C"
  by (simp_all add: soil_def)

lemma ld_soil [simp]: "ld (soil e d h) r = (if r = e then Some d else ld h r)"
  by (simp add: ld_def)

lemma soil_sto: "r \<noteq> e \<Longrightarrow> sto (soil e d h) r v = map_option (soil e d) (sto h r v)"
  by (simp add: sto_def soil_def fun_upd_twist split: option.splits)

lemma soil_add_node:
  assumes "e \<notin> node_rows n \<union> {node_prev nx, node_next p}"
  shows "add_node (soil e d h) n s p nx = soil e d (add_node h n s p nx)"
proof -
  have "e \<notin> {node_size n, node_head n, link_next (node_head n), link_prev (node_head n), node_next n, node_prev n, node_prev nx, node_next p}"
    using assms head_rows [of n] by (auto simp: node_rows_def node_head_def)
  then have "mem (add_node (soil e d h) n s p nx) = mem (soil e d (add_node h n s p nx))"
    by (auto simp: add_node_def fun_eq_iff)
  then show ?thesis by (simp add: add_node_def soil_def)
qed

lemma soil_link_single:
  assumes "e \<notin> node_rows n \<union> {link_next b, link_prev b}"
  shows "link_single (soil e d h) n b = map_option (soil e d) (link_single h n b)"
proof -
  have "link_next (node_head n) \<noteq> e" "link_prev (node_head n) \<noteq> e" "link_next b \<noteq> e" "link_prev b \<noteq> e"
    using assms head_rows [of n] by auto
  then show ?thesis
    by (auto simp: link_single_def Let_def soil_sto map_option_case split: option.splits Option.bind_splits)
qed

lemma soil_new_node:
  assumes n: "sf_add_free_list E s nx (soil e d h) = (n, add_node (soil e d h) n s p nx)"
      "sf_add_free_list E' s nx h = (n, add_node h n s p nx)"
    and e: "e \<notin> node_rows n \<union> {node_prev nx, node_next p, link_next b, link_prev b}"
  shows "new_node E (soil e d h) s p nx b = map_option (soil e d) (new_node E' h s p nx b)"
proof -
  have "node_prev n \<noteq> e" "node_next p \<noteq> e" "e \<notin> node_rows n \<union> {link_next b, link_prev b}"
    using e head_rows [of n] by auto
  moreover have "add_node (soil e d h) n s p nx = soil e d (add_node h n s p nx)" using e by (intro soil_add_node) auto
  ultimately show ?thesis unfolding new_node_def n
    by (auto simp: soil_sto soil_link_single map_option_case split: option.splits Option.bind_splits)
qed

lemma adds_listsD:
  assumes "adds_lists E h" "ld h (node_prev nx) = Some p" "ld h (node_next p) = Some nx"
  shows "\<exists>n. sf_add_free_list E s nx h = (n, add_node h n s p nx) \<and> node_rows n \<inter> (dom (mem h) \<union> heap_rows h) = {}"
proof -
  have "h\<lparr>mem := mem h\<rparr> = h" by simp
  then show ?thesis
    using assms(1) [unfolded adds_lists_def, rule_format, of "mem h" nx p s] assms(2,3) unfolding ld_def by simp
qed

text \<open>A library for the proper heap that takes the same rows as the given one for the other heap.\<close>

definition clean_lib :: "sf_ext \<Rightarrow> u64 \<Rightarrow> u64 \<Rightarrow> u64 \<Rightarrow> sf_ext" where
  "clean_lib E e d n0 = E\<lparr>sf_add_free_list := (\<lambda>s nx h. let p = the (mem h (node_prev nx));
     n = (if e \<in> {node_prev nx, node_next p} then n0 else fst (sf_add_free_list E s nx (soil e d h)))
     in (n, add_node h n s p nx))\<rparr>"

lemma clean_lib_adds:
  assumes E: "adds_lists E (soil e d h)" and e: "e \<in> dom (mem h)"
    and n0: "node_rows n0 \<inter> (dom (mem h) \<union> heap_rows h) = {}"
  shows "adds_lists (clean_lib E e d n0) h"
  unfolding adds_lists_def
proof (intro allI impI)
  fix m s p nx
  assume m: "dom m = dom (mem h)" "m (node_prev nx) = Some p" "m (node_next p) = Some nx"
  show "\<exists>n. sf_add_free_list (clean_lib E e d n0) s nx (h\<lparr>mem := m\<rparr>) = (n, add_node (h\<lparr>mem := m\<rparr>) n s p nx) \<and>
      node_rows n \<inter> (dom m \<union> heap_rows h) = {}"
  proof (cases "e \<in> {node_prev nx, node_next p}")
    case True
    then show ?thesis using n0 m by (simp add: clean_lib_def)
  next
    case False
    have dm: "dom (m(e \<mapsto> d)) = dom (mem (soil e d h))" using m(1) e by auto
    have mm: "(m(e \<mapsto> d)) (node_prev nx) = Some p" "(m(e \<mapsto> d)) (node_next p) = Some nx" using m False by auto
    have "\<exists>n. sf_add_free_list E s nx ((soil e d h)\<lparr>mem := m(e \<mapsto> d)\<rparr>) =
        (n, add_node ((soil e d h)\<lparr>mem := m(e \<mapsto> d)\<rparr>) n s p nx) \<and> node_rows n \<inter> (dom (m(e \<mapsto> d)) \<union> heap_rows (soil e d h)) = {}"
      by (rule E [unfolded adds_lists_def, rule_format, OF dm mm])
    then obtain n where n: "sf_add_free_list E s nx ((soil e d h)\<lparr>mem := m(e \<mapsto> d)\<rparr>) =
        (n, add_node ((soil e d h)\<lparr>mem := m(e \<mapsto> d)\<rparr>) n s p nx)" "node_rows n \<inter> (dom (m(e \<mapsto> d)) \<union> heap_rows h) = {}"
      by auto
    have so: "soil e d (h\<lparr>mem := m\<rparr>) = (soil e d h)\<lparr>mem := m(e \<mapsto> d)\<rparr>" by (simp add: soil_def)
    have "insert e (dom m) = dom m" using m(1) e by auto
    then have "node_rows n \<inter> (dom m \<union> heap_rows h) = {}" using n(2) by simp
    then show ?thesis using m(2) False n(1) by (intro exI [of _ n]) (simp add: clean_lib_def so Let_def)
  qed
qed

subsection \<open>The invariant without the epilogue\<close>

lemma epilogue_row:
  assumes "tiling h bs"
  shows "at (base h) (extent bs) \<in> heap_rows h" "at (base h) (extent bs) \<in> dom (mem h)"
    "ld h (at (base h) (extent bs)) = Some w \<Longrightarrow> prev_allocated w = of_bool (last_used True bs)"
    "x < extent bs \<Longrightarrow> at (base h) x \<noteq> at (base h) (extent bs)"
proof -
  show "at (base h) (extent bs) \<in> heap_rows h" by (simp add: tiling_rows [OF assms])
  have c: "closed h (base h) 0 True bs" using assms by (simp add: tiling_def)
  then show "at (base h) (extent bs) \<in> dom (mem h)" by (auto simp: closed_def ld_def)
  show "ld h (at (base h) (extent bs)) = Some w \<Longrightarrow> prev_allocated w = of_bool (last_used True bs)"
    using c by (auto simp: closed_def)
  show "x < extent bs \<Longrightarrow> at (base h) x \<noteq> at (base h) (extent bs)"
    using assms by (subst at_inj) (auto simp: tiling_def)
qed

lemma soil_lists:
  assumes t: "tiling h bs" and l: "lists_ok h N" "listed h N C" "C \<subseteq> set (frees 0 bs)" and e: "e = at (base h) (extent bs)"
  shows "lists_ok (soil e d h) N"
proof -
  note L = lists_okD [OF l(1)] and O = nodes_okD [OF lists_okD(2) [OF l(1)]] and R = epilogue_row [OF t, folded e]
  have s: "sized bs" using t by (simp add: tiling_def)
  have node: "e \<notin> node_rows n" if "n \<in> set (free_list_head h # map fst N)" for n using O(6) [OF that] R(1) by blast
  have block: "\<exists>c. b = at (base h) c \<and> c + 32 \<le> extent bs" if "b \<in> set (blocks (heads N))" for b
    using that l(2,3) frees_range [OF s, of _ 0] by (fastforce simp: listed_def)
  have lk: "e \<notin> link_rows (heads N)"
  proof
    assume "e \<in> link_rows (heads N)"
    then obtain y where y: "y \<in> set (nodes (heads N))" "e = link_next y \<or> e = link_prev y" by (auto simp: link_rows_def)
    then consider "y \<in> set (blocks (heads N))" | n where "n \<in> fst ` set N" "y = node_head n" unfolding nodes_heads by blast
    then show False
    proof cases
      case 1
      then obtain c where "y = at (base h) c" "c + 32 \<le> extent bs" using block by blast
      then have "e = at (base h) (c + 8) \<or> e = at (base h) (c + 16)" using y(2) by (simp add: link_at)
      then show False using R(4) [of "c + 8"] R(4) [of "c + 16"] \<open>c + 32 \<le> extent bs\<close> by auto
    next
      case 2
      then show False using node [of n] y(2) head_rows [of n] by auto
    qed
  qed
  show ?thesis
  proof (rule lists_okI)
    show "flists (soil e d h) (heads N)" by (rule flists_agree [OF L(1)]) (use lk in auto)
    show "nodes_ok (soil e d h) N" unfolding soil_def
    proof (rule nodes_ok_cong [OF L(2) refl refl])
      fix n r assume "n \<in> set (free_list_head h # map fst N)" "r \<in> {node_size n, node_next n, node_prev n}"
      then show "ld (h\<lparr>mem := (mem h)(e \<mapsto> d)\<rparr>) r = ld h r" using node [of n] head_rows [of n] by (auto simp: ld_def)
    qed auto
    show "\<exists>w. ld (soil e d h) b = Some w \<and> bsz w = s" if "(k, s, ys) \<in> set N" "b \<in> set ys" for k s ys b
    proof -
      have "b \<in> set (blocks (heads N))" using that by (force simp: blocks_def heads_def)
      then obtain c where c: "b = at (base h) c" "c + 32 \<le> extent bs" using block by blast
      then have "b \<noteq> e" using R(4) [of c] by simp
      then show ?thesis using L(3) [OF that] by simp
    qed
  qed
qed

lemma soil_heap_ok:
  assumes h: "heap_ok h bs N" and v: "allocated v = 1" "prev_allocated v = of_bool (last_used True bs)"
    and e: "e = at (base h) (extent bs)"
  shows "heap_ok (soil e v h) bs N"
proof -
  have t: "tiling h bs" and l: "lists_ok h N" "listed h N (set (frees 0 bs))" using h by (simp_all add: heap_ok_def)
  note R = epilogue_row [OF t, folded e]
  have s: "sized bs" using t by (simp add: tiling_def)
  have "tiled (soil e v h) (base h) 0 True bs = tiled h (base h) 0 True bs"
  proof (rule tiled_cong)
    fix x assume "x \<in> infos 0 bs"
    then show "ld (soil e v h) (at (base h) x) = ld h (at (base h) x)" using R(4) [of x] infos_range [OF s, of x 0] by auto
  qed
  then have "closed (soil e v h) (base h) 0 True bs" using t v e by (auto simp: tiling_def closed_def)
  then have "tiling (soil e v h) bs" using t by (auto simp: tiling_def)
  then show ?thesis using h soil_lists [OF t l _ e] by (simp add: heap_ok_def)
qed

text \<open>With the new word the heap is well formed exactly when that word is a proper epilogue.\<close>

lemma soil_heap_ok_iff:
  assumes "heap_ok h bs N" "allocated v = 1" "e = at (base h) (extent bs)"
  shows "heap_ok (soil e v h) bs N \<longleftrightarrow> prev_allocated v = of_bool (last_used True bs)"
proof
  assume "heap_ok (soil e v h) bs N"
  then have "tiling (soil e v h) bs" by (simp add: heap_ok_def)
  from epilogue_row(3) [OF this, of v] show "prev_allocated v = of_bool (last_used True bs)" by (simp add: assms(3))
qed (use soil_heap_ok [OF assms(1,2)] assms(3) in blast)

lemma new_node_soil:
  assumes t: "tiling h bs" and l: "lists_ok h N" "listed h N (set (frees 0 bs) - {c})" and c: "c \<in> set (frees 0 bs)"
    and w: "ld h (at (base h) c) = Some w" and E: "adds_lists E (soil e d h)" and cb: "compact bs"
    and N: "N = A @ B" "\<forall>(k, t, xs) \<in> set A. t < bsz w" "\<forall>(k, t, xs) \<in> set B. bsz w < t"
    and e: "e = at (base h) (extent bs)"
  shows "\<exists>m n. new_node E (soil e d h) (bsz w) (last (free_list_head h # map fst A)) (hd (map fst B @ [free_list_head h])) (at (base h) c) =
      Some (soil e d (h\<lparr>mem := m\<rparr>)) \<and>
    heap_ok (h\<lparr>mem := m\<rparr>) bs (place (bsz w) (at (base h) c) n N) \<and>
    (\<forall>x \<in> payload 0 bs. ld (h\<lparr>mem := m\<rparr>) (at (base h) x) = ld h (at (base h) x))"
proof -
  let ?q = "free_list_head h" and ?b = "at (base h) c" and ?s = "bsz w"
  define p nx where "p = last (?q # map fst A)" and "nx = hd (map fst B @ [?q])"
  note O = nodes_okD [OF lists_okD(2) [OF l(1)]] and R = epilogue_row [OF t, folded e]
  have s: "sized bs" using t by (simp add: tiling_def)
  have pin: "p \<in> set (?q # map fst N)" "nx \<in> set (?q # map fst N)"
  proof -
    have "p \<in> set (?q # map fst A)" "nx \<in> set (map fst B @ [?q])" unfolding p_def nx_def by (rule last_in_set hd_in_set; simp)+
    then show "p \<in> set (?q # map fst N)" "nx \<in> set (?q # map fst N)" unfolding N(1) by auto
  qed
  have bt: "ld h (node_next p) = Some nx" "ld h (node_prev nx) = Some p"
    using nseg_between [of h ?q "map fst A" "map fst B" ?q] O(3) N(1) unfolding p_def nx_def by simp_all
  have ne: "e \<notin> {node_prev nx, node_next p}"
    using O(6) [OF pin(1)] O(6) [OF pin(2)] head_rows [of p] head_rows [of nx] R(1) by auto
  have be: "e \<noteq> link_next ?b" "e \<noteq> link_prev ?b"
    using frees_range [OF s c] R(4) [of "c + 8"] R(4) [of "c + 16"] by (auto simp: link_at)
  have de: "insert e (dom (mem h)) = dom (mem h)" using R(2) by auto
  obtain n where n: "sf_add_free_list E ?s nx (soil e d h) = (n, add_node (soil e d h) n ?s p nx)" "node_rows n \<inter> (dom (mem h) \<union> heap_rows h) = {}"
    using adds_listsD [OF E, of nx p ?s] bt ne by (auto simp: de)
  let ?E = "clean_lib E e d n"
  have E': "adds_lists ?E h" by (rule clean_lib_adds [OF E R(2) n(2)])
  from new_node_heap [OF t l c w E' cb N, folded p_def nx_def] obtain m k where
    m: "new_node ?E h ?s p nx ?b = Some (h\<lparr>mem := m\<rparr>)" "heap_ok (h\<lparr>mem := m\<rparr>) bs (place ?s ?b k N)"
      "\<forall>x \<in> payload 0 bs. ld (h\<lparr>mem := m\<rparr>) (at (base h) x) = ld h (at (base h) x)"
    by blast
  have "sf_add_free_list ?E ?s nx h = (n, add_node h n ?s p nx)"
    using n(1) ne bt by (simp add: clean_lib_def ld_def)
  then have "new_node E (soil e d h) ?s p nx ?b = map_option (soil e d) (new_node ?E h ?s p nx ?b)"
    by (rule soil_new_node [OF n(1)]) (use ne be n(2) R(1) in auto)
  then show ?thesis using m unfolding p_def nx_def by auto
qed

end
