(* ===== verification/Sf_Allot.thy ===== *)
theory Sf_Allot
  imports Sf_Epilogue
begin

text \<open>
  \<open>sf_malloc\<close> on the sequence of blocks: the first list whose size holds the request has the least
  such size (best fit), the block is split when at least 32 bytes remain, and no other block
  is touched; and the initialisation of an empty heap, under the contract \<open>first_page\<close> of
  \<open>sf_mem_grow\<close>.
\<close>

subsection \<open>Searching for a block\<close>

lemma heap_okD: "heap_ok h bs N \<Longrightarrow> tiling h bs \<and> lists_ok h N \<and> listed h N (set (frees 0 bs)) \<and> compact bs"
  by (simp add: heap_ok_def)

lemma frees_split: "c \<in> set (frees p bs) \<Longrightarrow> \<exists>ls k rs. bs = ls @ Free k # rs \<and> c = p + extent ls"
proof (induction bs arbitrary: p)
  case (Cons B bs)
  show ?case
  proof (cases "c \<in> set (frees (p + bytes B) bs)")
    case True
    then obtain ls k rs where "bs = ls @ Free k # rs" "c = p + bytes B + extent ls" using Cons.IH by blast
    then show ?thesis by (intro exI [of _ "B # ls"] exI [of _ k] exI [of _ rs]) simp
  next
    case False
    then have "c = p" "\<not> used B" using Cons.prems by (auto split: if_splits)
    then show ?thesis by (cases B) (auto intro: exI [of _ "[]"])
  qed
qed simp

lemma tiling_bsz:
  assumes "tiling h (ls @ B # rs)" "ld h (at (base h) (extent ls)) = Some w"
  shows "bsz w = of_nat (bytes B)" "bytes B < 2 ^ 31"
proof -
  show l: "bytes B < 2 ^ 31" using assms(1) by (simp add: tiling_def)
  show "bsz w = of_nat (bytes B)"
    using tiling_block [OF assms(1)] assms(2) l by (auto simp: block_at_def intro: bs_int_tot)
qed

lemma listed_block:
  assumes h: "heap_ok h bs N" and i: "(n, s, ys) \<in> set N" "b \<in> set ys"
  shows "\<exists>ls k rs. bs = ls @ Free k # rs \<and> b = at (base h) (extent ls) \<and> s = of_nat k \<and> k < 2 ^ 31"
proof -
  have "b \<in> set (blocks (heads N))" using i by (force simp: blocks_def heads_def)
  then obtain c where "c \<in> set (frees 0 bs)" "b = at (base h) c" using h by (auto simp: heap_ok_def listed_def)
  then obtain ls k rs where e: "bs = ls @ Free k # rs" "b = at (base h) (extent ls)" using frees_split [of c 0 bs] by auto
  obtain w where w: "ld h b = Some w" "bsz w = s" using lists_okD(3) [of h N] heap_okD [OF h] i by blast
  have "tiling h (ls @ Free k # rs)" using heap_okD [OF h] e(1) by simp
  from tiling_bsz [OF this w(1) [unfolded e(2)]] show ?thesis using e w(2) by auto
qed

lemma free_listed:
  assumes h: "heap_ok h bs N" and e: "bs = ls @ Free k # rs"
  shows "\<exists>n ys. (n, of_nat k, ys) \<in> set N \<and> at (base h) (extent ls) \<in> set ys"
proof -
  have "extent ls \<in> set (frees 0 bs)" using e by simp
  then have "at (base h) (extent ls) \<in> set (blocks (heads N))" using h by (auto simp: heap_ok_def listed_def)
  then obtain n s ys where n: "(n, s, ys) \<in> set N" "at (base h) (extent ls) \<in> set ys"
    by (force simp: blocks_def heads_def)
  obtain w where w: "ld h (at (base h) (extent ls)) = Some w" "bsz w = s" using lists_okD(3) [of h N] heap_okD [OF h] n by blast
  have "tiling h (ls @ Free k # rs)" using heap_okD [OF h] e by simp
  from tiling_bsz(1) [OF this w(1)] show ?thesis using n w(2) by auto
qed

lemma distinct_list: "distinct (nodes Ls) \<Longrightarrow> (a, ys) \<in> set Ls \<Longrightarrow> distinct (a # ys)"
proof (induction Ls)
  case (Cons l Ls)
  then show ?case by (cases l) auto
qed simp

lemma node_first:
  assumes "lists_ok h N" "(n, s, ys) \<in> set N"
  shows "ld h (link_next (node_head n)) = Some (hd (ys @ [node_head n]))" "ys \<noteq> [] \<longleftrightarrow> hd (ys @ [node_head n]) \<noteq> node_head n"
proof -
  have i: "(node_head n, ys) \<in> set (heads N)" using assms(2) by (force simp: heads_def)
  have f: "flists h (heads N)" using lists_okD(1) [OF assms(1)] .
  then have "seg h (node_head n) ys (node_head n)" using i by (auto simp: flists_def)
  then show "ld h (link_next (node_head n)) = Some (hd (ys @ [node_head n]))" using seg_hd by blast
  have "distinct (node_head n # ys)" using f i by (intro distinct_list [of "heads N"]) (auto simp: flists_def)
  then show "ys \<noteq> [] \<longleftrightarrow> hd (ys @ [node_head n]) \<noteq> node_head n" by (cases ys) auto
qed

lemma nodes_chain:
  assumes "lists_ok h N"
  shows "chain h (free_list_head h) (map fst N)"
proof -
  note O = nodes_okD [OF lists_okD(2) [OF assms]]
  have "nseg h p (map fst M) (free_list_head h) \<Longrightarrow> set M \<subseteq> set N \<Longrightarrow> chain h p (map fst M)" for p M
  proof (induction M arbitrary: p)
    case (Cons x M)
    obtain n s ys where x: "x = (n, s, ys)" by (cases x)
    then have i: "(n, s, ys) \<in> set N" using Cons.prems(2) by simp
    have "n \<in> set (map fst N)" using i by (force intro: rev_image_eqI)
    then have "n \<noteq> free_list_head h" using O(4) by (metis distinct.simps(2))
    then show ?case using Cons x O(1) [OF i] node_first [OF assms i] by simp
  qed simp
  from this [OF O(3)] show ?thesis by simp
qed

text \<open>When some free block holds the request, the search ends at the node of the least such size.\<close>

definition fitting :: "nat \<Rightarrow> ablock list \<Rightarrow> bool" where
  "fitting r bs \<longleftrightarrow> (\<exists>k. Free k \<in> set bs \<and> r + 8 \<le> k)"

lemma of_nat_le_u64: "a < 2 ^ 63 \<Longrightarrow> b < 2 ^ 63 \<Longrightarrow> (of_nat a :: u64) \<le> of_nat b \<longleftrightarrow> a \<le> b"
  by (simp add: word_le_nat_alt unsigned_of_nat take_bit_nat_eq_self)

lemma best_fit:
  assumes h: "heap_ok h bs N" and f: "fitting r bs" and r: "sz = of_nat r" "r < 2 ^ 62"
  obtains A t b xs B ls k rs where "N = A @ (t, of_nat k, b # xs) # B" "find (fits h sz) (map fst N) = Some t"
    "bs = ls @ Free k # rs" "b = at (base h) (extent ls)" "r + 8 \<le> k" "\<forall>k'. Free k' \<in> set bs \<and> r + 8 \<le> k' \<longrightarrow> k \<le> k'"
proof -
  have l: "lists_ok h N" using heap_okD [OF h] by blast
  note O = nodes_okD [OF lists_okD(2) [OF l]]
  have fit: "fits h sz n \<longleftrightarrow> sz + 8 \<le> s \<and> ys \<noteq> []" if "(n, s, ys) \<in> set N" for n s ys
    using O(1) [OF that] node_first [OF l that] by (simp add: fits_def)
  have sz: "sz + 8 = of_nat (r + 8)" using r by simp
  have ok: "sz + 8 \<le> of_nat k \<longleftrightarrow> r + 8 \<le> k" if "k < 2 ^ 31" for k
    using that r(2) unfolding sz by (intro of_nat_le_u64) auto
  have small: "k' < 2 ^ 31" if f': "Free k' \<in> set bs" for k'
  proof -
    obtain ls rs where "bs = ls @ Free k' # rs" using split_list [OF f'] by blast
    then show ?thesis using heap_okD [OF h] by (simp add: tiling_def)
  qed
  have cand: "\<exists>n ys. (n, of_nat k', ys) \<in> set N \<and> fits h sz n" if f': "Free k' \<in> set bs" "r + 8 \<le> k'" for k'
  proof -
    obtain ls rs where "bs = ls @ Free k' # rs" using split_list [OF f'(1)] by blast
    from free_listed [OF h this] obtain n ys where "(n, of_nat k', ys) \<in> set N" "ys \<noteq> []" by force
    then show ?thesis using fit ok small [OF f'(1)] f'(2) by blast
  qed
  obtain k0 where "Free k0 \<in> set bs" "r + 8 \<le> k0" using f by (auto simp: fitting_def)
  from cand [OF this] obtain n0 ys0 where "(n0, of_nat k0, ys0) \<in> set N" "fits h sz n0" by blast
  then have "n0 \<in> set (map fst N)" "fits h sz n0" by (force intro: rev_image_eqI)+
  then have "find (fits h sz) (map fst N) \<noteq> None" by (auto simp: find_None_iff)
  then obtain t where t: "find (fits h sz) (map fst N) = Some t" by blast
  then obtain i where i: "i < length N" "fst (N ! i) = t" "fits h sz t" "\<forall>j < i. \<not> fits h sz (fst (N ! j))"
    by (auto simp: find_Some_iff)
  obtain s ys where s: "N ! i = (t, s, ys)" using i(2) by (cases "N ! i") auto
  have m: "(t, s, ys) \<in> set N" using i(1) s nth_mem by metis
  obtain b xs where ys: "ys = b # xs" using fit [OF m] i(3) by (cases ys) auto
  obtain ls k rs where e: "bs = ls @ Free k # rs" "b = at (base h) (extent ls)" "s = of_nat k" "k < 2 ^ 31"
    using listed_block [OF h m, of b] ys by auto
  have best: "k \<le> k'" if k': "Free k' \<in> set bs" "r + 8 \<le> k'" for k'
  proof -
    obtain n zs where n: "(n, of_nat k', zs) \<in> set N" "fits h sz n" using cand [OF k'] by blast
    then obtain j where j: "j < length N" "N ! j = (n, of_nat k', zs)" by (meson in_set_conv_nth)
    then have "\<not> j < i" using i(4) n(2) by auto
    then have "s \<le> of_nat k'"
      using sorted_wrt_nth_less [OF O(2), of i j] j i(1) s by (cases "i = j") auto
    then show ?thesis using of_nat_le_u64 [of k k'] e(3,4) small [OF k'(1)] by simp
  qed
  show thesis
  proof (rule that [OF _ t e(1,2)])
    show "N = take i N @ (t, of_nat k, b # xs) # drop (Suc i) N"
      using id_take_nth_drop [OF i(1)] s ys e(3) by simp
    show "r + 8 \<le> k" using fit [OF m] i(3) ok [OF e(4)] e(3) by simp
    show "\<forall>k'. Free k' \<in> set bs \<and> r + 8 \<le> k' \<longrightarrow> k \<le> k'" using best by blast
  qed
qed


subsection \<open>Carving a block out of a free one\<close>

lemma retile:
  assumes t: "tiling h (ls @ M @ rs)" and M: "extent M' = extent M" "sized M'"
    and T: "tiled (h\<lparr>mem := m\<rparr>) (base h) (extent ls) (last_used True ls) M'"
      "closed (h\<lparr>mem := m\<rparr>) (base h) (extent ls + extent M) (last_used (last_used True ls) M') rs"
    and fr: "\<And>x. x \<in> infos 0 ls \<Longrightarrow> ld (h\<lparr>mem := m\<rparr>) (at (base h) x) = ld h (at (base h) x)"
    and d: "dom (mem h) \<subseteq> dom m"
  shows "tiling (h\<lparr>mem := m\<rparr>) (ls @ M' @ rs)"
proof -
  have "tiled (h\<lparr>mem := m\<rparr>) (base h) 0 True ls = tiled h (base h) 0 True ls" using fr by (rule tiled_cong)
  moreover have "ld h r \<noteq> None \<Longrightarrow> ld (h\<lparr>mem := m\<rparr>) r \<noteq> None" for r using d by (auto simp: ld_def)
  ultimately show ?thesis using t M T by (simp add: tiling_def closed_append add.assoc)
qed

lemma scast_u32_inj: "(scast (x :: u32) :: u64) = scast y \<Longrightarrow> x = y"
proof -
  have "ucast (scast z :: u64) = z" for z :: u32
  proof (rule bit_word_eqI)
    fix i assume "i < LENGTH(32)"
    then have "i = 31 \<or> i < 31" by auto
    then show "bit (ucast (scast z :: u64) :: u32) i = bit z i" by (elim disjE) (simp_all add: bit_simps min_def)
  qed
  then show "(scast x :: u64) = scast y \<Longrightarrow> x = y" by metis
qed

lemma unat_of_nat_u64: "g < 2 ^ 63 \<Longrightarrow> unat (of_nat g :: u64) = g"
  by (simp add: unsigned_of_nat take_bit_nat_eq_self)

lemma bsz_nat: "bsz w = of_nat g \<Longrightarrow> g < 2 ^ 31 \<Longrightarrow> unat (bs_int w) = g"
proof -
  assume w: "bsz w = of_nat g" and g: "g < 2 ^ 31"
  have u: "unat (of_nat g :: u32) = g" using g by (simp add: unsigned_of_nat take_bit_nat_eq_self)
  then have "(scast (of_nat g :: u32) :: u64) = of_nat g" using scast_unat [of "of_nat g"] g by simp
  then have "bs_int w = of_nat g" using w by (intro scast_u32_inj) (simp add: bsz_def)
  then show ?thesis using u by simp
qed

text \<open>\<open>g\<close> is \<open>h\<close> with other contents of the same rows.\<close>

definition same_rows :: "heap \<Rightarrow> heap \<Rightarrow> bool" where
  "same_rows h g \<longleftrightarrow> g = h\<lparr>mem := mem g\<rparr> \<and> dom (mem g) = dom (mem h)"

lemma same_rows_refl: "same_rows h h"
  by (simp add: same_rows_def)

lemma same_rows_sto: "sto g a x = Some g' \<Longrightarrow> same_rows h g \<Longrightarrow> same_rows h g'"
  by (cases g; cases h) (auto simp: sto_Some ld_def same_rows_def)

lemma same_rows_upd: "upd g a f = Some g' \<Longrightarrow> same_rows h g \<Longrightarrow> same_rows h g'"
  by (auto simp: upd_def bind_eq_Some_conv intro: same_rows_sto)

lemma dom_carve: "carve_block h t s bs sz = Some (b, v, h') \<Longrightarrow> same_rows h h'"
  unfolding carve_block_def Let_def bind_eq_Some_conv
  by (elim exE conjE) (auto intro!: same_rows_refl elim!: same_rows_upd same_rows_sto)

text \<open>The rows around a listed block, and of the node of its list.\<close>

lemma node_link_off:
  assumes t: "tiling h bs" and o: "nodes_ok h N" and n: "n \<in> set (free_list_head h # map fst N)" and x: "x < extent bs + 8"
  shows "link_next (node_head n) \<noteq> at (base h) x" "link_prev (node_head n) \<noteq> at (base h) x"
  using nodes_okD(6) [OF o n] head_rows [of n] x by (auto simp: tiling_rows [OF t])

lemma carve_ok:
  assumes h: "heap_ok h bs N" and N: "N = A @ (t, of_nat k, b # xs) # B" and bs: "bs = ls @ Free k # rs" "b = at (base h) (extent ls)"
    and g: "32 \<le> g" "16 dvd g" "g + 32 \<le> k" "r + 8 \<le> g" and sz: "sz = of_nat r"
  shows "\<exists>m. carve_block h t (of_nat k) (of_nat g) sz = Some (b, at (base h) (extent ls + g), h\<lparr>mem := m\<rparr>) \<and> dom m = dom (mem h) \<and>
    tiling (h\<lparr>mem := m\<rparr>) (ls @ [Used g r, Free (k - g)] @ rs) \<and>
    (\<forall>x. x \<notin> {b, at (base h) (extent ls + g), at (base h) (extent ls + k - 8), link_next (node_head t)} \<longrightarrow>
      ld (h\<lparr>mem := m\<rparr>) x = ld h x)"
proof -
  let ?a = "base h" and ?p = "extent ls"
  have t: "tiling h (ls @ [Free k] @ rs)" and l: "lists_ok h N" "listed h N (set (frees 0 bs))" using heap_okD [OF h] bs(1) by auto
  have s: "sized ls" "sized rs" "16 dvd k" "32 \<le> k" "?p + k + extent rs < 2 ^ 31" using t by (simp_all add: tiling_def)
  have mt: "(t, of_nat k, b # xs) \<in> set N" using N by simp
  have tin: "t \<in> set (free_list_head h # map fst N)" using N by simp
  have b1: "ld h (link_next (node_head t)) = Some b" using node_first(1) [OF l(1) mt] by simp
  obtain w f where w: "ld h b = Some w" "prev_allocated w = of_bool (last_used True ls)" "ld h (at ?a (?p + k - 8)) = Some f"
    using tiling_block [of h ls "Free k" rs] t bs(2) by (auto simp: block_at_def)
  have "16 dvd ?p" using s(1) by (rule sized_dvd)
  then have "8 dvd ?p + 8" "8 dvd ?p + g" using g(2) by presburger+
  then obtain n v where n: "ld h (at ?a (?p + 8)) = Some n" and v: "ld h (at ?a (?p + g)) = Some v"
    using tiling_mapped [OF t, of "?p + 8"] tiling_mapped [OF t, of "?p + g"] g s(4) by auto
  have u: "unat (of_nat k :: u64) = k" "unat (of_nat g :: u64) = g" "unat (of_nat r :: u64) = r"
    using s g by (auto intro: unat_of_nat_u64)
  have kg: "(of_nat k :: u64) - of_nat g = of_nat (k - g)" using g by (simp add: of_nat_diff)
  have e: "b + of_nat g = at ?a (?p + g)" "b + of_nat k - 8 = at ?a (?p + k - 8)" "link_next b = at ?a (?p + 8)"
    using s(4) bs(2) by (simp_all add: of_nat_at link_at at_diff)
  have nl: "link_next (node_head t) \<notin> {b, at ?a (?p + g), at ?a (?p + k - 8)}"
    using node_link_off(1) [OF t lists_okD(2) [OF l(1)] tin] g s(4) bs(2) by simp
  have "unat (of_nat (k - g) :: u64) = k - g" using s by (intro unat_of_nat_u64) simp
  then have le: "(of_nat g :: u64) \<le> of_nat k" "32 \<le> (of_nat k :: u64) - of_nat g"
    unfolding kg using g u by (simp_all add: word_le_nat_alt)
  have rs: "unat sz < 2 ^ 32" unfolding sz u using g s by simp
  obtain h' w' v' f' where c: "carve_block h t (of_nat k) (of_nat g) sz = Some (b, at ?a (?p + g), h')"
    "ld h' b = Some w'" "allocated w' = 1" "bsz w' = of_nat g" "requested_size w' = sz" "prev_allocated w' = prev_allocated w"
    "ld h' (at ?a (?p + g)) = Some v'" "allocated v' = 0" "prev_allocated v' = 1" "bsz v' = of_nat (k - g)"
    "ld h' (at ?a (?p + k - 8)) = Some f'" "allocated f' = 0" "bsz f' = of_nat (k - g)"
    "\<And>x. x \<notin> {b, at ?a (?p + g), at ?a (?p + k - 8), link_next (node_head t)} \<Longrightarrow> ld h' x = ld h x"
    using carve_block_headers [of h t b w n "of_nat g" v "of_nat k" f sz, unfolded e kg u, OF b1 w(1) n v w(3) _ s(3) g(2,1) le [unfolded kg] nl rs] s(5)
    by auto
  obtain m where m: "h' = h\<lparr>mem := m\<rparr>" "dom m = dom (mem h)" using dom_carve [OF c(1)] unfolding same_rows_def by blast
  have off: "ld h' (at ?a x) = ld h (at ?a x)" if "x < ?p \<or> ?p + k \<le> x" "x < ?p + k + extent rs + 8" for x
  proof (rule c(14))
    have "link_next (node_head t) \<noteq> at ?a x" using node_link_off(1) [OF t lists_okD(2) [OF l(1)] tin, of x] that(2) by simp
    then show "at ?a x \<notin> {b, at ?a (?p + g), at ?a (?p + k - 8), link_next (node_head t)}"
      using that s g bs(2) by (auto simp: at_inj)
  qed
  have "tiling h' (ls @ [Used g r, Free (k - g)] @ rs)"
    unfolding m(1)
  proof (rule retile [OF t, of "[Used g r, Free (k - g)]"]; (unfold m(1) [symmetric])?)
    have sm: "g < 2 ^ 31" "k - g < 2 ^ 31" using s(5) g by auto
    have "?p + g + (k - g) - 8 = ?p + k - 8" using g by simp
    then show "tiled h' ?a ?p (last_used True ls) [Used g r, Free (k - g)]"
      using c bs(2) w(2) bsz_nat [OF c(4) sm(1)] bsz_nat [OF c(10) sm(2)] bsz_nat [OF c(13) sm(2)] u(3) g(4) sz
      by (simp add: block_at_def)
    have "closed h ?a (?p + k) False rs" using t by (simp add: tiling_def closed_append closed_Cons)
    moreover have "closed h' ?a (?p + k) False rs = closed h ?a (?p + k) False rs"
      using infos_range [OF s(2), of _ "?p + k"] by (intro closed_cong off) fastforce+
    ultimately show "closed h' ?a (?p + extent [Free k]) (last_used (last_used True ls) [Used g r, Free (k - g)]) rs" by simp
    show "sized [Used g r, Free (k - g)]" using g s(3) by (simp add: dvd_diff_nat)
    show "\<And>x. x \<in> infos 0 ls \<Longrightarrow> ld h' (at ?a x) = ld h (at ?a x)"
      using infos_range [OF s(1), of _ 0] by (intro off) fastforce+
  qed (use g m(2) in simp_all)
  then show ?thesis using c(1,14) m by blast
qed


subsection \<open>The remainder of a split\<close>

lemma remainder_scan_skip:
  "nseg h p (map fst A @ y # ys) (free_list_head h) \<Longrightarrow> free_list_head h \<notin> fst ` set A \<union> {y} \<Longrightarrow>
   ld h (node_size p) = Some t' \<Longrightarrow> t' < s \<Longrightarrow> \<forall>(k, t, xs) \<in> set A. ld h (node_size k) = Some t \<and> t < s \<Longrightarrow>
   remainder_scan h s b p = remainder_scan h s b y"
proof (induction A arbitrary: p t')
  case Nil
  then show ?case by (subst remainder_scan.simps) (auto simp: order_less_imp_not_eq)
next
  case (Cons x A)
  obtain k t xs where x: "x = (k, t, xs)" by (cases x)
  have "remainder_scan h s b k = remainder_scan h s b y" using Cons.prems x by (intro Cons.IH [of k t]) auto
  then show ?case using Cons.prems x by (subst remainder_scan.simps) (auto simp: order_less_imp_not_eq)
qed

lemma remainder_new_skip:
  "nseg h p (map fst A @ y # ys) (free_list_head h) \<Longrightarrow> free_list_head h \<notin> fst ` set A \<union> {y} \<Longrightarrow>
   ld h (node_size p) = Some t' \<Longrightarrow> t' < s \<Longrightarrow> \<forall>(k, t, xs) \<in> set A. ld h (node_size k) = Some t \<and> t < s \<Longrightarrow>
   ld h (node_size y) = Some t1 \<Longrightarrow> s < t1 \<Longrightarrow>
   remainder_new E h s b p = new_list_after E h s (last (p # map fst A)) b"
proof (induction A arbitrary: p t')
  case Nil
  then show ?case by (subst remainder_new.simps) auto
next
  case (Cons x A)
  obtain k t xs where x: "x = (k, t, xs)" by (cases x)
  have "remainder_new E h s b k = new_list_after E h s (last (k # map fst A)) b"
    using Cons.prems x by (intro Cons.IH [of k t]) auto
  then show ?case using Cons.prems x by (subst remainder_new.simps) (auto simp: order_less_imp_not_less)
qed

lemma inside_not_link:
  assumes t: "tiling h bs" and l: "lists_ok h N" "listed h N (set (frees 0 bs))" and bs: "bs = ls @ Free k # rs"
    and x: "extent ls + 24 \<le> x" "x < extent ls + k"
  shows "at (base h) x \<notin> link_rows (heads N)"
proof
  assume a: "at (base h) x \<in> link_rows (heads N)"
  have s: "sized ls" "sized rs" using t bs by (simp_all add: tiling_def)
  have "x < extent bs + 8" using x bs by simp
  from link_row_off [OF t l order.refl this a] obtain c where c: "c \<in> set (frees 0 bs)" "x = c + 8 \<or> x = c + 16" by blast
  then have "c + 32 \<le> extent ls \<or> c = extent ls \<or> extent ls + k \<le> c"
    using frees_range [OF s(1), of c 0] frees_range [OF s(2), of c "extent ls + k"] bs by auto
  then show False using c(2) x by auto
qed

text \<open>The first two steps along a list stay in it.\<close>

lemma two_steps:
  assumes "seg h a ys a"
  shows "\<exists>f n. ld h (link_next a) = Some f \<and> f \<in> set (a # ys) \<and> ld h (link_next f) = Some n \<and> n \<in> set (a # ys)"
proof (cases ys)
  case Nil
  then show ?thesis using assms seg_hd [of h a ys a] by auto
next
  case (Cons c cs)
  then have "ld h (link_next a) = Some c" "ld h (link_next c) = Some (hd (cs @ [a]))"
    using assms seg_hd [of h a ys a] seg_hd [of h c cs a] by auto
  then show ?thesis using Cons hd_in_set [of "cs @ [a]"] by auto
qed

lemma head_not_block:
  assumes h: "heap_ok h bs N" and n: "n \<in> fst ` set N"
  shows "node_head n \<notin> set (blocks (heads N))"
proof
  assume "node_head n \<in> set (blocks (heads N))"
  then obtain c where "c \<in> set (frees 0 bs)" "node_head n = at (base h) c" using heap_okD [OF h] by (auto simp: listed_def)
  then have "node_head n \<in> heap_rows h"
    using frees_range [of bs c 0] heap_okD [OF h] by (auto simp: tiling_rows [of h bs] tiling_def)
  moreover have "node_head n \<in> node_rows n" by (simp add: node_rows_def node_head_def)
  ultimately show False using nodes_okD(6) [OF lists_okD(2), of h N n] heap_okD [OF h] n by auto
qed

text \<open>The back link that the code sets lies in the list's node or in a free block that the split leaves alone.\<close>

lemma back_link_off:
  assumes h: "heap_ok h bs N" and bs: "bs = ls @ Free k # rs" and g: "32 \<le> g" "g + 32 \<le> k"
    and y: "(y, of_nat (k - g), ys) \<in> set N" and n: "n \<in> set (node_head y # ys)"
    and x: "x < extent bs + 8" "x \<notin> links 0 (ls @ [Used g r, Free (k - g)] @ rs)"
  shows "at (base h) x \<noteq> link_prev n"
proof
  let ?a = "base h" and ?p = "extent ls"
  assume a: "at ?a x = link_prev n"
  have T: "tiling h bs" and l: "lists_ok h N" using heap_okD [OF h] by auto
  have s: "sized bs" "?p + k + extent rs < 2 ^ 31" using T bs by (simp_all add: tiling_def)
  have "node_rows y \<inter> heap_rows h = {}" using nodes_okD(6) [OF lists_okD(2) [OF l], of y] y by force
  moreover have "at ?a x \<in> heap_rows h" using x(1) by (simp add: tiling_rows [OF T])
  ultimately have "n \<noteq> node_head y" using a head_rows(2) [of y] by auto
  then have ny: "n \<in> set ys" using n by simp
  from listed_block [OF h y ny] obtain ls' k' rs' where b: "bs = ls' @ Free k' # rs'" "n = at ?a (extent ls')"
    "(of_nat (k - g) :: u64) = of_nat k'" "k' < 2 ^ 31" by blast
  have "unat (of_nat (k - g) :: u64) = k - g" "unat (of_nat k' :: u64) = k'"
    using s(2) b(4) by (auto intro: unat_of_nat_u64)
  then have "k' = k - g" using b(3) by metis
  then have k': "k' \<noteq> k" using g by simp
  have c: "extent ls' \<in> set (frees 0 bs)" using b(1) by simp
  have "extent ls' \<noteq> ?p"
  proof
    assume e: "extent ls' = ?p"
    have "block_at h ?a ?p (last_used True ls) (Free k)" using tiling_block [of h ls "Free k" rs] T bs by simp
    moreover have "block_at h ?a ?p (last_used True ls') (Free k')" using tiling_block [of h ls' "Free k'" rs'] T b(1) e by simp
    ultimately show False using k' by (auto simp: block_at_def)
  qed
  then have "extent ls' \<in> set (frees 0 (ls @ [Used g r, Free (k - g)] @ rs))" using c bs g by auto
  moreover have "x = extent ls' + 16"
    using frees_range [OF s(1) c] a b(2) x(1) bs s(2) by (auto simp: link_at at_inj)
  ultimately show False using x(2) by (auto simp: links_def)
qed

text \<open>There is a list of the size of the remainder: its first block is only half linked to the remainder.\<close>

lemma remainder_existing:
  assumes h: "heap_ok h bs N" and bs: "bs = ls @ Free k # rs" and g: "32 \<le> g" "g + 32 \<le> k"
    and t1: "tiling h1 (ls @ [Used g r, Free (k - g)] @ rs)" and h1: "h1 = h\<lparr>mem := m1\<rparr>" "dom m1 = dom (mem h)"
    and fr: "\<And>x. x \<notin> {at (base h) (extent ls), at (base h) (extent ls + g), at (base h) (extent ls + k - 8), link_next (node_head t)} \<Longrightarrow>
      ld h1 x = ld h x"
    and y: "(y, of_nat (k - g), ys) \<in> set N" and t: "t \<in> fst ` set N" "t \<noteq> y"
    and nx: "ld h1 (node_next y) = Some z" "z \<noteq> free_list_head h" and sz: "ld h1 (node_size y) = Some (of_nat (k - g))"
  shows "\<exists>m. remainder_scan h1 (of_nat (k - g)) (at (base h) (extent ls + g)) y = Some (True, h\<lparr>mem := m\<rparr>) \<and> dom m = dom (mem h) \<and>
    (\<forall>x < extent bs + 8. x \<notin> links 0 (ls @ [Used g r, Free (k - g)] @ rs) \<longrightarrow>
      ld (h\<lparr>mem := m\<rparr>) (at (base h) x) = ld h1 (at (base h) x))"
proof -
  let ?a = "base h" and ?p = "extent ls" and ?u = "of_nat (k - g) :: u64" and ?bs1 = "ls @ [Used g r, Free (k - g)] @ rs"
  let ?v = "at ?a (?p + g)"
  have T: "tiling h bs" and l: "lists_ok h N" "listed h N (set (frees 0 bs))" using heap_okD [OF h] by auto
  have s: "sized ls" "sized rs" "?p + k + extent rs < 2 ^ 31" using T bs by (simp_all add: tiling_def)
  note ins = inside_not_link [OF T l bs]
  have f: "flists h (heads N)" "distinct (nodes (heads N))" "apart (set (nodes (heads N)))"
    using lists_okD(1) [OF l(1)] by (auto simp: flists_def)
  have yi: "(node_head y, ys) \<in> set (heads N)" using y by (force simp: heads_def)
  then have sg: "seg h (node_head y) ys (node_head y)" using f(1) by (auto simp: flists_def)
  have sub: "set (node_head y # ys) \<subseteq> set (nodes (heads N))" using yi by (auto simp: nodes_def)
  obtain fh n where fh: "ld h (link_next (node_head y)) = Some fh" "fh \<in> set (node_head y # ys)"
    and n: "ld h (link_next fh) = Some n" "n \<in> set (node_head y # ys)"
    using two_steps [OF sg] by blast
  have lr: "link_next x \<in> link_rows (heads N)" "link_prev x \<in> link_rows (heads N)" if "x \<in> set (nodes (heads N))" for x
    using that by (auto simp: link_rows_def)
  have info: "at ?a ?p \<notin> link_rows (heads N)" "at ?a (?p + g) \<notin> link_rows (heads N)" "at ?a (?p + k - 8) \<notin> link_rows (heads N)"
    using info_not_link [OF T l, of ?p] ins [of "?p + g"] ins [of "?p + k - 8"] g bs by auto
  have th: "node_head t \<in> set (nodes (heads N))" using t(1) by (auto simp: nodes_heads)
  have ysb: "set ys \<subseteq> set (blocks (heads N))" using yi by (auto simp: blocks_def)
  have ht: "node_head t \<notin> set (node_head y # ys)"
    using head_not_block [OF h t(1)] ysb t(2) by (auto simp: node_head_def)
  have l1: "ld h1 (link_next x) = ld h (link_next x)" if "x \<in> set (node_head y # ys)" for x
  proof (rule fr)
    have "x \<in> set (nodes (heads N))" "x \<noteq> node_head t" using that sub ht by auto
    then show "link_next x \<notin> {at ?a ?p, at ?a (?p + g), at ?a (?p + k - 8), link_next (node_head t)}"
      using info lr(1) [of x] by auto
  qed
  have nn: "n \<in> set (nodes (heads N))" using n(2) sub by auto
  have v: "link_next ?v = at ?a (?p + g + 8)" "link_prev ?v = at ?a (?p + g + 16)" by (simp_all add: link_at)
  have vn: "link_next ?v \<notin> link_rows (heads N)" "link_prev ?v \<notin> link_rows (heads N)"
    unfolding v using ins [of "?p + g + 8"] ins [of "?p + g + 16"] g by auto
  have mp: "\<exists>w. ld h1 (link_next ?v) = Some w" "\<exists>w. ld h1 (link_prev ?v) = Some w"
  proof -
    have "sized [Used g r, Free (k - g)]" using t1 by (simp add: tiling_def)
    then have "16 dvd ?p" "16 dvd g" using s(1) sized_dvd by auto
    then have "8 dvd ?p + g + 8" "8 dvd ?p + g + 16" by presburger+
    then show "\<exists>w. ld h1 (link_next ?v) = Some w" "\<exists>w. ld h1 (link_prev ?v) = Some w"
      using tiling_mapped [OF t1, of "?p + g + 8"] tiling_mapped [OF t1, of "?p + g + 16"] g h1(1) unfolding v
      by (simp_all add: base_def)
  qed
  have np: "\<exists>w. ld h1 (link_prev n) = Some w"
    using link_rows_mapped [OF f(1) lr(2) [OF nn]] h1 by (auto simp: ld_def)
  define m where "m = m1(link_next ?v \<mapsto> n, link_prev ?v \<mapsto> fh, link_prev n \<mapsto> ?v)"
  have "remainder_scan h1 ?u ?v y = Some (True, h\<lparr>mem := m\<rparr>)"
  proof -
    have ln: "ld h1 (link_next (node_head y)) = Some fh" "ld h1 (link_next fh) = Some n"
      using l1 [of "node_head y"] l1 [OF fh(2)] fh(1) n(1) by simp_all
    have ne: "link_next fh \<noteq> link_next ?v" "link_next fh \<noteq> link_prev ?v" using lr(1) [of fh] fh(2) sub vn by auto
    obtain w1 w2 w3 where w: "ld h1 (link_next ?v) = Some w1" "ld h1 (link_prev ?v) = Some w2" "ld h1 (link_prev n) = Some w3"
      using mp np by blast
    show ?thesis using nx sz ln w ne
      by (subst remainder_scan.simps) (simp add: sto_def ld_def h1(1) m_def)
  qed
  moreover have "dom m = dom (mem h)" using mp np h1 unfolding m_def by (auto simp: ld_def)
  moreover have "ld (h\<lparr>mem := m\<rparr>) (at ?a x) = ld h1 (at ?a x)" if x: "x < extent bs + 8" "x \<notin> links 0 ?bs1" for x
  proof -
    have "x \<noteq> ?p + g + 8" "x \<noteq> ?p + g + 16" using x(2) by (auto simp: links_def)
    then have "at ?a x \<noteq> link_next ?v" "at ?a x \<noteq> link_prev ?v" unfolding v using x(1) bs s(3) g by (auto simp: at_inj)
    moreover have "at ?a x \<noteq> link_prev n" by (rule back_link_off [OF h bs g y n(2) x])
    ultimately show ?thesis using h1(1) by (simp add: m_def ld_def)
  qed
  ultimately show ?thesis by blast
qed


subsection \<open>Allocation\<close>

definition allot :: "nat \<Rightarrow> nat \<Rightarrow> nat \<Rightarrow> ablock list" where
  "allot k g r = (if g + 32 \<le> k then [Used g r, Free (k - g)] else [Used k r])"

text \<open>What the callers of the allocator see of it.\<close>

definition allotted :: "heap \<Rightarrow> ablock list \<Rightarrow> nat \<Rightarrow> ablock list \<Rightarrow> ablock list \<Rightarrow> (u64 \<times> heap) option \<Rightarrow> bool" where
  "allotted h ls k rs M res \<longleftrightarrow> (\<exists>m. res = Some (at (base h) (extent ls + 8), h\<lparr>mem := m\<rparr>) \<and> tiling (h\<lparr>mem := m\<rparr>) (ls @ M @ rs) \<and>
     (\<forall>x \<in> payload 0 ls \<union> payload (extent ls + k) rs. ld (h\<lparr>mem := m\<rparr>) (at (base h) x) = ld h (at (base h) x)))"

lemma tail_of_nodes:
  assumes "lists_ok h N" "N = A @ (y, sy, ys) # B" "(t, st, xs) \<in> set N" "sy < st" "\<forall>(k, t, xs) \<in> set A. t < st"
  shows "B \<noteq> [] \<and> t \<noteq> y"
proof -
  have "(t, st, xs) \<in> set B" using assms(2-5) by auto
  moreover have "distinct (map fst N)" using nodes_okD(4) [OF lists_okD(2) [OF assms(1)]] by simp
  ultimately show ?thesis using assms(2) by (auto simp: image_iff)
qed

text \<open>What the carving leaves unchanged.\<close>

lemma carved_nodes:
  assumes h: "heap_ok h bs N" and t: "t \<in> set (free_list_head h # map fst N)" and W: "W \<subseteq> heap_rows h"
    and m1: "dom m1 = dom (mem h)" "\<And>x. x \<notin> insert (link_next (node_head t)) W \<Longrightarrow> ld (h\<lparr>mem := m1\<rparr>) x = ld h x"
  shows "nodes_ok (h\<lparr>mem := m1\<rparr>) N"
proof -
  have l: "nodes_ok h N" using heap_okD [OF h] lists_okD(2) by blast
  note O = nodes_okD [OF l]
  show ?thesis
  proof (rule nodes_ok_cong [OF l refl refl])
    fix n r assume n: "n \<in> set (free_list_head h # map fst N)" "r \<in> {node_size n, node_next n, node_prev n}"
    have "r \<in> node_rows n" using n(2) head_rows [of n] by auto
    then have "r \<notin> heap_rows h" using O(6) [OF n(1)] by blast
    moreover have "r \<noteq> link_next (node_head t)"
      using O(8) [OF n(1) t] \<open>r \<in> node_rows n\<close> head_rows [of t] n(2)
      by (cases "n = t") (auto simp: node_size_def node_next_def node_prev_def link_next_def node_head_def)
    ultimately show "ld (h\<lparr>mem := m1\<rparr>) r = ld h r" using W by (intro m1(2)) blast
  qed (simp add: m1(1))
qed

lemma split_allots:
  assumes h: "heap_ok h bs N" and t: "t \<in> set (free_list_head h # map fst N)" and bs: "bs = ls @ Free k # rs" and g: "32 \<le> g" "g + 32 \<le> k"
    and m1: "tiling (h\<lparr>mem := m1\<rparr>) (ls @ [Used g r, Free (k - g)] @ rs)"
      "\<And>x. x \<notin> {at (base h) (extent ls), at (base h) (extent ls + g), at (base h) (extent ls + k - 8), link_next (node_head t)} \<Longrightarrow>
        ld (h\<lparr>mem := m1\<rparr>) x = ld h x"
    and m: "dom m1 \<subseteq> dom m" "\<And>x. x < extent bs + 8 \<Longrightarrow> x \<notin> links 0 (ls @ [Used g r, Free (k - g)] @ rs) \<Longrightarrow>
        ld (h\<lparr>mem := m\<rparr>) (at (base h) x) = ld (h\<lparr>mem := m1\<rparr>) (at (base h) x)"
    and e: "res = Some (at (base h) (extent ls) + 8, h\<lparr>mem := m\<rparr>)"
  shows "allotted h ls k rs [Used g r, Free (k - g)] res"
proof -
  let ?a = "base h" and ?p = "extent ls" and ?bs1 = "ls @ [Used g r, Free (k - g)] @ rs"
  have T: "tiling h bs" and l: "nodes_ok h N" using heap_okD [OF h] lists_okD(2) by auto
  have s: "?p + k + extent rs < 2 ^ 31" using T bs by (simp add: tiling_def)
  have out: "ld (h\<lparr>mem := m1\<rparr>) (at ?a x) = ld h (at ?a x)" if "x \<in> payload 0 ls \<union> payload (?p + k) rs" for x
  proof (rule m1(2))
    have x: "x < ?p \<or> ?p + k \<le> x" "x < extent bs + 8" using that payload_range [of x 0 ls] payload_range [of x "?p + k" rs] bs by auto
    then have "at ?a x \<notin> {at ?a ?p, at ?a (?p + g), at ?a (?p + k - 8)}" using bs g s by (auto simp: at_inj)
    then show "at ?a x \<notin> {at ?a ?p, at ?a (?p + g), at ?a (?p + k - 8), link_next (node_head t)}"
      using node_link_off(1) [OF T l t x(2)] by auto
  qed
  note L = tiling_links [OF m1(1), of m]
  have "tiling (h\<lparr>mem := m\<rparr>) ?bs1" using L(1) m bs g by simp
  moreover have "ld (h\<lparr>mem := m\<rparr>) (at ?a x) = ld h (at ?a x)" if x: "x \<in> payload 0 ls \<union> payload (?p + k) rs" for x
    using L(2) [of x] m out [OF x] x g bs by (auto simp: add.assoc)
  ultimately show ?thesis using e unfolding allotted_def by (auto simp: at_add)
qed

lemma split_ok:
  assumes h: "heap_ok h bs N" and N: "N = A0 @ (t, of_nat k, b # xs) # B0" and bs: "bs = ls @ Free k # rs" "b = at (base h) (extent ls)"
    and g: "32 \<le> g" "16 dvd g" "g + 32 \<le> k" "r + 8 \<le> g" and sz: "sz = of_nat r" and E: "adds_lists E h"
  shows "allotted h ls k rs [Used g r, Free (k - g)] (alloc_split E h t (of_nat k) (of_nat g) sz)"
proof -
  let ?a = "base h" and ?p = "extent ls" and ?q = "free_list_head h" and ?u = "of_nat (k - g) :: u64"
  let ?v = "at ?a (?p + g)" and ?bs1 = "ls @ [Used g r, Free (k - g)] @ rs"
  have t: "tiling h bs" and l: "lists_ok h N" using heap_okD [OF h] by auto
  note O = nodes_okD [OF lists_okD(2) [OF l]]
  have s: "sized ls" "sized rs" "?p + k + extent rs < 2 ^ 31" using t bs by (simp_all add: tiling_def)
  have tN: "(t, of_nat k, b # xs) \<in> set N" and tin: "t \<in> set (?q # map fst N)" using N by auto
  obtain m1 where c: "carve_block h t (of_nat k) (of_nat g) sz = Some (b, ?v, h\<lparr>mem := m1\<rparr>)" "dom m1 = dom (mem h)"
    "tiling (h\<lparr>mem := m1\<rparr>) ?bs1"
    "\<And>x. x \<notin> {b, ?v, at ?a (?p + k - 8), link_next (node_head t)} \<Longrightarrow> ld (h\<lparr>mem := m1\<rparr>) x = ld h x"
    using carve_ok [OF h N bs g sz] by blast
  let ?h1 = "h\<lparr>mem := m1\<rparr>"
  have cheap: "{b, ?v, at ?a (?p + k - 8)} \<subseteq> heap_rows h" using bs g by (auto simp: tiling_rows [OF t])
  have o1: "nodes_ok ?h1 N" by (rule carved_nodes [OF h tin cheap c(2)]) (rule c(4), auto)
  note O1 = nodes_okD [OF o1]
  note finish = split_allots [OF h tin bs(1) g(1,3) c(3) c(4) [unfolded bs(2)]]
  obtain A B where AB: "N = A @ B" "\<forall>(k, t, xs) \<in> set A. t < ?u" "\<forall>(k, t, xs) \<in> set B. ?u \<le> t"
    using split_sizes [OF O(2), of ?u] by blast
  have uk: "?u < of_nat k" "0 < ?u"
    using unat_of_nat_u64 [of "k - g"] unat_of_nat_u64 [of k] s(3) g by (simp_all add: word_less_nat_alt)
  have "B \<noteq> []" using AB tN uk(1) by auto
  then obtain y sy ys B' where B: "B = (y, sy, ys) # B'" by (cases B) auto
  have yN: "(y, sy, ys) \<in> set N" using AB(1) B by simp
  have ring: "nseg ?h1 ?q (map fst A @ y # map fst B') ?q" using O1(3) AB(1) B by simp
  have szA: "\<forall>(k, t, xs) \<in> set A. ld ?h1 (node_size k) = Some t \<and> t < ?u" using O1(1) AB(1,2) by auto
  have hA: "?q \<notin> fst ` set A \<union> {y}" using O1(4) AB(1) B by auto
  have szy: "ld ?h1 (node_size y) = Some sy" using O1(1) [OF yN] .
  have sc: "remainder_scan ?h1 ?u ?v ?q = remainder_scan ?h1 ?u ?v y"
    using remainder_scan_skip [of ?h1 ?q A y "map fst B'" 0 ?u ?v] ring szA hA O1(5) uk(2) by simp
  have nx: "ld ?h1 (node_next y) = Some (hd (map fst B' @ [?q]))" using ring nseg_firsts by auto
  have sp: "alloc_split E h t (of_nat k) (of_nat g) sz = (case remainder_scan ?h1 ?u ?v y of None \<Rightarrow> None
      | Some (flag, h) \<Rightarrow> do { h \<leftarrow> (if flag then Some h else remainder_new E h ?u ?v (free_list_head h)); Some (b + 8, h) })"
    using c(1) sc g by (simp add: alloc_split_def of_nat_diff split: option.splits)
  show ?thesis
  proof (cases "sy = ?u")
    case True
    have At: "\<forall>(k', t, xs) \<in> set A. t < of_nat k" using AB(2) uk(1) by fastforce
    have ty: "B' \<noteq> []" "t \<noteq> y" using tail_of_nodes [OF l, of A y sy ys B' t "of_nat k" "b # xs"] AB(1) B tN True uk(1) At by auto
    have z: "hd (map fst B' @ [?q]) \<noteq> ?q" using O1(4) AB(1) B ty(1) by (cases B') auto
    have "t \<in> fst ` set N" using tN by (force intro: rev_image_eqI)
    from remainder_existing [OF h bs(1) g(1,3) c(3) refl c(2) c(4) [unfolded bs(2)] yN [unfolded True] this ty(2) nx z szy [unfolded True]]
    obtain m where m: "remainder_scan ?h1 ?u ?v y = Some (True, h\<lparr>mem := m\<rparr>)" "dom m = dom (mem h)"
      "\<forall>x < extent bs + 8. x \<notin> links 0 ?bs1 \<longrightarrow> ld (h\<lparr>mem := m\<rparr>) (at ?a x) = ld ?h1 (at ?a x)" by blast
    show ?thesis
      by (rule finish [of m]) (use sp m c(2) bs in simp_all)
  next
    case False
    then have sy: "?u < sy" using AB(3) B by auto
    have Bu: "\<forall>(k, t, xs) \<in> set B. ?u < t"
      using sorted_wrt_less_split [of A y sy ys B' ?u] O(2) AB(1) B sy by auto
    have "remainder_scan ?h1 ?u ?v y = Some (False, ?h1)"
      using szy sy nx False by (subst remainder_scan.simps) auto
    moreover have "remainder_new E ?h1 ?u ?v ?q = new_list_after E ?h1 ?u (last (?q # map fst A)) ?v"
      using remainder_new_skip [of ?h1 ?q A y "map fst B'" 0 ?u sy E ?v] ring szA hA O1(5) uk(2) szy sy by simp
    moreover have "ld ?h1 (node_next (last (?q # map fst A))) = Some y" using nseg_between [of ?h1 ?q "map fst A" "y # map fst B'" ?q] ring by simp
    then have "new_list_after E ?h1 ?u (last (?q # map fst A)) ?v = new_node E ?h1 ?u (last (?q # map fst A)) y ?v"
      by (simp add: new_list_after_def new_node_def)
    ultimately have sp': "alloc_split E h t (of_nat k) (of_nat g) sz =
        (case new_node E ?h1 ?u (last (?q # map fst A)) y ?v of None \<Rightarrow> None | Some h \<Rightarrow> Some (b + 8, h))"
      using sp by (simp split: option.splits)
    have E1: "adds_lists E ?h1" using E c(2) unfolding adds_lists_def by simp
    have cf: "?p + g \<in> set (frees 0 ?bs1)" by simp
    have mp: "ld ?h1 (link_next ?v) \<noteq> None" "ld ?h1 (link_prev ?v) \<noteq> None"
    proof -
      have "16 dvd ?p" using s(1) by (rule sized_dvd)
      then have "8 dvd ?p + g + 8" "8 dvd ?p + g + 16" using g(2) by presburger+
      then show "ld ?h1 (link_next ?v) \<noteq> None" "ld ?h1 (link_prev ?v) \<noteq> None"
        using tiling_mapped [OF c(3), of "?p + g + 8"] tiling_mapped [OF c(3), of "?p + g + 16"] g by (auto simp: link_at)
    qed
    from new_node_runs [OF c(3) o1 cf E1 AB(1,2) Bu refl _ _ mp, of y] B obtain m n where
      m: "new_node E ?h1 ?u (last (?q # map fst A)) y ?v = Some (h\<lparr>mem := m\<rparr>)" "node_rows n \<inter> (dom m1 \<union> heap_rows h) = {}" "dom m1 \<subseteq> dom m"
      "\<And>r. r \<notin> node_rows n \<union> {node_prev y, node_next (last (?q # map fst A)), link_next ?v, link_prev ?v} \<Longrightarrow> ld (h\<lparr>mem := m\<rparr>) r = ld ?h1 r"
      by auto
    have pin: "last (?q # map fst A) \<in> set (?q # map fst N)" "y \<in> set (?q # map fst N)"
    proof -
      have "set (?q # map fst A) \<subseteq> set (?q # map fst N)" using AB(1) by auto
      then show "last (?q # map fst A) \<in> set (?q # map fst N)" using last_in_set [of "?q # map fst A"] by blast
      show "y \<in> set (?q # map fst N)" using AB(1) B by simp
    qed
    show ?thesis
    proof (rule finish [of m])
      show "ld (h\<lparr>mem := m\<rparr>) (at ?a x) = ld ?h1 (at ?a x)" if x: "x < extent bs + 8" "x \<notin> links 0 ?bs1" for x
        using outside_new_node [OF c(3) o1 cf, of "last (?q # map fst A)" y n x] pin m(2) x bs g by (intro m(4)) simp
    qed (use sp' m bs in simp_all)
  qed
qed


lemma exact_ok:
  assumes h: "heap_ok h bs N" and N: "N = A0 @ (t, of_nat k, b # xs) # B0" and bs: "bs = ls @ Free k # rs" "b = at (base h) (extent ls)"
    and r: "r + 8 \<le> k" and sz: "sz = of_nat r"
  shows "allotted h ls k rs [Used k r] (alloc_exact h t (of_nat k) sz)"
proof -
  let ?a = "base h" and ?p = "extent ls" and ?q = "free_list_head h"
  have t: "tiling h (ls @ [Free k] @ rs)" and l: "lists_ok h N" and cb: "compact bs" using heap_okD [OF h] bs(1) by auto
  have s: "sized ls" "sized rs" "32 \<le> k" "16 dvd k" "?p + k + extent rs < 2 ^ 31" using t by (simp_all add: tiling_def)
  have tN: "(t, of_nat k, b # xs) \<in> set N" and tin: "t \<in> set (?q # map fst N)" using N by auto
  note nl = node_link_off(1) [OF t lists_okD(2) [OF l] tin]
  have b1: "ld h (link_next (node_head t)) = Some b" using node_first(1) [OF l tN] by simp
  obtain w where w: "ld h b = Some w" "prev_allocated w = of_bool (last_used True ls)"
    using tiling_block [of h ls "Free k" rs] t bs(2) by (auto simp: block_at_def)
  have "16 dvd ?p" using s(1) by (rule sized_dvd)
  then have "8 dvd ?p + 8" by presburger
  then obtain n where n: "ld h (at ?a (?p + 8)) = Some n" using tiling_mapped [OF t, of "?p + 8"] s(3) by auto
  obtain v where v: "ld h (at ?a (?p + k)) = Some v" using tiling_behind [of h "ls @ [Free k]" rs] t by auto
  let ?w = "set_allocated 1 (set_requested_size sz (set_block_size (drop_bit 4 (of_nat k)) w))"
  let ?m = "(mem h)(b \<mapsto> ?w, at ?a (?p + k) \<mapsto> set_prev_allocated 1 v, link_next (node_head t) \<mapsto> n)"
  let ?h = "h\<lparr>mem := ?m\<rparr>"
  have uk: "unat (of_nat k :: u64) = k" "unat (of_nat r :: u64) = r" using s r by (auto intro: unat_of_nat_u64)
  have bw: "bsz ?w = of_nat k"
    using bsz_set_block_size [of "of_nat k" w] s uk by (simp add: bsz_def bs_int_def)
  have rq: "requested_size ?w = sz"
  proof -
    have "unat (take_bit 32 sz) = unat sz"
      using sz uk(2) r s by (simp only: unsigned_take_bit_eq) (rule take_bit_nat_eq_self, simp)
    then show ?thesis by (simp only: other_field own_field word_unat_eq_iff)
  qed
  have ne: "link_next (node_head t) \<noteq> b" "link_next (node_head t) \<noteq> at ?a (?p + k)" "b \<noteq> at ?a (?p + k)" "link_next b \<noteq> b"
      "link_next b \<noteq> at ?a (?p + k)"
    using nl [of ?p] nl [of "?p + k"] s bs(2) by (simp_all add: link_at at_inj)
  have e: "alloc_exact h t (of_nat k) sz = Some (b + 8, ?h)"
    using b1 w(1) v n bw ne bs(2)
    by (simp add: alloc_exact_def upd_mapped sto_mapped Let_def of_nat_at link_at)
  have off: "ld ?h (at ?a x) = ld h (at ?a x)" if "x \<noteq> ?p" "x \<noteq> ?p + k" "x < ?p + k + extent rs + 8" for x
    using that nl [of x] s bs(2) by (auto simp: at_inj)
  have "tiling ?h (ls @ [Used k r] @ rs)"
  proof (rule retile [OF t])
    have "unat (bs_int ?w) = k" using bsz_nat [OF bw] s(5) by simp
    then show "tiled ?h ?a ?p (last_used True ls) [Used k r]"
      using w(2) ne bs(2) rq sz uk(2) r by (simp add: block_at_def)
    have "closed h ?a (?p + k) False rs" using t by (simp add: tiling_def closed_append closed_Cons)
    then have "closed ?h ?a (?p + k) True rs"
    proof (rule closed_prev [OF _ s(2) v])
      show "ld ?h (at ?a (?p + k)) = Some (set_prev_allocated (of_bool True) v)" using ne by simp
      fix x assume x: "x \<in> insert (?p + k + extent rs) (infos (?p + k) rs) - {?p + k}"
      then have "?p + k \<le> x" "x < ?p + k + extent rs + 8" using infos_range [OF s(2), of x "?p + k"] by auto
      then show "ld ?h (at ?a x) = ld h (at ?a x)" using x s(3) by (intro off) auto
    qed
    then show "closed ?h ?a (?p + extent [Free k]) (last_used (last_used True ls) [Used k r]) rs" by simp
    show "ld ?h (at ?a x) = ld h (at ?a x)" if "x \<in> infos 0 ls" for x
      using infos_range [OF s(1) that] by (intro off) auto
    show "dom (mem h) \<subseteq> dom ?m" by auto
  qed (use s in simp_all)
  moreover have "ld ?h (at ?a x) = ld h (at ?a x)" if "x \<in> payload 0 ls \<union> payload (?p + k) rs" for x
    using that payload_range [of x 0 ls] payload_range [of x "?p + k" rs] by (intro off) auto
  ultimately show ?thesis unfolding allotted_def using e bs(2) by (intro exI [of _ ?m]) (simp add: at_add del: ld_mem ld_mem2)
qed

lemma heap_in_use:
  assumes t: "tiling h bs"
  shows "mem_start h \<noteq> mem_end h"
proof
  assume e: "mem_start h = mem_end h"
  then have "at (base h) (extent bs + 8) + 0 = at (base h) 0 - 40" using t by (simp add: tiling_def base_def)
  then show False using unat_at [OF t, of "extent bs + 8"] t e by (simp add: tiling_def)
qed

text \<open>C12: On such a heap, if some free block holds the request and a header, \<open>sf_malloc\<close> returns the
  payload of a smallest such block. The block allocated there has the least size that is a multiple of 16, at
  least 32 and holds request and header; the rest stays a free block, unless fewer than 32 bytes
  would remain; headers and footers again tile the heap, and no payload of another block changes.\<close>

theorem sf_malloc_correct:
  assumes h: "heap_ok h bs N" and E: "adds_lists E h" and f: "fitting r bs" and r: "0 < r" "r < 2 ^ 62"
  shows "\<exists>ls k rs g. bs = ls @ Free k # rs \<and> r + 8 \<le> k \<and> (\<forall>k'. Free k' \<in> set bs \<and> r + 8 \<le> k' \<longrightarrow> k \<le> k') \<and>
    32 \<le> g \<and> 16 dvd g \<and> r + 8 \<le> g \<and> (\<forall>c. 32 \<le> c \<and> 16 dvd c \<and> r + 8 \<le> c \<longrightarrow> g \<le> c) \<and>
    allotted h ls k rs (allot k g r) (sf_malloc E h (of_nat r))"
proof -
  let ?sz = "of_nat r :: u64"
  have t: "tiling h bs" and l: "lists_ok h N" using heap_okD [OF h] by auto
  obtain A t b xs B ls k rs where F: "N = A @ (t, of_nat k, b # xs) # B" "find (fits h ?sz) (map fst N) = Some t"
    "bs = ls @ Free k # rs" "b = at (base h) (extent ls)" "r + 8 \<le> k" "\<forall>k'. Free k' \<in> set bs \<and> r + 8 \<le> k' \<longrightarrow> k \<le> k'"
    by (rule best_fit [OF h f refl r(2)])
  have k: "32 \<le> k" "16 dvd k" "k < 2 ^ 31" using t F(3) by (simp_all add: tiling_def)
  define g where "g = unat (round_size ?sz)"
  have ur: "unat ?sz = r" using r(2) by (intro unat_of_nat_u64) simp
  have g: "32 \<le> g" "16 dvd g" "r + 8 \<le> g" "\<forall>c. 32 \<le> c \<and> 16 dvd c \<and> r + 8 \<le> c \<longrightarrow> g \<le> c"
    using round_size_least [of ?sz] r(2) unfolding g_def ur by auto
  have gk: "g \<le> k" using g(4) k F(5) by blast
  have rg: "round_size ?sz = of_nat g" unfolding g_def by simp
  have fresh: "mem_start h \<noteq> mem_end h" by (rule heap_in_use [OF t])
  have sz0: "?sz \<noteq> 0" using ur r(1) by (metis less_irrefl unat_0)
  have "sf_malloc E h ?sz = alloc_from E h t ?sz"
    using fresh sz0 find_node_chain [OF nodes_chain [OF l], of ?sz] F(2) by (subst sf_malloc.simps) simp
  moreover have "ld h (node_size t) = Some (of_nat k)" using nodes_okD(1) [OF lists_okD(2) [OF l], of t] F(1) by auto
  moreover have "(of_nat k :: u64) - of_nat g \<ge> 32 \<longleftrightarrow> g + 32 \<le> k"
  proof -
    have "(of_nat k :: u64) - of_nat g = of_nat (k - g)" using gk by (simp add: of_nat_diff)
    moreover have "unat (of_nat (k - g) :: u64) = k - g" using k by (intro unat_of_nat_u64) simp
    ultimately show ?thesis using gk by (simp add: word_le_nat_alt) linarith
  qed
  ultimately have m: "sf_malloc E h ?sz = (if g + 32 \<le> k then alloc_split E h t (of_nat k) (of_nat g) ?sz else alloc_exact h t (of_nat k) ?sz)"
    by (simp add: alloc_from_def rg Let_def)
  have "allotted h ls k rs (allot k g r) (sf_malloc E h ?sz)"
  proof (cases "g + 32 \<le> k")
    case True
    then show ?thesis using split_ok [OF h F(1,3,4) g(1,2) True g(3) refl E] m by (simp add: allot_def)
  next
    case False
    then show ?thesis using exact_ok [OF h F(1,3,4,5) refl] m by (simp add: allot_def)
  qed
  then show ?thesis using F(3,5,6) g by blast
qed


subsection \<open>The first page\<close>

text \<open>The contract of \<open>sf_mem_grow\<close> on an empty heap: one page of rows with any content is added at the end. The dummy
  node of the list of free lists is linked to itself.\<close>

definition first_page :: "sf_ext \<Rightarrow> heap \<Rightarrow> heap \<Rightarrow> bool" where
  "first_page E h h1 \<longleftrightarrow> mem_start h = mem_end h \<and> snd (sf_mem_grow E h) = h1 \<and> mem_start h1 = mem_start h \<and>
     mem_end h1 = mem_start h + 4096 \<and> free_list_head h1 = free_list_head h \<and> unat (mem_start h) + 4096 < 2 ^ 64 \<and>
     (\<forall>x < 4096. 8 dvd x \<longrightarrow> ld h1 (at (mem_start h) x) \<noteq> None) \<and>
     (\<forall>x < 4096. at (mem_start h) x \<notin> node_rows (free_list_head h)) \<and> nodes_ok h1 []"

lemma sto_same: "ld h a = Some v \<Longrightarrow> sto h a v = Some h"
  by (simp add: sto_def ld_def fun_upd_idem)

lemma page_info:
  fixes w :: u64
  defines "v \<equiv> set_allocated 0 (set_prev_allocated 1 (set_block_size 253 w))" and "f \<equiv> set_prev_allocated 1 (set_allocated 0 (set_block_size 253 w))"
  shows "allocated v = 0" "prev_allocated v = 1" "bs_int v = 4048" "allocated f = 0" "bs_int f = 4048"
proof -
  have "(253 :: u64) = int_to_bs 4048" by code_simp
  moreover have "take_bit 4 (4048 :: u32) = 0" by code_simp
  ultimately have "bs_int (set_block_size 253 w) = 4048" using bs_int_set [of 4048 w] by simp
  then show "bs_int v = 4048" "bs_int f = 4048" by (simp_all add: v_def f_def bs_int_def)
  show "allocated v = 0" "prev_allocated v = 1" "allocated f = 0" by (simp_all add: v_def f_def)
qed

text \<open>The heap before the first list is made, apart from its last row, the epilogue, of which the code has
  written only the allocated bit.\<close>

lemma page_blocks:
  assumes p: "first_page E h h1" and ep: "ld h1 (mem_end h1 - 8) = Some ep"
  obtains m v where "tiling (h1\<lparr>mem := m\<rparr>) [Free 4048]" "nodes_ok (h1\<lparr>mem := m\<rparr>) []" "dom m = dom (mem h1)"
    "ld (h1\<lparr>mem := m\<rparr>) (at (mem_start h) 40) = Some v" "bsz v = 4048"
    "sf_init E h = (let g = soil (at (mem_start h) 4088) (set_allocated 1 ep) (h1\<lparr>mem := m\<rparr>) in do {
       nx \<leftarrow> ld g (node_next (free_list_head h1));
       let (n, k) = sf_add_free_list E 4048 nx g;
       k \<leftarrow> sto k (node_next (free_list_head k)) n; k \<leftarrow> sto k (node_prev (free_list_head k)) n;
       k \<leftarrow> sto k (node_next n) (free_list_head k); k \<leftarrow> sto k (node_prev n) (free_list_head k);
       link_single k n (at (mem_start h) 40) })"
proof -
  define a where "a = mem_start h"
  have z: "ld h1 (at a x) \<noteq> None" if "x < 4096" "8 dvd x" for x using p that unfolding first_page_def a_def by blast
  obtain w8 w32 wh wf where zs: "mem h1 (at a 8) = Some w8" "mem h1 (at a 32) = Some w32" "mem h1 (at a 40) = Some wh" "mem h1 (at a 4080) = Some wf"
    using z [of 8] z [of 32] z [of 40] z [of 4080] by (auto simp: ld_def)
  have me: "mem_end h1 = at a 4096" using p by (simp add: first_page_def a_def at_def)
  have "mem h1 (at a 4088) = Some ep" using ep by (simp add: me at_diff ld_def)
  note zs = zs this
  let ?v = "set_allocated 0 (set_prev_allocated 1 (set_block_size 253 wh))" and ?f = "set_prev_allocated 1 (set_allocated 0 (set_block_size 253 wf))"
  define m where "m = (mem h1)(at a 8 \<mapsto> set_allocated 1 w8, at a 32 \<mapsto> set_allocated 1 w32, at a 40 \<mapsto> ?v, at a 4080 \<mapsto> ?f, at a 4088 \<mapsto> set_allocated 1 0)"
  let ?h = "h1\<lparr>mem := m\<rparr>"
  have d: "dom m = dom (mem h1)" unfolding m_def using zs by auto
  have ad: "a + 8 = at a 8" "a + 32 = at a 32" "a + 40 = at a 40" "a + 4096 - 8 = at a 4088" "a + 4096 - 16 = at a 4080" by (simp_all add: at_def)
  have ne: "at a x = at a y \<longleftrightarrow> x = y" if "x \<in> {8, 32, 40, 4080, 4088}" "y \<in> {8, 32, 40, 4080, 4088}" for x y
    using that by (intro at_inj) auto
  have g: "sf_mem_grow E h = (fst (sf_mem_grow E h), h1)" "mem_start h1 = a" "mem_end h1 = a + 4096"
    using p unfolding first_page_def a_def by (simp_all add: prod_eq_iff)
  have c: "drop_bit 4 ((PAGE_SZ :: u64) - 48) = 253" "(PAGE_SZ :: u64) - 48 = 4048" unfolding PAGE_SZ_def by code_simp+
  have mm: "(mem h1)(at a 8 \<mapsto> set_allocated 1 w8, at a 32 \<mapsto> set_allocated 1 w32, at a 4088 \<mapsto> set_allocated 1 ep, at a 40 \<mapsto> ?v, at a 4080 \<mapsto> ?f) =
      m(at a 4088 \<mapsto> set_allocated 1 ep)"
    unfolding m_def by (simp add: fun_eq_iff ne)
  have so: "soil (at a 4088) (set_allocated 1 ep) ?h = h1\<lparr>mem := (mem h1)(at a 8 \<mapsto> set_allocated 1 w8, at a 32 \<mapsto> set_allocated 1 w32,
      at a 4088 \<mapsto> set_allocated 1 ep, at a 40 \<mapsto> ?v, at a 4080 \<mapsto> ?f)\<rparr>"
    by (simp add: soil_def mm)
  have run: "sf_init E h = (let g = soil (at a 4088) (set_allocated 1 ep) ?h in do {
       nx \<leftarrow> ld g (node_next (free_list_head h1));
       let (n, h) = sf_add_free_list E 4048 nx g;
       h \<leftarrow> sto h (node_next (free_list_head h)) n; h \<leftarrow> sto h (node_prev (free_list_head h)) n;
       h \<leftarrow> sto h (node_next n) (free_list_head h); h \<leftarrow> sto h (node_prev n) (free_list_head h);
       link_single h n (at a 40) })"
    unfolding sf_init_def c so using zs ad
    by (subst g(1)) (simp add: upd_def sto_def ld_def ne g(2,3) Let_def)
  have b: "base h1 = at a 40" "mem_end h1 = at a 4096" using p by (simp_all add: base_def at_def first_page_def a_def)
  have st: "mem_start h1 = a" "unat a + 4096 < 2 ^ 64" using p unfolding first_page_def a_def by blast+
  have l: "ld ?h (at a 40) = Some ?v" "ld ?h (at a 4080) = Some ?f" "ld ?h (at a 4088) = Some (set_allocated 1 0)"
    by (simp_all add: ld_def m_def ne)
  have "prev_allocated (set_allocated 1 0) = 0" by code_simp
  then have "closed ?h (at a 40) 0 True [Free 4048]"
    using l page_info by (simp add: closed_def block_at_def)
  moreover have "ld ?h (at a (40 + x)) \<noteq> None" if "x < 4048" "8 dvd x" for x
  proof -
    have "8 dvd 40 + x" using that(2) by presburger
    then have "ld h1 (at a (40 + x)) \<noteq> None" using z [of "40 + x"] that(1) by simp
    then have "at a (40 + x) \<in> dom (mem h1)" by (auto simp: ld_def)
    then show ?thesis unfolding d [symmetric] by (auto simp: ld_def)
  qed
  ultimately have t: "tiling ?h [Free 4048]"
    using st by (simp add: tiling_def b)
  have o: "nodes_ok h1 []" "\<And>x. x < 4096 \<Longrightarrow> at a x \<notin> node_rows (free_list_head h1)"
    using p unfolding first_page_def a_def by auto
  have "nodes_ok ?h []"
  proof (rule nodes_ok_cong [OF o(1) refl refl])
    fix n r assume "n \<in> set (free_list_head h1 # map fst [])" "r \<in> {node_size n, node_next n, node_prev n}"
    then have "r \<in> node_rows (free_list_head h1)" using head_rows [of "free_list_head h1"] by auto
    then have "r \<notin> {at a 8, at a 32, at a 4088, at a 40, at a 4080}" using o(2) by auto
    then show "ld ?h r = ld h1 r" by (simp add: ld_def m_def)
  qed (simp add: d)
  moreover have "bsz ?v = 4048" using page_info [of wh] by (simp add: bsz_def)
  ultimately show ?thesis by (intro that [of m ?v]; (unfold a_def [symmetric])?) (rule t d l(1) run | assumption)+
qed

lemma epilogue_words: "allocated (set_allocated 1 w) = 1" "prev_allocated (set_allocated 1 w) = prev_allocated w"
  "allocated (set_prev_allocated 0 (set_allocated 1 w)) = 1" "prev_allocated (set_prev_allocated 0 (set_allocated 1 w)) = 0"
  by simp_all

text \<open>C14: On an empty heap that \<open>sf_mem_grow\<close> extends by one page, whatever the page contains, the initialisation
  succeeds. It leaves one free block of 4048 bytes between prologue and epilogue, in a list of its own that is the only
  one, except that the code never writes the prev-allocated bit of the epilogue, the last word of the page: with
  that bit cleared the heap is well formed, and the heap as it is left is well formed exactly when the bit was clear in
  the page already.\<close>

theorem sf_init_correct:
  assumes p: "first_page E h h1" and E: "adds_lists E h1" and ep: "ld h1 (mem_end h1 - 8) = Some w"
  shows "\<exists>m n. sf_init E h = Some (h1\<lparr>mem := m\<rparr>) \<and> m (mem_end h1 - 8) = Some (set_allocated 1 w) \<and>
    heap_ok (h1\<lparr>mem := m(mem_end h1 - 8 \<mapsto> set_prev_allocated 0 (set_allocated 1 w))\<rparr>) [Free 4048] [(n, 4048, [mem_start h + 40])] \<and>
    (heap_ok (h1\<lparr>mem := m\<rparr>) [Free 4048] [(n, 4048, [mem_start h + 40])] \<longleftrightarrow> prev_allocated w = 0)"
proof -
  let ?a = "mem_start h" and ?q = "free_list_head h1" and ?d = "set_allocated 1 w"
  obtain m v where m: "tiling (h1\<lparr>mem := m\<rparr>) [Free 4048]" "nodes_ok (h1\<lparr>mem := m\<rparr>) []" "dom m = dom (mem h1)"
    "ld (h1\<lparr>mem := m\<rparr>) (at ?a 40) = Some v" "bsz v = 4048"
    "sf_init E h = (let g = soil (at ?a 4088) ?d (h1\<lparr>mem := m\<rparr>) in do {
       nx \<leftarrow> ld g (node_next ?q); let (n, h) = sf_add_free_list E 4048 nx g;
       h \<leftarrow> sto h (node_next (free_list_head h)) n; h \<leftarrow> sto h (node_prev (free_list_head h)) n;
       h \<leftarrow> sto h (node_next n) (free_list_head h); h \<leftarrow> sto h (node_prev n) (free_list_head h); link_single h n (at ?a 40) })"
    by (rule page_blocks [OF p ep])
  let ?h = "h1\<lparr>mem := m\<rparr>" and ?b = "at ?a 40" and ?e = "at ?a 4088"
  let ?g = "soil ?e ?d ?h"
  have e: "mem_end h1 - 8 = ?e" "?e = at (base ?h) (extent [Free 4048])"
    using p by (simp_all add: base_def at_def first_page_def)
  have ed: "?e \<in> dom m" using ep unfolding e(1) m(3) by (auto simp: ld_def)
  have E': "adds_lists E ?g"
  proof -
    have "dom (m(?e \<mapsto> ?d)) = dom (mem h1)" using m(3) ed by auto
    then show ?thesis using E unfolding adds_lists_def soil_def by simp
  qed
  have b: "?b = at (base ?h) 0" using p by (simp add: base_def at_def first_page_def)
  have l: "lists_ok ?h []" "listed ?h [] (set (frees 0 [Free 4048]) - {0})" using m(2)
    by (simp_all add: lists_ok_def heads_def flists_def listed_def blocks_def apart_def)
  have lg: "lists_ok ?g []" by (rule soil_lists [OF m(1) l(1,2) _ e(2)]) simp
  have q: "ld ?g (node_next ?q) = Some ?q" "ld ?g (node_prev ?q) = Some ?q" using nodes_okD(3) [OF lists_okD(2) [OF lg]] by simp_all
  from new_node_soil [OF m(1) l _ _ E', of v "[]" "[]"] m(4,5) b e(2) obtain m' n' where
    m': "new_node E ?g 4048 ?q ?q ?b = Some (soil ?e ?d (h1\<lparr>mem := m'\<rparr>))"
      "heap_ok (h1\<lparr>mem := m'\<rparr>) [Free 4048] [(n', 4048, [?b])]"
    by (auto simp: compact_def)
  obtain n where n: "sf_add_free_list E 4048 ?q ?g = (n, add_node ?g n 4048 ?q ?q)" "node_rows n \<inter> dom (mem ?g) = {}"
    using adds_listsD [OF E', of ?q ?q 4048] q by (auto simp: ld_def)
  let ?k = "add_node ?g n 4048 ?q ?q"
  have "node_prev ?q \<in> dom (mem ?g)" "node_next ?q \<in> dom (mem ?g)" using q by (auto simp: ld_def)
  then have "node_next n \<notin> {node_prev ?q, node_next ?q}" "node_prev n \<notin> {node_prev ?q, node_next ?q}"
    using n(2) head_rows [of n] by auto
  then have "ld ?k (node_next ?q) = Some n" "ld ?k (node_prev ?q) = Some n" "ld ?k (node_next n) = Some ?q" "ld ?k (node_prev n) = Some ?q"
    by (auto simp: ld_def add_node_def)
  then have "sf_init E h = new_node E ?g 4048 ?q ?q ?b"
    using n(1) q unfolding m(6) new_node_def by (simp add: sto_same add_node_def Let_def)
  then have run: "sf_init E h = Some (soil ?e ?d (h1\<lparr>mem := m'\<rparr>))" using m'(1) by simp
  have e': "?e = at (base (h1\<lparr>mem := m'\<rparr>)) (extent [Free 4048])" using e(2) by simp
  have "heap_ok (soil ?e (set_prev_allocated 0 ?d) (h1\<lparr>mem := m'\<rparr>)) [Free 4048] [(n', 4048, [?b])]"
    by (rule soil_heap_ok [OF m'(2) _ _ e']) simp_all
  moreover have "heap_ok (soil ?e ?d (h1\<lparr>mem := m'\<rparr>)) [Free 4048] [(n', 4048, [?b])] \<longleftrightarrow> prev_allocated w = 0"
    using soil_heap_ok_iff [OF m'(2) epilogue_words(1) e', of w] by simp
  moreover have "?b = ?a + 40" by (simp add: at_def)
  ultimately show ?thesis using run e(1) by (intro exI [of _ "m'(?e \<mapsto> ?d)"] exI [of _ n']) (simp add: soil_def)
qed

end
