(* ===== verification/Sf_Grow.thy ===== *)
theory Sf_Grow
  imports Sf_Allot
begin

text \<open>
  \<open>sf_malloc\<close> grows the heap by a page when no list holds the request. The steps of \<open>grow_page\<close> are
  those of releasing an allocated block at the end of the heap: a ghost heap, in which the new page
  is such a block, reduces them to the lemma on coalescing of Sf_Blocks. \<open>new_page\<close> is the contract
  of \<open>sf_mem_grow\<close> (hw3/lib/sfutil.o, no source) on a heap in use.
\<close>

subsection \<open>A new page\<close>

text \<open>The contract of \<open>sf_mem_grow\<close> on a heap in use: a page of rows, with any content, behind the end, apart from the nodes.\<close>

definition new_page :: "sf_ext \<Rightarrow> heap \<Rightarrow> node_list \<Rightarrow> heap \<Rightarrow> bool" where
  "new_page E h N h1 \<longleftrightarrow> snd (sf_mem_grow E h) = h1 \<and> fst (sf_mem_grow E h) \<noteq> 0 \<and> mem_start h1 = mem_start h \<and>
     mem_end h1 = mem_end h + 4096 \<and> free_list_head h1 = free_list_head h \<and>
     (\<forall>r. r \<notin> at (mem_end h) ` {..< 4096} \<longrightarrow> mem h1 r = mem h r) \<and>
     (\<forall>x < 4096. 8 dvd x \<longrightarrow> ld h1 (at (mem_end h) x) \<noteq> None) \<and>
     (\<forall>n \<in> set (free_list_head h # map fst N). node_rows n \<inter> at (mem_end h) ` {..< 4096} = {})"

definition page_header :: "bool \<Rightarrow> u64" where
  "page_header pv = set_prev_allocated (of_bool pv) (set_allocated 1 (set_block_size 256 0))"

definition page_epilogue :: u64 where
  "page_epilogue = set_prev_allocated 1 (set_allocated 1 0)"

definition ghost_rows :: "heap \<Rightarrow> ablock list \<Rightarrow> u64 \<Rightarrow> u64 option" where
  "ghost_rows h1 bs = (mem h1)(at (base h1) (extent bs) \<mapsto> page_header (last_used True bs), at (base h1) (extent bs + 4096) \<mapsto> page_epilogue)"

lemma page_words:
  "prev_allocated (page_header pv) = of_bool pv" "allocated (page_header pv) = 1" "unat (bs_int (page_header pv)) = 4096"
  "requested_size (page_header pv) = 0" "allocated page_epilogue = 1" "prev_allocated page_epilogue = 1"
  "set_prev_allocated 0 page_epilogue = set_allocated 1 0"
proof -
  show "prev_allocated (page_header pv) = of_bool pv" "allocated (page_header pv) = 1" "unat (bs_int (page_header pv)) = 4096"
    "requested_size (page_header pv) = 0"
    by (cases pv; simp only:; code_simp)+
  show "allocated page_epilogue = 1" "prev_allocated page_epilogue = 1" "set_prev_allocated 0 page_epilogue = set_allocated 1 0"
    by code_simp+
qed

lemma new_page_base:
  assumes "new_page E h N h1" "tiling h bs"
  shows "base h1 = base h" "mem_end h = at (base h) (extent bs + 8)" "mem_end h1 = at (base h) (extent bs + 4104)"
  using assms by (simp_all add: new_page_def base_def tiling_def) (simp_all add: at_def)

lemma new_page_rows:
  assumes p: "new_page E h N h1" and t: "tiling h bs" and b: "extent bs + 4096 < 2 ^ 31" and x: "x < extent bs + 8"
  shows "ld h1 (at (base h) x) = ld h (at (base h) x)"
proof -
  have "at (base h) x \<noteq> at (mem_end h) y" if "y < 4096" for y
    using that x b unfolding new_page_base(2) [OF p t] by (simp add: at_inj)
  then show ?thesis using p unfolding new_page_def ld_def by blast
qed

lemma ghost_row:
  assumes "x < 2 ^ 63" "extent bs + 4096 < 2 ^ 31"
  shows "ld (h1\<lparr>mem := ghost_rows h1 bs\<rparr>) (at (base h1) x) = (if x = extent bs then Some (page_header (last_used True bs))
    else if x = extent bs + 4096 then Some page_epilogue else ld h1 (at (base h1) x))"
  using assms by (simp add: ghost_rows_def ld_def at_inj)

lemma ghost_tiling:
  assumes p: "new_page E h N h1" and t: "tiling h bs" and b: "unat (mem_start h) + extent bs + 4144 < 2 ^ 64" "extent bs + 4096 < 2 ^ 31"
  shows "tiling (h1\<lparr>mem := ghost_rows h1 bs\<rparr>) (bs @ [Used 4096 0])"
proof -
  let ?g = "h1\<lparr>mem := ghost_rows h1 bs\<rparr>" and ?e = "extent bs"
  note B = new_page_base [OF p t] and R = new_page_rows [OF p t b(2)]
  note G = ghost_row [OF _ b(2), of _ h1, unfolded B(1)]
  have s: "sized bs" "closed h (base h) 0 True bs" "16 dvd ?e" using t sized_dvd by (simp_all add: tiling_def)
  have "tiled ?g (base h) 0 True bs = tiled h (base h) 0 True bs"
  proof (rule tiled_cong)
    fix x assume "x \<in> infos 0 bs"
    then have "x + 8 \<le> ?e" using infos_range [OF s(1), of x 0] by simp
    then show "ld ?g (at (base h) x) = ld h (at (base h) x)" using G [of x] R [of x] b(2) by simp
  qed
  moreover have "block_at ?g (base h) ?e (last_used True bs) (Used 4096 0)"
    using G [of ?e] b(2) by (simp add: block_at_def page_words)
  ultimately have "closed ?g (base h) 0 True (bs @ [Used 4096 0])"
    using s(2) G [of "?e + 4096"] b(2) by (simp add: closed_def tiled_append page_words)
  moreover have "ld ?g (at (base h) x) \<noteq> None" if x: "x < ?e + 4096" "8 dvd x" for x
  proof (cases "x < ?e")
    case True
    then have "ld h (at (base h) x) \<noteq> None" using t x(2) by (simp add: tiling_def)
    then show ?thesis using G [of x] R [of x] True b(2) by simp
  next
    case False
    have "8 dvd x - (?e + 8)" if "x \<noteq> ?e" using x(2) s(3) False that by presburger
    moreover have "ld h1 (at (mem_end h) (x - (?e + 8))) \<noteq> None" if "8 dvd x - (?e + 8)" "x - (?e + 8) < 4096"
      using p that unfolding new_page_def by blast
    moreover have "?e + 8 \<le> x" if "x \<noteq> ?e" using False x(2) s(3) that by presburger
    ultimately show ?thesis using G [of x] x(1) b(2) B(2) by (cases "x = ?e") auto
  qed
  moreover have "mem_start h1 = mem_start h" using p by (simp add: new_page_def)
  ultimately show ?thesis using s(1) b B by (simp add: tiling_def add.commute)
qed

lemma ghost_keep:
  assumes p: "new_page E h N h1" and t: "tiling h bs" and b: "extent bs + 4096 < 2 ^ 31"
    and r: "r \<notin> insert (at (base h) (extent bs)) (at (mem_end h) ` {..< 4096})"
  shows "ghost_rows h1 bs r = mem h r"
proof -
  have "at (base h) (extent bs + 4096) = at (mem_end h) 4088" unfolding new_page_base(2) [OF p t] by (simp add: add.commute)
  then have "r \<noteq> at (base h) (extent bs + 4096)" using r by auto
  moreover have "mem h1 r = mem h r" using p r unfolding new_page_def by blast
  ultimately show ?thesis using r by (simp add: ghost_rows_def new_page_base [OF p t])
qed

lemma old_row_kept:
  assumes p: "new_page E h N h1" and t: "tiling h bs" and b: "extent bs + 4096 < 2 ^ 31" and x: "x < extent bs"
  shows "at (base h) x \<notin> insert (at (base h) (extent bs)) (at (mem_end h) ` {..< 4096})"
  using x b unfolding new_page_base(2) [OF p t] by (auto simp: at_inj)

lemma node_row_kept:
  assumes p: "new_page E h N h1" and t: "tiling h bs" and o: "nodes_ok h N" and n: "n \<in> set (free_list_head h # map fst N)" "r \<in> node_rows n"
  shows "r \<notin> insert (at (base h) (extent bs)) (at (mem_end h) ` {..< 4096})"
proof -
  have "node_rows n \<inter> at (mem_end h) ` {..< 4096} = {}" using p n(1) unfolding new_page_def by blast
  moreover have "at (base h) (extent bs) \<in> heap_rows h" by (simp add: tiling_rows [OF t])
  ultimately show ?thesis using nodes_okD(6) [OF o n(1)] n(2) by blast
qed

lemma ghost_lists:
  assumes p: "new_page E h N h1" and h: "heap_ok h bs N" and b: "extent bs + 4096 < 2 ^ 31"
    and g: "tiling (h1\<lparr>mem := ghost_rows h1 bs\<rparr>) (bs @ [Used 4096 0])"
  shows "lists_ok (h1\<lparr>mem := ghost_rows h1 bs\<rparr>) N" "listed (h1\<lparr>mem := ghost_rows h1 bs\<rparr>) N (set (frees 0 (bs @ [Used 4096 0])))"
proof -
  let ?g = "h1\<lparr>mem := ghost_rows h1 bs\<rparr>" and ?q = "free_list_head h"
  have t: "tiling h bs" and l: "lists_ok h N" "listed h N (set (frees 0 bs))" using heap_okD [OF h] by auto
  have s: "sized bs" using t by (simp add: tiling_def)
  note L = lists_okD [OF l(1)] and O = nodes_okD [OF lists_okD(2) [OF l(1)]]
  note keep = ghost_keep [OF p t b] and old = old_row_kept [OF p t b] and node = node_row_kept [OF p t L(2)]
  have B: "base ?g = base h" "free_list_head ?g = ?q" using new_page_base [OF p t] p by (simp_all add: new_page_def)
  show "listed ?g N (set (frees 0 (bs @ [Used 4096 0])))" using l(2) B(1) by (simp add: listed_def)
  have nk: "ld ?g r = ld h r" if "n \<in> set (?q # map fst N)" "r \<in> node_rows n" for n r
    using keep [OF node [OF that]] by (simp add: ld_def)
  have lk: "ld ?g r = ld h r" if r: "r \<in> link_rows (heads N)" for r
  proof -
    obtain y where y: "y \<in> set (nodes (heads N))" "r = link_next y \<or> r = link_prev y" using r by (auto simp: link_rows_def)
    show ?thesis
    proof (cases "y \<in> set (blocks (heads N))")
      case True
      then obtain c where c: "c \<in> set (frees 0 bs)" "y = at (base h) c" using l(2) by (auto simp: listed_def)
      then have "r = at (base h) (c + 8) \<or> r = at (base h) (c + 16)" "c + 32 \<le> extent bs"
        using y(2) frees_range [OF s, of c 0] by (auto simp: link_at)
      then show ?thesis using keep [OF old] by (auto simp: ld_def)
    next
      case False
      then obtain n where "n \<in> fst ` set N" "y = node_head n" using y(1) nodes_heads by blast
      then show ?thesis using y(2) head_rows [of n] by (intro nk [of n]) auto
    qed
  qed
  have "nodes_ok ?g N"
  proof (rule nodes_okI; (unfold B)?)
    show "ld ?g (node_size k) = Some s" if "(k, s, ys) \<in> set N" for k s ys
      using O(1) [OF that] nk [of k "node_size k"] that head_rows [of k] by force
    show "nseg ?g ?q (map fst N) ?q"
    proof -
      have "nseg ?g ?q (map fst N) ?q = nseg h ?q (map fst N) ?q"
        using nk head_rows by (intro nseg_cong) auto
      then show ?thesis using O(3) by simp
    qed
    show "ld ?g (node_size ?q) = Some 0" using O(5) nk [of ?q "node_size ?q"] head_rows [of ?q] by simp
    show "node_rows n \<subseteq> dom (mem ?g)" if "n \<in> set (?q # map fst N)" for n
      using O(7) [OF that] keep [OF node [OF that]] by auto
    show "node_rows n \<inter> heap_rows ?g = {}" if "n \<in> set (?q # map fst N)" for n
    proof -
      have "r \<in> heap_rows h \<union> at (mem_end h) ` {..< 4096}" if hr: "r \<in> heap_rows ?g" for r
      proof -
        obtain x where x: "r = at (base h) x" "x < extent bs + 4104" using hr [unfolded tiling_rows [OF g]] by (auto simp: new_page_base(1) [OF p t])
        then have "x \<ge> extent bs + 8 \<Longrightarrow> r = at (mem_end h) (x - (extent bs + 8)) \<and> x - (extent bs + 8) < 4096"
          using new_page_base(2) [OF p t] by simp
        then show ?thesis using x unfolding tiling_rows [OF t] by (cases "x < extent bs + 8") auto
      qed
      then show ?thesis using O(6) [OF that] node [OF that] by blast
    qed
  qed (use O(2,4,8) in \<open>simp_all only:\<close>)
  moreover have "\<exists>w. ld ?g b = Some w \<and> bsz w = s" if "(k, s, ys) \<in> set N" "b \<in> set ys" for k s ys b
  proof -
    have "b \<in> set (blocks (heads N))" using that by (force simp: blocks_def heads_def)
    then obtain c where c: "c \<in> set (frees 0 bs)" "b = at (base h) c" using l(2) by (auto simp: listed_def)
    then have "c < extent bs" using frees_range [OF s, of c 0] by simp
    then show ?thesis using keep [OF old, of c] L(3) [OF that] c(2) by (simp add: ld_def)
  qed
  ultimately show "lists_ok ?g N" using flists_agree [OF L(1) lk] by (intro lists_okI)
qed


text \<open>What the steps before the insertion leave: the blocks \<open>ls\<close> and a free block of \<open>k\<close> bytes, which is in no list. In
  the epilogue (the last row of the page) the code has written only the allocated bit.\<close>

definition grown :: "sf_ext \<Rightarrow> heap \<Rightarrow> heap \<Rightarrow> ablock list \<Rightarrow> nat \<Rightarrow> node_list \<Rightarrow> bool" where
  "grown E h h1 ls k N \<longleftrightarrow> (\<exists>m N' ep. ld h1 (mem_end h1 - 8) = Some ep \<and>
     grow_page E h1 = page_insert E (soil (mem_end h1 - 8) (set_allocated 1 ep) (h1\<lparr>mem := m\<rparr>)) (of_nat k) (at (base h) (extent ls)) \<and>
     tiling (h1\<lparr>mem := m\<rparr>) (ls @ [Free k]) \<and> lists_ok (h1\<lparr>mem := m\<rparr>) N' \<and> sublists N' N \<and>
     listed h1 N' (set (frees 0 ls)) \<and> dom m = dom (mem h1) \<and>
     (\<forall>x \<in> payload 0 ls. ld (h1\<lparr>mem := m\<rparr>) (at (base h) x) = ld h (at (base h) x)))"

lemma page_free_words:
  "allocated (set_allocated 0 (set_prev_allocated 1 (set_block_size 256 w))) = 0"
  "prev_allocated (set_allocated 0 (set_prev_allocated 1 (set_block_size 256 w))) = 1"
  "bs_int (set_allocated 0 (set_prev_allocated 1 (set_block_size 256 w))) = 4096"
proof -
  have "(256 :: u64) = int_to_bs 4096" by code_simp
  moreover have "take_bit 4 (4096 :: u32) = 0" by code_simp
  ultimately show "bs_int (set_allocated 0 (set_prev_allocated 1 (set_block_size 256 w))) = 4096"
    using bs_int_set [of 4096 w] by simp
  show "allocated (set_allocated 0 (set_prev_allocated 1 (set_block_size 256 w))) = 0" by simp
  show "prev_allocated (set_allocated 0 (set_prev_allocated 1 (set_block_size 256 w))) = 1" by simp
qed

lemma page_ends:
  assumes p: "new_page E h N h1" and t: "tiling h bs"
  shows "mem_end h1 - 8 = at (base h) (extent bs + 4096)" "mem_end h1 - PAGE_SZ - 8 = at (base h) (extent bs)"
    "mem_end h1 - 16 = at (base h) (extent bs + 4088)"
  unfolding new_page_base(3) [OF p t] by (simp_all add: at_def PAGE_SZ_def)

lemma page_rows:
  assumes p: "new_page E h N h1" and t: "tiling h bs"
  obtains ep fp where "ld h1 (at (base h) (extent bs + 4096)) = Some ep" "ld h1 (at (base h) (extent bs + 4088)) = Some fp"
proof -
  have z: "ld h1 (at (mem_end h) x) \<noteq> None" if "x < 4096" "8 dvd x" for x using p that unfolding new_page_def by blast
  have "ld h1 (at (base h) (extent bs + 4096)) \<noteq> None" "ld h1 (at (base h) (extent bs + 4088)) \<noteq> None"
    using z [of 4088] z [of 4080] unfolding new_page_base(2) [OF p t] by (simp_all add: add.commute)
  then show ?thesis using that by blast
qed

lemma grow_behind_used:
  assumes p: "new_page E h N h1" and h: "heap_ok h bs N" and b: "unat (mem_start h) + extent bs + 4144 < 2 ^ 64" "extent bs + 4096 < 2 ^ 31"
    and u: "last_used True bs"
  shows "grown E h h1 bs 4096 N"
proof -
  let ?a = "base h" and ?e = "extent bs" and ?g = "h1\<lparr>mem := ghost_rows h1 bs\<rparr>" and ?M = "[Used 4096 0]"
  have t: "tiling h bs" using heap_okD [OF h] by simp
  note G = ghost_tiling [OF p t b] and B = new_page_base [OF p t] and P = page_ends [OF p t]
  note L = ghost_lists [OF p h b(2) G]
  obtain w where w: "ld h (at ?a ?e) = Some w" "prev_allocated w = 1" using tiling_behind [of h bs "[]"] t u by auto
  have w1: "ld h1 (at ?a ?e) = Some w" using new_page_rows [OF p t b(2), of ?e] w(1) by simp
  obtain ep fp where Z: "ld h1 (at ?a (?e + 4096)) = Some ep" "ld h1 (at ?a (?e + 4088)) = Some fp" by (rule page_rows [OF p t])
  let ?v = "\<lambda>w. set_allocated 0 (set_prev_allocated 1 (set_block_size 256 w))"
  define m where "m = (mem h1)(at ?a (?e + 4096) \<mapsto> set_allocated 1 0, at ?a ?e \<mapsto> ?v w, at ?a (?e + 4088) \<mapsto> ?v fp)"
  have ne: "at ?a x = at ?a y \<longleftrightarrow> x = y" if "x \<in> {?e, ?e + 4088, ?e + 4096}" "y \<in> {?e, ?e + 4088, ?e + 4096}" for x y
    using that b(2) by (intro at_inj) auto
  have c: "drop_bit 4 (PAGE_SZ :: u64) = 256" unfolding PAGE_SZ_def by code_simp
  have f: "at ?a ?e + PAGE_SZ - 8 = at ?a (?e + 4088)" "4088 + at ?a ?e = at ?a (?e + 4088)" by (simp_all add: at_def PAGE_SZ_def ac_simps)
  have so: "soil (at ?a (?e + 4096)) (set_allocated 1 ep) (h1\<lparr>mem := m\<rparr>) =
      h1\<lparr>mem := (mem h1)(at ?a (?e + 4096) \<mapsto> set_allocated 1 ep, at ?a ?e \<mapsto> ?v w, at ?a (?e + 4088) \<mapsto> ?v fp)\<rparr>"
    by (simp add: soil_def m_def fun_eq_iff ne)
  have run: "grow_page E h1 = page_insert E (soil (mem_end h1 - 8) (set_allocated 1 ep) (h1\<lparr>mem := m\<rparr>)) 4096 (at ?a ?e)"
    using w1 w(2) Z unfolding P so unfolding grow_page_def Let_def P c
    by (simp add: upd_mapped ne P c f fun_upd_twist PAGE_SZ_def)
  have dg: "dom (mem ?g) = dom (mem h1)" using w1 Z by (auto simp: ghost_rows_def B ld_def)
  have dm: "dom m = dom (mem h1)" using w1 Z by (auto simp: m_def ld_def)
  have e: "?g\<lparr>mem := m\<rparr> = h1\<lparr>mem := m\<rparr>" by simp
  have lr: "at ?a x \<notin> link_rows (heads N)" if "x \<in> {?e, ?e + 4088, ?e + 4096}" for x
    using info_not_link [OF G L, of x] payload_not_link [OF G L, of x] that by (auto simp: B)
  have r: "ld (h1\<lparr>mem := m\<rparr>) (at ?a ?e) = Some (?v w)" "ld (h1\<lparr>mem := m\<rparr>) (at ?a (?e + 4088)) = Some (?v fp)"
      "ld (h1\<lparr>mem := m\<rparr>) (at ?a (?e + 4096)) = Some (set_allocated 1 0)"
    by (simp_all add: m_def ld_def ne)
  have g: "ld ?g (at ?a (?e + 4096)) = Some page_epilogue" using ghost_row [of "?e + 4096" bs h1] b(2) by (simp add: B)
  have "tiling (?g\<lparr>mem := m\<rparr>) (bs @ Free (extent ?M) # []) \<and> lists_ok (?g\<lparr>mem := m\<rparr>) N \<and>
    listed ?g N (set (frees 0 bs) \<union> set (frees (?e + extent ?M) [])) \<and>
    (\<forall>x \<in> payload 0 bs \<union> payload (?e + extent ?M) []. ld (?g\<lparr>mem := m\<rparr>) (at (base ?g) x) = ld ?g (at (base ?g) x))"
  proof (rule coalesced [of ?g bs ?M "[]", where tot = 4096 and w = page_epilogue])
    show "tiling ?g (bs @ ?M @ [])" using G by simp
    show "lists_ok ?g N" "listed ?g N (set (frees 0 (bs @ ?M @ [])))" using L by simp_all
    show "flists (?g\<lparr>mem := m\<rparr>) (heads N)"
    proof (rule flists_agree [OF lists_okD(1) [OF L(1)]])
      fix r assume "r \<in> link_rows (heads N)"
      then show "ld (?g\<lparr>mem := m\<rparr>) r = ld ?g r" using lr [of ?e] lr [of "?e + 4088"] lr [of "?e + 4096"]
        by (auto simp: ld_def m_def ghost_rows_def B)
    qed
    show "free_block (?g\<lparr>mem := m\<rparr>) (at (base ?g) ?e) 4096 (of_bool (last_used True bs))"
      using r u page_free_words f by (simp add: free_block_def B e PAGE_SZ_def)
    show "ld (?g\<lparr>mem := m\<rparr>) (at (base ?g) (?e + extent ?M)) = Some (set_prev_allocated 0 page_epilogue)"
      using r(3) by (simp add: B page_words)
    show "ld ?g (at (base ?g) (?e + extent ?M)) = Some page_epilogue" using g by (simp add: B)
    show "ld (?g\<lparr>mem := m\<rparr>) r = ld ?g r" if "r \<notin> link_rows (heads N) \<union> at (base ?g) ` {?e .. ?e + extent ?M}" for r
      using that by (auto simp: ld_def m_def ghost_rows_def B)
    show "dom m = dom (mem ?g)" using dg dm by simp
  qed (simp_all add: sublists_refl)
  moreover have "ld ?g (at ?a x) = ld h (at ?a x)" if "x \<in> payload 0 bs" for x
    using ghost_keep [OF p t b(2) old_row_kept [OF p t b(2)]] payload_range [OF that] by (simp add: ld_def)
  moreover have "ld h1 (mem_end h1 - 8) = Some ep" using Z(1) by (simp add: P)
  ultimately show ?thesis unfolding grown_def using run dm
    by (intro exI [of _ m] exI [of _ N] exI [of _ ep]) (simp add: sublists_refl B)
qed

lemma grow_free_run:
  assumes p: "new_page E h N h1" and h: "heap_ok h (ls @ [Free k]) N"
    and b: "unat (mem_start h) + extent (ls @ [Free k]) + 4144 < 2 ^ 64" "extent (ls @ [Free k]) + 4096 < 2 ^ 31"
  shows "\<exists>m tot ep. ld h1 (mem_end h1 - 8) = Some ep \<and>
    grow_page E h1 = page_insert E (soil (mem_end h1 - 8) (set_allocated 1 ep) (h1\<lparr>mem := m\<rparr>)) (of_nat (k + 4096)) (at (base h) (extent ls)) \<and>
    flists (h1\<lparr>mem := m\<rparr>) (drop_block (at (base h) (extent ls)) (heads N)) \<and>
    free_block (h1\<lparr>mem := m\<rparr>) (at (base h) (extent ls)) tot (of_bool (last_used True ls)) \<and> unat tot = k + 4096 \<and>
    ld (h1\<lparr>mem := m\<rparr>) (at (base h) (extent ls + k + 4096)) = Some (set_allocated 1 0) \<and> dom m = dom (mem h1) \<and>
    (\<forall>r. r \<notin> link_rows (heads N) \<union> at (base h) ` {extent ls .. extent ls + k + 4096} \<longrightarrow>
      ld (h1\<lparr>mem := m\<rparr>) r = ld (h1\<lparr>mem := ghost_rows h1 (ls @ [Free k])\<rparr>) r)"
proof -
  let ?bs = "ls @ [Free k]"
  let ?a = "base h" and ?l = "extent ls" and ?e = "extent ls + k" and ?g = "h1\<lparr>mem := ghost_rows h1 ?bs\<rparr>" and ?M = "[Free k, Used 4096 0]"
  have t: "tiling h ?bs" and l: "lists_ok h N" "listed h N (set (frees 0 ?bs))" using heap_okD [OF h] by auto
  have k: "32 \<le> k" "?e + 4096 < 2 ^ 31" using t b(2) by (simp_all add: tiling_def)
  note G = ghost_tiling [OF p t b] and B = new_page_base [OF p t] and P = page_ends [OF p t, simplified]
  note L = ghost_lists [OF p h b(2) G] and R = new_page_rows [OF p t b(2)]
  obtain w where w: "ld h (at ?a ?e) = Some w" "prev_allocated w = 0" using tiling_behind [of h ?bs "[]"] t by auto
  obtain v f where v: "ld h (at ?a ?l) = Some v" "allocated v = 0" "unat (bs_int v) = k" "prev_allocated v = of_bool (last_used True ls)"
    "ld h (at ?a (?e - 8)) = Some f" "bs_int f = bs_int v" "bsz v = of_nat k" "at ?a ?l \<in> set (blocks (heads N))"
    using tiling_free [OF t l] by auto
  have h1: "ld h1 (at ?a ?e) = Some w" "ld h1 (at ?a ?l) = Some v" "ld h1 (at ?a (?e - 8)) = Some f"
    using R w(1) v(1,5) by simp_all
  obtain ep fp where Z: "ld h1 (at ?a (?e + 4096)) = Some ep" "ld h1 (at ?a (?e + 4088)) = Some fp"
    using page_rows [OF p t] by (auto simp: add.assoc)
  let ?v = "set_block_size (int_to_bs (bs_int v + 4096)) v"
  let ?f = "set_allocated (allocated ?v) (set_prev_allocated (prev_allocated ?v) (set_block_size (block_size ?v) fp))"
  define m0 where "m0 = (mem h1)(at ?a (?e + 4096) \<mapsto> set_allocated 1 ep, at ?a ?l \<mapsto> ?v, at ?a (?e + 4088) \<mapsto> ?f)"
  let ?X = "{?l, ?e - 8, ?e, ?e + 4088, ?e + 4096}"
  have ne: "at ?a x = at ?a y \<longleftrightarrow> x = y" if "x \<in> ?X" "y \<in> ?X" for x y
    using that k(2) by (intro at_inj) auto
  have X: "?l \<noteq> ?e - 8" "?e - 8 \<noteq> ?l" "?e - 8 \<noteq> ?e" "?e - 8 \<noteq> ?e + 4088" "?e - 8 \<noteq> ?e + 4096" using k(1) by auto
  have pb: "at ?a ?e - 8 = at ?a (?e - 8)" "at ?a ?e - bsz f = at ?a ?l"
    using k(1) v(6,7) by (simp_all add: at_diff bsz_def) (simp add: at_def)
  have lr: "at ?a x \<notin> link_rows (heads N)" if "x \<in> {?l, ?e, ?e + 4088, ?e + 4096}" for x
    using info_not_link [OF G L, of x] payload_not_link [OF G L, of x] that by (auto simp: B)
  have flm: "flists (h1\<lparr>mem := m0\<rparr>) (heads N)"
  proof (rule flists_agree [OF lists_okD(1) [OF L(1)]])
    fix r assume "r \<in> link_rows (heads N)"
    then show "ld (h1\<lparr>mem := m0\<rparr>) r = ld ?g r" using lr [of ?l] lr [of ?e] lr [of "?e + 4088"] lr [of "?e + 4096"]
      by (auto simp: ld_def m0_def ghost_rows_def B)
  qed
  from flists_unlink [OF flm v(8)] obtain md where ud: "unlink_block (h1\<lparr>mem := m0\<rparr>) (at ?a ?l) = Some (h1\<lparr>mem := md\<rparr>)"
    "flists (h1\<lparr>mem := md\<rparr>) (drop_block (at ?a ?l) (heads N))"
    "\<forall>r. r \<notin> link_rows (heads N) \<longrightarrow> ld (h1\<lparr>mem := md\<rparr>) r = ld (h1\<lparr>mem := m0\<rparr>) r"
    by auto
  define m where "m = md(at ?a (?e + 4096) \<mapsto> set_allocated 1 0)"
  have rd: "ld (h1\<lparr>mem := md\<rparr>) (at ?a ?l) = Some ?v" "ld (h1\<lparr>mem := md\<rparr>) (at ?a (?e + 4088)) = Some ?f"
      "ld (h1\<lparr>mem := md\<rparr>) (at ?a (?e + 4096)) = Some (set_allocated 1 ep)"
    using ud(3) lr k(1) by (simp_all add: m0_def ne ld_def)
  then have so: "soil (at ?a (?e + 4096)) (set_allocated 1 ep) (h1\<lparr>mem := m\<rparr>) = h1\<lparr>mem := md\<rparr>"
    by (simp add: soil_def m_def ld_def fun_upd_idem)
  have r: "ld (h1\<lparr>mem := m\<rparr>) (at ?a ?l) = Some ?v" "ld (h1\<lparr>mem := m\<rparr>) (at ?a (?e + 4088)) = Some ?f"
      "ld (h1\<lparr>mem := m\<rparr>) (at ?a (?e + 4096)) = Some (set_allocated 1 0)"
    using rd k(1) by (simp_all add: m_def ne)
  have un: "flists (h1\<lparr>mem := m\<rparr>) (drop_block (at ?a ?l) (heads N))"
  proof (rule flists_agree [OF ud(2)])
    fix r assume "r \<in> link_rows (drop_block (at ?a ?l) (heads N))"
    then have "r \<in> link_rows (heads N)" using link_rows_drop by blast
    then show "ld (h1\<lparr>mem := m\<rparr>) r = ld (h1\<lparr>mem := md\<rparr>) r" using lr [of "?e + 4096"] by (auto simp: m_def)
  qed
  have tot: "unat (bs_int v + 4096) = k + 4096" using k(2) v(3) by (simp add: unat_word_ariths)
  have bi: "bs_int ?v = bs_int v + 4096" "bs_int ?f = bs_int v + 4096"
  proof -
    have "take_bit 4 (4096 :: u32) = 0" by code_simp
    then show 1: "bs_int ?v = bs_int v + 4096" by (intro bs_int_set take_bit_4_add) simp_all
    have "bs_int ?f = bs_int ?v" by (simp add: bs_int_def)
    then show "bs_int ?f = bs_int v + 4096" using 1 by simp
  qed
  have run: "grow_page E h1 = page_insert E (soil (mem_end h1 - 8) (set_allocated 1 ep) (h1\<lparr>mem := m\<rparr>)) (of_nat (k + 4096)) (at ?a ?l)"
  proof -
    have "bsz ?v = of_nat (k + 4096)" using bi(1) tot k(2) by (intro bs_int_tot) simp_all
    then show ?thesis
      using h1 w(2) Z ud(1) rd(1) X k(1) unfolding P so unfolding grow_page_def Let_def P m0_def
      by (simp add: upd_mapped ne P pb fun_upd_twist)
  qed
  have "dom m0 = dom (mem h1)" using h1(2) Z by (auto simp: m0_def ld_def)
  then have "dom md = dom (mem h1)" using dom_unlink [OF ud(1)] by simp
  then have "dom m = dom (mem h1)" using Z(1) by (auto simp: m_def ld_def)
  moreover have "at ?a ?l + scast (bs_int v + 4096) - 8 = at ?a (?e + 4088)"
    using tot k(2) by (simp add: scast_unat) (simp add: at_def)
  then have "free_block (h1\<lparr>mem := m\<rparr>) (at ?a ?l) (bs_int v + 4096) (of_bool (last_used True ls))"
    using r v(2,4) bi by (simp add: free_block_def)
  moreover have "ld (h1\<lparr>mem := m\<rparr>) r = ld ?g r" if "r \<notin> link_rows (heads N) \<union> at ?a ` {?l .. ?e + 4096}" for r
  proof -
    have "ld (h1\<lparr>mem := md\<rparr>) r = ld (h1\<lparr>mem := m0\<rparr>) r" using ud(3) that by blast
    then show ?thesis using that by (auto simp: ld_def m_def m0_def ghost_rows_def B)
  qed
  moreover have "ld h1 (mem_end h1 - 8) = Some ep" using Z(1) by (simp add: P)
  ultimately show ?thesis using run un tot r(3) by (intro exI [of _ m] exI [of _ "bs_int v + 4096"] exI [of _ ep]) blast
qed

lemma grow_behind_free:
  assumes p: "new_page E h N h1" and h: "heap_ok h (ls @ [Free k]) N"
    and b: "unat (mem_start h) + extent (ls @ [Free k]) + 4144 < 2 ^ 64" "extent (ls @ [Free k]) + 4096 < 2 ^ 31"
  shows "grown E h h1 ls (k + 4096) N"
proof -
  let ?bs = "ls @ [Free k]"
  let ?a = "base h" and ?l = "extent ls" and ?g = "h1\<lparr>mem := ghost_rows h1 ?bs\<rparr>" and ?M = "[Free k, Used 4096 0]"
  have t: "tiling h ?bs" and l: "lists_ok h N" using heap_okD [OF h] by auto
  note G = ghost_tiling [OF p t b] and B = new_page_base [OF p t]
  note L = ghost_lists [OF p h b(2) G]
  obtain m tot ep where ep: "ld h1 (mem_end h1 - 8) = Some ep"
    and run: "grow_page E h1 = page_insert E (soil (mem_end h1 - 8) (set_allocated 1 ep) (h1\<lparr>mem := m\<rparr>)) (of_nat (k + 4096)) (at ?a ?l)"
    and fl: "flists (h1\<lparr>mem := m\<rparr>) (drop_block (at ?a ?l) (heads N))"
    and fb: "free_block (h1\<lparr>mem := m\<rparr>) (at ?a ?l) tot (of_bool (last_used True ls))" "unat tot = k + 4096"
    and e: "ld (h1\<lparr>mem := m\<rparr>) (at ?a (?l + k + 4096)) = Some (set_allocated 1 0)" and dm: "dom m = dom (mem h1)"
    and fr: "\<And>r. r \<notin> link_rows (heads N) \<union> at ?a ` {?l .. ?l + k + 4096} \<Longrightarrow> ld (h1\<lparr>mem := m\<rparr>) r = ld ?g r"
    using grow_free_run [OF p h b] by blast
  have "ld h1 (at ?a (?l + k)) \<noteq> None" "ld h1 (at ?a (?l + k + 4096)) \<noteq> None"
    using new_page_rows [OF p t b(2), of "?l + k"] tiling_behind [of h ?bs "[]"] t ep page_ends(1) [OF p t] by auto
  then have dg: "dom (mem ?g) = dom (mem h1)" by (auto simp: ghost_rows_def B ld_def)
  have "tiling (?g\<lparr>mem := m\<rparr>) (ls @ Free (extent ?M) # []) \<and> lists_ok (?g\<lparr>mem := m\<rparr>) (drop_listed (at ?a ?l) N) \<and>
    listed ?g (drop_listed (at ?a ?l) N) (set (frees 0 ls) \<union> set (frees (?l + extent ?M) [])) \<and>
    (\<forall>x \<in> payload 0 ls \<union> payload (?l + extent ?M) []. ld (?g\<lparr>mem := m\<rparr>) (at (base ?g) x) = ld ?g (at (base ?g) x))"
  proof (rule coalesced [of ?g ls ?M "[]" N, where tot = tot and w = page_epilogue])
    show "tiling ?g (ls @ ?M @ [])" using G by simp
    show "listed ?g N (set (frees 0 (ls @ ?M @ [])))" using L(2) by simp
    show "flists (?g\<lparr>mem := m\<rparr>) (heads (drop_listed (at ?a ?l) N))" using fl by (simp add: heads_drop)
    show "set (blocks (heads (drop_listed (at ?a ?l) N))) = set (blocks (heads N)) - at (base ?g) ` set (frees ?l ?M)"
      using blocks_dropped flists_distinct [OF l] by (simp add: heads_drop B)
    show "ld (?g\<lparr>mem := m\<rparr>) (at (base ?g) (?l + extent ?M)) = Some (set_prev_allocated 0 page_epilogue)"
      using e by (simp add: B page_words add.assoc)
    show "ld ?g (at (base ?g) (?l + extent ?M)) = Some page_epilogue"
      using ghost_row [of "?l + k + 4096" ?bs h1] b(2) by (simp add: B add.assoc)
    show "ld (?g\<lparr>mem := m\<rparr>) r = ld ?g r" if "r \<notin> link_rows (heads N) \<union> at (base ?g) ` {?l .. ?l + extent ?M}" for r
      using fr [of r] that by (simp add: B add.assoc)
    show "dom m = dom (mem ?g)" using dg dm by simp
  qed (use L(1) fb in \<open>simp_all add: sublists_drop B\<close>)
  moreover have "ld ?g (at ?a x) = ld h (at ?a x)" if "x \<in> payload 0 ls" for x
    using ghost_keep [OF p t b(2) old_row_kept [OF p t b(2)]] payload_range [OF that] by (simp add: ld_def)
  ultimately show ?thesis unfolding grown_def using run dm ep
    by (intro exI [of _ m] exI [of _ "drop_listed (at ?a ?l) N"] exI [of _ ep]) (simp add: sublists_drop B)
qed


text \<open>The insertion of the page into a new list behind the lists of smaller blocks.\<close>

lemma page_new_skip:
  "nseg h p (map fst A @ l # ys) (free_list_head h) \<Longrightarrow> free_list_head h \<notin> fst ` set A \<union> {l} \<Longrightarrow>
   \<forall>(k, t, xs) \<in> set A. ld h (node_size k) = Some t \<and> t < s \<Longrightarrow> ld h (node_size l) = Some t' \<Longrightarrow> t' < s \<Longrightarrow>
   page_new E h s b (hd (map fst A @ [l])) = page_new E h s b l"
proof (induction A arbitrary: p)
  case (Cons x A)
  obtain k t xs where x: "x = (k, t, xs)" by (cases x)
  let ?y = "hd (map fst A @ [l])"
  have "nseg h k (map fst A @ l # ys) (free_list_head h)" using Cons.prems(1) x by simp
  then have y: "ld h (node_next k) = Some ?y" by (cases "map fst A") auto
  have "\<exists>u. ld h (node_size ?y) = Some u \<and> u < s" using Cons.prems(3-5) by (cases A) auto
  moreover have "?y \<noteq> free_list_head h" using Cons.prems(2) by (cases A) auto
  ultimately show ?case
    using Cons.prems x Cons.IH [of k] y by (subst page_new.simps) (auto simp: order_less_imp_not_less)
qed simp

lemma page_insert_between:
  assumes D: "lists_ok h N" and N: "N = (A @ [(l, t, xs)]) @ B"
    and A: "\<forall>(k, t, xs) \<in> set (A @ [(l, t, xs)]). t < s" and B: "\<forall>(k, t, xs) \<in> set B. s < t"
  shows "page_insert E h s b = new_node E h s l (hd (map fst B @ [free_list_head h])) b"
proof -
  let ?q = "free_list_head h" and ?y = "hd (map fst B @ [free_list_head h])"
  note D = nodes_okD [OF lists_okD(2) [OF D]]
  have L: "nseg h ?q (map fst A @ l # map fst B) ?q" "?q \<notin> fst ` set A \<union> {l}" "?q \<notin> fst ` set B" using D(3,4) N by auto
  have szA: "\<forall>(k, t, xs) \<in> set A. ld h (node_size k) = Some t" "ld h (node_size l) = Some t" and szB: "\<forall>(k, t, xs) \<in> set B. ld h (node_size k) = Some t"
    using D(1) N by auto
  have y: "ld h (node_next l) = Some ?y" using nseg_between [of h ?q "map fst A @ [l]" "map fst B" ?q] L(1) by simp
  have ys: "\<exists>t'. ld h (node_size ?y) = Some t' \<and> (?y = ?q \<or> s < t')" using D(5) szB B by (cases B) auto
  have z: "?y \<noteq> ?q \<Longrightarrow> \<exists>z. ld h (node_next ?y) = Some z" using L(1) by (cases B) (auto simp: nseg_firsts)
  have "s > 0" using A le_less_trans [of 0 t s] by simp
  have "remainder_scan h s b ?q = remainder_scan h s b l"
    using L(1,2) szA A D(5) \<open>s > 0\<close> by (intro remainder_scan_skip [where t' = 0]) auto
  also have "\<dots> = Some (False, h)"
  proof (cases "?y = ?q")
    case True
    then show ?thesis using y by (subst remainder_scan.simps) simp
  next
    case False
    have "remainder_scan h s b ?y = Some (False, h)" using z ys False by (subst remainder_scan.simps) auto
    then show ?thesis using y szA(2) A False by (subst remainder_scan.simps) auto
  qed
  finally have "page_insert E h s b = page_new E h s b (hd (map fst A @ [l]))"
    using nseg_firsts [OF L(1)] by (simp add: page_insert_def hd_append split: if_splits)
  also have "\<dots> = page_new E h s b l" using L(1,2) szA A by (intro page_new_skip) auto
  also have "\<dots> = new_node E h s l ?y b"
    using y ys szA(2) A L(2) by (subst page_new.simps) (auto simp: new_node_def new_list_after_def Let_def split: prod.splits)
  finally show ?thesis .
qed

text \<open>When no free block holds the request, the search fails, and \<open>sf_malloc\<close> grows the heap and starts again.\<close>

lemma no_fit:
  assumes h: "heap_ok h bs N" and f: "\<not> fitting r bs" and r: "r < 2 ^ 62"
  shows "find (fits h (of_nat r)) (map fst N) = None"
proof -
  have l: "lists_ok h N" using heap_okD [OF h] by blast
  have "\<not> fits h (of_nat r) n" if i: "(n, s, ys) \<in> set N" for n s ys
  proof
    assume "fits h (of_nat r) n"
    then have fit: "of_nat (r + 8) \<le> s" "ys \<noteq> []"
      using nodes_okD(1) [OF lists_okD(2) [OF l] i] node_first [OF l i] by (simp_all add: fits_def)
    then obtain b where "b \<in> set ys" by fastforce
    from listed_block [OF h i this] obtain ls k rs where k: "bs = ls @ Free k # rs" "s = of_nat k" "k < 2 ^ 31" by blast
    have "r + 8 \<le> k" using of_nat_le_u64 [of "r + 8" k] fit(1) k(2,3) r by simp
    then show False using f k(1) by (auto simp: fitting_def)
  qed
  then show ?thesis by (auto simp: find_None_iff)
qed

lemma sf_malloc_again:
  assumes h: "heap_ok h bs N" and p: "new_page E h N h1" and f: "\<not> fitting r bs" and r: "0 < r" "r < 2 ^ 62"
    and g: "grow_page E h1 = Some h2"
  shows "sf_malloc E h (of_nat r) = sf_malloc E h2 (of_nat r)"
proof -
  have t: "tiling h bs" and l: "lists_ok h N" using heap_okD [OF h] by auto
  have "unat (of_nat r :: u64) = r" using r(2) by (intro unat_of_nat_u64) simp
  then have "(of_nat r :: u64) \<noteq> 0" using r(1) by (metis less_irrefl unat_0)
  moreover have "sf_mem_grow E h = (fst (sf_mem_grow E h), h1)" "fst (sf_mem_grow E h) \<noteq> 0"
    using p unfolding new_page_def by (auto simp: prod_eq_iff)
  ultimately show ?thesis
    using heap_in_use [OF t] find_node_chain [OF nodes_chain [OF l], of "of_nat r"] no_fit [OF h f r(2)] g
    by (subst sf_malloc.simps) (auto split: prod.splits)
qed

text \<open>The place of the new list, when there is a list of smaller blocks and none of the size.\<close>

lemma split_sizes_between:
  assumes o: "nodes_ok h N'" and sub: "sublists N' N"
    and N: "\<exists>(n, t, xs) \<in> set N. t < s" "\<forall>(n, t, xs) \<in> set N. t \<noteq> s"
  obtains A l t xs B where "N' = (A @ [(l, t, xs)]) @ B" "\<forall>(k, t, xs) \<in> set (A @ [(l, t, xs)]). t < s" "\<forall>(k, t, xs) \<in> set B. s < t"
proof -
  have sz: "map (fst \<circ> snd) N' = map (fst \<circ> snd) N" using sublists_keys [OF sub] by simp
  have keys: "t \<in> set (map (fst \<circ> snd) M) \<longleftrightarrow> (\<exists>n xs. (n, t, xs) \<in> set M)" for t and M :: node_list by (force simp: image_iff)
  have mem: "(\<exists>n xs. (n, t, xs) \<in> set N') \<longleftrightarrow> (\<exists>n xs. (n, t, xs) \<in> set N)" for t unfolding keys [symmetric] sz ..
  obtain A B where AB: "N' = A @ B" "\<forall>(k, t, xs) \<in> set A. t < s" "\<forall>(k, t, xs) \<in> set B. s \<le> t"
    using split_sizes [OF nodes_okD(2) [OF o]] by blast
  have B: "\<forall>(k, t, xs) \<in> set B. s < t"
  proof clarify
    fix n t xs assume i: "(n, t, xs) \<in> set B"
    then have "\<exists>n xs. (n, t, xs) \<in> set N" using mem [of t] AB(1) by auto
    then have "t \<noteq> s" using N(2) by auto
    then show "s < t" using AB(3) i by force
  qed
  have "A \<noteq> []"
  proof
    assume "A = []"
    obtain n t xs where t: "(n, t, xs) \<in> set N" "t < s" using N(1) by auto
    then obtain n' xs' where "(n', t, xs') \<in> set B" using mem [of t] AB(1) \<open>A = []\<close> by auto
    then show False using AB(3) t(2) by force
  qed
  then obtain A' l t xs where A: "A = A' @ [(l, t, xs)]" by (cases A rule: rev_cases) auto
  show ?thesis by (rule that [OF AB(1) [unfolded A] AB(2) [unfolded A] B])
qed

text \<open>The blocks after growing: the last block is extended if it is free.\<close>

definition page_block :: "ablock list \<Rightarrow> ablock list \<times> nat" where
  "page_block bs = (if last_used True bs then (bs, 4096) else (butlast bs, bytes (last bs) + 4096))"

lemma grow_steps:
  assumes p: "new_page E h N h1" and h: "heap_ok h bs N"
    and b: "unat (mem_start h) + extent bs + 4144 < 2 ^ 64" "extent bs + 4096 < 2 ^ 31" and pb: "page_block bs = (ls, k)"
  shows "grown E h h1 ls k N" "compact (ls @ [Free k])"
proof -
  have c: "compact bs" using heap_okD [OF h] by simp
  have "grown E h h1 ls k N \<and> compact (ls @ [Free k])"
  proof (cases "last_used True bs")
    case True
    then show ?thesis using grow_behind_used [OF p h b] pb c by (cases bs rule: rev_cases) (auto simp: page_block_def compact_Cons compact_def [of "[]"])
  next
    case False
    then obtain k0 where k: "bs = ls @ [Free k0]" "k = k0 + 4096" using last_free [OF False] pb by (auto simp: page_block_def)
    then show ?thesis using grow_behind_free [OF p, of ls k0] h b c by (cases ls rule: rev_cases) (auto simp: compact_Cons)
  qed
  then show "grown E h h1 ls k N" "compact (ls @ [Free k])" by simp_all
qed


text \<open>C13: On a well formed heap that \<open>sf_mem_grow\<close> has extended by a page, whatever the page contains, the rest of
  \<open>sf_malloc\<close>'s growing succeeds: it turns the page into a free block, joined with the last block if that is free, and
  enters it into a new list between the lists of smaller and of larger blocks, and no payload changes. The code never
  writes the prev-allocated bit of the new epilogue, the last word of the page: with that bit cleared the heap is well
  formed, and the heap as it is left is well formed exactly when the bit was clear in the page already. A request
  that no free block held is then served from the grown heap. (There is a list of smaller blocks and none of the
  size: otherwise the code inserts out of order, or links in one direction only.)\<close>

theorem grow_page_correct:
  assumes h: "heap_ok h bs N" and p: "new_page E h N h1" and E: "adds_lists E h1" and pb: "page_block bs = (ls, k)"
    and b: "unat (mem_start h) + extent bs + 4144 < 2 ^ 64" "extent bs + 4096 < 2 ^ 31"
    and N: "\<exists>(n, t, xs) \<in> set N. t < of_nat k" "\<forall>(n, t, xs) \<in> set N. t \<noteq> of_nat k"
    and ep: "ld h1 (mem_end h1 - 8) = Some w"
  shows "\<exists>m N'. grow_page E h1 = Some (h1\<lparr>mem := m\<rparr>) \<and> m (mem_end h1 - 8) = Some (set_allocated 1 w) \<and>
    heap_ok (h1\<lparr>mem := m(mem_end h1 - 8 \<mapsto> set_prev_allocated 0 (set_allocated 1 w))\<rparr>) (ls @ [Free k]) N' \<and>
    (heap_ok (h1\<lparr>mem := m\<rparr>) (ls @ [Free k]) N' \<longleftrightarrow> prev_allocated w = 0) \<and>
    (\<forall>x \<in> payload 0 bs. ld (h1\<lparr>mem := m\<rparr>) (at (base h) x) = ld h (at (base h) x)) \<and>
    (\<forall>r. 0 < r \<and> r < 2 ^ 62 \<and> \<not> fitting r bs \<longrightarrow> sf_malloc E h (of_nat r) = sf_malloc E (h1\<lparr>mem := m\<rparr>) (of_nat r))"
proof -
  let ?e = "mem_end h1 - 8" and ?d = "set_allocated 1 w"
  note G = grow_steps [OF p h b pb]
  obtain m N' where m: "grow_page E h1 = page_insert E (soil ?e ?d (h1\<lparr>mem := m\<rparr>)) (of_nat k) (at (base h) (extent ls))"
    "tiling (h1\<lparr>mem := m\<rparr>) (ls @ [Free k])" "lists_ok (h1\<lparr>mem := m\<rparr>) N'" "sublists N' N"
    "listed h1 N' (set (frees 0 ls))" "dom m = dom (mem h1)"
    "\<forall>x \<in> payload 0 ls. ld (h1\<lparr>mem := m\<rparr>) (at (base h) x) = ld h (at (base h) x)"
    using G(1) ep unfolding grown_def by auto
  let ?h = "h1\<lparr>mem := m\<rparr>" and ?s = "of_nat k :: u64" and ?b = "at (base h) (extent ls)" and ?bs = "ls @ [Free k]"
  let ?g = "soil ?e ?d ?h"
  have base: "base ?h = base h" using new_page_base(1) [OF p, of bs] heap_okD [OF h] by simp
  have sz: "sized ls" using m(2) by (simp add: tiling_def)
  have e: "?e = at (base ?h) (extent ?bs)"
  proof -
    have "mem_end h1 = at (base ?h) (extent ?bs + 8)" using m(2) by (simp add: tiling_def)
    then show ?thesis by (simp add: at_diff)
  qed
  have E': "adds_lists E ?g"
  proof -
    have "?e \<in> dom (mem h1)" using ep by (auto simp: ld_def)
    then have "dom (m(?e \<mapsto> ?d)) = dom (mem h1)" using m(6) by auto
    then show ?thesis using E unfolding adds_lists_def soil_def by simp
  qed
  obtain v where v: "ld ?h ?b = Some v" "bsz v = ?s"
    using tiling_block [OF m(2)] tiling_bsz(1) [OF m(2)] base by (auto simp: block_at_def)
  obtain A' l t xs B where AB: "N' = (A' @ [(l, t, xs)]) @ B" "\<forall>(k, t, xs) \<in> set (A' @ [(l, t, xs)]). t < ?s" "\<forall>(k, t, xs) \<in> set B. ?s < t"
    by (rule split_sizes_between [OF lists_okD(2) [OF m(3)] m(4) N])
  have l: "listed ?h N' (set (frees 0 ?bs) - {extent ls})"
  proof -
    have "extent ls \<notin> set (frees 0 ls)" using frees_range [OF sz, of "extent ls" 0] by auto
    then show ?thesis using m(5) by simp
  qed
  have lg: "lists_ok ?g N'" by (rule soil_lists [OF m(2,3) l _ e]) auto
  have "grow_page E h1 = new_node E ?g ?s (last (free_list_head ?h # map fst (A' @ [(l, t, xs)]))) (hd (map fst B @ [free_list_head ?h])) ?b"
    using page_insert_between [OF lg AB] m(1) by simp
  moreover obtain m' n where "new_node E ?g ?s (last (free_list_head ?h # map fst (A' @ [(l, t, xs)]))) (hd (map fst B @ [free_list_head ?h])) ?b = Some (soil ?e ?d (h1\<lparr>mem := m'\<rparr>))"
    and k: "heap_ok (h1\<lparr>mem := m'\<rparr>) ?bs (place ?s ?b n N')"
      "\<forall>x \<in> payload 0 ?bs. ld (h1\<lparr>mem := m'\<rparr>) (at (base h) x) = ld ?h (at (base h) x)"
    using new_node_soil [OF m(2,3) l _ _ E' G(2) AB(1) _ _ e, of v] v AB(2,3) base by auto
  ultimately have run: "grow_page E h1 = Some (soil ?e ?d (h1\<lparr>mem := m'\<rparr>))" by simp
  have e': "?e = at (base (h1\<lparr>mem := m'\<rparr>)) (extent ?bs)" using e by simp
  have "heap_ok (soil ?e (set_prev_allocated 0 ?d) (h1\<lparr>mem := m'\<rparr>)) ?bs (place ?s ?b n N')"
    by (rule soil_heap_ok [OF k(1) _ _ e']) simp_all
  moreover have "heap_ok (soil ?e ?d (h1\<lparr>mem := m'\<rparr>)) ?bs (place ?s ?b n N') \<longleftrightarrow> prev_allocated w = 0"
    using soil_heap_ok_iff [OF k(1) epilogue_words(1) e', of w] by simp
  moreover have pl: "payload 0 bs = payload 0 ls"
    using pb last_free [of bs] by (auto simp: page_block_def split: if_splits)
  moreover have "ld (soil ?e ?d (h1\<lparr>mem := m'\<rparr>)) (at (base h) x) = ld h (at (base h) x)" if x: "x \<in> payload 0 ls" for x
  proof -
    have "at (base h) x \<noteq> ?e"
      using payload_range [OF x] epilogue_row(4) [OF m(2), of x] unfolding e base by simp
    then show ?thesis using k(2) m(7) x by simp
  qed
  ultimately show ?thesis using run sf_malloc_again [OF h p _ _ _ run]
    by (intro exI [of _ "m'(?e \<mapsto> ?d)"] exI [of _ "place ?s ?b n N'"]) (simp add: soil_def)
qed

end
