(* ===== verification/Sf_Properties.thy ===== *)
theory Sf_Properties
  imports Sf_Grow
begin

text \<open>
  Properties of whole calls of the allocator, and the concrete heap on which the theorems about
  the allocator are applied.
\<close>

subsection \<open>Allocation and reallocation\<close>

text \<open>On an initialised heap whose list of free lists is well linked, \<open>sf_malloc\<close> of a
  positive size allocates from the first node that has blocks and whose size holds the request and
  the header (first fit).\<close>

theorem sf_malloc_first_fit:
  assumes "mem_start h \<noteq> mem_end h" "sz \<noteq> 0" "chain h (free_list_head h) ns"
    and "find (fits h sz) ns = Some t"
  shows "sf_malloc E h sz = alloc_from E h t sz"
  using assms find_node_chain [OF assms(3), of sz] by (subst sf_malloc.simps) simp

text \<open>\<open>sf_realloc\<close> to a smaller size that would leave a splinter of less than 32 bytes
  returns the same pointer and changes nothing but the requested size in the header.\<close>

theorem sf_realloc_in_place:
  assumes "valid_pointer h pp = Some True" "ld h (pp - 8) = Some w" "rsize \<noteq> 0"
    and "rsize < requested_size w" "sint (bs_int w - split_size rsize) < 32"
  shows "\<exists>h' w'. sf_realloc E h pp rsize = Some (Done (pp, h')) \<and> ld h' (pp - 8) = Some w' \<and>
    requested_size w' = rsize \<and> bs_int w' = bs_int w \<and> allocated w' = allocated w \<and>
    prev_allocated w' = prev_allocated w \<and> (\<forall>a. a \<noteq> pp - 8 \<longrightarrow> ld h' a = ld h a)"
proof -
  have "take_bit 32 (requested_size w) = requested_size w" by simp
  then have "unat (requested_size w) < 2 ^ 32"
    by (metis take_bit_nat_less_exp unsigned_take_bit_eq)
  then have "unat rsize < 2 ^ 32" using assms(4) by (simp add: word_less_nat_alt)
  then have "unat (take_bit 32 rsize) = unat rsize"
    by (simp only: unsigned_take_bit_eq) (rule take_bit_nat_eq_self)
  then have "take_bit 32 rsize = rsize" by (simp only: word_unat_eq_iff)
  moreover have "\<not> requested_size w < rsize" using assms(4) by simp
  ultimately show ?thesis using assms by (simp add: sf_realloc_def upd_mapped)
qed

subsection \<open>Witnesses\<close>

text \<open>A list node at 0x100 for blocks of 32 bytes that holds two free blocks, with an allocated
  block of 32 bytes between them, and an empty list for blocks of 96 bytes at 0x200.\<close>

definition wit_mem :: "u64 \<Rightarrow> u64 option" where
  "wit_mem = [0x10 \<mapsto> 0, 0x18 \<mapsto> 0, 0x20 \<mapsto> 0, 0x28 \<mapsto> 0, 0x30 \<mapsto> 0x100, 0x38 \<mapsto> 0x200,
     0x100 \<mapsto> 32, 0x108 \<mapsto> 0, 0x110 \<mapsto> 0x1008, 0x118 \<mapsto> 0x1048, 0x120 \<mapsto> 0x200, 0x128 \<mapsto> 0x10,
     0x200 \<mapsto> 96, 0x208 \<mapsto> 0, 0x210 \<mapsto> 0x208, 0x218 \<mapsto> 0x208, 0x220 \<mapsto> 0x10, 0x228 \<mapsto> 0x100,
     0x1008 \<mapsto> 0x22, 0x1010 \<mapsto> 0x1048, 0x1018 \<mapsto> 0x108, 0x1020 \<mapsto> 0x22,
     0x1028 \<mapsto> 0x1400000021, 0x1030 \<mapsto> 0, 0x1038 \<mapsto> 0, 0x1040 \<mapsto> 0,
     0x1048 \<mapsto> 0x22, 0x1050 \<mapsto> 0x108, 0x1058 \<mapsto> 0x1008, 0x1060 \<mapsto> 0x22, 0x1068 \<mapsto> 0x21]"

definition wit_heap :: heap where
  "wit_heap = \<lparr>mem = wit_mem, mem_start = 0xfe0, mem_end = 0x1070, free_list_head = 0x10\<rparr>"

definition wit_ext :: sf_ext where
  "wit_ext = \<lparr>sf_mem_grow = (\<lambda>h. (0, h)), sf_add_free_list = (\<lambda>_ _ h. (0, h))\<rparr>"

definition wit_lists :: "(u64 \<times> u64 list) list" where
  "wit_lists = [(0x108, [0x1008, 0x1048]), (0x208, [])]"

lemma wit_ld: "ld wit_heap a = wit_mem a"
  by (simp add: ld_def wit_heap_def)

theorem round_size_least_witness:
  "32 \<le> unat (round_size 33) \<and> 16 dvd unat (round_size 33) \<and> unat (round_size 33) \<le> 48"
proof -
  have "unat (33 :: u64) < 2 ^ 63" by simp
  from round_size_least [OF this] show ?thesis by auto
qed

text \<open>The first free block is split: 32 bytes of a block of 96.\<close>

definition wit_heap2 :: heap where
  "wit_heap2 = wit_heap\<lparr>mem := wit_mem(0x100 \<mapsto> 96)\<rparr>"

theorem carve_block_headers_witness:
  "\<exists>h'. carve_block wit_heap2 0x100 96 32 20 = Some (0x1008, 0x1008 + 32, h') \<and>
    (\<exists>w' v' f'. ld h' 0x1008 = Some w' \<and> allocated w' = 1 \<and> bsz w' = 32 \<and> requested_size w' = 20 \<and>
       prev_allocated w' = prev_allocated 0x22 \<and>
       ld h' (0x1008 + 32) = Some v' \<and> allocated v' = 0 \<and> prev_allocated v' = 1 \<and> bsz v' = 96 - 32 \<and>
       ld h' (0x1008 + 96 - 8) = Some f' \<and> allocated f' = 0 \<and> prev_allocated f' = 1 \<and> bsz f' = 96 - 32) \<and>
    ld h' (link_next (node_head 0x100)) = Some 0x1048 \<and>
    (\<forall>a. a \<notin> {0x1008, 0x1008 + 32, 0x1008 + 96 - 8, link_next (node_head 0x100)} \<longrightarrow> ld h' a = ld wit_heap2 a)"
  by (rule carve_block_headers [where w = "0x22" and v = "0x1400000021" and f = "0x22"])
    (simp add: ld_def wit_heap2_def wit_heap_def wit_mem_def link_next_def node_head_def)+

theorem alloc_exact_back_link_witness:
  "\<exists>h'. alloc_exact wit_heap 0x100 32 20 = Some (0x1008 + 8, h') \<and>
    ld h' (link_next (node_head 0x100)) = Some 0x1048 \<and> ld h' (link_prev 0x1048) = Some 0x1008 \<and>
    ld h' (link_next 0x1048) = ld wit_heap (link_next 0x1048) \<and>
    (\<exists>h''. unlink_block h' 0x1048 = Some h'' \<and> ld h'' (0x1008 + 8) = ld wit_heap (link_next 0x1048))"
  by (rule alloc_exact_back_link [where w = "0x22" and xs = "[]" and v = "0x1400000021"
        and link_rows = "{0x110, 0x118, 0x1010, 0x1018, 0x1050, 0x1058}"]) code_simp+

theorem list_operations_refine_witness:
  "\<exists>h'. run_steps list_step [Unlink 0x1008, Front 0x108 0x1008] wit_heap = Some h' \<and>
    flists_on {0x108, 0x208, 0x1008, 0x1048} h' (fold list_abs [Unlink 0x1008, Front 0x108 0x1008] wit_lists)"
  by (rule list_operations_refine) code_simp+

theorem sf_malloc_first_fit_witness:
  "sf_malloc wit_ext wit_heap 20 = alloc_from wit_ext wit_heap 0x100 20"
  by (rule sf_malloc_first_fit [where ns = "[0x100, 0x200]"]) code_simp+

definition wit_after :: heap where
  "wit_after = (case coalesce wit_heap 0x1030 of Some (_, h) \<Rightarrow> h | None \<Rightarrow> wit_heap)"

theorem sf_free_into_list_witness:
  "\<exists>h'. sf_free wit_ext wit_heap 0x1030 = Some (Done h') \<and>
    flists h' (add_front (node_head 0x200) 0x1008 [(0x108, []), (0x208, [])]) \<and> free_block h' 0x1008 96 1"
proof (rule sf_free_into_list [of wit_heap "0x1030" "0x1008" wit_after])
  show "coalesce wit_heap 0x1030 = Some (0x1008, wit_after)"
  proof -
    have "map_option fst (coalesce wit_heap 0x1030) = Some 0x1008" by code_simp
    then show ?thesis unfolding wit_after_def by (auto split: option.splits prod.splits)
  qed
  show "nchain wit_after 0x100 ([0x100] @ 0x200 # [])" by code_simp
  show "ld wit_after (node_next (free_list_head wit_after)) = Some 0x100" by code_simp
  have "ld wit_after 0x1008 = Some 0x62" "ld wit_after 0x1060 = Some 0x62" by code_simp+
  moreover have "allocated 0x62 = 0" "bs_int 0x62 = 96" "prev_allocated 0x62 = 1" by code_simp+
  moreover have "(0x1008 :: u64) + scast (96 :: u32) - 8 = 0x1060" by simp
  ultimately show "free_block wit_after 0x1008 96 1"
    unfolding free_block_def by auto
  have sc: "(scast (96 :: u32) :: u64) = 96" by simp
  show "\<forall>m \<in> set [0x100]. the (ld wit_after (node_size m)) < scast (96 :: u32)"
    unfolding sc by code_simp
  show "ld wit_after (node_size 0x200) = Some (scast (96 :: u32))" unfolding sc by code_simp
  show "0x1008 + scast (96 :: u32) - 8 \<notin> link_rows [(0x108, []), (0x208, [])] \<union> {link_next 0x1008, link_prev 0x1008}"
    unfolding sc by code_simp
qed code_simp+

theorem sf_realloc_in_place_witness:
  "\<exists>h' w'. sf_realloc wit_ext wit_heap 0x1030 10 = Some (Done (0x1030, h')) \<and> ld h' (0x1030 - 8) = Some w' \<and>
    requested_size w' = 10 \<and> bs_int w' = bs_int 0x1400000021 \<and> allocated w' = allocated 0x1400000021 \<and>
    prev_allocated w' = prev_allocated 0x1400000021 \<and> (\<forall>a. a \<noteq> 0x1030 - 8 \<longrightarrow> ld h' a = ld wit_heap a)"
  by (rule sf_realloc_in_place) code_simp+

subsection \<open>The theorems about whole heaps apply\<close>

text \<open>The blocks of this heap and their lists; a new node for a list takes the rows from 0x300 on, and the words of a
  new page are not zero.\<close>

definition wit_nodes :: node_list where
  "wit_nodes = [(0x100, 32, [0x1008, 0x1048]), (0x200, 96, [])]"

definition wit_lib :: sf_ext where
  "wit_lib = \<lparr>sf_mem_grow = (\<lambda>h. (mem_end h, h\<lparr>mem := (\<lambda>r. if r \<in> at (mem_end h) ` {..< 4096} then Some 0xf4 else mem h r), mem_end := mem_end h + 4096\<rparr>)),
     sf_add_free_list = (\<lambda>s nx h. (0x300, add_node h 0x300 s (the (mem h (node_prev nx))) nx))\<rparr>"

lemma wit_adds: "node_rows 0x300 \<inter> (dom (mem h) \<union> heap_rows h) = {} \<Longrightarrow> adds_lists wit_lib h"
  unfolding adds_lists_def by (auto simp: wit_lib_def)

lemma wit_base: "base wit_heap = 0x1008" "free_list_head wit_heap = 0x10" "mem wit_heap = wit_mem"
  by (simp_all add: base_def wit_heap_def)

lemma wit_infos: "bsz 0x22 = 32" "unat (bs_int 0x22) = 32" "unat (bs_int 0x1400000021) = 32" "unat (requested_size 0x1400000021) = 20"
  "allocated 0x22 = 0" "allocated 0x1400000021 = 1" "allocated 0x21 = 1"
  "prev_allocated 0x22 = 1" "prev_allocated 0x1400000021 = 0" "prev_allocated 0x21 = 0"
  by code_simp+

lemma wit_tiling: "tiling wit_heap [Free 32, Used 32 20, Free 32]"
proof -
  have "closed wit_heap (base wit_heap) 0 True [Free 32, Used 32 20, Free 32]"
    by (simp add: closed_def block_at_def wit_base at_def wit_ld wit_mem_def wit_infos)
  moreover have "ld wit_heap (at (base wit_heap) x) \<noteq> None" if "x < 96" "8 dvd x" for x
  proof -
    have "x \<in> {0, 8, 16, 24, 32, 40, 48, 56, 64, 72, 80, 88}" using that by simp presburger
    then show ?thesis by (elim insertE) (simp_all add: wit_base at_def wit_ld wit_mem_def)
  qed
  ultimately show ?thesis by (simp add: tiling_def base_def at_def wit_heap_def)
qed

lemma at_unat: "unat a + x < 2 ^ 63 \<Longrightarrow> unat (at a x) = unat a + x"
  using unat_of_nat_u64 [of "unat a + x"] by (simp add: at_def)

lemma wit_heap_rows: "r \<in> heap_rows wit_heap \<Longrightarrow> 0x1008 \<le> r"
  unfolding tiling_rows [OF wit_tiling] by (auto simp: wit_base word_le_nat_alt at_unat)

lemma wit_nodes_ok: "nodes_ok wit_heap wit_nodes"
proof (rule nodes_okI)
  fix n assume n: "n \<in> set (free_list_head wit_heap # map fst wit_nodes)"
  then have i: "n \<in> {0x10, 0x100, 0x200}" by (simp add: wit_nodes_def wit_base)
  then show "node_rows n \<inter> heap_rows wit_heap = {}"
    using wit_heap_rows by (fastforce simp: node_rows_def)
  show "node_rows n \<subseteq> dom (mem wit_heap)" using i by (auto simp: node_rows_def wit_base wit_mem_def)
next
  fix n m assume "n \<in> set (free_list_head wit_heap # map fst wit_nodes)" "m \<in> set (free_list_head wit_heap # map fst wit_nodes)" "n \<noteq> m"
  then show "node_rows n \<inter> node_rows m = {}" by (auto simp: wit_nodes_def wit_base node_rows_def)
qed (auto simp: wit_nodes_def wit_base wit_ld wit_mem_def node_size_def node_next_def node_prev_def)

lemma wit_lists_ok: "lists_ok wit_heap wit_nodes"
proof (rule lists_okI [OF _ wit_nodes_ok])
  show "flists wit_heap (heads wit_nodes)"
    by (simp add: flists_def wit_nodes_def node_head_def wit_ld wit_mem_def apart_def link_next_def link_prev_def)
qed (auto simp: wit_nodes_def wit_ld wit_mem_def wit_infos)

lemma wit_rows: "node_rows 0x300 \<inter> (dom (mem wit_heap) \<union> heap_rows wit_heap) = {}"
  using wit_heap_rows [of "0x300"] wit_heap_rows [of "0x308"] wit_heap_rows [of "0x310"] wit_heap_rows [of "0x318"]
    wit_heap_rows [of "0x320"] wit_heap_rows [of "0x328"]
  by (auto simp: node_rows_def wit_base wit_mem_def)

lemma wit_heap_ok: "heap_ok wit_heap [Free 32, Used 32 20, Free 32] wit_nodes"
  unfolding heap_ok_def
proof (intro conjI)
  show "listed wit_heap wit_nodes (set (frees 0 [Free 32, Used 32 20, Free 32]))"
    by (simp add: listed_def wit_nodes_def blocks_def heads_def base_def wit_heap_def at_def)
qed (simp_all add: wit_tiling wit_lists_ok compact_def)

theorem sf_free_correct_witness:
  "\<exists>m N'. sf_free wit_lib wit_heap (at (base wit_heap) (extent [Free 32] + 8)) = Some (Done (wit_heap\<lparr>mem := m\<rparr>)) \<and>
    heap_ok (wit_heap\<lparr>mem := m\<rparr>) (released [Free 32] 32 [Free 32]) N' \<and>
    (\<forall>x \<in> payload 0 [Free 32] \<union> payload (extent [Free 32] + 32) [Free 32].
       ld (wit_heap\<lparr>mem := m\<rparr>) (at (base wit_heap) x) = ld wit_heap (at (base wit_heap) x))"
  by (rule sf_free_correct [where N = wit_nodes and r = 20])
    (use wit_heap_ok wit_adds [OF wit_rows] in \<open>simp_all add: wit_nodes_def\<close>)

theorem sf_malloc_correct_witness:
  "\<exists>ls k rs g. [Free 32, Used 32 20, Free 32] = ls @ Free k # rs \<and> 20 + 8 \<le> k \<and>
    (\<forall>k'. Free k' \<in> set [Free 32, Used 32 20, Free 32] \<and> 20 + 8 \<le> k' \<longrightarrow> k \<le> k') \<and>
    32 \<le> g \<and> 16 dvd g \<and> 20 + 8 \<le> g \<and> (\<forall>c. 32 \<le> c \<and> 16 dvd c \<and> 20 + 8 \<le> c \<longrightarrow> g \<le> c) \<and>
    allotted wit_heap ls k rs (allot k g 20) (sf_malloc wit_lib wit_heap (of_nat 20))"
  by (rule sf_malloc_correct [OF wit_heap_ok wit_adds [OF wit_rows]]) (auto simp: fitting_def)

text \<open>An empty heap, and the heap of one page.\<close>

definition wit_empty :: heap where
  "wit_empty = \<lparr>mem = [0x10 \<mapsto> 0, 0x18 \<mapsto> 0, 0x20 \<mapsto> 0, 0x28 \<mapsto> 0, 0x30 \<mapsto> 0x10, 0x38 \<mapsto> 0x10],
     mem_start = 0x1000, mem_end = 0x1000, free_list_head = 0x10\<rparr>"

theorem sf_init_correct_witness:
  "\<exists>h1 m n. sf_init wit_lib wit_empty = Some (h1\<lparr>mem := m\<rparr>) \<and> heap_ok (h1\<lparr>mem := m\<rparr>) [Free 4048] [(n, 4048, [mem_start wit_empty + 40])]"
proof -
  let ?h = "snd (sf_mem_grow wit_lib wit_empty)"
  have rows: "r \<notin> at 0x1000 ` {..< 4096}" if "r < 0x1000" for r
    using that by (auto simp: word_less_nat_alt at_unat)
  have hr: "heap_rows ?h \<subseteq> at 0x1000 ` {..< 4096}"
  proof
    fix r assume "r \<in> heap_rows ?h"
    then obtain x where "r = at 0x1000 (40 + x)" "x < 4056" by (auto simp: heap_rows_def base_def wit_lib_def wit_empty_def at_def)
    then show "r \<in> at 0x1000 ` {..< 4096}" by auto
  qed
  have m: "mem ?h r = mem wit_empty r" if "r < 0x1000" for r using rows [OF that] by (simp add: wit_lib_def wit_empty_def)
  have q: "free_list_head ?h = 0x10" "mem_start ?h = 0x1000" "mem_end ?h = 0x2000" by (simp_all add: wit_lib_def wit_empty_def)
  have nr: "r < 0x1000" if "r \<in> node_rows 0x10" for r using that by (auto simp: node_rows_def)
  have "nodes_ok ?h []"
  proof (rule nodes_okI)
    show "nseg ?h (free_list_head ?h) (map fst []) (free_list_head ?h)" "ld ?h (node_size (free_list_head ?h)) = Some 0"
      by (simp_all add: q ld_def m node_next_def node_prev_def node_size_def) (simp_all add: wit_empty_def)
    fix n assume "n \<in> set (free_list_head ?h # map fst [])"
    then have n: "n = 0x10" by (simp add: q)
    show "node_rows n \<inter> heap_rows ?h = {}" using nr rows hr unfolding n by blast
    show "node_rows n \<subseteq> dom (mem ?h)" unfolding n by (simp add: node_rows_def dom_def m) (simp add: wit_empty_def)
  qed simp_all
  moreover have pg: "ld ?h (at 0x1000 x) = Some 0xf4" if "x < 4096" for x
    using that by (simp add: ld_def wit_lib_def wit_empty_def)
  moreover have "at 0x1000 x \<notin> node_rows 0x10" if "x < 4096" for x
    using rows [OF nr, of "at 0x1000 x"] that by blast
  ultimately have "first_page wit_lib wit_empty ?h"
    unfolding first_page_def q by (simp add: wit_empty_def)
  moreover have "node_rows 0x300 \<inter> (dom (mem ?h) \<union> heap_rows ?h) = {}"
  proof -
    have "r < 0x1000 \<and> mem wit_empty r = None" if "r \<in> node_rows 0x300" for r
      using that by (auto simp: node_rows_def wit_empty_def)
    then have "r \<notin> dom (mem ?h) \<union> heap_rows ?h" if "r \<in> node_rows 0x300" for r
      using rows [of r] m [of r] hr that by auto
    then show ?thesis by blast
  qed
  then have "adds_lists wit_lib ?h" by (rule wit_adds)
  moreover have "ld ?h (mem_end ?h - 8) = Some 0xf4" using pg [of 4088] by (simp add: q at_def)
  moreover have "prev_allocated 0xf4 = 0" by code_simp
  ultimately show ?thesis using sf_init_correct [of wit_lib wit_empty ?h "0xf4"] by blast
qed

theorem grow_page_correct_witness:
  "\<exists>h1 m N'. sf_mem_grow wit_lib wit_heap = (0x1070, h1) \<and> grow_page wit_lib h1 = Some (h1\<lparr>mem := m\<rparr>) \<and>
    heap_ok (h1\<lparr>mem := m\<rparr>) [Free 32, Used 32 20, Free 4128] N'"
proof -
  let ?h = "snd (sf_mem_grow wit_lib wit_heap)" and ?bs = "[Free 32, Used 32 20, Free 32]"
  have low: "r \<notin> at 0x1070 ` {..< 4096}" if "r < 0x1070" for r
    using that by (auto simp: word_less_nat_alt at_unat)
  have g: "mem_end wit_heap = 0x1070" "mem_start wit_heap = 0xfe0" "free_list_head wit_heap = 0x10" by (simp_all add: wit_heap_def)
  have hr: "0x1008 \<le> r" if hq: "r \<in> heap_rows ?h" for r
  proof -
    obtain x where "r = at 0x1008 x" "x < 4200" using hq by (auto simp: heap_rows_def base_def wit_lib_def wit_heap_def)
    then show ?thesis by (simp add: word_le_nat_alt at_unat)
  qed
  have "new_page wit_lib wit_heap wit_nodes ?h"
  proof -
    have "node_rows n \<inter> at 0x1070 ` {..< 4096} = {}" if "n \<in> {0x10, 0x100, 0x200}" for n
    proof -
      have "r < 0x1070" if "r \<in> node_rows n" for r using that \<open>n \<in> _\<close> by (auto simp: node_rows_def)
      then show ?thesis using low by blast
    qed
    then show ?thesis unfolding new_page_def g by (simp add: wit_lib_def wit_nodes_def g ld_def)
  qed
  moreover have "node_rows 0x300 \<inter> (dom (mem ?h) \<union> heap_rows ?h) = {}"
  proof -
    have n: "r < 0x1008 \<and> wit_mem r = None" if "r \<in> node_rows 0x300" for r
      using that by (auto simp: node_rows_def wit_mem_def)
    have "r \<notin> dom (mem ?h) \<union> heap_rows ?h" if "r \<in> node_rows 0x300" for r
    proof -
      have "r < 0x1070" using n [OF that] by (auto intro: less_trans)
      then show ?thesis using n [OF that] hr [of r] low [of r] by (auto simp: wit_lib_def wit_heap_def)
    qed
    then show ?thesis by blast
  qed
  then have "adds_lists wit_lib ?h" by (rule wit_adds)
  moreover have "ld ?h (mem_end ?h - 8) = Some 0xf4"
  proof -
    have "mem_end ?h - 8 = at 0x1070 4088" by (simp add: wit_lib_def g at_def)
    then show ?thesis by (simp add: ld_def wit_lib_def g)
  qed
  moreover have "prev_allocated 0xf4 = 0" by code_simp
  ultimately obtain m N' where "grow_page wit_lib ?h = Some (?h\<lparr>mem := m\<rparr>)" "heap_ok (?h\<lparr>mem := m\<rparr>) [Free 32, Used 32 20, Free 4128] N'"
    using grow_page_correct [OF wit_heap_ok, of wit_lib ?h "[Free 32, Used 32 20]" 4128 "0xf4"]
    by (auto simp: page_block_def wit_nodes_def g)
  moreover have "sf_mem_grow wit_lib wit_heap = (0x1070, ?h)" by (simp add: wit_lib_def g)
  ultimately show ?thesis by blast
qed

end
