(* ===== verification/Ring.thy ===== *)
theory Ring
  imports Main
begin

text \<open>
  Circular doubly linked lists whose links are total functions: \<open>seg_of nx pv p xs q\<close> says that the
  \<open>next\<close> links lead from \<open>p\<close> through \<open>xs\<close> to \<open>q\<close> and the \<open>prev\<close> links back. A ring is a
  segment from a sentinel to itself. Appending before the sentinel and removing an element are
  updates of two links each.
\<close>

fun seg_of :: "('p \<Rightarrow> 'p) \<Rightarrow> ('p \<Rightarrow> 'p) \<Rightarrow> 'p \<Rightarrow> 'p list \<Rightarrow> 'p \<Rightarrow> bool" where
  "seg_of nx pv p [] q \<longleftrightarrow> nx p = q \<and> pv q = p"
| "seg_of nx pv p (x # xs) q \<longleftrightarrow> nx p = x \<and> pv x = p \<and> seg_of nx pv x xs q"

definition ring :: "('p \<Rightarrow> 'p) \<Rightarrow> ('p \<Rightarrow> 'p) \<Rightarrow> 'p \<Rightarrow> 'p list \<Rightarrow> bool" where
  "ring nx pv a xs \<longleftrightarrow> seg_of nx pv a xs a \<and> distinct (a # xs)"

lemma seg_of_append [simp]:
  "seg_of nx pv p (xs @ x # ys) q \<longleftrightarrow> seg_of nx pv p xs x \<and> seg_of nx pv x ys q"
  by (induction xs arbitrary: p) auto

lemma seg_of_cong:
  assumes "\<And>x. x \<in> set (p # xs) \<Longrightarrow> nx' x = nx x" "\<And>x. x \<in> set (xs @ [q]) \<Longrightarrow> pv' x = pv x"
  shows "seg_of nx' pv' p xs q = seg_of nx pv p xs q"
  using assms by (induction xs arbitrary: p) simp_all

lemma seg_of_last: "seg_of nx pv p xs q \<Longrightarrow> pv q = last (p # xs) \<and> nx (last (p # xs)) = q"
  by (induction xs arbitrary: p) auto

lemma seg_of_hd: "seg_of nx pv p xs q \<Longrightarrow> nx p = hd (xs @ [q]) \<and> pv (hd (xs @ [q])) = p"
  by (cases xs) auto

lemma seg_of_redirect:
  assumes "seg_of nx pv a xs b" "distinct (a # xs)" "c \<notin> set xs"
  shows "seg_of (nx(last (a # xs) := c)) (pv(c := last (a # xs))) a xs c"
proof (cases xs rule: rev_cases)
  case (snoc ys y)
  have "seg_of (nx(y := c)) (pv(c := y)) a ys y = seg_of nx pv a ys y"
    using assms(2,3) snoc by (intro seg_of_cong) auto
  then show ?thesis using assms(1,2) snoc by auto
qed simp

lemma ring_remove:
  assumes "ring nx pv a (xs @ b # ys)"
  shows "nx b = hd (ys @ [a])" "pv b = last (a # xs)"
    and "ring (nx(pv b := nx b)) (pv(nx b := pv b)) a (xs @ ys)"
proof -
  have s: "seg_of nx pv a xs b" "seg_of nx pv b ys a" and d: "distinct (a # xs @ b # ys)"
    using assms by (simp_all add: ring_def)
  show n: "nx b = hd (ys @ [a])" "pv b = last (a # xs)"
    using seg_of_last [OF s(1)] seg_of_hd [OF s(2)] by simp_all
  have l: "last (a # xs) \<in> set (a # xs)" by (rule last_in_set) simp
  have "seg_of (nx(pv b := nx b)) (pv(nx b := pv b)) a (xs @ ys) a"
  proof (cases ys)
    case Nil
    then show ?thesis using seg_of_redirect [OF s(1), of a] d n by auto
  next
    case (Cons y zs)
    have "seg_of (nx(pv b := y)) (pv(y := pv b)) a xs y"
      using seg_of_redirect [OF s(1), of y] d n Cons by auto
    moreover have "seg_of (nx(pv b := y)) (pv(y := pv b)) y zs a = seg_of nx pv y zs a"
      using d n l Cons by (intro seg_of_cong) auto
    ultimately show ?thesis using s(2) n Cons by auto
  qed
  then show "ring (nx(pv b := nx b)) (pv(nx b := pv b)) a (xs @ ys)"
    using d by (auto simp: ring_def)
qed

lemma ring_append:
  assumes "ring nx pv a xs" "b \<notin> set (a # xs)"
  shows "pv a = last (a # xs)"
    and "ring (nx(b := a, pv a := b)) (pv(b := pv a, a := b)) a (xs @ [b])"
proof -
  have s: "seg_of nx pv a xs a" and d: "distinct (a # xs)" using assms(1) by (simp_all add: ring_def)
  show p: "pv a = last (a # xs)" using seg_of_last [OF s] by simp
  have l: "last (a # xs) \<in> set (a # xs)" by (rule last_in_set) simp
  then have lb: "pv a \<noteq> b" using p assms(2) by auto
  have "seg_of (nx(pv a := b)) (pv(b := pv a)) a xs b"
    using seg_of_redirect [OF s d, of b] assms(2) p by simp
  moreover have "seg_of (nx(b := a, pv a := b)) (pv(b := pv a, a := b)) a xs b
      = seg_of (nx(pv a := b)) (pv(b := pv a)) a xs b"
    using assms(2) d by (intro seg_of_cong) auto
  ultimately show "ring (nx(b := a, pv a := b)) (pv(b := pv a, a := b)) a (xs @ [b])"
    using assms(2) d lb by (auto simp: ring_def)
qed

end
