(* ===== verification/Xacto_Trans.thy ===== *)
theory Xacto_Trans
  imports C_Prelude Ring
begin

text \<open>
  The transaction manager of hw5/src/transaction.c. Transactions live in a store from addresses to
  records; the sentinel \<open>trans_list\<close> has the address 0. The model is one thread's view: a lock
  of a mutex that is already held, a use of freed memory and a loop that does not end are
  \<^term>\<open>None\<close>. What the busy-waiting loop of \<open>trans_commit\<close> reads of other transactions is a
  parameter, so that other threads may change it between two reads. \<open>exit(-1)\<close> is \<open>Abort\<close>.
\<close>

subsection \<open>State\<close>

datatype trans_status = TRANS_PENDING | TRANS_COMMITTED | TRANS_ABORTED

record trans =
  tid :: u32
  refcnt :: u32
  status :: trans_status
  depends :: "nat list"
  waitcnt :: u32
  locked :: bool
  tnext :: nat
  tprev :: nat

record tstate =
  tmem :: "nat \<Rightarrow> trans option"
  counter :: u32

definition trans_list :: nat where
  "trans_list = 0"

definition mod_t :: "nat \<Rightarrow> (trans \<Rightarrow> trans) \<Rightarrow> tstate \<Rightarrow> tstate option" where
  "mod_t a f st = do { t \<leftarrow> tmem st a; Some (st\<lparr>tmem := (tmem st)(a \<mapsto> f t)\<rparr>) }"

definition mutex_lock :: "nat \<Rightarrow> tstate \<Rightarrow> tstate option" where
  "mutex_lock a st = do {
     t \<leftarrow> tmem st a;
     if locked t then None else mod_t a (\<lambda>t. t\<lparr>locked := True\<rparr>) st
   }"

definition mutex_unlock :: "nat \<Rightarrow> tstate \<Rightarrow> tstate option" where
  "mutex_unlock a st = mod_t a (\<lambda>t. t\<lparr>locked := False\<rparr>) st"

subsection \<open>Operations\<close>

definition trans_init :: "tstate \<Rightarrow> tstate option" where
  "trans_init st = do {
     let st = st\<lparr>counter := 0\<rparr>;
     st \<leftarrow> mod_t trans_list (\<lambda>t. t\<lparr>locked := False\<rparr>) st;
     st \<leftarrow> mutex_lock trans_list st;
     st \<leftarrow> mod_t trans_list (\<lambda>t. t\<lparr>tid := counter st, status := TRANS_PENDING, refcnt := 0,
       waitcnt := 0, depends := [], tnext := trans_list, tprev := trans_list\<rparr>) st;
     let st = st\<lparr>counter := counter st + 1\<rparr>;
     mutex_unlock trans_list st
   }"

text \<open>Every transaction of the ring is freed, with its dependency set.\<close>

partial_function (option) trans_fini_loop :: "nat \<Rightarrow> tstate \<Rightarrow> tstate option" where
  "trans_fini_loop a st =
     (if a \<noteq> trans_list then do {
        t \<leftarrow> tmem st a;
        trans_fini_loop (tnext t) (st\<lparr>tmem := (tmem st)(a := None)\<rparr>)
      }
      else Some st)"

definition trans_fini :: "tstate \<Rightarrow> tstate option" where
  "trans_fini st = do { s \<leftarrow> tmem st trans_list; trans_fini_loop (tnext s) st }"

text \<open>The argument is the result of \<open>malloc\<close>: the address of fresh memory, or NULL.\<close>

definition trans_create :: "nat option \<Rightarrow> tstate \<Rightarrow> (nat option \<times> tstate) option" where
  "trans_create m st = (case m of
     None \<Rightarrow> Some (None, st)
   | Some a \<Rightarrow> do {
       let t = \<lparr>tid = counter st, refcnt = 1, status = TRANS_PENDING, depends = [], waitcnt = 0,
         locked = True, tnext = trans_list, tprev = 0\<rparr>;
       let st = st\<lparr>tmem := (tmem st)(a \<mapsto> t), counter := counter st + 1\<rparr>;
       s \<leftarrow> tmem st trans_list;
       st \<leftarrow> mod_t (tprev s) (\<lambda>t. t\<lparr>tnext := a\<rparr>) st;
       s \<leftarrow> tmem st trans_list;
       st \<leftarrow> mod_t a (\<lambda>t. t\<lparr>tprev := tprev s\<rparr>) st;
       st \<leftarrow> mod_t trans_list (\<lambda>t. t\<lparr>tprev := a\<rparr>) st;
       st \<leftarrow> mutex_unlock a st;
       Some (Some a, st)
     })"

definition trans_ref :: "nat \<Rightarrow> tstate \<Rightarrow> (nat \<times> tstate) option" where
  "trans_ref tp st = do {
     st \<leftarrow> mutex_lock tp st;
     st \<leftarrow> mod_t tp (\<lambda>t. t\<lparr>refcnt := refcnt t + 1\<rparr>) st;
     st \<leftarrow> mutex_unlock tp st;
     Some (tp, st)
   }"

definition trans_unref :: "nat \<Rightarrow> tstate \<Rightarrow> tstate option" where
  "trans_unref tp st = do {
     st \<leftarrow> mutex_lock tp st;
     t \<leftarrow> tmem st tp;
     if refcnt t - 1 = 0 then do {
       st \<leftarrow> mod_t (tprev t) (\<lambda>p. p\<lparr>tnext := tnext t\<rparr>) st;
       t \<leftarrow> tmem st tp;
       st \<leftarrow> mod_t (tnext t) (\<lambda>n. n\<lparr>tprev := tprev t\<rparr>) st;
       st \<leftarrow> mutex_unlock tp st;
       Some (st\<lparr>tmem := (tmem st)(tp := None)\<rparr>)
     }
     else do {
       st \<leftarrow> mod_t tp (\<lambda>t. t\<lparr>refcnt := refcnt t - 1\<rparr>) st;
       mutex_unlock tp st
     }
   }"

definition trans_add_dependency :: "nat \<Rightarrow> nat \<Rightarrow> tstate \<Rightarrow> tstate option" where
  "trans_add_dependency tp dtp st = do {
     st \<leftarrow> mutex_lock tp st;
     st \<leftarrow> mutex_lock dtp st;
     st \<leftarrow> mod_t tp (\<lambda>t. if depends t = [] then t\<lparr>depends := [dtp]\<rparr>
       else t\<lparr>depends := dtp # depends t\<rparr>) st;
     st \<leftarrow> mod_t dtp (\<lambda>t. t\<lparr>waitcnt := waitcnt t + 1\<rparr>) st;
     st \<leftarrow> mod_t dtp (\<lambda>t. t\<lparr>refcnt := refcnt t + 1\<rparr>) st;
     st \<leftarrow> mutex_unlock dtp st;
     mutex_unlock tp st
   }"

text \<open>
  The waiting loop: \<open>obs k d\<close> is the status of the transaction \<open>d\<close> that the \<open>k\<close>-th read
  returns (\<^term>\<open>None\<close> when \<open>d\<close> has been freed). \<open>ds\<close> is the rest of the dependency list
  \<open>deps\<close> from \<open>d\<close> on.
\<close>

partial_function (option) commit_loop ::
  "(nat \<Rightarrow> nat \<Rightarrow> trans_status option) \<Rightarrow> nat list \<Rightarrow> nat list \<Rightarrow> bool \<Rightarrow> nat \<Rightarrow> trans_status option" where
  "commit_loop obs deps ds flag k = (case ds of
     [] \<Rightarrow> Some TRANS_COMMITTED
   | d # rest \<Rightarrow> do {
       s \<leftarrow> obs k d;
       if s = TRANS_ABORTED then Some TRANS_ABORTED
       else do {
         s \<leftarrow> obs (k + 1) d;
         let flag = (if s \<noteq> TRANS_COMMITTED then True else flag);
         if rest = [] then
           (if \<not> flag then Some TRANS_COMMITTED else commit_loop obs deps deps False (k + 2))
         else commit_loop obs deps rest flag (k + 2)
       }
     })"

definition trans_commit ::
  "(nat \<Rightarrow> nat \<Rightarrow> trans_status option) \<Rightarrow> nat \<Rightarrow> tstate \<Rightarrow> (trans_status \<times> tstate) option" where
  "trans_commit obs tp st = do {
     st \<leftarrow> mutex_lock tp st;
     t \<leftarrow> tmem st tp;
     if depends t = [] then do {
       st \<leftarrow> mod_t tp (\<lambda>t. t\<lparr>status := TRANS_COMMITTED\<rparr>) st;
       st \<leftarrow> mutex_unlock tp st;
       st \<leftarrow> trans_unref tp st;
       Some (TRANS_COMMITTED, st)
     }
     else do {
       r \<leftarrow> commit_loop obs (depends t) (depends t) False 0;
       if r = TRANS_ABORTED then do {
         st \<leftarrow> mod_t tp (\<lambda>t. t\<lparr>status := TRANS_ABORTED\<rparr>) st;
         st \<leftarrow> mutex_unlock tp st;
         Some (TRANS_ABORTED, st)
       }
       else do {
         st \<leftarrow> mod_t tp (\<lambda>t. t\<lparr>status := TRANS_COMMITTED\<rparr>) st;
         st \<leftarrow> mutex_unlock tp st;
         st \<leftarrow> trans_unref tp st;
         Some (TRANS_COMMITTED, st)
       }
     }
   }"

text \<open>\<open>trans_abort\<close>, its scan of the ring for dependents and the inner loop of the scan, one function of
  the three. \<open>Scan tp a\<close> is the outer loop at \<open>a\<close>; \<open>Inner tp a ds\<close> is the inner loop over the
  dependencies of \<open>a->next\<close> when \<open>d->next\<close> starts the list \<open>ds\<close>. An iteration of the inner loop that
  does not find the aborted transaction leaves \<open>d\<close> as it is.\<close>

datatype abort_call = AbortCall nat | Scan nat nat | Inner nat nat "nat list"

partial_function (option) abort_run :: "abort_call \<Rightarrow> tstate \<Rightarrow> tstate outcome option" where
  "abort_run c st = (case c of
     AbortCall tp \<Rightarrow> do {
       st \<leftarrow> mutex_lock tp st;
       t \<leftarrow> tmem st tp;
       if status t = TRANS_COMMITTED then Some Abort
       else do {
         r \<leftarrow> (if status t = TRANS_PENDING then do {
                 st \<leftarrow> mod_t tp (\<lambda>t. t\<lparr>status := TRANS_ABORTED\<rparr>) st;
                 abort_run (Scan tp trans_list) st
               }
               else Some (Done st));
         case r of
           Abort \<Rightarrow> Some Abort
         | Done st \<Rightarrow> do {
             st \<leftarrow> mutex_unlock tp st;
             st \<leftarrow> trans_unref tp st;
             Some (Done st)
           }
       }
     }
   | Scan tp a \<Rightarrow> do {
       s \<leftarrow> tmem st a;
       let n = tnext s;
       if n = trans_list then Some (Done st)
       else do {
         x \<leftarrow> tmem st n;
         t \<leftarrow> tmem st tp;
         if tid x = tid t then abort_run (Scan tp n) st
         else (case depends x of
           [] \<Rightarrow> abort_run (Scan tp n) st
         | d # ds \<Rightarrow> do {
             y \<leftarrow> tmem st d;
             if tid y = tid t then do {
               r \<leftarrow> abort_run (AbortCall n) st;
               case r of
                 Abort \<Rightarrow> Some Abort
               | Done st \<Rightarrow> do { s \<leftarrow> tmem st a; abort_run (Scan tp (tnext s)) st }
             }
             else abort_run (Inner tp a ds) st
           })
       }
     }
   | Inner tp a ds \<Rightarrow> do {
       s \<leftarrow> tmem st a;
       (case ds of
         [] \<Rightarrow> abort_run (Scan tp (tnext s)) st
       | e # _ \<Rightarrow> do {
           z \<leftarrow> tmem st e;
           t \<leftarrow> tmem st tp;
           if tid z = tid t then do {
             r \<leftarrow> abort_run (AbortCall (tnext s)) st;
             case r of
               Abort \<Rightarrow> Some Abort
             | Done st \<Rightarrow> do { s \<leftarrow> tmem st a; abort_run (Scan tp (tnext s)) st }
           }
           else abort_run (Inner tp a ds) st
         })
     })"

definition trans_abort :: "nat \<Rightarrow> tstate \<Rightarrow> tstate outcome option" where
  "trans_abort tp st = abort_run (AbortCall tp) st"

definition trans_get_status :: "nat \<Rightarrow> tstate \<Rightarrow> (trans_status \<times> tstate) option" where
  "trans_get_status tp st = do {
     st \<leftarrow> mutex_lock tp st;
     t \<leftarrow> tmem st tp;
     st \<leftarrow> mutex_unlock tp st;
     Some (status t, st)
   }"

text \<open>The debugging output: the printed triples of id, status and reference count. The loop of
  \<open>trans_show\<close> does not advance either.\<close>

partial_function (option) trans_show_from :: "nat \<Rightarrow> nat \<Rightarrow> tstate \<Rightarrow> (u32 \<times> trans_status \<times> u32) list option" where
  "trans_show_from tp a st = do {
     s \<leftarrow> tmem st a;
     if tnext s = trans_list then Some []
     else do {
       x \<leftarrow> tmem st (tnext s);
       t \<leftarrow> tmem st tp;
       if tid x = tid t then Some [(tid x, status x, refcnt x)] else trans_show_from tp a st
     }
   }"

definition trans_show :: "nat \<Rightarrow> tstate \<Rightarrow> (u32 \<times> trans_status \<times> u32) list option" where
  "trans_show tp st = trans_show_from tp trans_list st"

partial_function (option) trans_show_loop :: "nat \<Rightarrow> tstate \<Rightarrow> (u32 \<times> trans_status \<times> u32) list option" where
  "trans_show_loop a st = do {
     s \<leftarrow> tmem st a;
     if tnext s = trans_list then Some []
     else do {
       x \<leftarrow> tmem st (tnext s);
       out \<leftarrow> trans_show_loop (tnext s) st;
       Some (if tid x \<noteq> 0 then (tid x, status x, refcnt x) # out else out)
     }
   }"

definition trans_show_all :: "tstate \<Rightarrow> (u32 \<times> trans_status \<times> u32) list option" where
  "trans_show_all st = trans_show_loop trans_list st"

subsection \<open>The operations on unlocked transactions\<close>

text \<open>The links of the ring as total functions, for theory Ring.\<close>

definition nxt :: "tstate \<Rightarrow> nat \<Rightarrow> nat" where
  "nxt st a = (case tmem st a of Some t \<Rightarrow> tnext t | None \<Rightarrow> 0)"

definition prv :: "tstate \<Rightarrow> nat \<Rightarrow> nat" where
  "prv st a = (case tmem st a of Some t \<Rightarrow> tprev t | None \<Rightarrow> 0)"

lemma nxt_upd [simp]: "nxt (st\<lparr>tmem := (tmem st)(a \<mapsto> t)\<rparr>) = (nxt st)(a := tnext t)"
  by (simp add: nxt_def fun_eq_iff)

lemma prv_upd [simp]: "prv (st\<lparr>tmem := (tmem st)(a \<mapsto> t)\<rparr>) = (prv st)(a := tprev t)"
  by (simp add: prv_def fun_eq_iff)

lemma nxt_counter [simp]: "nxt (st\<lparr>counter := c\<rparr>) = nxt st" "prv (st\<lparr>counter := c\<rparr>) = prv st"
  by (simp_all add: nxt_def prv_def fun_eq_iff)

lemma unlocked_update [simp]: "\<not> locked t \<Longrightarrow> t\<lparr>locked := False\<rparr> = t"
  by (cases t) simp

lemmas trans_ops = mutex_lock_def mutex_unlock_def mod_t_def

lemma trans_ref_eq:
  assumes "tmem st a = Some t" "\<not> locked t"
  shows "trans_ref a st = Some (a, st\<lparr>tmem := (tmem st)(a \<mapsto> t\<lparr>refcnt := refcnt t + 1\<rparr>)\<rparr>)"
  using assms by (simp add: trans_ref_def trans_ops)

lemma trans_get_status_eq:
  assumes "tmem st a = Some t" "\<not> locked t"
  shows "trans_get_status a st = Some (status t, st)"
  using assms by (simp add: trans_get_status_def trans_ops fun_upd_idem)

lemma trans_unref_dec:
  assumes "tmem st a = Some t" "\<not> locked t" "refcnt t \<noteq> 1"
  shows "trans_unref a st = Some (st\<lparr>tmem := (tmem st)(a \<mapsto> t\<lparr>refcnt := refcnt t - 1\<rparr>)\<rparr>)"
  using assms by (simp add: trans_unref_def trans_ops)

lemma trans_add_dependency_eq:
  assumes "tmem st a = Some t" "\<not> locked t" "tmem st d = Some u" "\<not> locked u" "a \<noteq> d"
  shows "trans_add_dependency a d st = Some (st\<lparr>tmem := (tmem st)
    (a \<mapsto> t\<lparr>depends := d # depends t\<rparr>, d \<mapsto> u\<lparr>waitcnt := waitcnt u + 1, refcnt := refcnt u + 1\<rparr>)\<rparr>)"
  proof -
  have ne: "d \<noteq> a" using assms(5) by simp
  have "(tmem st)(a \<mapsto> x, d \<mapsto> y, a \<mapsto> z) = (tmem st)(a \<mapsto> z, d \<mapsto> y)" for x y z
    using ne by (simp add: fun_upd_twist)
  then show ?thesis using assms ne by (simp add: trans_add_dependency_def trans_ops)
qed

lemma trans_add_dependency_self:
  assumes "tmem st a = Some t"
  shows "trans_add_dependency a a st = None"
  using assms by (simp add: trans_add_dependency_def trans_ops)

lemma trans_unref_free:
  assumes t: "tmem st a = Some t" "\<not> locked t" "refcnt t = 1"
    and p: "tmem st (tprev t) = Some p" "tprev t \<noteq> a" and n: "tmem st (tnext t) = Some n" "tnext t \<noteq> a"
  obtains st' where "trans_unref a st = Some st'" "dom (tmem st') = dom (tmem st) - {a}"
    "\<And>b. b \<noteq> a \<Longrightarrow> nxt st' b = ((nxt st)(tprev t := tnext t)) b"
    "\<And>b. b \<noteq> a \<Longrightarrow> prv st' b = ((prv st)(tnext t := tprev t)) b"
    "\<forall>b u. b \<noteq> a \<longrightarrow> tmem st b = Some u \<longrightarrow>
      (\<exists>x y. tmem st' b = Some (u\<lparr>tnext := x, tprev := y\<rparr>))"
    "counter st' = counter st"
proof
  let ?m = "(tmem st)(tprev t \<mapsto> p\<lparr>tnext := tnext t\<rparr>)"
  let ?n = "(the (?m (tnext t)))\<lparr>tprev := tprev t\<rparr>"
  let ?st = "st\<lparr>tmem := (?m(tnext t \<mapsto> ?n))(a := None)\<rparr>"
  show "trans_unref a st = Some ?st"
  proof -
    have "(tmem st)(a \<mapsto> x, b \<mapsto> y, c \<mapsto> z, a \<mapsto> w, a := None) = (tmem st)(b \<mapsto> y, c \<mapsto> z, a := None)"
      if "b \<noteq> a" "c \<noteq> a" for b c x y z w
      using that by (auto simp: fun_eq_iff)
    then show ?thesis
      using assms by (cases "tprev t = tnext t") (simp_all add: trans_unref_def trans_ops)
  qed
  show "dom (tmem ?st) = dom (tmem st) - {a}" using assms by auto
  show "\<And>b. b \<noteq> a \<Longrightarrow> nxt ?st b = ((nxt st)(tprev t := tnext t)) b"
    using assms by (auto simp: nxt_def)
  show "\<And>b. b \<noteq> a \<Longrightarrow> prv ?st b = ((prv st)(tnext t := tprev t)) b"
    using assms by (auto simp: prv_def)
  show "\<forall>b u. b \<noteq> a \<longrightarrow> tmem st b = Some u \<longrightarrow>
      (\<exists>x y. tmem ?st b = Some (u\<lparr>tnext := x, tprev := y\<rparr>))"
  proof (intro allI impI)
    fix b u assume that: "b \<noteq> a" "tmem st b = Some u"
    have "tmem ?st b = Some (u\<lparr>tnext := if b = tprev t then tnext t else tnext u,
        tprev := if b = tnext t then tprev t else tprev u\<rparr>)"
      using assms that by (cases u) auto
    then show "\<exists>x y. tmem ?st b = Some (u\<lparr>tnext := x, tprev := y\<rparr>)" by blast
  qed
  show "counter ?st = counter st" by simp
qed

lemma trans_create_eq:
  assumes s: "tmem st trans_list = Some s" and a: "a \<notin> dom (tmem st)" and q: "tmem st (tprev s) = Some q"
  obtains st' where "trans_create (Some a) st = Some (Some a, st')"
    "dom (tmem st') = insert a (dom (tmem st))"
    "nxt st' = (nxt st)(a := trans_list, tprev s := a)"
    "prv st' = (prv st)(a := tprev s, trans_list := a)"
    "\<exists>x y. tmem st' a = Some \<lparr>tid = counter st, refcnt = 1, status = TRANS_PENDING, depends = [],
       waitcnt = 0, locked = False, tnext = x, tprev = y\<rparr>"
    "\<forall>b u. b \<noteq> a \<longrightarrow> tmem st b = Some u \<longrightarrow>
      (\<exists>x y. tmem st' b = Some (u\<lparr>tnext := x, tprev := y\<rparr>))"
    "counter st' = counter st + 1"
proof
  have ne: "trans_list \<noteq> a" "a \<noteq> trans_list" "tprev s \<noteq> a" "a \<noteq> tprev s" using s a q by auto
  define t where "t = \<lparr>tid = counter st, refcnt = 1, status = TRANS_PENDING, depends = [],
       waitcnt = 0, locked = False, tnext = trans_list, tprev = tprev s\<rparr>"
  let ?m = "(tmem st)(tprev s \<mapsto> q\<lparr>tnext := a\<rparr>)"
  let ?h = "(the (?m trans_list))\<lparr>tprev := a\<rparr>"
  let ?st = "st\<lparr>counter := counter st + 1, tmem := ?m(trans_list \<mapsto> ?h, a \<mapsto> t)\<rparr>"
  have "(tmem st)(a \<mapsto> x, b \<mapsto> y, a \<mapsto> z, c \<mapsto> w, a \<mapsto> t) = (tmem st)(b \<mapsto> y, c \<mapsto> w, a \<mapsto> t)"
      if "b \<noteq> a" "c \<noteq> a" for b c x y z w
      using that by (auto simp: fun_eq_iff)
  then show "trans_create (Some a) st = Some (Some a, ?st)"
    using s q ne by (cases "tprev s = trans_list") (simp_all add: trans_create_def trans_ops t_def)
  show "dom (tmem ?st) = insert a (dom (tmem st))" using s q by auto
  show "nxt ?st = (nxt st)(a := trans_list, tprev s := a)"
    using s q ne by (auto simp: nxt_def fun_eq_iff t_def)
  show "prv ?st = (prv st)(a := tprev s, trans_list := a)"
    using s q ne by (auto simp: prv_def fun_eq_iff t_def)
  show "\<exists>x y. tmem ?st a = Some \<lparr>tid = counter st, refcnt = 1, status = TRANS_PENDING, depends = [],
       waitcnt = 0, locked = False, tnext = x, tprev = y\<rparr>"
    by (simp add: t_def)
  show "\<forall>b u. b \<noteq> a \<longrightarrow> tmem st b = Some u \<longrightarrow>
      (\<exists>x y. tmem ?st b = Some (u\<lparr>tnext := x, tprev := y\<rparr>))"
  proof (intro allI impI)
    fix b u assume that: "b \<noteq> a" "tmem st b = Some u"
    have "tmem ?st b = Some (u\<lparr>tnext := if b = tprev s then a else tnext u,
        tprev := if b = trans_list then a else tprev u\<rparr>)"
      using s q ne that by (cases u) auto
    then show "\<exists>x y. tmem ?st b = Some (u\<lparr>tnext := x, tprev := y\<rparr>)" by blast
  qed
  show "counter ?st = counter st + 1" by simp
qed

subsection \<open>Reference counting\<close>

text \<open>
  The abstract view: the live transactions in the order of the ring, and for each of them how many
  references its clients hold, how many were taken for dependency entries, its own dependency
  set, and how many entries of it were freed together with the dependency set they were in. The code
  never gives back the reference of an entry, so these are leaked.
\<close>

record tinfo =
  ext :: nat
  held :: nat
  dset :: "nat list"

record tview =
  live :: "nat list"
  info :: "nat \<Rightarrow> tinfo"
  leaked :: "nat \<Rightarrow> nat"

datatype trans_op = TCreate nat | TRef nat | TUnref nat | TDepend nat nat

fun trans_step :: "trans_op \<Rightarrow> tstate \<Rightarrow> tstate option" where
  "trans_step (TCreate a) st = map_option snd (trans_create (Some a) st)"
| "trans_step (TRef a) st = map_option snd (trans_ref a st)"
| "trans_step (TUnref a) st = trans_unref a st"
| "trans_step (TDepend a d) st = trans_add_dependency a d st"

fun view_step :: "trans_op \<Rightarrow> tview \<Rightarrow> tview" where
  "view_step (TCreate a) A = A\<lparr>live := live A @ [a], info := (info A)(a := \<lparr>ext = 1, held = 0, dset = []\<rparr>),
     leaked := (leaked A)(a := 0)\<rparr>"
| "view_step (TRef a) A = A\<lparr>info := (info A)(a := (info A a)\<lparr>ext := ext (info A a) + 1\<rparr>)\<rparr>"
| "view_step (TUnref a) A = (let i = info A a in
     if ext i + held i = 1 then A\<lparr>live := remove1 a (live A), leaked := (\<lambda>d. leaked A d + count_list (dset i) d)\<rparr>
     else A\<lparr>info := (info A)(a := i\<lparr>ext := ext i - 1\<rparr>)\<rparr>)"
| "view_step (TDepend a d) A = A\<lparr>info := (info A)(a := (info A a)\<lparr>dset := d # dset (info A a)\<rparr>,
     d := (info A d)\<lparr>held := held (info A d) + 1\<rparr>)\<rparr>"

text \<open>What a client must respect: fresh addresses, live arguments, counts below \<open>2 ^ 32\<close>, and no
  release of a reference it does not hold.\<close>

fun client_ok :: "trans_op \<Rightarrow> tview \<Rightarrow> bool" where
  "client_ok (TCreate a) A \<longleftrightarrow> a \<noteq> trans_list \<and> a \<notin> set (live A)"
| "client_ok (TRef a) A \<longleftrightarrow> a \<in> set (live A) \<and> ext (info A a) + held (info A a) < 2 ^ 32 - 1"
| "client_ok (TUnref a) A \<longleftrightarrow> a \<in> set (live A) \<and> 0 < ext (info A a)"
| "client_ok (TDepend a d) A \<longleftrightarrow> a \<in> set (live A) \<and> d \<in> set (live A) \<and> a \<noteq> d \<and>
     ext (info A d) + held (info A d) < 2 ^ 32 - 1"

definition counts :: "tinfo \<Rightarrow> trans \<Rightarrow> bool" where
  "counts i t \<longleftrightarrow> \<not> locked t \<and> unat (refcnt t) = ext i + held i \<and> 0 < ext i + held i \<and> depends t = dset i"

definition trans_inv :: "tstate \<Rightarrow> tview \<Rightarrow> bool" where
  "trans_inv st A \<longleftrightarrow> ring (nxt st) (prv st) trans_list (live A) \<and>
     dom (tmem st) = set (trans_list # live A) \<and>
     (\<forall>a \<in> set (live A). \<exists>t. tmem st a = Some t \<and> counts (info A a) t) \<and>
     (\<forall>a \<in> set (live A). \<forall>d \<in> set (dset (info A a)). d \<in> set (live A) \<and> 0 < held (info A d))"


lemma counts_links [simp]: "counts i (t\<lparr>tnext := x, tprev := y\<rparr>) = counts i t"
  by (simp add: counts_def)

lemma trans_inv_live:
  assumes "trans_inv st A" "a \<in> set (live A)"
  obtains t where "tmem st a = Some t" "counts (info A a) t" "a \<noteq> trans_list"
proof -
  have "\<exists>t. tmem st a = Some t \<and> counts (info A a) t" "a \<noteq> trans_list"
    using assms by (auto simp: trans_inv_def ring_def)
  then show ?thesis using that by blast
qed

lemma inv_create:
  assumes "trans_inv st A" "client_ok (TCreate a) A"
  shows "\<exists>st'. trans_step (TCreate a) st = Some st' \<and> trans_inv st' (view_step (TCreate a) A)"
proof -
  have r: "ring (nxt st) (prv st) trans_list (live A)" and d: "dom (tmem st) = set (trans_list # live A)"
    and a: "a \<notin> set (trans_list # live A)"
    using assms by (auto simp: trans_inv_def)
  obtain s where s: "tmem st trans_list = Some s" using d by auto
  have ps: "prv st trans_list = tprev s" using s by (simp add: prv_def)
  have "tprev s \<in> dom (tmem st)"
    using ring_append(1) [OF r a] ps last_in_set [of "trans_list # live A"] d by auto
  then obtain q where q: "tmem st (tprev s) = Some q" by auto
  have ad: "a \<notin> dom (tmem st)" using a d by simp
  obtain st' where st': "trans_create (Some a) st = Some (Some a, st')"
    "dom (tmem st') = insert a (dom (tmem st))"
    "nxt st' = (nxt st)(a := trans_list, tprev s := a)"
    "prv st' = (prv st)(a := tprev s, trans_list := a)"
    "\<exists>x y. tmem st' a = Some \<lparr>tid = counter st, refcnt = 1, status = TRANS_PENDING, depends = [],
       waitcnt = 0, locked = False, tnext = x, tprev = y\<rparr>"
    "\<forall>b u. b \<noteq> a \<longrightarrow> tmem st b = Some u \<longrightarrow>
      (\<exists>x y. tmem st' b = Some (u\<lparr>tnext := x, tprev := y\<rparr>))"
    "counter st' = counter st + 1"
    by (rule trans_create_eq [OF s ad q]) blast
  have "\<exists>t. tmem st' b = Some t \<and> counts (info (view_step (TCreate a) A) b) t" if "b \<in> set (live A @ [a])" for b
  proof (cases "b = a")
    case True
    then show ?thesis using st'(5) by (auto simp: counts_def)
  next
    case False
    then have "b \<in> set (live A)" using that by simp
    with assms(1) obtain u where "tmem st b = Some u" "counts (info A b) u" by (rule trans_inv_live)
    then show ?thesis using st'(6) False by fastforce
  qed
  moreover have "ring (nxt st') (prv st') trans_list (live A @ [a])"
    using ring_append(2) [OF r a] ps st' by simp
  ultimately have "trans_inv st' (view_step (TCreate a) A)"
    using assms d st'(2) a by (auto simp: trans_inv_def)
  then show ?thesis using st'(1) by simp
qed

lemma inv_keep_links:
  assumes "trans_inv st A" "tmem st a = Some t" "a \<in> set (live A)" "counts i t'"
    "tnext t' = tnext t" "tprev t' = tprev t"
    "\<forall>d \<in> set (dset i). d \<in> set (live A) \<and> 0 < held (((info A)(a := i)) d)" "held (info A a) \<le> held i"
  shows "trans_inv (st\<lparr>tmem := (tmem st)(a \<mapsto> t')\<rparr>) (A\<lparr>info := (info A)(a := i)\<rparr>)"
proof -
  have "(nxt st)(a := tnext t') = nxt st" "(prv st)(a := tprev t') = prv st"
    using assms(2,5,6) by (simp_all add: nxt_def prv_def fun_eq_iff)
  moreover have "insert a (dom (tmem st)) = dom (tmem st)" using assms(2) by auto
  moreover have "0 < held i" if "0 < held (info A a)" using assms(8) that by simp
  ultimately show ?thesis using assms(1,3,4,7) by (simp add: trans_inv_def)
qed

lemma unat_Suc32: "unat (w :: u32) < 2 ^ 32 - 1 \<Longrightarrow> unat (w + 1) = unat w + 1"
  by (subst unat_add_lem [THEN iffD1]) simp_all

lemma inv_ref:
  assumes "trans_inv st A" "client_ok (TRef a) A"
  shows "\<exists>st'. trans_step (TRef a) st = Some st' \<and> trans_inv st' (view_step (TRef a) A)"
proof -
  have a: "a \<in> set (live A)" and n: "ext (info A a) + held (info A a) < 2 ^ 32 - 1"
    using assms(2) by simp_all
  obtain t where t: "tmem st a = Some t" "counts (info A a) t" using assms(1) a by (rule trans_inv_live)
  then have "unat (refcnt t + 1) = unat (refcnt t) + 1"
    using n by (intro unat_Suc32) (simp add: counts_def)
  then have "counts ((info A a)\<lparr>ext := ext (info A a) + 1\<rparr>) (t\<lparr>refcnt := refcnt t + 1\<rparr>)"
    using t(2) by (simp add: counts_def)
  moreover have "\<forall>d \<in> set (dset (info A a)). d \<in> set (live A) \<and> 0 < held (info A d)"
    using assms(1) a by (simp add: trans_inv_def)
  ultimately show ?thesis
    using inv_keep_links [OF assms(1) t(1) a, of "(info A a)\<lparr>ext := ext (info A a) + 1\<rparr>"
        "t\<lparr>refcnt := refcnt t + 1\<rparr>"] trans_ref_eq [OF t(1)] t(2)
    by (simp add: counts_def)
qed


lemma inv_depend:
  assumes "trans_inv st A" "client_ok (TDepend a d) A"
  shows "\<exists>st'. trans_step (TDepend a d) st = Some st' \<and> trans_inv st' (view_step (TDepend a d) A)"
proof -
  let ?i = "(info A a)\<lparr>dset := d # dset (info A a)\<rparr>" and ?j = "(info A d)\<lparr>held := held (info A d) + 1\<rparr>"
  have a: "a \<in> set (live A)" and d: "d \<in> set (live A)" and ne: "a \<noteq> d" "d \<noteq> a"
    and n: "ext (info A d) + held (info A d) < 2 ^ 32 - 1"
    using assms(2) by auto
  obtain t where t: "tmem st a = Some t" "counts (info A a) t" using assms(1) a by (rule trans_inv_live)
  obtain u where u: "tmem st d = Some u" "counts (info A d) u" using assms(1) d by (rule trans_inv_live)
  let ?t = "t\<lparr>depends := d # depends t\<rparr>"
  let ?u = "u\<lparr>waitcnt := waitcnt u + 1, refcnt := refcnt u + 1\<rparr>"
  have "unat (refcnt u + 1) = unat (refcnt u) + 1"
    using n u by (intro unat_Suc32) (simp add: counts_def)
  then have cu: "counts ?j ?u" using u(2) by (simp add: counts_def)
  have ds: "\<forall>x \<in> set (dset (info A b)). x \<in> set (live A) \<and> 0 < held (info A x)" if "b \<in> set (live A)" for b
    using assms(1) that by (simp add: trans_inv_def)
  let ?S = "st\<lparr>tmem := (tmem st)(d \<mapsto> ?u)\<rparr>" and ?A = "A\<lparr>info := (info A)(d := ?j)\<rparr>"
  have "trans_inv ?S ?A" by (rule inv_keep_links [OF assms(1) u(1) d cu]) (use ds [OF d] in auto)
  moreover have "tmem ?S a = Some t" "a \<in> set (live ?A)" "counts ?i ?t" "tnext ?t = tnext t" "tprev ?t = tprev t"
    using t a ne by (simp_all add: counts_def)
  ultimately have "trans_inv (?S\<lparr>tmem := (tmem ?S)(a \<mapsto> ?t)\<rparr>) (?A\<lparr>info := (info ?A)(a := ?i)\<rparr>)"
    by (rule inv_keep_links) (use ds [OF a] d ne in auto)
  moreover have "(tmem st)(a \<mapsto> ?t, d \<mapsto> ?u) = (tmem st)(d \<mapsto> ?u, a \<mapsto> ?t)"
    "(info A)(a := ?i, d := ?j) = (info A)(d := ?j, a := ?i)"
    using ne by (simp_all add: fun_upd_twist)
  moreover have "trans_add_dependency a d st = Some (st\<lparr>tmem := (tmem st)(a \<mapsto> ?t, d \<mapsto> ?u)\<rparr>)"
    by (rule trans_add_dependency_eq) (use t u ne in \<open>simp_all add: counts_def\<close>)
  ultimately show ?thesis by simp
qed

lemma inv_unref:
  assumes "trans_inv st A" "client_ok (TUnref a) A"
  shows "\<exists>st'. trans_step (TUnref a) st = Some st' \<and> trans_inv st' (view_step (TUnref a) A)"
proof -
  have a: "a \<in> set (live A)" and e: "0 < ext (info A a)" using assms(2) by simp_all
  obtain t where t: "tmem st a = Some t" "counts (info A a) t" and a0: "a \<noteq> trans_list"
    using assms(1) a by (rule trans_inv_live)
  have ds: "\<forall>x \<in> set (dset (info A b)). x \<in> set (live A) \<and> 0 < held (info A x)" if "b \<in> set (live A)" for b
    using assms(1) that by (simp add: trans_inv_def)
  show ?thesis
  proof (cases "ext (info A a) + held (info A a) = 1")
    case False
    have n1: "refcnt t \<noteq> 1" using t(2) False by (auto simp: counts_def)
    have "refcnt t \<noteq> 0" using t(2) by (auto simp: counts_def)
    then have "unat (refcnt t - 1) = unat (refcnt t) - 1" by (simp add: unat_minus_one)
    then have "counts ((info A a)\<lparr>ext := ext (info A a) - 1\<rparr>) (t\<lparr>refcnt := refcnt t - 1\<rparr>)"
      using t(2) e False by (auto simp: counts_def)
    then have "trans_inv (st\<lparr>tmem := (tmem st)(a \<mapsto> t\<lparr>refcnt := refcnt t - 1\<rparr>)\<rparr>)
      (A\<lparr>info := (info A)(a := (info A a)\<lparr>ext := ext (info A a) - 1\<rparr>)\<rparr>)"
      by (rule inv_keep_links [OF assms(1) t(1) a]) (use ds [OF a] in auto)
    then show ?thesis using False trans_unref_dec [OF t(1) _ n1] t(2) by (simp add: counts_def Let_def)
  next
    case True
    then have h0: "held (info A a) = 0" using e by simp
    have "unat (refcnt t) = unat (1 :: u32)" using t(2) True by (simp add: counts_def)
    then have r1: "refcnt t = 1" by (simp only: word_unat_eq_iff)
    have r: "ring (nxt st) (prv st) trans_list (live A)" and dm: "dom (tmem st) = set (trans_list # live A)"
      using assms(1) by (auto simp: trans_inv_def)
    obtain xs ys where xy: "live A = xs @ a # ys" "a \<notin> set xs" using a by (meson split_list_first)
    note rr = ring_remove [OF r [unfolded xy(1)]]
    have nt: "nxt st a = tnext t" "prv st a = tprev t" using t(1) by (simp_all add: nxt_def prv_def)
    have dist: "distinct (trans_list # xs @ a # ys)" using r xy by (simp add: ring_def)
    have "hd (ys @ [trans_list]) \<in> set (ys @ [trans_list])" by (rule hd_in_set) simp
    then have n: "tnext t \<in> dom (tmem st)" "tnext t \<noteq> a" using rr(1) nt dm xy dist by auto
    have "last (trans_list # xs) \<in> set (trans_list # xs)" by (rule last_in_set) simp
    then have p: "tprev t \<in> dom (tmem st)" "tprev t \<noteq> a" using rr(2) nt dm xy dist by auto
    obtain u v where uv: "tmem st (tprev t) = Some u" "tmem st (tnext t) = Some v" using n p by auto
    have lk: "\<not> locked t" using t(2) by (simp add: counts_def)
    obtain st' where st': "trans_unref a st = Some st'" "dom (tmem st') = dom (tmem st) - {a}"
      "\<And>b. b \<noteq> a \<Longrightarrow> nxt st' b = ((nxt st)(tprev t := tnext t)) b"
      "\<And>b. b \<noteq> a \<Longrightarrow> prv st' b = ((prv st)(tnext t := tprev t)) b"
      "\<forall>b u. b \<noteq> a \<longrightarrow> tmem st b = Some u \<longrightarrow> (\<exists>x y. tmem st' b = Some (u\<lparr>tnext := x, tprev := y\<rparr>))"
      "counter st' = counter st"
      by (rule trans_unref_free [OF t(1) lk r1 uv(1) p(2) uv(2) n(2)]) blast
    have lv: "remove1 a (live A) = xs @ ys" using xy by (simp add: remove1_append)
    have "seg_of (nxt st') (prv st') trans_list (xs @ ys) trans_list
        = seg_of ((nxt st)(tprev t := tnext t)) ((prv st)(tnext t := tprev t)) trans_list (xs @ ys) trans_list"
      using dist by (intro seg_of_cong st'(3,4)) auto
    then have "ring (nxt st') (prv st') trans_list (xs @ ys)"
      using rr(3) nt by (simp add: ring_def)
    moreover have "dom (tmem st') = set (trans_list # xs @ ys)" using st'(2) dm xy dist by auto
    moreover have "\<exists>t. tmem st' b = Some t \<and> counts (info A b) t" if "b \<in> set (xs @ ys)" for b
    proof -
      have "b \<in> set (live A)" "b \<noteq> a" using that xy dist by auto
      with assms(1) obtain w where "tmem st b = Some w" "counts (info A b) w" by (meson trans_inv_live)
      then show ?thesis using st'(5) \<open>b \<noteq> a\<close> by fastforce
    qed
    moreover have "d \<in> set (xs @ ys) \<and> 0 < held (info A d)"
      if "b \<in> set (xs @ ys)" "d \<in> set (dset (info A b))" for b d
      using ds [of b] that xy h0 by auto
    ultimately have "trans_inv st' (A\<lparr>live := xs @ ys, leaked := l\<rparr>)" for l by (simp add: trans_inv_def)
    then show ?thesis using True st'(1) lv by (simp add: Let_def)
  qed
qed

text \<open>The contract of the transaction manager: what its clients may rely on.\<close>

interpretation transactions: refinement trans_inv trans_step view_step client_ok
proof
  fix c a x
  assume "trans_inv c a" "client_ok x a"
  then show "\<exists>c'. trans_step x c = Some c' \<and> trans_inv c' (view_step x a)"
    by (cases x) (metis inv_create inv_ref inv_unref inv_depend)+
qed

definition no_trans :: tview where
  "no_trans = \<lparr>live = [], info = (\<lambda>_. \<lparr>ext = 0, held = 0, dset = []\<rparr>), leaked = (\<lambda>_. 0)\<rparr>"

text \<open>The references taken for entries are those of the dependency sets of live transactions and the leaked
  ones.\<close>

definition entries :: "tview \<Rightarrow> nat \<Rightarrow> nat" where
  "entries A d = (\<Sum>b \<leftarrow> live A. count_list (dset (info A b)) d)"

definition view_ok :: "tview \<Rightarrow> bool" where
  "view_ok A \<longleftrightarrow> distinct (live A) \<and> (\<forall>b \<in> set (live A). set (dset (info A b)) \<subseteq> set (live A)) \<and>
     (\<forall>d \<in> set (live A). held (info A d) = entries A d + leaked A d)"

lemma entries_0_iff: "entries A d = 0 \<longleftrightarrow> (\<forall>b \<in> set (live A). d \<notin> set (dset (info A b)))"
  by (auto simp: entries_def count_list_0_iff)

lemma sum_list_cong: "(\<And>b. b \<in> set xs \<Longrightarrow> f b = g b) \<Longrightarrow> (\<Sum>b \<leftarrow> xs. f b) = (\<Sum>b \<leftarrow> xs. g b)"
  by (rule arg_cong [where f = sum_list]) simp

lemma view_ok_create:
  assumes "view_ok A" "a \<notin> set (live A)"
  shows "view_ok (view_step (TCreate a) A)"
proof -
  have "entries (view_step (TCreate a) A) d = entries A d" for d
    using assms(2) by (auto simp: entries_def intro!: sum_list_cong)
  moreover have "entries A a = 0" using assms by (auto simp: entries_0_iff view_ok_def)
  ultimately show ?thesis using assms by (auto simp: view_ok_def)
qed

lemma view_ok_depend:
  assumes "view_ok A" "a \<in> set (live A)" "d \<in> set (live A)" "a \<noteq> d"
  shows "view_ok (view_step (TDepend a d) A)"
proof -
  obtain xs ys where xy: "live A = xs @ a # ys" "a \<notin> set xs" "a \<notin> set ys"
    using assms(1,2) by (metis distinct.simps(2) distinct_append not_distinct_conv_prefix split_list view_ok_def)
  have "entries (view_step (TDepend a d) A) e = entries A e + of_bool (d = e)" for e
  proof -
    have "(\<Sum>b \<leftarrow> zs. count_list (dset (info (view_step (TDepend a d) A) b)) e) =
        (\<Sum>b \<leftarrow> zs. count_list (dset (info A b)) e)" if "a \<notin> set zs" for zs
      using that by (intro sum_list_cong) auto
    then show ?thesis using xy assms(4) by (simp add: entries_def)
  qed
  then show ?thesis using assms by (auto simp: view_ok_def)
qed

lemma view_ok_unref:
  assumes "view_ok A" "a \<in> set (live A)" "0 < ext (info A a)"
  shows "view_ok (view_step (TUnref a) A)"
proof (cases "ext (info A a) + held (info A a) = 1")
  case False
  have "entries (view_step (TUnref a) A) d = entries A d" for d
    using False by (auto simp: entries_def Let_def intro!: sum_list_cong)
  then show ?thesis using False assms by (auto simp: view_ok_def Let_def)
next
  case True
  let ?A = "view_step (TUnref a) A"
  have dist: "distinct (live A)" using assms(1) by (simp add: view_ok_def)
  have "entries A a = 0" using True assms by (simp add: view_ok_def)
  then have no: "\<forall>b \<in> set (live A). a \<notin> set (dset (info A b))" by (simp add: entries_0_iff)
  have A: "live ?A = remove1 a (live A)" "info ?A = info A"
      "leaked ?A = (\<lambda>d. leaked A d + count_list (dset (info A a)) d)"
    using True by (simp_all add: Let_def)
  have "entries ?A d + count_list (dset (info A a)) d = entries A d" for d
    using sum_list_map_remove1 [OF assms(2), of "\<lambda>b. count_list (dset (info A b)) d"]
    unfolding entries_def A by simp
  then show ?thesis using assms(1) no dist unfolding view_ok_def A
    by (auto simp: add.assoc add.commute [of "count_list _ _"])
qed

lemma view_ok_step: "client_ok x A \<Longrightarrow> view_ok A \<Longrightarrow> view_ok (view_step x A)"
proof (cases x)
  case (TRef a)
  assume "view_ok A"
  moreover have "entries (view_step x A) d = entries A d" for d
    using TRef by (auto simp: entries_def intro!: sum_list_cong)
  ultimately show ?thesis using TRef by (auto simp: view_ok_def)
qed (auto simp del: view_step.simps intro: view_ok_create view_ok_depend view_ok_unref)

lemma view_ok_run: "all_pre client_ok view_step ops A \<Longrightarrow> view_ok A \<Longrightarrow> view_ok (fold view_step ops A)"
  by (induction ops arbitrary: A) (auto simp del: view_step.simps intro: view_ok_step)

lemma trans_init_inv:
  assumes "tmem st = [trans_list \<mapsto> s]"
  shows "\<exists>st'. trans_init st = Some st' \<and> trans_inv st' no_trans"
  using assms
  by (simp add: trans_init_def trans_ops trans_inv_def no_trans_def ring_def nxt_def prv_def Let_def)

lemma fini_loop:
  "seg_of (nxt st) (prv st) p xs trans_list \<Longrightarrow> distinct (trans_list # p # xs) \<Longrightarrow>
   set (p # xs) \<subseteq> dom (tmem st) \<Longrightarrow>
   \<exists>st'. trans_fini_loop p st = Some st' \<and> dom (tmem st') = dom (tmem st) - set (p # xs)"
proof (induction xs arbitrary: p st)
  case Nil
  then obtain t where t: "tmem st p = Some t" by auto
  have "tnext t = trans_list" using Nil(1) t by (simp add: nxt_def)
  then show ?case using Nil t by (subst trans_fini_loop.simps) (simp, subst trans_fini_loop.simps, simp)
next
  case (Cons x xs)
  then obtain t where t: "tmem st p = Some t" by auto
  have nx: "tnext t = x" using Cons.prems(1) t by (simp add: nxt_def)
  let ?st = "st\<lparr>tmem := (tmem st)(p := None)\<rparr>"
  have "seg_of (nxt ?st) (prv ?st) x xs trans_list = seg_of (nxt st) (prv st) x xs trans_list"
    using Cons.prems(2) by (intro seg_of_cong) (auto simp: nxt_def prv_def)
  then have g: "seg_of (nxt ?st) (prv ?st) x xs trans_list" using Cons.prems(1) by simp
  have d: "distinct (trans_list # x # xs)" "set (x # xs) \<subseteq> dom (tmem ?st)"
    using Cons.prems(2,3) by auto
  obtain st' where "trans_fini_loop x ?st = Some st'"
    "dom (tmem st') = dom (tmem ?st) - set (x # xs)"
    using Cons.IH [OF g d] by blast
  then show ?case using Cons.prems(2) t nx by (subst trans_fini_loop.simps) auto
qed

lemma trans_fini_all:
  assumes "trans_inv st A"
  shows "\<exists>st'. trans_fini st = Some st' \<and> dom (tmem st') = {trans_list}"
proof -
  have r: "seg_of (nxt st) (prv st) trans_list (live A) trans_list" "distinct (trans_list # live A)"
    and d: "dom (tmem st) = set (trans_list # live A)"
    using assms by (auto simp: trans_inv_def ring_def)
  obtain s where s: "tmem st trans_list = Some s" using d by auto
  show ?thesis
  proof (cases "live A")
    case Nil
    then show ?thesis using r d s by (simp add: trans_fini_def nxt_def) (subst trans_fini_loop.simps, simp)
  next
    case (Cons x xs)
    then have "tnext s = x" using r s by (simp add: nxt_def)
    moreover have "\<exists>st'. trans_fini_loop x st = Some st' \<and> dom (tmem st') = dom (tmem st) - set (x # xs)"
      by (rule fini_loop) (use r d Cons in auto)
    ultimately show ?thesis using r d s Cons by (auto simp: trans_fini_def)
  qed
qed

lemma held_keeps_live:
  assumes "all_pre client_ok view_step ops A" "d \<in> set (live A)" "0 < held (info A d)"
  shows "d \<in> set (live (fold view_step ops A)) \<and> 0 < held (info (fold view_step ops A) d)"
  using assms
proof (induction ops arbitrary: A)
  case (Cons x ops)
  have "d \<in> set (live (view_step x A)) \<and> 0 < held (info (view_step x A) d)"
    using Cons.prems by (cases x) (auto simp: Let_def)
  then show ?case using Cons by simp
qed simp

end
