(* ===== verification/Xacto_Contract.thy ===== *)
theory Xacto_Contract
  imports Xacto_Trans
begin

text \<open>
  What the transaction manager promises: the reference counts over whole sequences of operations,
  the decision of \<open>trans_commit\<close> under concurrent changes of its dependencies, and the three
  outcomes of \<open>trans_abort\<close>.
\<close>

subsection \<open>Reference counts\<close>

text \<open>C16: After \<open>trans_init\<close> every sequence of creations, references, releases and
  dependencies that respects the client's side of the contract (fresh addresses, live arguments, no dependency of a
  transaction on itself, no release of a reference the client does not hold, counts below \<open>2 ^ 32\<close>) runs without a
  fault or a deadlock, and leaves a well-formed ring in which the live transactions are exactly the
  allocated ones. The reference count of each is the number of its clients' references, plus the entries of it in
  the dependency sets of live transactions, plus the entries of it that were freed with their dependency set. The last
  are leaked: the header defines the count as the number of references, but \<open>trans_unref\<close> frees a dependency set without
  releasing what it refers to.\<close>

theorem trans_ops_counted:
  assumes "tmem st = [trans_list \<mapsto> s]" "all_pre client_ok view_step ops no_trans" "A = fold view_step ops no_trans"
  shows "\<exists>st0 st'. trans_init st = Some st0 \<and> run_steps trans_step ops st0 = Some st' \<and> trans_inv st' A \<and>
    (\<forall>a \<in> set (live A). \<exists>t. tmem st' a = Some t \<and> depends t = dset (info A a) \<and>
      unat (refcnt t) = ext (info A a) + (\<Sum>b \<leftarrow> live A. count_list (dset (info A b)) a) + leaked A a)"
proof -
  obtain st0 st' where st: "trans_init st = Some st0" "run_steps trans_step ops st0 = Some st'" "trans_inv st' A"
    using trans_init_inv [OF assms(1)] transactions.run [OF _ assms(2)] assms(3) by blast
  have "view_ok no_trans" by (simp add: view_ok_def no_trans_def)
  then have "view_ok A" using view_ok_run [OF assms(2)] assms(3) by simp
  then have "held (info A a) = (\<Sum>b \<leftarrow> live A. count_list (dset (info A b)) a) + leaked A a" if "a \<in> set (live A)" for a
    using that by (simp add: view_ok_def entries_def)
  then show ?thesis using st by (fastforce simp: trans_inv_def counts_def)
qed

text \<open>\<open>trans_fini\<close> terminates after any such sequence and frees every transaction.\<close>

theorem trans_fini_frees_all:
  assumes "trans_inv st A" "all_pre client_ok view_step ops A"
  shows "\<exists>st1 st'. run_steps trans_step ops st = Some st1 \<and> trans_fini st1 = Some st' \<and>
    dom (tmem st') = {trans_list}"
  using transactions.run [OF assms] trans_fini_all by blast

text \<open>A transaction that was ever entered in a dependency set is not freed before
  \<open>trans_fini\<close>, whatever its clients and its dependents release: the reference that
  \<open>trans_add_dependency\<close> takes is never given back, not even when the dependent is freed.\<close>

theorem depended_on_never_freed:
  assumes "trans_inv st A" "all_pre client_ok view_step (TDepend a d # ops) A"
  shows "\<exists>st'. run_steps trans_step (TDepend a d # ops) st = Some st' \<and> d \<in> dom (tmem st')"
proof -
  let ?A = "view_step (TDepend a d) A"
  obtain st' where st': "run_steps trans_step (TDepend a d # ops) st = Some st'"
    "trans_inv st' (fold view_step ops ?A)"
    using transactions.run [OF assms] by auto
  have "d \<in> set (live (fold view_step ops ?A))"
    by (rule held_keeps_live [THEN conjunct1]) (use assms(2) in auto)
  then show ?thesis using st' by (auto simp: trans_inv_def)
qed

definition sample_ops :: "trans_op list" where
  "sample_ops = [TCreate 8, TCreate 16, TRef 8, TDepend 16 8, TUnref 8, TUnref 8, TUnref 16]"

definition tstate0 :: tstate where
  "tstate0 = \<lparr>tmem = [trans_list \<mapsto> \<lparr>tid = 0, refcnt = 0, status = TRANS_PENDING, depends = [],
     waitcnt = 0, locked = False, tnext = 0, tprev = 0\<rparr>], counter = 0\<rparr>"

lemma sample_ops_ok: "all_pre client_ok view_step sample_ops no_trans"
  by (simp add: sample_ops_def no_trans_def trans_list_def Let_def)

text \<open>In the end no client and no dependency set refers to transaction 8, but it is live, with a reference
  count of one.\<close>

lemma trans_ops_counted_witness:
  "\<exists>st0 st' t. trans_init tstate0 = Some st0 \<and> run_steps trans_step sample_ops st0 = Some st' \<and>
    tmem st' 8 = Some t \<and> unat (refcnt t) = 0 + 0 + 1 \<and> ext (info (fold view_step sample_ops no_trans) 8) = 0 \<and>
    leaked (fold view_step sample_ops no_trans) 8 = 1"
proof -
  let ?A = "fold view_step sample_ops no_trans"
  have A: "live ?A = [8]" "ext (info ?A 8) = 0" "dset (info ?A 8) = []" "leaked ?A 8 = 1"
    by (simp_all add: sample_ops_def no_trans_def Let_def)
  show ?thesis
    using trans_ops_counted [OF _ sample_ops_ok refl, of tstate0] unfolding A
    by (simp add: tstate0_def A) blast
qed

lemma tstate0_inv: "trans_inv (the (trans_init tstate0)) no_trans"
proof -
  have "\<exists>st'. trans_init tstate0 = Some st' \<and> trans_inv st' no_trans"
    by (rule trans_init_inv) (simp add: tstate0_def)
  then show ?thesis by auto
qed

lemma trans_fini_frees_all_witness:
  "\<exists>st1 st'. run_steps trans_step sample_ops (the (trans_init tstate0)) = Some st1 \<and>
    trans_fini st1 = Some st' \<and> dom (tmem st') = {trans_list}"
  by (rule trans_fini_frees_all [OF tstate0_inv sample_ops_ok])

definition two_trans :: tview where
  "two_trans = fold view_step [TCreate 8, TCreate 16] no_trans"

lemma two_trans_inv:
  "trans_inv (the (run_steps trans_step [TCreate 8, TCreate 16] (the (trans_init tstate0)))) two_trans"
proof -
  have "all_pre client_ok view_step [TCreate 8, TCreate 16] no_trans"
    by (simp add: no_trans_def trans_list_def)
  from transactions.run [OF tstate0_inv this] show ?thesis by (auto simp: two_trans_def)
qed

lemma depended_on_never_freed_witness:
  "\<exists>st'. run_steps trans_step [TDepend 16 8, TUnref 16, TUnref 8]
      (the (run_steps trans_step [TCreate 8, TCreate 16] (the (trans_init tstate0)))) = Some st' \<and>
    8 \<in> dom (tmem st')"
  by (rule depended_on_never_freed [OF two_trans_inv])
    (simp add: two_trans_def no_trans_def Let_def)

subsection \<open>The waiting loop of \<open>trans_commit\<close>\<close>

lemma commit_loop_observed:
  assumes "commit_loop obs deps ds flag k = Some r"
  shows "\<forall>pre. deps = pre @ ds \<longrightarrow> ds \<noteq> [] \<longrightarrow>
      (\<not> flag \<longrightarrow> (\<forall>d \<in> set pre. \<exists>j. obs j d = Some TRANS_COMMITTED)) \<longrightarrow>
      r \<noteq> TRANS_PENDING \<and>
      (r = TRANS_COMMITTED \<longrightarrow> (\<forall>d \<in> set deps. \<exists>j. obs j d = Some TRANS_COMMITTED)) \<and>
      (r = TRANS_ABORTED \<longrightarrow> (\<exists>d \<in> set deps. \<exists>j. obs j d = Some TRANS_ABORTED))"
  using assms
proof (induction rule: commit_loop.raw_induct [rotated, consumes 1, case_names step])
  case (step loop obs deps ds flag k r)
  show ?case
  proof (intro allI impI)
    fix pre assume pre: "deps = pre @ ds" "ds \<noteq> []"
      and ob: "\<not> flag \<longrightarrow> (\<forall>d \<in> set pre. \<exists>j. obs j d = Some TRANS_COMMITTED)"
    obtain d rest where ds: "ds = d # rest" using pre(2) by (cases ds) auto
    obtain s where s: "obs k d = Some s" using step.hyps ds by (cases "obs k d") auto
    show "r \<noteq> TRANS_PENDING \<and>
      (r = TRANS_COMMITTED \<longrightarrow> (\<forall>d \<in> set deps. \<exists>j. obs j d = Some TRANS_COMMITTED)) \<and>
      (r = TRANS_ABORTED \<longrightarrow> (\<exists>d \<in> set deps. \<exists>j. obs j d = Some TRANS_ABORTED))"
    proof (cases "s = TRANS_ABORTED")
      case True
      then show ?thesis using step.hyps ds s pre by auto
    next
      case False
      obtain s2 where s2: "obs (k + 1) d = Some s2"
        using step.hyps ds s False by (cases "obs (k + 1) d") auto
      let ?flag = "if s2 \<noteq> TRANS_COMMITTED then True else flag"
      have ob2: "\<not> ?flag \<longrightarrow> (\<forall>x \<in> set (pre @ [d]). \<exists>j. obs j x = Some TRANS_COMMITTED)"
        using ob s2 by auto
      consider "rest = []" "\<not> ?flag" | "rest = []" "?flag" | "rest \<noteq> []" by blast
      then show ?thesis
      proof cases
        case 1
        then show ?thesis using step.hyps ds s s2 False pre ob2 by (auto split: if_splits)
      next
        case 2
        then have "loop obs deps deps False (k + 2) = Some r"
          using step.hyps ds s s2 False by (simp split: if_splits)
        from step.IH [OF this] show ?thesis using pre by simp
      next
        case 3
        then have "loop obs deps rest ?flag (k + 2) = Some r"
          using step.hyps ds s s2 False by simp
        from step.IH [OF this, rule_format, of "pre @ [d]"] show ?thesis using pre ds 3 ob2 by simp
      qed
    qed
  qed
qed

lemma commit_loop_read:
  assumes "obs k d = Some s" "obs (k + 1) d = Some s2"
  shows "commit_loop obs deps (d # rest) flag k =
    (if s = TRANS_ABORTED then Some TRANS_ABORTED
     else if rest \<noteq> [] then commit_loop obs deps rest (s2 \<noteq> TRANS_COMMITTED \<or> flag) (k + 2)
     else if s2 \<noteq> TRANS_COMMITTED \<or> flag then commit_loop obs deps deps False (k + 2)
     else Some TRANS_COMMITTED)"
  using assms by (subst commit_loop.simps) simp

lemma commit_pass_final:
  assumes "\<forall>d \<in> set ds. fin d \<noteq> TRANS_PENDING" "\<forall>d \<in> set ds. \<forall>j \<ge> k. obs j d = Some (fin d)"
    "ds \<noteq> []" "\<not> flag \<or> (\<forall>j \<ge> k. \<exists>r. commit_loop obs deps deps False j = Some r)"
  shows "\<exists>r. commit_loop obs deps ds flag k = Some r"
  using assms
proof (induction ds arbitrary: k)
  case (Cons d rest)
  have IH: "\<exists>r. commit_loop obs deps rest flag (k + 2) = Some r" if "rest \<noteq> []"
    by (rule Cons.IH) (use Cons.prems that in auto)
  have o: "obs k d = Some (fin d)" "obs (k + 1) d = Some (fin d)" using Cons.prems(2) by simp_all
  show ?case
  proof (cases "fin d")
    case TRANS_COMMITTED
    moreover have "flag \<Longrightarrow> \<exists>r. commit_loop obs deps deps False (k + 2) = Some r"
      using Cons.prems(4) by simp
    ultimately show ?thesis using IH by (cases flag) (simp_all add: commit_loop_read [of obs, OF o])
  qed (use Cons.prems(1) in \<open>simp_all add: commit_loop_read [of obs, OF o]\<close>)
qed simp

text \<open>What another thread may do to a transaction that the waiting thread still references: it
  changes its status from pending to a final one, once, and does not free it.\<close>

definition settles :: "(nat \<Rightarrow> nat \<Rightarrow> trans_status option) \<Rightarrow> (nat \<Rightarrow> trans_status) \<Rightarrow> nat \<Rightarrow> nat \<Rightarrow> bool" where
  "settles obs fin K d \<longleftrightarrow> fin d \<noteq> TRANS_PENDING \<and>
     (\<forall>k. obs k d = Some TRANS_PENDING \<and> k < K \<or> obs k d = Some (fin d)) \<and>
     (\<forall>i j. i \<le> j \<longrightarrow> obs i d = Some (fin d) \<longrightarrow> obs j d = Some (fin d))"

lemma settlesD:
  assumes "settles obs fin K d"
  shows "fin d \<noteq> TRANS_PENDING" "\<exists>s. obs k d = Some s" "K \<le> k \<Longrightarrow> obs k d = Some (fin d)"
    "obs k d = Some s \<Longrightarrow> s = TRANS_PENDING \<or> s = fin d"
  using assms by (auto simp: settles_def dest!: spec [of _ k])

lemma commit_loop_returns:
  assumes s: "\<forall>d \<in> set deps. settles obs fin K d" and ne: "deps \<noteq> []"
  shows "ds \<noteq> [] \<Longrightarrow> set ds \<subseteq> set deps \<Longrightarrow> \<exists>r. commit_loop obs deps ds flag k = Some r"
proof (induction "K - k" arbitrary: k ds flag rule: less_induct)
  case less
  show ?case
  proof (cases "K \<le> k")
    case True
    have fin: "\<forall>d \<in> set deps. \<forall>j \<ge> k. obs j d = Some (fin d) \<and> fin d \<noteq> TRANS_PENDING"
      using s True settlesD by (meson le_trans)
    have all: "\<exists>r. commit_loop obs deps deps False j = Some r" if "k \<le> j" for j
      by (rule commit_pass_final [where fin = fin]) (use fin that ne in auto)
    show ?thesis
      by (rule commit_pass_final [where fin = fin]) (use fin all less.prems in auto)
  next
    case False
    obtain d rest where ds: "ds = d # rest" using less.prems(1) by (cases ds) auto
    have "settles obs fin K d" using s less.prems(2) ds by auto
    from settlesD(2) [OF this] obtain x y where xy: "obs k d = Some x" "obs (k + 1) d = Some y" by metis
    have "\<exists>r. commit_loop obs deps e f (k + 2) = Some r" if "e \<noteq> []" "set e \<subseteq> set deps" for e f
      using less.hyps [of "k + 2"] False that by simp
    then show ?thesis using less.prems(2) ne by (simp add: ds commit_loop_read [of obs, OF xy])
  qed
qed

text \<open>C17: The waiting loop of \<open>trans_commit\<close> returns as soon as every dependency settles, however
  the other threads interleave with its reads, and it returns aborted exactly when some dependency
  aborts and committed exactly when all commit.\<close>

theorem commit_loop_decides:
  assumes "\<forall>d \<in> set deps. settles obs fin K d" "deps \<noteq> []"
  shows "commit_loop obs deps deps False 0 =
    Some (if \<exists>d \<in> set deps. fin d = TRANS_ABORTED then TRANS_ABORTED else TRANS_COMMITTED)"
proof -
  obtain r where r: "commit_loop obs deps deps False 0 = Some r"
    using commit_loop_returns [OF assms] assms(2) by blast
  have "r \<noteq> TRANS_PENDING" "r = TRANS_COMMITTED \<Longrightarrow> \<forall>d \<in> set deps. \<exists>j. obs j d = Some TRANS_COMMITTED"
    "r = TRANS_ABORTED \<Longrightarrow> \<exists>d \<in> set deps. \<exists>j. obs j d = Some TRANS_ABORTED"
    using commit_loop_observed [OF r] assms(2) by auto
  moreover have fx: "fin d = x" if "d \<in> set deps" "obs j d = Some x" "x \<noteq> TRANS_PENDING" for d j x
    using settlesD(4) [OF bspec [OF assms(1) that(1)] that(2)] that(3) by simp
  ultimately show ?thesis using r fx [where x = TRANS_ABORTED] fx [where x = TRANS_COMMITTED]
    by (cases r) (simp_all, fastforce+)
qed


text \<open>C21: \<open>trans_commit\<close> sets the status it returns; when it commits it gives up one reference,
  when it aborts it keeps it, although the comment says that a reference is always consumed.\<close>

theorem trans_commit_result:
  assumes "tmem st a = Some t" "\<not> locked t" "refcnt t \<noteq> 1" "\<forall>d \<in> set (depends t). settles obs fin K d"
  shows "trans_commit obs a st =
    (if \<exists>d \<in> set (depends t). fin d = TRANS_ABORTED
     then Some (TRANS_ABORTED, st\<lparr>tmem := (tmem st)(a \<mapsto> t\<lparr>status := TRANS_ABORTED\<rparr>)\<rparr>)
     else Some (TRANS_COMMITTED, st\<lparr>tmem := (tmem st)
       (a \<mapsto> t\<lparr>status := TRANS_COMMITTED, refcnt := refcnt t - 1\<rparr>)\<rparr>))"
proof -
  let ?st = "st\<lparr>tmem := (tmem st)(a \<mapsto> t\<lparr>status := TRANS_COMMITTED\<rparr>)\<rparr>"
  have u: "trans_unref a ?st = Some (st\<lparr>tmem := (tmem st)
       (a \<mapsto> t\<lparr>status := TRANS_COMMITTED, refcnt := refcnt t - 1\<rparr>)\<rparr>)"
    using trans_unref_dec [of ?st a "t\<lparr>status := TRANS_COMMITTED\<rparr>"] assms(2,3) by simp
  have l: "t\<lparr>locked := False, status := r\<rparr> = t\<lparr>status := r\<rparr>" for r using assms(2) by (cases t) simp
  show ?thesis
  proof (cases "depends t = []")
    case True
    then show ?thesis using assms(1,2) u l by (simp add: trans_commit_def trans_ops)
  next
    case False
    from commit_loop_decides [OF assms(4) this] show ?thesis
      using assms(1,2) u l False by (simp add: trans_commit_def trans_ops)
  qed
qed

subsection \<open>Aborting\<close>

lemma scan_done:
  assumes "tmem st a = Some s" "tnext s = trans_list"
  shows "abort_run (Scan tp a) st = Some (Done st)"
  using assms by (subst abort_run.simps) simp

lemma inner_end: "tmem st a = Some s \<Longrightarrow> abort_run (Inner tp a []) st = abort_run (Scan tp (tnext s)) st"
  by (subst abort_run.simps) simp

lemma scan_skip:
  assumes "tmem st a = Some s" "tnext s = n" "n \<noteq> trans_list" "tmem st n = Some x" "tmem st tp = Some t"
    "tid x = tid t \<or> depends x = [] \<or>
     (\<exists>d y. depends x = [d] \<and> tmem st d = Some y \<and> tid y \<noteq> tid t)"
  shows "abort_run (Scan tp a) st = abort_run (Scan tp n) st"
  using assms by (subst abort_run.simps) (auto simp: inner_end)

text \<open>An iteration of the inner loop that does not find the aborted transaction comes back to the same
  configuration, so the loop does not end.\<close>

lemma inner_stuck:
  assumes "tmem st tp = Some t" "tmem st e = Some z" "tid z \<noteq> tid t"
  shows "abort_run (Inner tp a (e # ds)) st = None"
proof -
  have "c = Inner tp a (e # ds) \<longrightarrow> st' = st \<longrightarrow> False" if "abort_run c st' = Some r" for c st' r
    using that
  proof (induction rule: abort_run.raw_induct [rotated, consumes 1, case_names step])
    case (step run c st' r)
    then show ?case using assms by (fastforce simp: bind_eq_Some_conv)
  qed
  then show ?thesis by (cases "abort_run (Inner tp a (e # ds)) st") auto
qed

lemma scan_stuck:
  assumes "tmem st a = Some s" "tnext s = n" "n \<noteq> trans_list" "tmem st n = Some x" "tmem st tp = Some t"
    "tid x \<noteq> tid t" "depends x = d # e # ds" "tmem st d = Some y" "tid y \<noteq> tid t"
    "tmem st e = Some z" "tid z \<noteq> tid t"
  shows "abort_run (Scan tp a) st = None"
  using assms inner_stuck [OF assms(5) assms(10,11), of a ds] by (subst abort_run.simps) simp

definition independent :: "tstate \<Rightarrow> u32 \<Rightarrow> nat \<Rightarrow> bool" where
  "independent st i b \<longleftrightarrow> (\<exists>x. tmem st b = Some x \<and> (tid x = i \<or> depends x = [] \<or>
     (\<exists>d. depends x = [d] \<and> (\<exists>y. tmem st d = Some y \<and> tid y \<noteq> i))))"

lemma scan_independent:
  assumes "seg_of (nxt st) (prv st) a xs q" "tmem st a = Some s" "tmem st tp = Some t"
    "\<forall>b \<in> set xs. b \<noteq> trans_list \<and> independent st (tid t) b"
  shows "abort_run (Scan tp a) st = abort_run (Scan tp (last (a # xs))) st"
  using assms
proof (induction xs arbitrary: a s)
  case (Cons x xs)
  obtain u where u: "tmem st x = Some u" using Cons.prems(4) by (auto simp: independent_def)
  have "abort_run (Scan tp a) st = abort_run (Scan tp x) st"
    by (rule scan_skip [OF Cons.prems(2) _ _ u Cons.prems(3)])
      (use Cons.prems u in \<open>auto simp: nxt_def independent_def\<close>)
  then show ?case using Cons.IH [OF _ u Cons.prems(3)] Cons.prems by simp
qed simp

lemma abort_call:
  assumes "tmem st a = Some t" "\<not> locked t"
  shows "trans_abort a st = (case status t of
      TRANS_COMMITTED \<Rightarrow> Some Abort
    | TRANS_ABORTED \<Rightarrow> map_option Done (trans_unref a st)
    | TRANS_PENDING \<Rightarrow> do {
        r \<leftarrow> abort_run (Scan a trans_list) (st\<lparr>tmem := (tmem st)(a \<mapsto> t\<lparr>locked := True, status := TRANS_ABORTED\<rparr>)\<rparr>);
        case r of
           Abort \<Rightarrow> Some Abort
         | Done st \<Rightarrow> do {
             st \<leftarrow> mutex_unlock a st;
             st \<leftarrow> trans_unref a st;
             Some (Done st)
           }
      })"
  unfolding trans_abort_def using assms
  by (subst abort_run.simps) (cases "status t", simp_all add: trans_ops fun_upd_idem map_conv_bind_option o_def)


lemma independent_update:
  assumes "tmem st a = Some t" "tid t' = tid t" "depends t' = depends t"
  shows "independent (st\<lparr>tmem := (tmem st)(a \<mapsto> t')\<rparr>) i b = independent st i b"
proof -
  have "(\<exists>y. tmem (st\<lparr>tmem := (tmem st)(a \<mapsto> t')\<rparr>) d = Some y \<and> tid y \<noteq> i) \<longleftrightarrow>
      (\<exists>y. tmem st d = Some y \<and> tid y \<noteq> i)" for d
    using assms by simp
  then show ?thesis using assms by (cases "b = a") (simp_all add: independent_def)
qed

lemma nxt_Some: "tmem st a = Some t \<Longrightarrow> nxt st a = tnext t"
  by (simp add: nxt_def)

lemma abort_scan_state:
  assumes "trans_inv st A" "tmem st a = Some t"
  shows "seg_of (nxt (st\<lparr>tmem := (tmem st)(a \<mapsto> t\<lparr>locked := True, status := TRANS_ABORTED\<rparr>)\<rparr>))
      (prv (st\<lparr>tmem := (tmem st)(a \<mapsto> t\<lparr>locked := True, status := TRANS_ABORTED\<rparr>)\<rparr>))
      trans_list (live A) trans_list"
    "\<exists>s. tmem (st\<lparr>tmem := (tmem st)(a \<mapsto> t\<lparr>locked := True, status := TRANS_ABORTED\<rparr>)\<rparr>) trans_list = Some s"
proof -
  have "(nxt st)(a := tnext t) = nxt st" "(prv st)(a := tprev t) = prv st"
    using assms(2) by (simp_all add: nxt_def prv_def fun_eq_iff)
  then show "seg_of (nxt (st\<lparr>tmem := (tmem st)(a \<mapsto> t\<lparr>locked := True, status := TRANS_ABORTED\<rparr>)\<rparr>))
      (prv (st\<lparr>tmem := (tmem st)(a \<mapsto> t\<lparr>locked := True, status := TRANS_ABORTED\<rparr>)\<rparr>))
      trans_list (live A) trans_list"
    using assms(1) by (simp add: trans_inv_def ring_def)
  show "\<exists>s. tmem (st\<lparr>tmem := (tmem st)(a \<mapsto> t\<lparr>locked := True, status := TRANS_ABORTED\<rparr>)\<rparr>) trans_list = Some s"
    using assms(1) by (auto simp: trans_inv_def)
qed

lemma abort_by_cases:
  assumes "trans_inv st A" "a \<in> set (live A)" "tmem st a = Some t"
    "status t = TRANS_PENDING \<longrightarrow> (\<forall>b \<in> set (live A). independent st (tid t) b)"
  shows "trans_abort a st = (case status t of
      TRANS_COMMITTED \<Rightarrow> Some Abort
    | TRANS_ABORTED \<Rightarrow> map_option Done (trans_unref a st)
    | TRANS_PENDING \<Rightarrow> map_option Done
        (trans_unref a (st\<lparr>tmem := (tmem st)(a \<mapsto> t\<lparr>status := TRANS_ABORTED\<rparr>)\<rparr>)))"
proof -
  let ?t = "t\<lparr>locked := True, status := TRANS_ABORTED\<rparr>"
  let ?st = "st\<lparr>tmem := (tmem st)(a \<mapsto> ?t)\<rparr>"
  have a0: "trans_list \<notin> set (live A)" using assms(1) by (auto simp: trans_inv_def ring_def)
  have lk: "\<not> locked t" using assms(1,2,3) trans_inv_live by (metis counts_def option.inject)
  obtain s where s: "tmem ?st trans_list = Some s" using abort_scan_state(2) [OF assms(1,3)] by blast
  have "abort_run (Scan a trans_list) ?st = Some (Done ?st)" if "status t = TRANS_PENDING"
  proof -
    have "abort_run (Scan a trans_list) ?st = abort_run (Scan a (last (trans_list # live A))) ?st"
      by (rule scan_independent [OF abort_scan_state(1) [OF assms(1,3)] s, where t = ?t])
        (use assms(3,4) a0 that in \<open>auto simp: independent_update [OF assms(3)]\<close>)
    moreover have "\<exists>u. tmem ?st (last (trans_list # live A)) = Some u"
    proof -
      have "last (trans_list # live A) \<in> dom (tmem st)"
        using assms(1) last_in_set [of "trans_list # live A"] by (auto simp: trans_inv_def)
      then show ?thesis by auto
    qed
    then obtain u where u: "tmem ?st (last (trans_list # live A)) = Some u" by blast
    moreover have "tnext u = trans_list"
      using seg_of_last [OF abort_scan_state(1) [OF assms(1,3)]] nxt_Some [OF u] by metis
    ultimately show ?thesis by (simp add: scan_done)
  qed
  moreover have "t\<lparr>status := TRANS_ABORTED, locked := False\<rparr> = t\<lparr>status := TRANS_ABORTED\<rparr>"
    using lk by (cases t) simp
  ultimately show ?thesis
    using abort_call [OF assms(3) lk]
    by (cases "status t") (simp_all add: trans_ops map_conv_bind_option o_def)
qed


text \<open>C26: \<open>trans_abort\<close> of a pending transaction never returns when some live transaction has at least two
  dependency entries of which the first two are not of the aborted transaction, and every transaction before it in the ring
  is the aborted one, or has no entry, or a single one that is not of the aborted transaction, so that the search gets to
  it: the loop over the further entries does not advance.\<close>

theorem trans_abort_loops:
  assumes "trans_inv st A" "tmem st a = Some t" "\<not> locked t" "status t = TRANS_PENDING"
    "live A = xs @ x # ys" "\<forall>b \<in> set xs. independent st (tid t) b"
    "tmem st x = Some u" "tid u \<noteq> tid t" "depends u = d # e # ds"
    "tmem st d = Some y" "tid y \<noteq> tid t" "tmem st e = Some z" "tid z \<noteq> tid t"
  shows "trans_abort a st = None"
proof -
  let ?t = "t\<lparr>locked := True, status := TRANS_ABORTED\<rparr>"
  let ?st = "st\<lparr>tmem := (tmem st)(a \<mapsto> ?t)\<rparr>" and ?l = "last (trans_list # xs)"
  have a0: "trans_list \<notin> set (live A)" using assms(1) by (auto simp: trans_inv_def ring_def)
  obtain s where s: "tmem ?st trans_list = Some s" using abort_scan_state(2) [OF assms(1,2)] by blast
  have seg: "seg_of (nxt ?st) (prv ?st) trans_list xs x"
    using abort_scan_state(1) [OF assms(1,2)] assms(5) by simp
  have "abort_run (Scan a trans_list) ?st = abort_run (Scan a ?l) ?st"
    by (rule scan_independent [OF seg s, where t = ?t])
      (use assms(2,5,6) a0 in \<open>auto simp: independent_update [OF assms(2)]\<close>)
  moreover obtain v where v: "tmem ?st ?l = Some v"
  proof -
    have "?l \<in> dom (tmem st)"
      using assms(1,5) last_in_set [of "trans_list # xs"] by (auto simp: trans_inv_def)
    then have "\<exists>v. tmem ?st ?l = Some v" by auto
    then show ?thesis using that by blast
  qed
  moreover have "tnext v = x" using seg_of_last [OF seg] nxt_Some [OF v] by metis
  moreover have "x \<noteq> trans_list" using a0 assms(5) by auto
  moreover have "x \<noteq> a" "d \<noteq> a" "e \<noteq> a" using assms by auto
  ultimately have "abort_run (Scan a trans_list) ?st = None"
    using scan_stuck [of ?st ?l v x u a ?t d e ds y z] assms by simp
  then show ?thesis using abort_call [OF assms(2,3)] assms(4) by simp
qed


subsection \<open>Showing\<close>

lemma show_loop_seg:
  assumes "seg_of (nxt st) (prv st) a xs trans_list" "trans_list \<notin> set xs" "set (a # xs) \<subseteq> dom (tmem st)"
  shows "trans_show_loop a st = Some (map (\<lambda>b. (tid (the (tmem st b)), status (the (tmem st b)),
    refcnt (the (tmem st b)))) (filter (\<lambda>b. tid (the (tmem st b)) \<noteq> 0) xs))"
  using assms
proof (induction xs arbitrary: a)
  case Nil
  then show ?case by (subst trans_show_loop.simps) (auto simp: nxt_def)
next
  case (Cons x xs)
  obtain t u where t: "tmem st a = Some t" and u: "tmem st x = Some u" using Cons.prems(3) by auto
  have "tnext t = x" using Cons.prems(1) t by (simp add: nxt_def)
  then show ?case using Cons t u by (subst trans_show_loop.simps) auto
qed

text \<open>\<open>trans_show_all\<close> terminates and prints id, status and reference count of every live
  transaction whose id is not zero, in the order of creation.\<close>

theorem trans_show_all_lists:
  assumes "trans_inv st A"
  shows "trans_show_all st = Some (map (\<lambda>b. (tid (the (tmem st b)), status (the (tmem st b)),
    refcnt (the (tmem st b)))) (filter (\<lambda>b. tid (the (tmem st b)) \<noteq> 0) (live A)))"
  unfolding trans_show_all_def
  by (rule show_loop_seg) (use assms in \<open>auto simp: trans_inv_def ring_def\<close>)

subsection \<open>Witnesses\<close>

text \<open>Transaction 32 depends on 16 and 24; transaction 8 stands alone.\<close>

definition four_ops :: "trans_op list" where
  "four_ops = [TCreate 8, TCreate 16, TCreate 24, TCreate 32, TDepend 32 24, TDepend 32 16, TRef 32]"

definition four :: tstate where
  "four = the (run_steps trans_step four_ops (the (trans_init tstate0)))"

lemma four_inv: "trans_inv four (fold view_step four_ops no_trans)"
proof -
  have "all_pre client_ok view_step four_ops no_trans"
    by (simp add: four_ops_def no_trans_def trans_list_def Let_def)
  from transactions.run [OF tstate0_inv this] show ?thesis by (auto simp: four_def)
qed

lemma four_live: "live (fold view_step four_ops no_trans) = [8, 16, 24, 32]"
  by (simp add: four_ops_def no_trans_def)

lemma four_mem:
  "tmem four 8 = Some \<lparr>tid = 1, refcnt = 1, status = TRANS_PENDING, depends = [], waitcnt = 0,
     locked = False, tnext = 16, tprev = 0\<rparr>"
  "tmem four 16 = Some \<lparr>tid = 2, refcnt = 2, status = TRANS_PENDING, depends = [], waitcnt = 1,
     locked = False, tnext = 24, tprev = 8\<rparr>"
  "tmem four 24 = Some \<lparr>tid = 3, refcnt = 2, status = TRANS_PENDING, depends = [], waitcnt = 1,
     locked = False, tnext = 32, tprev = 16\<rparr>"
  "tmem four 32 = Some \<lparr>tid = 4, refcnt = 2, status = TRANS_PENDING, depends = [16, 24], waitcnt = 0,
     locked = False, tnext = 0, tprev = 24\<rparr>"
  by (simp_all add: four_def four_ops_def tstate0_def trans_init_def trans_create_def trans_ref_def
      trans_add_dependency_def trans_ops trans_list_def Let_def)

lemma trans_abort_loops_witness: "trans_abort 8 four = None"
  by (rule trans_abort_loops [OF four_inv four_mem(1), where xs = "[8, 16, 24]" and x = 32 and ys = "[]"
      and d = 16 and e = 24 and ds = "[]", OF _ _ _ _ four_mem(4) _ _ four_mem(2) _ four_mem(3)])
    (simp_all add: four_live independent_def four_mem)


text \<open>Transaction 16 commits before the second read, transaction 24 aborts before the sixth.\<close>

definition sample_obs :: "nat \<Rightarrow> nat \<Rightarrow> trans_status option" where
  "sample_obs k d = Some (if d = 16 \<and> 2 \<le> k then TRANS_COMMITTED
     else if d = 24 \<and> 6 \<le> k then TRANS_ABORTED else TRANS_PENDING)"

lemma sample_obs_settles:
  "\<forall>d \<in> set [16, 24]. settles sample_obs (\<lambda>d. if d = 16 then TRANS_COMMITTED else TRANS_ABORTED) 6 d"
  by (auto simp: settles_def sample_obs_def)

lemma commit_loop_decides_witness:
  "commit_loop sample_obs [16, 24] [16, 24] False 0 = Some TRANS_ABORTED"
  using commit_loop_decides [OF sample_obs_settles] by simp

lemma trans_commit_result_witness:
  "trans_commit sample_obs 32 four = Some (TRANS_ABORTED, four\<lparr>tmem := (tmem four)
     (32 \<mapsto> \<lparr>tid = 4, refcnt = 2, status = TRANS_ABORTED, depends = [16, 24], waitcnt = 0,
       locked = False, tnext = 0, tprev = 24\<rparr>)\<rparr>)"
  using trans_commit_result [OF four_mem(4), of sample_obs] sample_obs_settles by fastforce

lemma trans_show_all_lists_witness:
  "trans_show_all four = Some [(1, TRANS_PENDING, 1), (2, TRANS_PENDING, 2), (3, TRANS_PENDING, 2),
    (4, TRANS_PENDING, 2)]"
  using trans_show_all_lists [OF four_inv] by (simp add: four_live four_mem)

end
