(* ===== verification/Xacto_Data.thy ===== *)
theory Xacto_Data
  imports Xacto_Trans
begin

text \<open>
  Blobs, keys and versions of hw5/src/data.c. Every object has an address; \<open>chunks\<close> are the
  byte buffers that hold the contents and prefixes. A buffer is exactly its bytes: a string
  function that finds no terminating zero in it reads behind it, which is \<^term>\<open>None\<close> like every
  use of freed memory. The addresses that \<open>malloc\<close> returns are arguments; the code does not check
  for NULL, so they are addresses of fresh memory.
\<close>

subsection \<open>C strings in exact buffers\<close>

definition c_strlen :: "byte list \<Rightarrow> nat option" where
  "c_strlen b = (if 0 \<in> set b then Some (length (takeWhile (\<lambda>c. c \<noteq> 0) b)) else None)"

definition c_strncpy :: "byte list \<Rightarrow> nat \<Rightarrow> byte list option" where
  "c_strncpy src n = (let p = takeWhile (\<lambda>c. c \<noteq> 0) src in
     if n \<le> length p then Some (take n p)
     else if 0 \<in> set src then Some (p @ replicate (n - length p) 0) else None)"

fun c_strcmp :: "byte list \<Rightarrow> byte list \<Rightarrow> int option" where
  "c_strcmp (x # xs) (y # ys) =
     (if x \<noteq> y then Some (if x < y then - 1 else 1) else if x = 0 then Some 0 else c_strcmp xs ys)"
| "c_strcmp _ _ = None"

subsection \<open>State\<close>

record blob =
  block :: bool
  brefcnt :: u32
  bsize :: u64
  content :: nat
  bprefix :: nat

record key =
  hash :: u32
  kblob :: nat

record version =
  creator :: nat
  vblob :: "nat option"
  vnext :: "nat option"
  vprev :: "nat option"

record dstate =
  chunks :: "nat \<Rightarrow> byte list option"
  blobs :: "nat \<Rightarrow> blob option"
  keys :: "nat \<Rightarrow> key option"
  versions :: "nat \<Rightarrow> version option"
  ts :: tstate

definition mod_b :: "nat \<Rightarrow> (blob \<Rightarrow> blob) \<Rightarrow> dstate \<Rightarrow> dstate option" where
  "mod_b b f st = do { x \<leftarrow> blobs st b; Some (st\<lparr>blobs := (blobs st)(b \<mapsto> f x)\<rparr>) }"

definition blob_lock :: "nat \<Rightarrow> dstate \<Rightarrow> dstate option" where
  "blob_lock b st = do {
     x \<leftarrow> blobs st b;
     if block x then None else mod_b b (\<lambda>x. x\<lparr>block := True\<rparr>) st
   }"

definition blob_unlock :: "nat \<Rightarrow> dstate \<Rightarrow> dstate option" where
  "blob_unlock b st = mod_b b (\<lambda>x. x\<lparr>block := False\<rparr>) st"

definition on_ts :: "(tstate \<Rightarrow> tstate option) \<Rightarrow> dstate \<Rightarrow> dstate option" where
  "on_ts f st = do { t \<leftarrow> f (ts st); Some (st\<lparr>ts := t\<rparr>) }"

definition free_chunk :: "nat \<Rightarrow> dstate \<Rightarrow> dstate option" where
  "free_chunk a st = do { _ \<leftarrow> chunks st a; Some (st\<lparr>chunks := (chunks st)(a := None)\<rparr>) }"

definition free_blob :: "nat \<Rightarrow> dstate \<Rightarrow> dstate option" where
  "free_blob b st = do { _ \<leftarrow> blobs st b; Some (st\<lparr>blobs := (blobs st)(b := None)\<rparr>) }"

subsection \<open>Blobs\<close>

definition blob_ref :: "nat \<Rightarrow> dstate \<Rightarrow> (nat \<times> dstate) option" where
  "blob_ref b st = do {
     st \<leftarrow> blob_lock b st;
     st \<leftarrow> mod_b b (\<lambda>x. x\<lparr>brefcnt := brefcnt x + 1\<rparr>) st;
     st \<leftarrow> blob_unlock b st;
     Some (b, st)
   }"

text \<open>\<open>b\<close>, \<open>c\<close> and \<open>p\<close> are the addresses of the three allocations.\<close>

definition blob_create ::
  "nat \<times> nat \<times> nat \<Rightarrow> byte list \<Rightarrow> u64 \<Rightarrow> dstate \<Rightarrow> (nat \<times> dstate) option" where
  "blob_create m src sz st = (case m of (b, c, p) \<Rightarrow> do {
     x \<leftarrow> c_strncpy src (unat sz);
     y \<leftarrow> c_strncpy src (unat sz);
     let st = st\<lparr>chunks := (chunks st)(c \<mapsto> x, p \<mapsto> y)\<rparr>;
     let st = st\<lparr>blobs := (blobs st)(b \<mapsto>
       \<lparr>block = False, brefcnt = 0, bsize = sz, content = c, bprefix = p\<rparr>)\<rparr>;
     (_, st) \<leftarrow> blob_ref b st;
     Some (b, st)
   })"

text \<open>After the branches the mutex is unlocked, also when the blob has been freed.\<close>

definition blob_unref :: "nat \<Rightarrow> dstate \<Rightarrow> dstate option" where
  "blob_unref b st = do {
     st \<leftarrow> blob_lock b st;
     x \<leftarrow> blobs st b;
     st \<leftarrow> (if brefcnt x - 1 = 0 then do {
              st \<leftarrow> free_chunk (content x) st;
              free_blob b st
            }
            else mod_b b (\<lambda>x. x\<lparr>brefcnt := brefcnt x - 1\<rparr>) st);
     blob_unlock b st
   }"

definition blob_text :: "nat \<Rightarrow> dstate \<Rightarrow> byte list option" where
  "blob_text b st = do { x \<leftarrow> blobs st b; chunks st (content x) }"

definition blob_compare :: "nat \<Rightarrow> nat \<Rightarrow> dstate \<Rightarrow> u32 option" where
  "blob_compare b1 b2 st = do {
     s1 \<leftarrow> blob_text b1 st;
     s2 \<leftarrow> blob_text b2 st;
     r \<leftarrow> c_strcmp s1 s2;
     Some (if r = 0 then 0 else - 1)
   }"

text \<open>\<open>char\<close> is signed: the bytes are sign-extended.\<close>

fun hash_loop :: "byte list \<Rightarrow> u32 \<Rightarrow> u32 \<Rightarrow> u32 option" where
  "hash_loop [] len h = None"
| "hash_loop (c # str) len h = (if c = 0 then Some h else hash_loop str len (h + (scast c + len)))"

definition blob_hash :: "nat \<Rightarrow> dstate \<Rightarrow> u32 option" where
  "blob_hash b st = do {
     str \<leftarrow> blob_text b st;
     len \<leftarrow> c_strlen str;
     hash_loop str (of_nat len) 0
   }"

subsection \<open>Keys\<close>

definition key_create :: "nat \<Rightarrow> nat \<Rightarrow> dstate \<Rightarrow> (nat \<times> dstate) option" where
  "key_create k b st = do {
     st \<leftarrow> blob_lock b st;
     h \<leftarrow> blob_hash b st;
     let st = st\<lparr>keys := (keys st)(k \<mapsto> \<lparr>hash = h, kblob = b\<rparr>)\<rparr>;
     st \<leftarrow> mod_b b (\<lambda>x. x\<lparr>brefcnt := brefcnt x + 1\<rparr>) st;
     st \<leftarrow> blob_unlock b st;
     Some (k, st)
   }"

definition key_dispose :: "nat \<Rightarrow> dstate \<Rightarrow> dstate option" where
  "key_dispose k st = do {
     y \<leftarrow> keys st k;
     let b = kblob y;
     st \<leftarrow> blob_lock b st;
     x \<leftarrow> blobs st b;
     st \<leftarrow> (if brefcnt x - 1 = 0 then do {
              st \<leftarrow> free_chunk (content x) st;
              st \<leftarrow> free_chunk (bprefix x) st;
              free_blob b st
            }
            else mod_b b (\<lambda>x. x\<lparr>brefcnt := brefcnt x - 1\<rparr>) st);
     let st = st\<lparr>keys := (keys st)(k := None)\<rparr>;
     blob_unlock b st
   }"

definition key_compare :: "nat \<Rightarrow> nat \<Rightarrow> dstate \<Rightarrow> u32 option" where
  "key_compare k1 k2 st = do {
     y1 \<leftarrow> keys st k1;
     y2 \<leftarrow> keys st k2;
     if hash y1 = hash y2 then do {
       s1 \<leftarrow> blob_text (kblob y1) st;
       s2 \<leftarrow> blob_text (kblob y2) st;
       r \<leftarrow> c_strcmp s1 s2;
       Some (if r = 0 then 0 else - 1)
     }
     else Some (- 1)
   }"

subsection \<open>Versions\<close>

definition version_create :: "nat \<Rightarrow> nat \<Rightarrow> nat option \<Rightarrow> dstate \<Rightarrow> (nat \<times> dstate) option" where
  "version_create v tp bp st = (case bp of
     Some b \<Rightarrow> do {
       st \<leftarrow> blob_lock b st;
       st \<leftarrow> on_ts (mutex_lock tp) st;
       let st = st\<lparr>versions := (versions st)(v \<mapsto>
         \<lparr>creator = tp, vblob = Some b, vnext = None, vprev = None\<rparr>)\<rparr>;
       st \<leftarrow> on_ts (mod_t tp (\<lambda>t. t\<lparr>refcnt := refcnt t + 1\<rparr>)) st;
       st \<leftarrow> mod_b b (\<lambda>x. x\<lparr>brefcnt := brefcnt x + 1\<rparr>) st;
       st \<leftarrow> on_ts (mutex_unlock tp) st;
       st \<leftarrow> blob_unlock b st;
       Some (v, st)
     }
   | None \<Rightarrow> do {
       st \<leftarrow> on_ts (mutex_lock tp) st;
       let st = st\<lparr>versions := (versions st)(v \<mapsto>
         \<lparr>creator = tp, vblob = None, vnext = None, vprev = None\<rparr>)\<rparr>;
       st \<leftarrow> on_ts (mod_t tp (\<lambda>t. t\<lparr>refcnt := refcnt t + 1\<rparr>)) st;
       st \<leftarrow> on_ts (mutex_unlock tp) st;
       Some (v, st)
     })"

definition version_dispose :: "nat \<Rightarrow> dstate \<Rightarrow> dstate option" where
  "version_dispose v st = do {
     y \<leftarrow> versions st v;
     b \<leftarrow> vblob y;
     let tp = creator y;
     st \<leftarrow> blob_lock b st;
     st \<leftarrow> on_ts (mutex_lock tp) st;
     x \<leftarrow> blobs st b;
     st \<leftarrow> (if brefcnt x - 1 = 0 then do {
              st \<leftarrow> free_chunk (content x) st;
              free_blob b st
            }
            else mod_b b (\<lambda>x. x\<lparr>brefcnt := brefcnt x - 1\<rparr>) st);
     st \<leftarrow> on_ts (mod_t tp (\<lambda>t. t\<lparr>refcnt := refcnt t - 1\<rparr>)) st;
     let st = st\<lparr>versions := (versions st)(v := None)\<rparr>;
     st \<leftarrow> on_ts (mutex_unlock tp) st;
     blob_unlock b st
   }"

subsection \<open>Text of terminated buffers\<close>

definition c_text :: "byte list \<Rightarrow> byte list" where
  "c_text b = takeWhile (\<lambda>c. c \<noteq> 0) b"

lemma c_text_simps [simp]: "c_text [] = []" "c_text (c # b) = (if c = 0 then [] else c # c_text b)"
  by (simp_all add: c_text_def)

lemma c_strlen_terminated: "0 \<in> set b \<Longrightarrow> c_strlen b = Some (length (c_text b))"
  by (simp add: c_strlen_def c_text_def)

lemma c_strcmp_terminated:
  "0 \<in> set a \<Longrightarrow> 0 \<in> set b \<Longrightarrow> \<exists>r. c_strcmp a b = Some r \<and> (r = 0 \<longleftrightarrow> c_text a = c_text b)"
  by (induction a b rule: c_strcmp.induct) (auto split: if_splits)

lemma c_strcmp_unterminated: "0 \<notin> set a \<Longrightarrow> c_strcmp a a = None"
  by (induction a) auto

lemma hash_loop_terminated:
  "0 \<in> set b \<Longrightarrow> hash_loop b len h = Some (h + sum_list (map (\<lambda>c. scast c + len) (c_text b)))"
  by (induction b arbitrary: h) (auto simp: ac_simps)

lemma c_strncpy_terminates:
  assumes "0 \<in> set src" "length (c_text src) < n"
  shows "\<exists>b. c_strncpy src n = Some b \<and> length b = n \<and> 0 \<in> set b \<and> c_text b = c_text src"
proof -
  have "\<forall>c \<in> set (c_text src). c \<noteq> 0" by (auto simp: c_text_def dest: set_takeWhileD)
  then have "c_text (c_text src @ replicate (n - length (c_text src)) 0) = c_text src"
    using assms(2) unfolding c_text_def by (subst takeWhile_append2) auto
  then show ?thesis using assms by (simp add: c_strncpy_def c_text_def [symmetric] Let_def)
qed

lemma c_strncpy_cut:
  assumes "n \<le> length (c_text src)"
  shows "\<exists>b. c_strncpy src n = Some b \<and> length b = n \<and> 0 \<notin> set b"
  using assms by (auto simp: c_strncpy_def c_text_def dest!: in_set_takeD set_takeWhileD)

lemmas blob_ops = blob_lock_def blob_unlock_def mod_b_def free_chunk_def free_blob_def on_ts_def trans_ops

lemma block_False_update [simp]: "\<not> block x \<Longrightarrow> x\<lparr>block := False\<rparr> = x"
  by (cases x) simp

lemma blob_create_eq:
  assumes "c_strncpy src (unat sz) = Some x" "c \<noteq> p"
  shows "blob_create (b, c, p) src sz st = Some (b, st\<lparr>chunks := (chunks st)(c \<mapsto> x, p \<mapsto> x),
    blobs := (blobs st)(b \<mapsto> \<lparr>block = False, brefcnt = 1, bsize = sz, content = c, bprefix = p\<rparr>)\<rparr>)"
  using assms by (simp add: blob_create_def blob_ref_def blob_ops)

lemma blob_hash_eq:
  assumes "blob_text b st = Some s" "0 \<in> set s"
  shows "blob_hash b st = Some (sum_list (map (\<lambda>c. scast c + of_nat (length (c_text s))) (c_text s)))"
  using assms by (simp add: blob_hash_def c_strlen_terminated hash_loop_terminated)

end
