(* ===== verification/Xacto_Blobs.thy ===== *)
theory Xacto_Blobs
  imports Xacto_Data
begin

text \<open>
  What data.c promises: strings held by blobs, equality of keys, and the reference counts of blobs
  over sequences of operations.
\<close>

subsection \<open>Strings and keys\<close>

text \<open>A blob created from a string of which the size includes the terminator holds that
  string, has one reference, and hashing and comparing it are defined.\<close>

theorem blob_create_string:
  assumes "0 \<in> set src" "length (c_text src) < unat sz" "c \<noteq> p"
  shows "\<exists>st' s. blob_create (b, c, p) src sz st = Some (b, st') \<and> blob_text b st' = Some s \<and>
    length s = unat sz \<and> c_text s = c_text src \<and> map_option brefcnt (blobs st' b) = Some 1 \<and>
    blob_compare b b st' = Some 0 \<and>
    blob_hash b st' = Some (sum_list (map (\<lambda>x. scast x + of_nat (length (c_text src))) (c_text src)))"
proof -
  obtain s where s: "c_strncpy src (unat sz) = Some s" "length s = unat sz" "0 \<in> set s" "c_text s = c_text src"
    using c_strncpy_terminates [OF assms(1,2)] by blast
  define st' where "st' = st\<lparr>chunks := (chunks st)(c \<mapsto> s, p \<mapsto> s),
    blobs := (blobs st)(b \<mapsto> \<lparr>block = False, brefcnt = 1, bsize = sz, content = c, bprefix = p\<rparr>)\<rparr>"
  have "blob_create (b, c, p) src sz st = Some (b, st')"
    using blob_create_eq [OF s(1) assms(3)] by (simp add: st'_def)
  moreover have t: "blob_text b st' = Some s" using assms(3) by (simp add: st'_def blob_text_def)
  moreover have "blob_compare b b st' = Some 0"
    using t c_strcmp_terminated [OF s(3,3)] by (auto simp: blob_compare_def)
  moreover have "map_option brefcnt (blobs st' b) = Some 1" by (simp add: st'_def)
  ultimately show ?thesis using s blob_hash_eq [OF t s(3)] by auto
qed

lemma blob_create_cut:
  assumes "unat sz \<le> length (c_text src)" "c \<noteq> p"
  shows "\<exists>st'. blob_create (b, c, p) src sz st = Some (b, st') \<and> blob_hash b st' = None \<and>
    blob_compare b b st' = None \<and> (\<forall>k. key_create k b st' = None)"
proof -
  obtain s where s: "c_strncpy src (unat sz) = Some s" "0 \<notin> set s"
    using c_strncpy_cut [OF assms(1)] by blast
  define st' where "st' = st\<lparr>chunks := (chunks st)(c \<mapsto> s, p \<mapsto> s),
    blobs := (blobs st)(b \<mapsto> \<lparr>block = False, brefcnt = 1, bsize = sz, content = c, bprefix = p\<rparr>)\<rparr>"
  have "blob_create (b, c, p) src sz st = Some (b, st')"
    using blob_create_eq [OF s(1) assms(2)] by (simp add: st'_def)
  moreover have t: "blob_text b st' = Some s" using assms(2) by (simp add: st'_def blob_text_def)
  moreover have "blob_text b (st'\<lparr>blobs := (blobs st')(b \<mapsto> (the (blobs st' b))\<lparr>block := True\<rparr>)\<rparr>) = Some s"
    using t by (simp add: blob_text_def st'_def)
  ultimately show ?thesis using s(2) c_strcmp_unterminated [OF s(2)]
    by (auto simp: blob_hash_def c_strlen_def blob_compare_def key_create_def blob_ops st'_def blob_text_def)
qed

text \<open>A blob created the way the server does, with the length of the string as its size, has
  no terminator: hashing it, comparing it and making a key of it read behind its buffer.\<close>

theorem blob_create_unterminated:
  assumes "unat sz \<le> length (c_text src)" "c \<noteq> p"
  shows "\<exists>st'. blob_create (b, c, p) src sz st = Some (b, st') \<and> blob_hash b st' = None \<and>
    blob_compare b b st' = None \<and> key_create k b st' = None"
  using blob_create_cut [OF assms] by blast

definition key_ok :: "dstate \<Rightarrow> nat \<Rightarrow> byte list \<Rightarrow> bool" where
  "key_ok st k s \<longleftrightarrow> (\<exists>y. keys st k = Some y \<and> blob_text (kblob y) st = Some s \<and> 0 \<in> set s \<and>
     blob_hash (kblob y) st = Some (hash y))"

text \<open>\<open>key_compare\<close> decides equality of the two strings: the shortcut over the hashes never
  changes its result, because equal strings have equal hashes.\<close>

theorem key_compare_iff:
  assumes "key_ok st k1 s1" "key_ok st k2 s2"
  shows "key_compare k1 k2 st = Some (if c_text s1 = c_text s2 then 0 else - 1)"
proof -
  obtain y1 y2 where y: "keys st k1 = Some y1" "keys st k2 = Some y2"
    "blob_text (kblob y1) st = Some s1" "blob_text (kblob y2) st = Some s2" "0 \<in> set s1" "0 \<in> set s2"
    "blob_hash (kblob y1) st = Some (hash y1)" "blob_hash (kblob y2) st = Some (hash y2)"
    using assms by (auto simp: key_ok_def)
  have "hash y1 = hash y2" if "c_text s1 = c_text s2"
    using y(7,8) that by (simp add: blob_hash_eq [OF y(3,5)] blob_hash_eq [OF y(4,6)])
  then show ?thesis using y c_strcmp_terminated [OF y(5,6)]
    by (auto simp: key_compare_def)
qed


text \<open>Disposing of a key gives back only the reference that \<open>key_create\<close> took: the caller's own
  reference, which the key is documented to inherit, is still there, so the blob is never freed.\<close>

theorem key_reference_not_inherited:
  assumes "blobs st b = Some x" "\<not> block x" "chunks st (content x) = Some s" "0 \<in> set s" "brefcnt x \<noteq> 0"
    "keys st k = None"
  shows "\<exists>st'. key_create k b st = Some (k, st') \<and> key_dispose k st' = Some st"
proof -
  obtain h where h: "blob_hash b (st\<lparr>blobs := (blobs st)(b \<mapsto> x\<lparr>block := True\<rparr>)\<rparr>) = Some h"
    using blob_hash_eq [of b _ s] assms by (simp add: blob_text_def)
  have "key_create k b st = Some (k, st\<lparr>blobs := (blobs st)(b \<mapsto> x\<lparr>brefcnt := brefcnt x + 1\<rparr>),
    keys := (keys st)(k \<mapsto> \<lparr>hash = h, kblob = b\<rparr>)\<rparr>)"
    using assms h by (simp add: key_create_def blob_ops)
  then show ?thesis using assms
    by (simp add: key_dispose_def blob_ops fun_upd_idem)
qed

text \<open>Giving back the last reference to a blob uses freed memory: the mutex inside the blob is
  unlocked after the blob has been freed. \<open>version_dispose\<close> also faults on a version whose blob is
  NULL.\<close>

theorem last_reference_faults:
  assumes "blobs st b = Some x" "brefcnt x = 1"
    "keys st k = Some y" "kblob y = b" "versions st v = Some z" "vblob z = Some b \<or> vblob z = None"
  shows "blob_unref b st = None \<and> key_dispose k st = None \<and> version_dispose v st = None"
proof (intro conjI)
  show "blob_unref b st = None"
    using assms(1,2) by (cases "chunks st (content x)") (auto simp: blob_unref_def blob_ops)
  show "key_dispose k st = None"
    using assms(1-4)
    by (cases "chunks st (content x)"; cases "chunks st (bprefix x)") (auto simp: key_dispose_def blob_ops)
  show "version_dispose v st = None"
  proof (cases "vblob z")
    case None
    then show ?thesis using assms(5) by (simp add: version_dispose_def)
  next
    case (Some c)
    then have c: "vblob z = Some b" using assms(6) by simp
    show ?thesis
    proof (cases "\<exists>t u. tmem (ts st) (creator z) = Some t \<and> chunks st (content x) = Some u")
      case True
      then show ?thesis using assms(1,2,5) c by (auto simp: version_dispose_def blob_ops)
    next
      case False
      then show ?thesis using assms(1,2,5) c
        by (cases "tmem (ts st) (creator z)"; cases "chunks st (content x)")
          (auto simp: version_dispose_def blob_ops)
    qed
  qed
qed


subsection \<open>Reference counts of blobs\<close>

text \<open>
  The abstract view: the references that clients hold of each live blob, which they keep when they make a
  key or a version of it, the keys and versions in use with their blobs, the counts of the live
  transactions, and the blobs whose contents are terminated strings.
\<close>

record dview =
  cref :: "nat \<Rightarrow> nat option"
  kmap :: "(nat \<times> nat) list"
  vmap :: "(nat \<times> nat \<times> nat) list"
  tref :: "nat \<Rightarrow> nat option"
  cstrs :: "nat set"

definition refs :: "dview \<Rightarrow> nat \<Rightarrow> nat" where
  "refs A b = the (cref A b) + length (filter (\<lambda>(k, b'). b' = b) (kmap A))
     + length (filter (\<lambda>(v, t, b'). b' = b) (vmap A))"

datatype data_op = BRef nat | BUnref nat | KCreate nat nat | KDispose nat nat
  | VCreate nat nat nat | VDispose nat nat nat

fun data_step :: "data_op \<Rightarrow> dstate \<Rightarrow> dstate option" where
  "data_step (BRef b) st = map_option snd (blob_ref b st)"
| "data_step (BUnref b) st = blob_unref b st"
| "data_step (KCreate k b) st = map_option snd (key_create k b st)"
| "data_step (KDispose k b) st = key_dispose k st"
| "data_step (VCreate v t b) st = map_option snd (version_create v t (Some b) st)"
| "data_step (VDispose v t b) st = version_dispose v st"

fun dview_step :: "data_op \<Rightarrow> dview \<Rightarrow> dview" where
  "dview_step (BRef b) A = A\<lparr>cref := (cref A)(b \<mapsto> the (cref A b) + 1)\<rparr>"
| "dview_step (BUnref b) A = A\<lparr>cref := (cref A)(b \<mapsto> the (cref A b) - 1)\<rparr>"
| "dview_step (KCreate k b) A = A\<lparr>kmap := (k, b) # kmap A\<rparr>"
| "dview_step (KDispose k b) A = A\<lparr>kmap := remove1 (k, b) (kmap A)\<rparr>"
| "dview_step (VCreate v t b) A = A\<lparr>vmap := (v, t, b) # vmap A, tref := (tref A)(t \<mapsto> the (tref A t) + 1)\<rparr>"
| "dview_step (VDispose v t b) A =
     A\<lparr>vmap := remove1 (v, t, b) (vmap A), tref := (tref A)(t \<mapsto> the (tref A t) - 1)\<rparr>"

text \<open>References are only released while another one remains, since releasing the last one
  faults, and keys are only made of terminated strings, since hashing other contents faults.\<close>

fun data_ok :: "data_op \<Rightarrow> dview \<Rightarrow> bool" where
  "data_ok (BRef b) A \<longleftrightarrow> b \<in> dom (cref A) \<and> refs A b < 2 ^ 32 - 1"
| "data_ok (BUnref b) A \<longleftrightarrow> b \<in> dom (cref A) \<and> 1 < refs A b \<and> 0 < the (cref A b)"
| "data_ok (KCreate k b) A \<longleftrightarrow> b \<in> dom (cref A) \<and> b \<in> cstrs A \<and> refs A b < 2 ^ 32 - 1 \<and> k \<notin> fst ` set (kmap A)"
| "data_ok (KDispose k b) A \<longleftrightarrow> (k, b) \<in> set (kmap A) \<and> 1 < refs A b"
| "data_ok (VCreate v t b) A \<longleftrightarrow> b \<in> dom (cref A) \<and> refs A b < 2 ^ 32 - 1 \<and>
     v \<notin> fst ` set (vmap A) \<and> t \<in> dom (tref A) \<and> the (tref A t) < 2 ^ 32 - 1"
| "data_ok (VDispose v t b) A \<longleftrightarrow> (v, t, b) \<in> set (vmap A) \<and> 1 < refs A b \<and>
     t \<in> dom (tref A) \<and> 0 < the (tref A t)"

definition blob_ok :: "dstate \<Rightarrow> nat \<Rightarrow> nat \<Rightarrow> bool" where
  "blob_ok st n b \<longleftrightarrow> (\<exists>x s. blobs st b = Some x \<and> \<not> block x \<and> unat (brefcnt x) = n \<and>
     chunks st (content x) = Some s)"

definition str_ok :: "dstate \<Rightarrow> nat \<Rightarrow> bool" where
  "str_ok st b \<longleftrightarrow> (\<exists>s. blob_text b st = Some s \<and> 0 \<in> set s)"

definition tx_ok :: "dstate \<Rightarrow> nat \<Rightarrow> nat \<Rightarrow> bool" where
  "tx_ok st n t \<longleftrightarrow> (\<exists>u. tmem (ts st) t = Some u \<and> \<not> locked u \<and> unat (refcnt u) = n)"

definition tab_ok :: "('y \<Rightarrow> 'd \<Rightarrow> bool) \<Rightarrow> (nat \<Rightarrow> 'y option) \<Rightarrow> (nat \<times> 'd) list \<Rightarrow> bool" where
  "tab_ok R m tab \<longleftrightarrow> distinct (map fst tab) \<and> (\<forall>(k, d) \<in> set tab. \<exists>y. m k = Some y \<and> R y d)"

definition key_for :: "key \<Rightarrow> nat \<Rightarrow> bool" where
  "key_for y b \<longleftrightarrow> kblob y = b"

definition version_for :: "version \<Rightarrow> nat \<times> nat \<Rightarrow> bool" where
  "version_for z d \<longleftrightarrow> creator z = fst d \<and> vblob z = Some (snd d)"

definition data_inv :: "dstate \<Rightarrow> dview \<Rightarrow> bool" where
  "data_inv st A \<longleftrightarrow> (\<forall>b \<in> dom (cref A). blob_ok st (refs A b) b) \<and>
     (\<forall>t \<in> dom (tref A). tx_ok st (the (tref A t)) t) \<and>
     tab_ok key_for (keys st) (kmap A) \<and> tab_ok version_for (versions st) (vmap A) \<and>
     snd ` set (kmap A) \<union> snd ` snd ` set (vmap A) \<subseteq> dom (cref A) \<and> (\<forall>b \<in> cstrs A. str_ok st b)"

lemma str_ok_frame [simp]:
  "str_ok (st\<lparr>keys := k\<rparr>) = str_ok st" "str_ok (st\<lparr>versions := v\<rparr>) = str_ok st" "str_ok (st\<lparr>ts := t\<rparr>) = str_ok st"
  "blobs st b = Some x \<Longrightarrow> str_ok (st\<lparr>blobs := (blobs st)(b \<mapsto> x\<lparr>brefcnt := n\<rparr>)\<rparr>) = str_ok st"
  by (auto simp: str_ok_def blob_text_def fun_eq_iff)

lemma blob_ok_frame [simp]:
  "blob_ok (st\<lparr>keys := k\<rparr>) = blob_ok st" "blob_ok (st\<lparr>versions := v\<rparr>) = blob_ok st"
  "blob_ok (st\<lparr>ts := t\<rparr>) = blob_ok st"
  by (simp_all add: blob_ok_def fun_eq_iff)

lemma tx_ok_frame [simp]:
  "tx_ok (st\<lparr>keys := k\<rparr>) = tx_ok st" "tx_ok (st\<lparr>versions := v\<rparr>) = tx_ok st"
  "tx_ok (st\<lparr>blobs := b\<rparr>) = tx_ok st"
  by (simp_all add: tx_ok_def fun_eq_iff)

lemma blob_ok_set:
  assumes "blob_ok st n b" "blobs st b = Some x" "\<forall>d \<in> D. blob_ok st (f d) d"
    "\<forall>d \<in> D. d \<noteq> b \<longrightarrow> g d = f d" "unat r = g b"
  shows "\<forall>d \<in> D. blob_ok (st\<lparr>blobs := (blobs st)(b \<mapsto> x\<lparr>brefcnt := r\<rparr>)\<rparr>) (g d) d"
  using assms by (auto simp: blob_ok_def)

lemma tx_ok_set:
  assumes "tmem (ts st) t = Some u" "\<not> locked u" "\<forall>d \<in> D. tx_ok st (f d) d"
    "\<forall>d \<in> D. d \<noteq> t \<longrightarrow> g d = f d" "unat r = g t"
  shows "\<forall>d \<in> D. tx_ok (st\<lparr>ts := (ts st)\<lparr>tmem := (tmem (ts st))(t \<mapsto> u\<lparr>refcnt := r\<rparr>)\<rparr>\<rparr>) (g d) d"
  using assms by (auto simp: tx_ok_def)

lemma data_invD:
  assumes "data_inv st A"
  shows "b \<in> dom (cref A) \<Longrightarrow> blob_ok st (refs A b) b"
    "t \<in> dom (tref A) \<Longrightarrow> tx_ok st (the (tref A t)) t"
    "tab_ok key_for (keys st) (kmap A)" "tab_ok version_for (versions st) (vmap A)" "\<forall>b \<in> cstrs A. str_ok st b"
proof -
  note c = assms [unfolded data_inv_def]
  show "b \<in> dom (cref A) \<Longrightarrow> blob_ok st (refs A b) b" by (rule bspec [OF conjunct1 [OF c]])
  show "t \<in> dom (tref A) \<Longrightarrow> tx_ok st (the (tref A t)) t"
    by (rule bspec [OF conjunct1 [OF conjunct2 [OF c]]])
  show "tab_ok key_for (keys st) (kmap A)" using c by (elim conjE)
  show "tab_ok version_for (versions st) (vmap A)" using c by (elim conjE)
  show "\<forall>b \<in> cstrs A. str_ok st b" using c by (elim conjE)
qed

lemma data_inv_live:
  assumes "data_inv st A"
  shows "(k, b) \<in> set (kmap A) \<Longrightarrow> b \<in> dom (cref A)" "(v, t, b) \<in> set (vmap A) \<Longrightarrow> b \<in> dom (cref A)"
proof -
  have "snd ` set (kmap A) \<subseteq> dom (cref A)" "snd ` snd ` set (vmap A) \<subseteq> dom (cref A)"
    using assms by (simp_all add: data_inv_def)
  then show "(k, b) \<in> set (kmap A) \<Longrightarrow> b \<in> dom (cref A)" "(v, t, b) \<in> set (vmap A) \<Longrightarrow> b \<in> dom (cref A)"
    by (force dest: subsetD)+
qed

lemma tab_ok_get: "tab_ok R m tab \<Longrightarrow> (k, d) \<in> set tab \<Longrightarrow> \<exists>y. m k = Some y \<and> R y d"
  by (auto simp: tab_ok_def)

lemma tab_ok_add:
  assumes "tab_ok R m tab" "k \<notin> fst ` set tab" "R y d"
  shows "tab_ok R (m(k \<mapsto> y)) ((k, d) # tab)"
  using assms by (force simp: tab_ok_def)

lemma tab_ok_remove:
  assumes "tab_ok R m tab" "(k, d) \<in> set tab"
  shows "tab_ok R (m(k := None)) (remove1 (k, d) tab)"
proof -
  obtain xs ys where xy: "tab = xs @ (k, d) # ys" "(k, d) \<notin> set xs"
    using assms(2) by (meson split_list_first)
  have r: "remove1 (k, d) tab = xs @ ys" using xy by (simp add: remove1_append)
  have "distinct (map fst xs @ k # map fst ys)" using assms(1) xy(1) by (simp add: tab_ok_def)
  then have "k \<notin> fst ` set (xs @ ys)" by auto
  then have "\<forall>(k', d') \<in> set (xs @ ys). k' \<noteq> k" by force
  moreover have "distinct (map fst (xs @ ys))" using assms(1) xy by (simp add: tab_ok_def)
  moreover have "\<forall>(k', d') \<in> set (xs @ ys). \<exists>y. m k' = Some y \<and> R y d'"
    using assms(1) xy by (auto simp: tab_ok_def)
  ultimately show ?thesis unfolding tab_ok_def r by fastforce
qed

lemma unat_pred32: "(w :: u32) \<noteq> 0 \<Longrightarrow> unat (w - 1) = unat w - 1"
  by (simp add: unat_minus_one)

lemma blob_ref_eq:
  assumes "blobs st b = Some x" "\<not> block x"
  shows "blob_ref b st = Some (b, st\<lparr>blobs := (blobs st)(b \<mapsto> x\<lparr>brefcnt := brefcnt x + 1\<rparr>)\<rparr>)"
  using assms by (simp add: blob_ref_def blob_ops)

lemma blob_unref_eq:
  assumes "blobs st b = Some x" "\<not> block x" "brefcnt x \<noteq> 1"
  shows "blob_unref b st = Some (st\<lparr>blobs := (blobs st)(b \<mapsto> x\<lparr>brefcnt := brefcnt x - 1\<rparr>)\<rparr>)"
  using assms by (simp add: blob_unref_def blob_ops)

lemma key_create_eq:
  assumes "blobs st b = Some x" "\<not> block x" "chunks st (content x) = Some s" "0 \<in> set s"
  shows "\<exists>h. key_create k b st = Some (k, st\<lparr>blobs := (blobs st)(b \<mapsto> x\<lparr>brefcnt := brefcnt x + 1\<rparr>),
    keys := (keys st)(k \<mapsto> \<lparr>hash = h, kblob = b\<rparr>)\<rparr>)"
proof -
  obtain h where "blob_hash b (st\<lparr>blobs := (blobs st)(b \<mapsto> x\<lparr>block := True\<rparr>)\<rparr>) = Some h"
    using blob_hash_eq [of b _ s] assms by (simp add: blob_text_def)
  then show ?thesis using assms by (intro exI [of _ h]) (simp add: key_create_def blob_ops)
qed

lemma key_dispose_eq:
  assumes "keys st k = Some y" "blobs st (kblob y) = Some x" "\<not> block x" "brefcnt x \<noteq> 1"
  shows "key_dispose k st = Some (st\<lparr>blobs := (blobs st)(kblob y \<mapsto> x\<lparr>brefcnt := brefcnt x - 1\<rparr>),
    keys := (keys st)(k := None)\<rparr>)"
  using assms by (simp add: key_dispose_def blob_ops)

lemma version_create_eq:
  assumes "blobs st b = Some x" "\<not> block x" "tmem (ts st) t = Some u" "\<not> locked u"
  shows "version_create v t (Some b) st = Some (v, st\<lparr>
    blobs := (blobs st)(b \<mapsto> x\<lparr>brefcnt := brefcnt x + 1\<rparr>),
    versions := (versions st)(v \<mapsto> \<lparr>creator = t, vblob = Some b, vnext = None, vprev = None\<rparr>),
    ts := (ts st)\<lparr>tmem := (tmem (ts st))(t \<mapsto> u\<lparr>refcnt := refcnt u + 1\<rparr>)\<rparr>\<rparr>)"
  using assms by (simp add: version_create_def blob_ops)

lemma version_dispose_eq:
  assumes "versions st v = Some z" "vblob z = Some b" "creator z = t"
    "blobs st b = Some x" "\<not> block x" "brefcnt x \<noteq> 1" "tmem (ts st) t = Some u" "\<not> locked u"
  shows "version_dispose v st = Some (st\<lparr>
    blobs := (blobs st)(b \<mapsto> x\<lparr>brefcnt := brefcnt x - 1\<rparr>),
    versions := (versions st)(v := None),
    ts := (ts st)\<lparr>tmem := (tmem (ts st))(t \<mapsto> u\<lparr>refcnt := refcnt u - 1\<rparr>)\<rparr>\<rparr>)"
  using assms by (simp add: version_dispose_def blob_ops)


lemma length_filter_remove1:
  "x \<in> set xs \<Longrightarrow> length (filter P xs) = length (filter P (remove1 x xs)) + (if P x then 1 else 0)"
proof (induction xs)
  case (Cons y xs)
  then show ?case by (cases "y = x") auto
qed simp

text \<open>The concrete count moves by one and so does the abstract one.\<close>

lemma blob_more:
  assumes "data_inv st A" "b \<in> dom (cref A)" "refs A b < 2 ^ 32 - 1" "refs A' b = refs A b + 1"
    "\<forall>d \<in> dom (cref A). d \<noteq> b \<longrightarrow> refs A' d = refs A d"
  obtains y where "blobs st b = Some y" "\<not> block y"
    "\<forall>d \<in> dom (cref A). blob_ok (st\<lparr>blobs := (blobs st)(b \<mapsto> y\<lparr>brefcnt := brefcnt y + 1\<rparr>)\<rparr>) (refs A' d) d"
proof -
  obtain y where y: "blobs st b = Some y" "\<not> block y" "unat (brefcnt y) = refs A b"
    using data_invD(1) [OF assms(1,2)] by (auto simp: blob_ok_def)
  have "unat (brefcnt y + 1) = refs A' b" using unat_Suc32 [of "brefcnt y"] y(3) assms(3,4) by simp
  then have "\<forall>d \<in> dom (cref A). blob_ok (st\<lparr>blobs := (blobs st)(b \<mapsto> y\<lparr>brefcnt := brefcnt y + 1\<rparr>)\<rparr>) (refs A' d) d"
    using blob_ok_set [OF data_invD(1) [OF assms(1,2)] y(1), of "dom (cref A)" "refs A" "refs A'"]
      data_invD(1) [OF assms(1)] assms(5) by blast
  then show ?thesis using that y by blast
qed

lemma blob_less:
  assumes "data_inv st A" "b \<in> dom (cref A)" "1 < refs A b" "refs A' b = refs A b - 1"
    "\<forall>d \<in> dom (cref A). d \<noteq> b \<longrightarrow> refs A' d = refs A d"
  obtains y where "blobs st b = Some y" "\<not> block y" "brefcnt y \<noteq> 1"
    "\<forall>d \<in> dom (cref A). blob_ok (st\<lparr>blobs := (blobs st)(b \<mapsto> y\<lparr>brefcnt := brefcnt y - 1\<rparr>)\<rparr>) (refs A' d) d"
proof -
  obtain y where y: "blobs st b = Some y" "\<not> block y" "unat (brefcnt y) = refs A b"
    using data_invD(1) [OF assms(1,2)] by (auto simp: blob_ok_def)
  have n: "brefcnt y \<noteq> 0" "brefcnt y \<noteq> 1" using y(3) assms(3) by auto
  have "unat (brefcnt y - 1) = refs A' b" using unat_pred32 [OF n(1)] y(3) assms(4) by simp
  then have "\<forall>d \<in> dom (cref A). blob_ok (st\<lparr>blobs := (blobs st)(b \<mapsto> y\<lparr>brefcnt := brefcnt y - 1\<rparr>)\<rparr>) (refs A' d) d"
    using blob_ok_set [OF data_invD(1) [OF assms(1,2)] y(1), of "dom (cref A)" "refs A" "refs A'"]
      data_invD(1) [OF assms(1)] assms(5) by blast
  then show ?thesis using that y n by blast
qed

lemma data_ref:
  assumes "data_inv st A" "data_ok (BRef b) A"
  shows "\<exists>st'. data_step (BRef b) st = Some st' \<and> data_inv st' (dview_step (BRef b) A)"
proof -
  have b: "b \<in> dom (cref A)" "refs A b < 2 ^ 32 - 1" using assms(2) by simp_all
  obtain y where y: "blobs st b = Some y" "\<not> block y" "\<forall>d \<in> dom (cref A). blob_ok (st\<lparr>blobs :=
      (blobs st)(b \<mapsto> y\<lparr>brefcnt := brefcnt y + 1\<rparr>)\<rparr>) (refs (dview_step (BRef b) A) d) d"
    by (rule blob_more [OF assms(1) b, of "dview_step (BRef b) A"]) (simp_all add: refs_def)
  show ?thesis using assms(1) b(1) blob_ref_eq [OF y(1,2)] y(1,3)
    by (auto simp: data_inv_def insert_absorb)
qed

lemma data_unref:
  assumes "data_inv st A" "data_ok (BUnref b) A"
  shows "\<exists>st'. data_step (BUnref b) st = Some st' \<and> data_inv st' (dview_step (BUnref b) A)"
proof -
  have b: "b \<in> dom (cref A)" "1 < refs A b" "0 < the (cref A b)" using assms(2) by simp_all
  obtain y where y: "blobs st b = Some y" "\<not> block y" "brefcnt y \<noteq> 1" "\<forall>d \<in> dom (cref A). blob_ok (st\<lparr>blobs :=
      (blobs st)(b \<mapsto> y\<lparr>brefcnt := brefcnt y - 1\<rparr>)\<rparr>) (refs (dview_step (BUnref b) A) d) d"
    by (rule blob_less [OF assms(1) b(1,2), of "dview_step (BUnref b) A"])
      (use b(3) in \<open>simp_all add: refs_def\<close>)
  show ?thesis using assms(1) b(1) blob_unref_eq [OF y(1,2,3)] y(1,4)
    by (auto simp: data_inv_def insert_absorb)
qed

lemma data_key_create:
  assumes "data_inv st A" "data_ok (KCreate k b) A"
  shows "\<exists>st'. data_step (KCreate k b) st = Some st' \<and> data_inv st' (dview_step (KCreate k b) A)"
proof -
  have b: "b \<in> dom (cref A)" "refs A b < 2 ^ 32 - 1" "k \<notin> fst ` set (kmap A)" "b \<in> cstrs A"
    using assms(2) by simp_all
  obtain y where y: "blobs st b = Some y" "\<not> block y" "\<forall>d \<in> dom (cref A). blob_ok (st\<lparr>blobs :=
      (blobs st)(b \<mapsto> y\<lparr>brefcnt := brefcnt y + 1\<rparr>)\<rparr>) (refs (dview_step (KCreate k b) A) d) d"
    by (rule blob_more [OF assms(1) b(1,2), of "dview_step (KCreate k b) A"]) (simp_all add: refs_def)
  obtain s where s: "chunks st (content y) = Some s" "0 \<in> set s"
    using data_invD(5) [OF assms(1)] b(4) y(1) by (auto simp: str_ok_def blob_text_def)
  obtain h where h: "key_create k b st = Some (k, st\<lparr>blobs := (blobs st)(b \<mapsto> y\<lparr>brefcnt := brefcnt y + 1\<rparr>),
    keys := (keys st)(k \<mapsto> \<lparr>hash = h, kblob = b\<rparr>)\<rparr>)"
    using key_create_eq [OF y(1,2) s] by blast
  have "tab_ok key_for ((keys st)(k \<mapsto> \<lparr>hash = h, kblob = b\<rparr>)) ((k, b) # kmap A)"
    by (rule tab_ok_add [OF data_invD(3) [OF assms(1)] b(3)]) (simp add: key_for_def)
  then show ?thesis using assms(1) b(1) h y by (simp add: data_inv_def)
qed

lemma data_key_dispose:
  assumes "data_inv st A" "data_ok (KDispose k b) A"
  shows "\<exists>st'. data_step (KDispose k b) st = Some st' \<and> data_inv st' (dview_step (KDispose k b) A)"
proof -
  have kb: "(k, b) \<in> set (kmap A)" "1 < refs A b" using assms(2) by simp_all
  have b: "b \<in> dom (cref A)" by (rule data_inv_live(1) [OF assms(1) kb(1)])
  obtain z where z: "keys st k = Some z" "kblob z = b"
    using tab_ok_get [OF data_invD(3) [OF assms(1)] kb(1)] by (auto simp: key_for_def)
  obtain y where y: "blobs st b = Some y" "\<not> block y" "brefcnt y \<noteq> 1" "\<forall>d \<in> dom (cref A). blob_ok (st\<lparr>blobs :=
      (blobs st)(b \<mapsto> y\<lparr>brefcnt := brefcnt y - 1\<rparr>)\<rparr>) (refs (dview_step (KDispose k b) A) d) d"
    by (rule blob_less [OF assms(1) b kb(2), of "dview_step (KDispose k b) A"])
      (use kb(1) in \<open>simp_all add: refs_def length_filter_remove1 [OF kb(1)]\<close>)
  have "snd ` set (kmap A) \<subseteq> dom (cref A)" using assms(1) by (simp add: data_inv_def)
  then have "snd ` set (remove1 (k, b) (kmap A)) \<subseteq> dom (cref A)"
    by (rule order_trans [OF image_mono [OF set_remove1_subset]])
  then show ?thesis
    using assms(1) y key_dispose_eq [OF z(1), unfolded z(2), OF y(1,2,3)]
      tab_ok_remove [OF data_invD(3) [OF assms(1)] kb(1)]
    by (simp add: data_inv_def)
qed


lemma data_version_create:
  assumes "data_inv st A" "data_ok (VCreate v t b) A"
  shows "\<exists>st'. data_step (VCreate v t b) st = Some st' \<and> data_inv st' (dview_step (VCreate v t b) A)"
proof -
  have b: "b \<in> dom (cref A)" "refs A b < 2 ^ 32 - 1" "v \<notin> fst ` set (vmap A)"
    and t: "t \<in> dom (tref A)" "the (tref A t) < 2 ^ 32 - 1"
    using assms(2) by simp_all
  obtain y where y: "blobs st b = Some y" "\<not> block y" "\<forall>d \<in> dom (cref A). blob_ok (st\<lparr>blobs :=
      (blobs st)(b \<mapsto> y\<lparr>brefcnt := brefcnt y + 1\<rparr>)\<rparr>) (refs (dview_step (VCreate v t b) A) d) d"
    by (rule blob_more [OF assms(1) b(1,2), of "dview_step (VCreate v t b) A"]) (simp_all add: refs_def)
  obtain u where u: "tmem (ts st) t = Some u" "\<not> locked u" "unat (refcnt u) = the (tref A t)"
    using data_invD(2) [OF assms(1) t(1)] by (auto simp: tx_ok_def)
  have "unat (refcnt u + 1) = the (tref A t) + 1" using unat_Suc32 u(3) t(2) by metis
  then have tx: "\<forall>d \<in> dom (tref A). tx_ok (st\<lparr>ts := (ts st)\<lparr>tmem := (tmem (ts st))(t \<mapsto> u\<lparr>refcnt := refcnt u + 1\<rparr>)\<rparr>\<rparr>)
      (the (((tref A)(t \<mapsto> the (tref A t) + 1)) d)) d"
    by (intro tx_ok_set [OF u(1,2), of _ "\<lambda>d. the (tref A d)"]) (use data_invD(2) [OF assms(1)] in auto)
  have "tab_ok version_for ((versions st)(v \<mapsto> \<lparr>creator = t, vblob = Some b, vnext = None, vprev = None\<rparr>))
      ((v, t, b) # vmap A)"
    by (rule tab_ok_add [OF data_invD(4) [OF assms(1)] b(3)]) (simp add: version_for_def)
  then show ?thesis using assms(1) b(1) t(1) y tx version_create_eq [OF y(1,2) u(1,2)]
    by (simp add: data_inv_def insert_absorb tx_ok_def blob_ok_def)
qed

lemma data_version_dispose:
  assumes "data_inv st A" "data_ok (VDispose v t b) A"
  shows "\<exists>st'. data_step (VDispose v t b) st = Some st' \<and> data_inv st' (dview_step (VDispose v t b) A)"
proof -
  have vb: "(v, t, b) \<in> set (vmap A)" "1 < refs A b" and t: "t \<in> dom (tref A)" "0 < the (tref A t)"
    using assms(2) by simp_all
  have b: "b \<in> dom (cref A)" by (rule data_inv_live(2) [OF assms(1) vb(1)])
  obtain z where z: "versions st v = Some z" "vblob z = Some b" "creator z = t"
    using tab_ok_get [OF data_invD(4) [OF assms(1)] vb(1)] by (auto simp: version_for_def)
  obtain y where y: "blobs st b = Some y" "\<not> block y" "brefcnt y \<noteq> 1" "\<forall>d \<in> dom (cref A). blob_ok (st\<lparr>blobs :=
      (blobs st)(b \<mapsto> y\<lparr>brefcnt := brefcnt y - 1\<rparr>)\<rparr>) (refs (dview_step (VDispose v t b) A) d) d"
    by (rule blob_less [OF assms(1) b vb(2), of "dview_step (VDispose v t b) A"])
      (use vb(1) in \<open>simp_all add: refs_def length_filter_remove1 [OF vb(1)]\<close>)
  obtain u where u: "tmem (ts st) t = Some u" "\<not> locked u" "unat (refcnt u) = the (tref A t)"
    using data_invD(2) [OF assms(1) t(1)] by (auto simp: tx_ok_def)
  have "refcnt u \<noteq> 0" using u(3) t(2) by auto
  then have "unat (refcnt u - 1) = the (tref A t) - 1" using unat_pred32 u(3) by metis
  then have tx: "\<forall>d \<in> dom (tref A). tx_ok (st\<lparr>ts := (ts st)\<lparr>tmem := (tmem (ts st))(t \<mapsto> u\<lparr>refcnt := refcnt u - 1\<rparr>)\<rparr>\<rparr>)
      (the (((tref A)(t \<mapsto> the (tref A t) - 1)) d)) d"
    by (intro tx_ok_set [OF u(1,2), of _ "\<lambda>d. the (tref A d)"]) (use data_invD(2) [OF assms(1)] in auto)
  have "snd ` snd ` set (vmap A) \<subseteq> dom (cref A)" using assms(1) by (simp add: data_inv_def)
  then have s: "snd ` snd ` set (remove1 (v, t, b) (vmap A)) \<subseteq> dom (cref A)"
    by (rule order_trans [OF image_mono [OF image_mono [OF set_remove1_subset]]])
  show ?thesis
    using assms(1) t(1) y(1,4) tx s version_dispose_eq [OF z y(1,2,3) u(1,2)]
      tab_ok_remove [OF data_invD(4) [OF assms(1)] vb(1)]
    by (simp add: data_inv_def insert_absorb tx_ok_def blob_ok_def)
qed

text \<open>The contract of data.c.\<close>

interpretation blob_refs: refinement data_inv data_step dview_step data_ok
proof
  fix c a x
  assume "data_inv c a" "data_ok x a"
  then show "\<exists>c'. data_step x c = Some c' \<and> data_inv c' (dview_step x a)"
    by (cases x) (metis data_ref data_unref data_key_create data_key_dispose data_version_create
      data_version_dispose)+
qed

text \<open>C20: From a state that matches an abstract view, every sequence of references, releases, keys and versions
  (disposals included) in which no last reference is released, keys are made only of blobs with terminated contents and counts
  stay below \<open>2 ^ 32\<close> runs without a fault, and afterwards the reference count of each blob is the number of its
  clients' references plus the number of keys and of versions that point to it. The clients keep their references:
  the header says that a key and a version inherit the caller's reference, but the code takes another one, so a
  client that follows the header leaves one reference too many. (The blobs that the server makes of
  payloads are not terminated.)\<close>

theorem data_refs_counted:
  assumes "data_inv st A" "all_pre data_ok dview_step ops A" "A' = fold dview_step ops A"
  shows "\<exists>st'. run_steps data_step ops st = Some st' \<and> data_inv st' A' \<and>
    (\<forall>b \<in> dom (cref A'). \<exists>x. blobs st' b = Some x \<and> unat (brefcnt x) =
      the (cref A' b) + length (filter (\<lambda>(k, b'). b' = b) (kmap A')) + length (filter (\<lambda>(v, t, b'). b' = b) (vmap A')))"
proof -
  obtain st' where st': "run_steps data_step ops st = Some st'" "data_inv st' A'"
    using blob_refs.run [OF assms(1,2)] assms(3) by blast
  have "\<exists>x. blobs st' b = Some x \<and> unat (brefcnt x) = refs A' b" if "b \<in> dom (cref A')" for b
    using data_invD(1) [OF st'(2) that] by (auto simp: blob_ok_def)
  then show ?thesis using st' by (simp add: refs_def)
qed

subsection \<open>Witnesses\<close>

text \<open>One blob with the string "ab", a transaction, no key and no version yet.\<close>

definition blob_ab :: blob where
  "blob_ab = \<lparr>block = False, brefcnt = 1, bsize = 3, content = 200, bprefix = 300\<rparr>"

definition data0 :: dstate where
  "data0 = \<lparr>chunks = [200 \<mapsto> [97, 98, 0], 300 \<mapsto> [97, 98, 0]], blobs = [100 \<mapsto> blob_ab],
     keys = Map.empty, versions = Map.empty,
     ts = \<lparr>tmem = [8 \<mapsto> \<lparr>tid = 1, refcnt = 1, status = TRANS_PENDING, depends = [], waitcnt = 0,
       locked = False, tnext = 0, tprev = 0\<rparr>], counter = 2\<rparr>\<rparr>"

definition view0 :: dview where
  "view0 = \<lparr>cref = [100 \<mapsto> 1], kmap = [], vmap = [], tref = [8 \<mapsto> 1], cstrs = {100}\<rparr>"

lemma data0_inv: "data_inv data0 view0"
  by (simp add: data_inv_def data0_def view0_def blob_ok_def tx_ok_def tab_ok_def refs_def blob_ab_def
      str_ok_def blob_text_def)

lemma blob_create_string_witness:
  "\<exists>st' s. blob_create (1, 2, 3) [97, 98, 0, 7] 3 data0 = Some (1, st') \<and> blob_text 1 st' = Some s \<and>
    length s = 3 \<and> c_text s = [97, 98] \<and> map_option brefcnt (blobs st' 1) = Some 1 \<and>
    blob_compare 1 1 st' = Some 0 \<and> blob_hash 1 st' = Some 199"
  using blob_create_string [of "[97, 98, 0, 7]" 3 2 3 1 data0] by simp

lemma blob_create_unterminated_witness:
  "\<exists>st'. blob_create (1, 2, 3) [97, 98, 0] 2 data0 = Some (1, st') \<and> blob_hash 1 st' = None \<and>
    blob_compare 1 1 st' = None \<and> key_create 4 1 st' = None"
  by (rule blob_create_unterminated) simp_all

definition data1 :: dstate where
  "data1 = data0\<lparr>keys := [500 \<mapsto> \<lparr>hash = 199, kblob = 100\<rparr>],
     versions := [600 \<mapsto> \<lparr>creator = 8, vblob = Some 100, vnext = None, vprev = None\<rparr>]\<rparr>"

lemma key_compare_iff_witness: "key_compare 500 500 data1 = Some 0"
proof -
  have "key_ok data1 500 [97, 98, 0]"
    by (simp add: key_ok_def data1_def data0_def blob_ab_def blob_text_def blob_hash_def c_strlen_def)
  from key_compare_iff [OF this this] show ?thesis by simp
qed

lemma key_reference_not_inherited_witness:
  "\<exists>st'. key_create 500 100 data0 = Some (500, st') \<and> key_dispose 500 st' = Some data0"
  by (rule key_reference_not_inherited [where x = blob_ab and s = "[97, 98, 0]"])
    (simp_all add: data0_def blob_ab_def)

lemma last_reference_faults_witness:
  "blob_unref 100 data1 = None \<and> key_dispose 500 data1 = None \<and> version_dispose 600 data1 = None"
  by (rule last_reference_faults [where x = blob_ab and y = "\<lparr>hash = 199, kblob = 100\<rparr>"
        and z = "\<lparr>creator = 8, vblob = Some 100, vnext = None, vprev = None\<rparr>"])
    (simp_all add: data1_def data0_def blob_ab_def)

definition sample_data_ops :: "data_op list" where
  "sample_data_ops = [KCreate 500 100, VCreate 600 8 100, BUnref 100, VDispose 600 8 100, BRef 100]"

lemma data_refs_counted_witness:
  "\<exists>st' x. run_steps data_step sample_data_ops data0 = Some st' \<and> blobs st' 100 = Some x \<and>
    unat (brefcnt x) = 2"
proof -
  let ?A = "fold dview_step sample_data_ops view0"
  have "cref ?A = [100 \<mapsto> 1]" "kmap ?A = [(500, 100)]" "vmap ?A = []"
    by (simp_all add: sample_data_ops_def view0_def fun_eq_iff)
  moreover have "all_pre data_ok dview_step sample_data_ops view0"
    by (simp add: sample_data_ops_def view0_def refs_def)
  ultimately show ?thesis
    using data_refs_counted [OF data0_inv _ refl, of sample_data_ops] by auto
qed

end
