(* ===== verification/Xacto_Registry.thy ===== *)
theory Xacto_Registry
  imports C_Prelude
begin

text \<open>
  The client registry of hw5/src/client_registry.c: a table of 1024 file descriptors guarded by
  semaphores. First the operations as one thread runs them alone (a wait on a semaphore that is
  zero never returns: \<^term>\<open>None\<close>), then all interleavings of register and unregister calls as a
  step relation, one step per semaphore operation and one for each scan of the table under the
  mutex.
\<close>

subsection \<open>The operations\<close>

record creg =
  fdbuf :: "u32 list"
  mutex :: nat
  slots :: nat
  items :: nat
  lock :: nat

definition sem_wait :: "nat \<Rightarrow> nat option" where
  "sem_wait n = (if n = 0 then None else Some (n - 1))"

definition creg_init :: creg where
  "creg_init = \<lparr>fdbuf = replicate 1024 (- 1), mutex = 1, slots = 1024, items = 0, lock = 1\<rparr>"

text \<open>The scan for the first entry that is \<open>x\<close>, which becomes \<open>y\<close>; the flag tells whether there
  is one.\<close>

fun replace_first :: "u32 \<Rightarrow> u32 \<Rightarrow> u32 list \<Rightarrow> u32 list \<times> bool" where
  "replace_first x y [] = ([], False)"
| "replace_first x y (z # zs) =
     (if z = x then (y # zs, True) else (let (r, f) = replace_first x y zs in (z # r, f)))"

definition creg_register :: "u32 \<Rightarrow> creg \<Rightarrow> creg option" where
  "creg_register fd cr = do {
     l \<leftarrow> sem_wait (lock cr);
     let cr = cr\<lparr>lock := l\<rparr>;
     s \<leftarrow> sem_wait (slots cr);
     let cr = cr\<lparr>slots := s\<rparr>;
     m \<leftarrow> sem_wait (mutex cr);
     let cr = cr\<lparr>mutex := m\<rparr>;
     let cr = cr\<lparr>fdbuf := fst (replace_first (- 1) fd (fdbuf cr))\<rparr>;
     let cr = cr\<lparr>mutex := mutex cr + 1\<rparr>;
     let cr = cr\<lparr>items := items cr + 1\<rparr>;
     Some (cr\<lparr>lock := lock cr + 1\<rparr>)
   }"

definition creg_unregister :: "u32 \<Rightarrow> creg \<Rightarrow> creg option" where
  "creg_unregister fd cr = do {
     n \<leftarrow> sem_wait (items cr);
     let cr = cr\<lparr>items := n\<rparr>;
     m \<leftarrow> sem_wait (mutex cr);
     let cr = cr\<lparr>mutex := m\<rparr>;
     let (b, flag) = replace_first fd (- 1) (fdbuf cr);
     let cr = cr\<lparr>fdbuf := b\<rparr>;
     if \<not> flag then
       (let cr = cr\<lparr>items := items cr + 1\<rparr> in Some (cr\<lparr>mutex := mutex cr + 1\<rparr>))
     else
       (let cr = cr\<lparr>mutex := mutex cr + 1\<rparr> in Some (cr\<lparr>slots := slots cr + 1\<rparr>))
   }"

text \<open>The busy-waiting scan reads the table without the mutex: \<open>obs k i\<close> is what the \<open>k\<close>-th read,
  of entry \<open>i\<close>, returns. The result is the number of reads.\<close>

partial_function (option) wait_loop :: "(nat \<Rightarrow> nat \<Rightarrow> u32) \<Rightarrow> nat \<Rightarrow> bool \<Rightarrow> nat \<Rightarrow> nat option" where
  "wait_loop obs i flag k =
     (if i \<le> 1023 then
        let flag = (if i = 0 then False else flag);
            flag = (if obs k i \<noteq> - 1 then True else flag)
        in if i = 1023 then (if \<not> flag then Some (k + 1) else wait_loop obs 0 flag (k + 1))
           else wait_loop obs (i + 1) flag (k + 1)
      else Some k)"

definition creg_wait_for_empty :: "(nat \<Rightarrow> nat \<Rightarrow> u32) \<Rightarrow> creg \<Rightarrow> creg option" where
  "creg_wait_for_empty obs cr = do {
     l \<leftarrow> sem_wait (lock cr);
     _ \<leftarrow> wait_loop obs 0 False 0;
     Some (cr\<lparr>lock := l\<rparr>)
   }"

text \<open>The result lists the descriptors that are shut down, in order.\<close>

definition creg_shutdown_all :: "creg \<Rightarrow> (u32 list \<times> creg) option" where
  "creg_shutdown_all cr = do {
     m \<leftarrow> sem_wait (mutex cr);
     let cr = cr\<lparr>mutex := m\<rparr>;
     let ds = filter (\<lambda>fd. fd \<noteq> - 1) (fdbuf cr);
     Some (ds, cr\<lparr>mutex := mutex cr + 1\<rparr>)
   }"

subsection \<open>Interleavings\<close>

text \<open>
  Where a thread is in a call. Register: waiting for the lock, a slot, the mutex; scanning; and
  about to post the mutex, the items, the lock. Unregister: waiting for an item, the mutex;
  scanning; then about to post the mutex and the slots (found) or the items and the mutex (not
  found).
\<close>

datatype pc = Idle
  | RLock u32 | RSlot u32 | RMutex u32 | RScan u32 | RPostMutex | RPostItems | RPostLock
  | UItem u32 | UMutex u32 | UScan u32 | UPostMutex | UPostSlots | UBackItems | UBackMutex

record sys =
  reg :: creg
  pcs :: "pc list"

definition goto :: "nat \<Rightarrow> pc \<Rightarrow> creg \<Rightarrow> sys \<Rightarrow> sys" where
  "goto i p cr s = \<lparr>reg = cr, pcs = (pcs s)[i := p]\<rparr>"

text \<open>The next step of a thread in a call: the state after it, or \<^term>\<open>None\<close> when it blocks.\<close>

fun pc_step :: "pc \<Rightarrow> creg \<Rightarrow> (pc \<times> creg) option" where
  "pc_step Idle cr = None"
| "pc_step (RLock fd) cr = do { n \<leftarrow> sem_wait (lock cr); Some (RSlot fd, cr\<lparr>lock := n\<rparr>) }"
| "pc_step (RSlot fd) cr = do { n \<leftarrow> sem_wait (slots cr); Some (RMutex fd, cr\<lparr>slots := n\<rparr>) }"
| "pc_step (RMutex fd) cr = do { n \<leftarrow> sem_wait (mutex cr); Some (RScan fd, cr\<lparr>mutex := n\<rparr>) }"
| "pc_step (RScan fd) cr = Some (RPostMutex, cr\<lparr>fdbuf := fst (replace_first (- 1) fd (fdbuf cr))\<rparr>)"
| "pc_step RPostMutex cr = Some (RPostItems, cr\<lparr>mutex := mutex cr + 1\<rparr>)"
| "pc_step RPostItems cr = Some (RPostLock, cr\<lparr>items := items cr + 1\<rparr>)"
| "pc_step RPostLock cr = Some (Idle, cr\<lparr>lock := lock cr + 1\<rparr>)"
| "pc_step (UItem fd) cr = do { n \<leftarrow> sem_wait (items cr); Some (UMutex fd, cr\<lparr>items := n\<rparr>) }"
| "pc_step (UMutex fd) cr = do { n \<leftarrow> sem_wait (mutex cr); Some (UScan fd, cr\<lparr>mutex := n\<rparr>) }"
| "pc_step (UScan fd) cr = (let (b, flag) = replace_first fd (- 1) (fdbuf cr) in
     Some (if flag then UPostMutex else UBackItems, cr\<lparr>fdbuf := b\<rparr>))"
| "pc_step UPostMutex cr = Some (UPostSlots, cr\<lparr>mutex := mutex cr + 1\<rparr>)"
| "pc_step UPostSlots cr = Some (Idle, cr\<lparr>slots := slots cr + 1\<rparr>)"
| "pc_step UBackItems cr = Some (UBackMutex, cr\<lparr>items := items cr + 1\<rparr>)"
| "pc_step UBackMutex cr = Some (Idle, cr\<lparr>mutex := mutex cr + 1\<rparr>)"

text \<open>Idle threads may call register and unregister with any descriptor other than -1.\<close>

inductive creg_step :: "sys \<Rightarrow> sys \<Rightarrow> bool" where
  call_register: "i < length (pcs s) \<Longrightarrow> pcs s ! i = Idle \<Longrightarrow> fd \<noteq> - 1 \<Longrightarrow>
    creg_step s (goto i (RLock fd) (reg s) s)"
| call_unregister: "i < length (pcs s) \<Longrightarrow> pcs s ! i = Idle \<Longrightarrow> fd \<noteq> - 1 \<Longrightarrow>
    creg_step s (goto i (UItem fd) (reg s) s)"
| run: "i < length (pcs s) \<Longrightarrow> pc_step (pcs s ! i) (reg s) = Some (p, cr) \<Longrightarrow>
    creg_step s (goto i p cr s)"

inductive creg_reachable :: "nat \<Rightarrow> sys \<Rightarrow> bool" for n where
  start: "creg_reachable n \<lparr>reg = creg_init, pcs = replicate n Idle\<rparr>"
| step: "creg_reachable n s \<Longrightarrow> creg_step s s' \<Longrightarrow> creg_reachable n s'"

inductive_cases creg_stepE: "creg_step s s'"

subsection \<open>One call alone\<close>

text \<open>A call run to its end without interference.\<close>

fun run_alone :: "nat \<Rightarrow> pc \<Rightarrow> creg \<Rightarrow> creg option" where
  "run_alone n Idle cr = Some cr"
| "run_alone 0 p cr = None"
| "run_alone (Suc n) p cr = do { (p, cr) \<leftarrow> pc_step p cr; run_alone n p cr }"

lemma register_alone: "run_alone 7 (RLock fd) cr = creg_register fd cr"
  by (cases "sem_wait (lock cr)"; cases "sem_wait (slots cr)"; cases "sem_wait (mutex cr)")
    (simp_all add: creg_register_def numeral_eq_Suc Let_def)

lemma unregister_alone: "run_alone 5 (UItem fd) cr = creg_unregister fd cr"
  by (cases "sem_wait (items cr)"; cases "sem_wait (mutex cr)"; cases "replace_first fd (- 1) (fdbuf cr)")
    (auto simp add: creg_unregister_def numeral_eq_Suc Let_def)

subsection \<open>The table\<close>

definition occupied :: "u32 list \<Rightarrow> nat" where
  "occupied b = length (filter (\<lambda>fd. fd \<noteq> - 1) b)"

lemma replace_first_length [simp]: "length (fst (replace_first x y b)) = length b"
  by (induction b) (auto simp: case_prod_unfold Let_def)

lemma replace_first_found: "snd (replace_first x y b) \<longleftrightarrow> x \<in> set b"
  by (induction b) (auto simp: case_prod_unfold Let_def)

lemma replace_first_in: "x \<in> set b \<Longrightarrow> y \<in> set (fst (replace_first x y b))"
  by (induction b) (auto simp: case_prod_unfold Let_def)

lemma replace_first_absent: "x \<notin> set b \<Longrightarrow> replace_first x y b = (b, False)"
  by (induction b) auto

lemma occupied_store:
  "- 1 \<in> set b \<Longrightarrow> fd \<noteq> - 1 \<Longrightarrow> occupied (fst (replace_first (- 1) fd b)) = Suc (occupied b)"
  by (induction b) (auto simp: occupied_def case_prod_unfold Let_def)

lemma occupied_clear:
  "fd \<in> set b \<Longrightarrow> fd \<noteq> - 1 \<Longrightarrow> Suc (occupied (fst (replace_first fd (- 1) b))) = occupied b"
  by (induction b) (auto simp: occupied_def case_prod_unfold Let_def)

lemma occupied_less: "occupied b < length b \<longleftrightarrow> - 1 \<in> set b"
proof -
  have "occupied b + length (filter (\<lambda>fd. fd = - 1) b) = length b"
    using sum_length_filter_compl [of "\<lambda>fd. fd \<noteq> - 1" b] by (simp add: occupied_def)
  then have "occupied b < length b \<longleftrightarrow> filter (\<lambda>fd. fd = - 1) b \<noteq> []" by (metis add.right_neutral add_less_cancel_left length_greater_0_conv)
  then show ?thesis by (auto simp: filter_empty_conv)
qed

lemma replace_first_back:
  "fd \<noteq> - 1 \<Longrightarrow> fd \<notin> set b \<Longrightarrow> - 1 \<in> set b \<Longrightarrow>
   replace_first fd (- 1) (fst (replace_first (- 1) fd b)) = (b, True)"
  by (induction b) (auto simp: case_prod_unfold Let_def)

lemma unregister_restores:
  assumes "creg_register fd cr = Some cr'" "fd \<noteq> - 1" "fd \<notin> set (fdbuf cr)" "- 1 \<in> set (fdbuf cr)"
  shows "creg_unregister fd cr' = Some cr"
  using assms(1) replace_first_back [OF assms(2-4)]
  by (auto simp: creg_register_def creg_unregister_def sem_wait_def Let_def split: if_splits bind_splits)

text \<open>Unregistering a descriptor that has just been registered restores the registry, semaphores
  included.\<close>

theorem register_unregister:
  assumes "creg_register fd cr = Some cr'" "fd \<noteq> - 1" "fd \<notin> set (fdbuf cr)" "- 1 \<in> set (fdbuf cr)"
  shows "creg_unregister fd cr' = Some cr"
  using assms by (rule unregister_restores)

subsection \<open>The invariant of all interleavings\<close>

definition count_pc :: "(pc \<Rightarrow> bool) \<Rightarrow> sys \<Rightarrow> nat" where
  "count_pc P s = length (filter P (pcs s))"

fun in_mutex :: "pc \<Rightarrow> bool" where
  "in_mutex (RScan _) = True"
| "in_mutex RPostMutex = True"
| "in_mutex (UScan _) = True"
| "in_mutex UPostMutex = True"
| "in_mutex UBackItems = True"
| "in_mutex UBackMutex = True"
| "in_mutex _ = False"

fun has_lock :: "pc \<Rightarrow> bool" where
  "has_lock (RSlot _) = True"
| "has_lock (RMutex _) = True"
| "has_lock (RScan _) = True"
| "has_lock RPostMutex = True"
| "has_lock RPostItems = True"
| "has_lock RPostLock = True"
| "has_lock _ = False"

text \<open>A slot taken but not used yet, or free but not given back yet; an item stored but not posted
  yet, or claimed but not removed yet.\<close>

fun owes_slot :: "pc \<Rightarrow> bool" where
  "owes_slot (RMutex _) = True"
| "owes_slot (RScan _) = True"
| "owes_slot UPostMutex = True"
| "owes_slot UPostSlots = True"
| "owes_slot _ = False"

fun owes_item :: "pc \<Rightarrow> bool" where
  "owes_item RPostMutex = True"
| "owes_item RPostItems = True"
| "owes_item (UMutex _) = True"
| "owes_item (UScan _) = True"
| "owes_item UBackItems = True"
| "owes_item _ = False"

fun fd_valid :: "pc \<Rightarrow> bool" where
  "fd_valid (RLock fd) = (fd \<noteq> - 1)"
| "fd_valid (RSlot fd) = (fd \<noteq> - 1)"
| "fd_valid (RMutex fd) = (fd \<noteq> - 1)"
| "fd_valid (RScan fd) = (fd \<noteq> - 1)"
| "fd_valid (UItem fd) = (fd \<noteq> - 1)"
| "fd_valid (UMutex fd) = (fd \<noteq> - 1)"
| "fd_valid (UScan fd) = (fd \<noteq> - 1)"
| "fd_valid _ = True"

definition creg_inv :: "sys \<Rightarrow> bool" where
  "creg_inv s \<longleftrightarrow> length (fdbuf (reg s)) = 1024 \<and> list_all fd_valid (pcs s) \<and>
     mutex (reg s) + count_pc in_mutex s = 1 \<and> lock (reg s) + count_pc has_lock s = 1 \<and>
     slots (reg s) + count_pc owes_slot s + occupied (fdbuf (reg s)) = 1024 \<and>
     items (reg s) + count_pc owes_item s = occupied (fdbuf (reg s))"

lemma length_filter_update:
  "i < length xs \<Longrightarrow> length (filter P (xs[i := p])) + of_bool (P (xs ! i)) =
    length (filter P xs) + of_bool (P p)"
proof (induction xs arbitrary: i)
  case (Cons x xs)
  then show ?case by (cases i) (auto simp: of_bool_def split: if_splits)
qed simp

lemma count_pc_goto:
  "i < length (pcs s) \<Longrightarrow> count_pc P (goto i p cr s) + of_bool (P (pcs s ! i)) =
    count_pc P s + of_bool (P p)"
  by (simp add: count_pc_def goto_def length_filter_update)

lemma count_pc_pos: "i < length (pcs s) \<Longrightarrow> P (pcs s ! i) \<Longrightarrow> 0 < count_pc P s"
  by (auto simp: count_pc_def filter_empty_conv)


lemma inv_goto:
  assumes "creg_inv s" "i < length (pcs s)" "fd_valid p" "length (fdbuf cr) = 1024"
    "mutex cr + of_bool (in_mutex p) = mutex (reg s) + of_bool (in_mutex (pcs s ! i))"
    "lock cr + of_bool (has_lock p) = lock (reg s) + of_bool (has_lock (pcs s ! i))"
    "slots cr + of_bool (owes_slot p) + occupied (fdbuf cr) =
       slots (reg s) + of_bool (owes_slot (pcs s ! i)) + occupied (fdbuf (reg s))"
    "items cr + of_bool (owes_item p) + occupied (fdbuf (reg s)) =
       items (reg s) + of_bool (owes_item (pcs s ! i)) + occupied (fdbuf cr)"
  shows "creg_inv (goto i p cr s)"
proof -
  have "list_all fd_valid ((pcs s)[i := p])"
    using assms(1-3) by (auto simp: creg_inv_def list_all_length nth_list_update)
  then show ?thesis
    using assms count_pc_goto [OF assms(2), of in_mutex p cr] count_pc_goto [OF assms(2), of has_lock p cr]
      count_pc_goto [OF assms(2), of owes_slot p cr] count_pc_goto [OF assms(2), of owes_item p cr]
    unfolding creg_inv_def by (simp add: goto_def)
qed

lemma scan_free_slot:
  assumes "creg_inv s" "i < length (pcs s)" "pcs s ! i = RScan fd"
  shows "- 1 \<in> set (fdbuf (reg s))"
proof -
  have "0 < count_pc owes_slot s" by (rule count_pc_pos [OF assms(2)]) (simp add: assms(3))
  then have "occupied (fdbuf (reg s)) < length (fdbuf (reg s))" using assms(1) by (simp add: creg_inv_def)
  then show ?thesis by (simp add: occupied_less)
qed

lemma creg_step_inv: "creg_step s s' \<Longrightarrow> creg_inv s \<Longrightarrow> creg_inv s'"
proof (induction rule: creg_step.induct)
  case (call_register i s fd)
  then show ?case by (intro inv_goto) (simp_all add: creg_inv_def)
next
  case (call_unregister i s fd)
  then show ?case by (intro inv_goto) (simp_all add: creg_inv_def)
next
  case (run i s p cr)
  have v: "fd_valid (pcs s ! i)" and l: "length (fdbuf (reg s)) = 1024"
    using run by (auto simp: creg_inv_def list_all_length)
  show ?case
  proof (cases "pcs s ! i")
    case (RScan fd)
    then show ?thesis using run v l scan_free_slot [OF run.prems run.hyps(1)]
      by (intro inv_goto) (auto simp: occupied_store)
  next
    case (UScan fd)
    obtain b f where bf: "replace_first fd (- 1) (fdbuf (reg s)) = (b, f)" by fastforce
    have b: "b = fst (replace_first fd (- 1) (fdbuf (reg s)))" "f \<longleftrightarrow> fd \<in> set (fdbuf (reg s))"
      using bf replace_first_found [of fd "- 1" "fdbuf (reg s)"] by simp_all
    show ?thesis
    proof (cases f)
      case True
      have "Suc (occupied b) = occupied (fdbuf (reg s))" "length b = 1024"
        using occupied_clear [of fd "fdbuf (reg s)"] b True v UScan l by simp_all
      then show ?thesis using run UScan v l bf True by (intro inv_goto) auto
    next
      case False
      then have "b = fdbuf (reg s)" using b bf replace_first_absent by (metis prod.inject)
      then show ?thesis using run UScan v l bf False by (intro inv_goto) auto
    qed
  next
    case Idle
    then show ?thesis using run by simp
  next
    case (RLock fd)
    then show ?thesis using run v l by (intro inv_goto) (auto simp: sem_wait_def split: if_splits)
  next
    case (RSlot fd)
    then show ?thesis using run v l by (intro inv_goto) (auto simp: sem_wait_def split: if_splits)
  next
    case (RMutex fd)
    then show ?thesis using run v l by (intro inv_goto) (auto simp: sem_wait_def split: if_splits)
  next
    case RPostMutex
    then show ?thesis using run v l by (intro inv_goto) (auto simp: sem_wait_def split: if_splits)
  next
    case RPostItems
    then show ?thesis using run v l by (intro inv_goto) (auto simp: sem_wait_def split: if_splits)
  next
    case RPostLock
    then show ?thesis using run v l by (intro inv_goto) (auto simp: sem_wait_def split: if_splits)
  next
    case (UItem fd)
    then show ?thesis using run v l by (intro inv_goto) (auto simp: sem_wait_def split: if_splits)
  next
    case (UMutex fd)
    then show ?thesis using run v l by (intro inv_goto) (auto simp: sem_wait_def split: if_splits)
  next
    case UPostMutex
    then show ?thesis using run v l by (intro inv_goto) (auto simp: sem_wait_def split: if_splits)
  next
    case UPostSlots
    then show ?thesis using run v l by (intro inv_goto) (auto simp: sem_wait_def split: if_splits)
  next
    case UBackItems
    then show ?thesis using run v l by (intro inv_goto) (auto simp: sem_wait_def split: if_splits)
  next
    case UBackMutex
    then show ?thesis using run v l by (intro inv_goto) (auto simp: sem_wait_def split: if_splits)
  qed
qed


lemma creg_reachable_inv: "creg_reachable n s \<Longrightarrow> creg_inv s \<and> length (pcs s) = n"
proof (induction rule: creg_reachable.induct)
  case start
  then show ?case
    by (simp add: creg_inv_def creg_init_def count_pc_def occupied_def list_all_iff filter_replicate)
next
  case (step s s')
  then show ?case using creg_step_inv by (auto elim!: creg_stepE simp: goto_def)
qed

text \<open>C18: However the calls of any number of threads interleave, at most one thread is in the
  critical section, the semaphores account for every entry of the table, and a thread that
  registers a descriptor finds a free entry: no registration is lost.\<close>

theorem registry_interleavings:
  assumes "creg_reachable n s"
  shows "count_pc in_mutex s \<le> 1 \<and>
    slots (reg s) + count_pc owes_slot s + occupied (fdbuf (reg s)) = 1024 \<and>
    items (reg s) + count_pc owes_item s = occupied (fdbuf (reg s)) \<and>
    (\<forall>i fd. i < n \<and> pcs s ! i = RScan fd \<longrightarrow>
      (\<exists>s'. creg_step s s' \<and> fd \<in> set (fdbuf (reg s')) \<and>
        occupied (fdbuf (reg s')) = occupied (fdbuf (reg s)) + 1))"
proof (intro conjI allI impI)
  have i: "creg_inv s" "length (pcs s) = n" using creg_reachable_inv [OF assms] by simp_all
  show "count_pc in_mutex s \<le> 1" "slots (reg s) + count_pc owes_slot s + occupied (fdbuf (reg s)) = 1024"
    "items (reg s) + count_pc owes_item s = occupied (fdbuf (reg s))"
    using i(1) by (simp_all add: creg_inv_def)
  fix j fd assume j: "j < n \<and> pcs s ! j = RScan fd"
  then have f: "- 1 \<in> set (fdbuf (reg s))" using scan_free_slot [OF i(1), of j fd] i(2) by simp
  have v: "fd \<noteq> - 1" using i j by (force simp: creg_inv_def list_all_length)
  have "creg_step s (goto j RPostMutex ((reg s)\<lparr>fdbuf := fst (replace_first (- 1) fd (fdbuf (reg s)))\<rparr>) s)"
    using j i(2) by (intro creg_step.run) simp_all
  then show "\<exists>s'. creg_step s s' \<and> fd \<in> set (fdbuf (reg s')) \<and>
        occupied (fdbuf (reg s')) = occupied (fdbuf (reg s)) + 1"
    by (intro exI [of _ "goto j RPostMutex ((reg s)\<lparr>fdbuf := fst (replace_first (- 1) fd (fdbuf (reg s)))\<rparr>) s"])
      (simp add: goto_def replace_first_in [OF f] occupied_store [OF f v])
qed

subsection \<open>Waiting for the table to become empty\<close>

lemma wait_loop_read:
  "i < 1023 \<Longrightarrow> wait_loop obs i flag k = wait_loop obs (i + 1) ((i \<noteq> 0 \<and> flag) \<or> obs k i \<noteq> - 1) (k + 1)"
  "wait_loop obs 1023 flag k =
     (if flag \<or> obs k 1023 \<noteq> - 1 then wait_loop obs 0 True (k + 1) else Some (k + 1))"
  by (subst wait_loop.simps; simp)+

lemma wait_loop_0: "wait_loop obs 0 flag k = wait_loop obs 0 False k"
  by (subst (1 2) wait_loop.simps) simp

text \<open>The \<open>p\<close>-th pass of the loop over the table makes the reads from \<open>1024 * p\<close> on.\<close>

definition empty_pass :: "(nat \<Rightarrow> nat \<Rightarrow> u32) \<Rightarrow> nat \<Rightarrow> bool" where
  "empty_pass obs p \<longleftrightarrow> (\<forall>i \<le> 1023. obs (1024 * p + i) i = - 1)"

lemma wait_loop_rest:
  "i \<le> 1023 \<Longrightarrow> wait_loop obs i flag k =
    (if i \<noteq> 0 \<and> flag \<or> (\<exists>j. i \<le> j \<and> j \<le> 1023 \<and> obs (k + j - i) j \<noteq> - 1)
     then wait_loop obs 0 False (k + 1024 - i) else Some (k + 1024 - i))"
proof (induction "1023 - i" arbitrary: i k flag)
  case 0
  then have "i = 1023" by simp
  then show ?case using wait_loop_read(2) [of obs flag k] wait_loop_0 [of obs True "k + 1"] by auto
next
  case (Suc n)
  then have i: "i < 1023" by simp
  let ?flag = "i \<noteq> 0 \<and> flag \<or> obs k i \<noteq> - 1"
  have "(\<exists>j. i \<le> j \<and> j \<le> 1023 \<and> obs (k + j - i) j \<noteq> - 1) \<longleftrightarrow>
      obs k i \<noteq> - 1 \<or> (\<exists>j. i + 1 \<le> j \<and> j \<le> 1023 \<and> obs (k + 1 + j - (i + 1)) j \<noteq> - 1)"
    (is "?L \<longleftrightarrow> ?R")
  proof
    assume ?L
    then obtain j where "i \<le> j" "j \<le> 1023" "obs (k + j - i) j \<noteq> - 1" by blast
    then show ?R by (cases "j = i") (auto intro!: exI [of _ j])
  next
    assume ?R
    then show ?L
    proof
      assume "obs k i \<noteq> - 1"
      then show ?L using i by (intro exI [of _ i]) simp
    qed (auto intro: Suc_leD)
  qed
  then have c: "(i + 1 \<noteq> 0 \<and> ?flag \<or> (\<exists>j. i + 1 \<le> j \<and> j \<le> 1023 \<and> obs (k + 1 + j - (i + 1)) j \<noteq> - 1)) \<longleftrightarrow>
      (i \<noteq> 0 \<and> flag \<or> (\<exists>j. i \<le> j \<and> j \<le> 1023 \<and> obs (k + j - i) j \<noteq> - 1))"
    by (metis Suc_eq_plus1 nat.distinct(1))
  have "wait_loop obs (i + 1) ?flag (k + 1) =
    (if i + 1 \<noteq> 0 \<and> ?flag \<or> (\<exists>j. i + 1 \<le> j \<and> j \<le> 1023 \<and> obs (k + 1 + j - (i + 1)) j \<noteq> - 1)
     then wait_loop obs 0 False (k + 1 + 1024 - (i + 1)) else Some (k + 1 + 1024 - (i + 1)))"
    by (rule Suc.hyps(1)) (use Suc.hyps(2) i in auto)
  moreover have "k + 1 + 1024 - (i + 1) = k + 1024 - i" by simp
  ultimately show ?case unfolding wait_loop_read(1) [OF i] c by (simp only:)
qed

lemma wait_loop_pass:
  "wait_loop obs 0 False (1024 * p) =
    (if empty_pass obs p then Some (1024 * (p + 1)) else wait_loop obs 0 False (1024 * (p + 1)))"
  using wait_loop_rest [of 0 obs False "1024 * p"] by (auto simp: empty_pass_def add.commute)

lemma wait_loop_passes:
  "\<forall>q < p. \<not> empty_pass obs q \<Longrightarrow> wait_loop obs 0 False 0 = wait_loop obs 0 False (1024 * p)"
proof (induction p)
  case (Suc p)
  then show ?case using wait_loop_pass [of obs p] by simp
qed simp

text \<open>A read of the loop belongs to a pass: what the pass has read before is empty, or the flag is set.\<close>

lemma wait_loop_seen:
  assumes "wait_loop obs i flag k = Some r"
  shows "i \<le> 1023 \<longrightarrow> k mod 1024 = i \<longrightarrow> i = 0 \<or> flag \<or> (\<forall>j < i. obs (k - i + j) j = - 1) \<longrightarrow> (\<exists>p. empty_pass obs p)"
  using assms
proof (induction rule: wait_loop.raw_induct [rotated, consumes 1, case_names step])
  case (step loop obs i flag k r)
  show ?case
  proof (intro impI)
    assume i: "i \<le> 1023" "k mod 1024 = i" and pre: "i = 0 \<or> flag \<or> (\<forall>j < i. obs (k - i + j) j = - 1)"
    let ?flag = "(i \<noteq> 0 \<and> flag) \<or> obs k i \<noteq> - 1"
    have k: "k = 1024 * (k div 1024) + i" using i(2) by (metis mult_div_mod_eq)
    have seen: "\<forall>j < Suc i. obs (k - i + j) j = - 1" if "\<not> ?flag"
      using that pre k by (auto simp: less_Suc_eq)
    consider "i = 1023" "\<not> ?flag" | "i = 1023" "?flag" | "i < 1023" using i by linarith
    then show "\<exists>p. empty_pass obs p"
    proof cases
      case 1
      have "k - i = 1024 * (k div 1024)" using k by linarith
      then have "empty_pass obs (k div 1024)"
        using seen [OF 1(2)] 1(1) by (simp add: empty_pass_def less_Suc_eq_le)
      then show ?thesis ..
    next
      case 2
      then have "loop obs 0 True (k + 1) = Some r" using step.hyps by (simp split: if_splits)
      then show ?thesis using step.IH 2(1) i(2) by (force simp: mod_Suc)
    next
      case 3
      then have "loop obs (i + 1) ?flag (k + 1) = Some r"
        using step.hyps by (simp split: if_splits)
      from step.IH [OF this] show ?thesis using 3 seen i(2) by (auto simp: mod_Suc)
    qed
  qed
qed

lemma wait_loop_result:
  "wait_loop obs 0 False 0 =
    (if \<exists>p. empty_pass obs p then Some (1024 * ((LEAST p. empty_pass obs p) + 1)) else None)"
proof (cases "\<exists>p. empty_pass obs p")
  case True
  let ?p = "LEAST p. empty_pass obs p"
  have "empty_pass obs ?p" by (rule LeastI_ex [OF True])
  moreover have "\<forall>q < ?p. \<not> empty_pass obs q" using not_less_Least by blast
  ultimately have "wait_loop obs 0 False 0 = Some (1024 * (?p + 1))"
    using wait_loop_passes [of ?p obs] wait_loop_pass [of obs ?p] by (simp only: if_True)
  then show ?thesis using True by (simp only: if_True)
next
  case False
  then show ?thesis using wait_loop_seen [of obs 0 False 0] by (cases "wait_loop obs 0 False 0") auto
qed

lemma wait_loop_returns:
  assumes "\<forall>k \<ge> K. \<forall>i \<le> 1023. obs k i = - 1"
  shows "\<exists>r. wait_loop obs 0 False 0 = Some r"
proof -
  have "empty_pass obs K" using assms by (simp add: empty_pass_def)
  then show ?thesis using wait_loop_result [of obs] by auto
qed

text \<open>C23: \<open>creg_wait_for_empty\<close>, called while no thread holds the lock, returns exactly when one of its
  passes reads every entry of the table as empty, and then it has stopped after the first such pass (1024 reads for each).
  The table is as it was, and the lock is kept: no client can register any more. When every pass reads some entry in
  use, it never returns.\<close>

theorem wait_for_empty_returns:
  assumes "lock cr = 1"
  shows "(creg_wait_for_empty obs cr = None \<longleftrightarrow> (\<forall>p. \<exists>i \<le> 1023. obs (1024 * p + i) i \<noteq> - 1)) \<and>
    (\<forall>cr'. creg_wait_for_empty obs cr = Some cr' \<longrightarrow> cr' = cr\<lparr>lock := 0\<rparr> \<and> creg_register fd cr' = None) \<and>
    (\<forall>r. wait_loop obs 0 False 0 = Some r \<longrightarrow>
      (\<exists>p. r = 1024 * (p + 1) \<and> (\<forall>i \<le> 1023. obs (1024 * p + i) i = - 1) \<and>
        (\<forall>q < p. \<exists>i \<le> 1023. obs (1024 * q + i) i \<noteq> - 1)))"
proof (intro conjI allI impI)
  show "creg_wait_for_empty obs cr = None \<longleftrightarrow> (\<forall>p. \<exists>i \<le> 1023. obs (1024 * p + i) i \<noteq> - 1)"
    using assms by (simp add: creg_wait_for_empty_def sem_wait_def wait_loop_result empty_pass_def)
  fix cr' assume "creg_wait_for_empty obs cr = Some cr'"
  then show "cr' = cr\<lparr>lock := 0\<rparr>" using assms
    by (auto simp: creg_wait_for_empty_def sem_wait_def bind_eq_Some_conv)
  then show "creg_register fd cr' = None" by (simp add: creg_register_def sem_wait_def)
next
  fix r assume r: "wait_loop obs 0 False 0 = Some r"
  let ?p = "LEAST p. empty_pass obs p"
  have "\<exists>p. empty_pass obs p" "r = 1024 * (?p + 1)" using r by (auto simp: wait_loop_result split: if_splits)
  then have "r = 1024 * (?p + 1) \<and> empty_pass obs ?p \<and> (\<forall>q < ?p. \<not> empty_pass obs q)"
    using LeastI_ex [of "empty_pass obs"] not_less_Least [of _ "empty_pass obs"] by blast
  then show "\<exists>p. r = 1024 * (p + 1) \<and> (\<forall>i \<le> 1023. obs (1024 * p + i) i = - 1) \<and>
      (\<forall>q < p. \<exists>i \<le> 1023. obs (1024 * q + i) i \<noteq> - 1)"
    unfolding empty_pass_def by blast
qed

subsection \<open>Witnesses\<close>

lemma register_unregister_witness:
  "\<exists>cr'. creg_register 7 creg_init = Some cr' \<and> creg_unregister 7 cr' = Some creg_init"
proof -
  obtain cr' where "creg_register 7 creg_init = Some cr'"
    by (simp add: creg_register_def creg_init_def sem_wait_def Let_def)
  then show ?thesis using register_unregister [of 7 creg_init cr'] by (simp add: creg_init_def)
qed

definition scanning :: sys where
  "scanning = \<lparr>reg = creg_init\<lparr>lock := 0, slots := 1023, mutex := 0\<rparr>, pcs = [RScan 7, Idle]\<rparr>"

lemma scanning_reachable: "creg_reachable 2 scanning"
proof -
  let ?s = "\<lambda>cr p. \<lparr>reg = cr, pcs = [p, Idle]\<rparr>"
  have "creg_reachable 2 \<lparr>reg = creg_init, pcs = replicate 2 Idle\<rparr>" by (rule creg_reachable.start)
  then have 0: "creg_reachable 2 (?s creg_init Idle)" by (simp add: numeral_2_eq_2)
  have 1: "creg_reachable 2 (?s creg_init (RLock 7))"
    using creg_reachable.step [OF 0 creg_step.call_register [of 0 _ 7]] by (simp add: goto_def)
  have 2: "creg_reachable 2 (?s (creg_init\<lparr>lock := 0\<rparr>) (RSlot 7))"
    using creg_reachable.step [OF 1 creg_step.run [of 0]]
    by (simp add: goto_def sem_wait_def creg_init_def)
  have 3: "creg_reachable 2 (?s (creg_init\<lparr>lock := 0, slots := 1023\<rparr>) (RMutex 7))"
    using creg_reachable.step [OF 2 creg_step.run [of 0]]
    by (simp add: goto_def sem_wait_def creg_init_def)
  show ?thesis
    using creg_reachable.step [OF 3 creg_step.run [of 0]]
    by (simp add: goto_def sem_wait_def creg_init_def scanning_def)
qed

lemma registry_interleavings_witness:
  "count_pc in_mutex scanning = 1 \<and> (\<exists>s'. creg_step scanning s' \<and> 7 \<in> set (fdbuf (reg s')))"
  using registry_interleavings [OF scanning_reachable]
  by (fastforce simp: scanning_def count_pc_def)

text \<open>The first pass reads entries in use; the second one does not.\<close>

lemma wait_for_empty_returns_witness:
  "\<exists>cr'. creg_wait_for_empty (\<lambda>k i. if k < 5 then 9 else - 1) creg_init = Some cr' \<and>
    cr' = creg_init\<lparr>lock := 0\<rparr> \<and> creg_register 7 cr' = None"
proof -
  let ?obs = "\<lambda>k i. if k < (5 :: nat) then 9 else - 1 :: u32"
  have "\<forall>i \<le> 1023. ?obs (1024 * 1 + i) i = - 1" by simp
  then have "\<not> (\<forall>p. \<exists>i \<le> 1023. ?obs (1024 * p + i) i \<noteq> - 1)" by blast
  then show ?thesis
    using wait_for_empty_returns [of creg_init ?obs 7]
    by (cases "creg_wait_for_empty ?obs creg_init") (auto simp: creg_init_def)
qed

end
