(* ===== verification/Xacto_Protocol.thy ===== *)
theory Xacto_Protocol
  imports C_Prelude
begin

text \<open>
  Packets over a connection: \<open>rio_readn\<close> and \<open>rio_writen\<close> of hw5/src/csapp.c and
  hw5/src/protocol.c. What \<open>read\<close> and \<open>write\<close> return is a list of events, so that the stream may
  be cut into segments at any place and interrupted at any call. A read with no event left blocks
  for ever, which is \<^term>\<open>None\<close>.
\<close>

subsection \<open>Robust reading and writing\<close>

text \<open>\<open>Chunk bs\<close>: the bytes \<open>bs\<close> are available (none: end of file). A failing call sets
  \<open>errno\<close> to EINTR or to something else.\<close>

datatype read_event = Chunk "byte list" | Read_intr | Read_error

text \<open>The result: whether all bytes were read (otherwise \<open>-1\<close> is returned), the bytes stored in the
  buffer, and the events left.\<close>

fun rio_readn_loop :: "nat \<Rightarrow> byte list \<Rightarrow> read_event list \<Rightarrow> (bool \<times> byte list \<times> read_event list) option" where
  "rio_readn_loop nleft buf [] = (if 0 < nleft then None else Some (True, buf, []))"
| "rio_readn_loop nleft buf (e # es) =
     (if 0 < nleft then
        (case e of
           Read_intr \<Rightarrow> rio_readn_loop nleft buf es
         | Read_error \<Rightarrow> Some (False, buf, es)
         | Chunk bs \<Rightarrow>
             if bs = [] then Some (False, buf, es)
             else if length bs \<le> nleft then rio_readn_loop (nleft - length bs) (buf @ bs) es
             else Some (True, buf @ take nleft bs, Chunk (drop nleft bs) # es))
      else Some (True, buf, e # es))"

definition rio_readn :: "nat \<Rightarrow> read_event list \<Rightarrow> (bool \<times> byte list \<times> read_event list) option" where
  "rio_readn n es = rio_readn_loop n [] es"

text \<open>\<open>Wrote k\<close>: \<open>write\<close> takes \<open>k\<close> bytes, at most what is offered; a result of 0 or below comes
  with an \<open>errno\<close>.\<close>

datatype write_event = Wrote nat | Write_intr | Write_error

fun rio_writen_loop :: "byte list \<Rightarrow> byte list \<Rightarrow> write_event list \<Rightarrow>
    (bool \<times> byte list \<times> write_event list) option" where
  "rio_writen_loop bufp out [] = (if bufp \<noteq> [] then None else Some (True, out, []))"
| "rio_writen_loop bufp out (e # es) =
     (if bufp \<noteq> [] then
        (case e of
           Write_intr \<Rightarrow> rio_writen_loop bufp out es
         | Write_error \<Rightarrow> Some (False, out, es)
         | Wrote k \<Rightarrow> rio_writen_loop (drop k bufp) (out @ take k bufp) es)
      else Some (True, out, e # es))"

text \<open>The source buffer must hold \<open>n\<close> bytes.\<close>

definition rio_writen :: "byte list \<Rightarrow> nat \<Rightarrow> byte list \<Rightarrow> write_event list \<Rightarrow>
    (bool \<times> byte list \<times> write_event list) option" where
  "rio_writen usrbuf n out es =
     (if n \<le> length usrbuf then rio_writen_loop (take n usrbuf) out es else None)"

subsection \<open>Packets\<close>

datatype packet_type = XACTO_NO_PKT | XACTO_PUT_PKT | XACTO_GET_PKT | XACTO_DATA_PKT
  | XACTO_COMMIT_PKT | XACTO_REPLY_PKT

fun packet_code :: "packet_type \<Rightarrow> byte" where
  "packet_code XACTO_NO_PKT = 0"
| "packet_code XACTO_PUT_PKT = 1"
| "packet_code XACTO_GET_PKT = 2"
| "packet_code XACTO_DATA_PKT = 3"
| "packet_code XACTO_COMMIT_PKT = 4"
| "packet_code XACTO_REPLY_PKT = 5"

text \<open>The structure, with the padding byte the compiler puts before \<open>size\<close>.\<close>

record xacto_packet =
  ptype :: byte
  pstatus :: byte
  pnull :: byte
  ppad :: byte
  psize :: u32
  timestamp_sec :: u32
  timestamp_nsec :: u32

text \<open>The host is little endian: \<open>htonl\<close> and \<open>ntohl\<close> reverse the four bytes.\<close>

definition htonl :: "u32 \<Rightarrow> u32" where
  "htonl w = be_val (rev (be32 w))"

definition ntohl :: "u32 \<Rightarrow> u32" where
  "ntohl w = be_val (rev (be32 w))"

text \<open>The bytes of the structure in memory.\<close>

definition packet_bytes :: "xacto_packet \<Rightarrow> byte list" where
  "packet_bytes p = [ptype p, pstatus p, pnull p, ppad p] @ rev (be32 (psize p)) @
     rev (be32 (timestamp_sec p)) @ rev (be32 (timestamp_nsec p))"

definition bytes_packet :: "byte list \<Rightarrow> xacto_packet" where
  "bytes_packet b = \<lparr>ptype = b ! 0, pstatus = b ! 1, pnull = b ! 2, ppad = b ! 3,
     psize = be_val (rev (take 4 (drop 4 b))), timestamp_sec = be_val (rev (take 4 (drop 8 b))),
     timestamp_nsec = be_val (rev (take 4 (drop 12 b)))\<rparr>"

text \<open>The result: success, the packet as the call leaves it, the output and the events left.\<close>

definition proto_send_packet :: "xacto_packet \<Rightarrow> byte list \<Rightarrow> byte list \<Rightarrow> write_event list \<Rightarrow>
    (bool \<times> xacto_packet \<times> byte list \<times> write_event list) option" where
  "proto_send_packet pkt data out es = do {
     let payload_length = psize pkt;
     let pkt = pkt\<lparr>psize := htonl (psize pkt)\<rparr>;
     let pkt = pkt\<lparr>timestamp_sec := htonl (timestamp_sec pkt)\<rparr>;
     let pkt = pkt\<lparr>timestamp_nsec := htonl (timestamp_nsec pkt)\<rparr>;
     (ok, out, es) \<leftarrow> rio_writen (packet_bytes pkt) 16 out es;
     if \<not> ok then Some (False, pkt, out, es)
     else do {
       (ok, out, es) \<leftarrow> rio_writen data (unat payload_length) out es;
       Some (ok, pkt, out, es)
     }
   }"

text \<open>\<open>pkt\<close> is the caller's structure and \<open>datap\<close> the pointer it gets: a fresh buffer, or the old
  pointer when there is no payload, since only the parameter is set to NULL then. A short read
  leaves the rest of the structure or of the fresh buffer unset; the model keeps the old bytes
  of the structure and fills the buffer up with the argument \<open>junk\<close>.\<close>

definition proto_recv_packet :: "byte list \<Rightarrow> xacto_packet \<Rightarrow> byte list option \<Rightarrow> read_event list \<Rightarrow>
    (bool \<times> xacto_packet \<times> byte list option \<times> read_event list) option" where
  "proto_recv_packet junk pkt datap es = do {
     (ok, b, es) \<leftarrow> rio_readn 16 es;
     let pkt = bytes_packet (b @ drop (length b) (packet_bytes pkt));
     if \<not> ok then Some (False, pkt, datap, es)
     else do {
       let pkt = pkt\<lparr>psize := ntohl (psize pkt)\<rparr>;
       let pkt = pkt\<lparr>timestamp_sec := ntohl (timestamp_sec pkt)\<rparr>;
       let pkt = pkt\<lparr>timestamp_nsec := ntohl (timestamp_nsec pkt)\<rparr>;
       let pkt = pkt\<lparr>pnull := 0\<rparr>;
       if psize pkt = 0 then Some (True, pkt, datap, es)
       else do {
         (ok, b, es) \<leftarrow> rio_readn (unat (psize pkt)) es;
         Some (ok, pkt, Some (b @ take (unat (psize pkt) - length b) junk), es)
       }
     }
   }"

subsection \<open>Segmentation\<close>

fun event_bytes :: "read_event \<Rightarrow> byte list" where
  "event_bytes (Chunk bs) = bs"
| "event_bytes _ = []"

definition stream :: "read_event list \<Rightarrow> byte list" where
  "stream es = concat (map event_bytes es)"

text \<open>No error and no end of file among the events.\<close>

definition clean :: "read_event list \<Rightarrow> bool" where
  "clean es \<longleftrightarrow> Read_error \<notin> set es \<and> Chunk [] \<notin> set es"

lemma stream_simps [simp]: "stream [] = []" "stream (e # es) = event_bytes e @ stream es"
  by (simp_all add: stream_def)

lemma clean_simps [simp]: "clean []" "clean (e # es) \<longleftrightarrow> e \<noteq> Read_error \<and> e \<noteq> Chunk [] \<and> clean es"
  by (auto simp: clean_def)

lemma readn_loop_stream:
  assumes "clean es" "n \<le> length (stream es)"
  shows "\<exists>es'. rio_readn_loop n buf es = Some (True, buf @ take n (stream es), es') \<and>
    clean es' \<and> stream es' = drop n (stream es)"
  using assms
proof (induction es arbitrary: n buf)
  case (Cons e es)
  show ?case
  proof (cases e)
    case (Chunk bs)
    show ?thesis
    proof (cases "0 < n \<and> length bs \<le> n")
      case True
      then show ?thesis using Cons.IH [of "n - length bs" "buf @ bs"] Cons.prems Chunk by auto
    next
      case False
      then show ?thesis using Cons.prems Chunk by (cases "n = 0") auto
    qed
  next
    case Read_intr
    then show ?thesis using Cons by (cases "n = 0") auto
  next
    case Read_error
    then show ?thesis using Cons.prems by simp
  qed
qed simp

lemma readn_stream:
  assumes "clean es" "n \<le> length (stream es)"
  obtains es' where "rio_readn n es = Some (True, take n (stream es), es')" "clean es'"
    "stream es' = drop n (stream es)"
  using readn_loop_stream [OF assms, of "[]"] by (auto simp: rio_readn_def)

text \<open>The end of the stream before \<open>n\<close> bytes is an error, also between two packets.\<close>

lemma readn_loop_eof:
  "Read_error \<notin> set es \<Longrightarrow> Chunk [] \<notin> set es \<Longrightarrow> length (stream es) < n \<Longrightarrow>
   rio_readn_loop n buf (es @ Chunk [] # fs) = Some (False, buf @ stream es, fs)"
proof (induction es arbitrary: n buf)
  case (Cons e es)
  then show ?case by (cases e) auto
qed simp

lemma writen_loop_out:
  "rio_writen_loop b out es = Some (True, out', es') \<Longrightarrow> out' = out @ b"
  by (induction b out es rule: rio_writen_loop.induct) (auto split: if_splits write_event.splits)

lemma writen_loop_prefix:
  "rio_writen_loop b out es = Some (ok, out', es') \<Longrightarrow> \<exists>n. out' = out @ take n b"
proof (induction b out es rule: rio_writen_loop.induct)
  case (1 bufp out)
  then show ?case by (auto split: if_splits intro: exI [of _ 0])
next
  case (2 bufp out e es)
  show ?case
  proof (cases e)
    case (Wrote k)
    show ?thesis
    proof (cases "bufp = []")
      case False
      then obtain n where "out' = (out @ take k bufp) @ take n (drop k bufp)"
        using 2 Wrote by auto
      then have "out' = out @ take (k + n) bufp" by (simp add: take_add)
      then show ?thesis by blast
    qed (use 2 in auto)
  qed (use 2 in \<open>auto split: if_splits intro: exI [of _ 0]\<close>)
qed

subsection \<open>Byte order\<close>

lemma be32_htonl [simp]: "rev (be32 (htonl w)) = be32 w"
  by (simp add: htonl_def be32_be_val)

lemma ntohl_rev [simp]: "ntohl (be_val (rev (be32 w))) = w"
  by (simp add: ntohl_def be32_be_val be_val_be32)

definition wire :: "xacto_packet \<Rightarrow> byte list \<Rightarrow> byte list" where
  "wire p data = [ptype p, pstatus p, pnull p, ppad p] @ be32 (psize p) @ be32 (timestamp_sec p) @
     be32 (timestamp_nsec p) @ data"

lemma send_wire:
  assumes "proto_send_packet p data out ws = Some (True, p', out', ws')" "length data = unat (psize p)"
  shows "out' = out @ wire p data"
  using assms
  by (auto simp: proto_send_packet_def rio_writen_def packet_bytes_def wire_def bind_eq_Some_conv Let_def
      dest!: writen_loop_out split: if_splits)

lemma packet_bytes_header:
  "bytes_packet (take 16 (wire p data)) = \<lparr>ptype = ptype p, pstatus = pstatus p, pnull = pnull p,
     ppad = ppad p, psize = be_val (rev (be32 (psize p))),
     timestamp_sec = be_val (rev (be32 (timestamp_sec p))),
     timestamp_nsec = be_val (rev (be32 (timestamp_nsec p)))\<rparr>"
  by (simp add: bytes_packet_def wire_def be32_def numeral_eq_Suc)

lemma recv_wire:
  assumes "clean es" "stream es = wire p data @ rest" "length data = unat (psize p)"
  shows "\<exists>es'. proto_recv_packet junk q dp es =
      Some (True, p\<lparr>pnull := 0\<rparr>, if psize p = 0 then dp else Some data, es') \<and> clean es' \<and> stream es' = rest"
proof -
  have l: "length (wire p []) = 16" "length (packet_bytes q) = 16" by (simp_all add: wire_def packet_bytes_def)
  have w: "stream es = wire p [] @ data @ rest" using assms(2) by (simp add: wire_def)
  obtain es1 where 1: "rio_readn 16 es = Some (True, wire p [], es1)" "clean es1" "stream es1 = data @ rest"
    using readn_stream [OF assms(1), of 16] w l by (metis (no_types, lifting) append_eq_conv_conj le_add1 length_append)
  have h: "bytes_packet (wire p []) = \<lparr>ptype = ptype p, pstatus = pstatus p, pnull = pnull p,
     ppad = ppad p, psize = be_val (rev (be32 (psize p))),
     timestamp_sec = be_val (rev (be32 (timestamp_sec p))),
     timestamp_nsec = be_val (rev (be32 (timestamp_nsec p)))\<rparr>"
    using packet_bytes_header [of p "[]"] l by simp
  obtain es2 where 2: "rio_readn (unat (psize p)) es1 = Some (True, data, es2)" "clean es2" "stream es2 = rest"
    using readn_stream [OF 1(2), of "unat (psize p)"] 1(3) assms(3)
    by (metis (no_types, lifting) append_eq_conv_conj le_add1 length_append)
  show ?thesis
  proof (cases "psize p = 0")
    case True
    then show ?thesis using 1 h l assms(3) by (cases p) (simp add: proto_recv_packet_def)
  next
    case False
    then show ?thesis using 1 2 h l assms(3) by (cases p) (simp add: proto_recv_packet_def)
  qed
qed

text \<open>C19: What \<open>proto_send_packet\<close> has sent is received unchanged, in any segmentation and with any
  interruptions, except that the flag for a null payload is lost; a packet without payload leaves
  the receiver's old payload pointer in place.\<close>

theorem packet_roundtrip:
  assumes "proto_send_packet p data [] ws = Some (True, p', out, ws')" "length data = unat (psize p)"
    "clean es" "stream es = out @ rest"
  shows "\<exists>es'. proto_recv_packet junk q dp es =
      Some (True, p\<lparr>pnull := 0\<rparr>, if psize p = 0 then dp else Some data, es') \<and> clean es' \<and> stream es' = rest"
  using recv_wire [OF assms(3) _ assms(2)] send_wire [OF assms(1,2)] assms(4) by simp


text \<open>Packets with their payload are a prefix codec, so sequences of packets travel too.\<close>

definition enc_packet :: "xacto_packet \<times> byte list option \<Rightarrow> byte list" where
  "enc_packet x = wire (fst x) (case snd x of None \<Rightarrow> [] | Some d \<Rightarrow> d)"

definition no_packet :: xacto_packet where
  "no_packet = \<lparr>ptype = 0, pstatus = 0, pnull = 0, ppad = 0, psize = 0, timestamp_sec = 0, timestamp_nsec = 0\<rparr>"

definition dec_packet :: "byte list \<Rightarrow> ((xacto_packet \<times> byte list option) \<times> byte list) option" where
  "dec_packet b = do {
     (ok, p, d, es) \<leftarrow> proto_recv_packet [] no_packet None (if b = [] then [] else [Chunk b]);
     if ok then Some ((p, d), stream es) else None
   }"

definition packet_ok :: "xacto_packet \<times> byte list option \<Rightarrow> bool" where
  "packet_ok x \<longleftrightarrow> pnull (fst x) = 0 \<and>
     (case snd x of None \<Rightarrow> psize (fst x) = 0 | Some d \<Rightarrow> d \<noteq> [] \<and> length d = unat (psize (fst x)))"

interpretation packet_codec: prefix_codec enc_packet dec_packet packet_ok
proof
  fix x rest
  assume ok: "packet_ok x"
  obtain p d where x: "x = (p, d)" by fastforce
  let ?data = "case d of None \<Rightarrow> [] | Some d \<Rightarrow> d"
  have n: "enc_packet x @ rest \<noteq> []" by (simp add: enc_packet_def wire_def)
  have l: "length ?data = unat (psize p)" using ok by (auto simp: packet_ok_def x split: option.splits)
  have p: "p\<lparr>pnull := 0\<rparr> = p" using ok by (cases p) (simp add: packet_ok_def x)
  have d: "(if psize p = 0 then None else Some ?data) = d"
    using ok by (auto simp: packet_ok_def x split: option.splits)
  show "dec_packet (enc_packet x @ rest) = Some (x, rest)"
    using recv_wire [of "[Chunk (enc_packet x @ rest)]" p ?data rest "[]" no_packet None] l n p d
    by (auto simp: dec_packet_def x enc_packet_def)
qed

subsection \<open>Witness\<close>

definition sample_packet :: xacto_packet where
  "sample_packet = \<lparr>ptype = 3, pstatus = 0, pnull = 1, ppad = 0, psize = 2, timestamp_sec = 258,
     timestamp_nsec = 7\<rparr>"

lemma packet_roundtrip_witness:
  "\<exists>es'. proto_recv_packet [] no_packet None
      [Chunk [3, 0, 1, 0, 0], Read_intr, Chunk [0, 0, 2, 0, 0, 1, 2, 0, 0, 0, 7, 65], Chunk [66, 9]] =
      Some (True, sample_packet\<lparr>pnull := 0\<rparr>, Some [65, 66], es') \<and> clean es' \<and> stream es' = [9]"
proof -
  have b: "be32 2 = [0, 0, 0, 2]" "be32 258 = [0, 0, 1, 2]" "be32 7 = [0, 0, 0, 7]"
    by (simp_all add: be32_def)
  have "proto_send_packet sample_packet [65, 66] [] [Wrote 7, Write_intr, Wrote 20, Wrote 2] =
      Some (True, sample_packet\<lparr>psize := htonl 2, timestamp_sec := htonl 258, timestamp_nsec := htonl 7\<rparr>,
        [3, 0, 1, 0, 0, 0, 0, 2, 0, 0, 1, 2, 0, 0, 0, 7, 65, 66], [])"
    by (simp add: proto_send_packet_def rio_writen_def packet_bytes_def sample_packet_def b Let_def)
  then show ?thesis
    using packet_roundtrip [of sample_packet "[65, 66]" "[Wrote 7, Write_intr, Wrote 20, Wrote 2]" _ _ _
        "[Chunk [3, 0, 1, 0, 0], Read_intr, Chunk [0, 0, 2, 0, 0, 1, 2, 0, 0, 0, 7, 65], Chunk [66, 9]]" "[9]"
        "[]" no_packet None]
    by (simp add: sample_packet_def)
qed

end
