(* ===== verification/Xacto_Server.thy ===== *)
theory Xacto_Server
  imports Xacto_Contract Xacto_Blobs Xacto_Registry Xacto_Protocol
begin

text \<open>
  The service thread of hw5/src/server.c and the shutdown of hw5/src/main.c. The transactional
  store (hw5/lib/xacto.a, no source), the results of \<open>malloc\<close>, the clock and what the waiting
  loop of \<open>trans_commit\<close> observes are parameters, fields of \<open>env\<close>. The debugging output of
  \<open>store_show\<close> is left out.
\<close>

subsection \<open>State\<close>

record env =
  alloc :: "nat \<Rightarrow> nat"
  junk :: "nat \<Rightarrow> byte list"
  clock :: "nat \<Rightarrow> u32 \<times> u32"
  store_get :: "nat \<Rightarrow> nat \<Rightarrow> dstate \<Rightarrow> (trans_status \<times> nat option \<times> dstate) option"
  store_put :: "nat \<Rightarrow> nat \<Rightarrow> nat \<Rightarrow> dstate \<Rightarrow> (trans_status \<times> dstate) option"
  commit_obs :: "nat \<Rightarrow> nat \<Rightarrow> trans_status option"

text \<open>\<open>mallocs\<close> and \<open>ticks\<close> count the allocations and clock readings so far.\<close>

record session =
  sdata :: dstate
  spkt :: xacto_packet
  datap :: "byte list option"
  sin :: "read_event list"
  sout :: "byte list"
  swr :: "write_event list"
  mallocs :: nat
  ticks :: nat
  isCommit :: bool

fun status_code :: "trans_status \<Rightarrow> byte" where
  "status_code TRANS_PENDING = 0"
| "status_code TRANS_COMMITTED = 1"
| "status_code TRANS_ABORTED = 2"

subsection \<open>The calls of the service loop\<close>

definition recv :: "env \<Rightarrow> session \<Rightarrow> (bool \<times> session) option" where
  "recv E s = do {
     (ok, p, d, es) \<leftarrow> proto_recv_packet (junk E (mallocs s)) (spkt s) (datap s) (sin s);
     Some (ok, s\<lparr>spkt := p, datap := d, sin := es, mallocs := mallocs s + 1\<rparr>)
   }"

text \<open>The result of sending is not looked at.\<close>

definition send :: "byte list \<Rightarrow> session \<Rightarrow> session option" where
  "send data s = do {
     (_, p, out, ws) \<leftarrow> proto_send_packet (spkt s) data (sout s) (swr s);
     Some (s\<lparr>spkt := p, sout := out, swr := ws\<rparr>)
   }"

definition stamp :: "env \<Rightarrow> session \<Rightarrow> session" where
  "stamp E s = s\<lparr>spkt := (spkt s)\<lparr>timestamp_nsec := snd (clock E (ticks s)),
     timestamp_sec := fst (clock E (ticks s))\<rparr>, ticks := ticks s + 1\<rparr>"

definition set_status :: "nat \<Rightarrow> trans_status \<Rightarrow> session \<Rightarrow> session option" where
  "set_status tr x s = do {
     d \<leftarrow> on_ts (mod_t tr (\<lambda>t. t\<lparr>status := x\<rparr>)) (sdata s);
     Some (s\<lparr>sdata := d\<rparr>)
   }"

definition get_status :: "nat \<Rightarrow> session \<Rightarrow> trans_status option" where
  "get_status tr s = map_option status (tmem (ts (sdata s)) tr)"

text \<open>\<open>blob_create(datap[0], strlen(datap[0]))\<close>\<close>

definition payload_blob :: "env \<Rightarrow> session \<Rightarrow> (nat \<times> session) option" where
  "payload_blob E s = do {
     p \<leftarrow> datap s;
     n \<leftarrow> c_strlen p;
     (b, d) \<leftarrow> blob_create (alloc E (mallocs s), alloc E (mallocs s + 1), alloc E (mallocs s + 2))
       p (of_nat n) (sdata s);
     Some (b, s\<lparr>sdata := d, mallocs := mallocs s + 3\<rparr>)
   }"

definition payload_key :: "env \<Rightarrow> nat \<Rightarrow> session \<Rightarrow> (nat \<times> session) option" where
  "payload_key E b s = do {
     (k, d) \<leftarrow> key_create (alloc E (mallocs s)) b (sdata s);
     Some (k, s\<lparr>sdata := d, mallocs := mallocs s + 1\<rparr>)
   }"

text \<open>\<open>pkt->status\<close>, \<open>size\<close>, \<open>null\<close> and \<open>type\<close> of a reply.\<close>

definition reply_packet :: "nat \<Rightarrow> session \<Rightarrow> session option" where
  "reply_packet tr s = do {
     x \<leftarrow> get_status tr s;
     Some (s\<lparr>spkt := (spkt s)\<lparr>pstatus := status_code x, psize := 0, pnull := 0,
       ptype := packet_code XACTO_REPLY_PKT\<rparr>\<rparr>)
   }"

definition serve_get :: "env \<Rightarrow> nat \<Rightarrow> session \<Rightarrow> session option" where
  "serve_get E tr s = do {
     (_, s) \<leftarrow> recv E s;
     (b, s) \<leftarrow> payload_blob E s;
     (k, s) \<leftarrow> payload_key E b s;
     (x, value, d) \<leftarrow> store_get E tr k (sdata s);
     s \<leftarrow> set_status tr x (s\<lparr>sdata := d\<rparr>);
     s \<leftarrow> reply_packet tr (stamp E s);
     s \<leftarrow> send [] s;
     let s = stamp E s;
     x \<leftarrow> get_status tr s;
     let s = s\<lparr>spkt := (spkt s)\<lparr>pstatus := status_code x, ptype := packet_code XACTO_DATA_PKT,
       pnull := 0\<rparr>\<rparr>;
     s \<leftarrow> (case value of
         None \<Rightarrow> send [] (s\<lparr>spkt := (spkt s)\<lparr>pnull := 1, psize := 0\<rparr>\<rparr>)
       | Some v \<Rightarrow> do {
           str \<leftarrow> blob_text v (sdata s);
           n \<leftarrow> c_strlen str;
           send str (s\<lparr>spkt := (spkt s)\<lparr>psize := of_nat n, pnull := 0\<rparr>\<rparr>)
         });
     _ \<leftarrow> trans_show_all (ts (sdata s));
     Some s
   }"

definition serve_put :: "env \<Rightarrow> nat \<Rightarrow> session \<Rightarrow> session option" where
  "serve_put E tr s = do {
     (_, s) \<leftarrow> recv E s;
     (b, s) \<leftarrow> payload_blob E s;
     (k, s) \<leftarrow> payload_key E b s;
     (_, s) \<leftarrow> recv E s;
     (v, s) \<leftarrow> payload_blob E s;
     (x, d) \<leftarrow> store_put E tr k v (sdata s);
     s \<leftarrow> set_status tr x (s\<lparr>sdata := d\<rparr>);
     s \<leftarrow> reply_packet tr (stamp E s);
     s \<leftarrow> send [] s;
     _ \<leftarrow> trans_show_all (ts (sdata s));
     Some s
   }"

definition serve_commit :: "env \<Rightarrow> nat \<Rightarrow> session \<Rightarrow> session option" where
  "serve_commit E tr s = do {
     (x, t) \<leftarrow> trans_commit (commit_obs E) tr (ts (sdata s));
     s \<leftarrow> set_status tr x (s\<lparr>sdata := (sdata s)\<lparr>ts := t\<rparr>\<rparr>);
     s \<leftarrow> reply_packet tr (stamp E s);
     s \<leftarrow> send [] (s\<lparr>isCommit := True\<rparr>);
     _ \<leftarrow> trans_show_all (ts (sdata s));
     Some s
   }"

partial_function (option) serve_loop :: "env \<Rightarrow> nat option \<Rightarrow> session \<Rightarrow> session option" where
  "serve_loop E tr s = do {
     (ok, s) \<leftarrow> recv E s;
     if ok then
       (if ptype (spkt s) = packet_code XACTO_GET_PKT then
          do { t \<leftarrow> tr; s \<leftarrow> serve_get E t s; serve_loop E tr s }
        else if ptype (spkt s) = packet_code XACTO_PUT_PKT then
          do { t \<leftarrow> tr; s \<leftarrow> serve_put E t s; serve_loop E tr s }
        else if ptype (spkt s) = packet_code XACTO_COMMIT_PKT then
          do { t \<leftarrow> tr; s \<leftarrow> serve_commit E t s; serve_loop E tr s }
        else serve_loop E tr s)
     else Some s
   }"

text \<open>The transaction pointer is \<^term>\<open>None\<close> when it is NULL: every use of it then faults.
  \<open>trans_create\<close> is the first allocation (\<open>m\<close>, NULL when it fails), the packet the next; its
  initial content is arbitrary. The result is the registry and the session after the call, or the
  end of the program.\<close>

definition xacto_client_service ::
  "env \<Rightarrow> u32 \<Rightarrow> nat option \<Rightarrow> creg \<Rightarrow> session \<Rightarrow> (creg \<times> session) outcome option" where
  "xacto_client_service E connfd m cr s = do {
     cr \<leftarrow> creg_register connfd cr;
     (tr, t) \<leftarrow> trans_create m (ts (sdata s));
     let s = s\<lparr>sdata := (sdata s)\<lparr>ts := t\<rparr>, datap := None, isCommit := False\<rparr>;
     s \<leftarrow> serve_loop E tr s;
     r \<leftarrow> (if \<not> isCommit s then do { tr \<leftarrow> tr; trans_abort tr (ts (sdata s)) }
           else Some (Done (ts (sdata s))));
     case r of
       Abort \<Rightarrow> Some Abort
     | Done t \<Rightarrow> do {
         cr \<leftarrow> creg_unregister connfd cr;
         Some (Done (cr, s\<lparr>sdata := (sdata s)\<lparr>ts := t\<rparr>\<rparr>))
       }
   }"

subsection \<open>Shutdown\<close>

text \<open>\<open>terminate\<close>: shut the connections down, wait for the threads, free the registry and the
  transactions. \<open>obs\<close> is what the wait reads of the table, and the thread that waits sees the state
  of the others afterwards, which is an argument too. The result lists the descriptors that were
  shut down and the transactions' memory.\<close>

definition terminate :: "(nat \<Rightarrow> nat \<Rightarrow> u32) \<Rightarrow> creg \<Rightarrow> tstate \<Rightarrow> (u32 list \<times> tstate) option" where
  "terminate obs cr st = do {
     (ds, cr) \<leftarrow> creg_shutdown_all cr;
     cr \<leftarrow> creg_wait_for_empty obs cr;
     st \<leftarrow> trans_fini st;
     Some (ds, st)
   }"

subsection \<open>What the service does\<close>

lemma trans_unref_gone:
  assumes "tmem st a = Some t" "\<not> locked t" "refcnt t = 1" "trans_unref a st = Some st'"
  shows "tmem st' a = None"
  using assms by (auto simp: trans_unref_def trans_ops bind_eq_Some_conv split: if_splits)

text \<open>C25: A COMMIT on a transaction without dependencies, of which the connection holds the only reference, writes the
  status into freed memory: \<open>trans_commit\<close> commits it and gives up the last reference, so that it has been freed
  when it returns, and the assignment of the result to the transaction's status is the access that faults. (When a
  dependency has aborted, \<open>trans_commit\<close> keeps the reference, and the write is defined.)\<close>

theorem serve_commit_use_after_free:
  assumes "trans_inv (ts (sdata s)) A" "tr \<in> set (live A)" "0 < ext (info A tr)"
    "tmem (ts (sdata s)) tr = Some t" "refcnt t = 1" "depends t = []"
  shows "\<exists>st'. trans_commit (commit_obs E) tr (ts (sdata s)) = Some (TRANS_COMMITTED, st') \<and> tmem st' tr = None \<and>
    set_status tr TRANS_COMMITTED (s\<lparr>sdata := (sdata s)\<lparr>ts := st'\<rparr>\<rparr>) = None \<and> serve_commit E tr s = None"
proof -
  let ?t = "t\<lparr>status := TRANS_COMMITTED\<rparr>"
  let ?st = "(ts (sdata s))\<lparr>tmem := (tmem (ts (sdata s)))(tr \<mapsto> ?t)\<rparr>"
  have ct: "counts (info A tr) t" using trans_inv_live [OF assms(1,2)] assms(4) by fastforce
  have lk: "\<not> locked t" using ct by (simp add: counts_def)
  have "trans_inv ?st (A\<lparr>info := (info A)(tr := info A tr)\<rparr>)"
    by (rule inv_keep_links [OF assms(1,4,2)]) (use assms(1,2) ct in \<open>auto simp: trans_inv_def counts_def\<close>)
  then have "trans_inv ?st A" by simp
  from inv_unref [OF this, of tr] obtain st' where st': "trans_unref tr ?st = Some st'" using assms(2,3) by auto
  have gone: "tmem st' tr = None"
    by (rule trans_unref_gone [OF _ _ _ st', where t = ?t]) (use lk assms(5) in simp_all)
  have l: "t\<lparr>status := TRANS_COMMITTED, locked := False\<rparr> = ?t"
    using lk by (cases t) simp
  have c: "trans_commit (commit_obs E) tr (ts (sdata s)) = Some (TRANS_COMMITTED, st')"
    using assms(4,6) lk l st' by (simp add: trans_commit_def trans_ops)
  have "set_status tr TRANS_COMMITTED (s\<lparr>sdata := (sdata s)\<lparr>ts := st'\<rparr>\<rparr>) = None"
    using gone by (simp add: set_status_def on_ts_def mod_t_def)
  then show ?thesis using c gone by (simp add: serve_commit_def)
qed

lemma payload_key_faults:
  assumes "datap s = Some p" "0 \<in> set p" "length p < 2 ^ 64" "alloc E (mallocs s + 1) \<noteq> alloc E (mallocs s + 2)"
  shows "\<exists>b s' x str. payload_blob E s = Some (b, s') \<and> blobs (sdata s') b = Some x \<and> \<not> block x \<and>
    chunks (sdata s') (content x) = Some str \<and> str = c_text p \<and> blob_hash b (sdata s') = None \<and>
    payload_key E b s' = None"
proof -
  let ?n = "length (c_text p)" and ?b = "alloc E (mallocs s)"
  let ?m = "(?b, alloc E (mallocs s + 1), alloc E (mallocs s + 2))"
  have l: "?n \<le> length p" unfolding c_text_def by (rule length_takeWhile_le)
  then have n: "unat (of_nat ?n :: u64) = ?n" using assms(3) by (simp add: unat_of_nat take_bit_nat_eq_self)
  have cp: "c_strncpy p (unat (of_nat ?n :: u64)) = Some (c_text p)"
    unfolding n by (simp add: c_strncpy_def c_text_def Let_def)
  obtain st' where st': "blob_create ?m p (of_nat ?n) (sdata s) = Some (?b, st')" "blob_hash ?b st' = None"
    "\<forall>k. key_create k ?b st' = None"
    using blob_create_cut [of "of_nat ?n" p, OF _ assms(4)] n by force
  have e: "st' = (sdata s)\<lparr>chunks := (chunks (sdata s))(alloc E (mallocs s + 1) \<mapsto> c_text p, alloc E (mallocs s + 2) \<mapsto> c_text p),
    blobs := (blobs (sdata s))(?b \<mapsto> \<lparr>block = False, brefcnt = 1, bsize = of_nat ?n, content = alloc E (mallocs s + 1),
      bprefix = alloc E (mallocs s + 2)\<rparr>)\<rparr>"
    using st'(1) blob_create_eq [OF cp assms(4), of ?b "sdata s"] by simp
  have "payload_blob E s = Some (?b, s\<lparr>sdata := st', mallocs := mallocs s + 3\<rparr>)"
    using assms(1,2) st'(1) by (simp add: payload_blob_def c_strlen_terminated)
  moreover have "payload_key E ?b (s\<lparr>sdata := st', mallocs := mallocs s + 3\<rparr>) = None"
    using st'(3) by (simp add: payload_key_def)
  ultimately show ?thesis using st'(2) assms(4) by (simp add: e)
qed

text \<open>C24: When the packet after a GET or PUT request has been received (whether or not it was complete) and the
  payload pointer then points to a terminated string, the server makes a blob of the string without its
  terminator (in two buffers, which \<open>malloc\<close> returns at different addresses): the content is a heap buffer without a zero byte, so hashing it for the key reads behind that
  buffer, and this is where serving the request faults.\<close>

theorem serve_get_put_overread:
  assumes "alloc E (mallocs s1 + 1) \<noteq> alloc E (mallocs s1 + 2)"
    "recv E s = Some (ok, s1)" "datap s1 = Some p" "0 \<in> set p" "length p < 2 ^ 64"
  shows "\<exists>b s2 x str. payload_blob E s1 = Some (b, s2) \<and> blobs (sdata s2) b = Some x \<and> \<not> block x \<and>
    chunks (sdata s2) (content x) = Some str \<and> str = c_text p \<and> 0 \<notin> set str \<and> c_strlen str = None \<and>
    blob_hash b (sdata s2) = None \<and> payload_key E b s2 = None \<and> serve_get E tr s = None \<and> serve_put E tr s = None"
proof -
  obtain b s2 x str where b: "payload_blob E s1 = Some (b, s2)" "blobs (sdata s2) b = Some x" "\<not> block x"
    "chunks (sdata s2) (content x) = Some str" "str = c_text p" "blob_hash b (sdata s2) = None" "payload_key E b s2 = None"
    using payload_key_faults [OF assms(3,4,5,1)] by blast
  have "0 \<notin> set (c_text p)" by (auto simp: c_text_def dest: set_takeWhileD)
  then show ?thesis using b assms(2) by (simp add: serve_get_def serve_put_def c_strlen_def)
qed

text \<open>A live transaction that a scan for the dependents of the next transaction passes over.\<close>

definition one_dependency :: "tstate \<Rightarrow> nat \<Rightarrow> bool" where
  "one_dependency st b \<longleftrightarrow> (\<exists>x. tmem st b = Some x \<and> (depends x = [] \<or>
     (\<exists>d y. depends x = [d] \<and> tmem st d = Some y \<and> tid y \<noteq> counter st)))"

lemma create_abort:
  assumes inv: "trans_inv st A" and a: "a \<noteq> trans_list" "a \<notin> set (live A)"
    and one: "\<forall>b \<in> set (live A). one_dependency st b"
  shows "\<exists>st1 st2 A'. trans_create (Some a) st = Some (Some a, st1) \<and> trans_abort a st1 = Some (Done st2) \<and>
    trans_inv st2 A' \<and> live A' = live A"
proof -
  let ?A = "view_step (TCreate a) A"
  have c: "client_ok (TCreate a) A" using a by simp
  have r: "ring (nxt st) (prv st) trans_list (live A)" and d: "dom (tmem st) = set (trans_list # live A)"
    using inv by (auto simp: trans_inv_def)
  obtain s where s: "tmem st trans_list = Some s" using d by auto
  have "a \<notin> set (trans_list # live A)" using a by simp
  then have "tprev s \<in> dom (tmem st)"
    using ring_append(1) [OF r] s last_in_set [of "trans_list # live A"] d by (auto simp: prv_def)
  then obtain q where q: "tmem st (tprev s) = Some q" by auto
  have ad: "a \<notin> dom (tmem st)" using a d by simp
  obtain st1 where st1: "trans_create (Some a) st = Some (Some a, st1)"
    "\<exists>x y. tmem st1 a = Some \<lparr>tid = counter st, refcnt = 1, status = TRANS_PENDING, depends = [],
       waitcnt = 0, locked = False, tnext = x, tprev = y\<rparr>"
    "\<forall>b u. b \<noteq> a \<longrightarrow> tmem st b = Some u \<longrightarrow> (\<exists>x y. tmem st1 b = Some (u\<lparr>tnext := x, tprev := y\<rparr>))"
    by (rule trans_create_eq [OF s ad q]) blast
  obtain t where t: "tmem st1 a = Some t" "tid t = counter st" "status t = TRANS_PENDING" "depends t = []"
    using st1(2) by auto
  have inv1: "trans_inv st1 ?A" using inv_create [OF inv c] st1(1) by auto
  have la: "a \<in> set (live ?A)" by simp
  have "independent st1 (tid t) b" if b: "b \<in> set (live ?A)" for b
  proof (cases "b = a")
    case False
    then have "b \<in> set (live A)" using b by simp
    then obtain x where x: "tmem st b = Some x" "depends x = [] \<or>
       (\<exists>d y. depends x = [d] \<and> tmem st d = Some y \<and> tid y \<noteq> counter st)"
      using one by (auto simp: one_dependency_def)
    obtain u v where uv: "tmem st1 b = Some (x\<lparr>tnext := u, tprev := v\<rparr>)" using st1(3) False x(1) by blast
    have "\<exists>y. tmem st1 e = Some y \<and> tid y \<noteq> counter st" if e: "tmem st e = Some y" "tid y \<noteq> counter st" for e y
    proof -
      have "e \<noteq> a" using e(1) ad by auto
      then show ?thesis using st1(3) e by fastforce
    qed
    then show ?thesis using x(2) uv t(2) by (auto simp: independent_def)
  qed (use t in \<open>simp add: independent_def\<close>)
  then have ab: "trans_abort a st1 = map_option Done
      (trans_unref a (st1\<lparr>tmem := (tmem st1)(a \<mapsto> t\<lparr>status := TRANS_ABORTED\<rparr>)\<rparr>))"
    using abort_by_cases [OF inv1 la t(1)] t(3) by simp
  have "trans_inv (st1\<lparr>tmem := (tmem st1)(a \<mapsto> t\<lparr>status := TRANS_ABORTED\<rparr>)\<rparr>)
      (?A\<lparr>info := (info ?A)(a := info ?A a)\<rparr>)"
    by (rule inv_keep_links [OF inv1 t(1) la]) (use inv1 la t in \<open>auto simp: trans_inv_def counts_def\<close>)
  then have "trans_inv (st1\<lparr>tmem := (tmem st1)(a \<mapsto> t\<lparr>status := TRANS_ABORTED\<rparr>)\<rparr>) ?A" by (cases A) simp
  from inv_unref [OF this, of a] obtain st2 where
    "trans_unref a (st1\<lparr>tmem := (tmem st1)(a \<mapsto> t\<lparr>status := TRANS_ABORTED\<rparr>)\<rparr>) = Some st2"
    "trans_inv st2 (view_step (TUnref a) ?A)"
    by auto
  moreover have "live (view_step (TUnref a) ?A) = live A" using a(2) by (simp add: remove1_append)
  ultimately show ?thesis using st1(1) ab by auto
qed

text \<open>A client that connects and closes the connection leaves no trace: the service returns, the
  registry is as before, and its transaction has been aborted and freed.\<close>

theorem service_disconnect:
  assumes "trans_inv (ts (sdata s)) A" "a \<noteq> trans_list" "a \<notin> set (live A)"
    "\<forall>b \<in> set (live A). one_dependency (ts (sdata s)) b"
    "creg_register fd cr = Some cr1" "fd \<noteq> - 1" "fd \<notin> set (fdbuf cr)" "- 1 \<in> set (fdbuf cr)"
    "sin s = Chunk [] # es"
  shows "\<exists>s' A'. xacto_client_service E fd (Some a) cr s = Some (Done (cr, s')) \<and>
    trans_inv (ts (sdata s')) A' \<and> live A' = live A \<and> sout s' = sout s"
proof -
  obtain st1 st2 A' where st: "trans_create (Some a) (ts (sdata s)) = Some (Some a, st1)"
    "trans_abort a st1 = Some (Done st2)" "trans_inv st2 A'" "live A' = live A"
    using create_abort [OF assms(1-4)] by blast
  have u: "creg_unregister fd cr1 = Some cr" by (rule unregister_restores [OF assms(5-8)])
  let ?s = "s\<lparr>sdata := (sdata s)\<lparr>ts := st1\<rparr>, datap := None, isCommit := False\<rparr>"
  let ?p = "bytes_packet (packet_bytes (spkt s))"
  have r: "recv E ?s = Some (False, ?s\<lparr>spkt := ?p, sin := es, mallocs := mallocs s + 1\<rparr>)"
    using assms(9) by (simp add: recv_def proto_recv_packet_def rio_readn_def Let_def)
  have "serve_loop E (Some a) ?s = Some (?s\<lparr>spkt := ?p, sin := es, mallocs := mallocs s + 1\<rparr>)"
    by (subst serve_loop.simps) (simp add: r)
  then have x: "xacto_client_service E fd (Some a) cr s = Some (Done (cr,
      (?s\<lparr>spkt := ?p, sin := es, mallocs := mallocs s + 1\<rparr>)\<lparr>sdata := (sdata s)\<lparr>ts := st2\<rparr>\<rparr>))"
    (is "_ = Some (Done (cr, ?s'))")
    using assms(5) st(1,2) u by (simp add: xacto_client_service_def Let_def)
  have "trans_inv (ts (sdata ?s')) A'" "sout ?s' = sout s" using st(3) by simp_all
  then show ?thesis using x st(4) by blast
qed

subsection \<open>Shutting down\<close>

text \<open>\<open>terminate\<close> returns once the service threads have emptied the table: it has shut down every
  connection that was registered and freed every transaction.\<close>

theorem terminate_completes:
  assumes "0 < mutex cr" "lock cr = 1" "\<forall>k \<ge> K. \<forall>i \<le> 1023. obs k i = - 1" "trans_inv st A"
  shows "\<exists>st'. terminate obs cr st = Some (filter (\<lambda>fd. fd \<noteq> - 1) (fdbuf cr), st') \<and>
    dom (tmem st') = {trans_list}"
proof -
  obtain r where r: "wait_loop obs 0 False 0 = Some r" using wait_loop_returns [OF assms(3)] by blast
  obtain st' where st': "trans_fini st = Some st'" "dom (tmem st') = {trans_list}"
    using trans_fini_all [OF assms(4)] by blast
  show ?thesis using r st' assms(1,2)
    by (simp add: terminate_def creg_shutdown_all_def creg_wait_for_empty_def sem_wait_def Let_def)
qed

subsection \<open>Witnesses\<close>

definition env0 :: env where
  "env0 = \<lparr>alloc = (\<lambda>n. 1000 + n), junk = (\<lambda>_. []), clock = (\<lambda>_. (0, 0)),
     store_get = (\<lambda>tr k d. Some (TRANS_PENDING, None, d)), store_put = (\<lambda>tr k v d. Some (TRANS_PENDING, d)),
     commit_obs = (\<lambda>_ _. None)\<rparr>"

definition session0 :: session where
  "session0 = \<lparr>sdata = data0\<lparr>ts := the (trans_init tstate0)\<rparr>, spkt = no_packet, datap = None,
     sin = [Chunk []], sout = [], swr = [], mallocs = 0, ticks = 0, isCommit = False\<rparr>"

lemma service_disconnect_witness:
  "\<exists>s' A'. xacto_client_service env0 7 (Some 8) creg_init session0 = Some (Done (creg_init, s')) \<and>
    trans_inv (ts (sdata s')) A' \<and> live A' = [] \<and> sout s' = []"
proof -
  obtain cr' where "creg_register 7 creg_init = Some cr'"
    by (simp add: creg_register_def creg_init_def sem_wait_def Let_def)
  moreover have "trans_inv (ts (sdata session0)) no_trans" using tstate0_inv by (simp add: session0_def)
  ultimately show ?thesis
    using service_disconnect [of session0 no_trans 8 7 creg_init cr' "[]" env0]
    by (simp add: session0_def no_trans_def trans_list_def creg_init_def)
qed

text \<open>One transaction in a proper ring, and the packet of a payload "ab" with its terminator.\<close>

definition one_view :: tview where
  "one_view = fold view_step [TCreate 8] no_trans"

definition one :: tstate where
  "one = the (run_steps trans_step [TCreate 8] (the (trans_init tstate0)))"

lemma one_inv: "trans_inv one one_view"
proof -
  have "all_pre client_ok view_step [TCreate 8] no_trans"
    by (simp add: no_trans_def trans_list_def)
  from transactions.run [OF tstate0_inv this] show ?thesis by (auto simp: one_def one_view_def)
qed

definition session1 :: session where
  "session1 = session0\<lparr>sdata := data0\<lparr>ts := one\<rparr>,
     sin := [Chunk [4, 0, 0, 0, 0, 0, 0, 3, 0, 0, 0, 0, 0, 0, 0, 0], Chunk [97, 98, 0]]\<rparr>"

lemma serve_commit_use_after_free_witness:
  "\<exists>st'. trans_commit (commit_obs env0) 8 one = Some (TRANS_COMMITTED, st') \<and> tmem st' 8 = None \<and>
    serve_commit env0 8 session1 = None"
proof -
  have "\<exists>t. tmem one 8 = Some t \<and> refcnt t = 1 \<and> depends t = []"
    by (simp add: one_def tstate0_def trans_init_def trans_create_def trans_ops trans_list_def Let_def)
  then obtain t where "tmem one 8 = Some t" "refcnt t = 1" "depends t = []" by blast
  then show ?thesis
    using serve_commit_use_after_free [of session1 one_view 8 t env0] one_inv
    by (auto simp: session1_def one_view_def no_trans_def)
qed

lemma serve_get_put_overread_witness:
  "\<exists>s1 b s2. recv env0 session1 = Some (True, s1) \<and> payload_blob env0 s1 = Some (b, s2) \<and>
    blob_hash b (sdata s2) = None \<and> serve_get env0 8 session1 = None \<and> serve_put env0 8 session1 = None"
proof -
  have "case recv env0 session1 of Some (True, s1) \<Rightarrow> datap s1 = Some [97, 98, 0] | _ \<Rightarrow> False"
    by code_simp
  then obtain s1 where "recv env0 session1 = Some (True, s1)" "datap s1 = Some [97, 98, 0]"
    by (auto split: option.splits bool.splits)
  then show ?thesis
    using serve_get_put_overread [of env0 s1 session1 True "[97, 98, 0]" 8] by (auto simp: env0_def)
qed

lemma terminate_completes_witness:
  "\<exists>st'. terminate (\<lambda>k i. if k < 5 then 9 else - 1) (creg_init\<lparr>fdbuf := replicate 1023 (- 1) @ [9]\<rparr>) four =
      Some ([9], st') \<and> dom (tmem st') = {trans_list}"
  using terminate_completes [of "creg_init\<lparr>fdbuf := replicate 1023 (- 1) @ [9]\<rparr>" 5
      "\<lambda>k i. if k < 5 then 9 else - 1", OF _ _ _ four_inv]
  by (simp add: creg_init_def)

end
