(* ===== verification/C_Getopt.thy ===== *)
theory C_Getopt
  imports C_Prelude
begin

text \<open>
  \<open>getopt\<close>, \<open>getopt_long\<close> and \<open>atoi\<close> of the C library. \<open>getopt\<close> has a state of its own (it moves
  \<open>optind\<close> and may permute the arguments) and is a record of operations: \<open>go_start\<close> is the state for an
  argument vector, \<open>go_next\<close> a call, with its value and \<open>optarg\<close>. \<open>getopt\<close> is \<open>getopt_long\<close> without
  long options. The value of \<open>atoi\<close> is undefined when the number does not fit into an int, a fault
  here.
\<close>

text \<open>The entries of \<open>long_options\<close>: name, whether an argument is required, and value.\<close>

type_synonym long_option = "cstr \<times> bool \<times> int"

record 'g getopt =
  go_start :: "cstr list \<Rightarrow> 'g"
  go_next :: "cstr \<Rightarrow> long_option list \<Rightarrow> 'g \<Rightarrow> int \<times> cstr option \<times> 'g"
  go_argv :: "'g \<Rightarrow> cstr list"
  go_optind :: "'g \<Rightarrow> nat"

definition getopt_short :: "'g getopt \<Rightarrow> cstr \<Rightarrow> 'g \<Rightarrow> int \<times> cstr option \<times> 'g" where
  "getopt_short G opts g = go_next G opts [] g"

text \<open>The documented behaviour at the end of the options: the value is -1, \<open>optind\<close> is the index of the first
  argument that is not an option, and further calls change nothing.\<close>

definition no_more_options :: "'g getopt \<Rightarrow> cstr \<Rightarrow> 'g \<Rightarrow> bool" where
  "no_more_options G opts g \<longleftrightarrow> (\<exists>oa. getopt_short G opts g = (-1, oa, g))"

fun digits_value :: "int \<Rightarrow> byte list \<Rightarrow> int" where
  "digits_value v [] = v"
| "digits_value v (c # str) = (if 48 \<le> c \<and> c \<le> 57 then digits_value (10 * v + int (unat (c - 48))) str else v)"

definition atoi :: "cstr \<Rightarrow> int option" where
  "atoi str = (let str = dropWhile (\<lambda>c. c = 32 \<or> 9 \<le> c \<and> c \<le> 13) str;
     v = (case str of [] \<Rightarrow> 0
       | c # r \<Rightarrow> if c = 45 then - digits_value 0 r else if c = 43 then digits_value 0 r else digits_value 0 str)
     in if - (2 ^ 31) \<le> v \<and> v < 2 ^ 31 then Some v else None)"

text \<open>A \<open>getopt\<close> for arguments that hold one short option each: it skips arguments that are no options, and
  has \<open>?\<close> (63) for an option that the string does not name.\<close>

fun takes_argument :: "byte \<Rightarrow> byte list \<Rightarrow> bool option" where
  "takes_argument c (x # str) =
     (if x \<noteq> 58 \<and> x = c then Some (str \<noteq> [] \<and> hd str = 58) else takes_argument c str)"
| "takes_argument c [] = None"

definition skip_next :: "cstr \<Rightarrow> long_option list \<Rightarrow> cstr list \<times> nat \<Rightarrow> int \<times> cstr option \<times> cstr list \<times> nat" where
  "skip_next opts longs = (\<lambda>(argv, i).
     (case find (\<lambda>j. length (argv ! j) = 2 \<and> hd (argv ! j) = 45) [i..<length argv] of
       None \<Rightarrow> (-1, None, argv, i)
     | Some j \<Rightarrow> (let c = argv ! j ! 1 in
         case takes_argument c opts of
           None \<Rightarrow> (63, None, argv, j + 1)
         | Some a \<Rightarrow> if \<not> a then (int (unat c), None, argv, j + 1)
             else if j + 1 < length argv then (int (unat c), Some (argv ! (j + 1)), argv, j + 2)
             else (63, None, argv, j + 1))))"

definition skip_getopt :: "(cstr list \<times> nat) getopt" where
  "skip_getopt = \<lparr>go_start = (\<lambda>argv. (argv, 1)), go_next = skip_next, go_argv = fst, go_optind = snd\<rparr>"

end
