(* ===== verification/Xacto_Main.thy ===== *)
theory Xacto_Main
  imports Xacto_Server C_Getopt
begin

text \<open>
  hw5/src/main.c: the options, the initialisation, and the loop that accepts connections until SIGHUP.
  Whether \<open>Open_listenfd\<close> succeeds on a port is a parameter; the loop runs over the results of \<open>accept\<close>
  (-1 for an error) and the signals in the order in which they arrive; \<open>Progress\<close> stands for what the service
  threads (\<open>xacto_client_service\<close>, in Xacto_Server) meanwhile make of the registry and of the transactions.
  \<open>store_init\<close> has no source.
\<close>

subsection \<open>Options\<close>

text \<open>\<open>port\<close> is -1 until an option sets it. \<^term>\<open>None\<close> is a fault or a loop that does not end.\<close>

partial_function (option) port_loop :: "'g getopt \<Rightarrow> 'g \<Rightarrow> int \<Rightarrow> int outcome option" where
  "port_loop G g port =
     (if go_optind G g < length (go_argv G g) then
        (let (v, optarg, g') = getopt_short G (cs ''p:'') g in
          if v \<noteq> -1 then
            (if v = 112 then do {
               a \<leftarrow> optarg;
               port \<leftarrow> atoi a;
               port_loop G g' port
             }
             else if v = 63 then Some Abort
             else port_loop G g' port)
          else port_loop G g' port)
      else Some (Done port))"

definition server_port :: "'g getopt \<Rightarrow> cstr list \<Rightarrow> int outcome option" where
  "server_port G argv =
     (if length argv = 1 then Some Abort
      else do {
        r \<leftarrow> port_loop G (go_start G argv) (-1);
        (case r of Abort \<Rightarrow> Some Abort | Done port \<Rightarrow> if port = -1 then Some Abort else Some (Done port))
      })"

subsection \<open>Connections\<close>

datatype server_event = Accept u32 | Progress creg tstate | Signal int

record server =
  threads :: "u32 list"
  registry :: creg
  transactions :: tstate

text \<open>\<open>handle_signal\<close> ends the program on SIGHUP, which is 1. \<open>obs\<close> is what the wait in \<open>terminate\<close> reads.\<close>

definition handle_signal :: "(nat \<Rightarrow> nat \<Rightarrow> u32) \<Rightarrow> int \<Rightarrow> server \<Rightarrow> (u32 list \<times> tstate) option option" where
  "handle_signal obs sig s =
     (if sig = 1 then do { r \<leftarrow> terminate obs (registry s) (transactions s); Some (Some r) } else Some None)"

text \<open>The server that is still running, or what \<open>terminate\<close> left.\<close>

fun accept_loop :: "(nat \<Rightarrow> nat \<Rightarrow> u32) \<Rightarrow> server_event list \<Rightarrow> server \<Rightarrow> (server + u32 list \<times> tstate) option" where
  "accept_loop obs [] s = Some (Inl s)"
| "accept_loop obs (Accept fd # es) s = accept_loop obs es (s\<lparr>threads := threads s @ [fd]\<rparr>)"
| "accept_loop obs (Progress cr st # es) s = accept_loop obs es (s\<lparr>registry := cr, transactions := st\<rparr>)"
| "accept_loop obs (Signal sig # es) s = do {
     r \<leftarrow> handle_signal obs sig s;
     (case r of None \<Rightarrow> accept_loop obs es s | Some x \<Rightarrow> Some (Inr x))
   }"

definition server_main :: "'g getopt \<Rightarrow> (int \<Rightarrow> bool) \<Rightarrow> (nat \<Rightarrow> nat \<Rightarrow> u32) \<Rightarrow> cstr list \<Rightarrow> tstate \<Rightarrow> server_event list \<Rightarrow>
    (server + u32 list \<times> tstate) outcome option" where
  "server_main G listens obs argv st es = do {
     r \<leftarrow> server_port G argv;
     (case r of
       Abort \<Rightarrow> Some Abort
     | Done port \<Rightarrow> do {
         st \<leftarrow> trans_init st;
         if listens port then do {
           x \<leftarrow> accept_loop obs es \<lparr>threads = [], registry = creg_init, transactions = st\<rparr>;
           Some (Done x)
         }
         else Some Abort
       })
   }"

declare port_loop.simps [code]

subsection \<open>Properties\<close>

text \<open>An argument that is not an option, after the options: the loop waits for \<open>optind\<close> to reach the end, but \<open>getopt\<close>
  does not move it any more.\<close>

lemma port_loop_stuck:
  assumes "no_more_options G (cs ''p:'') g" "go_optind G g < length (go_argv G g)"
  shows "port_loop G g port \<noteq> Some r"
proof
  assume "port_loop G g port = Some r"
  then have "no_more_options G (cs ''p:'') g \<longrightarrow> \<not> go_optind G g < length (go_argv G g)"
  proof (induction rule: port_loop.raw_induct [rotated 1, consumes 1, case_names step])
    case (step loop G g port r)
    then show ?case by (auto simp: no_more_options_def Let_def split: if_splits)
  qed
  then show False using assms by blast
qed

text \<open>The port is the number after the last \<open>-p\<close>.\<close>

lemma port_loop_option:
  assumes "getopt_short G (cs ''p:'') g = (112, Some a, g')" "go_optind G g < length (go_argv G g)" "atoi a = Some p"
  shows "port_loop G g port = port_loop G g' p"
  using assms by (subst port_loop.simps) simp

text \<open>A main program that does not end on \<open>xacto -p PORT ARG\<close>.\<close>

theorem server_main_hangs:
  assumes "go_argv G (go_start G argv) = argv" "go_optind G (go_start G argv) = 1" "argv = [name, opt, a, extra]"
    and "getopt_short G (cs ''p:'') (go_start G argv) = (112, Some a, g)" "atoi a = Some p"
    and "no_more_options G (cs ''p:'') g" "go_optind G g < length (go_argv G g)"
  shows "server_main G listens obs argv st es = None"
proof -
  have "port_loop G (go_start G argv) (-1) = port_loop G g p"
    using port_loop_option [OF assms(4) _ assms(5)] assms(1-3) by simp
  then have "port_loop G (go_start G argv) (-1) = None"
    using port_loop_stuck [OF assms(6,7)] by (cases "port_loop G g p") auto
  then show ?thesis using assms(3) by (simp add: server_main_def server_port_def)
qed

theorem server_main_hangs_witness:
  "server_main skip_getopt (\<lambda>_. True) obs [cs ''xacto'', cs ''-p'', cs ''80'', cs ''now''] st es = None"
  by (rule server_main_hangs [where G = skip_getopt and name = "cs ''xacto''" and opt = "cs ''-p''" and a = "cs ''80''"
        and extra = "cs ''now''" and p = 80 and g = "([cs ''xacto'', cs ''-p'', cs ''80'', cs ''now''], 3)"])
    (simp_all add: skip_getopt_def skip_next_def upt_conv_Cons getopt_short_def no_more_options_def atoi_def)

text \<open>With \<open>-p PORT\<close> alone the server starts a thread for every result of \<open>accept\<close>, errors included.\<close>

lemma accept_loop_threads:
  "accept_loop obs (map Accept fds) s = Some (Inl (s\<lparr>threads := threads s @ fds\<rparr>))"
  by (induction fds arbitrary: s) simp_all

lemma server_main_serves:
  assumes "go_argv G (go_start G argv) = argv" "go_optind G (go_start G argv) = 1" "argv = [name, opt, a]"
    and "getopt_short G (cs ''p:'') (go_start G argv) = (112, Some a, g)" "atoi a = Some p" "p \<noteq> -1"
    and "go_optind G g = length (go_argv G g)" "listens p" "trans_init st = Some st'"
  shows "server_main G listens obs argv st (map Accept fds) =
    Some (Done (Inl \<lparr>threads = fds, registry = creg_init, transactions = st'\<rparr>))"
proof -
  have "port_loop G (go_start G argv) (-1) = port_loop G g p"
    using port_loop_option [OF assms(4) _ assms(5)] assms(1-3) by simp
  moreover have "port_loop G g p = Some (Done p)" using assms(7) by (subst port_loop.simps) simp
  ultimately have "server_port G argv = Some (Done p)" using assms(3,6) by (simp add: server_port_def)
  then show ?thesis using assms(8,9) by (simp add: server_main_def accept_loop_threads)
qed

end
