(* ===== verification/Imp_Spooler.thy ===== *)
theory Imp_Spooler
  imports C_Prelude
begin

text \<open>
  The printer spooler of hw4/src/main.c: the command file (\<open>-i\<close>) and the interactive loop, with the
  scheduling pass at the end of each interactive command. Lines are byte lists without zero bytes.
  The arrays keep their sizes (40 tokens, 10 name components, 100 types and conversions, 32
  printers, 1024 jobs, 100 bytes per copied string): writing behind one is \<^term>\<open>None\<close>. The text
  that imp_util.o (no source) formats is kept as the event of formatting it; the clock is the
  parameter \<open>T\<close>. \<open>h\<close>, the number of tokens, is the length of the token list.
\<close>

subsection \<open>Data\<close>

datatype job_status = QUEUED | RUNNING | PAUSED | COMPLETED | ABORTED

record printer =
  p_id :: nat
  p_name :: cstr
  p_type :: cstr
  p_enabled :: bool
  p_busy :: bool

record job =
  j_id :: nat
  j_status :: job_status
  j_file :: cstr
  j_type :: cstr
  j_eligible :: u32
  j_chosen :: "nat option"
  j_created :: nat
  j_changed :: nat

datatype event = Error string | Help | Connect printer | Printer_status printer | Job_status job

record spool =
  s_types :: "cstr list"
  s_convs :: "(cstr \<times> cstr \<times> cstr) list"
  s_printers :: "printer list"
  s_jobs :: "job list"
  s_out :: "event list"
  s_ticks :: nat

definition say :: "event list \<Rightarrow> spool \<Rightarrow> spool" where
  "say es s = s\<lparr>s_out := s_out s @ es\<rparr>"

definition ANY_PRINTER :: u32 where
  "ANY_PRINTER = 0xffffffff"

subsection \<open>Strings\<close>

text \<open>\<open>strtok\<close> with one separator: the components between separators, empty ones skipped.\<close>

fun tokens_from :: "byte \<Rightarrow> byte list \<Rightarrow> byte list \<Rightarrow> byte list list" where
  "tokens_from sep cur [] = (if cur = [] then [] else [cur])"
| "tokens_from sep cur (c # str) =
     (if c = sep then (if cur = [] then tokens_from sep [] str else cur # tokens_from sep [] str)
      else tokens_from sep (cur @ [c]) str)"

definition strtok_all :: "byte \<Rightarrow> byte list \<Rightarrow> byte list list" where
  "strtok_all sep str = tokens_from sep [] str"

text \<open>\<open>strcpy\<close> into a buffer of 100 bytes.\<close>

definition copy100 :: "cstr \<Rightarrow> cstr option" where
  "copy100 str = (if length str < 100 then Some str else None)"

definition push :: "nat \<Rightarrow> 'a \<Rightarrow> 'a list \<Rightarrow> 'a list option" where
  "push n x xs = (if length xs < n then Some (xs @ [x]) else None)"

subsection \<open>Configuration commands\<close>

fun str_in :: "cstr \<Rightarrow> cstr list \<Rightarrow> bool" where
  "str_in x [] \<longleftrightarrow> False"
| "str_in x (y # ys) \<longleftrightarrow> y = x \<or> str_in x ys"

definition do_type :: "cstr \<Rightarrow> spool \<Rightarrow> spool option" where
  "do_type ty s =
     (if str_in ty (s_types s) then Some (say [Error ''Duplicate type''] s)
      else do {
        t \<leftarrow> copy100 ty;
        ts \<leftarrow> push 100 t (s_types s);
        Some (s\<lparr>s_types := ts\<rparr>)
      })"

text \<open>The result tells whether \<open>continue\<close> was executed.\<close>

definition do_printer :: "cstr \<Rightarrow> cstr \<Rightarrow> spool \<Rightarrow> (bool \<times> spool) option" where
  "do_printer name ty s = do {
     let s = (if 32 \<le> length (s_printers s)
       then say [Error ''Exceed the maximum number of printers''] s else s);
     if str_in name (map p_name (s_printers s)) then
       Some (True, say [Error ''Invalid printer name''] s)
     else if \<not> str_in ty (s_types s) then Some (True, say [Error ''Invalid file type''] s)
     else do {
       n \<leftarrow> copy100 name;
       t \<leftarrow> copy100 ty;
       let p = \<lparr>p_id = length (s_printers s), p_name = n, p_type = t, p_enabled = False, p_busy = False\<rparr>;
       ps \<leftarrow> push 32 p (s_printers s);
       Some (False, say [Connect p, Printer_status p] (s\<lparr>s_printers := ps\<rparr>))
     }
   }"

fun conv_exists :: "cstr \<Rightarrow> cstr \<Rightarrow> cstr \<Rightarrow> (cstr \<times> cstr \<times> cstr) list \<Rightarrow> bool" where
  "conv_exists name src dest [] \<longleftrightarrow> False"
| "conv_exists name src dest ((n, s, d) # cv) \<longleftrightarrow>
     n = name \<or> s = src \<and> d = dest \<or> conv_exists name src dest cv"

text \<open>The error for an undeclared type does not keep the conversion from being added.\<close>

definition do_conversion :: "cstr \<Rightarrow> cstr \<Rightarrow> cstr \<Rightarrow> cstr list \<Rightarrow> spool \<Rightarrow> (bool \<times> spool) option" where
  "do_conversion src dest prog args s = do {
     let s = (if \<not> str_in dest (s_types s) \<or> \<not> str_in src (s_types s)
       then say [Error ''Invalid target file type''] s else s);
     name \<leftarrow> (if args = [] then Some prog
             else copy100 (prog @ concat (map (\<lambda>a. ch CHR '' '' # a) args)));
     if conv_exists name src dest (s_convs s) then
       Some (True, say [Error ''Conversion program already exists''] s)
     else do {
       n \<leftarrow> copy100 name;
       a \<leftarrow> copy100 src;
       b \<leftarrow> copy100 dest;
       cv \<leftarrow> push 100 (n, a, b) (s_convs s);
       Some (False, s\<lparr>s_convs := cv\<rparr>)
     }
   }"

subsection \<open>Print jobs\<close>

fun find_printer :: "cstr \<Rightarrow> printer list \<Rightarrow> printer option" where
  "find_printer name [] = None"
| "find_printer name (p # ps) = (if p_name p = name then Some p else find_printer name ps)"

text \<open>\<open>temp += pow(2, id)\<close> is computed in double precision; converting a sum that does not fit in
  32 bits back is undefined.\<close>

definition add_bit :: "u32 \<Rightarrow> nat \<Rightarrow> u32 option" where
  "add_bit temp i = (if unat temp + 2 ^ i < 2 ^ 32 then Some (temp + 2 ^ i) else None)"

fun eligible_loop :: "printer list \<Rightarrow> cstr list \<Rightarrow> u32 \<Rightarrow> nat \<Rightarrow> (u32 \<times> nat) option" where
  "eligible_loop ps [] temp n = Some (temp, n)"
| "eligible_loop ps (a # args) temp n = (case find_printer a ps of
     None \<Rightarrow> eligible_loop ps args temp n
   | Some p \<Rightarrow> do { temp \<leftarrow> add_bit temp (p_id p); eligible_loop ps args temp (n + 1) })"

text \<open>The type is the last component of the file name. A name without one leaves \<open>jobarray\<close> unwritten,
  and comparing its entry before the first with a declared type is a fault.\<close>

definition add_job :: "bool \<Rightarrow> (nat \<Rightarrow> nat) \<Rightarrow> cstr \<Rightarrow> u32 \<Rightarrow> spool \<Rightarrow> (bool \<times> spool) option" where
  "add_job verbose T file eligible s = do {
     f \<leftarrow> copy100 file;
     let parts = strtok_all (ch CHR ''.'') file;
     if 10 < length parts \<or> parts = [] \<and> s_types s \<noteq> [] then None
     else if parts = [] \<or> \<not> str_in (last parts) (s_types s) then Some (True, say [Error ''Unsupported file type''] s)
     else do {
       t \<leftarrow> copy100 (last parts);
       let j = \<lparr>j_id = length (s_jobs s), j_status = QUEUED, j_file = f, j_type = t,
         j_eligible = eligible, j_chosen = None, j_created = T (s_ticks s), j_changed = T (s_ticks s + 1)\<rparr>;
       js \<leftarrow> push 1024 j (s_jobs s);
       let s = s\<lparr>s_jobs := js, s_ticks := s_ticks s + 2\<rparr>;
       Some (False, if verbose then say [Job_status j] s else s)
     }
   }"

definition do_print :: "bool \<Rightarrow> (nat \<Rightarrow> nat) \<Rightarrow> cstr \<Rightarrow> cstr list \<Rightarrow> spool \<Rightarrow> (bool \<times> spool) option" where
  "do_print verbose T file args s =
     (if args = [] then add_job verbose T file ANY_PRINTER s
      else do {
        (temp, n) \<leftarrow> eligible_loop (s_printers s) args 0 0;
        if n \<noteq> length args then Some (True, say [Error ''Invalid printer''] s)
        else add_job verbose T file temp s
      })"

subsection \<open>Commands on existing jobs and printers\<close>

text \<open>\<open>cancel\<close> aborts every queued job with that file name; the number of jobs aborted is the number
  of times the clock is read into \<open>jobs[jobcount]\<close>, which is no job.\<close>

fun cancel_loop :: "cstr \<Rightarrow> job list \<Rightarrow> job list \<times> nat" where
  "cancel_loop file [] = ([], 0)"
| "cancel_loop file (j # js) = (let (r, n) = cancel_loop file js in
     if j_file j = file \<and> j_status j = QUEUED then (j\<lparr>j_status := ABORTED\<rparr> # r, n + 1)
     else (j # r, n))"

definition do_cancel :: "cstr \<Rightarrow> spool \<Rightarrow> spool option" where
  "do_cancel file s = (let (js, n) = cancel_loop file (s_jobs s) in
     if 0 < n \<and> 1024 \<le> length (s_jobs s) then None
     else Some (s\<lparr>s_jobs := js, s_ticks := s_ticks s + n\<rparr>))"

text \<open>Both loops stop at a printer of that name that is already in the wanted state, and then
  report an invalid name too.\<close>

fun disable_loop :: "cstr \<Rightarrow> printer list \<Rightarrow> bool \<Rightarrow> printer list \<times> bool \<times> event list" where
  "disable_loop name [] valid = ([], valid, [])"
| "disable_loop name (p # ps) valid =
     (if p_name p = name then
        (if \<not> p_enabled p then (p # ps, valid, [Error ''Printer already disabled.''])
         else (let p = p\<lparr>p_enabled := False\<rparr>; (r, v, es) = disable_loop name ps True
               in (p # r, v, Printer_status p # es)))
      else (let (r, v, es) = disable_loop name ps valid in (p # r, v, es)))"

fun enable_loop :: "cstr \<Rightarrow> printer list \<Rightarrow> bool \<Rightarrow> printer list \<times> bool \<times> event list" where
  "enable_loop name [] valid = ([], valid, [])"
| "enable_loop name (p # ps) valid =
     (if p_name p = name then
        (if p_enabled p then (p # ps, valid, [Error ''Printer already enabled.''])
         else (let p = p\<lparr>p_enabled := True\<rparr>; (r, v, es) = enable_loop name ps True
               in (p # r, v, Printer_status p # es)))
      else (let (r, v, es) = enable_loop name ps valid in (p # r, v, es)))"

definition do_disable :: "cstr \<Rightarrow> spool \<Rightarrow> spool" where
  "do_disable name s = (let (ps, valid, es) = disable_loop name (s_printers s) False in
     say (es @ (if valid then [] else [Error ''Invalid printer name''])) (s\<lparr>s_printers := ps\<rparr>))"

definition do_enable :: "cstr \<Rightarrow> spool \<Rightarrow> spool" where
  "do_enable name s = (let (ps, valid, es) = enable_loop name (s_printers s) False in
     say (es @ (if valid then [] else [Error ''Invalid printer name''])) (s\<lparr>s_printers := ps\<rparr>))"

subsection \<open>Scheduling\<close>

definition can_print :: "job \<Rightarrow> printer \<Rightarrow> bool" where
  "can_print j p \<longleftrightarrow> j_type j = p_type p \<and> j_status j = QUEUED \<and> \<not> p_busy p \<and> p_enabled p \<and>
     j_eligible j AND 2 ^ p_id p \<noteq> 0"

fun first_printer :: "job \<Rightarrow> nat \<Rightarrow> printer list \<Rightarrow> nat option" where
  "first_printer j i [] = None"
| "first_printer j i (p # ps) = (if can_print j p then Some i else first_printer j (i + 1) ps)"

text \<open>The printer whose status is reported has the index of the job.\<close>

definition start_job :: "(nat \<Rightarrow> nat) \<Rightarrow> nat \<Rightarrow> nat \<Rightarrow> spool \<Rightarrow> spool option" where
  "start_job T i k s = do {
     let j = (s_jobs s ! i)\<lparr>j_status := RUNNING, j_chosen := Some k, j_changed := T (s_ticks s)\<rparr>;
     let p = (s_printers s ! k)\<lparr>p_busy := True\<rparr>;
     let s = s\<lparr>s_jobs := (s_jobs s)[i := j], s_printers := (s_printers s)[k := p], s_ticks := s_ticks s + 1\<rparr>;
     q \<leftarrow> buf_get (s_printers s) i;
     Some (say [Printer_status q, Job_status j] s)
   }"

lemma start_job_length:
  "start_job T i k s = Some s' \<Longrightarrow>
   length (s_jobs s') = length (s_jobs s) \<and> length (s_printers s') = length (s_printers s)"
  by (auto simp: start_job_def say_def Let_def bind_eq_Some_conv)

function schedule_from :: "(nat \<Rightarrow> nat) \<Rightarrow> nat \<Rightarrow> spool \<Rightarrow> spool option" where
  "schedule_from T i s =
     (if i < length (s_jobs s) then
        (case first_printer (s_jobs s ! i) 0 (s_printers s) of
           None \<Rightarrow> schedule_from T (i + 1) s
         | Some k \<Rightarrow> (case start_job T i k s of None \<Rightarrow> None | Some s \<Rightarrow> schedule_from T (i + 1) s))
      else Some s)"
  by pat_completeness auto

termination
  by (relation "measure (\<lambda>(T, i, s). length (s_jobs s) - i)") (auto dest: start_job_length)

declare schedule_from.simps [simp del]

definition schedule :: "(nat \<Rightarrow> nat) \<Rightarrow> spool \<Rightarrow> spool option" where
  "schedule T s = schedule_from T 0 s"

subsection \<open>The command file\<close>

datatype flow = Next | Continue | Break | Quit

abbreviation continued :: "bool \<times> spool \<Rightarrow> flow \<times> spool" where
  "continued r \<equiv> (if fst r then Continue else Next, snd r)"

definition batch_configure :: "cstr list \<Rightarrow> spool \<Rightarrow> (flow \<times> spool) option option" where
  "batch_configure array s = (case array of
     [c, a] \<Rightarrow> if c = cs ''type'' then Some (do { s \<leftarrow> do_type a s; Some (Next, s) }) else None
   | [c, a, b] \<Rightarrow> if c = cs ''printer'' then Some (do { r \<leftarrow> do_printer a b s; Some (continued r) }) else None
   | c # a # b # p # args \<Rightarrow> if c = cs ''conversion''
       then Some (do { r \<leftarrow> do_conversion a b p args s; Some (continued r) }) else None
   | _ \<Rightarrow> None)"

definition batch_spool :: "(nat \<Rightarrow> nat) \<Rightarrow> cstr list \<Rightarrow> spool \<Rightarrow> (flow \<times> spool) option" where
  "batch_spool T array s = (case array of
     [c] \<Rightarrow>
       if c = cs ''printers'' then Some (Next, say (map Printer_status (s_printers s)) s)
       else if c = cs ''jobs'' then Some (Next, say (map Job_status (s_jobs s)) s)
       else Some (Next, say [Error ''Invalid command''] s)
   | c # f # args \<Rightarrow>
       if c = cs ''print'' then do { r \<leftarrow> do_print False T f args s; Some (continued r) }
       else if args = [] \<and> c \<in> {cs ''cancel'', cs ''pause'', cs ''resume'', cs ''disable'', cs ''enable''}
       then Some (Break, s)
       else Some (Next, say [Error ''Invalid command''] s)
   | [] \<Rightarrow> Some (Continue, s))"

definition batch_command :: "(nat \<Rightarrow> nat) \<Rightarrow> cstr list \<Rightarrow> spool \<Rightarrow> (flow \<times> spool) option" where
  "batch_command T array s =
     (if array = [] then Some (Continue, s)
      else if array = [cs ''help''] then Some (Next, say [Help] s)
      else if array = [cs ''quit''] then Some (Quit, s)
      else (case batch_configure array s of Some r \<Rightarrow> r | None \<Rightarrow> batch_spool T array s))"

definition split_line :: "byte list \<Rightarrow> cstr list option" where
  "split_line line = (let array = strtok_all (ch CHR '' '') line in
     if length array \<le> 40 then Some array else None)"

text \<open>\<open>fgets(line, 100, fp)\<close> and the removal of the newline.\<close>

fun fgets_loop :: "nat \<Rightarrow> byte list \<Rightarrow> byte list \<times> byte list" where
  "fgets_loop n [] = ([], [])"
| "fgets_loop 0 bs = ([], bs)"
| "fgets_loop (Suc n) (b # bs) =
     (if b = 10 then ([], bs) else (let (l, r) = fgets_loop n bs in (b # l, r)))"

lemma fgets_loop_shorter: "length (snd (fgets_loop n bs)) \<le> length bs"
  by (induction n bs rule: fgets_loop.induct) (auto simp: case_prod_unfold Let_def)

lemma fgets_loop_less:
  assumes "bs \<noteq> []"
  shows "length (snd (fgets_loop (Suc n) bs)) < length bs"
  using assms fgets_loop_shorter
  by (cases "bs") (auto simp: case_prod_unfold Let_def less_Suc_eq_le)

function batch_loop :: "(nat \<Rightarrow> nat) \<Rightarrow> byte list \<Rightarrow> spool \<Rightarrow> (flow \<times> spool) option" where
  "batch_loop T file s =
     (if file = [] then Some (Next, s)
      else (case split_line (fst (fgets_loop 99 file)) of
        None \<Rightarrow> None
      | Some array \<Rightarrow> (case batch_command T array s of
          None \<Rightarrow> None
        | Some (Quit, s) \<Rightarrow> Some (Quit, s)
        | Some (Break, s) \<Rightarrow> Some (Next, s)
        | Some (_, s) \<Rightarrow> batch_loop T (snd (fgets_loop 99 file)) s)))"
  by pat_completeness auto

termination
  by (relation "measure (\<lambda>(T, file, s). length file)")
    (use fgets_loop_less [of _ 98] in \<open>auto simp: numeral_eq_Suc\<close>)

declare batch_loop.simps [simp del]

subsection \<open>The interactive loop\<close>

definition interactive_configure :: "cstr list \<Rightarrow> spool \<Rightarrow> (flow \<times> spool) option option" where
  "interactive_configure array s = (case array of
     [c, a] \<Rightarrow> if c = cs ''type'' then Some (do { s \<leftarrow> do_type a s; Some (Next, s) }) else None
   | [c, a, b] \<Rightarrow> if c = cs ''printer'' then Some (do { r \<leftarrow> do_printer a b s; Some (continued r) }) else None
   | c # a # b # p # args \<Rightarrow> if c = cs ''conversion''
       then Some (do { r \<leftarrow> do_conversion a b p args s; Some (continued r) }) else None
   | _ \<Rightarrow> None)"

definition interactive_spool :: "(nat \<Rightarrow> nat) \<Rightarrow> cstr list \<Rightarrow> spool \<Rightarrow> (flow \<times> spool) option" where
  "interactive_spool T array s = (case array of
     [c] \<Rightarrow>
       if c = cs ''printers'' then Some (Next, say (map Printer_status (s_printers s)) s)
       else if c = cs ''jobs'' then Some (Next, say (map Job_status (s_jobs s)) s)
       else Some (Next, say [Error ''Invalid command''] s)
   | c # f # args \<Rightarrow>
       if c = cs ''print'' then do { r \<leftarrow> do_print True T f args s; Some (continued r) }
       else if c = cs ''cancel'' \<and> args = [] then do { s \<leftarrow> do_cancel f s; Some (Next, s) }
       else if c = cs ''pause'' \<and> args = [] then Some (Break, s)
       else if c = cs ''resume'' \<and> args = [] then Some (Break, s)
       else if c = cs ''disable'' \<and> args = [] then Some (Next, do_disable f s)
       else if c = cs ''enable'' \<and> args = [] then Some (Next, do_enable f s)
       else Some (Next, say [Error ''Invalid command''] s)
   | [] \<Rightarrow> Some (Continue, s))"

definition interactive_command :: "(nat \<Rightarrow> nat) \<Rightarrow> cstr list \<Rightarrow> spool \<Rightarrow> (flow \<times> spool) option" where
  "interactive_command T array s =
     (if array = [] then Some (Continue, s)
      else if array = [cs ''help''] then Some (Next, say [Help] s)
      else if array = [cs ''quit''] then Some (Break, s)
      else (case interactive_configure array s of Some r \<Rightarrow> r | None \<Rightarrow> interactive_spool T array s))"

text \<open>The loop over the lines that \<open>readline\<close> returns; \<open>continue\<close> skips the scheduling pass. The
  result tells whether the loop was left, and the program with it.\<close>

fun interactive_loop :: "(nat \<Rightarrow> nat) \<Rightarrow> byte list list \<Rightarrow> spool \<Rightarrow> (bool \<times> spool) option" where
  "interactive_loop T [] s = Some (False, s)"
| "interactive_loop T (line # lines) s = do {
     array \<leftarrow> split_line line;
     (f, s) \<leftarrow> interactive_command T array s;
     if f = Break then Some (True, s)
     else if f = Continue then interactive_loop T lines s
     else do { s \<leftarrow> schedule T s; interactive_loop T lines s }
   }"

definition spool0 :: spool where
  "spool0 = \<lparr>s_types = [], s_convs = [], s_printers = [], s_jobs = [], s_out = [], s_ticks = 0\<rparr>"

text \<open>\<open>main\<close> with the content of the command file, if there is one, and the lines typed.\<close>

definition imprimer :: "(nat \<Rightarrow> nat) \<Rightarrow> byte list option \<Rightarrow> byte list list \<Rightarrow> (bool \<times> spool) option" where
  "imprimer T file lines = (case file of
     None \<Rightarrow> interactive_loop T lines spool0
   | Some b \<Rightarrow> (case batch_loop T b spool0 of
       None \<Rightarrow> None
     | Some (f, s) \<Rightarrow> if f = Quit then Some (True, s) else interactive_loop T lines s))"

end
