(* ===== verification/Imp_Invariant.thy ===== *)
theory Imp_Invariant
  imports Imp_Spooler
begin

text \<open>
  The invariant of the spooler over every command file and session, what a scheduling pass
  guarantees, and the printer sets of jobs.
\<close>

subsection \<open>The invariant\<close>

definition runs :: "job list \<Rightarrow> nat \<Rightarrow> nat \<Rightarrow> bool" where
  "runs js i k \<longleftrightarrow> i < length js \<and> j_status (js ! i) = RUNNING \<and> j_chosen (js ! i) = Some k"

definition printers_ok :: "cstr list \<Rightarrow> printer list \<Rightarrow> bool" where
  "printers_ok tys ps \<longleftrightarrow> length ps \<le> 32 \<and> (\<forall>i < length ps. p_id (ps ! i) = i) \<and>
     distinct (map p_name ps) \<and> p_type ` set ps \<subseteq> set tys"

definition jobs_ok :: "cstr list \<Rightarrow> job list \<Rightarrow> bool" where
  "jobs_ok tys js \<longleftrightarrow> length js \<le> 1024 \<and> (\<forall>i < length js. j_id (js ! i) = i) \<and> j_type ` set js \<subseteq> set tys"

text \<open>Every running job has a busy printer of its type that it may use, no two jobs share one, and
  every busy printer has a job.\<close>

definition running_ok :: "printer list \<Rightarrow> job list \<Rightarrow> bool" where
  "running_ok ps js \<longleftrightarrow> (\<forall>i < length js. j_status (js ! i) = RUNNING \<longrightarrow> (\<exists>k. runs js i k)) \<and>
     (\<forall>i k. runs js i k \<longrightarrow> k < length ps \<and> p_busy (ps ! k) \<and> p_type (ps ! k) = j_type (js ! i) \<and>
        bit (j_eligible (js ! i)) k) \<and>
     (\<forall>i i' k. runs js i k \<longrightarrow> runs js i' k \<longrightarrow> i = i') \<and>
     (\<forall>k < length ps. p_busy (ps ! k) \<longrightarrow> (\<exists>i. runs js i k))"

definition spool_inv :: "spool \<Rightarrow> bool" where
  "spool_inv s \<longleftrightarrow> distinct (s_types s) \<and> printers_ok (s_types s) (s_printers s) \<and>
     jobs_ok (s_types s) (s_jobs s) \<and> running_ok (s_printers s) (s_jobs s)"

lemma say_simps [simp]:
  "s_types (say es s) = s_types s" "s_convs (say es s) = s_convs s" "s_printers (say es s) = s_printers s"
  "s_jobs (say es s) = s_jobs s" "s_out (say es s) = s_out s @ es" "spool_inv (say es s) = spool_inv s"
  by (simp_all add: say_def spool_inv_def)

lemma str_in_set [simp]: "str_in x ys \<longleftrightarrow> x \<in> set ys"
  by (induction ys) auto

lemma push_Some: "push n x xs = Some ys \<longleftrightarrow> length xs < n \<and> ys = xs @ [x]"
  by (auto simp: push_def)

lemma copy100_Some: "copy100 x = Some y \<longleftrightarrow> length x < 100 \<and> y = x"
  by (auto simp: copy100_def)

lemma printers_ok_mono: "printers_ok tys ps \<Longrightarrow> set tys \<subseteq> set tys' \<Longrightarrow> printers_ok tys' ps"
  unfolding printers_ok_def by blast

lemma jobs_ok_mono: "jobs_ok tys js \<Longrightarrow> set tys \<subseteq> set tys' \<Longrightarrow> jobs_ok tys' js"
  unfolding jobs_ok_def by blast

lemma do_type_inv: "do_type ty s = Some s' \<Longrightarrow> spool_inv s \<Longrightarrow> spool_inv s'"
  by (auto simp: do_type_def bind_eq_Some_conv push_Some copy100_Some spool_inv_def
      intro: printers_ok_mono jobs_ok_mono split: if_splits)

lemma runs_append: "runs (js @ [j]) i k \<longleftrightarrow> runs js i k \<or> i = length js \<and> j_status j = RUNNING \<and> j_chosen j = Some k"
  by (auto simp: runs_def nth_append less_Suc_eq)

lemma running_ok_new_printer:
  assumes "running_ok ps js" "\<not> p_busy p"
  shows "running_ok (ps @ [p]) js"
  using assms unfolding running_ok_def by (simp add: nth_append less_Suc_eq)

lemma running_ok_new_job:
  assumes "running_ok ps js" "j_status j \<noteq> RUNNING"
  shows "running_ok ps (js @ [j])"
proof -
  have r: "runs (js @ [j]) i k \<longleftrightarrow> runs js i k" for i k using assms(2) by (simp add: runs_append)
  have "runs js i k \<Longrightarrow> i < length js" for i k by (simp add: runs_def)
  then show ?thesis using assms unfolding running_ok_def r
    by (simp add: nth_append less_Suc_eq)
qed

lemma printers_ok_new:
  assumes "printers_ok tys ps" "length ps < 32" "p_id p = length ps" "p_name p \<notin> set (map p_name ps)"
    "p_type p \<in> set tys"
  shows "printers_ok tys (ps @ [p])"
  using assms by (auto simp: printers_ok_def nth_append less_Suc_eq)

lemma do_printer_inv: "do_printer name ty s = Some (c, s') \<Longrightarrow> spool_inv s \<Longrightarrow> spool_inv s'"
  by (auto simp: do_printer_def spool_inv_def bind_eq_Some_conv push_Some copy100_Some Let_def
      intro!: printers_ok_new running_ok_new_printer split: if_splits)

lemma do_conversion_inv: "do_conversion a b p args s = Some (c, s') \<Longrightarrow> spool_inv s \<Longrightarrow> spool_inv s'"
  by (auto simp: do_conversion_def spool_inv_def bind_eq_Some_conv Let_def split: if_splits)

lemma jobs_ok_new:
  assumes "jobs_ok tys js" "length js < 1024" "j_id j = length js" "j_type j \<in> set tys"
  shows "jobs_ok tys (js @ [j])"
  using assms by (auto simp: jobs_ok_def nth_append less_Suc_eq)

lemma add_job_inv: "add_job v T file e s = Some (c, s') \<Longrightarrow> spool_inv s \<Longrightarrow> spool_inv s'"
  by (auto simp: add_job_def spool_inv_def bind_eq_Some_conv push_Some copy100_Some Let_def
      intro!: jobs_ok_new running_ok_new_job split: if_splits)

lemma do_print_inv: "do_print v T file args s = Some (c, s') \<Longrightarrow> spool_inv s \<Longrightarrow> spool_inv s'"
  by (auto simp: do_print_def bind_eq_Some_conv dest: add_job_inv split: if_splits)

lemma cancel_loop_map:
  "fst (cancel_loop file js) =
    map (\<lambda>j. if j_file j = file \<and> j_status j = QUEUED then j\<lparr>j_status := ABORTED\<rparr> else j) js"
  by (induction js) (auto simp: case_prod_unfold Let_def)

lemma do_cancel_inv:
  assumes "do_cancel f0 s = Some s'" "spool_inv s"
  shows "spool_inv s'"
proof -
  let ?f = "\<lambda>j :: job. if j_file j = f0 \<and> j_status j = QUEUED then j\<lparr>j_status := ABORTED\<rparr> else j"
  have s': "s_jobs s' = map ?f (s_jobs s)" "s_printers s' = s_printers s" "s_types s' = s_types s"
    using assms(1) cancel_loop_map [of f0 "s_jobs s"]
    by (auto simp: do_cancel_def Let_def case_prod_unfold split: if_splits)
  have r: "runs (map ?f (s_jobs s)) i k \<longleftrightarrow> runs (s_jobs s) i k" for i k
    by (auto simp: runs_def split: if_splits)
  have "running_ok (s_printers s) (map ?f (s_jobs s))"
    using assms(2) unfolding spool_inv_def running_ok_def r by (auto simp: runs_def)
  moreover have "jobs_ok (s_types s) (map ?f (s_jobs s))"
    using assms(2) by (auto simp: spool_inv_def jobs_ok_def)
  ultimately show ?thesis using assms(2) s' by (simp add: spool_inv_def)
qed

text \<open>Enabling and disabling changes nothing else of a printer.\<close>

definition same_printer :: "printer \<Rightarrow> printer \<Rightarrow> bool" where
  "same_printer p q \<longleftrightarrow> p_id q = p_id p \<and> p_name q = p_name p \<and> p_type q = p_type p \<and> p_busy q = p_busy p"

lemma disable_loop_same: "list_all2 same_printer ps (fst (disable_loop name ps v))"
  by (induction name ps v rule: disable_loop.induct)
    (auto simp: same_printer_def case_prod_unfold Let_def list.rel_refl)

lemma enable_loop_same: "list_all2 same_printer ps (fst (enable_loop name ps v))"
  by (induction name ps v rule: enable_loop.induct)
    (auto simp: same_printer_def case_prod_unfold Let_def list.rel_refl)

lemma same_printers_inv:
  assumes "list_all2 same_printer (s_printers s) ps" "spool_inv s"
  shows "spool_inv (s\<lparr>s_printers := ps\<rparr>)"
proof -
  have l: "length ps = length (s_printers s)" using assms(1) by (simp add: list_all2_lengthD)
  have n: "same_printer (s_printers s ! i) (ps ! i)" if "i < length ps" for i
    using assms(1) that l by (simp add: list_all2_conv_all_nth)
  have "map p_name ps = map p_name (s_printers s)" "map p_type ps = map p_type (s_printers s)"
    using l n by (auto intro!: nth_equalityI simp: same_printer_def)
  then have "printers_ok (s_types s) ps"
    using assms(2) l n by (simp add: spool_inv_def printers_ok_def same_printer_def) (metis list.set_map)
  moreover have "running_ok ps (s_jobs s)"
    using assms(2) l n unfolding spool_inv_def running_ok_def same_printer_def by metis
  ultimately show ?thesis using assms(2) by (simp add: spool_inv_def)
qed

lemma do_disable_inv: "spool_inv s \<Longrightarrow> spool_inv (do_disable name s)"
  using same_printers_inv [OF disable_loop_same] by (simp add: do_disable_def Let_def case_prod_unfold)

lemma do_enable_inv: "spool_inv s \<Longrightarrow> spool_inv (do_enable name s)"
  using same_printers_inv [OF enable_loop_same] by (simp add: do_enable_def Let_def case_prod_unfold)


subsection \<open>Scheduling\<close>

lemma first_printer_Some:
  "first_printer j i ps = Some k \<Longrightarrow> i \<le> k \<and> k < i + length ps \<and> can_print j (ps ! (k - i))"
proof (induction ps arbitrary: i)
  case (Cons p ps)
  show ?case
  proof (cases "can_print j p")
    case False
    then have "first_printer j (Suc i) ps = Some k" using Cons.prems by simp
    from Cons.IH [OF this] show ?thesis by (auto simp: Suc_le_eq nth_Cons' )
  qed (use Cons.prems in auto)
qed simp

lemma first_printer_None: "first_printer j i ps = None \<Longrightarrow> p \<in> set ps \<Longrightarrow> \<not> can_print j p"
  by (induction ps arbitrary: i) (auto split: if_splits)

lemma and_bit: "w AND 2 ^ i \<noteq> 0 \<Longrightarrow> bit (w :: u32) i"
  by (metis and_exp_eq_0_iff_not_bit)

lemma start_job_Some:
  assumes "start_job T i k s = Some s'"
  shows "i < length (s_printers s)" "s_types s' = s_types s"
    "s_jobs s' = (s_jobs s)[i := (s_jobs s ! i)\<lparr>j_status := RUNNING, j_chosen := Some k, j_changed := T (s_ticks s)\<rparr>]"
    "s_printers s' = (s_printers s)[k := (s_printers s ! k)\<lparr>p_busy := True\<rparr>]"
  using assms by (auto simp: start_job_def Let_def bind_eq_Some_conv buf_get_def split: if_splits)

lemma runs_start:
  assumes "i < length js"
  shows "runs (js[i := (js ! i)\<lparr>j_status := RUNNING, j_chosen := Some k, j_changed := t\<rparr>]) i' k' \<longleftrightarrow>
    (if i' = i then k' = k else runs js i' k')"
  using assms by (auto simp: runs_def nth_list_update)

lemma start_job_inv:
  assumes "start_job T i k s = Some s'" "spool_inv s" "i < length (s_jobs s)" "k < length (s_printers s)"
    "can_print (s_jobs s ! i) (s_printers s ! k)"
  shows "spool_inv s'"
proof -
  note s' = start_job_Some [OF assms(1)]
  let ?j = "(s_jobs s ! i)\<lparr>j_status := RUNNING, j_chosen := Some k, j_changed := T (s_ticks s)\<rparr>"
  let ?p = "(s_printers s ! k)\<lparr>p_busy := True\<rparr>"
  have r: "running_ok (s_printers s) (s_jobs s)" and p: "printers_ok (s_types s) (s_printers s)"
    and j: "jobs_ok (s_types s) (s_jobs s)"
    using assms(2) by (simp_all add: spool_inv_def)
  have id: "p_id (s_printers s ! k) = k" using p assms(4) by (simp add: printers_ok_def)
  have c: "j_type (s_jobs s ! i) = p_type (s_printers s ! k)" "j_status (s_jobs s ! i) = QUEUED"
    "\<not> p_busy (s_printers s ! k)" "bit (j_eligible (s_jobs s ! i)) k"
    using assms(5) and_bit by (auto simp: can_print_def id)
  have free: "\<not> runs (s_jobs s) i' k" for i' using r c(3) by (auto simp: running_ok_def)
  have unique: "runs (s_jobs s) i' k' \<Longrightarrow> runs (s_jobs s) i'' k' \<Longrightarrow> i' = i''" for i' i'' k'
    using r unfolding running_ok_def by blast
  have rD: "k' < length (s_printers s) \<and> p_busy (s_printers s ! k') \<and>
      p_type (s_printers s ! k') = j_type (s_jobs s ! i') \<and> bit (j_eligible (s_jobs s ! i')) k'"
    if "runs (s_jobs s) i' k'" for i' k'
    using r that unfolding running_ok_def by blast
  have "running_ok (s_printers s') (s_jobs s')"
    unfolding running_ok_def s' runs_start [OF assms(3)]
  proof (intro conjI allI impI)
    fix i' assume "i' < length ((s_jobs s)[i := ?j])"
      "j_status ((s_jobs s)[i := ?j] ! i') = RUNNING"
    then show "\<exists>k'. if i' = i then k' = k else runs (s_jobs s) i' k'"
      using r by (cases "i' = i") (auto simp: running_ok_def)
  next
    fix i' k' assume a: "if i' = i then k' = k else runs (s_jobs s) i' k'"
    have "k' < length ((s_printers s)[k := ?p]) \<and> p_busy ((s_printers s)[k := ?p] ! k') \<and>
      p_type ((s_printers s)[k := ?p] ! k') = j_type ((s_jobs s)[i := ?j] ! i') \<and>
      bit (j_eligible ((s_jobs s)[i := ?j] ! i')) k'"
    proof (cases "i' = i")
      case True
      then show ?thesis using a c assms(3,4) by simp
    next
      case False
      then have "runs (s_jobs s) i' k'" using a by simp
      moreover have "k' \<noteq> k" using calculation free by auto
      ultimately show ?thesis using rD [of i' k'] False by simp
    qed
    then show "k' < length ((s_printers s)[k := ?p])" "p_busy ((s_printers s)[k := ?p] ! k')"
      "p_type ((s_printers s)[k := ?p] ! k') = j_type ((s_jobs s)[i := ?j] ! i')"
      "bit (j_eligible ((s_jobs s)[i := ?j] ! i')) k'" by simp_all
  next
    fix i' i'' k' assume "if i' = i then k' = k else runs (s_jobs s) i' k'"
      "if i'' = i then k' = k else runs (s_jobs s) i'' k'"
    then show "i' = i''" using unique free by (cases "i' = i"; cases "i'' = i") auto
  next
    fix k' assume "k' < length ((s_printers s)[k := ?p])"
      "p_busy ((s_printers s)[k := ?p] ! k')"
    then have "k' = k \<or> (\<exists>i'. runs (s_jobs s) i' k')"
      using r by (cases "k' = k") (auto simp: running_ok_def)
    moreover have "\<not> runs (s_jobs s) i k'" for k' using c(2) by (simp add: runs_def)
    ultimately show "\<exists>i'. if i' = i then k' = k else runs (s_jobs s) i' k'" by metis
  qed
  moreover have "printers_ok (s_types s) (s_printers s')"
  proof -
    have "map p_name (s_printers s') = map p_name (s_printers s)" "map p_type (s_printers s') = map p_type (s_printers s)"
      using assms(4) by (auto simp: s' intro!: nth_equalityI simp: nth_list_update)
    then have "map p_name (s_printers s') = map p_name (s_printers s)"
      "p_type ` set (s_printers s') = p_type ` set (s_printers s)"
      by (simp, metis list.set_map)
    moreover have "\<forall>i < length (s_printers s). p_id (s_printers s' ! i) = i"
      using p assms(4) by (auto simp: printers_ok_def s'(4) nth_list_update)
    moreover have "length (s_printers s') = length (s_printers s)" by (simp add: s'(4))
    ultimately show ?thesis using p by (simp add: printers_ok_def)
  qed
  moreover have "jobs_ok (s_types s) (s_jobs s')"
  proof -
    have "map j_type (s_jobs s') = map j_type (s_jobs s)"
      using assms(3) by (auto simp: s' intro!: nth_equalityI simp: nth_list_update)
    then have "j_type ` set (s_jobs s') = j_type ` set (s_jobs s)" by (metis list.set_map)
    moreover have "\<forall>i < length (s_jobs s). j_id (s_jobs s' ! i) = i"
      using j assms(3) by (auto simp: jobs_ok_def s'(3) nth_list_update)
    moreover have "length (s_jobs s') = length (s_jobs s)" by (simp add: s'(3))
    ultimately show ?thesis using j by (simp add: jobs_ok_def)
  qed
  ultimately show ?thesis using assms(2) s'(2) by (simp add: spool_inv_def)
qed


lemma schedule_from_inv: "schedule_from T i s = Some s' \<Longrightarrow> spool_inv s \<Longrightarrow> spool_inv s'"
proof (induction T i s arbitrary: s' rule: schedule_from.induct)
  case (1 T i s)
  note run = 1(3) [unfolded schedule_from.simps [of T i s]]
  show ?case
  proof (cases "i < length (s_jobs s)")
    case True
    show ?thesis
    proof (cases "first_printer (s_jobs s ! i) 0 (s_printers s)")
      case None
      then show ?thesis using 1(1,4) True run by simp
    next
      case (Some k)
      then obtain s1 where s1: "start_job T i k s = Some s1" "schedule_from T (i + 1) s1 = Some s'"
        using run True by (cases "start_job T i k s") auto
      have "spool_inv s1"
        using start_job_inv [OF s1(1) 1(4) True] first_printer_Some [OF Some] by simp
      then show ?thesis using 1(2) [OF True Some s1(1) s1(2)] by simp
    qed
  qed (use run 1(4) in simp)
qed

lemmas spool_invs = do_type_inv do_printer_inv do_conversion_inv do_print_inv do_cancel_inv
  do_disable_inv do_enable_inv

lemma batch_configure_inv:
  "batch_configure array s = Some (Some (f, s')) \<Longrightarrow> spool_inv s \<Longrightarrow> spool_inv s'"
  by (auto simp: batch_configure_def bind_eq_Some_conv intro: spool_invs split: list.splits if_splits)

lemma batch_spool_inv: "batch_spool T array s = Some (f, s') \<Longrightarrow> spool_inv s \<Longrightarrow> spool_inv s'"
  by (auto simp: batch_spool_def bind_eq_Some_conv intro: spool_invs split: list.splits if_splits)

lemma batch_command_inv: "batch_command T array s = Some (f, s') \<Longrightarrow> spool_inv s \<Longrightarrow> spool_inv s'"
  by (auto simp: batch_command_def intro: batch_configure_inv batch_spool_inv split: if_splits option.splits)

lemma interactive_configure_inv:
  "interactive_configure array s = Some (Some (f, s')) \<Longrightarrow> spool_inv s \<Longrightarrow> spool_inv s'"
  by (auto simp: interactive_configure_def bind_eq_Some_conv intro: spool_invs split: list.splits if_splits)

lemma interactive_spool_inv: "interactive_spool T array s = Some (f, s') \<Longrightarrow> spool_inv s \<Longrightarrow> spool_inv s'"
  by (auto simp: interactive_spool_def bind_eq_Some_conv intro: spool_invs split: list.splits if_splits)

lemma interactive_command_inv: "interactive_command T array s = Some (f, s') \<Longrightarrow> spool_inv s \<Longrightarrow> spool_inv s'"
  by (auto simp: interactive_command_def intro: interactive_configure_inv interactive_spool_inv
      split: if_splits option.splits)

lemma batch_loop_inv: "batch_loop T b s = Some (f, s') \<Longrightarrow> spool_inv s \<Longrightarrow> spool_inv s'"
proof (induction T b s arbitrary: f s' rule: batch_loop.induct)
  case (1 T b s)
  note run = "1.prems"(1) [unfolded batch_loop.simps [of T b s]]
  show ?case
  proof (cases "b = []")
    case False
    then obtain array g s1 where a: "split_line (fst (fgets_loop 99 b)) = Some array"
      "batch_command T array s = Some (g, s1)"
      using run by (auto split: option.splits)
    have "spool_inv s1" by (rule batch_command_inv [OF a(2) "1.prems"(2)])
    then show ?thesis using "1.IH" [OF False a] run False a
      by (cases g) auto
  qed (use run "1.prems" in auto)
qed

lemma interactive_loop_inv: "interactive_loop T lines s = Some (q, s') \<Longrightarrow> spool_inv s \<Longrightarrow> spool_inv s'"
proof (induction lines arbitrary: s)
  case (Cons line lines)
  then obtain array f s1 where a: "split_line line = Some array" "interactive_command T array s = Some (f, s1)"
    by (auto simp: bind_eq_Some_conv)
  have i: "spool_inv s1" by (rule interactive_command_inv [OF a(2) Cons.prems(2)])
  show ?case
  proof (cases "f = Break \<or> f = Continue")
    case True
    then show ?thesis using Cons a i by auto
  next
    case False
    then obtain s2 where "schedule T s1 = Some s2" "interactive_loop T lines s2 = Some (q, s')"
      using Cons.prems(1) a by (auto simp: bind_eq_Some_conv)
    then show ?thesis using Cons.IH schedule_from_inv i by (auto simp: schedule_def)
  qed
qed simp

lemma spool0_inv: "spool_inv spool0"
  by (simp add: spool0_def spool_inv_def printers_ok_def jobs_ok_def running_ok_def runs_def)

end
