(* ===== verification/Imp_Properties.thy ===== *)
theory Imp_Properties
  imports Imp_Invariant
begin

text \<open>
  The properties of the spooler: its invariant over whole runs, the scheduling pass, printer sets,
  cancelling, and the words of a command line.
\<close>

text \<open>A printer, jobs and spoolers at which the properties are evaluated.\<close>

definition p0 :: printer where
  "p0 = \<lparr>p_id = 0, p_name = [112], p_type = [97], p_enabled = True, p_busy = False\<rparr>"

definition j0 :: "nat \<Rightarrow> job_status \<Rightarrow> job" where
  "j0 i st = \<lparr>j_id = i, j_status = st, j_file = [120], j_type = [97], j_eligible = ANY_PRINTER,
     j_chosen = None, j_created = 0, j_changed = 0\<rparr>"

definition sp :: "job list \<Rightarrow> spool" where
  "sp js = \<lparr>s_types = [[97]], s_convs = [], s_printers = [p0], s_jobs = js, s_out = [], s_ticks = 0\<rparr>"

lemma sp_inv: "spool_inv (sp [])"
  by (simp add: sp_def spool_inv_def printers_ok_def jobs_ok_def running_ok_def runs_def p0_def)

text \<open>Whatever the command file and the user type, if no array is overrun, every running job has a
  busy printer of its own, which prints its file type and which the job may use; printer and job
  numbers are their positions; printer names are unique; and every type in use is declared.\<close>

theorem imprimer_consistent:
  assumes "imprimer T b lines = Some (q, s)"
  shows "spool_inv s"
proof (cases b)
  case None
  then show ?thesis using assms interactive_loop_inv spool0_inv by (simp add: imprimer_def)
next
  case (Some c)
  then obtain f s1 where 1: "batch_loop T c spool0 = Some (f, s1)"
    "(q, s) = (True, s1) \<or> interactive_loop T lines s1 = Some (q, s)"
    using assms by (auto simp: imprimer_def split: option.splits if_splits)
  have "spool_inv s1" by (rule batch_loop_inv [OF 1(1) spool0_inv])
  then show ?thesis using 1(2) interactive_loop_inv by auto
qed

theorem imprimer_consistent_witness:
  "spool_inv (snd (the (imprimer id (Some [116, 121, 112, 101, 32, 97, 10])
     [[112, 114, 105, 110, 116, 101, 114, 32, 112, 32, 97], [112, 114, 105, 110, 116, 32, 120, 46, 97],
      [101, 110, 97, 98, 108, 101, 32, 112]])))"
proof -
  let ?r = "imprimer id (Some [116, 121, 112, 101, 32, 97, 10])
     [[112, 114, 105, 110, 116, 101, 114, 32, 112, 32, 97], [112, 114, 105, 110, 116, 32, 120, 46, 97],
      [101, 110, 97, 98, 108, 101, 32, 112]]"
  have "?r \<noteq> None" by code_simp
  then obtain q s where "?r = Some (q, s)" by auto
  then show ?thesis using imprimer_consistent [of id "Some [116, 121, 112, 101, 32, 97, 10]" _ q s] by simp
qed

subsection \<open>A scheduling pass leaves no job that could start\<close>

lemma can_print_busier:
  assumes "\<not> can_print j p" "p_id q = p_id p" "p_type q = p_type p" "p_enabled q = p_enabled p" "p_busy p \<longrightarrow> p_busy q"
  shows "\<not> can_print j q"
  using assms by (auto simp: can_print_def)

definition stuck :: "job list \<Rightarrow> printer list \<Rightarrow> nat \<Rightarrow> bool" where
  "stuck js ps n \<longleftrightarrow> (\<forall>i < n. \<forall>p \<in> set ps. \<not> can_print (js ! i) p)"

lemma start_job_stuck:
  assumes "start_job T i k s = Some s'" "stuck (s_jobs s) (s_printers s) i" "i < length (s_jobs s)"
    "k < length (s_printers s)"
  shows "stuck (s_jobs s') (s_printers s') (Suc i)"
proof -
  note s' = start_job_Some [OF assms(1)]
  let ?p = "(s_printers s ! k)\<lparr>p_busy := True\<rparr>"
  have "\<not> can_print (s_jobs s' ! i') q" if i: "i' < Suc i" and q: "q \<in> set (s_printers s')" for i' q
  proof (cases "i' = i")
    case True
    then show ?thesis using assms(3) by (simp add: s'(3) can_print_def)
  next
    case False
    then have i': "i' < i" using i by simp
    have "q \<in> insert ?p (set (s_printers s))"
      using q set_update_subset_insert by (force simp: s'(4))
    moreover have "s_jobs s' ! i' = s_jobs s ! i'" using False by (simp add: s'(3))
    moreover have "\<not> can_print (s_jobs s ! i') ?p"
      by (rule can_print_busier [of _ "s_printers s ! k"]) (use assms(2,4) i' in \<open>auto simp: stuck_def\<close>)
    ultimately show ?thesis using assms(2) i' by (auto simp: stuck_def)
  qed
  then show ?thesis by (simp add: stuck_def)
qed

lemma schedule_from_stuck:
  "schedule_from T i s = Some s' \<Longrightarrow> stuck (s_jobs s) (s_printers s) i \<Longrightarrow> i \<le> length (s_jobs s) \<Longrightarrow>
   stuck (s_jobs s') (s_printers s') (length (s_jobs s)) \<and> length (s_jobs s') = length (s_jobs s)"
proof (induction T i s arbitrary: s' rule: schedule_from.induct)
  case (1 T i s)
  note run = "1.prems"(1) [unfolded schedule_from.simps [of T i s]]
  show ?case
  proof (cases "i < length (s_jobs s)")
    case True
    show ?thesis
    proof (cases "first_printer (s_jobs s ! i) 0 (s_printers s)")
      case None
      have a: "stuck (s_jobs s) (s_printers s) (i + 1)"
        using "1.prems"(2) first_printer_None [OF None] by (auto simp: stuck_def less_Suc_eq)
      have b: "schedule_from T (i + 1) s = Some s'" using run True None by simp
      have c: "i + 1 \<le> length (s_jobs s)" using True by simp
      show ?thesis by (rule "1.IH"(1) [OF True None b a c])
    next
      case (Some k)
      then obtain s1 where s1: "start_job T i k s = Some s1" "schedule_from T (i + 1) s1 = Some s'"
        using run True by (cases "start_job T i k s") auto
      have "stuck (s_jobs s1) (s_printers s1) (i + 1)"
        using start_job_stuck [OF s1(1) "1.prems"(2) True] first_printer_Some [OF Some] by simp
      then show ?thesis
        using "1.IH"(2) [OF True Some s1(1) s1(2)] start_job_length [OF s1(1)] True by simp
    qed
  qed (use run "1.prems" in simp)
qed

text \<open>C28: After a scheduling pass no queued job has a free, enabled printer that prints its type and
  that it may use.\<close>

theorem schedule_complete:
  assumes "schedule T s = Some s'" "j \<in> set (s_jobs s')" "p \<in> set (s_printers s')"
  shows "\<not> can_print j p"
proof -
  have "stuck (s_jobs s') (s_printers s') (length (s_jobs s'))"
    using schedule_from_stuck [of T 0 s s'] assms(1) by (simp add: schedule_def stuck_def)
  moreover obtain i where "i < length (s_jobs s')" "s_jobs s' ! i = j"
    using assms(2) by (auto simp: in_set_conv_nth)
  ultimately show ?thesis using assms(3) by (auto simp: stuck_def)
qed

theorem schedule_complete_witness:
  "\<not> can_print (hd (s_jobs (the (schedule id (sp [j0 0 QUEUED]))))) (p0\<lparr>p_busy := True\<rparr>)"
proof (rule schedule_complete [of id "sp [j0 0 QUEUED]"])
  show "schedule id (sp [j0 0 QUEUED]) = Some (the (schedule id (sp [j0 0 QUEUED])))" by code_simp
  show "hd (s_jobs (the (schedule id (sp [j0 0 QUEUED])))) \<in> set (s_jobs (the (schedule id (sp [j0 0 QUEUED]))))"
    by code_simp
  show "p0\<lparr>p_busy := True\<rparr> \<in> set (s_printers (the (schedule id (sp [j0 0 QUEUED]))))" by code_simp
qed

lemma start_job_fault: "start_job T i k s = None \<longleftrightarrow> length (s_printers s) \<le> i"
  by (auto simp: start_job_def Let_def buf_get_def bind_eq_None_conv)

lemma schedule_from_fault:
  assumes "i \<le> i'" "i' < length (s_jobs s)" "length (s_printers s) \<le> i'"
    "first_printer (s_jobs s ! i') 0 (s_printers s) = Some k"
    "\<forall>n. i \<le> n \<and> n < i' \<longrightarrow> first_printer (s_jobs s ! n) 0 (s_printers s) = None"
  shows "schedule_from T i s = None"
  using assms
proof (induction "i' - i" arbitrary: i)
  case 0
  then show ?case by (subst schedule_from.simps) (simp add: start_job_fault [THEN iffD2])
next
  case (Suc n)
  then have "schedule_from T (i + 1) s = None" by simp
  then show ?case using Suc.prems Suc.hyps(2) by (subst schedule_from.simps) simp
qed

text \<open>C29: The first job that can be started makes the scheduling pass fault when its index is not the
  index of a printer, because the status of the printer with the job's index is reported.\<close>

theorem schedule_faults:
  assumes "i < length (s_jobs s)" "length (s_printers s) \<le> i" "p \<in> set (s_printers s)" "can_print (s_jobs s ! i) p"
    "\<forall>n < i. \<forall>q \<in> set (s_printers s). \<not> can_print (s_jobs s ! n) q"
  shows "schedule T s = None"
proof -
  have c: "first_printer j m ps = None \<longleftrightarrow> (\<forall>p \<in> set ps. \<not> can_print j p)" for j m ps
    by (induction ps arbitrary: m) auto
  obtain k where "first_printer (s_jobs s ! i) 0 (s_printers s) = Some k"
    using c assms(3,4) by (metis not_None_eq)
  then show ?thesis unfolding schedule_def
    using assms(1,2,5) by (intro schedule_from_fault [of 0 i s k]) (auto simp: c)
qed

theorem schedule_faults_witness:
  "schedule id \<lparr>s_types = [[97]], s_convs = [], s_printers = [p0], s_jobs = [j0 0 ABORTED, j0 1 QUEUED],
     s_out = [], s_ticks = 0\<rparr> = None"
  by (rule schedule_faults [where i = 1 and p = p0]) (simp_all add: p0_def j0_def can_print_def ANY_PRINTER_def)

subsection \<open>Printer sets\<close>

lemma unat_pow2:
  assumes "i < 32"
  shows "unat ((2 :: u32) ^ i) = 2 ^ i"
proof -
  have "unat ((2 :: u32) ^ i) = 2 ^ i mod 2 ^ 32"
    using unat_of_nat [where 'a = 32 and x = "2 ^ i"] by simp
  moreover have "(2 :: nat) ^ i < 2 ^ 32" using assms by (intro power_strict_increasing) auto
  ultimately show ?thesis by simp
qed

lemma add_bit_fresh:
  assumes "i < 32" "\<not> bit w i"
  shows "add_bit w i = Some (w OR push_bit i 1)"
proof -
  have e: "(2 :: u32) ^ i = push_bit i 1" by (simp add: push_bit_eq_mult)
  have s: "w + 2 ^ i = w OR push_bit i 1"
    unfolding e by (rule disjunctive_add) (use assms in \<open>auto simp: bit_simps\<close>)
  have u: "unat ((2 :: u32) ^ i) = 2 ^ i" using assms(1) by (rule unat_pow2)
  have "unat w + 2 ^ i = unat w OR 2 ^ i"
  proof (rule disjunctive_add)
    fix n show "\<not> bit (unat w) n \<or> \<not> bit ((2 :: nat) ^ i) n"
      using assms(2) by (auto simp: bit_simps)
  qed
  also have "\<dots> = unat (w OR push_bit i 1)" by (simp add: unsigned_or_eq e [symmetric] u)
  also have "\<dots> < 2 ^ 32" using unsigned_less [of "w OR push_bit i 1"] by simp
  finally show ?thesis using s by (simp add: add_bit_def)
qed

lemma find_printer_Some: "find_printer a ps = Some p \<Longrightarrow> p \<in> set ps \<and> p_name p = a"
  by (induction ps) (auto split: if_splits)

lemma find_printer_None: "find_printer a ps = None \<longleftrightarrow> a \<notin> p_name ` set ps"
  by (induction ps) auto

lemma eligible_loop_mask:
  assumes "printers_ok tys ps"
  shows "distinct args \<Longrightarrow> \<forall>k < length ps. bit temp k \<longrightarrow> p_name (ps ! k) \<notin> set args \<Longrightarrow>
    \<exists>m. eligible_loop ps args temp n = Some (m, n + length (filter (\<lambda>a. a \<in> p_name ` set ps) args)) \<and>
      (\<forall>k. bit m k \<longleftrightarrow> bit temp k \<or> k < length ps \<and> p_name (ps ! k) \<in> set args)"
proof (induction args arbitrary: temp n)
  case (Cons a args)
  show ?case
  proof (cases "find_printer a ps")
    case None
    then have a: "a \<notin> p_name ` set ps" by (simp add: find_printer_None)
    then have "p_name (ps ! k) \<noteq> a" if "k < length ps" for k using that by force
    then show ?thesis using Cons.IH [of temp n] Cons.prems None a by auto
  next
    case (Some p)
    obtain k where k: "k < length ps" "ps ! k = p" "p_name p = a"
      using find_printer_Some [OF Some] by (auto simp: in_set_conv_nth)
    have id: "p_id p = k" "k < 32" using assms k by (auto simp: printers_ok_def)
    have "\<not> bit temp k" using Cons.prems(2) k by auto
    then have add: "add_bit temp (p_id p) = Some (temp OR push_bit k 1)" using add_bit_fresh id by simp
    have b: "bit (temp OR push_bit k 1) i \<longleftrightarrow> bit temp i \<or> i = k" for i
      using id(2) by (auto simp: bit_simps)
    have inj: "i = k" if "i < length ps" "p_name (ps ! i) = a" for i
      using assms k that nth_eq_iff_index_eq [of "map p_name ps" i k] by (simp add: printers_ok_def)
    obtain m where m: "eligible_loop ps args (temp OR push_bit k 1) (n + 1) =
        Some (m, n + 1 + length (filter (\<lambda>a. a \<in> p_name ` set ps) args))"
      "\<forall>i. bit m i \<longleftrightarrow> bit (temp OR push_bit k 1) i \<or> i < length ps \<and> p_name (ps ! i) \<in> set args"
      using Cons.IH [of "temp OR push_bit k 1" "n + 1"] Cons.prems k b by auto
    have "a \<in> p_name ` set ps" using k by force
    then have "eligible_loop ps (a # args) temp n =
        Some (m, n + length (filter (\<lambda>a. a \<in> p_name ` set ps) (a # args)))"
      using Some add m(1) by simp
    moreover have "bit m i \<longleftrightarrow> bit temp i \<or> i < length ps \<and> p_name (ps ! i) \<in> set (a # args)" for i
      using m(2) b [of i] inj [of i] k by auto
    ultimately show ?thesis by blast
  qed
qed simp

lemma tokens_short: "w \<in> set (tokens_from sep cur str) \<Longrightarrow> length w \<le> length cur + length str"
  by (induction sep cur str rule: tokens_from.induct) (auto split: if_splits)

lemma add_job_queues:
  assumes "length f < 100" "strtok_all (ch CHR ''.'') f = parts" "parts \<noteq> []" "length parts \<le> 10"
    "last parts \<in> set (s_types s)" "length (s_jobs s) < 1024"
  shows "\<exists>j. add_job v T f m s = Some (False, s\<lparr>s_jobs := s_jobs s @ [j], s_ticks := s_ticks s + 2,
      s_out := s_out s @ (if v then [Job_status j] else [])\<rparr>) \<and>
    j_id j = length (s_jobs s) \<and> j_status j = QUEUED \<and> j_file j = f \<and> j_type j = last parts \<and> j_eligible j = m"
proof -
  have "last parts \<in> set (strtok_all (ch CHR ''.'') f)" using assms(2,3) last_in_set by blast
  then have "length (last parts) < 100"
    using assms(1) tokens_short [of "last parts" "ch CHR ''.''" "[]" f] by (simp add: strtok_all_def)
  then show ?thesis using assms
    by (intro exI [of _ "\<lparr>j_id = length (s_jobs s), j_status = QUEUED, j_file = f, j_type = last parts,
      j_eligible = m, j_chosen = None, j_created = T (s_ticks s), j_changed = T (s_ticks s + 1)\<rparr>"])
      (simp add: add_job_def copy100_def push_def say_def Let_def)
qed

text \<open>C30: In a consistent spooler, a print command with different printer names, for a file name of less than 100
  bytes with one to ten components of which the last is a declared type, while there are less than 1024 jobs, either
  reports an invalid printer and changes nothing else, when one of the names is not declared; or it
  changes nothing but to queue a job with the next number, the file's name and type, and exactly the named printers
  in its printer set, and, when typed, to report that job.\<close>

theorem print_eligible:
  assumes "spool_inv s" "args \<noteq> []" "distinct args" "length f < 100" "strtok_all (ch CHR ''.'') f = parts" "parts \<noteq> []"
    "length parts \<le> 10" "last parts \<in> set (s_types s)" "length (s_jobs s) < 1024"
  shows "if set args \<subseteq> p_name ` set (s_printers s)
    then \<exists>j. do_print v T f args s = Some (False, s\<lparr>s_jobs := s_jobs s @ [j], s_ticks := s_ticks s + 2,
        s_out := s_out s @ (if v then [Job_status j] else [])\<rparr>) \<and>
      j_id j = length (s_jobs s) \<and> j_status j = QUEUED \<and> j_file j = f \<and> j_type j = last parts \<and>
      (\<forall>k. bit (j_eligible j) k \<longleftrightarrow> k < length (s_printers s) \<and> p_name (s_printers s ! k) \<in> set args)
    else do_print v T f args s = Some (True, s\<lparr>s_out := s_out s @ [Error ''Invalid printer'']\<rparr>)"
proof -
  let ?ps = "s_printers s"
  have p: "printers_ok (s_types s) ?ps" using assms(1) by (simp add: spool_inv_def)
  obtain m where m: "eligible_loop ?ps args 0 0 = Some (m, length (filter (\<lambda>a. a \<in> p_name ` set ?ps) args))"
    "\<forall>k. bit m k \<longleftrightarrow> k < length ?ps \<and> p_name (?ps ! k) \<in> set args"
    using eligible_loop_mask [OF p assms(3), of 0 0] by auto
  have l: "length (filter (\<lambda>a. a \<in> p_name ` set ?ps) args) = length args \<longleftrightarrow> set args \<subseteq> p_name ` set ?ps"
    using length_filter_less [of _ args "\<lambda>a. a \<in> p_name ` set ?ps"]
    by (metis (no_types, lifting) filter_True nat_neq_iff subset_code(1))
  show ?thesis
  proof (cases "set args \<subseteq> p_name ` set ?ps")
    case True
    then have "do_print v T f args s = add_job v T f m s" using l m(1) assms(2) by (simp add: do_print_def)
    then show ?thesis using True m(2) add_job_queues [OF assms(4-9), of v T m] by fastforce
  next
    case False
    then show ?thesis using l m(1) assms(2) by (simp add: do_print_def say_def)
  qed
qed

theorem print_eligible_witness:
  "\<exists>j. do_print True id [120, 46, 97] [[112]] (sp []) = Some (False, (sp [j])\<lparr>s_ticks := 2, s_out := [Job_status j]\<rparr>) \<and>
    j_status j = QUEUED \<and> (\<forall>k. bit (j_eligible j) k \<longleftrightarrow> k = 0)"
  using print_eligible [of "sp []" "[[112]]" "[120, 46, 97]" "[[120], [97]]" True id] sp_inv
  by (auto simp: sp_def p0_def strtok_all_def)

text \<open>A print command that names a printer twice queues the job for the next printer instead.\<close>

theorem print_twice:
  assumes "printers_ok (s_types s) (s_printers s)" "i < length (s_printers s)" "i < 31"
    "do_print v T f [p_name (s_printers s ! i), p_name (s_printers s ! i)] s = Some (False, s')"
  shows "\<exists>j. s_jobs s' = s_jobs s @ [j] \<and> j_eligible j = 2 ^ (i + 1)"
proof -
  let ?p = "s_printers s ! i"
  have f: "find_printer (p_name ?p) (s_printers s) = Some ?p"
  proof -
    obtain q where q: "find_printer (p_name ?p) (s_printers s) = Some q"
      using assms(2) find_printer_None by (metis imageI not_None_eq nth_mem)
    then have "q \<in> set (s_printers s)" "p_name q = p_name ?p" by (simp_all add: find_printer_Some)
    moreover have "inj_on p_name (set (s_printers s))" using assms(1) by (simp add: printers_ok_def distinct_map)
    ultimately show ?thesis using q assms(2) by (metis inj_onD nth_mem)
  qed
  have id: "p_id ?p = i" using assms(1,2) by (simp add: printers_ok_def)
  have a: "add_bit 0 i = Some (2 ^ i)"
    using assms(3) add_bit_fresh [of i 0] by (simp add: push_bit_eq_mult)
  have u: "unat ((2 :: u32) ^ i) = 2 ^ i" using assms(3) by (simp add: unat_pow2)
  have "(2 :: nat) ^ i + 2 ^ i < 2 ^ 32"
    using power_strict_increasing [of "Suc i" 32 "2 :: nat"] assms(3) by simp
  then have b: "add_bit (2 ^ i) i = Some (2 ^ (i + 1))" by (simp add: add_bit_def u)
  have "add_job v T f (2 ^ (i + 1)) s = Some (False, s')"
    using assms(4) by (simp add: do_print_def f id a b)
  then show ?thesis
    by (auto simp: add_job_def bind_eq_Some_conv Let_def push_Some copy100_Some split: if_splits)
qed

theorem print_twice_witness:
  "\<exists>j. s_jobs (snd (the (do_print True id [120, 46, 97] [[112], [112]] (sp [])))) = [j] \<and> j_eligible j = 2"
  using print_twice [of "sp []" 0 True id "[120, 46, 97]"
      "snd (the (do_print True id [120, 46, 97] [[112], [112]] (sp [])))"] sp_inv
  by (simp add: spool_inv_def)
    (simp add: sp_def p0_def do_print_def add_bit_def add_job_def copy100_def strtok_all_def push_def Let_def)

subsection \<open>Cancelling\<close>

text \<open>Cancelling a file aborts exactly its queued jobs and changes no other job, printer or type.\<close>

theorem cancel_aborts:
  assumes "do_cancel f s = Some s'"
  shows "length (s_jobs s') = length (s_jobs s) \<and> s_printers s' = s_printers s \<and> s_types s' = s_types s \<and>
    (\<forall>i < length (s_jobs s). s_jobs s' ! i =
      (if j_file (s_jobs s ! i) = f \<and> j_status (s_jobs s ! i) = QUEUED
       then (s_jobs s ! i)\<lparr>j_status := ABORTED\<rparr> else s_jobs s ! i))"
proof -
  have "s_jobs s' = fst (cancel_loop f (s_jobs s))" "s_printers s' = s_printers s" "s_types s' = s_types s"
    using assms by (auto simp: do_cancel_def Let_def case_prod_unfold split: if_splits)
  then show ?thesis by (simp add: cancel_loop_map)
qed

theorem cancel_aborts_witness:
  "s_printers (the (do_cancel [120] (sp [j0 0 QUEUED, j0 1 RUNNING]))) = [p0] \<and>
   j_status (s_jobs (the (do_cancel [120] (sp [j0 0 QUEUED, j0 1 RUNNING]))) ! 0) = ABORTED"
  using cancel_aborts [of "[120]" "sp [j0 0 QUEUED, j0 1 RUNNING]"]
  by (simp add: do_cancel_def sp_def j0_def)

subsection \<open>Words of a line\<close>

lemma tokens_word:
  "sep \<notin> set w \<Longrightarrow> tokens_from sep cur (w @ str) = tokens_from sep (cur @ w) str"
  by (induction w arbitrary: cur) auto

lemma tokens_words:
  assumes "\<forall>w \<in> set ws. w \<noteq> [] \<and> sep \<notin> set w" "cur \<noteq> []"
  shows "tokens_from sep cur (concat (map (\<lambda>w. sep # w) ws)) = cur # ws"
  using assms
proof (induction ws arbitrary: cur)
  case (Cons w ws)
  then show ?case using tokens_word [of sep w "[]" "concat (map (\<lambda>w. sep # w) ws)"] by simp
qed simp

text \<open>Splitting a line gives back the words it was put together from with separators.\<close>

theorem strtok_join:
  assumes "\<forall>w \<in> set ws. w \<noteq> [] \<and> sep \<notin> set w"
  shows "strtok_all sep (concat (map (\<lambda>w. sep # w) ws)) = ws"
  using assms
proof (cases ws)
  case (Cons w vs)
  then show ?thesis using assms tokens_words [of vs sep w] tokens_word [of sep w "[]"]
    by (simp add: strtok_all_def)
qed (simp add: strtok_all_def)

theorem strtok_join_witness: "strtok_all 46 (concat (map (\<lambda>w. 46 # w) [[97, 98], [99 :: byte]])) = [[97, 98], [99]]"
  by (rule strtok_join) simp

end
