(* ===== verification/Imp_Main.thy ===== *)
theory Imp_Main
  imports Imp_Properties C_Getopt
begin

text \<open>
  The options of hw4/src/main.c and the whole program: \<open>-i\<close> names a command file, \<open>-o\<close> a file to which
  the standard output goes once the command file has been executed. \<open>files\<close> has the contents of the files that can be
  opened; opening NULL is a fault.
\<close>

subsection \<open>Options\<close>

record imp_options =
  optioni :: bool
  optiono :: bool

text \<open>An argument vector ends with a null pointer.\<close>

definition argv_ptr :: "cstr list \<Rightarrow> nat \<Rightarrow> cstr option option" where
  "argv_ptr argv i = (if i < length argv then Some (Some (argv ! i)) else if i = length argv then Some None else None)"

definition first_option :: "'g getopt \<Rightarrow> 'g \<Rightarrow> ('g \<times> imp_options) outcome" where
  "first_option G g =
     (if go_optind G g < length (go_argv G g) then
        (let (v, optarg, g') = getopt_short G (cs ''io'') g in
          if v \<noteq> -1 then
            (if v = 105 then Done (g', \<lparr>optioni = True, optiono = False\<rparr>)
             else if v = 111 then Done (g', \<lparr>optioni = False, optiono = True\<rparr>)
             else if v = 63 then Abort
             else Done (g', \<lparr>optioni = False, optiono = False\<rparr>))
          else Abort)
      else Done (g, \<lparr>optioni = False, optiono = False\<rparr>))"

definition second_option :: "'g getopt \<Rightarrow> 'g \<times> imp_options \<Rightarrow> 'g \<times> imp_options" where
  "second_option G = (\<lambda>(g, os).
     if length (go_argv G g) = 5 then
       (let (v, optarg, g') = getopt_short G (cs ''o'') g in (g', if v \<noteq> -1 then os\<lparr>optiono := True\<rparr> else os))
     else (g, os))"

subsection \<open>The program\<close>

text \<open>The command file, and the file that \<open>freopen\<close> opens for the standard output.\<close>

definition command_file :: "(cstr \<Rightarrow> byte list option) \<Rightarrow> cstr list \<Rightarrow> imp_options \<Rightarrow> byte list option outcome option" where
  "command_file files argv os =
     (if optioni os then do {
        p \<leftarrow> argv_ptr argv 2;
        name \<leftarrow> p;
        Some (case files name of None \<Rightarrow> Abort | Some b \<Rightarrow> Done (Some b))
      } else Some (Done None))"

definition output_name :: "cstr list \<Rightarrow> imp_options \<Rightarrow> cstr option option" where
  "output_name argv os =
     (if optiono os then do { p \<leftarrow> argv_ptr argv (if optioni os then 4 else 2); name \<leftarrow> p; Some (Some name) } else Some None)"

text \<open>The result: whether the program has ended, its state, and where what the interactive loop prints goes.\<close>

definition imprimer_main :: "'g getopt \<Rightarrow> (cstr \<Rightarrow> byte list option) \<Rightarrow> (nat \<Rightarrow> nat) \<Rightarrow> cstr list \<Rightarrow> byte list list \<Rightarrow>
    (bool \<times> spool \<times> cstr option) outcome option" where
  "imprimer_main G files T argv lines = (case first_option G (go_start G argv) of
     Abort \<Rightarrow> Some Abort
   | Done x \<Rightarrow> (let (g, os) = second_option G x in do {
       file \<leftarrow> command_file files (go_argv G g) os;
       (case file of
         Abort \<Rightarrow> Some Abort
       | Done b \<Rightarrow> do {
           r \<leftarrow> (case b of None \<Rightarrow> Some (Continue, spool0) | Some c \<Rightarrow> batch_loop T c spool0);
           if fst r = Quit then Some (Done (True, snd r, None))
           else do {
             out \<leftarrow> output_name (go_argv G g) os;
             (q, s) \<leftarrow> interactive_loop T lines (snd r);
             Some (Done (q, s, out))
           }
         })
     }))"

subsection \<open>Properties\<close>

text \<open>A run of the program is a run of the two loops on a file that could be opened.\<close>

lemma imprimer_main_runs:
  assumes "imprimer_main G files T argv lines = Some (Done (q, s, out))"
  shows "\<exists>b. imprimer T b lines = Some (q, s) \<and> (\<forall>c. b = Some c \<longrightarrow> (\<exists>name. files name = Some c))"
proof -
  obtain x where x: "first_option G (go_start G argv) = Done x"
    using assms by (auto simp: imprimer_main_def split: outcome.splits)
  obtain g os where g: "second_option G x = (g, os)" by fastforce
  obtain b where b: "command_file files (go_argv G g) os = Some (Done b)"
    using assms by (cases "command_file files (go_argv G g) os") (auto simp: imprimer_main_def x g split: outcome.splits)
  obtain r where r: "(case b of None \<Rightarrow> Some (Continue, spool0) | Some c \<Rightarrow> batch_loop T c spool0) = Some r"
      "fst r = Quit \<and> q \<and> s = snd r \<or> fst r \<noteq> Quit \<and> interactive_loop T lines (snd r) = Some (q, s)"
    using assms by (auto simp: imprimer_main_def x g b bind_eq_Some_conv split: if_splits)
  have "imprimer T b lines = Some (q, s)" using r by (cases r; cases b) (auto simp: imprimer_def)
  moreover have "\<exists>name. files name = Some c" if "b = Some c" for c
    using b that by (auto simp: command_file_def bind_eq_Some_conv split: if_splits option.splits)
  ultimately show ?thesis by blast
qed

text \<open>C27: Whatever the options, the command file and the user's lines are, if no array is overrun, then at the
  end every running job has a busy printer of its own, which prints its file type and which the job may
  use; printer and job numbers are their positions; printer names are unique; and every type in use is declared.\<close>

theorem imprimer_main_consistent:
  assumes "imprimer_main G files T argv lines = Some (Done (q, s, out))"
  shows "spool_inv s"
  using imprimer_main_runs [OF assms] imprimer_consistent by blast

text \<open>\<open>imprimer -o OUT -i FILE\<close>: the second call of \<open>getopt\<close> takes any option for \<open>-o\<close>, and the command file
  is never read.\<close>

theorem imprimer_output_first:
  assumes "go_optind G (go_start G argv) < length (go_argv G (go_start G argv))"
    and "getopt_short G (cs ''io'') (go_start G argv) = (111, oa, g)" "go_argv G g = argv" "length argv = 5"
    and "getopt_short G (cs ''o'') g = (v, ob, g')" "v \<noteq> -1" "go_argv G g' = argv"
  shows "imprimer_main G files T argv lines =
    map_option (\<lambda>(q, s). Done (q, s, Some (argv ! 2))) (imprimer T None lines)"
  using assms
  by (auto simp: imprimer_main_def first_option_def second_option_def command_file_def output_name_def argv_ptr_def
      imprimer_def Let_def map_option_case split: option.splits Option.bind_splits)

theorem imprimer_output_first_witness:
  "imprimer_main skip_getopt (\<lambda>_. Some b) T [cs ''imprimer'', cs ''-o'', cs ''out'', cs ''-i'', cs ''in''] lines =
    map_option (\<lambda>(q, s). Done (q, s, Some (cs ''out''))) (imprimer T None lines)"
  using imprimer_output_first [of skip_getopt "[cs ''imprimer'', cs ''-o'', cs ''out'', cs ''-i'', cs ''in'']"]
  by (simp add: skip_getopt_def skip_next_def upt_conv_Cons getopt_short_def)

theorem imprimer_main_consistent_witness:
  "spool_inv (fst (snd (case the (imprimer_main skip_getopt (\<lambda>_. Some (cs ''type a'')) id [cs ''imprimer'', cs ''-i'', cs ''cmds'']
     [cs ''printer p a'', cs ''print x.a'', cs ''enable p'']) of Done r \<Rightarrow> r)))"
proof -
  let ?r = "imprimer_main skip_getopt (\<lambda>_. Some (cs ''type a'')) id [cs ''imprimer'', cs ''-i'', cs ''cmds'']
     [cs ''printer p a'', cs ''print x.a'', cs ''enable p'']"
  have "case ?r of Some (Done x) \<Rightarrow> True | _ \<Rightarrow> False" by code_simp
  then obtain q s out where "?r = Some (Done (q, s, out))" by (auto split: option.splits outcome.splits)
  then show ?thesis using imprimer_main_consistent [of skip_getopt _ id _ _ q s out] by simp
qed

end
