(* ===== verification/C_Float.thy ===== *)
theory C_Float
  imports C_Prelude "HOL-Library.Log_Nat"
begin

text \<open>
  The IEEE 754 numbers of C (\<open>float\<close> and \<open>double\<close>) as NaN, the infinities and rationals. An
  operation computes exactly and then rounds to nearest, ties to even, to the precision and
  exponent range of its format, subnormal numbers and overflow included. The two zeros are one
  value here; the code never divides by a zero of its own. The last section bounds the rounding errors.
\<close>

datatype flt = NaN | Infinite bool | Finite rat

record format =
  precision :: nat
  min_exp :: int
  max_exp :: int

definition single :: format where
  "single = \<lparr>precision = 24, min_exp = -126, max_exp = 127\<rparr>"

definition double :: format where
  "double = \<lparr>precision = 53, min_exp = -1022, max_exp = 1023\<rparr>"

subsection \<open>Rounding\<close>

definition half_even :: "rat \<Rightarrow> int" where
  "half_even x = (let f = floor x; d = x - of_int f in
     if d < 1 / 2 then f else if 1 / 2 < d then f + 1 else if even f then f else f + 1)"

text \<open>The exponent of the leading bit of a positive rational.\<close>

definition ilog2 :: "rat \<Rightarrow> int" where
  "ilog2 x = (let (a, b) = quotient_of x; g = int (floorlog 2 (nat a)) - int (floorlog 2 (nat b)) in
     if 2 powi g \<le> x then g else g - 1)"

definition round_flt :: "format \<Rightarrow> rat \<Rightarrow> flt" where
  "round_flt fmt x =
     (if x = 0 then Finite 0
      else let e = max (ilog2 \<bar>x\<bar>) (min_exp fmt);
               ulp = 2 powi (e - int (precision fmt) + 1);
               y = of_int (half_even (x / ulp)) * ulp
           in if 2 powi (max_exp fmt + 1) \<le> \<bar>y\<bar> then Infinite (x < 0) else Finite y)"

fun to_format :: "format \<Rightarrow> flt \<Rightarrow> flt" where
  "to_format fmt (Finite x) = round_flt fmt x"
| "to_format fmt x = x"

subsection \<open>Comparisons\<close>

fun f_less :: "flt \<Rightarrow> flt \<Rightarrow> bool" where
  "f_less (Finite x) (Finite y) \<longleftrightarrow> x < y"
| "f_less (Infinite s) (Finite y) \<longleftrightarrow> s"
| "f_less (Finite x) (Infinite t) \<longleftrightarrow> \<not> t"
| "f_less (Infinite s) (Infinite t) \<longleftrightarrow> s \<and> \<not> t"
| "f_less _ _ \<longleftrightarrow> False"

definition f_eq :: "flt \<Rightarrow> flt \<Rightarrow> bool" where
  "f_eq x y \<longleftrightarrow> x = y \<and> x \<noteq> NaN"

subsection \<open>Arithmetic\<close>

fun f_neg :: "flt \<Rightarrow> flt" where
  "f_neg (Finite x) = Finite (- x)"
| "f_neg (Infinite s) = Infinite (\<not> s)"
| "f_neg NaN = NaN"

fun f_add :: "format \<Rightarrow> flt \<Rightarrow> flt \<Rightarrow> flt" where
  "f_add fmt (Finite x) (Finite y) = round_flt fmt (x + y)"
| "f_add fmt (Infinite s) (Finite y) = Infinite s"
| "f_add fmt (Finite x) (Infinite t) = Infinite t"
| "f_add fmt (Infinite s) (Infinite t) = (if s = t then Infinite s else NaN)"
| "f_add fmt _ _ = NaN"

definition f_sub :: "format \<Rightarrow> flt \<Rightarrow> flt \<Rightarrow> flt" where
  "f_sub fmt x y = f_add fmt x (f_neg y)"

fun f_mul :: "format \<Rightarrow> flt \<Rightarrow> flt \<Rightarrow> flt" where
  "f_mul fmt (Finite x) (Finite y) = round_flt fmt (x * y)"
| "f_mul fmt (Infinite s) (Finite y) = (if y = 0 then NaN else Infinite (s \<noteq> (y < 0)))"
| "f_mul fmt (Finite x) (Infinite t) = (if x = 0 then NaN else Infinite (t \<noteq> (x < 0)))"
| "f_mul fmt (Infinite s) (Infinite t) = Infinite (s \<noteq> t)"
| "f_mul fmt _ _ = NaN"

fun f_div :: "format \<Rightarrow> flt \<Rightarrow> flt \<Rightarrow> flt" where
  "f_div fmt (Finite x) (Finite y) =
     (if y = 0 then if x = 0 then NaN else Infinite (x < 0) else round_flt fmt (x / y))"
| "f_div fmt (Infinite s) (Finite y) = Infinite (s \<noteq> (y < 0))"
| "f_div fmt (Finite x) (Infinite t) = Finite 0"
| "f_div fmt _ _ = NaN"

definition f_of_int :: "format \<Rightarrow> int \<Rightarrow> flt" where
  "f_of_int fmt n = round_flt fmt (of_int n)"

text \<open>\<open>sqrt\<close> is correctly rounded: \<open>q\<close> is the integer part of the root in units of the last place.\<close>

fun isqrt :: "nat \<Rightarrow> nat" where
  "isqrt n = (if n = 0 then 0 else let r = 2 * isqrt (n div 4) in if (r + 1)\<^sup>2 \<le> n then r + 1 else r)"

declare isqrt.simps [simp del]

fun f_sqrt :: "format \<Rightarrow> flt \<Rightarrow> flt" where
  "f_sqrt fmt (Finite x) =
     (if x < 0 then NaN else if x = 0 then Finite 0
      else let ulp = 2 powi (ilog2 x div 2 - int (precision fmt) + 1);
               y = x / ulp\<^sup>2;
               q = int (isqrt (nat (floor y)));
               m = of_int q + 1 / 2
           in Finite (of_int (if y < m\<^sup>2 then q else if m\<^sup>2 < y then q + 1 else if even q then q else q + 1) * ulp))"
| "f_sqrt fmt (Infinite s) = (if s then NaN else Infinite False)"
| "f_sqrt fmt NaN = NaN"

subsection \<open>The order of numbers\<close>

text \<open>The numbers other than NaN are linearly ordered; \<open>rank\<close> embeds them in pairs.\<close>

fun rank :: "flt \<Rightarrow> int \<times> rat" where
  "rank (Finite x) = (0, x)"
| "rank (Infinite s) = (if s then -1 else 1, 0)"
| "rank NaN = (2, 0)"

lemma rank_inj [simp]: "rank x = rank y \<longleftrightarrow> x = y"
  by (cases x; cases y) auto

lemma f_eq_rank: "x \<noteq> NaN \<Longrightarrow> f_eq x y \<longleftrightarrow> x = y"
  by (simp add: f_eq_def)

lemma f_less_irrefl [simp]: "\<not> f_less x x"
  by (cases x) auto

lemma f_less_trans: "f_less x y \<Longrightarrow> f_less y z \<Longrightarrow> f_less x z"
  by (cases x; cases y; cases z) auto

lemma f_less_linear: "x \<noteq> NaN \<Longrightarrow> y \<noteq> NaN \<Longrightarrow> f_less x y \<or> x = y \<or> f_less y x"
  by (cases x; cases y) auto

lemma f_less_NaN [simp]: "\<not> f_less NaN x" "\<not> f_less x NaN"
  by (cases x; simp)+

subsection \<open>Rounding errors\<close>

lemma half_even_error: "\<bar>of_int (half_even x) - x\<bar> \<le> 1 / 2"
proof -
  have "of_int (floor x) \<le> x" "x < of_int (floor x) + 1" by linarith+
  then show ?thesis by (auto simp: half_even_def Let_def abs_le_iff) 
qed

lemma ilog2_le:
  assumes "0 < x"
  shows "2 powi ilog2 x \<le> x"
proof -
  obtain a b where q: "quotient_of x = (a, b)" by (cases "quotient_of x")
  have b: "0 < b" using quotient_of_denom_pos [OF q] .
  have x: "x = of_int a / of_int b" by (rule quotient_of_div [OF q])
  then have a: "0 < a" using assms b by (simp add: zero_less_divide_iff)
  let ?f = "floorlog 2 (nat a)" and ?k = "floorlog 2 (nat b)"
  have fa: "2 ^ (?f - 1) \<le> nat a" "0 < ?f" using floorlog_bounds [of "nat a" 2] a by (auto simp: floorlog_def)
  have fb: "nat b < 2 ^ ?k" using floorlog_bounds [of "nat b" 2] b by simp
  have a2: "(2 :: rat) ^ (?f - 1) \<le> of_int a"
  proof -
    have "int (2 ^ (?f - 1)) \<le> a" using fa(1) a by linarith
    then show ?thesis by (metis of_int_le_iff of_int_numeral of_int_power of_nat_numeral of_nat_power)
  qed
  have b2: "of_int b \<le> (2 :: rat) ^ ?k"
  proof -
    have "b \<le> int (2 ^ ?k)" using fb b by linarith
    then show ?thesis by (metis of_int_le_iff of_int_numeral of_int_power of_nat_numeral of_nat_power)
  qed
  have "(2 :: rat) powi (int ?f - int ?k - 1) = 2 ^ (?f - 1) / 2 ^ ?k"
    using fa(2) by (simp add: power_int_diff of_nat_diff power_diff)
  also have "\<dots> \<le> x" unfolding x using a a2 b2 b by (intro frac_le) simp_all
  finally show ?thesis by (auto simp: ilog2_def q Let_def)
qed

lemma rounded_error: "0 < ulp \<Longrightarrow> \<bar>of_int (half_even (x / ulp)) * ulp - x\<bar> \<le> ulp / 2"
proof -
  assume u: "0 < ulp"
  have "of_int (half_even (x / ulp)) * ulp - x = (of_int (half_even (x / ulp)) - x / ulp) * ulp" using u by (simp add: algebra_simps)
  then have "\<bar>of_int (half_even (x / ulp)) * ulp - x\<bar> = \<bar>of_int (half_even (x / ulp)) - x / ulp\<bar> * ulp" using u by (simp add: abs_mult)
  also have "\<dots> \<le> 1 / 2 * ulp" using half_even_error [of "x / ulp"] u by (intro mult_right_mono) simp_all
  finally show ?thesis by simp
qed

lemma round_flt_error:
  assumes "round_flt fmt x = Finite y"
  shows "\<bar>y - x\<bar> \<le> max (\<bar>x\<bar> * 2 powi (- int (precision fmt))) (2 powi (min_exp fmt - int (precision fmt)))"
proof (cases "x = 0")
  case False
  define e where "e = max (ilog2 \<bar>x\<bar>) (min_exp fmt)"
  define ulp :: rat where "ulp = 2 powi (e - int (precision fmt) + 1)"
  have u: "0 < ulp" by (simp add: ulp_def)
  have y: "y = of_int (half_even (x / ulp)) * ulp"
    using assms False by (simp add: round_flt_def Let_def e_def ulp_def split: if_splits)
  have "\<bar>y - x\<bar> \<le> ulp / 2" using rounded_error [OF u, of x] by (simp only: y)
  also have "ulp / 2 = 2 powi (e - int (precision fmt))" by (simp add: ulp_def power_int_add)
  also have "\<dots> \<le> max (\<bar>x\<bar> * 2 powi (- int (precision fmt))) (2 powi (min_exp fmt - int (precision fmt)))"
  proof (cases "ilog2 \<bar>x\<bar> \<le> min_exp fmt")
    case True
    then show ?thesis by (simp add: e_def)
  next
    case l: False
    have "(2 :: rat) powi (e - int (precision fmt)) = 2 powi ilog2 \<bar>x\<bar> * 2 powi (- int (precision fmt))"
      using l by (simp add: e_def flip: power_int_add)
    also have "\<dots> \<le> \<bar>x\<bar> * 2 powi (- int (precision fmt))" using ilog2_le [of "\<bar>x\<bar>"] False by (intro mult_right_mono) simp_all
    finally show ?thesis by simp
  qed
  finally show ?thesis .
qed (use assms in \<open>simp add: round_flt_def\<close>)

lemma round_single_error: "round_flt single x = Finite y \<Longrightarrow> \<bar>y - x\<bar> \<le> \<bar>x\<bar> / 2 ^ 20 + 1 / 2 ^ 150"
proof -
  assume "round_flt single x = Finite y"
  then have "\<bar>y - x\<bar> \<le> max (\<bar>x\<bar> * 2 powi (-24)) (2 powi (-150))" using round_flt_error by (fastforce simp: single_def)
  moreover have "\<bar>x\<bar> * 2 powi (-24) \<le> \<bar>x\<bar> / 2 ^ 20" by (simp add: power_int_minus)
  moreover have "(2 :: rat) powi (-150) = 1 / 2 ^ 150" by (simp add: power_int_minus)
  moreover have "0 \<le> \<bar>x\<bar> / 2 ^ 20" "(0 :: rat) \<le> 1 / 2 ^ 150" by simp_all
  ultimately show ?thesis by linarith
qed

text \<open>A number well inside the range of \<open>float\<close> is rounded to a number within one part in two million.\<close>

lemma round_single:
  assumes "\<bar>x\<bar> \<le> 2 ^ 100"
  shows "\<exists>y. round_flt single x = Finite y \<and> \<bar>y - x\<bar> \<le> \<bar>x\<bar> / 2 ^ 20 + 1 / 2 ^ 150"
proof -
  have "\<exists>y. round_flt single x = Finite y"
  proof (cases "x = 0")
    case False
    define e where "e = max (ilog2 \<bar>x\<bar>) (min_exp single)"
    define ulp :: rat where "ulp = 2 powi (e - int (precision single) + 1)"
    have u: "0 < ulp" by (simp add: ulp_def)
    define y where "y = of_int (half_even (x / ulp)) * ulp"
    have "\<bar>y - x\<bar> \<le> ulp / 2" using rounded_error [OF u, of x] by (simp only: y_def)
    moreover have "ulp \<le> 2 ^ 100"
    proof -
      have "2 powi ilog2 \<bar>x\<bar> \<le> (2 :: rat) powi 100" using ilog2_le [of "\<bar>x\<bar>"] False assms by simp
      then have "ilog2 \<bar>x\<bar> \<le> 100" by (metis not_le power_int_strict_increasing one_less_numeral_iff semiring_norm(76))
      then have "e - int (precision single) + 1 \<le> 100" by (simp add: e_def single_def)
      then have "ulp \<le> 2 powi 100" unfolding ulp_def by (rule power_int_increasing) simp
      then show ?thesis by simp
    qed
    moreover have "(2 :: rat) ^ 101 = 2 * 2 ^ 100" "(0 :: rat) < 2 ^ 100" by simp_all
    ultimately have "\<bar>y\<bar> \<le> 2 ^ 101" using assms by linarith
    then have "\<not> 2 powi (max_exp single + 1) \<le> \<bar>y\<bar>" by (simp add: single_def)
    then show ?thesis using False by (simp add: round_flt_def Let_def y_def ulp_def e_def)
  qed (simp add: round_flt_def)
  then obtain y where y: "round_flt single x = Finite y" by blast
  then show ?thesis using round_single_error by blast
qed

end
