(* ===== verification/Grades_Data.thy ===== *)
theory Grades_Data
  imports C_Float "HOL-Library.List_Lexorder" "HOL-Library.Product_Lexorder" "HOL-Library.Multiset"
begin

text \<open>
  The grade database of hw2/include/gradedb.h. Students are shared by the roster of their section
  (\<open>next\<close>) and the roster of the course (\<open>cnext\<close>), so they live in a store; a \<open>Student *\<close> is an
  address or NULL (\<^term>\<open>None\<close>), and a dereference of NULL or of a foreign address faults.
\<close>

type_synonym ptr = "nat option"

datatype gflag = VALID | INVALID
datatype gsubst = USERAW | USENORM | USELIKEAVG | USECLASSAVG

text \<open>
  The scores of a student belong to that student alone and are kept as a list. An assignment is its
  position in the list of assignments, the statistics of an assignment and of a section on an
  assignment are the positions in the lists of \<open>buildstats\<close>. Fields that the code may read before it
  has written them are options; reading one that is \<^term>\<open>None\<close> faults.
\<close>

record score =
  sc_asgt :: nat
  sc_grade :: "flt option"
  sc_qnorm :: "flt option"
  sc_lnorm :: "flt option"
  sc_snorm :: "flt option"
  sc_flag :: gflag
  sc_code :: cstr
  sc_subst :: gsubst
  sc_cstats :: ptr
  sc_sstats :: "(nat \<times> nat) option"

record student =
  st_id :: cstr
  st_surname :: cstr
  st_name :: cstr
  st_rawscores :: "score list"
  st_normscores :: "score list"
  st_composite :: flt
  st_section :: nat
  st_next :: ptr
  st_cnext :: ptr

datatype wpolicy = NOWEIGHT | WEIGHT
datatype npolicy = RAW | LINEAR | QUANTILE | SCALE
datatype ngroup = BYCLASS | BYSECTION

record assignment =
  as_name :: cstr
  as_atype :: cstr
  as_wpolicy :: wpolicy
  as_weight :: flt
  as_npolicy :: npolicy
  as_max :: flt
  as_mean :: "flt option"
  as_stddev :: "flt option"
  as_scale :: "flt option"
  as_ngroup :: ngroup

type_synonym person = "cstr \<times> cstr"

record section_data =
  se_name :: cstr
  se_assistant :: "person option"
  se_roster :: ptr

record course =
  co_number :: cstr
  co_title :: cstr
  co_professor :: "person option"
  co_assignments :: "assignment list"
  co_sections :: "section_data list"
  co_roster :: ptr

type_synonym students = "nat \<Rightarrow> student option"

definition deref :: "students \<Rightarrow> ptr \<Rightarrow> student option" where
  "deref h p = (case p of None \<Rightarrow> None | Some a \<Rightarrow> h a)"

text \<open>\<open>strcmp\<close>: only the sign of its result is used.\<close>

fun strcmp :: "cstr \<Rightarrow> cstr \<Rightarrow> int" where
  "strcmp [] [] = 0"
| "strcmp [] (b # t) = -1"
| "strcmp (a # s) [] = 1"
| "strcmp (a # s) (b # t) = (if a < b then -1 else if b < a then 1 else strcmp s t)"

lemma strcmp_less: "strcmp s t < 0 \<longleftrightarrow> s < t"
  by (induction s t rule: strcmp.induct) auto

lemma strcmp_eq: "strcmp s t = 0 \<longleftrightarrow> s = t"
  by (induction s t rule: strcmp.induct) auto

subsection \<open>Rosters\<close>

text \<open>\<open>chain h g p as\<close>: following the link \<open>g\<close> from \<open>p\<close> meets the students \<open>as\<close> and then NULL.\<close>

fun chain :: "students \<Rightarrow> (student \<Rightarrow> ptr) \<Rightarrow> ptr \<Rightarrow> nat list \<Rightarrow> bool" where
  "chain h g p [] \<longleftrightarrow> p = None"
| "chain h g p (a # as) \<longleftrightarrow> p = Some a \<and> (\<exists>x. h a = Some x \<and> chain h g (g x) as)"

lemma chain_upd: "a \<notin> set as \<Longrightarrow> chain (h(a := v)) g p as \<longleftrightarrow> chain h g p as"
  by (induction as arbitrary: p) auto

lemma chain_cong:
  "(\<And>a. a \<in> set as \<Longrightarrow> \<exists>x y. h a = Some x \<and> h' a = Some y \<and> g y = g x) \<Longrightarrow> chain h g p as \<Longrightarrow> chain h' g p as"
  by (induction as arbitrary: p) fastforce+

lemma chain_unique: "chain h g p as \<Longrightarrow> chain h g p bs \<Longrightarrow> as = bs"
proof (induction as arbitrary: p bs)
  case (Cons a as)
  then show ?case by (cases bs) auto
qed (auto elim: chain.elims)

lemma chain_distinct: "chain h g p as \<Longrightarrow> distinct as"
proof (induction as arbitrary: p)
  case (Cons a as)
  then obtain x where x: "h a = Some x" "chain h g (g x) as" by auto
  have "a \<notin> set as"
  proof
    assume "a \<in> set as"
    then obtain ys zs where as: "as = ys @ a # zs" by (auto simp: in_set_conv_decomp)
    have "chain h g q (ys @ a # zs) \<Longrightarrow> chain h g (g x) zs" for q
      by (induction ys arbitrary: q) (auto simp: x(1))
    then have "zs = as" using x(2) as chain_unique by blast
    then show False using as by (metis length_append_singleton append_Cons append_assoc append_Nil
          length_append not_add_less2 length_Cons less_add_Suc2)
  qed
  then show ?case using Cons x by auto
qed simp

lemma chain_dom: "chain h g p as \<Longrightarrow> a \<in> set as \<Longrightarrow> h a \<noteq> None"
  by (induction as arbitrary: p) auto

end
