(* ===== verification/Grades_Stats.thy ===== *)
theory Grades_Stats
  imports Grades_Data
begin

text \<open>
  hw2/src/stats.c: the statistics of every assignment over the class and over each section. The
  frequency tables are not shared and are lists of buckets; scores point to the statistics by
  position. \<^term>\<open>None\<close> is a fault, the last component of a result are the warnings.
\<close>

subsection \<open>Data\<close>

record freqs =
  fr_score :: flt
  fr_count :: int
  fr_numless :: "int option"
  fr_numlesseq :: "int option"

text \<open>The fields that \<open>Classstats\<close> and \<open>Sectionstats\<close> have in common.\<close>

record tally =
  t_asgt :: nat
  t_valid :: int
  t_tallied :: int
  t_sum :: flt
  t_sumsq :: flt
  t_min :: "flt option"
  t_max :: "flt option"
  t_mean :: "flt option"
  t_stddev :: "flt option"
  t_freqs :: "freqs list"

record sectionstats = tally +
  ss_section :: nat

record classstats = tally +
  cl_sstats :: "sectionstats list"

type_synonym stats = "classstats list"

datatype warning =
    Few_scores nat "nat option"
  | No_scores nat "nat option"
  | Small_stddev nat "nat option"
  | Small_max nat
  | Few_quantile nat "nat option"
  | No_like_scores nat
  | No_score nat nat

subsection \<open>Building the data structure\<close>

definition new_sectionstats :: "nat \<Rightarrow> nat \<Rightarrow> sectionstats" where
  "new_sectionstats ap sp = \<lparr>t_asgt = ap, t_valid = 0, t_tallied = 0, t_sum = Finite 0, t_sumsq = Finite 0,
     t_min = None, t_max = None, t_mean = None, t_stddev = None, t_freqs = [], ss_section = sp\<rparr>"

definition new_classstats :: "nat \<Rightarrow> sectionstats list \<Rightarrow> classstats" where
  "new_classstats ap sstats = \<lparr>t_asgt = ap, t_valid = 0, t_tallied = 0, t_sum = Finite 0, t_sumsq = Finite 0,
     t_min = None, t_max = None, t_mean = None, t_stddev = None, t_freqs = [], cl_sstats = sstats\<rparr>"

definition buildstats :: "course \<Rightarrow> stats" where
  "buildstats c = map (\<lambda>ap. new_classstats ap (map (new_sectionstats ap) [0..<length (co_sections c)]))
     [0..<length (co_assignments c)]"

subsection \<open>Links\<close>

text \<open>One step of the loop over the students of a section: the student is appended to the course
  roster, and its scores on the assignment are linked to the statistics.\<close>

definition link_scores :: "nat \<Rightarrow> nat \<Rightarrow> score list \<Rightarrow> score list" where
  "link_scores ap sep = map (\<lambda>scp. if sc_asgt scp = ap then scp\<lparr>sc_cstats := Some ap, sc_sstats := Some (ap, sep)\<rparr> else scp)"

definition link_student :: "nat \<Rightarrow> nat \<Rightarrow> nat \<Rightarrow> students \<times> ptr \<times> ptr \<Rightarrow> (students \<times> ptr \<times> ptr) option" where
  "link_student ap sep stp = (\<lambda>(h, roster, rp). do {
     (h, roster) \<leftarrow> (case rp of
         None \<Rightarrow> Some (h, Some stp)
       | Some r \<Rightarrow> do { x \<leftarrow> h r; Some (h(r \<mapsto> x\<lparr>st_cnext := Some stp\<rparr>), roster) });
     x \<leftarrow> h stp;
     Some (h(stp \<mapsto> x\<lparr>st_cnext := None, st_rawscores := link_scores ap sep (st_rawscores x)\<rparr>), roster, Some stp)
   })"

partial_function (option) link_section ::
  "nat \<Rightarrow> nat \<Rightarrow> ptr \<Rightarrow> students \<times> ptr \<times> ptr \<Rightarrow> (students \<times> ptr \<times> ptr) option" where
  "link_section ap sep stp s = (case stp of None \<Rightarrow> Some s
     | Some a \<Rightarrow> do {
         s \<leftarrow> link_student ap sep a s;
         x \<leftarrow> fst s a;
         link_section ap sep (st_next x) s
       })"

fun link_sections :: "nat \<Rightarrow> nat \<Rightarrow> section_data list \<Rightarrow> students \<times> ptr \<times> ptr \<Rightarrow> (students \<times> ptr \<times> ptr) option" where
  "link_sections ap sep [] s = Some s"
| "link_sections ap sep (se # ses) s = do {
     s \<leftarrow> link_section ap sep (se_roster se) s;
     link_sections ap (sep + 1) ses s
   }"

fun link_assignments :: "nat \<Rightarrow> assignment list \<Rightarrow> section_data list \<Rightarrow> students \<times> ptr \<times> ptr \<Rightarrow>
    (students \<times> ptr \<times> ptr) option" where
  "link_assignments ap [] ses s = Some s"
| "link_assignments ap (a # as) ses s = do {
     s \<leftarrow> link_sections ap 0 ses s;
     link_assignments (ap + 1) as ses s
   }"

definition do_links :: "course \<Rightarrow> students \<Rightarrow> (course \<times> students) option" where
  "do_links c h = do {
     (h, roster, rp) \<leftarrow> link_assignments 0 (co_assignments c) (co_sections c) (h, None, None);
     Some (c\<lparr>co_roster := roster\<rparr>, h)
   }"

subsection \<open>Frequency tables\<close>

definition newfreqs :: "flt \<Rightarrow> freqs" where
  "newfreqs g = \<lparr>fr_score = g, fr_count = 1, fr_numless = None, fr_numlesseq = None\<rparr>"

fun count_score :: "flt \<Rightarrow> freqs list \<Rightarrow> freqs list" where
  "count_score g [] = [newfreqs g]"
| "count_score g (fp # fps) =
     (if f_eq (fr_score fp) g then fp\<lparr>fr_count := fr_count fp + 1\<rparr> # fps
      else if f_less g (fr_score fp) then newfreqs g # fp # fps
      else fp # count_score g fps)"

definition counts :: "score \<Rightarrow> bool" where
  "counts scp \<longleftrightarrow> sc_flag scp = VALID \<or> sc_subst scp = USERAW"

text \<open>The statistics that a score points to, and their update.\<close>

definition get_sstats :: "stats \<Rightarrow> (nat \<times> nat) option \<Rightarrow> sectionstats option" where
  "get_sstats s p = do { (i, j) \<leftarrow> p; csp \<leftarrow> buf_get s i; buf_get (cl_sstats csp) j }"

definition upd_cstats :: "stats \<Rightarrow> ptr \<Rightarrow> (classstats \<Rightarrow> classstats option) \<Rightarrow> stats option" where
  "upd_cstats s p f = do { i \<leftarrow> p; csp \<leftarrow> buf_get s i; csp \<leftarrow> f csp; buf_put s i csp }"

definition upd_sstats :: "stats \<Rightarrow> (nat \<times> nat) option \<Rightarrow> (sectionstats \<Rightarrow> sectionstats option) \<Rightarrow> stats option" where
  "upd_sstats s p f = do {
     (i, j) \<leftarrow> p;
     csp \<leftarrow> buf_get s i;
     ssp \<leftarrow> buf_get (cl_sstats csp) j;
     ssp \<leftarrow> f ssp;
     ssps \<leftarrow> buf_put (cl_sstats csp) j ssp;
     buf_put s i (csp\<lparr>cl_sstats := ssps\<rparr>)
   }"

definition tally_freq :: "flt \<Rightarrow> 'a tally_scheme \<Rightarrow> 'a tally_scheme" where
  "tally_freq g t = t\<lparr>t_freqs := count_score g (t_freqs t), t_tallied := t_tallied t + 1\<rparr>"

fun freq_scores :: "score list \<Rightarrow> stats \<Rightarrow> stats option" where
  "freq_scores [] s = Some s"
| "freq_scores (scp # scps) s =
     (if counts scp then do {
        g \<leftarrow> sc_grade scp;
        s \<leftarrow> upd_cstats s (sc_cstats scp) (\<lambda>csp. Some (tally_freq g csp));
        s \<leftarrow> upd_sstats s (sc_sstats scp) (\<lambda>ssp. Some (tally_freq g ssp));
        freq_scores scps s
      } else freq_scores scps s)"

text \<open>A loop over the course roster that runs \<open>f\<close> on the raw scores of each student.\<close>

partial_function (option) over_roster :: "(score list \<Rightarrow> stats \<Rightarrow> stats option) \<Rightarrow> students \<Rightarrow> ptr \<Rightarrow> stats \<Rightarrow> stats option" where
  "over_roster f h stp s = (case stp of None \<Rightarrow> Some s
     | Some a \<Rightarrow> do { x \<leftarrow> h a; s \<leftarrow> f (st_rawscores x) s; over_roster f h (st_cnext x) s })"

definition do_freqs :: "course \<Rightarrow> students \<Rightarrow> stats \<Rightarrow> stats option" where
  "do_freqs c h s = over_roster freq_scores h (co_roster c) s"

fun number_freqs :: "int \<Rightarrow> freqs list \<Rightarrow> freqs list" where
  "number_freqs n [] = []"
| "number_freqs n (fp # fps) =
     fp\<lparr>fr_numless := Some n, fr_numlesseq := Some (n + fr_count fp)\<rparr> # number_freqs (n + fr_count fp) fps"

definition tally_quantiles :: "'a tally_scheme \<Rightarrow> 'a tally_scheme" where
  "tally_quantiles t = t\<lparr>t_freqs := number_freqs 0 (t_freqs t)\<rparr>"

definition do_quantiles :: "stats \<Rightarrow> stats" where
  "do_quantiles s = map (\<lambda>csp. (tally_quantiles csp)\<lparr>cl_sstats := map tally_quantiles (cl_sstats csp)\<rparr>) s"

subsection \<open>Sums and moments\<close>

text \<open>\<open>if(g < min) min = g; if(g > max) max = g;\<close>\<close>

definition widen :: "flt \<Rightarrow> 'a tally_scheme \<Rightarrow> 'a tally_scheme option" where
  "widen g t = do {
     mn \<leftarrow> t_min t;
     let t = (if f_less g mn then t\<lparr>t_min := Some g\<rparr> else t);
     mx \<leftarrow> t_max t;
     Some (if f_less mx g then t\<lparr>t_max := Some g\<rparr> else t)
   }"

definition first_valid :: "flt \<Rightarrow> 'a tally_scheme \<Rightarrow> 'a tally_scheme" where
  "first_valid g t = t\<lparr>t_valid := t_valid t + 1, t_min := Some g, t_max := Some g\<rparr>"

definition add_sums :: "flt \<Rightarrow> 'a tally_scheme \<Rightarrow> 'a tally_scheme" where
  "add_sums g t = t\<lparr>t_sum := f_add double (t_sum t) g, t_sumsq := f_add double (t_sumsq t) (f_mul double g g)\<rparr>"

text \<open>When a score is not the first one of its section, the code compares it with the class minimum
  and maximum again, and leaves those of the section.\<close>

definition sum_score :: "score \<Rightarrow> stats \<Rightarrow> stats option" where
  "sum_score scp s = do {
     let cp = sc_cstats scp;
     let sp = sc_sstats scp;
     g \<leftarrow> sc_grade scp;
     s \<leftarrow> upd_cstats s cp (\<lambda>csp.
       if t_valid csp = 0 then Some (first_valid g csp) else widen g (csp\<lparr>t_valid := t_valid csp + 1\<rparr>));
     ssp \<leftarrow> get_sstats s sp;
     s \<leftarrow> (if t_valid ssp = 0 then upd_sstats s sp (\<lambda>ssp. Some (first_valid g ssp))
           else do {
             s \<leftarrow> upd_sstats s sp (\<lambda>ssp. Some (ssp\<lparr>t_valid := t_valid ssp + 1\<rparr>));
             upd_cstats s cp (widen g)
           });
     s \<leftarrow> upd_cstats s cp (\<lambda>csp. Some (add_sums g csp));
     upd_sstats s sp (\<lambda>ssp. Some (add_sums g ssp))
   }"

fun sum_scores :: "score list \<Rightarrow> stats \<Rightarrow> stats option" where
  "sum_scores [] s = Some s"
| "sum_scores (scp # scps) s =
     (if counts scp then do { s \<leftarrow> sum_score scp s; sum_scores scps s } else sum_scores scps s)"

definition do_sums :: "course \<Rightarrow> students \<Rightarrow> stats \<Rightarrow> stats option" where
  "do_sums c h s = over_roster sum_scores h (co_roster c) s"

definition stddev :: "int \<Rightarrow> flt \<Rightarrow> flt \<Rightarrow> flt" where
  "stddev n sm sumsq =
     (if 2 \<le> n then f_sqrt double (f_div double
        (f_sub double sumsq (f_div double (f_mul double sm sm) (f_of_int double n))) (f_of_int double (n - 1)))
      else Finite 0)"

definition tally_moments :: "nat option \<Rightarrow> 'a tally_scheme \<Rightarrow> 'a tally_scheme \<times> warning list" where
  "tally_moments sect t =
     (if t_valid t \<noteq> 0 then
        (let t = t\<lparr>t_mean := Some (to_format single (f_div double (t_sum t) (f_of_int double (t_valid t))))\<rparr> in
         if t_valid t = 1 then (t\<lparr>t_stddev := Some (Finite 0)\<rparr>, [Few_scores (t_asgt t) sect])
         else (t\<lparr>t_stddev := Some (to_format single (stddev (t_valid t) (t_sum t) (t_sumsq t)))\<rparr>, []))
      else (t\<lparr>t_mean := Some (Finite 0), t_stddev := Some (Finite 0)\<rparr>, [No_scores (t_asgt t) sect]))"

fun section_moments :: "sectionstats list \<Rightarrow> sectionstats list \<times> warning list" where
  "section_moments [] = ([], [])"
| "section_moments (ssp # ssps) = (let (ssp, ws) = tally_moments (Some (ss_section ssp)) ssp;
     (ssps, ws') = section_moments ssps in (ssp # ssps, ws @ ws'))"

fun do_moments :: "stats \<Rightarrow> stats \<times> warning list" where
  "do_moments [] = ([], [])"
| "do_moments (csp # csps) = (let (csp, ws) = tally_moments None csp;
     (ssps, ws') = section_moments (cl_sstats csp);
     (csps, ws'') = do_moments csps in (csp\<lparr>cl_sstats := ssps\<rparr> # csps, ws @ ws' @ ws''))"

definition statistics :: "course \<Rightarrow> students \<Rightarrow> (course \<times> students \<times> stats \<times> warning list) option" where
  "statistics c h = do {
     let s = buildstats c;
     (c, h) \<leftarrow> do_links c h;
     s \<leftarrow> do_freqs c h s;
     s \<leftarrow> do_sums c h (do_quantiles s);
     let (s, ws) = do_moments s;
     Some (c, h, s, ws)
   }"

end
