(* ===== verification/Grades_Tables.thy ===== *)
theory Grades_Tables
  imports Grades_Stats
begin

text \<open>
  The frequency tables, the sums and the minima and maxima that hw2/src/stats.c computes, against
  the list of the grades that count for an assignment.
\<close>

subsection \<open>Frequency tables\<close>

abbreviation ascending :: "freqs list \<Rightarrow> bool" where
  "ascending fps \<equiv> sorted_wrt (\<lambda>p q. f_less (fr_score p) (fr_score q)) fps"

definition total :: "(flt \<Rightarrow> bool) \<Rightarrow> freqs list \<Rightarrow> int" where
  "total P fps = (\<Sum>fp\<leftarrow>fps. if P (fr_score fp) then fr_count fp else 0)"

lemma total_simps [simp]:
  "total P [] = 0" "total P (fp # fps) = (if P (fr_score fp) then fr_count fp else 0) + total P fps"
  by (simp_all add: total_def)

lemma total_count_score: "g \<noteq> NaN \<Longrightarrow> total P (count_score g fps) = total P fps + (if P g then 1 else 0)"
  by (induction g fps rule: count_score.induct) (auto simp: newfreqs_def f_eq_def)

lemma scores_count_score: "g \<noteq> NaN \<Longrightarrow> fr_score ` set (count_score g fps) = insert g (fr_score ` set fps)"
  by (induction g fps rule: count_score.induct) (auto simp: newfreqs_def f_eq_def)

lemma ascending_count_score:
  assumes "g \<noteq> NaN" "NaN \<notin> fr_score ` set fps" "ascending fps"
  shows "ascending (count_score g fps)"
  using assms
proof (induction g fps rule: count_score.induct)
  case (2 g fp fps)
  show ?case
  proof (cases "f_eq (fr_score fp) g \<or> f_less g (fr_score fp)")
    case True
    then show ?thesis using 2 f_less_trans by (auto simp: newfreqs_def)
  next
    case False
    then have "f_less (fr_score fp) g" using f_less_linear [of "fr_score fp" g] 2 by (auto simp: f_eq_def)
    moreover have "\<forall>q \<in> set (count_score g fps). fr_score q = g \<or> fr_score q \<in> fr_score ` set fps"
      using scores_count_score [OF 2(2), of fps] by (metis image_eqI insert_iff)
    ultimately have "\<forall>q \<in> set (count_score g fps). f_less (fr_score fp) (fr_score q)"
      using 2 by auto
    then show ?thesis using 2 False by auto
  qed
qed (simp add: newfreqs_def)

lemma count_scores_table:
  assumes "NaN \<notin> set gs"
  shows "ascending (fold count_score gs []) \<and> fr_score ` set (fold count_score gs []) = set gs \<and>
    total P (fold count_score gs []) = int (length (filter P gs))"
proof -
  have "ascending fps \<Longrightarrow> NaN \<notin> fr_score ` set fps \<Longrightarrow> NaN \<notin> set gs \<Longrightarrow>
      ascending (fold count_score gs fps) \<and> fr_score ` set (fold count_score gs fps) = set gs \<union> fr_score ` set fps \<and>
      total P (fold count_score gs fps) = total P fps + int (length (filter P gs))" for fps
  proof (induction gs arbitrary: fps)
    case (Cons g gs)
    then have g: "g \<noteq> NaN" by auto
    show ?case using Cons.IH [of "count_score g fps"] Cons.prems ascending_count_score [OF g] 
      by (simp add: total_count_score [OF g] scores_count_score [OF g])
  qed simp
  from this [of "[]"] assms show ?thesis by simp
qed

lemma total_none: "\<forall>fp \<in> set fps. \<not> P (fr_score fp) \<Longrightarrow> total P fps = 0"
  by (induction fps) auto

lemma set_number_freqs [simp]: "fr_score ` set (number_freqs n fps) = fr_score ` set fps"
  by (induction n fps rule: number_freqs.induct) auto

lemma number_freqs_totals:
  "ascending fps \<Longrightarrow> fp \<in> set (number_freqs n fps) \<Longrightarrow>
   fr_numless fp = Some (n + total (\<lambda>x. f_less x (fr_score fp)) fps) \<and>
   fr_numlesseq fp = Some (n + total (\<lambda>x. f_less x (fr_score fp) \<or> x = fr_score fp) fps) \<and>
   fr_count fp = total (\<lambda>x. x = fr_score fp) fps"
proof (induction n fps rule: number_freqs.induct)
  case (2 n q qs)
  have less1: "f_less (fr_score q) (fr_score r)" if "r \<in> set qs" for r using 2(2) that by auto
  have less2: "fr_score r \<noteq> fr_score q" "\<not> f_less (fr_score r) (fr_score q)" if "r \<in> set qs" for r
    using less1 [OF that] f_less_irrefl f_less_trans by (metis, metis)
  note less = less1 less2
  show ?case
  proof (cases "fp \<in> set (number_freqs (n + fr_count q) qs)")
    case True
    then have "fr_score fp \<in> fr_score ` set qs" by (metis imageI set_number_freqs)
    then obtain r where r: "r \<in> set qs" "fr_score r = fr_score fp" by auto
    show ?thesis using 2 True less1 [OF r(1)] less2 [OF r(1)] r(2) by auto
  next
    case False
    then have "fr_score fp = fr_score q" "fr_count fp = fr_count q" "fr_numless fp = Some n"
      "fr_numlesseq fp = Some (n + fr_count q)" using 2(3) by auto
    then show ?thesis using less by (simp add: total_none)
  qed
qed simp

lemma ascending_number_freqs: "ascending fps \<Longrightarrow> ascending (number_freqs n fps)"
proof (induction n fps rule: number_freqs.induct)
  case (2 n q qs)
  have "f_less (fr_score q) (fr_score x)" if "x \<in> set (number_freqs (n + fr_count q) qs)" for x
  proof -
    have "fr_score x \<in> fr_score ` set qs" using that by (metis imageI set_number_freqs)
    then show ?thesis using 2(2) by auto
  qed
  then show ?case using 2 by simp
qed simp

text \<open>The frequency table that a list of grades ought to have.\<close>

definition frequency_table :: "flt list \<Rightarrow> freqs list \<Rightarrow> bool" where
  "frequency_table gs fps \<longleftrightarrow> ascending fps \<and> fr_score ` set fps = set gs \<and>
     (\<forall>fp \<in> set fps. fr_count fp = int (length (filter (\<lambda>g. g = fr_score fp) gs)) \<and>
        fr_numless fp = Some (int (length (filter (\<lambda>g. f_less g (fr_score fp)) gs))) \<and>
        fr_numlesseq fp = Some (int (length (filter (\<lambda>g. f_less g (fr_score fp) \<or> g = fr_score fp) gs))))"

lemma frequency_table_ok:
  assumes "NaN \<notin> set gs"
  shows "frequency_table gs (number_freqs 0 (fold count_score gs []))"
  using count_scores_table [OF assms] number_freqs_totals [of "fold count_score gs []" _ 0]
    ascending_number_freqs [of "fold count_score gs []" 0]
  by (simp add: frequency_table_def)

subsection \<open>The frequency tables of a course\<close>

text \<open>A score is linked when its pointers are valid; \<open>sh\<close> are the numbers of sections per assignment.\<close>

definition linked :: "nat list \<Rightarrow> score \<Rightarrow> bool" where
  "linked sh scp \<longleftrightarrow> (\<exists>g i j. sc_grade scp = Some g \<and> sc_cstats scp = Some i \<and> i < length sh \<and>
     sc_sstats scp = Some (i, j) \<and> j < sh ! i)"

definition shape :: "stats \<Rightarrow> nat list" where
  "shape s = map (\<lambda>csp. length (cl_sstats csp)) s"

definition grade :: "score \<Rightarrow> flt" where
  "grade scp = the (sc_grade scp)"

text \<open>The grades that count for an assignment.\<close>

definition grades :: "nat \<Rightarrow> score list \<Rightarrow> flt list" where
  "grades i scps = map grade (filter (\<lambda>scp. counts scp \<and> sc_cstats scp = Some i) scps)"

lemma grades_simps [simp]:
  "grades i [] = []"
  "grades i (scp # scps) = (if counts scp \<and> sc_cstats scp = Some i then [grade scp] else []) @ grades i scps"
  "grades i (xs @ ys) = grades i xs @ grades i ys"
  by (simp_all add: grades_def)

lemma upd_cstats_Some:
  "i < length s \<Longrightarrow> f (s ! i) = Some csp \<Longrightarrow> upd_cstats s (Some i) f = Some (s[i := csp])"
  by (simp add: upd_cstats_def buf_simps)

lemma upd_sstats_Some:
  "i < length s \<Longrightarrow> j < length (cl_sstats (s ! i)) \<Longrightarrow> f (cl_sstats (s ! i) ! j) = Some ssp \<Longrightarrow>
   upd_sstats s (Some (i, j)) f = Some (s[i := (s ! i)\<lparr>cl_sstats := (cl_sstats (s ! i))[j := ssp]\<rparr>])"
  by (simp add: upd_sstats_def buf_simps)

lemma shape_upd:
  "i < length s \<Longrightarrow> length (cl_sstats csp) = length (cl_sstats (s ! i)) \<Longrightarrow> shape (s[i := csp]) = shape s"
  by (auto simp: shape_def nth_list_update intro!: nth_equalityI)

lemma linkedD:
  assumes "linked (shape s) scp"
  obtains i j where "sc_grade scp = Some (grade scp)" "sc_cstats scp = Some i" "sc_sstats scp = Some (i, j)"
    "i < length s" "j < length (cl_sstats (s ! i))"
  using assms by (auto simp: linked_def shape_def grade_def)

lemma freq_scores_ok:
  "\<forall>scp \<in> set scps. counts scp \<longrightarrow> linked (shape s) scp \<Longrightarrow>
   \<exists>s'. freq_scores scps s = Some s' \<and> shape s' = shape s \<and>
     (\<forall>i < length s. t_freqs (s' ! i) = fold count_score (grades i scps) (t_freqs (s ! i)))"
proof (induction scps arbitrary: s)
  case (Cons scp scps)
  show ?case
  proof (cases "counts scp")
    case True
    then have "linked (shape s) scp" using Cons.prems by simp
    then obtain i j where l: "sc_grade scp = Some (grade scp)" "sc_cstats scp = Some i" "sc_sstats scp = Some (i, j)"
      "i < length s" "j < length (cl_sstats (s ! i))" by (rule linkedD)
    define s1 where "s1 = s[i := tally_freq (grade scp) (s ! i)]"
    define s2 where "s2 = s1[i := (s1 ! i)\<lparr>cl_sstats := (cl_sstats (s1 ! i))[j := tally_freq (grade scp) (cl_sstats (s1 ! i) ! j)]\<rparr>]"
    have u1: "upd_cstats s (Some i) (\<lambda>csp. Some (tally_freq (grade scp) csp)) = Some s1"
      unfolding s1_def by (rule upd_cstats_Some) (use l in simp_all)
    have c1: "cl_sstats (s1 ! i) = cl_sstats (s ! i)" using l(4) by (simp add: s1_def tally_freq_def)
    have u2: "upd_sstats s1 (Some (i, j)) (\<lambda>ssp. Some (tally_freq (grade scp) ssp)) = Some s2"
      unfolding s2_def by (rule upd_sstats_Some) (use l c1 in \<open>simp_all add: s1_def\<close>)
    have "shape s1 = shape s" unfolding s1_def by (rule shape_upd) (use l in \<open>simp_all add: tally_freq_def\<close>)
    moreover have "shape s2 = shape s1" unfolding s2_def by (rule shape_upd) (use l in \<open>simp_all add: s1_def\<close>)
    ultimately have sh: "shape s2 = shape s" by simp
    then obtain s' where s': "freq_scores scps s2 = Some s'" "shape s' = shape s2"
      "\<forall>i < length s2. t_freqs (s' ! i) = fold count_score (grades i scps) (t_freqs (s2 ! i))"
      using Cons.IH [of s2] Cons.prems by auto
    have "t_freqs (s2 ! k) = (if k = i then count_score (grade scp) (t_freqs (s ! k)) else t_freqs (s ! k))"
      if "k < length s" for k
      using that l by (auto simp: s2_def s1_def tally_freq_def)
    moreover have "freq_scores (scp # scps) s = Some s'" using True l u1 u2 s'(1) by simp
    moreover have "length s2 = length s" by (simp add: s2_def s1_def)
    ultimately show ?thesis using s' sh True l(2) by auto
  next
    case False
    then show ?thesis using Cons by auto
  qed
qed simp

text \<open>The raw scores of the students of a roster.\<close>

definition roster_scores :: "students \<Rightarrow> nat list \<Rightarrow> score list" where
  "roster_scores h as = concat (map (\<lambda>a. st_rawscores (the (h a))) as)"

lemma over_roster_concat:
  assumes "chain h st_cnext p as"
    and "\<And>xs ys s. f (xs @ ys) s = do { s \<leftarrow> f xs s; f ys s }" "\<And>s. f [] s = Some s"
  shows "over_roster f h p s = f (roster_scores h as) s"
  using assms(1)
proof (induction as arbitrary: p s)
  case Nil
  then show ?case by (subst over_roster.simps) (simp add: roster_scores_def assms(3))
next
  case (Cons a as)
  then obtain x where x: "p = Some a" "h a = Some x" "chain h st_cnext (st_cnext x) as" by auto
  have "over_roster f h (st_cnext x) = f (roster_scores h as)" using Cons.IH [OF x(3)] by (intro ext)
  then show ?case using x
    by (subst over_roster.simps) (simp add: roster_scores_def assms(2))
qed

lemma freq_scores_append: "freq_scores (xs @ ys) s = do { s \<leftarrow> freq_scores xs s; freq_scores ys s }"
  by (induction xs arbitrary: s) (auto intro!: Option.bind_cong)

lemma sum_scores_append: "sum_scores (xs @ ys) s = do { s \<leftarrow> sum_scores xs s; sum_scores ys s }"
  by (induction xs arbitrary: s) (auto intro!: Option.bind_cong)

lemma buildstats_nth: "i < length (co_assignments c) \<Longrightarrow> t_freqs (buildstats c ! i) = []"
  by (simp add: buildstats_def new_classstats_def)

text \<open>C32: When every counting score of the roster has its links to the statistics and the counting
  grades of an assignment are numbers, \<open>do_freqs\<close> and \<open>do_quantiles\<close> do not fault and give the
  assignment its frequency table: one bucket for each grade that occurs, in ascending order, with the
  numbers of grades equal to, less than and at most it. The grades must not be NaN: \<open>readgrade\<close>
  accepts the word nan, and for a NaN \<open>count_score\<close> adds a new bucket every time.\<close>

theorem do_freqs_tables:
  assumes "chain h st_cnext (co_roster c) as"
    "\<forall>scp \<in> set (roster_scores h as). counts scp \<longrightarrow> linked (shape (buildstats c)) scp"
    "i < length (co_assignments c)" "NaN \<notin> set (grades i (roster_scores h as))"
  shows "\<exists>s. do_freqs c h (buildstats c) = Some s \<and>
    frequency_table (grades i (roster_scores h as)) (t_freqs (do_quantiles s ! i))"
proof -
  obtain s where s: "freq_scores (roster_scores h as) (buildstats c) = Some s" "shape s = shape (buildstats c)"
    "\<forall>i < length (buildstats c). t_freqs (s ! i) = fold count_score (grades i (roster_scores h as)) (t_freqs (buildstats c ! i))"
    using freq_scores_ok [OF assms(2)] by blast
  have len: "length s = length (co_assignments c)"
    using arg_cong [OF s(2), of length] by (simp add: shape_def buildstats_def)
  have "t_freqs (s ! i) = fold count_score (grades i (roster_scores h as)) []"
    using s(3) assms(3) buildstats_nth [OF assms(3)] by (simp add: buildstats_def)
  then have "t_freqs (do_quantiles s ! i) = number_freqs 0 (fold count_score (grades i (roster_scores h as)) [])"
    using assms(3) len by (simp add: do_quantiles_def tally_quantiles_def)
  then show ?thesis
    using frequency_table_ok [OF assms(4)] s(1) over_roster_concat [OF assms(1) freq_scores_append]
    by (simp add: do_freqs_def)
qed

subsection \<open>Minima and maxima\<close>

definition section_grades :: "nat \<Rightarrow> nat \<Rightarrow> score list \<Rightarrow> flt list" where
  "section_grades i j scps = map grade (filter (\<lambda>scp. counts scp \<and> sc_sstats scp = Some (i, j)) scps)"

definition least :: "flt list \<Rightarrow> flt option \<Rightarrow> bool" where
  "least gs m \<longleftrightarrow> (\<exists>x. m = Some x \<and> x \<in> set gs \<and> (\<forall>g \<in> set gs. \<not> f_less g x))"

definition greatest :: "flt list \<Rightarrow> flt option \<Rightarrow> bool" where
  "greatest gs m \<longleftrightarrow> (\<exists>x. m = Some x \<and> x \<in> set gs \<and> (\<forall>g \<in> set gs. \<not> f_less x g))"

definition class_ok :: "flt list \<Rightarrow> 'a tally_scheme \<Rightarrow> bool" where
  "class_ok gs t \<longleftrightarrow> t_valid t = int (length gs) \<and> (gs \<noteq> [] \<longrightarrow> least gs (t_min t) \<and> greatest gs (t_max t))"

text \<open>The minimum and the maximum of a section stay the first grade.\<close>

definition section_ok :: "flt list \<Rightarrow> 'a tally_scheme \<Rightarrow> bool" where
  "section_ok gs t \<longleftrightarrow> t_valid t = int (length gs) \<and>
     (gs \<noteq> [] \<longrightarrow> t_min t = Some (hd gs) \<and> t_max t = Some (hd gs))"

lemma least_snoc: "least gs (Some m) \<Longrightarrow> least (gs @ [g]) (Some (if f_less g m then g else m))"
  using f_less_trans by (auto simp: least_def)

lemma greatest_snoc: "greatest gs (Some m) \<Longrightarrow> greatest (gs @ [g]) (Some (if f_less m g then g else m))"
  using f_less_trans by (auto simp: greatest_def)

lemma widen_Some:
  "t_min t = Some m \<Longrightarrow> t_max t = Some M \<Longrightarrow> widen g t =
   Some (t\<lparr>t_min := Some (if f_less g m then g else m), t_max := Some (if f_less M g then g else M)\<rparr>)"
  by (simp add: widen_def Let_def)

lemma first_valid_ok: "t_valid t = 0 \<Longrightarrow> class_ok [g] (first_valid g t) \<and> section_ok [g] (first_valid g t)"
  by (simp add: class_ok_def section_ok_def first_valid_def least_def greatest_def)

lemma class_next:
  assumes "class_ok gs csp"
  obtains csp1 where "(if t_valid csp = 0 then Some (first_valid g csp) else widen g (csp\<lparr>t_valid := t_valid csp + 1\<rparr>)) = Some csp1"
    "class_ok (gs @ [g]) csp1" "cl_sstats csp1 = cl_sstats csp"
proof (cases "gs = []")
  case True
  then show thesis using that assms first_valid_ok [of csp g] by (simp add: class_ok_def first_valid_def)
next
  case False
  then obtain m M where m: "t_min csp = Some m" "t_max csp = Some M" "least gs (Some m)" "greatest gs (Some M)"
    using assms by (auto simp: class_ok_def least_def greatest_def)
  show thesis
    by (rule that, use m False assms in \<open>simp add: widen_Some class_ok_def\<close>)
      (use m False assms least_snoc greatest_snoc in \<open>simp_all add: class_ok_def\<close>)
qed

lemma class_again:
  assumes "class_ok (gs @ [g]) csp"
  obtains csp1 where "widen g csp = Some csp1" "class_ok (gs @ [g]) csp1" "cl_sstats csp1 = cl_sstats csp"
proof -
  obtain m M where m: "t_min csp = Some m" "t_max csp = Some M" "least (gs @ [g]) (Some m)"
    "greatest (gs @ [g]) (Some M)"
    using assms by (auto simp: class_ok_def least_def greatest_def)
  then have "\<not> f_less g m" "\<not> f_less M g" by (auto simp: least_def greatest_def)
  then have "widen g csp = Some csp" using m by (simp add: widen_Some)
  then show thesis using that assms by blast
qed

lemma add_sums_ok [simp]:
  "class_ok gs (add_sums g t) = class_ok gs t" "section_ok gs (add_sums g u) = section_ok gs u"
  "cl_sstats (add_sums g csp) = cl_sstats csp"
  by (simp_all add: add_sums_def class_ok_def section_ok_def)

lemma sum_score_step:
  assumes "sc_grade scp = Some g" "sc_cstats scp = Some i" "sc_sstats scp = Some (i, j)" "i < length s"
    "j < length (cl_sstats (s ! i))" "class_ok gs (s ! i)" "section_ok gs' (cl_sstats (s ! i) ! j)"
  obtains csp ssp where "sum_score scp s = Some (s[i := csp])" "class_ok (gs @ [g]) csp"
    "cl_sstats csp = (cl_sstats (s ! i))[j := ssp]" "section_ok (gs' @ [g]) ssp"
proof -
  let ?ssp = "cl_sstats (s ! i) ! j"
  obtain c1 where c1: "(if t_valid (s ! i) = 0 then Some (first_valid g (s ! i))
      else widen g ((s ! i)\<lparr>t_valid := t_valid (s ! i) + 1\<rparr>)) = Some c1"
    "class_ok (gs @ [g]) c1" "cl_sstats c1 = cl_sstats (s ! i)"
    by (rule class_next [OF assms(6)]) blast
  define ssp where "ssp = (if t_valid ?ssp = 0 then first_valid g ?ssp else ?ssp\<lparr>t_valid := t_valid ?ssp + 1\<rparr>)"
  have ssp: "section_ok (gs' @ [g]) ssp"
    using assms(7) first_valid_ok [of ?ssp g] by (cases "gs' = []") (auto simp: ssp_def section_ok_def)
  define c2 where "c2 = c1\<lparr>cl_sstats := (cl_sstats c1)[j := ssp]\<rparr>"
  have c2: "class_ok (gs @ [g]) c2" using c1(2) by (simp add: c2_def class_ok_def)
  obtain c3 where c3: "widen g c2 = Some c3" "class_ok (gs @ [g]) c3" "cl_sstats c3 = cl_sstats c2"
    by (rule class_again [OF c2]) blast
  let ?c = "if t_valid ?ssp = 0 then c2 else c3"
  let ?r = "(add_sums g ?c)\<lparr>cl_sstats := (cl_sstats c2)[j := add_sums g ssp]\<rparr>"
  have u1: "upd_cstats s (Some i) (\<lambda>csp. if t_valid csp = 0 then Some (first_valid g csp)
      else widen g (csp\<lparr>t_valid := t_valid csp + 1\<rparr>)) = Some (s[i := c1])"
    by (rule upd_cstats_Some [OF assms(4)]) (rule c1(1))
  have g1: "get_sstats (s[i := c1]) (Some (i, j)) = Some ?ssp"
    using assms(4,5) c1(3) by (simp add: get_sstats_def buf_simps)
  have u2: "(if t_valid ?ssp = 0 then upd_sstats (s[i := c1]) (Some (i, j)) (\<lambda>ssp. Some (first_valid g ssp))
      else do { s \<leftarrow> upd_sstats (s[i := c1]) (Some (i, j)) (\<lambda>ssp. Some (ssp\<lparr>t_valid := t_valid ssp + 1\<rparr>));
        upd_cstats s (Some i) (widen g) }) = Some (s[i := ?c])"
  proof (cases "t_valid ?ssp = 0")
    case True
    then show ?thesis using assms(4,5) c1(3) by (simp add: upd_sstats_def buf_simps c2_def ssp_def)
  next
    case False
    then have "upd_sstats (s[i := c1]) (Some (i, j)) (\<lambda>ssp. Some (ssp\<lparr>t_valid := t_valid ssp + 1\<rparr>)) = Some (s[i := c2])"
      using assms(4,5) c1(3) by (simp add: upd_sstats_def buf_simps c2_def ssp_def)
    moreover have "upd_cstats (s[i := c2]) (Some i) (widen g) = Some (s[i := c3])"
      using assms(4) c3(1) by (simp add: upd_cstats_def buf_simps)
    ultimately show ?thesis using False by simp
  qed
  have u3: "upd_cstats (s[i := ?c]) (Some i) (\<lambda>csp. Some (add_sums g csp)) = Some (s[i := add_sums g ?c])"
    using assms(4) by (simp add: upd_cstats_def buf_simps)
  have u4: "upd_sstats (s[i := add_sums g ?c]) (Some (i, j)) (\<lambda>ssp. Some (add_sums g ssp)) = Some (s[i := ?r])"
    using assms(4,5) c1(3) c3(3) by (simp add: upd_sstats_def buf_simps c2_def)
  show thesis
  proof (rule that [of ?r "add_sums g ssp"])
    show "sum_score scp s = Some (s[i := ?r])"
      unfolding sum_score_def assms(1-3) Let_def using u1 g1 u2 u3 u4 by simp
    have "class_ok (gs @ [g]) (add_sums g ?c)" using c2 c3(2) by simp
    then show "class_ok (gs @ [g]) ?r" by (simp only: class_ok_def) simp
  qed (use ssp c1(3) in \<open>simp_all add: c2_def\<close>)
qed


definition stats_ok :: "nat list \<Rightarrow> score list \<Rightarrow> stats \<Rightarrow> bool" where
  "stats_ok sh scps s \<longleftrightarrow> shape s = sh \<and> (\<forall>i < length s. class_ok (grades i scps) (s ! i) \<and>
     (\<forall>j < length (cl_sstats (s ! i)). section_ok (section_grades i j scps) (cl_sstats (s ! i) ! j)))"

lemma section_grades_snoc:
  "section_grades i j (scps @ [scp]) =
   section_grades i j scps @ (if counts scp \<and> sc_sstats scp = Some (i, j) then [grade scp] else [])"
  by (simp add: section_grades_def)

lemma sum_scores_ok:
  "stats_ok sh xs s \<Longrightarrow> \<forall>scp \<in> set ys. counts scp \<longrightarrow> linked sh scp \<Longrightarrow>
   \<exists>s'. sum_scores ys s = Some s' \<and> stats_ok sh (xs @ ys) s'"
proof (induction ys arbitrary: xs s)
  case (Cons scp ys)
  show ?case
  proof (cases "counts scp")
    case True
    have sh: "shape s = sh" using Cons.prems(1) by (simp add: stats_ok_def)
    have "linked (shape s) scp" using Cons.prems(2) True sh by simp
    then obtain i j where l: "sc_grade scp = Some (grade scp)" "sc_cstats scp = Some i" "sc_sstats scp = Some (i, j)"
      "i < length s" "j < length (cl_sstats (s ! i))" by (rule linkedD)
    have ok: "class_ok (grades i xs) (s ! i)" "section_ok (section_grades i j xs) (cl_sstats (s ! i) ! j)"
      using Cons.prems(1) l(4,5) by (simp_all add: stats_ok_def)
    obtain csp ssp where c: "sum_score scp s = Some (s[i := csp])" "class_ok (grades i xs @ [grade scp]) csp"
      "cl_sstats csp = (cl_sstats (s ! i))[j := ssp]" "section_ok (section_grades i j xs @ [grade scp]) ssp"
      by (rule sum_score_step [OF l ok])
    have "shape (s[i := csp]) = sh" using shape_upd [OF l(4), of csp] c(3) sh by simp
    then have "stats_ok sh (xs @ [scp]) (s[i := csp])"
      using Cons.prems(1) True l c(2-4)
      by (auto simp: stats_ok_def nth_list_update section_grades_snoc)
    then show ?thesis using Cons.IH [of "xs @ [scp]" "s[i := csp]"] Cons.prems(2) True c(1) by auto
  next
    case False
    then have "stats_ok sh (xs @ [scp]) s" using Cons.prems(1) by (simp add: stats_ok_def section_grades_snoc)
    then show ?thesis using Cons.IH [of "xs @ [scp]" s] Cons.prems(2) False by auto
  qed
qed auto

text \<open>C33: Take statistics without counts, a roster whose counting scores all have their links to the
  statistics, and a section with at least one counting score for the assignment. The sums do not
  fault and give the assignment and the section the number of their counting grades, and the
  assignment a minimum and a maximum that no grade is below or above; but the minimum and the
  maximum of the section are both the first grade of the section, because later grades are compared
  with those of the class instead.\<close>

theorem do_sums_min_max:
  assumes "chain h st_cnext (co_roster c) as" "stats_ok sh [] s"
    "\<forall>scp \<in> set (roster_scores h as). counts scp \<longrightarrow> linked sh scp"
    "i < length s" "j < length (cl_sstats (s ! i))" "section_grades i j (roster_scores h as) \<noteq> []"
  shows "\<exists>s'. do_sums c h s = Some s' \<and> t_valid (s' ! i) = int (length (grades i (roster_scores h as))) \<and>
    least (grades i (roster_scores h as)) (t_min (s' ! i)) \<and>
    greatest (grades i (roster_scores h as)) (t_max (s' ! i)) \<and>
    t_valid (cl_sstats (s' ! i) ! j) = int (length (section_grades i j (roster_scores h as))) \<and>
    t_min (cl_sstats (s' ! i) ! j) = Some (hd (section_grades i j (roster_scores h as))) \<and>
    t_max (cl_sstats (s' ! i) ! j) = Some (hd (section_grades i j (roster_scores h as)))"
proof -
  let ?g = "roster_scores h as"
  obtain s' where s': "sum_scores ?g s = Some s'" "stats_ok sh ?g s'"
    using sum_scores_ok [OF assms(2,3)] by auto
  have sh: "shape s' = shape s" using s'(2) assms(2) by (simp add: stats_ok_def)
  have i: "i < length s'" using arg_cong [OF sh, of length] assms(4) by (simp add: shape_def)
  have "map (\<lambda>c. length (cl_sstats c)) s' ! i = map (\<lambda>c. length (cl_sstats c)) s ! i"
    using sh by (simp add: shape_def)
  then have j: "j < length (cl_sstats (s' ! i))" using i assms(4,5) by simp
  obtain scp where scp: "scp \<in> set ?g" "counts scp" "sc_sstats scp = Some (i, j)"
    using assms(6) by (auto simp: section_grades_def filter_empty_conv)
  then have "sc_cstats scp = Some i" using assms(3) by (auto simp: linked_def)
  then have "grades i ?g \<noteq> []" using scp by (auto simp: grades_def filter_empty_conv)
  then show ?thesis
    using s' i j assms(6) over_roster_concat [OF assms(1) sum_scores_append]
    by (simp add: do_sums_def stats_ok_def class_ok_def section_ok_def)
qed

end
