(* ===== verification/Grades_Links.thy ===== *)
theory Grades_Links
  imports Grades_Tables
begin

text \<open>
  \<open>do_links\<close> of hw2/src/stats.c builds the roster of the course: it appends every student once for
  each assignment, and each pass over the assignments rebuilds the same chain.
\<close>

subsection \<open>The course roster\<close>

lemma link_student_run:
  assumes "h stp = Some x" "\<forall>r. rp = Some r \<longrightarrow> h r \<noteq> None"
  shows "\<exists>h' y. link_student ap sep stp (h, roster, rp) = Some (h', if rp = None then Some stp else roster, Some stp) \<and>
    h' stp = Some y \<and> st_cnext y = None \<and> st_next y = st_next x \<and> st_rawscores y = link_scores ap sep (st_rawscores x) \<and>
    (\<forall>a z. a \<noteq> stp \<longrightarrow> h a = Some z \<longrightarrow>
      h' a = Some (if rp = Some a then z\<lparr>st_cnext := Some stp\<rparr> else z)) \<and>
    (\<forall>a. h a = None \<longrightarrow> h' a = None)"
proof (cases rp)
  case None
  then show ?thesis using assms by (auto simp: link_student_def)
next
  case (Some r)
  then obtain z where "h r = Some z" using assms(2) by auto
  then show ?thesis using assms(1) Some by (auto simp: link_student_def)
qed

text \<open>The loops append the students in the order in which they meet them.\<close>

fun link_list :: "nat \<Rightarrow> (nat \<times> nat) list \<Rightarrow> students \<times> ptr \<times> ptr \<Rightarrow> (students \<times> ptr \<times> ptr) option" where
  "link_list ap [] s = Some s"
| "link_list ap ((sep, a) # as) s = do { s \<leftarrow> link_student ap sep a s; link_list ap as s }"

lemma link_list_append: "link_list ap (xs @ ys) s = do { s \<leftarrow> link_list ap xs s; link_list ap ys s }"
  by (induction ap xs s rule: link_list.induct) (auto intro!: Option.bind_cong)

text \<open>What a run leaves unchanged.\<close>

definition same_rosters :: "students \<Rightarrow> students \<Rightarrow> bool" where
  "same_rosters h h' \<longleftrightarrow> (\<forall>a. map_option st_next (h' a) = map_option st_next (h a))"

lemma same_rosters_refl [simp]: "same_rosters h h"
  by (simp add: same_rosters_def)

lemma same_rosters_trans: "same_rosters h h' \<Longrightarrow> same_rosters h' h'' \<Longrightarrow> same_rosters h h''"
  by (simp add: same_rosters_def)

lemma same_rosters_get: "same_rosters h h' \<Longrightarrow> h a = Some x \<Longrightarrow> \<exists>y. h' a = Some y \<and> st_next y = st_next x"
  unfolding same_rosters_def by (metis map_option_eq_Some)

lemma same_rosters_dom: "same_rosters h h' \<Longrightarrow> h' a = None \<longleftrightarrow> h a = None"
  unfolding same_rosters_def by (metis map_option_is_None)

lemma same_rosters_chain: "same_rosters h h' \<Longrightarrow> chain h st_next p as \<Longrightarrow> chain h' st_next p as"
  by (induction as arbitrary: p) (auto dest: same_rosters_get)

lemma link_student_same:
  assumes "link_student ap sep stp (h, roster, rp) = Some (h', r')"
  shows "same_rosters h h'"
  using assms by (auto simp: link_student_def same_rosters_def bind_eq_Some_conv split: option.splits)

lemma link_section_list:
  assumes "chain h st_next p as"
  shows "link_section ap sep p (h, r) = link_list ap (map (Pair sep) as) (h, r)"
  using assms
proof (induction as arbitrary: p h r)
  case Nil
  then show ?case by (subst link_section.simps) simp
next
  case (Cons a as)
  then obtain x where x: "p = Some a" "h a = Some x" "chain h st_next (st_next x) as" by auto
  obtain roster rp where r: "r = (roster, rp)" by (cases r)
  show ?case
  proof (cases "link_student ap sep a (h, r)")
    case None
    then show ?thesis using x by (subst link_section.simps) simp
  next
    case (Some s1)
    obtain h1 r1 where s1: "s1 = (h1, r1)" by (cases s1)
    have same: "same_rosters h h1" using link_student_same Some s1 r by blast
    then obtain y where y: "h1 a = Some y" "st_next y = st_next x"
      using x(2) same_rosters_get by blast
    have "chain h1 st_next (st_next x) as" by (rule same_rosters_chain [OF same x(3)])
    then show ?thesis using Cons.IH [of h1 "st_next x" r1] x Some s1 y
      by (subst link_section.simps) simp
  qed
qed

text \<open>After a run the last of its students ends the course roster, and they follow each other.\<close>

lemma chain_extend:
  assumes "chain h g p as" "as \<noteq> []" "distinct as" "\<And>b. b \<in> set (butlast as) \<Longrightarrow> h' b = h b"
    "h' (last as) = Some x" "g x = Some a" "h' a = Some y" "g y = None"
  shows "chain h' g p (as @ [a])"
  using assms(1-6)
proof (induction as arbitrary: p)
  case (Cons b as)
  show ?case
  proof (cases "as = []")
    case True
    then show ?thesis using Cons.prems assms(7,8) by auto
  next
    case False
    then show ?thesis using Cons by auto
  qed
qed simp

lemma link_list_chain:
  assumes "distinct (map snd ys)" "ys \<noteq> []" "\<forall>a \<in> set (map snd ys). h a \<noteq> None" "\<forall>r. rp = Some r \<longrightarrow> h r \<noteq> None"
  shows "\<exists>h'. link_list ap ys (h, roster, rp) =
      Some (h', if rp = None then Some (snd (hd ys)) else roster, Some (snd (last ys))) \<and>
    chain h' st_cnext (Some (snd (hd ys))) (map snd ys) \<and> same_rosters h h' \<and>
    (\<forall>a x. h a = Some x \<longrightarrow> (\<exists>y. h' a = Some y \<and>
      st_rawscores y = (case map_of (map prod.swap ys) a of None \<Rightarrow> st_rawscores x
        | Some sep \<Rightarrow> link_scores ap sep (st_rawscores x))))"
  using assms(2,1,3)
proof (induction ys rule: rev_nonempty_induct)
  case (single y)
  obtain sep a where y: "y = (sep, a)" by (cases y)
  obtain x where x: "h a = Some x" using single y by auto
  obtain h2 z where h2: "link_student ap sep a (h, roster, rp) = Some (h2, if rp = None then Some a else roster, Some a)"
    "h2 a = Some z" "st_cnext z = None" "st_rawscores z = link_scores ap sep (st_rawscores x)"
    "\<forall>b w. b \<noteq> a \<longrightarrow> h b = Some w \<longrightarrow> h2 b = Some (if rp = Some b then w\<lparr>st_cnext := Some a\<rparr> else w)"
    using link_student_run [OF x assms(4), of ap sep roster] by auto
  have "\<exists>w'. h2 b = Some w' \<and> st_rawscores w' = (case map_of (map prod.swap [y]) b of
      None \<Rightarrow> st_rawscores w | Some sep \<Rightarrow> link_scores ap sep (st_rawscores w))" if b: "h b = Some w" for b w
    using h2(2,4,5) b x y by (cases "b = a") auto
  moreover have "same_rosters h h2" by (rule link_student_same [OF h2(1)])
  ultimately show ?case using h2(1-3) y by simp
next
  case (snoc y ys)
  obtain sep a where y: "y = (sep, a)" by (cases y)
  have a: "a \<notin> set (map snd ys)" "distinct (map snd ys)" using snoc.prems(1) y by auto
  obtain h1 where h1: "link_list ap ys (h, roster, rp) =
      Some (h1, if rp = None then Some (snd (hd ys)) else roster, Some (snd (last ys)))"
    "chain h1 st_cnext (Some (snd (hd ys))) (map snd ys)" "same_rosters h h1"
    "\<forall>a x. h a = Some x \<longrightarrow> (\<exists>y. h1 a = Some y \<and>
      st_rawscores y = (case map_of (map prod.swap ys) a of None \<Rightarrow> st_rawscores x
        | Some sep \<Rightarrow> link_scores ap sep (st_rawscores x)))"
    using snoc.IH a(2) snoc.prems(2) by auto
  have last: "snd (last ys) \<in> set (map snd ys)" using snoc.hyps by simp
  then have dom: "h1 (snd (last ys)) \<noteq> None" using chain_dom [OF h1(2)] by blast
  then obtain xl where xl: "h1 (snd (last ys)) = Some xl" by blast
  obtain x where x: "h a = Some x" using snoc.prems(2) y by auto
  then obtain x1 where x1: "h1 a = Some x1" using same_rosters_get [OF h1(3)] by blast
  have raw1: "st_rawscores x1 = st_rawscores x"
  proof -
    have "map_of (map prod.swap ys) a = None" using a(1) by (force simp: map_of_eq_None_iff)
    moreover obtain w where "h1 a = Some w" "st_rawscores w = (case map_of (map prod.swap ys) a of
        None \<Rightarrow> st_rawscores x | Some sep \<Rightarrow> link_scores ap sep (st_rawscores x))"
      using h1(4) x by blast
    ultimately show ?thesis using x1 by simp
  qed
  have pre: "\<forall>r. Some (snd (last ys)) = Some r \<longrightarrow> h1 r \<noteq> None" using dom by simp
  let ?roster = "if rp = None then Some (snd (hd ys)) else roster"
  obtain h2 z where h2: "link_student ap sep a (h1, ?roster, Some (snd (last ys))) = Some (h2, ?roster, Some a)"
    "h2 a = Some z" "st_cnext z = None" "st_rawscores z = link_scores ap sep (st_rawscores x1)"
    "\<forall>b w. b \<noteq> a \<longrightarrow> h1 b = Some w \<longrightarrow>
       h2 b = Some (if Some (snd (last ys)) = Some b then w\<lparr>st_cnext := Some a\<rparr> else w)"
    using link_student_run [OF x1 pre, of ap sep ?roster] by auto
  have "chain h2 st_cnext (Some (snd (hd ys))) (map snd ys @ [a])"
  proof (rule chain_extend [OF h1(2)])
    show "h2 b = h1 b" if b: "b \<in> set (butlast (map snd ys))" for b
    proof -
      have "b \<in> set (map snd ys)" using b by (rule in_set_butlastD)
      moreover have "b \<noteq> snd (last ys)" using b a(2) snoc.hyps
        by (metis append_butlast_last_id distinct_append disjoint_iff last_map list.map_disc_iff list.set_intros(1))
      ultimately show ?thesis using h2(5) chain_dom [OF h1(2), of b] a(1) by auto
    qed
    show "h2 (last (map snd ys)) = Some (xl\<lparr>st_cnext := Some a\<rparr>)"
    proof -
      have "snd (last ys) \<noteq> a" using last a(1) by blast
      then show ?thesis using h2(5) xl snoc.hyps by (simp add: last_map)
    qed
  qed (use snoc.hyps a(2) h2(2,3) in auto)
  moreover have "same_rosters h h2" using h1(3) link_student_same [OF h2(1)] same_rosters_trans by blast
  moreover have "\<exists>w'. h2 b = Some w' \<and> st_rawscores w' = (case map_of (map prod.swap (ys @ [y])) b of
      None \<Rightarrow> st_rawscores w | Some sep \<Rightarrow> link_scores ap sep (st_rawscores w))" if b: "h b = Some w" for b w
  proof (cases "b = a")
    case True
    have "map_of (map prod.swap ys) a = None" using a(1) by (force simp: map_of_eq_None_iff)
    then show ?thesis using True b x h2(2,4) raw1 y by (simp add: map_add_def)
  next
    case False
    obtain w1 where w1: "h1 b = Some w1" "st_rawscores w1 = (case map_of (map prod.swap ys) b of
        None \<Rightarrow> st_rawscores w | Some sep \<Rightarrow> link_scores ap sep (st_rawscores w))"
      using h1(4) b by blast
    have "map_of (map prod.swap (ys @ [y])) b = map_of (map prod.swap ys) b"
      using False y by (auto simp: map_add_def split: option.splits)
    then show ?thesis using w1 h2(5) False by (cases "snd (last ys) = b") auto
  qed
  moreover have "link_list ap (ys @ [y]) (h, roster, rp) = Some (h2, ?roster, Some a)"
    using h1(1) h2(1) y by (simp add: link_list_append)
  moreover have "hd (ys @ [y]) = hd ys" "last (ys @ [y]) = y" using snoc.hyps by simp_all
  ultimately show ?case using y by auto
qed

subsection \<open>Sections and assignments\<close>

fun tagged :: "nat \<Rightarrow> nat list list \<Rightarrow> (nat \<times> nat) list" where
  "tagged sep [] = []"
| "tagged sep (as # ass) = map (Pair sep) as @ tagged (sep + 1) ass"

lemma tagged_snd [simp]: "map snd (tagged sep ass) = concat ass"
  by (induction sep ass rule: tagged.induct) (simp_all add: comp_def)

lemma tagged_map_of:
  "distinct (concat ass) \<Longrightarrow> j < length ass \<Longrightarrow> a \<in> set (ass ! j) \<Longrightarrow>
   map_of (map prod.swap (tagged sep ass)) a = Some (sep + j)"
proof (induction sep ass arbitrary: j rule: tagged.induct)
  case (2 sep as ass)
  have m: "map_of (map prod.swap (map (Pair sep) as)) a = (if a \<in> set as then Some sep else None)"
    by (induction as) auto
  show ?case
  proof (cases j)
    case 0
    then show ?thesis using 2(4) m by (simp add: map_add_def map_of_append del: map_map split: option.splits)
  next
    case (Suc k)
    then have "a \<in> set (concat ass)" using 2(3,4) nth_mem by fastforce
    then have "a \<notin> set as" using 2(2) by auto
    then show ?thesis using 2 Suc m by (simp add: map_add_def map_of_append del: map_map split: option.splits)
  qed
qed simp

lemma link_list_same: "link_list ap ys (h, r) = Some (h', r') \<Longrightarrow> same_rosters h h'"
proof (induction ys arbitrary: h r)
  case (Cons y ys)
  obtain sep a where y: "y = (sep, a)" by (cases y)
  obtain h1 r1 where 1: "link_student ap sep a (h, r) = Some (h1, r1)" "link_list ap ys (h1, r1) = Some (h', r')"
    using Cons.prems y by (auto simp: bind_eq_Some_conv)
  show ?case using link_student_same [of ap sep a h "fst r" "snd r"] 1 Cons.IH same_rosters_trans by (metis prod.collapse)
qed simp

lemma link_sections_list:
  "list_all2 (chain h st_next) (map se_roster ses) ass \<Longrightarrow>
   link_sections ap sep ses (h, r) = link_list ap (tagged sep ass) (h, r)"
proof (induction ses arbitrary: sep ass h r)
  case (Cons se ses)
  then obtain as ass' where ass: "ass = as # ass'" "chain h st_next (se_roster se) as"
    "list_all2 (chain h st_next) (map se_roster ses) ass'"
    by (auto simp: list_all2_Cons1)
  show ?case
  proof (cases "link_list ap (map (Pair sep) as) (h, r)")
    case None
    then show ?thesis using ass by (simp add: link_section_list link_list_append)
  next
    case (Some s1)
    obtain h1 r1 where s1: "s1 = (h1, r1)" by (cases s1)
    have same: "same_rosters h h1" using link_list_same Some s1 by blast
    have "list_all2 (chain h1 st_next) (map se_roster ses) ass'"
      using ass(3) same_rosters_chain [OF same] by (simp add: list_all2_conv_all_nth)
    then show ?thesis using Cons.IH Some s1 ass by (simp add: link_section_list link_list_append)
  qed
qed simp

text \<open>The scores on the first \<open>n\<close> assignments point to their statistics.\<close>

definition linked_upto :: "nat \<Rightarrow> nat \<Rightarrow> score list \<Rightarrow> bool" where
  "linked_upto n sep scps \<longleftrightarrow> (\<forall>scp \<in> set scps. sc_asgt scp < n \<longrightarrow>
     sc_cstats scp = Some (sc_asgt scp) \<and> sc_sstats scp = Some (sc_asgt scp, sep))"

text \<open>What a score is, apart from its links.\<close>

definition core :: "score \<Rightarrow> score" where
  "core scp = scp\<lparr>sc_cstats := None, sc_sstats := None\<rparr>"

lemma link_scores_upto: "linked_upto n sep scps \<Longrightarrow> linked_upto (Suc n) sep (link_scores n sep scps)"
  by (auto simp: linked_upto_def link_scores_def less_Suc_eq)

lemma link_scores_core [simp]: "map core (link_scores n sep scps) = map core scps"
  by (simp add: link_scores_def core_def)

definition students_linked :: "nat \<Rightarrow> nat list list \<Rightarrow> students \<Rightarrow> students \<Rightarrow> bool" where
  "students_linked n ass h h' \<longleftrightarrow> (\<forall>j < length ass. \<forall>a \<in> set (ass ! j). \<exists>x y. h a = Some x \<and> h' a = Some y \<and>
     map core (st_rawscores y) = map core (st_rawscores x) \<and> linked_upto n j (st_rawscores y))"

lemma link_assignments_chain:
  assumes "distinct (concat ass)" "concat ass \<noteq> []"
  shows "list_all2 (chain h st_next) (map se_roster ses) ass \<Longrightarrow> students_linked ap ass h0 h \<Longrightarrow>
    \<forall>r. rp = Some r \<longrightarrow> h r \<noteq> None \<Longrightarrow> (as = [] \<Longrightarrow> chain h st_cnext (Some (hd (concat ass))) (concat ass)) \<Longrightarrow>
    (if rp = None then as \<noteq> [] else roster = Some (hd (concat ass))) \<Longrightarrow>
    \<exists>h' rp'. link_assignments ap as ses (h, roster, rp) = Some (h', Some (hd (concat ass)), rp') \<and>
      chain h' st_cnext (Some (hd (concat ass))) (concat ass) \<and> students_linked (ap + length as) ass h0 h'"
proof (induction as arbitrary: ap h roster rp)
  case Nil
  then show ?case by (auto split: if_splits)
next
  case (Cons asg as)
  let ?ys = "tagged 0 ass"
  have ne: "?ys \<noteq> []" using assms(2) tagged_snd [of 0 ass] by (metis list.map(1))
  have hd: "snd (hd ?ys) = hd (concat ass)" using ne tagged_snd [of 0 ass] by (metis hd_map)
  have last: "snd (last ?ys) = last (concat ass)" using ne tagged_snd [of 0 ass] by (metis last_map)
  have dom: "\<forall>a \<in> set (map snd ?ys). h a \<noteq> None"
  proof
    fix a assume "a \<in> set (map snd ?ys)"
    then have "a \<in> set (concat ass)" by (simp only: tagged_snd)
    then obtain as' where "as' \<in> set ass" "a \<in> set as'" by auto
    then obtain j where "j < length ass" "a \<in> set (ass ! j)" by (metis in_set_conv_nth)
    then show "h a \<noteq> None" using Cons.prems(2) unfolding students_linked_def by blast
  qed
  have d: "distinct (map snd ?ys)" using assms(1) by simp
  obtain h1 where h1: "link_list ap ?ys (h, roster, rp) =
      Some (h1, if rp = None then Some (hd (concat ass)) else roster, Some (last (concat ass)))"
    "chain h1 st_cnext (Some (hd (concat ass))) (concat ass)" "same_rosters h h1"
    "\<forall>a x. h a = Some x \<longrightarrow> (\<exists>y. h1 a = Some y \<and>
      st_rawscores y = (case map_of (map prod.swap ?ys) a of None \<Rightarrow> st_rawscores x
        | Some sep \<Rightarrow> link_scores ap sep (st_rawscores x)))"
    using link_list_chain [OF d ne dom Cons.prems(3), of ap roster] hd last by auto
  have roster: "(if rp = None then Some (hd (concat ass)) else roster) = Some (hd (concat ass))"
    using Cons.prems(5) by (auto split: if_splits)
  have c: "list_all2 (chain h1 st_next) (map se_roster ses) ass"
    using Cons.prems(1) same_rosters_chain [OF h1(3)] by (simp add: list_all2_conv_all_nth)
  have l: "students_linked (ap + 1) ass h0 h1"
    unfolding students_linked_def
  proof (intro allI impI ballI)
    fix j a assume j: "j < length ass" "a \<in> set (ass ! j)"
    then obtain x y where x: "h0 a = Some x" "h a = Some y" "map core (st_rawscores y) = map core (st_rawscores x)"
      "linked_upto ap j (st_rawscores y)"
      using Cons.prems(2) unfolding students_linked_def by blast
    obtain z where z: "h1 a = Some z" "st_rawscores z = (case map_of (map prod.swap ?ys) a of None \<Rightarrow> st_rawscores y
        | Some sep \<Rightarrow> link_scores ap sep (st_rawscores y))"
      using h1(4) x(2) by blast
    have "st_rawscores z = link_scores ap j (st_rawscores y)"
      using z(2) tagged_map_of [OF assms(1) j, of 0] by simp
    then show "\<exists>x y. h0 a = Some x \<and> h1 a = Some y \<and> map core (st_rawscores y) = map core (st_rawscores x) \<and>
        linked_upto (ap + 1) j (st_rawscores y)"
      using x z(1) link_scores_upto [OF x(4)] by auto
  qed
  have la: "\<forall>r. Some (last (concat ass)) = Some r \<longrightarrow> h1 r \<noteq> None"
    using chain_dom [OF h1(2) last_in_set [OF assms(2)]] by simp
  have "\<exists>h' rp'. link_assignments (ap + 1) as ses (h1, Some (hd (concat ass)), Some (last (concat ass))) =
      Some (h', Some (hd (concat ass)), rp') \<and> chain h' st_cnext (Some (hd (concat ass))) (concat ass) \<and>
      students_linked (ap + 1 + length as) ass h0 h'"
    by (rule Cons.IH [OF c l la]) (use h1(2) in simp_all)
  moreover have "link_sections ap 0 ses (h, roster, rp) = Some (h1, Some (hd (concat ass)), Some (last (concat ass)))"
    using link_sections_list [OF Cons.prems(1)] h1(1) roster by simp
  ultimately show ?case by simp
qed

text \<open>Whatever the number of assignments, as long as there is one, \<open>do_links\<close> chains the students of
  all sections in order into the course roster, and links every score to the statistics of its
  assignment in the class and in the section of the student; it changes nothing else of a score.\<close>

theorem do_links_roster:
  assumes "list_all2 (chain h st_next) (map se_roster (co_sections c)) ass" "distinct (concat ass)"
    "concat ass \<noteq> []" "co_assignments c \<noteq> []"
  shows "\<exists>h'. do_links c h = Some (c\<lparr>co_roster := Some (hd (concat ass))\<rparr>, h') \<and>
    chain h' st_cnext (Some (hd (concat ass))) (concat ass) \<and>
    students_linked (length (co_assignments c)) ass h h'"
proof -
  have "students_linked 0 ass h h"
    unfolding students_linked_def
  proof (intro allI impI ballI)
    fix j a assume j: "j < length ass" "a \<in> set (ass ! j)"
    then have "chain h st_next (se_roster (co_sections c ! j)) (ass ! j)"
      using assms(1) by (simp add: list_all2_conv_all_nth)
    from chain_dom [OF this j(2)] show "\<exists>x y. h a = Some x \<and> h a = Some y \<and>
        map core (st_rawscores y) = map core (st_rawscores x) \<and> linked_upto 0 j (st_rawscores y)"
      by (auto simp: linked_upto_def)
  qed
  then show ?thesis
    using link_assignments_chain [OF assms(2,3,1), of 0 h None "co_assignments c" None] assms(4)
    by (auto simp: do_links_def)
qed

text \<open>Two students of one section with a score each, before and after the links are made.\<close>

definition score1 :: "flt \<Rightarrow> ptr \<Rightarrow> (nat \<times> nat) option \<Rightarrow> score" where
  "score1 g cp sp = \<lparr>sc_asgt = 0, sc_grade = Some g, sc_qnorm = None, sc_lnorm = None, sc_snorm = None,
     sc_flag = VALID, sc_code = [], sc_subst = USERAW, sc_cstats = cp, sc_sstats = sp\<rparr>"

definition student1 :: "score \<Rightarrow> ptr \<Rightarrow> ptr \<Rightarrow> student" where
  "student1 scp n cn = \<lparr>st_id = [49], st_surname = [97], st_name = [98], st_rawscores = [scp], st_normscores = [],
     st_composite = Finite 0, st_section = 0, st_next = n, st_cnext = cn\<rparr>"

definition course1 :: "ptr \<Rightarrow> course" where
  "course1 roster = \<lparr>co_number = [49], co_title = [99], co_professor = None, co_assignments =
     [\<lparr>as_name = [104], as_atype = [104], as_wpolicy = NOWEIGHT, as_weight = Finite 0, as_npolicy = RAW,
       as_max = Finite 0, as_mean = None, as_stddev = None, as_scale = None, as_ngroup = BYCLASS\<rparr>],
     co_sections = [\<lparr>se_name = [49], se_assistant = None, se_roster = Some 0\<rparr>], co_roster = roster\<rparr>"

definition unlinked2 :: students where
  "unlinked2 = [0 \<mapsto> student1 (score1 (Finite 5) None None) (Some 1) None,
     1 \<mapsto> student1 (score1 (Finite 3) None None) None None]"

definition linked2 :: students where
  "linked2 = [0 \<mapsto> student1 (score1 (Finite 5) (Some 0) (Some (0, 0))) (Some 1) (Some 1),
     1 \<mapsto> student1 (score1 (Finite 3) (Some 0) (Some (0, 0))) None None]"

theorem do_links_roster_witness:
  "\<exists>h'. do_links (course1 None) unlinked2 = Some (course1 (Some 0), h') \<and> chain h' st_cnext (Some 0) [0, 1]"
  using do_links_roster [of unlinked2 "course1 None" "[[0, 1]]"]
  by (auto simp: course1_def unlinked2_def student1_def)

lemma linked2_scores:
  "chain linked2 st_cnext (Some 0) [0, 1]"
  "roster_scores linked2 [0, 1] = [score1 (Finite 5) (Some 0) (Some (0, 0)), score1 (Finite 3) (Some 0) (Some (0, 0))]"
  "linked [1] (score1 g (Some 0) (Some (0, 0)))"
  "counts (score1 g cp sp)" "grade (score1 g cp sp) = g"
  by (simp_all add: linked2_def student1_def roster_scores_def linked_def score1_def counts_def grade_def)

lemma course1_stats:
  "shape (buildstats (course1 p)) = [1]" "stats_ok [1] [] (buildstats (course1 p))"
  "length (buildstats (course1 p)) = 1" "length (cl_sstats (buildstats (course1 p) ! 0)) = 1"
  by (simp_all add: shape_def buildstats_def course1_def new_classstats_def stats_ok_def class_ok_def section_ok_def
      section_grades_def new_sectionstats_def)

lemma linked2_grades:
  "grades 0 (roster_scores linked2 [0, 1]) = [Finite 5, Finite 3]"
  "section_grades 0 0 (roster_scores linked2 [0, 1]) = [Finite 5, Finite 3]"
  "\<forall>scp \<in> set (roster_scores linked2 [0, 1]). counts scp \<longrightarrow> linked [1] scp"
  "co_roster (course1 p) = p" "length (co_assignments (course1 p)) = 1"
  unfolding linked2_scores(2) section_grades_def
  by (auto simp: linked2_scores(4,5) course1_def) (simp_all add: score1_def linked_def)

theorem do_freqs_tables_witness:
  "\<exists>s. do_freqs (course1 (Some 0)) linked2 (buildstats (course1 (Some 0))) = Some s \<and>
    frequency_table [Finite 5, Finite 3] (t_freqs (do_quantiles s ! 0))"
  using do_freqs_tables [of linked2 "course1 (Some 0)" "[0, 1]" 0]
  unfolding linked2_grades(1,4,5) course1_stats(1) using linked2_scores(1) linked2_grades(3) by simp

theorem do_sums_min_max_witness:
  "\<exists>s'. do_sums (course1 (Some 0)) linked2 (buildstats (course1 (Some 0))) = Some s' \<and>
    t_valid (s' ! 0) = 2 \<and> least [Finite 5, Finite 3] (t_min (s' ! 0)) \<and>
    t_valid (cl_sstats (s' ! 0) ! 0) = 2 \<and> t_min (cl_sstats (s' ! 0) ! 0) = Some (Finite 5)"
  using do_sums_min_max [of linked2 "course1 (Some 0)" "[0, 1]" "[1]" "buildstats (course1 (Some 0))" 0 0]
  unfolding linked2_grades(1,2,4) course1_stats(3,4)
  using linked2_scores(1) linked2_grades(3) course1_stats(2) by auto

end
