(* ===== verification/Grades_Normal.thy ===== *)
theory Grades_Normal
  imports Grades_Links
begin

text \<open>
  hw2/src/normal.c: normalized scores and composite scores. \<open>normal\<close> may change a standard deviation
  or a declared maximum that is too small to divide by, so the course and the statistics are passed
  along, with the warnings.
\<close>

type_synonym nstate = "course \<times> stats \<times> warning list"

definition EPSILON :: flt where
  "EPSILON = round_flt double (1 / 1000000)"

definition twice_EPSILON :: flt where
  "twice_EPSILON = to_format single (f_mul double (Finite 2) EPSILON)"

definition linear :: "flt \<Rightarrow> flt \<Rightarrow> flt \<Rightarrow> flt \<Rightarrow> flt \<Rightarrow> flt" where
  "linear s rm rd nm nd =
     to_format single (f_add double (f_div double (f_mul double nd (f_sub double s rm)) rd) nm)"

definition scale_score :: "flt \<Rightarrow> flt \<Rightarrow> flt \<Rightarrow> flt" where
  "scale_score s mx sc = to_format single (f_div double (f_mul double s sc) mx)"

text \<open>\<open>(float)fp->numless*100.0/n\<close>\<close>

definition percentile :: "int \<Rightarrow> int \<Rightarrow> flt" where
  "percentile numless n =
     to_format single (f_div double (f_mul double (f_of_int single numless) (Finite 100)) (f_of_int double n))"

fun quantile_loop :: "flt \<Rightarrow> int \<Rightarrow> freqs list \<Rightarrow> flt option" where
  "quantile_loop s n [] = Some (to_format single s)"
| "quantile_loop s n (fp # fps) =
     (if f_less s (fr_score fp) then do { k \<leftarrow> fr_numless fp; Some (percentile k n) }
      else if f_eq s (fr_score fp) then do { k \<leftarrow> fr_numless fp; Some (percentile k n) }
      else quantile_loop s n fps)"

text \<open>The guard against a small standard deviation, for the class or for a section.\<close>

definition guard_stddev :: "'a tally_scheme \<Rightarrow> ('a tally_scheme \<times> bool) option" where
  "guard_stddev t = do {
     sd \<leftarrow> t_stddev t;
     Some (if f_less sd EPSILON then (t\<lparr>t_stddev := Some twice_EPSILON\<rparr>, True) else (t, False))
   }"

definition linear_tally :: "flt \<Rightarrow> assignment \<Rightarrow> 'a tally_scheme \<Rightarrow> flt option" where
  "linear_tally s a t = do {
     m \<leftarrow> t_mean t;
     sd \<leftarrow> t_stddev t;
     am \<leftarrow> as_mean a;
     asd \<leftarrow> as_stddev a;
     Some (linear s m sd am asd)
   }"

definition normal_linear :: "flt \<Rightarrow> assignment \<Rightarrow> ptr \<Rightarrow> (nat \<times> nat) option \<Rightarrow> nstate \<Rightarrow> (flt \<times> nstate) option" where
  "normal_linear s a cp sp = (\<lambda>(c, st, ws). (case as_ngroup a of
     BYCLASS \<Rightarrow> do {
       i \<leftarrow> cp;
       csp \<leftarrow> buf_get st i;
       (csp, small) \<leftarrow> guard_stddev csp;
       st \<leftarrow> upd_cstats st cp (\<lambda>_. Some csp);
       g \<leftarrow> linear_tally s a csp;
       Some (g, c, st, if small then ws @ [Small_stddev (t_asgt csp) None] else ws)
     }
   | BYSECTION \<Rightarrow> do {
       ssp \<leftarrow> get_sstats st sp;
       (ssp, small) \<leftarrow> guard_stddev ssp;
       st \<leftarrow> upd_sstats st sp (\<lambda>_. Some ssp);
       g \<leftarrow> linear_tally s a ssp;
       Some (g, c, st, if small then ws @ [Small_stddev (t_asgt ssp) (Some (ss_section ssp))] else ws)
     }))"

definition normal_scale :: "flt \<Rightarrow> nat \<Rightarrow> assignment \<Rightarrow> nstate \<Rightarrow> (flt \<times> nstate) option" where
  "normal_scale s ap a = (\<lambda>(c, st, ws). do {
     sc \<leftarrow> as_scale a;
     if f_less (as_max a) EPSILON then do {
       as \<leftarrow> buf_put (co_assignments c) ap (a\<lparr>as_max := twice_EPSILON\<rparr>);
       Some (scale_score s twice_EPSILON sc, c\<lparr>co_assignments := as\<rparr>, st, ws @ [Small_max ap])
     } else Some (scale_score s (as_max a) sc, c, st, ws)
   })"

definition tallied_or_1 :: "nat option \<Rightarrow> 'a tally_scheme \<Rightarrow> int \<times> warning list" where
  "tallied_or_1 sect t = (if t_tallied t = 0 then (1, [Few_quantile (t_asgt t) sect]) else (t_tallied t, []))"

definition normal_quantile :: "flt \<Rightarrow> assignment \<Rightarrow> ptr \<Rightarrow> (nat \<times> nat) option \<Rightarrow> nstate \<Rightarrow> (flt \<times> nstate) option" where
  "normal_quantile s a cp sp = (\<lambda>(c, st, ws). (case as_ngroup a of
     BYCLASS \<Rightarrow> do {
       i \<leftarrow> cp;
       csp \<leftarrow> buf_get st i;
       let (n, w) = tallied_or_1 None csp;
       g \<leftarrow> quantile_loop s n (t_freqs csp);
       Some (g, c, st, ws @ w)
     }
   | BYSECTION \<Rightarrow> do {
       ssp \<leftarrow> get_sstats st sp;
       let (n, w) = tallied_or_1 (Some (ss_section ssp)) ssp;
       g \<leftarrow> quantile_loop s n (t_freqs ssp);
       Some (g, c, st, ws @ w)
     }))"

definition normal :: "flt \<Rightarrow> ptr \<Rightarrow> (nat \<times> nat) option \<Rightarrow> nstate \<Rightarrow> (flt \<times> nstate) option" where
  "normal s cp sp = (\<lambda>(c, st, ws). do {
     i \<leftarrow> cp;
     csp \<leftarrow> buf_get st i;
     let ap = t_asgt csp;
     a \<leftarrow> buf_get (co_assignments c) ap;
     (case as_npolicy a of
        RAW \<Rightarrow> Some (to_format single s, c, st, ws)
      | LINEAR \<Rightarrow> normal_linear s a cp sp (c, st, ws)
      | SCALE \<Rightarrow> normal_scale s ap a (c, st, ws)
      | QUANTILE \<Rightarrow> normal_quantile s a cp sp (c, st, ws))
   })"

subsection \<open>Averages\<close>

text \<open>The loop variables are \<open>n\<close>, \<open>wp\<close>, \<open>sum\<close> (double) and \<open>w\<close> (float).\<close>

fun avg_loop :: "cstr \<Rightarrow> score list \<Rightarrow> int \<times> bool \<times> flt \<times> flt \<Rightarrow> nstate \<Rightarrow>
    ((int \<times> bool \<times> flt \<times> flt) \<times> nstate) option" where
  "avg_loop t [] v ns = Some (v, ns)"
| "avg_loop t (scp # scps) (n, wp, sm, w) ns = do {
     a \<leftarrow> buf_get (co_assignments (fst ns)) (sc_asgt scp);
     if as_atype a = t \<and> counts scp then do {
       s \<leftarrow> sc_grade scp;
       (f, ns) \<leftarrow> normal s (sc_cstats scp) (sc_sstats scp) ns;
       if as_wpolicy a = WEIGHT
       then avg_loop t scps (n + 1, True, f_add double sm (f_mul single f (as_weight a)), f_add single w (as_weight a)) ns
       else avg_loop t scps (n + 1, wp, f_add double sm f, w) ns
     } else avg_loop t scps (n, wp, sm, w) ns
   }"

definition studentavg :: "nat \<Rightarrow> student \<Rightarrow> cstr \<Rightarrow> nstate \<Rightarrow> (flt \<times> nstate) option" where
  "studentavg stp x t ns = do {
     ((n, wp, sm, w), c, st, ws) \<leftarrow> avg_loop t (st_rawscores x) (0, False, Finite 0, Finite 0) ns;
     if n = 0 \<or> f_eq w (Finite 0) then Some (Finite 0, c, st, ws @ [No_like_scores stp])
     else if wp then Some (to_format single (f_div double sm w), c, st, ws)
     else Some (to_format single (f_div double sm (f_of_int double n)), c, st, ws)
   }"

subsection \<open>Normalized scores\<close>

definition norm_grade :: "nat \<Rightarrow> student \<Rightarrow> score \<Rightarrow> nstate \<Rightarrow> (flt \<times> nstate) option" where
  "norm_grade stp x rscp ns = do {
     let a = buf_get (co_assignments (fst ns)) (sc_asgt rscp);
     if sc_flag rscp = VALID then do { s \<leftarrow> sc_grade rscp; normal s (sc_cstats rscp) (sc_sstats rscp) ns }
     else (case sc_subst rscp of
        USERAW \<Rightarrow> do { s \<leftarrow> sc_grade rscp; normal s (sc_cstats rscp) (sc_sstats rscp) ns }
      | USENORM \<Rightarrow> do { a \<leftarrow> a; g \<leftarrow> (if as_npolicy a = QUANTILE then sc_qnorm rscp else sc_lnorm rscp); Some (g, ns) }
      | USELIKEAVG \<Rightarrow> do {
          i \<leftarrow> sc_cstats rscp;
          csp \<leftarrow> buf_get (fst (snd ns)) i;
          ca \<leftarrow> buf_get (co_assignments (fst ns)) (t_asgt csp);
          studentavg stp x (as_atype ca) ns
        }
      | USECLASSAVG \<Rightarrow> do { a \<leftarrow> a; g \<leftarrow> (if as_npolicy a = QUANTILE then Some (Finite 50) else as_mean a); Some (g, ns) })
   }"

definition new_normscore :: "score \<Rightarrow> flt \<Rightarrow> score" where
  "new_normscore rscp g = \<lparr>sc_asgt = sc_asgt rscp, sc_grade = Some g, sc_qnorm = None, sc_lnorm = None,
     sc_snorm = None, sc_flag = sc_flag rscp, sc_code = [], sc_subst = sc_subst rscp, sc_cstats = None, sc_sstats = None\<rparr>"

fun norm_scores :: "nat \<Rightarrow> student \<Rightarrow> score list \<Rightarrow> nstate \<Rightarrow> (score list \<times> nstate) option" where
  "norm_scores stp x [] ns = Some ([], ns)"
| "norm_scores stp x (rscp # rscps) ns = do {
     (g, ns) \<leftarrow> norm_grade stp x rscp ns;
     (nscps, ns) \<leftarrow> norm_scores stp x rscps ns;
     Some (new_normscore rscp g # nscps, ns)
   }"

partial_function (option) normalize_loop :: "students \<Rightarrow> ptr \<Rightarrow> nstate \<Rightarrow> (students \<times> nstate) option" where
  "normalize_loop h stp ns = (case stp of None \<Rightarrow> Some (h, ns)
     | Some a \<Rightarrow> do {
         x \<leftarrow> h a;
         (nscps, ns) \<leftarrow> norm_scores a x (st_rawscores x) ns;
         normalize_loop (h(a \<mapsto> x\<lparr>st_normscores := nscps\<rparr>)) (st_cnext x) ns
       })"

definition normalize :: "students \<Rightarrow> nstate \<Rightarrow> (students \<times> nstate) option" where
  "normalize h ns = normalize_loop h (co_roster (fst ns)) ns"

subsection \<open>Composite scores\<close>

text \<open>The product with the weight, or with the double 1.0, is a double; the sum is a float.\<close>

fun comp_scores :: "nat \<Rightarrow> assignment \<Rightarrow> score list \<Rightarrow> flt \<times> nat \<Rightarrow> (flt \<times> nat) option" where
  "comp_scores ap a [] v = Some v"
| "comp_scores ap a (scp # scps) (sm, found) =
     (if sc_asgt scp = ap then do {
        g \<leftarrow> sc_grade scp;
        comp_scores ap a scps (to_format single (f_add double sm
          (f_mul double g (if as_wpolicy a = WEIGHT then as_weight a else Finite 1))), found + 1)
      } else comp_scores ap a scps (sm, found))"

fun comp_assignments :: "nat \<Rightarrow> student \<Rightarrow> nat \<Rightarrow> assignment list \<Rightarrow> flt \<Rightarrow> (flt \<times> warning list) option" where
  "comp_assignments stp x ap [] sm = Some (sm, [])"
| "comp_assignments stp x ap (a # as) sm = do {
     (sm, found) \<leftarrow> comp_scores ap a (st_normscores x) (sm, 0);
     (sm, ws) \<leftarrow> comp_assignments stp x (ap + 1) as sm;
     Some (sm, if found = 0 then No_score stp ap # ws else ws)
   }"

partial_function (option) composites_loop :: "course \<Rightarrow> students \<Rightarrow> ptr \<Rightarrow> warning list \<Rightarrow> (students \<times> warning list) option" where
  "composites_loop c h stp ws = (case stp of None \<Rightarrow> Some (h, ws)
     | Some a \<Rightarrow> do {
         x \<leftarrow> h a;
         (sm, w) \<leftarrow> comp_assignments a x 0 (co_assignments c) (Finite 0);
         composites_loop c (h(a \<mapsto> x\<lparr>st_composite := sm\<rparr>)) (st_cnext x) (ws @ w)
       })"

definition composites :: "course \<Rightarrow> students \<Rightarrow> warning list \<Rightarrow> (students \<times> warning list) option" where
  "composites c h ws = composites_loop c h (co_roster c) ws"

subsection \<open>Quantile scores\<close>

lemma quantile_loop_in:
  assumes "ascending fps" "fp \<in> set fps" "fr_score fp \<noteq> NaN" "fr_numless fp = Some k"
  shows "quantile_loop (fr_score fp) n fps = Some (percentile k n)"
  using assms
proof (induction fps)
  case (Cons q qs)
  show ?case
  proof (cases "fp = q")
    case True
    then show ?thesis using Cons.prems by (simp add: f_eq_def)
  next
    case False
    then have "f_less (fr_score q) (fr_score fp)" "fp \<in> set qs" using Cons.prems by auto
    moreover have "\<not> f_less (fr_score fp) (fr_score q)" "fr_score fp \<noteq> fr_score q"
      using calculation(1) f_less_trans f_less_irrefl by metis+
    ultimately show ?thesis using Cons by (simp add: f_eq_def)
  qed
qed simp

text \<open>C35: With a correct frequency table, the quantile score of a grade of the class is the percentage of
  grades less than it.\<close>

theorem normal_percentile:
  assumes "i < length st" "t_asgt (st ! i) < length (co_assignments c)"
    "as_npolicy (co_assignments c ! t_asgt (st ! i)) = QUANTILE" "as_ngroup (co_assignments c ! t_asgt (st ! i)) = BYCLASS"
    "frequency_table gs (t_freqs (st ! i))" "t_tallied (st ! i) = int (length gs)" "s \<in> set gs" "NaN \<notin> set gs"
  shows "normal s (Some i) sp (c, st, ws) =
    Some (percentile (int (length (filter (\<lambda>g. f_less g s) gs))) (int (length gs)), c, st, ws)"
proof -
  have "s \<in> fr_score ` set (t_freqs (st ! i))" using assms(5,7) by (simp add: frequency_table_def)
  then obtain fp where fp: "fp \<in> set (t_freqs (st ! i))" "fr_score fp = s" by blast
  have ne: "fr_score fp \<noteq> NaN" using fp(2) assms(7,8) by auto
  have asc: "ascending (t_freqs (st ! i))" using assms(5) by (simp add: frequency_table_def)
  have k: "fr_numless fp = Some (int (length (filter (\<lambda>g. f_less g (fr_score fp)) gs)))"
    using assms(5) fp(1) by (simp add: frequency_table_def)
  have "quantile_loop s (int (length gs)) (t_freqs (st ! i)) =
      Some (percentile (int (length (filter (\<lambda>g. f_less g s) gs))) (int (length gs)))"
    using quantile_loop_in [OF asc fp(1) ne k] fp(2) by simp
  moreover have "gs \<noteq> []" using assms(7) by auto
  ultimately show ?thesis
    using assms(1-4,6) by (simp add: normal_def normal_quantile_def tallied_or_1_def buf_simps Let_def)
qed

lemma normal_linear_course:
  "normal_linear s a cp sp (c, st, ws) = Some (g, c', st', ws') \<Longrightarrow> c' = c"
  by (cases "as_ngroup a") (auto simp: normal_linear_def bind_eq_Some_conv)

lemma normal_quantile_course:
  "normal_quantile s a cp sp (c, st, ws) = Some (g, c', st', ws') \<Longrightarrow> c' = c"
  by (cases "as_ngroup a") (auto simp: normal_quantile_def bind_eq_Some_conv Let_def case_prod_unfold)

lemma normal_scale_policies:
  "buf_get (co_assignments c) ap = Some a \<Longrightarrow> normal_scale s ap a (c, st, ws) = Some (g, c', st', ws') \<Longrightarrow>
   map as_wpolicy (co_assignments c') = map as_wpolicy (co_assignments c)"
  by (auto simp: normal_scale_def bind_eq_Some_conv buf_get_def buf_put_def nth_list_update
      intro!: nth_equalityI split: if_splits)

lemma normal_policies:
  assumes "normal s cp sp (c, st, ws) = Some (g, c', st', ws')"
  shows "map as_wpolicy (co_assignments c') = map as_wpolicy (co_assignments c)"
proof -
  obtain ap a where a: "buf_get (co_assignments c) ap = Some a"
    "(case as_npolicy a of RAW \<Rightarrow> Some (to_format single s, c, st, ws)
      | LINEAR \<Rightarrow> normal_linear s a cp sp (c, st, ws)
      | SCALE \<Rightarrow> normal_scale s ap a (c, st, ws)
      | QUANTILE \<Rightarrow> normal_quantile s a cp sp (c, st, ws)) = Some (g, c', st', ws')"
    using assms by (auto simp: normal_def bind_eq_Some_conv Let_def)
  then show ?thesis
    by (cases "as_npolicy a")
      (auto dest: normal_linear_course normal_quantile_course normal_scale_policies [OF a(1)])
qed

lemma unweighted_policies:
  "(\<forall>a \<in> set (co_assignments c). as_wpolicy a = NOWEIGHT) \<longleftrightarrow>
   set (map as_wpolicy (co_assignments c)) \<subseteq> {NOWEIGHT}"
  by auto

lemma avg_loop_unweighted:
  "avg_loop t scps (n, wp, sm, w) ns = Some ((n', wp', sm', w'), ns') \<Longrightarrow>
   \<forall>a \<in> set (co_assignments (fst ns)). as_wpolicy a = NOWEIGHT \<Longrightarrow> w' = w"
proof (induction scps arbitrary: n wp sm w ns)
  case (Cons scp scps)
  obtain a where a: "buf_get (co_assignments (fst ns)) (sc_asgt scp) = Some a" "a \<in> set (co_assignments (fst ns))"
    using Cons.prems(1) by (auto simp: bind_eq_Some_conv buf_get_def split: if_splits)
  then have p: "as_wpolicy a = NOWEIGHT" using Cons.prems(2) by blast
  show ?case
  proof (cases "as_atype a = t \<and> counts scp")
    case True
    then obtain s f ns1 where n: "normal s (sc_cstats scp) (sc_sstats scp) ns = Some (f, ns1)"
      "avg_loop t scps (n + 1, wp, f_add double sm f, w) ns1 = Some ((n', wp', sm', w'), ns')"
      using Cons.prems(1) a p by (auto simp: bind_eq_Some_conv)
    have "map as_wpolicy (co_assignments (fst ns1)) = map as_wpolicy (co_assignments (fst ns))"
      using normal_policies n(1) by (metis prod.collapse)
    then have "\<forall>a \<in> set (co_assignments (fst ns1)). as_wpolicy a = NOWEIGHT"
      using Cons.prems(2) by (simp only: unweighted_policies)
    then show ?thesis using Cons.IH n(2) by blast
  next
    case False
    then have "avg_loop t scps (n, wp, sm, w) ns = Some ((n', wp', sm', w'), ns')"
      using Cons.prems(1) a by (auto split: if_splits)
    then show ?thesis using Cons.IH Cons.prems(2) by blast
  qed
qed simp

text \<open>When none of a student's assignments of a type is weighted, the average over that type is 0.0
  with the warning that there is nothing to average, whatever the scores are.\<close>

theorem studentavg_unweighted:
  assumes "studentavg stp x t (c, st, ws) = Some (g, c', st', ws')"
    "\<forall>a \<in> set (co_assignments c). as_wpolicy a = NOWEIGHT"
  shows "g = Finite 0 \<and> last ws' = No_like_scores stp"
proof -
  obtain n wp sm w c1 st1 ws1 where l: "avg_loop t (st_rawscores x) (0, False, Finite 0, Finite 0) (c, st, ws) =
      Some ((n, wp, sm, w), c1, st1, ws1)"
    "(if n = 0 \<or> f_eq w (Finite 0) then Some (Finite 0, c1, st1, ws1 @ [No_like_scores stp])
      else if wp then Some (to_format single (f_div double sm w), c1, st1, ws1)
      else Some (to_format single (f_div double sm (f_of_int double n)), c1, st1, ws1)) = Some (g, c', st', ws')"
    using assms(1) by (auto simp: studentavg_def bind_eq_Some_conv)
  have "w = Finite 0" using avg_loop_unweighted [OF l(1)] assms(2) by simp
  then show ?thesis using l(2) by (auto simp: f_eq_def)
qed

definition course_q :: course where
  "course_q = (course1 None)\<lparr>co_assignments := map (\<lambda>a. a\<lparr>as_npolicy := QUANTILE\<rparr>) (co_assignments (course1 None))\<rparr>"

definition stats_q :: stats where
  "stats_q = [(new_classstats 0 [])\<lparr>t_tallied := 2, t_freqs := number_freqs 0 (fold count_score [Finite 5, Finite 3] [])\<rparr>]"

lemma course_q_facts:
  "length stats_q = 1" "t_asgt (stats_q ! 0) = 0" "length (co_assignments course_q) = 1"
  "as_npolicy (co_assignments course_q ! 0) = QUANTILE" "as_ngroup (co_assignments course_q ! 0) = BYCLASS"
  "t_tallied (stats_q ! 0) = 2"
  by (simp_all add: course_q_def stats_q_def course1_def new_classstats_def)

lemma stats_q_table: "frequency_table [Finite 5, Finite 3] (t_freqs (stats_q ! 0))"
  using frequency_table_ok [of "[Finite 5, Finite 3]"] by (simp add: stats_q_def)

theorem normal_percentile_witness:
  "normal (Finite 5) (Some 0) None (course_q, stats_q, []) = Some (percentile 1 2, course_q, stats_q, [])"
  using normal_percentile [where gs = "[Finite 5, Finite 3]" and s = "Finite 5" and i = 0 and sp = None and ws = "[]"
      and c = course_q and st = stats_q]
  by (simp add: course_q_facts stats_q_table)

theorem studentavg_unweighted_witness:
  "fst (the (studentavg 0 (student1 (score1 (Finite 5) (Some 0) None) None None) [104]
     (course1 None, [new_classstats 0 []], []))) = Finite 0"
proof -
  let ?r = "studentavg 0 (student1 (score1 (Finite 5) (Some 0) None) None None) [104]
     (course1 None, [new_classstats 0 []], [])"
  have "?r \<noteq> None" by (simp add: studentavg_def student1_def score1_def course1_def new_classstats_def counts_def
        normal_def buf_get_def)
  then obtain g c st ws where r: "?r = Some (g, c, st, ws)" by (cases ?r) auto
  have "\<forall>a \<in> set (co_assignments (course1 None)). as_wpolicy a = NOWEIGHT" by (simp add: course1_def)
  from studentavg_unweighted [OF r this] have "g = Finite 0" by (rule conjunct1)
  then show ?thesis unfolding r by simp
qed

end
