(* ===== verification/Grades_Reader.thy ===== *)
theory Grades_Reader
  imports Grades_Data
begin

text \<open>
  The scanner of hw2/src/read.c: the stack of input files, the token buffer of 64 bytes and the
  functions that fill and test it. A reader returns \<^term>\<open>None\<close> for undefined behaviour (and when it
  does not return), \<^term>\<open>Abort\<close> when \<open>fatal\<close> ends the program, and otherwise its value and state.

  \<open>getc\<close> is stored in a \<open>char\<close> (signed), so the byte 255 is taken for EOF, and \<open>ungetc\<close> does not
  give it back. \<open>pushfile\<close> frees the name of the file it has opened, so the name is \<^term>\<open>None\<close> from
  then on, and the next message about that file uses freed memory.
\<close>

subsection \<open>The state and the reader monad\<close>

record input_file =
  if_rest :: "byte list"
  if_name :: "cstr option"
  if_line :: int

text \<open>\<open>r_tok\<close> are the bytes from \<open>tokenptr\<close> to \<open>tokenend\<close>; \<open>r_heap\<close> holds the students allocated.\<close>

record rstate =
  r_file :: input_file
  r_prev :: "input_file list"
  r_tok :: "byte list"
  r_errors :: nat
  r_warnings :: nat
  r_heap :: students
  r_fresh :: nat

type_synonym 'a rd = "rstate \<Rightarrow> ('a \<times> rstate) outcome option"

definition ret :: "'a \<Rightarrow> 'a rd" where
  "ret x s = Some (Done (x, s))"

definition bnd :: "'a rd \<Rightarrow> ('a \<Rightarrow> 'b rd) \<Rightarrow> 'b rd" where
  "bnd m f s = do { r \<leftarrow> m s; case r of Abort \<Rightarrow> Some Abort | Done p \<Rightarrow> f (fst p) (snd p) }"

definition andthen :: "unit rd \<Rightarrow> 'b rd \<Rightarrow> 'b rd" where
  "andthen m n = bnd m (\<lambda>_. n)"

definition gets :: "(rstate \<Rightarrow> 'a) \<Rightarrow> 'a rd" where
  "gets f s = Some (Done (f s, s))"

definition modify :: "(rstate \<Rightarrow> rstate) \<Rightarrow> unit rd" where
  "modify f s = Some (Done ((), f s))"

definition undefined_behaviour :: "'a rd" where
  "undefined_behaviour s = None"

lemma bnd_mono [partial_function_mono]:
  assumes "\<And>s. mono_option (\<lambda>f. A f s)" "\<And>x s. mono_option (\<lambda>f. B f x s)"
  shows "mono_option (\<lambda>f. bnd (A f) (B f) s)"
  unfolding bnd_def
proof (rule Partial_Function.bind_mono)
  show "mono_option (\<lambda>f. A f s)" by (rule assms(1))
  show "mono_option (\<lambda>f. case r of Abort \<Rightarrow> Some Abort | Done p \<Rightarrow> B f (fst p) (snd p))" for r
    by (cases r) (simp_all add: assms(2) option.const_mono)
qed

lemma andthen_mono [partial_function_mono]:
  assumes "\<And>s. mono_option (\<lambda>f. A f s)" "\<And>s. mono_option (\<lambda>f. B f s)"
  shows "mono_option (\<lambda>f. andthen (A f) (B f) s)"
  unfolding andthen_def using assms by (intro bnd_mono)

lemma if_reader_mono [partial_function_mono]:
  "mono_option (\<lambda>f. A f s) \<Longrightarrow> mono_option (\<lambda>f. B f s) \<Longrightarrow> mono_option (\<lambda>f. (if c then A f else B f) s)"
  by (cases c) simp_all

text \<open>The messages name the current file.\<close>

definition message :: "rstate \<Rightarrow> rstate option" where
  "message s = do { n \<leftarrow> if_name (r_file s); Some s }"

definition error :: "unit rd" where
  "error s = do { s \<leftarrow> message s; Some (Done ((), s\<lparr>r_errors := r_errors s + 1\<rparr>)) }"

definition warning :: "unit rd" where
  "warning s = do { s \<leftarrow> message s; Some (Done ((), s\<lparr>r_warnings := r_warnings s + 1\<rparr>)) }"

definition fatal :: "'a rd" where
  "fatal s = do { s \<leftarrow> message s; Some Abort }"

subsection \<open>Characters\<close>

definition EOF_char :: byte where
  "EOF_char = 255"

fun getc :: "byte list \<Rightarrow> byte \<times> byte list" where
  "getc [] = (EOF_char, [])"
| "getc (b # bs) = (b, bs)"

definition ungetc :: "byte \<Rightarrow> byte list \<Rightarrow> byte list" where
  "ungetc c bs = (if c = EOF_char then bs else c # bs)"

definition iswhitespace :: "byte \<Rightarrow> bool" where
  "iswhitespace c \<longleftrightarrow> c = ch CHR '','' \<or> c = ch CHR '':'' \<or> c = ch CHR '' '' \<or> c = 9 \<or> c = 12"

fun skip_white :: "byte list \<Rightarrow> byte list" where
  "skip_white [] = []"
| "skip_white (c # bs) = (if iswhitespace c then skip_white bs else ungetc c bs)"

definition set_rest :: "byte list \<Rightarrow> rstate \<Rightarrow> rstate" where
  "set_rest bs s = s\<lparr>r_file := (r_file s)\<lparr>if_rest := bs\<rparr>\<rparr>"

definition add_line :: "rstate \<Rightarrow> rstate" where
  "add_line s = s\<lparr>r_file := (r_file s)\<lparr>if_line := if_line (r_file s) + 1\<rparr>\<rparr>"

subsection \<open>The token buffer\<close>

definition istoken :: "rstate \<Rightarrow> bool" where
  "istoken s \<longleftrightarrow> r_tok s \<noteq> []"

definition flushtoken :: "unit rd" where
  "flushtoken = modify (\<lambda>s. s\<lparr>r_tok := []\<rparr>)"

text \<open>\<open>tokenbuf\<close> has 64 bytes.\<close>

definition set_token :: "byte list \<Rightarrow> unit rd" where
  "set_token t = (if 64 < length t then undefined_behaviour else modify (\<lambda>s. s\<lparr>r_tok := t\<rparr>))"

definition token_string :: "rstate \<Rightarrow> cstr" where
  "token_string s = takeWhile (\<lambda>b. b \<noteq> 0) (r_tok s)"

definition gobblewhitespace :: "unit rd" where
  "gobblewhitespace = modify (\<lambda>s. if istoken s then s else set_rest (skip_white (if_rest (r_file s))) s)"

text \<open>The rest of a line, with its newline; \<^term>\<open>None\<close> when the file ends first.\<close>

fun skip_to_newline :: "byte list \<Rightarrow> byte list option" where
  "skip_to_newline [] = None"
| "skip_to_newline (c # bs) = (if c = 10 then Some bs else if c = EOF_char then None else skip_to_newline bs)"

lemma skip_to_newline_shorter: "skip_to_newline bs = Some r \<Longrightarrow> length r < length bs"
  by (induction bs) (auto split: if_splits)

lemma skip_white_shorter: "length (skip_white bs) \<le> length bs"
  by (induction bs) (auto simp: ungetc_def)

lemma getc_shorter: "length (snd (getc bs)) \<le> length bs"
  by (cases bs) auto

lemma getc_less: "fst (getc bs) \<noteq> EOF_char \<Longrightarrow> length (snd (getc bs)) < length bs"
  by (cases bs) auto

lemma ungetc_getc_shorter: "length (ungetc (fst (getc bs)) (snd (getc bs))) \<le> length bs"
  by (cases bs) (auto simp: ungetc_def)

function blank_lines :: "byte list \<Rightarrow> int \<Rightarrow> (byte list \<times> int) option" where
  "blank_lines bs n =
     (if fst (getc bs) = ch CHR ''#'' then
        (case skip_to_newline (snd (getc bs)) of None \<Rightarrow> None | Some r \<Rightarrow> blank_lines r (n + 1))
      else if fst (getc (ungetc (fst (getc bs)) (snd (getc bs)))) = 10
      then blank_lines (skip_white (snd (getc (ungetc (fst (getc bs)) (snd (getc bs)))))) (n + 1)
      else Some (ungetc (fst (getc (ungetc (fst (getc bs)) (snd (getc bs)))))
                   (snd (getc (ungetc (fst (getc bs)) (snd (getc bs))))), n))"
  by pat_completeness auto
termination
proof (relation "measure (\<lambda>(bs, n). length bs)", goal_cases)
  case (2 bs n r)
  then show ?case using skip_to_newline_shorter [of "snd (getc bs)" r] getc_shorter [of bs] by simp
next
  case (3 bs n)
  let ?u = "ungetc (fst (getc bs)) (snd (getc bs))"
  have "fst (getc ?u) \<noteq> EOF_char" using 3 by (simp add: EOF_char_def)
  then have "length (snd (getc ?u)) < length ?u" by (rule getc_less)
  then show ?case using skip_white_shorter [of "snd (getc ?u)"] ungetc_getc_shorter [of bs] by simp
qed simp

declare blank_lines.simps [simp del]

definition gobbleblanklines :: "unit rd" where
  "gobbleblanklines s = (if istoken s then ret () s
     else case blank_lines (if_rest (r_file s)) (if_line (r_file s)) of
       None \<Rightarrow> fatal s
     | Some (bs, n) \<Rightarrow> ret () (s\<lparr>r_file := (r_file s)\<lparr>if_rest := bs, if_line := n\<rparr>\<rparr>))"

definition nextchar :: "byte rd" where
  "nextchar s = (case r_tok s of
     c # t \<Rightarrow> ret c (s\<lparr>r_tok := t\<rparr>)
   | [] \<Rightarrow> (case getc (if_rest (r_file s)) of (c, bs) \<Rightarrow>
       if c = EOF_char then fatal s else ret c (set_rest bs s)))"

text \<open>\<open>error\<close> when a token is thrown away.\<close>

definition discard_token :: "unit rd" where
  "discard_token = bnd (gets istoken) (\<lambda>t. andthen (if t then error else ret ()) flushtoken)"

fun take_token :: "byte list \<Rightarrow> byte list \<times> byte list" where
  "take_token [] = ([], [])"
| "take_token (c # bs) =
     (if c = EOF_char then ([], bs)
      else if iswhitespace c \<or> c = 10 then ([], c # bs)
      else (let (t, r) = take_token bs in (c # t, r)))"

definition advancetoken :: "unit rd" where
  "advancetoken = andthen discard_token (andthen gobblewhitespace
     (bnd (gets (\<lambda>s. take_token (if_rest (r_file s)))) (\<lambda>(t, r).
        andthen (modify (set_rest r)) (set_token (if t = [] then [] else t @ [0])))))"

text \<open>The last component tells whether the line ended.\<close>

fun take_line :: "byte list \<Rightarrow> byte list \<times> byte list \<times> bool" where
  "take_line [] = ([], [], False)"
| "take_line (c # bs) =
     (if c = EOF_char then ([], bs, False)
      else if c = 10 then ([], c # bs, True)
      else (let (t, r, e) = take_line bs in (c # t, r, e)))"

definition advanceeol :: "unit rd" where
  "advanceeol = andthen discard_token (andthen gobblewhitespace
     (bnd (gets (\<lambda>s. take_line (if_rest (r_file s)))) (\<lambda>(t, r, e).
        andthen (modify (set_rest r)) (andthen (set_token t)
          (if e then set_token (t @ [0]) else fatal)))))"

definition need_token :: "unit rd" where
  "need_token = bnd (gets istoken) (\<lambda>t. if t then ret () else advancetoken)"

definition checktoken :: "cstr \<Rightarrow> bool rd" where
  "checktoken key = andthen need_token
     (bnd (gets (\<lambda>s. istoken s \<and> strcmp (token_string s) key = 0)) (\<lambda>b.
        if b then andthen flushtoken (ret True) else ret False))"

definition expecttoken :: "cstr \<Rightarrow> unit rd" where
  "expecttoken key = bnd (checktoken key) (\<lambda>b. if b then ret () else error)"

definition expectnewline :: "unit rd" where
  "expectnewline = andthen gobblewhitespace (bnd nextchar (\<lambda>c.
     if c = 10 then andthen (modify add_line) gobbleblanklines
     else andthen error (andthen flushtoken (bnd (gets (\<lambda>s. skip_to_newline (if_rest (r_file s)))) (\<lambda>r.
       case r of None \<Rightarrow> fatal | Some bs \<Rightarrow> modify (\<lambda>s. add_line (set_rest bs s)))))))"

subsection \<open>The file stack\<close>

definition previousfile :: "unit rd" where
  "previousfile s = (case r_prev s of [] \<Rightarrow> fatal s | f # fs \<Rightarrow> ret () (s\<lparr>r_file := f, r_prev := fs\<rparr>))"

fun pop_files :: "nat \<Rightarrow> unit rd" where
  "pop_files 0 = ret ()"
| "pop_files (Suc n) = andthen previousfile (pop_files n)"

definition expecteof :: "unit rd" where
  "expecteof = bnd (gets istoken) (\<lambda>t.
     bnd (if t then ret True else (\<lambda>s. case getc (if_rest (r_file s)) of (c, bs) \<Rightarrow>
         ret (\<not> (c = EOF_char \<and> r_prev s = [])) (set_rest bs s)))
       (\<lambda>excess. if excess then andthen error (andthen flushtoken (bnd (gets (\<lambda>s. length (r_prev s))) pop_files))
         else ret ()))"

text \<open>A string made of the token, or of nothing.\<close>

definition take_string :: "cstr rd" where
  "take_string = bnd (gets istoken) (\<lambda>t. bnd (if t then gets token_string else andthen error (ret []))
     (\<lambda>n. andthen flushtoken (ret n)))"

definition pushfile :: "(cstr \<Rightarrow> byte list option) \<Rightarrow> unit rd" where
  "pushfile files = andthen advanceeol (bnd take_string (\<lambda>n. andthen expectnewline (\<lambda>s.
     case files n of None \<Rightarrow> fatal s
     | Some bs \<Rightarrow> gobbleblanklines (s\<lparr>r_file := \<lparr>if_rest = bs, if_name = None, if_line = 1\<rparr>,
         r_prev := r_file s # r_prev s\<rparr>))))"

end
