(* ===== verification/Grades_Parser.thy ===== *)
theory Grades_Parser
  imports Grades_Reader
begin

text \<open>
  The recursive descent of hw2/src/read.c over the scanner of Grades_Reader: courses, persons,
  assignments, sections, students and scores. \<open>files\<close> are the contents of the files that \<open>fopen\<close>
  can open. A string that could not be read is the empty string: \<open>newstring("", 0)\<close> copies no
  terminator, but it is followed by an error, and only the search of \<open>readscores\<close> still reads it.
\<close>

subsection \<open>\<open>sscanf(s, "%f", &f)\<close>\<close>

definition digit :: "byte \<Rightarrow> bool" where
  "digit c \<longleftrightarrow> ch CHR ''0'' \<le> c \<and> c \<le> ch CHR ''9''"

definition digit_value :: "byte list \<Rightarrow> int" where
  "digit_value ds = foldl (\<lambda>n c. 10 * n + (uint c - 48)) 0 ds"

definition lower :: "byte \<Rightarrow> byte" where
  "lower c = (if ch CHR ''A'' \<le> c \<and> c \<le> ch CHR ''Z'' then c + 32 else c)"

definition hex_digit :: "byte \<Rightarrow> bool" where
  "hex_digit c \<longleftrightarrow> digit c \<or> ch CHR ''a'' \<le> lower c \<and> lower c \<le> ch CHR ''f''"

definition hex_value :: "byte list \<Rightarrow> int" where
  "hex_value ds = foldl (\<lambda>n c. 16 * n + (if digit c then uint c - 48 else uint (lower c) - 87)) 0 ds"

text \<open>An exponent after the letter; without digits the conversion fails.\<close>

definition scan_exponent :: "byte list \<Rightarrow> int option" where
  "scan_exponent str = (let (neg, ds) = (case str of c # r \<Rightarrow>
       if c = ch CHR ''-'' then (True, r) else if c = ch CHR ''+'' then (False, r) else (False, str) | [] \<Rightarrow> (False, []));
     ds = takeWhile digit ds in
     if ds = [] then None else Some (if neg then - digit_value ds else digit_value ds))"

text \<open>Digits, a point and an exponent in the base 10 (letter \<open>e\<close>) or 16 (letter \<open>p\<close>, a power of 2).\<close>

definition scan_number ::
  "(byte \<Rightarrow> bool) \<Rightarrow> (byte list \<Rightarrow> int) \<Rightarrow> rat \<Rightarrow> byte \<Rightarrow> rat \<Rightarrow> byte list \<Rightarrow> rat option" where
  "scan_number is_digit val base letter ebase str =
     (let ip = takeWhile is_digit str;
          r = dropWhile is_digit str;
          (fp, r) = (case r of c # r' \<Rightarrow> if c = ch CHR ''.'' then (takeWhile is_digit r', dropWhile is_digit r') else ([], r)
             | [] \<Rightarrow> ([], r));
          m = of_int (val (ip @ fp)) / base ^ length fp
      in if ip = [] \<and> fp = [] then None
         else (case r of c # r' \<Rightarrow> if lower c = letter
                 then (case scan_exponent r' of None \<Rightarrow> None | Some e \<Rightarrow> Some (m * ebase powi e)) else Some m
               | [] \<Rightarrow> Some m))"

definition has_prefix :: "byte list \<Rightarrow> byte list \<Rightarrow> bool" where
  "has_prefix w str \<longleftrightarrow> map lower (take (length w) str) = w"

definition scan_unsigned :: "byte list \<Rightarrow> flt option" where
  "scan_unsigned str =
     (if has_prefix (cs ''nan'') str then Some NaN
      else if has_prefix (cs ''inf'') str then
        (let r = map lower (drop 3 str); w = cs ''inity'' in
         if r \<noteq> [] \<and> hd r = hd w \<and> take 5 r \<noteq> w then None else Some (Infinite False))
      else if has_prefix (cs ''0x'') str
      then map_option (round_flt single) (scan_number hex_digit hex_value 16 (ch CHR ''p'') 2 (drop 2 str))
      else map_option (round_flt single) (scan_number digit digit_value 10 (ch CHR ''e'') 10 str))"

definition isspace :: "byte \<Rightarrow> bool" where
  "isspace c \<longleftrightarrow> c = 32 \<or> 9 \<le> c \<and> c \<le> 13"

definition scan_float :: "cstr \<Rightarrow> flt option" where
  "scan_float str = (case dropWhile isspace str of
     [] \<Rightarrow> None
   | c # r \<Rightarrow> if c = ch CHR ''-'' then map_option f_neg (scan_unsigned r)
       else if c = ch CHR ''+'' then scan_unsigned r else scan_unsigned (c # r))"

text \<open>\<open>istoken() && sscanf(tokenptr, "%f", &f) == 1\<close>, with the token flushed when it holds.\<close>

definition scan_token :: "flt option rd" where
  "scan_token = bnd (gets (\<lambda>s. if istoken s then scan_float (token_string s) else None)) (\<lambda>f.
     case f of None \<Rightarrow> ret None | Some x \<Rightarrow> andthen flushtoken (ret (Some x)))"

subsection \<open>Names\<close>

definition readword :: "cstr rd" where
  "readword = andthen need_token take_string"

definition readsurname :: "cstr rd" where
  "readsurname = readword"

definition readid :: "cstr rd" where
  "readid = readword"

definition readatype :: "cstr rd" where
  "readatype = readword"

definition readname :: "cstr rd" where
  "readname = andthen advanceeol (bnd take_string (\<lambda>n. andthen expectnewline (ret n)))"

definition readperson :: "cstr \<Rightarrow> person option rd" where
  "readperson key = bnd (checktoken key) (\<lambda>b. if \<not> b then ret None
     else bnd readsurname (\<lambda>s. bnd readname (\<lambda>n. ret (Some (s, n)))))"

definition readprofessor :: "person option rd" where
  "readprofessor = readperson (cs ''PROFESSOR'')"

definition readassistant :: "person option rd" where
  "readassistant = readperson (cs ''ASSISTANT'')"

subsection \<open>Assignments\<close>

definition readweight :: "assignment \<Rightarrow> assignment rd" where
  "readweight a = andthen advancetoken (bnd scan_token (\<lambda>f. case f of
     Some x \<Rightarrow> ret (a\<lparr>as_wpolicy := WEIGHT, as_weight := x\<rparr>)
   | None \<Rightarrow> andthen error (ret (a\<lparr>as_wpolicy := NOWEIGHT\<rparr>))))"

definition readmax :: "assignment \<Rightarrow> assignment rd" where
  "readmax a = andthen advancetoken (bnd scan_token (\<lambda>f. case f of
     Some x \<Rightarrow> ret (a\<lparr>as_max := x\<rparr>)
   | None \<Rightarrow> andthen error (ret a)))"

text \<open>A number, or an error and a default.\<close>

definition read_number :: "flt \<Rightarrow> flt rd" where
  "read_number d = andthen advancetoken (bnd scan_token (\<lambda>f. case f of
     Some x \<Rightarrow> ret x | None \<Rightarrow> andthen error (ret d)))"

text \<open>One keyword of \<open>readnorm\<close>; \<^term>\<open>None\<close> when there is none.\<close>

definition readnorm_step :: "assignment \<Rightarrow> assignment option rd" where
  "readnorm_step a =
     bnd (checktoken (cs ''RAW'')) (\<lambda>b. if b then ret (Some (a\<lparr>as_npolicy := RAW\<rparr>)) else
     bnd (checktoken (cs ''STDLINEAR'')) (\<lambda>b. if b then
       ret (Some (a\<lparr>as_npolicy := LINEAR, as_mean := Some (Finite 0), as_stddev := Some (Finite 1)\<rparr>)) else
     bnd (checktoken (cs ''GENLINEAR'')) (\<lambda>b. if b then
       bnd (read_number (Finite 0)) (\<lambda>m. bnd (read_number (Finite 1)) (\<lambda>d.
         ret (Some (a\<lparr>as_npolicy := LINEAR, as_mean := Some m, as_stddev := Some d\<rparr>)))) else
     bnd (checktoken (cs ''QUANTILE'')) (\<lambda>b. if b then ret (Some (a\<lparr>as_npolicy := QUANTILE\<rparr>)) else
     bnd (checktoken (cs ''SCALE'')) (\<lambda>b. if b then
       bnd (read_number (Finite 0)) (\<lambda>x. ret (Some (a\<lparr>as_npolicy := SCALE, as_scale := Some x\<rparr>))) else
     bnd (checktoken (cs ''BYCLASS'')) (\<lambda>b. if b then ret (Some (a\<lparr>as_ngroup := BYCLASS\<rparr>)) else
     bnd (checktoken (cs ''BYSECTION'')) (\<lambda>b. if b then ret (Some (a\<lparr>as_ngroup := BYSECTION\<rparr>))
       else ret None)))))))"

partial_function (option) readnorm_loop :: "assignment \<Rightarrow> bool \<Rightarrow> rstate \<Rightarrow> ((assignment \<times> bool) \<times> rstate) outcome option" where
  "readnorm_loop a found s = bnd (readnorm_step a) (\<lambda>r. case r of
     None \<Rightarrow> ret (a, found)
   | Some a' \<Rightarrow> (\<lambda>s. readnorm_loop a' True s)) s"

definition readnorm :: "assignment \<Rightarrow> assignment rd" where
  "readnorm a = bnd (readnorm_loop a False) (\<lambda>(a, found).
     if found then ret a
     else andthen error (ret (a\<lparr>as_npolicy := RAW, as_ngroup := BYCLASS\<rparr>)))"

definition readoption :: "assignment \<Rightarrow> assignment option rd" where
  "readoption a =
     bnd (checktoken (cs ''WEIGHT'')) (\<lambda>b. if b then bnd (readweight a) (\<lambda>a. andthen expectnewline (ret (Some a))) else
     bnd (checktoken (cs ''NORMALIZE'')) (\<lambda>b. if b then bnd (readnorm a) (\<lambda>a. andthen expectnewline (ret (Some a))) else
     bnd (checktoken (cs ''MAXIMUM'')) (\<lambda>b. if b then bnd (readmax a) (\<lambda>a. andthen expectnewline (ret (Some a)))
       else ret None)))"

partial_function (option) readoptions :: "assignment \<Rightarrow> rstate \<Rightarrow> (assignment \<times> rstate) outcome option" where
  "readoptions a s = bnd (readoption a) (\<lambda>r. case r of
     None \<Rightarrow> ret a
   | Some a' \<Rightarrow> (\<lambda>s. readoptions a' s)) s"

definition new_assignment :: "cstr \<Rightarrow> cstr \<Rightarrow> assignment" where
  "new_assignment name t = \<lparr>as_name = name, as_atype = t, as_wpolicy = NOWEIGHT, as_weight = Finite 0, as_npolicy = RAW,
     as_max = Finite 0, as_mean = None, as_stddev = None, as_scale = None, as_ngroup = BYCLASS\<rparr>"

partial_function (option) readassignments :: "rstate \<Rightarrow> (assignment list \<times> rstate) outcome option" where
  "readassignments s = bnd (checktoken (cs ''ASSIGNMENT'')) (\<lambda>b. if \<not> b then ret []
     else bnd readid (\<lambda>name. bnd readatype (\<lambda>t. andthen expectnewline
       (bnd (readoptions (new_assignment name t)) (\<lambda>a.
          bnd (\<lambda>s. readassignments s) (\<lambda>as. ret (a # as))))))) s"

subsection \<open>Scores\<close>

text \<open>\<open>strcmp(ap->name, tokenptr)\<close> over the list of assignments.\<close>

fun find_assignment :: "cstr \<Rightarrow> nat \<Rightarrow> assignment list \<Rightarrow> nat option" where
  "find_assignment t i [] = None"
| "find_assignment t i (ap # as) = (if strcmp (as_name ap) t = 0 then Some i else find_assignment t (i + 1) as)"

text \<open>The numeric grade of \<open>readgrade\<close>, and the warning about the declared maximum.\<close>

definition read_raw :: "assignment \<Rightarrow> flt rd" where
  "read_raw a = andthen need_token (bnd scan_token (\<lambda>f.
     bnd (case f of Some x \<Rightarrow> ret x | None \<Rightarrow> andthen error (ret (Finite 0))) (\<lambda>g.
       andthen (if \<not> f_eq (as_max a) (Finite 0) \<and> f_less (as_max a) g then warning else ret ()) (ret g))))"

text \<open>The checks of a normalized score; the LINEAR bounds are computed in double.\<close>

definition check_norm :: "assignment \<Rightarrow> flt \<Rightarrow> unit rd" where
  "check_norm a f = (case as_npolicy a of
     RAW \<Rightarrow> ret ()
   | LINEAR \<Rightarrow> (case (as_mean a, as_stddev a) of
       (Some m, Some d) \<Rightarrow>
         if f_less f (f_sub double m (f_mul double (Finite 4) d)) \<or> f_less (f_add double m (f_mul double (Finite 4) d)) f
         then warning else ret ()
     | _ \<Rightarrow> undefined_behaviour)
   | QUANTILE \<Rightarrow> if f_less f (Finite 0) \<or> f_less (Finite 100) f then error else ret ()
   | SCALE \<Rightarrow> (case as_scale a of
       Some x \<Rightarrow> if f_less f (Finite 0) \<or> f_less x f then error else ret ()
     | None \<Rightarrow> undefined_behaviour))"

definition read_norm :: "assignment \<Rightarrow> flt rd" where
  "read_norm a = andthen need_token (bnd scan_token (\<lambda>f. case f of
     Some x \<Rightarrow> andthen (check_norm a x) (ret x)
   | None \<Rightarrow> andthen error (ret (Finite 0))))"

definition read_subst :: "gsubst option rd" where
  "read_subst =
     bnd (checktoken (cs ''USERAW'')) (\<lambda>b. if b then ret (Some USERAW) else
     bnd (checktoken (cs ''USENORM'')) (\<lambda>b. if b then ret (Some USENORM) else
     bnd (checktoken (cs ''USELIKEAVG'')) (\<lambda>b. if b then ret (Some USELIKEAVG) else
     bnd (checktoken (cs ''USECLASSAVG'')) (\<lambda>b. if b then ret (Some USECLASSAVG) else ret None))))"

definition read_code :: "score \<Rightarrow> score rd" where
  "read_code s = andthen advanceeol (bnd (gets token_string) (\<lambda>c. andthen flushtoken (ret (s\<lparr>sc_code := c\<rparr>))))"

definition readgrade :: "assignment \<Rightarrow> score \<Rightarrow> score rd" where
  "readgrade a s = bnd read_subst (\<lambda>r. case r of
     None \<Rightarrow> bnd (read_raw a) (\<lambda>g. ret (s\<lparr>sc_flag := VALID, sc_grade := Some g\<rparr>))
   | Some subst \<Rightarrow> (let s = s\<lparr>sc_flag := INVALID, sc_subst := subst\<rparr> in
       bnd (case subst of
           USERAW \<Rightarrow> bnd (read_raw a) (\<lambda>g. ret (s\<lparr>sc_grade := Some g\<rparr>))
         | USENORM \<Rightarrow> bnd (read_norm a) (\<lambda>f. ret (s\<lparr>sc_qnorm := Some f, sc_lnorm := Some f, sc_snorm := Some f\<rparr>))
         | _ \<Rightarrow> ret s) read_code))"

text \<open>The substitution of a new score is not written until one is read; \<open>USERAW\<close> stands for any value.\<close>

definition new_score :: "nat \<Rightarrow> score" where
  "new_score ap = \<lparr>sc_asgt = ap, sc_grade = None, sc_qnorm = None, sc_lnorm = None, sc_snorm = None, sc_flag = INVALID,
     sc_code = [], sc_subst = USERAW, sc_cstats = None, sc_sstats = None\<rparr>"

definition readscore :: "assignment list \<Rightarrow> score rd" where
  "readscore as = andthen need_token (bnd (gets istoken) (\<lambda>t.
     if \<not> t then fatal
     else bnd (gets (\<lambda>s. find_assignment (token_string s) 0 as)) (\<lambda>r. case r of
       None \<Rightarrow> fatal
     | Some i \<Rightarrow> andthen flushtoken (bnd (readgrade (as ! i) (new_score i)) (\<lambda>s. andthen expectnewline (ret s))))))"

partial_function (option) readscores :: "assignment list \<Rightarrow> rstate \<Rightarrow> (score list \<times> rstate) outcome option" where
  "readscores as s = bnd (checktoken (cs ''SCORE'')) (\<lambda>b. if \<not> b then ret []
     else bnd (readscore as) (\<lambda>x. bnd (\<lambda>s. readscores as s) (\<lambda>xs. ret (x # xs)))) s"

subsection \<open>Students, sections and courses\<close>

definition newstudent :: "nat rd" where
  "newstudent s = ret (r_fresh s) (s\<lparr>r_fresh := r_fresh s + 1\<rparr>)"

definition set_student :: "nat \<Rightarrow> student \<Rightarrow> unit rd" where
  "set_student p x = modify (\<lambda>s. s\<lparr>r_heap := (r_heap s)(p \<mapsto> x)\<rparr>)"

text \<open>The composite score and the link \<open>cnext\<close> of a student are written later.\<close>

definition new_student :: "cstr \<Rightarrow> cstr \<Rightarrow> cstr \<Rightarrow> score list \<Rightarrow> nat \<Rightarrow> ptr \<Rightarrow> student" where
  "new_student i sn n xs sep nxt = \<lparr>st_id = i, st_surname = sn, st_name = n, st_rawscores = xs, st_normscores = [],
     st_composite = Finite 0, st_section = sep, st_next = nxt, st_cnext = None\<rparr>"

partial_function (option) readstudents :: "assignment list \<Rightarrow> nat \<Rightarrow> rstate \<Rightarrow> (ptr \<times> rstate) outcome option" where
  "readstudents as sep s = bnd (checktoken (cs ''STUDENT'')) (\<lambda>b. if \<not> b then ret None
     else bnd newstudent (\<lambda>p. bnd readid (\<lambda>i. bnd readsurname (\<lambda>sn. bnd readname (\<lambda>n.
       bnd (readscores as) (\<lambda>xs. bnd (\<lambda>s. readstudents as sep s) (\<lambda>nxt.
         andthen (set_student p (new_student i sn n xs sep nxt)) (ret (Some p))))))))) s"

text \<open>The loop at the beginning of \<open>readsections\<close>; it returns false when there are no more sections.\<close>

partial_function (option) next_section_token :: "rstate \<Rightarrow> (bool \<times> rstate) outcome option" where
  "next_section_token s = bnd (gets istoken) (\<lambda>t. if t then ret True
     else andthen advancetoken (bnd (gets istoken) (\<lambda>t. if t then (\<lambda>s. next_section_token s)
       else bnd (gets r_prev) (\<lambda>fs. if fs = [] then ret False
         else andthen previousfile (\<lambda>s. next_section_token s))))) s"

partial_function (option) readsections ::
  "(cstr \<Rightarrow> byte list option) \<Rightarrow> assignment list \<Rightarrow> nat \<Rightarrow> rstate \<Rightarrow> (section_data list \<times> rstate) outcome option" where
  "readsections files as sep s = bnd next_section_token (\<lambda>t. if \<not> t then ret []
     else bnd (checktoken (cs ''FILE'')) (\<lambda>b. if b
       then andthen (pushfile files) (\<lambda>s. readsections files as sep s)
       else bnd (checktoken (cs ''SECTION'')) (\<lambda>b. if \<not> b then ret []
         else bnd readname (\<lambda>n. bnd readassistant (\<lambda>a. bnd (readstudents as sep) (\<lambda>roster.
           bnd (\<lambda>s. readsections files as (sep + 1) s) (\<lambda>ses.
             ret (\<lparr>se_name = n, se_assistant = a, se_roster = roster\<rparr> # ses)))))))) s"

definition readcourse :: "(cstr \<Rightarrow> byte list option) \<Rightarrow> course rd" where
  "readcourse files = andthen (expecttoken (cs ''COURSE'')) (bnd readid (\<lambda>number. bnd readname (\<lambda>title.
     bnd readprofessor (\<lambda>p. bnd (\<lambda>s. readassignments s) (\<lambda>as. bnd (readsections files as 0) (\<lambda>ses.
       ret \<lparr>co_number = number, co_title = title, co_professor = p, co_assignments = as, co_sections = ses,
         co_roster = None\<rparr>))))))"

definition readfile :: "(cstr \<Rightarrow> byte list option) \<Rightarrow> cstr \<Rightarrow> (course \<times> rstate) outcome option" where
  "readfile files name = (case files name of
     None \<Rightarrow> Some Abort
   | Some bs \<Rightarrow> andthen gobbleblanklines (bnd (readcourse files) (\<lambda>c.
       andthen gobbleblanklines (andthen expecteof (ret c))))
       \<lparr>r_file = \<lparr>if_rest = bs, if_name = Some name, if_line = 1\<rparr>, r_prev = [], r_tok = [], r_errors = 0,
         r_warnings = 0, r_heap = Map.empty, r_fresh = 0\<rparr>)"

declare readnorm_loop.simps [code] readoptions.simps [code] readassignments.simps [code] readscores.simps [code]
  readstudents.simps [code] next_section_token.simps [code] readsections.simps [code]

end
