(* ===== verification/Grades_Write.thy ===== *)
theory Grades_Write
  imports Grades_Parser
begin

text \<open>
  hw2/src/write.c: the text of a database. \<open>fprintf\<close> with \<open>%f\<close> rounds to six decimals, ties to even;
  a NULL or unwritten value faults.
\<close>

subsection \<open>\<open>%f\<close>\<close>

fun decimal :: "nat \<Rightarrow> nat \<Rightarrow> byte list" where
  "decimal 0 n = []"
| "decimal (Suc k) n = decimal k (n div 10) @ [of_nat (n mod 10 + 48)]"

text \<open>The number of digits of a positive number.\<close>

fun width :: "nat \<Rightarrow> nat" where
  "width n = (if n < 10 then 1 else Suc (width (n div 10)))"

declare width.simps [simp del]

definition format_f :: "flt \<Rightarrow> cstr" where
  "format_f x = (case x of
     NaN \<Rightarrow> cs ''nan''
   | Infinite neg \<Rightarrow> (if neg then cs ''-inf'' else cs ''inf'')
   | Finite r \<Rightarrow> (let n = nat (half_even (\<bar>r\<bar> * 1000000)) in
       (if r < 0 then cs ''-'' else []) @ decimal (width (n div 1000000)) (n div 1000000) @ cs ''.'' @
       decimal 6 (n mod 1000000)))"

definition line :: "byte list \<Rightarrow> byte list" where
  "line bs = bs @ [10]"

subsection \<open>Writing\<close>

definition writeprofessor :: "person option \<Rightarrow> byte list" where
  "writeprofessor p = (case p of None \<Rightarrow> [] | Some (s, n) \<Rightarrow> line (cs '' PROFESSOR '' @ s @ cs '', '' @ n))"

definition writeassistant :: "person option \<Rightarrow> byte list" where
  "writeassistant p = (case p of None \<Rightarrow> [] | Some (s, n) \<Rightarrow> line (cs '' ASSISTANT '' @ s @ cs '', '' @ n))"

text \<open>The case of \<open>USENORM\<close> has no \<open>break\<close> and falls through to \<open>USELIKEAVG\<close>.\<close>

definition write_subst :: "assignment \<Rightarrow> score \<Rightarrow> byte list option" where
  "write_subst a s = (case sc_subst s of
     USERAW \<Rightarrow> do { g \<leftarrow> sc_grade s; Some (cs '' USERAW '' @ format_f g) }
   | USENORM \<Rightarrow> do {
       t \<leftarrow> (case as_npolicy a of
           QUANTILE \<Rightarrow> do { g \<leftarrow> sc_qnorm s; Some (cs '' USENORM '' @ format_f g) }
         | LINEAR \<Rightarrow> do { g \<leftarrow> sc_lnorm s; Some (cs '' USENORM '' @ format_f g) }
         | SCALE \<Rightarrow> do { g \<leftarrow> sc_snorm s; Some (cs '' USENORM '' @ format_f g) }
         | RAW \<Rightarrow> Some []);
       Some (t @ cs '' USELIKEAVG'')
     }
   | USELIKEAVG \<Rightarrow> Some (cs '' USELIKEAVG'')
   | USECLASSAVG \<Rightarrow> Some (cs '' USECLASSAVG''))"

definition writescore :: "assignment list \<Rightarrow> score \<Rightarrow> byte list option" where
  "writescore as s = do {
     a \<leftarrow> buf_get as (sc_asgt s);
     v \<leftarrow> (if sc_flag s = VALID then do { g \<leftarrow> sc_grade s; Some (cs '' '' @ format_f g) }
          else do { t \<leftarrow> write_subst a s; Some (t @ cs '' '' @ sc_code s) });
     Some (line (cs ''   SCORE '' @ as_name a @ v))
   }"

fun writescores :: "assignment list \<Rightarrow> score list \<Rightarrow> byte list option" where
  "writescores as [] = Some []"
| "writescores as (s # ss) = do { t \<leftarrow> writescore as s; u \<leftarrow> writescores as ss; Some (t @ u) }"

definition writestudent :: "assignment list \<Rightarrow> student \<Rightarrow> byte list option" where
  "writestudent as s = do {
     t \<leftarrow> writescores as (st_rawscores s);
     Some (line (cs ''  STUDENT '' @ st_id s @ cs '' '' @ st_surname s @ cs '', '' @ st_name s) @ t)
   }"

partial_function (option) writestudents :: "assignment list \<Rightarrow> students \<Rightarrow> ptr \<Rightarrow> byte list option" where
  "writestudents as h sp = (case sp of None \<Rightarrow> Some []
     | Some p \<Rightarrow> do { s \<leftarrow> h p; t \<leftarrow> writestudent as s; u \<leftarrow> writestudents as h (st_next s); Some (t @ u) })"

definition writesection :: "assignment list \<Rightarrow> students \<Rightarrow> section_data \<Rightarrow> byte list option" where
  "writesection as h s = do {
     t \<leftarrow> writestudents as h (se_roster s);
     Some (line (cs '' SECTION '' @ se_name s) @ writeassistant (se_assistant s) @ t)
   }"

text \<open>The case of \<open>SCALE\<close> falls through to the empty case of \<open>RAW\<close>.\<close>

definition writenorm :: "assignment \<Rightarrow> byte list option" where
  "writenorm a = (if as_npolicy a = RAW then Some []
     else do {
       t \<leftarrow> (case as_npolicy a of
           LINEAR \<Rightarrow> do { m \<leftarrow> as_mean a; d \<leftarrow> as_stddev a;
             Some (cs ''  NORMALIZE LINEAR: '' @ format_f m @ cs '', '' @ format_f d) }
         | QUANTILE \<Rightarrow> Some (cs ''  NORMALIZE QUANTILE'')
         | SCALE \<Rightarrow> do { x \<leftarrow> as_scale a; Some (cs ''  NORMALIZE SCALE '' @ format_f x) }
         | RAW \<Rightarrow> Some []);
       Some (line (t @ cs '' '' @ (if as_ngroup a = BYCLASS then cs ''BYCLASS'' else cs ''BYSECTION'')))
     })"

definition writeassignment :: "assignment \<Rightarrow> byte list option" where
  "writeassignment a = do {
     t \<leftarrow> writenorm a;
     Some (line (cs '' ASSIGNMENT '' @ as_name a @ cs '' '' @ as_atype a) @
       (if as_wpolicy a = WEIGHT then line (cs ''  WEIGHT '' @ format_f (as_weight a)) else []) @ t @
       (if \<not> f_eq (as_max a) (Finite 0) then line (cs ''  MAXIMUM '' @ format_f (as_max a)) else []))
   }"

fun write_all :: "('a \<Rightarrow> byte list option) \<Rightarrow> 'a list \<Rightarrow> byte list option" where
  "write_all f [] = Some []"
| "write_all f (x # xs) = do { t \<leftarrow> f x; u \<leftarrow> write_all f xs; Some (t @ u) }"

definition writecourse :: "students \<Rightarrow> course \<Rightarrow> byte list option" where
  "writecourse h c = do {
     t \<leftarrow> write_all writeassignment (co_assignments c);
     u \<leftarrow> write_all (writesection (co_assignments c) h) (co_sections c);
     Some (line (cs ''COURSE '' @ co_number c @ cs '' '' @ co_title c) @ writeprofessor (co_professor c) @ t @ u)
   }"

end
