(* ===== verification/Grades_Report.thy ===== *)
theory Grades_Report
  imports Grades_Normal Grades_Write
begin

text \<open>
  hw2/src/report.c: the texts of the reports. A report faults where the code reads a value that was
  never written, follows NULL, or indexes the 50 bins of a histogram outside.
\<close>

subsection \<open>Formats\<close>

text \<open>\<open>%.kf\<close> for a positive k, \<open>%d\<close>, and the padding of \<open>%ns\<close> and \<open>%-ns\<close>.\<close>

definition format_fixed :: "nat \<Rightarrow> flt \<Rightarrow> cstr" where
  "format_fixed k x = (case x of
     NaN \<Rightarrow> cs ''nan''
   | Infinite neg \<Rightarrow> (if neg then cs ''-inf'' else cs ''inf'')
   | Finite r \<Rightarrow> (let n = nat (half_even (\<bar>r\<bar> * 10 ^ k)) in
       (if r < 0 then cs ''-'' else []) @ decimal (width (n div 10 ^ k)) (n div 10 ^ k) @ cs ''.'' @
       decimal k (n mod 10 ^ k)))"

definition format_d :: "int \<Rightarrow> cstr" where
  "format_d i = (if i < 0 then cs ''-'' else []) @ decimal (width (nat \<bar>i\<bar>)) (nat \<bar>i\<bar>)"

definition pad_left :: "nat \<Rightarrow> cstr \<Rightarrow> cstr" where
  "pad_left w s = replicate (w - length s) 32 @ s"

definition pad_right :: "nat \<Rightarrow> cstr \<Rightarrow> cstr" where
  "pad_right w s = s @ replicate (w - length s) 32"

text \<open>\<open>%6.2f\<close>\<close>

definition f62 :: "flt \<Rightarrow> cstr" where
  "f62 x = pad_left 6 (format_fixed 2 x)"

subsection \<open>Histograms\<close>

definition bars :: "int list \<Rightarrow> int \<Rightarrow> int \<Rightarrow> byte list" where
  "bars bins cmax row = map (\<lambda>b. if row * cmax < 20 * b then if row = 20 then 94 else 42 else 32) bins"

definition histo_row :: "int list \<Rightarrow> int \<Rightarrow> int \<Rightarrow> int \<Rightarrow> byte list" where
  "histo_row bins cmax cnt row = line (
     (if row = 20 then cs ''        ''
      else if row mod 4 = 3 then pad_left 5 (format_fixed 1 (f_div single
        (f_mul single (f_of_int single (100 * cmax div cnt)) (f_of_int single (row + 1))) (Finite 20))) @ cs ''% |''
      else cs ''       |'') @ bars bins cmax row)"

definition histo :: "int list \<Rightarrow> flt \<Rightarrow> flt \<Rightarrow> int \<Rightarrow> byte list" where
  "histo bins mn mx cnt = (let cnt = (if f_less (f_of_int double cnt) EPSILON then 1 else cnt); cmax = fold max bins 0 in
     concat (map (histo_row bins cmax cnt) (rev [0..20])) @
     line (cs ''    0% -+------------------------------------------------+'') @
     line (line (cs ''     '' @ f62 mn @ cs ''                                         '' @ f62 mx)))"

subsection \<open>Parameters\<close>

text \<open>\<open>today\<close> is the string of \<open>ctime\<close>.\<close>

definition reportparams :: "cstr \<Rightarrow> cstr \<Rightarrow> course \<Rightarrow> byte list" where
  "reportparams today fn c = line (cs ''GRADES FOR: '' @ co_title c) @
     (case co_professor c of None \<Rightarrow> [] | Some (s, n) \<Rightarrow> line (cs ''PROFESSOR : '' @ n @ cs '' '' @ s)) @
     line (cs ''DATA FILE : '' @ fn) @ line (cs ''RUN DATE  : '' @ today) @ line []"

subsection \<open>Tables of an assignment\<close>

definition class_heading :: "course \<Rightarrow> classstats \<Rightarrow> byte list option" where
  "class_heading c csp = do {
     a \<leftarrow> buf_get (co_assignments c) (t_asgt csp);
     Some (line (as_name a) @ line (cs ''(whole class, '' @ format_d (t_tallied csp) @ cs '' tallied):''))
   }"

definition section_heading :: "course \<Rightarrow> sectionstats \<Rightarrow> byte list option" where
  "section_heading c ssp = do {
     se \<leftarrow> buf_get (co_sections c) (ss_section ssp);
     Some (line (cs ''(section '' @ se_name se @ cs '', '' @ format_d (t_tallied ssp) @ cs '' tallied):''))
   }"

text \<open>The loop over the buckets, with the counter \<open>i\<close> that breaks the line after \<open>k - 1\<close> of them.\<close>

fun table_items :: "int \<Rightarrow> (freqs \<Rightarrow> byte list option) \<Rightarrow> int \<Rightarrow> freqs list \<Rightarrow> byte list option" where
  "table_items k item i [] = Some []"
| "table_items k item i (fp # fps) = do {
     t \<leftarrow> item fp;
     u \<leftarrow> table_items k item ((if i mod k = 0 then 1 else i) + 1) fps;
     Some ((if i mod k = 0 then line [] @ cs ''   '' else []) @ t @ u)
   }"

definition table_lines :: "int \<Rightarrow> (int \<Rightarrow> freqs \<Rightarrow> byte list option) \<Rightarrow> int \<Rightarrow> freqs list \<Rightarrow> byte list option" where
  "table_lines k item n fps = do { t \<leftarrow> table_items k (item n) 1 fps; Some (cs ''   '' @ line t) }"

definition table_section :: "(int \<Rightarrow> freqs list \<Rightarrow> byte list option) \<Rightarrow> course \<Rightarrow> sectionstats \<Rightarrow> byte list option" where
  "table_section body c ssp = do {
     t \<leftarrow> section_heading c ssp;
     u \<leftarrow> body (t_tallied ssp) (t_freqs ssp);
     Some (t @ u)
   }"

definition table_class :: "(int \<Rightarrow> freqs list \<Rightarrow> byte list option) \<Rightarrow> course \<Rightarrow> classstats \<Rightarrow> byte list option" where
  "table_class body c csp = do {
     t \<leftarrow> class_heading c csp;
     u \<leftarrow> body (t_tallied csp) (t_freqs csp);
     v \<leftarrow> (if length (cl_sstats csp) = 1 then Some [] else write_all (table_section body c) (cl_sstats csp));
     Some (t @ u @ v @ line [])
   }"

definition freq_item :: "int \<Rightarrow> freqs \<Rightarrow> byte list option" where
  "freq_item n fp = Some (cs ''('' @ f62 (fr_score fp) @ cs '','' @ pad_left 3 (format_d (fr_count fp)) @ cs '')'')"

definition reportfreqs :: "course \<Rightarrow> stats \<Rightarrow> byte list option" where
  "reportfreqs c s = do {
     t \<leftarrow> write_all (table_class (table_lines 7 freq_item) c) s;
     Some (line (line (cs ''FREQUENCY TABLES'')) @ t @ line [])
   }"

text \<open>Both branches of the test of \<open>tallied\<close> print the same.\<close>

definition quantile_item :: "int \<Rightarrow> freqs \<Rightarrow> byte list option" where
  "quantile_item n fp = do {
     k \<leftarrow> fr_numless fp;
     Some (cs ''('' @ f62 (fr_score fp) @ cs '','' @
       f62 (f_div double (f_mul double (f_of_int single k) (Finite 100)) (f_of_int double n)) @ cs '')'')
   }"

definition reportquantiles :: "course \<Rightarrow> stats \<Rightarrow> byte list option" where
  "reportquantiles c s = do {
     t \<leftarrow> write_all (table_class (table_lines 6 quantile_item) c) s;
     Some (line (line (cs ''QUANTILE DATA'')) @ t @ line [])
   }"

subsection \<open>Quantile summaries\<close>

text \<open>\<open>fp->numless * 100.0/n\<close>, stored in a \<open>float\<close>.\<close>

definition percent_less :: "int \<Rightarrow> int \<Rightarrow> flt" where
  "percent_less k n = to_format single (f_div double (f_mul double (f_of_int double k) (Finite 100)) (f_of_int double n))"

text \<open>The loop of \<open>interpolatequantile\<close>: \<open>fp\<close> and \<open>pq\<close>, \<open>nq\<close>, \<open>ps\<close>, \<open>ns\<close> at its end.\<close>

fun interpolate_loop :: "int \<Rightarrow> flt \<Rightarrow> freqs list \<Rightarrow> flt \<times> flt \<times> flt \<times> flt \<Rightarrow>
    (freqs list \<times> flt \<times> flt \<times> flt \<times> flt) option" where
  "interpolate_loop n q (fp # fp' # fps) (pq, nq, ps, ns) = do {
     k \<leftarrow> fr_numless fp;
     let nq = percent_less k n;
     let ns = fr_score fp;
     if (f_less pq q \<or> f_eq pq q) \<and> f_less q nq then Some (fp # fp' # fps, pq, nq, ps, ns)
     else interpolate_loop n q (fp' # fps) (nq, nq, ns, ns)
   }"
| "interpolate_loop n q fps v = Some (fps, v)"

definition interpolatequantile :: "freqs list \<Rightarrow> int \<Rightarrow> flt \<Rightarrow> flt option" where
  "interpolatequantile fps n q = (case fps of [] \<Rightarrow> Some (Finite 0)
     | fp # _ \<Rightarrow> do {
         (fps, pq, nq, ps, ns) \<leftarrow> interpolate_loop n q fps (Finite 0, Finite 0, fr_score fp, fr_score fp);
         (case fps of [] \<Rightarrow> None
          | [fp] \<Rightarrow> Some (fr_score fp)
          | _ \<Rightarrow> (let qdiff = f_sub single nq pq; sdiff = f_sub single ns ps in
              if f_eq qdiff (Finite 0) then Some ps
              else Some (f_add single ps (f_mul single (f_div single sdiff qdiff) (f_sub single q pq)))))
       })"

definition quantiles :: "flt list" where
  "quantiles = [Finite 10, Finite 25, Finite 50, Finite 75, Finite 90]"

fun quantile_scores :: "freqs list \<Rightarrow> int \<Rightarrow> flt list \<Rightarrow> flt list option" where
  "quantile_scores fps n [] = Some []"
| "quantile_scores fps n (q # qs) = do {
     x \<leftarrow> interpolatequantile fps n q;
     xs \<leftarrow> quantile_scores fps n qs;
     Some (x # xs)
   }"

text \<open>\<open>r\<close> is a local variable of \<open>reportquantilesummaries\<close> that nothing initialises; where \<open>min < max\<close>
  does not hold, the value of the previous line is printed.\<close>

fun summary_lines :: "flt \<Rightarrow> flt \<Rightarrow> (flt \<times> flt) list \<Rightarrow> flt option \<Rightarrow> (byte list \<times> flt option) option" where
  "summary_lines mn mx [] r = Some ([], r)"
| "summary_lines mn mx ((q, x) # qs) r = do {
     let r = (if f_less mn mx then Some (f_div single (f_sub single x mn) (f_sub single mx mn)) else r);
     v \<leftarrow> r;
     (t, r) \<leftarrow> summary_lines mn mx qs r;
     Some (line (cs ''   '' @ f62 q @ cs ''  '' @ f62 x @ cs ''  '' @ f62 v) @ t, r)
   }"

definition summary :: "freqs list \<Rightarrow> int \<Rightarrow> flt option \<Rightarrow> (byte list \<times> flt option) option" where
  "summary fps n r = do {
     xs \<leftarrow> quantile_scores fps n quantiles;
     mn \<leftarrow> buf_get xs 0;
     mx \<leftarrow> buf_get xs (length quantiles - 1);
     (t, r) \<leftarrow> summary_lines mn mx (zip quantiles xs) r;
     Some (line t, r)
   }"

fun summary_sections :: "course \<Rightarrow> sectionstats list \<Rightarrow> flt option \<Rightarrow> (byte list \<times> flt option) option" where
  "summary_sections c [] r = Some ([], r)"
| "summary_sections c (ssp # ssps) r = do {
     t \<leftarrow> section_heading c ssp;
     (u, r) \<leftarrow> summary (t_freqs ssp) (t_tallied ssp) r;
     (v, r) \<leftarrow> summary_sections c ssps r;
     Some (t @ u @ v, r)
   }"

fun summary_classes :: "course \<Rightarrow> stats \<Rightarrow> flt option \<Rightarrow> (byte list \<times> flt option) option" where
  "summary_classes c [] r = Some ([], r)"
| "summary_classes c (csp # csps) r = do {
     t \<leftarrow> class_heading c csp;
     (u, r) \<leftarrow> summary (t_freqs csp) (t_tallied csp) r;
     (v, r) \<leftarrow> (if length (cl_sstats csp) = 1 then Some ([], r) else summary_sections c (cl_sstats csp) r);
     (w, r) \<leftarrow> summary_classes c csps r;
     Some (t @ u @ v @ line [] @ w, r)
   }"

definition reportquantilesummaries :: "course \<Rightarrow> stats \<Rightarrow> byte list option" where
  "reportquantilesummaries c s = do {
     (t, r) \<leftarrow> summary_classes c s None;
     Some (line (line (cs ''QUANTILE SUMMARIES'')) @ t @ line [])
   }"

subsection \<open>Moments\<close>

definition moment_text :: "'a tally_scheme \<Rightarrow> byte list option" where
  "moment_text t = do {
     m \<leftarrow> t_mean t;
     d \<leftarrow> t_stddev t;
     Some (line (cs ''Valid '' @ pad_left 3 (format_d (t_valid t)) @ cs ''; Mean '' @ f62 m @ cs ''; Std. Dev. '' @ f62 d))
   }"

definition moment_section :: "course \<Rightarrow> assignment \<Rightarrow> sectionstats \<Rightarrow> byte list option" where
  "moment_section c a ssp = do {
     se \<leftarrow> buf_get (co_sections c) (ss_section ssp);
     t \<leftarrow> moment_text ssp;
     Some (pad_right 12 (as_name a) @ cs '' (section '' @ pad_left 8 (se_name se) @ cs '') '' @ t)
   }"

definition moment_class :: "course \<Rightarrow> classstats \<Rightarrow> byte list option" where
  "moment_class c csp = do {
     a \<leftarrow> buf_get (co_assignments c) (t_asgt csp);
     t \<leftarrow> moment_text csp;
     u \<leftarrow> (if length (cl_sstats csp) = 1 then Some []
           else do { u \<leftarrow> write_all (moment_section c a) (cl_sstats csp); Some (line u) });
     Some (pad_right 12 (as_name a) @ cs '' (whole class     ) '' @ t @ u)
   }"

definition reportmoments :: "course \<Rightarrow> stats \<Rightarrow> byte list option" where
  "reportmoments c s = do {
     t \<leftarrow> write_all (moment_class c) s;
     Some (line (line (cs ''ASSIGNMENT STATISTICS'')) @ t @ line [])
   }"

subsection \<open>Students\<close>

text \<open>The loops of the reports over the roster of the course.\<close>

partial_function (option) each_student :: "(student \<Rightarrow> byte list option) \<Rightarrow> students \<Rightarrow> ptr \<Rightarrow> byte list option" where
  "each_student f h stp = (case stp of None \<Rightarrow> Some []
     | Some a \<Rightarrow> do { x \<leftarrow> h a; t \<leftarrow> f x; u \<leftarrow> each_student f h (st_cnext x); Some (t @ u) })"

declare each_student.simps [code]

text \<open>\<open>%-16.16s%c SEP%-16.16s (%-12.12s, Section %-8.8s)\<close>, without the names if \<open>nm\<close>.\<close>

definition student_heading :: "course \<Rightarrow> bool \<Rightarrow> cstr \<Rightarrow> student \<Rightarrow> byte list option" where
  "student_heading c nm sep x = do {
     se \<leftarrow> buf_get (co_sections c) (st_section x);
     Some (line (pad_right 16 (take 16 (if nm then [] else st_surname x)) @ (if nm then cs '' '' else cs '','') @ sep @
       pad_right 16 (take 16 (if nm then [] else st_name x)) @ cs '' ('' @ pad_right 12 (take 12 (st_id x)) @
       cs '', Section '' @ pad_right 8 (take 8 (se_name se)) @ cs '')''))
   }"

text \<open>The normalized scores are walked beside the raw scores.\<close>

fun score_lines :: "course \<Rightarrow> stats \<Rightarrow> score list \<Rightarrow> score list \<Rightarrow> byte list option" where
  "score_lines c s [] nscps = Some []"
| "score_lines c s (rscp # rscps) nscps = do {
     a \<leftarrow> buf_get (co_assignments c) (sc_asgt rscp);
     t \<leftarrow> (if counts rscp then do { g \<leftarrow> sc_grade rscp; Some (cs ''  '' @ f62 g) } else Some (cs ''  ***.**''));
     nscp \<leftarrow> buf_get nscps 0;
     g \<leftarrow> sc_grade nscp;
     i \<leftarrow> sc_cstats rscp;
     csp \<leftarrow> buf_get s i;
     cm \<leftarrow> t_mean csp;
     ssp \<leftarrow> get_sstats s (sc_sstats rscp);
     sm \<leftarrow> t_mean ssp;
     u \<leftarrow> score_lines c s rscps (tl nscps);
     Some (line (cs ''   '' @ pad_right 13 (take 13 (as_name a)) @ t @ cs ''  '' @ f62 g @ cs ''    '' @ f62 cm @
       cs ''    '' @ f62 sm @ (if sc_flag rscp = INVALID then cs ''  '' @ sc_code rscp else [])) @ u)
   }"

definition student_scores :: "course \<Rightarrow> stats \<Rightarrow> bool \<Rightarrow> student \<Rightarrow> byte list option" where
  "student_scores c s nm x = do {
     t \<leftarrow> student_heading c nm (cs ''  '') x;
     u \<leftarrow> score_lines c s (st_rawscores x) (st_normscores x);
     Some (t @ line (cs ''Composite score: '' @ f62 (st_composite x)) @ line [] @
       line (cs ''   '' @ pad_right 13 (cs ''Assignment'') @ cs ''  '' @ pad_left 6 (cs ''Raw'') @ cs ''  '' @ pad_left 6 (cs ''Norm'') @
         cs ''  '' @ pad_left 8 (cs ''ClassAvg'') @ cs ''  '' @ pad_left 8 (cs ''SectAvg'') @ cs ''  Note'') @ u @ line [])
   }"

definition reportscores :: "students \<Rightarrow> course \<Rightarrow> stats \<Rightarrow> bool \<Rightarrow> byte list option" where
  "reportscores h c s nm = do {
     t \<leftarrow> each_student (student_scores c s nm) h (co_roster c);
     Some (line (line (cs ''STUDENT INDIVIDUAL SCORES'')) @ t @ line [])
   }"

definition student_composite :: "course \<Rightarrow> bool \<Rightarrow> student \<Rightarrow> byte list option" where
  "student_composite c nm x = do {
     t \<leftarrow> student_heading c nm (cs '' '') x;
     Some (f62 (st_composite x) @ cs '' '' @ t)
   }"

definition reportcomposites :: "students \<Rightarrow> course \<Rightarrow> bool \<Rightarrow> byte list option" where
  "reportcomposites h c nm = do {
     t \<leftarrow> each_student (student_composite c nm) h (co_roster c);
     Some (line (line (cs ''STUDENT COMPOSITE SCORES'')) @ t @ line [])
   }"

text \<open>The first score on an assignment; the code leaves the loop by \<open>goto next\<close>.\<close>

fun tab_score :: "nat \<Rightarrow> score list \<Rightarrow> byte list option" where
  "tab_score ap [] = Some (cs ''   ***.**'')"
| "tab_score ap (rscp # rscps) =
     (if sc_asgt rscp = ap
      then if counts rscp then do { g \<leftarrow> sc_grade rscp; Some (f62 g) } else Some (cs ''***.**'')
      else tab_score ap rscps)"

definition tab_line :: "course \<Rightarrow> student \<Rightarrow> byte list option" where
  "tab_line c x = do {
     t \<leftarrow> write_all (\<lambda>ap. do { t \<leftarrow> tab_score ap (st_rawscores x); Some (t @ [9]) }) [0..<length (co_assignments c)];
     Some (st_id x @ [9] @ t @ line (f62 (st_composite x)))
   }"

definition reporttabs :: "students \<Rightarrow> course \<Rightarrow> byte list option" where
  "reporttabs h c = do {
     t \<leftarrow> each_student (tab_line c) h (co_roster c);
     Some (line (line (cs ''STUDENT INDIVIDUAL SCORES'')) @ cs ''STUDENT'' @ [9] @
       concat (map (\<lambda>a. as_name a @ [9]) (co_assignments c)) @ line (cs ''COMPOSITE'') @ t @ line [])
   }"

subsection \<open>Histograms of scores\<close>

text \<open>The conversion of a floating point number to \<open>int\<close> truncates; out of range it is undefined.\<close>

definition to_int :: "flt \<Rightarrow> int option" where
  "to_int x = (case x of
     Finite r \<Rightarrow> (let n = (if r < 0 then - floor (- r) else floor r) in
       if - (2 ^ 31) \<le> n \<and> n < 2 ^ 31 then Some n else None)
   | _ \<Rightarrow> None)"

text \<open>\<open>bins[pct] += n\<close>\<close>

definition add_bin :: "int list \<Rightarrow> int \<Rightarrow> int \<Rightarrow> int list option" where
  "add_bin bins pct n = (if 0 \<le> pct then do { b \<leftarrow> buf_get bins (nat pct); buf_put bins (nat pct) (b + n) } else None)"

partial_function (option) composite_range :: "students \<Rightarrow> ptr \<Rightarrow> flt \<times> flt \<times> int \<Rightarrow> (flt \<times> flt \<times> int) option" where
  "composite_range h stp v = (case stp of None \<Rightarrow> Some v
     | Some a \<Rightarrow> do {
         x \<leftarrow> h a;
         let (mn, mx, cnt) = v;
         let mn = (if f_less (st_composite x) mn then st_composite x else mn);
         let mx = (if f_less mx (st_composite x) then st_composite x else mx);
         composite_range h (st_cnext x) (mn, mx, cnt + 1)
       })"

partial_function (option) composite_bins :: "flt \<Rightarrow> flt \<Rightarrow> students \<Rightarrow> ptr \<Rightarrow> int list \<Rightarrow> int list option" where
  "composite_bins mn diff h stp bins = (case stp of None \<Rightarrow> Some bins
     | Some a \<Rightarrow> do {
         x \<leftarrow> h a;
         pct \<leftarrow> to_int (f_div single (f_mul single (Finite 49) (f_sub single (st_composite x) mn)) diff);
         bins \<leftarrow> add_bin bins pct 1;
         composite_bins mn diff h (st_cnext x) bins
       })"

declare composite_range.simps [code] composite_bins.simps [code]

fun freq_bins :: "flt \<Rightarrow> freqs list \<Rightarrow> int list \<Rightarrow> int list option" where
  "freq_bins mx [] bins = Some bins"
| "freq_bins mx (fp # fps) bins = do {
     pct \<leftarrow> (if f_less mx (fr_score fp) then Some 49
             else to_int (f_div single (f_mul single (Finite 49) (fr_score fp)) mx));
     bins \<leftarrow> add_bin bins pct (fr_count fp);
     freq_bins mx fps bins
   }"

definition class_histo :: "course \<Rightarrow> classstats \<Rightarrow> byte list option" where
  "class_histo c csp = do {
     a \<leftarrow> buf_get (co_assignments c) (t_asgt csp);
     mx \<leftarrow> (if f_eq (as_max a) (Finite 0)
            then do { m \<leftarrow> t_max csp; Some (if f_eq m (Finite 0) then Finite 1 else m) }
            else Some (as_max a));
     bins \<leftarrow> freq_bins mx (t_freqs csp) (replicate 50 0);
     Some (line (as_name a @ cs '' (whole class, '' @ format_d (t_tallied csp) @ cs '' tallied):'') @
       histo bins (Finite 0) mx (t_tallied csp))
   }"

definition reporthistos :: "students \<Rightarrow> course \<Rightarrow> stats \<Rightarrow> byte list option" where
  "reporthistos h c s = do {
     (mn, mx, cnt) \<leftarrow> composite_range h (co_roster c) (Finite 0, Finite 0, 0);
     let d = f_sub single mx mn;
     bins \<leftarrow> composite_bins mn (if f_eq d (Finite 0) then Finite 1 else d) h (co_roster c) (replicate 50 0);
     t \<leftarrow> write_all (class_histo c) s;
     Some (line (line (cs ''HISTOGRAMS'')) @ line (cs ''Composite Scores:'') @ histo bins mn mx cnt @ t)
   }"

end
