(* ===== verification/Grades_Sort.thy ===== *)
theory Grades_Sort
  imports Grades_Data
begin

text \<open>
  hw2/src/sort.c: the quicksort of student pointers, the comparisons, the relinking of a roster and
  the search for duplicate entries. A comparison is a function that may fault and returns an int.
\<close>

subsection \<open>Partition and quicksort\<close>

type_synonym 'a comparison = "'a \<Rightarrow> 'a \<Rightarrow> int option"

text \<open>The loop of \<open>partition\<close>; elements equal to the pivot go to the high and the low end in turn.\<close>

function partition_loop :: "'a comparison \<Rightarrow> 'a \<Rightarrow> 'a list \<Rightarrow> nat \<Rightarrow> nat \<Rightarrow> int \<Rightarrow> ('a list \<times> nat) option" where
  "partition_loop compare pivot stab l h alt =
     (if l < h then do {
        x \<leftarrow> buf_get stab l;
        c \<leftarrow> compare x pivot;
        let (c, alt) = (if c = 0 then (alt, - alt) else (c, alt));
        if 0 < c then do {
          temp \<leftarrow> buf_get stab (h - 1);
          stab \<leftarrow> buf_put stab (h - 1) x;
          stab \<leftarrow> buf_put stab l temp;
          partition_loop compare pivot stab l (h - 1) alt
        } else partition_loop compare pivot stab (l + 1) h alt
      } else Some (stab, l))"
  by pat_completeness auto
termination
  by (relation "measure (\<lambda>(compare, pivot, stab, l, h, alt). h - l)") auto

declare partition_loop.simps [simp del]

definition partition_tab :: "'a comparison \<Rightarrow> 'a list \<Rightarrow> nat \<Rightarrow> nat \<Rightarrow> ('a list \<times> nat) option" where
  "partition_tab compare stab low high = do {
     pivot \<leftarrow> buf_get stab ((low + high) div 2);
     partition_loop compare pivot stab low high 1
   }"

partial_function (option) sorttable :: "'a comparison \<Rightarrow> 'a list \<Rightarrow> nat \<Rightarrow> nat \<Rightarrow> 'a list option" where
  "sorttable compare stab low high =
     (if low = high then Some stab
      else do {
        (stab, middle) \<leftarrow> partition_tab compare stab low high;
        if low + 1 = high then Some stab
        else do {
          stab \<leftarrow> sorttable compare stab low middle;
          sorttable compare stab middle high
        }
      })"

subsection \<open>Comparisons of students\<close>

definition comparename :: "students \<Rightarrow> nat comparison" where
  "comparename h s1 s2 = do {
     x \<leftarrow> h s1;
     y \<leftarrow> h s2;
     let c = strcmp (st_surname x) (st_surname y);
     if c \<noteq> 0 then Some c else Some (strcmp (st_name x) (st_name y))
   }"

definition compareid :: "students \<Rightarrow> nat comparison" where
  "compareid h s1 s2 = do { x \<leftarrow> h s1; y \<leftarrow> h s2; Some (strcmp (st_id x) (st_id y)) }"

definition comparescore :: "students \<Rightarrow> nat comparison" where
  "comparescore h s1 s2 = do {
     x \<leftarrow> h s1;
     y \<leftarrow> h s2;
     if f_less (st_composite y) (st_composite x) then Some (- 1)
     else if f_less (st_composite x) (st_composite y) then Some 1
     else Some 0
   }"

subsection \<open>Sorting a roster\<close>

definition getnext :: "students \<Rightarrow> ptr \<Rightarrow> ptr option" where
  "getnext h s = do { x \<leftarrow> deref h s; Some (st_next x) }"

definition getcnext :: "students \<Rightarrow> ptr \<Rightarrow> ptr option" where
  "getcnext h s = do { x \<leftarrow> deref h s; Some (st_cnext x) }"

definition setnext :: "students \<Rightarrow> nat \<Rightarrow> ptr \<Rightarrow> students option" where
  "setnext h s n = do { x \<leftarrow> h s; Some (h(s \<mapsto> x\<lparr>st_next := n\<rparr>)) }"

definition setcnext :: "students \<Rightarrow> nat \<Rightarrow> ptr \<Rightarrow> students option" where
  "setcnext h s n = do { x \<leftarrow> h s; Some (h(s \<mapsto> x\<lparr>st_cnext := n\<rparr>)) }"

type_synonym get_link = "students \<Rightarrow> ptr \<Rightarrow> ptr option"
type_synonym set_link = "students \<Rightarrow> nat \<Rightarrow> ptr \<Rightarrow> students option"

partial_function (option) count_loop :: "get_link \<Rightarrow> students \<Rightarrow> ptr \<Rightarrow> nat \<Rightarrow> nat option" where
  "count_loop gtnxt h sp n =
     (if sp = None then Some n else do { q \<leftarrow> gtnxt h sp; count_loop gtnxt h q (n + 1) })"

text \<open>\<open>i\<close> counts down, so the table holds the roster backwards.\<close>

fun fill_loop :: "get_link \<Rightarrow> students \<Rightarrow> ptr \<Rightarrow> nat \<Rightarrow> nat list \<Rightarrow> nat list option" where
  "fill_loop gtnxt h sp 0 stab = Some stab"
| "fill_loop gtnxt h sp (Suc i) stab = do {
     a \<leftarrow> sp;
     stab \<leftarrow> buf_put stab i a;
     q \<leftarrow> gtnxt h sp;
     fill_loop gtnxt h q i stab
   }"

function relink_loop :: "set_link \<Rightarrow> nat list \<Rightarrow> nat \<Rightarrow> students \<Rightarrow> nat \<Rightarrow> nat \<Rightarrow> (students \<times> nat) option" where
  "relink_loop stnxt stab n h sp i =
     (if i < n then do {
        a \<leftarrow> buf_get stab i;
        h \<leftarrow> stnxt h sp (Some a);
        relink_loop stnxt stab n h a (i + 1)
      } else Some (h, sp))"
  by pat_completeness auto
termination
  by (relation "measure (\<lambda>(stnxt, stab, n, h, sp, i). n - i)") auto

declare relink_loop.simps [simp del]

text \<open>\<open>malloc\<close> does not fail here; the code only warns when it does and then writes to NULL.\<close>

definition sortroster ::
  "get_link \<Rightarrow> set_link \<Rightarrow> (students \<Rightarrow> nat comparison) \<Rightarrow> students \<Rightarrow> ptr \<Rightarrow> (students \<times> ptr) option" where
  "sortroster gtnxt stnxt compare h s = do {
     n \<leftarrow> count_loop gtnxt h s 0;
     if n = 0 then Some (h, None)
     else do {
       stab \<leftarrow> fill_loop gtnxt h s n (replicate n 0);
       stab \<leftarrow> sorttable (compare h) stab 0 n;
       first \<leftarrow> buf_get stab 0;
       (h, sp) \<leftarrow> relink_loop stnxt stab n h first 1;
       h \<leftarrow> stnxt h sp None;
       Some (h, Some first)
     }
   }"

fun sort_sections ::
  "(students \<Rightarrow> nat comparison) \<Rightarrow> students \<Rightarrow> ptr list \<Rightarrow> (students \<times> ptr list) option" where
  "sort_sections compare h [] = Some (h, [])"
| "sort_sections compare h (r # rs) = do {
     (h, r) \<leftarrow> sortroster getnext setnext compare h r;
     (h, rs) \<leftarrow> sort_sections compare h rs;
     Some (h, r # rs)
   }"

text \<open>A course is its roster and the rosters of its sections.\<close>

definition sortrosters ::
  "(students \<Rightarrow> nat comparison) \<Rightarrow> students \<Rightarrow> ptr \<Rightarrow> ptr list \<Rightarrow> (students \<times> ptr \<times> ptr list) option" where
  "sortrosters compare h roster sections = do {
     (h, roster) \<leftarrow> sortroster getcnext setcnext compare h roster;
     (h, sections) \<leftarrow> sort_sections compare h sections;
     Some (h, roster, sections)
   }"

text \<open>The warnings of \<open>checkfordups\<close>, as the students reported.\<close>

partial_function (option) checkfordups :: "students \<Rightarrow> ptr \<Rightarrow> nat list option" where
  "checkfordups h sp =
     (case sp of None \<Rightarrow> Some []
      | Some a \<Rightarrow> do {
          x \<leftarrow> h a;
          case st_cnext x of None \<Rightarrow> Some []
          | Some b \<Rightarrow> do {
              c \<leftarrow> comparename h a b;
              ws \<leftarrow> checkfordups h (Some b);
              Some (if c = 0 then a # ws else ws)
            }
        })"

end
