(* ===== verification/Grades_Quicksort.thy ===== *)
theory Grades_Quicksort
  imports Grades_Sort
begin

text \<open>
  The quicksort of hw2/src/sort.c terminates and sorts, for every comparison that orders the
  elements of a table by a key (the locale \<open>keyed\<close>). A pass whose pivot is the only smallest
  element leaves the high part as large as before; it rotates the table, so that the next pass
  has another pivot.
\<close>

subsection \<open>Slices of a table\<close>

definition slice :: "nat \<Rightarrow> nat \<Rightarrow> 'a list \<Rightarrow> 'a list" where
  "slice l h t = take (h - l) (drop l t)"

lemma in_slice: "h \<le> length t \<Longrightarrow> x \<in> set (slice l h t) \<longleftrightarrow> (\<exists>k. l \<le> k \<and> k < h \<and> t ! k = x)"
proof -
  assume h: "h \<le> length t"
  have "length (slice l h t) = h - l" "\<And>i. i < h - l \<Longrightarrow> slice l h t ! i = t ! (l + i)"
    using h by (auto simp: slice_def)
  then have "x \<in> set (slice l h t) \<longleftrightarrow> (\<exists>i < h - l. t ! (l + i) = x)"
    by (auto simp: in_set_conv_nth)
  also have "\<dots> \<longleftrightarrow> (\<exists>k. l \<le> k \<and> k < h \<and> t ! k = x)"
    by (metis add_diff_inverse_nat le_add1 less_diff_conv add.commute not_le le_iff_add)
  finally show ?thesis .
qed

text \<open>\<open>t'\<close> is \<open>t\<close> with the part between \<open>l\<close> and \<open>h\<close> rearranged.\<close>

definition shuffled :: "nat \<Rightarrow> nat \<Rightarrow> 'a list \<Rightarrow> 'a list \<Rightarrow> bool" where
  "shuffled l h t t' \<longleftrightarrow> length t' = length t \<and> mset t' = mset t \<and>
     (\<forall>k < length t. k < l \<or> h \<le> k \<longrightarrow> t' ! k = t ! k)"

lemma shuffled_refl [simp]: "shuffled l h t t"
  by (simp add: shuffled_def)

lemma shuffled_trans: "shuffled l h t t' \<Longrightarrow> shuffled l h t' t'' \<Longrightarrow> shuffled l h t t''"
  by (simp add: shuffled_def)

lemma shuffled_mono: "shuffled l h t t' \<Longrightarrow> l' \<le> l \<Longrightarrow> h \<le> h' \<Longrightarrow> shuffled l' h' t t'"
  by (simp add: shuffled_def)

lemma shuffled_slice:
  assumes "shuffled l h t t'" "l \<le> h" "h \<le> length t"
  shows "mset (slice l h t') = mset (slice l h t)"
proof -
  have s: "xs = take l xs @ slice l h xs @ drop h xs" if "length xs = length t" for xs :: "'a list"
  proof -
    have "drop l xs = slice l h xs @ drop h xs"
      unfolding slice_def by (metis append_take_drop_id assms(2) drop_drop le_add_diff_inverse2)
    then show ?thesis by (metis append_take_drop_id)
  qed
  have l: "length t' = length t" using assms(1) by (simp add: shuffled_def)
  have "take l t' = take l t" "drop h t' = drop h t"
    using assms by (auto simp: shuffled_def intro!: nth_equalityI)
  moreover have "mset t' = mset (take l t') + mset (slice l h t') + mset (drop h t')"
    using s [OF l] by (metis mset_append union_assoc)
  moreover have "mset t = mset (take l t) + mset (slice l h t) + mset (drop h t)"
    using s [OF refl] by (metis mset_append union_assoc)
  moreover have "mset t' = mset t" using assms(1) by (simp add: shuffled_def)
  ultimately show ?thesis by simp
qed

lemma shuffled_in:
  assumes "shuffled l h t t'" "h \<le> length t" "l \<le> k" "k < h"
  shows "\<exists>j. l \<le> j \<and> j < h \<and> t ! j = t' ! k"
proof -
  have "length t' = length t" using assms(1) by (simp add: shuffled_def)
  then have "t' ! k \<in> set (slice l h t')" using assms by (auto simp: in_slice)
  then have "t' ! k \<in> set (slice l h t)"
    using shuffled_slice [OF assms(1)] assms by (metis mset_eq_setD less_imp_le le_trans)
  then show ?thesis using assms by (auto simp: in_slice)
qed

lemma shuffled_sym: "shuffled l h t t' \<Longrightarrow> shuffled l h t' t"
  by (simp add: shuffled_def)

lemma shuffled_swap:
  assumes "l < h" "h \<le> length t"
  shows "shuffled l h t (t[h - 1 := t ! l, l := t ! (h - 1)])"
proof -
  have "mset (t[h - 1 := t ! l, l := t ! (h - 1)]) = mset t"
    using assms mset_swap [of l t "h - 1"] by simp
  then show ?thesis using assms by (auto simp: shuffled_def nth_list_update)
qed

subsection \<open>Partition\<close>

text \<open>A comparison that orders the elements of \<open>A\<close> by a key.\<close>

locale keyed =
  fixes compare :: "'a comparison" and key :: "'a \<Rightarrow> 'k :: linorder" and A :: "'a set"
  assumes compare: "a \<in> A \<Longrightarrow> b \<in> A \<Longrightarrow>
    \<exists>c. compare a b = Some c \<and> (c < 0 \<longleftrightarrow> key a < key b) \<and> (c = 0 \<longleftrightarrow> key a = key b)"
begin

lemma compare_pos: "a \<in> A \<Longrightarrow> b \<in> A \<Longrightarrow> compare a b = Some c \<Longrightarrow> 0 < c \<longleftrightarrow> key b < key a"
  using compare [of a b] by (metis linorder_less_linear option.inject order_less_irrefl order_less_trans)

text \<open>One step of the loop.\<close>

lemma partition_loop_step:
  assumes "set t \<subseteq> A" "p \<in> A" "l < h" "h \<le> length t"
  obtains
    (high) "key p \<le> key (t ! l)" "key (t ! l) = key p \<Longrightarrow> 0 < alt"
      "partition_loop compare p t l h alt = partition_loop compare p (t[h - 1 := t ! l, l := t ! (h - 1)]) l (h - 1)
         (if key (t ! l) = key p then - alt else alt)"
  | (low) "key (t ! l) \<le> key p" "key (t ! l) = key p \<Longrightarrow> alt \<le> 0"
      "partition_loop compare p t l h alt = partition_loop compare p t (l + 1) h
         (if key (t ! l) = key p then - alt else alt)"
proof -
  have a: "t ! l \<in> A" using assms by auto
  obtain c where c: "compare (t ! l) p = Some c" "c < 0 \<longleftrightarrow> key (t ! l) < key p" "c = 0 \<longleftrightarrow> key (t ! l) = key p"
    using compare [OF a assms(2)] by blast
  have pos: "0 < c \<longleftrightarrow> key p < key (t ! l)" by (rule compare_pos [OF a assms(2) c(1)])
  note step = partition_loop.simps [of compare p t l h alt]
  have r: "buf_get t l = Some (t ! l)" "buf_get t (h - 1) = Some (t ! (h - 1))"
    "buf_put t (h - 1) (t ! l) = Some (t[h - 1 := t ! l])"
    "buf_put (t[h - 1 := t ! l]) l (t ! (h - 1)) = Some (t[h - 1 := t ! l, l := t ! (h - 1)])"
    using assms by (simp_all add: buf_simps)
  show thesis
  proof (cases "0 < c \<or> c = 0 \<and> 0 < alt")
    case True
    then have "partition_loop compare p t l h alt = partition_loop compare p (t[h - 1 := t ! l, l := t ! (h - 1)]) l (h - 1)
         (if key (t ! l) = key p then - alt else alt)"
      using assms(3) c pos by (auto simp: step r [unfolded One_nat_def])
    then show thesis using True c pos by (intro high) auto
  next
    case False
    then have "partition_loop compare p t l h alt = partition_loop compare p t (l + 1) h
         (if key (t ! l) = key p then - alt else alt)"
      using assms(3) c pos by (auto simp: step r [unfolded One_nat_def])
    then show thesis using False c pos by (intro low) auto
  qed
qed

lemma partition_loop_ok:
  assumes "set t \<subseteq> A" "p \<in> A" "l \<le> h" "h \<le> length t"
  shows "\<exists>t' m. partition_loop compare p t l h alt = Some (t', m) \<and> l \<le> m \<and> m \<le> h \<and> shuffled l h t t' \<and>
    (\<forall>k. l \<le> k \<and> k < m \<longrightarrow> key (t' ! k) \<le> key p) \<and> (\<forall>k. m \<le> k \<and> k < h \<longrightarrow> key p \<le> key (t' ! k))"
  using assms
proof (induction "h - l" arbitrary: t l h alt)
  case 0
  then show ?case by (subst partition_loop.simps) auto
next
  case (Suc n)
  then have lh: "l < h" by simp
  show ?case
  proof (rule partition_loop_step [OF Suc.prems(1,2) lh Suc.prems(4), of alt])
    let ?t = "t[h - 1 := t ! l, l := t ! (h - 1)]" and ?alt = "if key (t ! l) = key p then - alt else alt"
    assume c: "key p \<le> key (t ! l)" "partition_loop compare p t l h alt = partition_loop compare p ?t l (h - 1) ?alt"
    have s: "shuffled l h t ?t" by (rule shuffled_swap [OF lh Suc.prems(4)])
    have A: "set ?t \<subseteq> A" using s Suc.prems(1) by (metis mset_eq_setD shuffled_def)
    have pre: "n = (h - 1) - l" "l \<le> h - 1" "h - 1 \<le> length ?t" using Suc.hyps(2) lh Suc.prems(4) by simp_all
    obtain t' m where t': "partition_loop compare p ?t l (h - 1) ?alt = Some (t', m)" "l \<le> m" "m \<le> h - 1"
      "shuffled l (h - 1) ?t t'" "\<forall>k. l \<le> k \<and> k < m \<longrightarrow> key (t' ! k) \<le> key p"
      "\<forall>k. m \<le> k \<and> k < h - 1 \<longrightarrow> key p \<le> key (t' ! k)"
      using Suc.hyps(1) [OF pre(1) A Suc.prems(2) pre(2,3)] by blast
    have "t' ! (h - 1) = t ! l" using t'(4) lh Suc.prems(4) by (auto simp: shuffled_def nth_list_update)
    then have "key p \<le> key (t' ! k)" if "m \<le> k" "k < h" for k
      using t'(6) c(1) that by (cases "k = h - 1") auto
    moreover have "shuffled l h t t'" using s t'(4) by (meson diff_le_self order_refl shuffled_mono shuffled_trans)
    ultimately show ?thesis using c t' by auto
  next
    let ?alt = "if key (t ! l) = key p then - alt else alt"
    assume c: "key (t ! l) \<le> key p" "partition_loop compare p t l h alt = partition_loop compare p t (l + 1) h ?alt"
    obtain t' m where t': "partition_loop compare p t (l + 1) h ?alt = Some (t', m)" "l + 1 \<le> m" "m \<le> h"
      "shuffled (l + 1) h t t'" "\<forall>k. l + 1 \<le> k \<and> k < m \<longrightarrow> key (t' ! k) \<le> key p"
      "\<forall>k. m \<le> k \<and> k < h \<longrightarrow> key p \<le> key (t' ! k)"
      using Suc.hyps(1) [OF _ Suc.prems(1,2) _ Suc.prems(4), of "l + 1" ?alt] Suc.hyps(2) lh by force
    have "t' ! l = t ! l" using t'(4) lh Suc.prems(4) by (auto simp: shuffled_def)
    then have "key (t' ! k) \<le> key p" if "l \<le> k" "k < m" for k
      using t'(5) c(1) that by (cases "k = l") auto
    moreover have "shuffled l h t t'" using t'(4) by (rule shuffled_mono) auto
    ultimately show ?thesis using c t' by auto
  qed
qed

text \<open>The first element equal to the pivot goes to the high end, the second to the low end.\<close>

lemma partition_loop_bounds:
  assumes "set t \<subseteq> A" "p \<in> A" "l \<le> h" "h \<le> length t" "partition_loop compare p t l h alt = Some (t', m)"
    "l \<le> k" "k < h" "key (t ! k) = key p"
  shows "0 < alt \<Longrightarrow> m < h" "alt < 0 \<Longrightarrow> l < m"
    "0 < alt \<Longrightarrow> l \<le> k' \<Longrightarrow> k' < h \<Longrightarrow> k' \<noteq> k \<Longrightarrow> key (t ! k') = key p \<Longrightarrow> l < m"
proof -
  have bounds: "l \<le> m \<and> m \<le> h" if "set t \<subseteq> A" "l \<le> h" "h \<le> length t"
    "partition_loop compare p t l h alt = Some (t', m)" for t l h alt t' m
    using partition_loop_ok [OF that(1) assms(2) that(2,3), of alt] that(4) by auto
  have main: "(0 < alt \<longrightarrow> m < h) \<and> (alt < 0 \<longrightarrow> l < m) \<and>
      (0 < alt \<longrightarrow> (\<exists>k'. l \<le> k' \<and> k' < h \<and> k' \<noteq> k \<and> key (t ! k') = key p) \<longrightarrow> l < m)"
    using assms(1,3-)
  proof (induction "h - l" arbitrary: t l h alt k)
    case (Suc n)
    then have lh: "l < h" by simp
    let ?alt = "if key (t ! l) = key p then - alt else alt"
    show ?case
    proof (rule partition_loop_step [OF Suc.prems(1) assms(2) lh Suc.prems(3), of alt])
      let ?t = "t[h - 1 := t ! l, l := t ! (h - 1)]"
      assume c: "key (t ! l) = key p \<Longrightarrow> 0 < alt"
        "partition_loop compare p t l h alt = partition_loop compare p ?t l (h - 1) ?alt"
      have A: "set ?t \<subseteq> A" using shuffled_swap [OF lh Suc.prems(3)] Suc.prems(1)
        by (metis mset_eq_setD shuffled_def)
      have pre: "n = (h - 1) - l" "l \<le> h - 1" "h - 1 \<le> length ?t" using Suc.hyps(2) lh Suc.prems(3) by simp_all
      have run: "partition_loop compare p ?t l (h - 1) ?alt = Some (t', m)" using c(2) Suc.prems(4) by simp
      have m: "m < h" using bounds [OF A pre(2,3) run] lh by linarith
      define pos where "pos i = (if i = h - 1 then l else i)" for i
      have pos: "l \<le> pos i" "pos i < h - 1" "?t ! pos i = t ! i" if "l < i" "i < h" for i
        using that Suc.prems(3) by (auto simp: pos_def nth_list_update)
      show ?thesis
      proof (cases "key (t ! l) = key p")
        case True
        have alt: "0 < alt" by (rule c(1) [OF True])
        have "l < m" if "l < i" "i < h" "key (t ! i) = key p" for i
          using Suc.hyps(1) [OF pre(1) A pre(2,3) run pos(1,2)[OF that(1,2)]] pos(3) [OF that(1,2)] that(3) True alt
          by simp
        note high = this
        have "l < m" if "l \<le> k'" "k' < h" "k' \<noteq> k" "key (t ! k') = key p" for k'
          using high [of k] high [of k'] that Suc.prems(5-7) by (cases "k = l") auto
        then show ?thesis using m alt by auto
      next
        case False
        have k: "l < k" using False Suc.prems(5,7) by (metis le_neq_implies_less)
        note IH = Suc.hyps(1) [OF pre(1) A pre(2,3) run pos(1,2)[OF k Suc.prems(6)]]
        have "alt < 0 \<longrightarrow> l < m" using IH pos(3) [OF k Suc.prems(6)] Suc.prems(7) False by simp
        moreover have "l < m" if "0 < alt" "l \<le> k'" "k' < h" "k' \<noteq> k" "key (t ! k') = key p" for k'
        proof -
          have k': "l < k'" using False that(2,5) by (metis le_neq_implies_less)
          have "pos k' \<noteq> pos k" using k k' that(4) by (auto simp: pos_def)
          then show ?thesis
            using IH pos [OF k' that(3)] pos(3) [OF k Suc.prems(6)] Suc.prems(7) False that(1,5) by fastforce
        qed
        ultimately show ?thesis using m by blast
      qed
    next
      assume c: "key (t ! l) = key p \<Longrightarrow> alt \<le> 0"
        "partition_loop compare p t l h alt = partition_loop compare p t (l + 1) h ?alt"
      have run: "partition_loop compare p t (l + 1) h ?alt = Some (t', m)" using c(2) Suc.prems(4) by simp
      have pre: "n = h - (l + 1)" "l + 1 \<le> h" using Suc.hyps(2) lh by simp_all
      have m: "l < m" using bounds [OF Suc.prems(1) pre(2) Suc.prems(3) run] by simp
      have "m < h" if alt: "0 < alt"
      proof -
        have "key (t ! l) \<noteq> key p" using c(1) alt by force
        moreover have "l + 1 \<le> k" using calculation Suc.prems(5,7) by (metis Suc_eq_plus1 le_neq_implies_less less_eq_Suc_le)
        ultimately show ?thesis
          using Suc.hyps(1) [OF pre(1) Suc.prems(1) pre(2) Suc.prems(3) run _ Suc.prems(6,7)] alt by simp
      qed
      then show ?thesis using m by blast
    qed
  qed simp
  show "0 < alt \<Longrightarrow> m < h" "alt < 0 \<Longrightarrow> l < m" using main by blast+
  show "0 < alt \<Longrightarrow> l \<le> k' \<Longrightarrow> k' < h \<Longrightarrow> k' \<noteq> k \<Longrightarrow> key (t ! k') = key p \<Longrightarrow> l < m" using main by blast
qed

text \<open>When no element goes to the low end, the part is rotated.\<close>

lemma partition_loop_rotates:
  assumes "set t \<subseteq> A" "p \<in> A" "l \<le> h" "h \<le> length t" "partition_loop compare p t l h alt = Some (t', l)" "l < h"
  shows "t' ! (h - 1) = t ! l \<and> (\<forall>k. l \<le> k \<and> k < h - 1 \<longrightarrow> t' ! k = t ! (k + 1))"
  using assms(1,3-)
proof (induction "h - l" arbitrary: t h alt)
  case (Suc n)
  let ?alt = "if key (t ! l) = key p then - alt else alt"
  show ?case
  proof (rule partition_loop_step [OF Suc.prems(1) assms(2) Suc.prems(5,3), of alt])
    let ?t = "t[h - 1 := t ! l, l := t ! (h - 1)]"
    assume c: "partition_loop compare p t l h alt = partition_loop compare p ?t l (h - 1) ?alt"
    have A: "set ?t \<subseteq> A" using shuffled_swap [OF Suc.prems(5,3)] Suc.prems(1)
      by (metis mset_eq_setD shuffled_def)
    have pre: "n = (h - 1) - l" "l \<le> h - 1" "h - 1 \<le> length ?t" using Suc.hyps(2) Suc.prems(3,5) by simp_all
    have run: "partition_loop compare p ?t l (h - 1) ?alt = Some (t', l)" using c Suc.prems(4) by simp
    have s: "shuffled l (h - 1) ?t t'"
      using partition_loop_ok [OF A assms(2) pre(2,3), of ?alt] run by auto
    have last: "t' ! (h - 1) = t ! l" using s Suc.prems(3,5) by (auto simp: shuffled_def nth_list_update)
    show ?case
    proof (cases "l < h - 1")
      case True
      note IH = Suc.hyps(1) [OF pre(1) A pre(2,3) run True]
      have "t' ! k = t ! (k + 1)" if k: "l \<le> k" "k < h - 1" for k
      proof (cases "k = h - 1 - 1")
        case True
        then have "k + 1 = h - 1" using \<open>l < h - 1\<close> by linarith
        then show ?thesis using IH Suc.prems(3,5) True by (simp add: nth_list_update)
      next
        case False
        then have "t' ! k = ?t ! (k + 1)" using IH k by simp
        then show ?thesis using False k Suc.prems(3,5) by (simp add: nth_list_update)
      qed
      then show ?thesis using last by blast
    next
      case False
      then show ?thesis using last by (meson order_le_less_trans)
    qed
  next
    assume "partition_loop compare p t l h alt = partition_loop compare p t (l + 1) h ?alt"
    then have "l + 1 \<le> l"
      using partition_loop_ok [OF Suc.prems(1) assms(2) _ Suc.prems(3), of "l + 1" ?alt] Suc.prems(4,5) by auto
    then show ?case by simp
  qed
qed simp

subsection \<open>Quicksort\<close>

lemma partition_tab_progress:
  assumes "set t \<subseteq> A" "l + 2 \<le> h" "h \<le> length t"
  obtains t' m where "partition_tab compare t l h = Some (t', m)" "l \<le> m" "m < h" "shuffled l h t t'"
    "\<forall>i j. l \<le> i \<and> i < m \<and> m \<le> j \<and> j < h \<longrightarrow> key (t' ! i) \<le> key (t' ! j)"
    "m = l \<Longrightarrow> (\<exists>k. l \<le> k \<and> k < h \<and> key (t' ! k) < key (t' ! ((l + h) div 2)))"
    "(\<exists>k. l \<le> k \<and> k < h \<and> key (t ! k) < key (t ! ((l + h) div 2))) \<Longrightarrow> l < m"
proof -
  let ?q = "(l + h) div 2" and ?p = "t ! ((l + h) div 2)"
  have q: "l < ?q" "?q < h" "?q < length t" using assms(2,3) by auto
  have p: "?p \<in> A" using assms(1) q(3) by auto
  have lh: "l \<le> h" "l < h" using assms(2) by simp_all
  obtain t' m where t': "partition_loop compare ?p t l h 1 = Some (t', m)" "l \<le> m" "m \<le> h" "shuffled l h t t'"
    "\<forall>k. l \<le> k \<and> k < m \<longrightarrow> key (t' ! k) \<le> key ?p" "\<forall>k. m \<le> k \<and> k < h \<longrightarrow> key ?p \<le> key (t' ! k)"
    using partition_loop_ok [OF assms(1) p lh(1) assms(3), of 1] by blast
  have len: "length t' = length t" using t'(4) by (simp add: shuffled_def)
  have h': "h \<le> length t'" using len assms(3) by simp
  note bounds = partition_loop_bounds [OF assms(1) p lh(1) assms(3) t'(1) _ q(2) refl]
  show thesis
  proof (rule that [of t' m])
    show "partition_tab compare t l h = Some (t', m)"
      using t'(1) q(3) by (simp add: partition_tab_def buf_simps)
    show "m < h" using bounds(1) q by simp
    show "\<forall>i j. l \<le> i \<and> i < m \<and> m \<le> j \<and> j < h \<longrightarrow> key (t' ! i) \<le> key (t' ! j)"
      using t'(2,5,6) by (meson order_trans)
    show "l < m" if ex: "\<exists>k. l \<le> k \<and> k < h \<and> key (t ! k) < key ?p"
    proof (rule ccontr)
      assume "\<not> l < m"
      obtain k where k: "l \<le> k" "k < h" "key (t ! k) < key ?p" using ex by blast
      obtain j where j: "l \<le> j" "j < h" "t' ! j = t ! k"
        using shuffled_in [OF shuffled_sym [OF t'(4)] h' k(1,2)] by blast
      have "m \<le> j" using j(1) \<open>\<not> l < m\<close> by simp
      then have "key ?p \<le> key (t' ! j)" using t'(6) j(2) by blast
      then show False using k(3) j(3) by simp
    qed
    show "\<exists>k. l \<le> k \<and> k < h \<and> key (t' ! k) < key (t' ! ?q)" if ml: "m = l"
    proof -
      have run: "partition_loop compare ?p t l h 1 = Some (t', l)" using t'(1) ml by simp
      note rot = partition_loop_rotates [OF assms(1) p lh(1) assms(3) run lh(2)]
      obtain i where i: "l \<le> i" "i < h" "i \<noteq> ?q" "t' ! ?q = t ! i"
      proof (cases "?q = h - 1")
        case True
        then show thesis using that [of l] rot q lh by auto
      next
        case False
        then show thesis using that [of "?q + 1"] rot q by auto
      qed
      have "key (t ! i) \<noteq> key ?p" using bounds(3) [OF less_imp_le [OF q(1)] zero_less_one i(1,2,3)] ml by auto
      moreover have "key ?p \<le> key (t' ! ?q)" using t'(6) ml q by auto
      ultimately have less: "key ?p < key (t' ! ?q)" using i(4) by simp
      obtain j where "l \<le> j" "j < h" "t' ! j = ?p"
        using shuffled_in [OF shuffled_sym [OF t'(4)], of ?q] t'(4) assms(3) q by (auto simp: shuffled_def)
      then show ?thesis using less by auto
    qed
  qed (use t' in auto)
qed

definition sorted_part :: "nat \<Rightarrow> nat \<Rightarrow> 'a list \<Rightarrow> bool" where
  "sorted_part l h t \<longleftrightarrow> (\<forall>i j. l \<le> i \<and> i < j \<and> j < h \<longrightarrow> key (t ! i) \<le> key (t ! j))"

text \<open>A pass that leaves both parts smaller.\<close>

lemma sorttable_pass:
  assumes IH: "\<And>t l' h'. h' - l' < h - l \<Longrightarrow> set t \<subseteq> A \<Longrightarrow> l' \<le> h' \<Longrightarrow> h' \<le> length t \<Longrightarrow>
      \<exists>t'. sorttable compare t l' h' = Some t' \<and> shuffled l' h' t t' \<and> sorted_part l' h' t'"
    and t: "set t \<subseteq> A" "l + 2 \<le> h" "h \<le> length t"
    and part: "partition_tab compare t l h = Some (t1, m)" "l < m" "m < h" "shuffled l h t t1"
      "\<forall>i j. l \<le> i \<and> i < m \<and> m \<le> j \<and> j < h \<longrightarrow> key (t1 ! i) \<le> key (t1 ! j)"
  shows "\<exists>t'. sorttable compare t l h = Some t' \<and> shuffled l h t t' \<and> sorted_part l h t'"
proof -
  have set_eq: "set t' = set t" if "shuffled l h t t'" for l h and t t' :: "'a list"
    using that by (metis mset_eq_setD shuffled_def)
  have len: "length t' = length t" if "shuffled l h t t'" for l h and t t' :: "'a list"
    using that by (simp add: shuffled_def)
  have d: "m - l < h - l" "h - m < h - l" using part(2,3) by linarith+
  have t1: "set t1 \<subseteq> A" "m \<le> length t1" "l \<le> m" "m \<le> h"
    using part t set_eq [OF part(4)] len [OF part(4)] by simp_all
  obtain t2 where t2: "sorttable compare t1 l m = Some t2" "shuffled l m t1 t2" "sorted_part l m t2"
    using IH [OF d(1) t1(1) t1(3,2)] by blast
  have t2': "set t2 \<subseteq> A" "h \<le> length t2"
    using t1 t(3) set_eq [OF t2(2)] len [OF t2(2)] len [OF part(4)] by simp_all
  obtain t3 where t3: "sorttable compare t2 m h = Some t3" "shuffled m h t2 t3" "sorted_part m h t3"
    using IH [OF d(2) t2'(1) t1(4) t2'(2)] by blast
  have low: "t3 ! i = t2 ! i" if "i < m" for i
    using t3(2) that part(3) t(3) len [OF part(4)] len [OF t2(2)] by (auto simp: shuffled_def)
  have high: "t2 ! i = t1 ! i" if "m \<le> i" "i < h" for i
    using t2(2) that t(3) len [OF part(4)] by (auto simp: shuffled_def)
  have "key (t3 ! i) \<le> key (t3 ! j)" if ij: "l \<le> i" "i < j" "j < h" for i j
  proof -
    consider "j < m" | "m \<le> i" | "i < m" "m \<le> j" by linarith
    then show ?thesis
    proof cases
      case 1
      then show ?thesis using t2(3) ij low by (auto simp: sorted_part_def)
    next
      case 2
      then show ?thesis using t3(3) ij by (auto simp: sorted_part_def)
    next
      case 3
      obtain i' where i': "l \<le> i'" "i' < m" "t1 ! i' = t2 ! i"
        using shuffled_in [OF t2(2) _ ij(1) 3(1)] part(3) t(3) len [OF part(4)] by auto
      obtain j' where j': "m \<le> j'" "j' < h" "t2 ! j' = t3 ! j"
        using shuffled_in [OF t3(2) _ 3(2) ij(3)] t(3) len [OF part(4)] len [OF t2(2)] by auto
      show ?thesis using part(5) i' j' high [OF j'(1,2)] low [OF 3(1)] by metis
    qed
  qed
  then have "sorted_part l h t3" by (auto simp: sorted_part_def)
  moreover have "shuffled l h t t3"
    using part(2-4) t2(2) t3(2) by (meson less_imp_le order_refl shuffled_mono shuffled_trans)
  moreover have "sorttable compare t l h = Some t3"
    using t(2) part(1) t2(1) t3(1) by (subst sorttable.simps) auto
  ultimately show ?thesis by blast
qed

lemma sorttable_ok:
  assumes "set t \<subseteq> A" "l \<le> h" "h \<le> length t"
  shows "\<exists>t'. sorttable compare t l h = Some t' \<and> shuffled l h t t' \<and> sorted_part l h t'"
  using assms
proof (induction "h - l" arbitrary: t l h rule: less_induct)
  case less
  note IH = less.hyps
  consider "h = l" | "h = l + 1" | "l + 2 \<le> h" using less.prems(2) by linarith
  then show ?case
  proof cases
    case 1
    then show ?thesis by (subst sorttable.simps) (auto simp: sorted_part_def)
  next
    case 2
    then have q: "(l + h) div 2 = l" "l < length t" using less.prems by auto
    have p: "t ! l \<in> A" using less.prems(1) q by auto
    obtain t' m where "partition_loop compare (t ! l) t l h 1 = Some (t', m)" "shuffled l h t t'"
      using partition_loop_ok [OF less.prems(1) p less.prems(2,3), of 1] by blast
    then show ?thesis using 2 q
      by (subst sorttable.simps) (auto simp: partition_tab_def buf_simps sorted_part_def)
  next
    case 3
    obtain t1 m where 1: "partition_tab compare t l h = Some (t1, m)" "l \<le> m" "m < h" "shuffled l h t t1"
      "\<forall>i j. l \<le> i \<and> i < m \<and> m \<le> j \<and> j < h \<longrightarrow> key (t1 ! i) \<le> key (t1 ! j)"
      "m = l \<Longrightarrow> (\<exists>k. l \<le> k \<and> k < h \<and> key (t1 ! k) < key (t1 ! ((l + h) div 2)))"
      by (rule partition_tab_progress [OF less.prems(1) 3 less.prems(3)]) blast
    show ?thesis
    proof (cases "l < m")
      case True
      show ?thesis by (rule sorttable_pass [OF IH less.prems(1) 3 less.prems(3) 1(1) True 1(3-5)])
    next
      case False
      then have ml: "m = l" using 1(2) by simp
      have t1: "set t1 \<subseteq> A" "h \<le> length t1"
        using 1(4) less.prems by (auto simp: shuffled_def dest: mset_eq_setD)
      obtain t2 m2 where 2: "partition_tab compare t1 l h = Some (t2, m2)" "m2 < h" "shuffled l h t1 t2"
        "\<forall>i j. l \<le> i \<and> i < m2 \<and> m2 \<le> j \<and> j < h \<longrightarrow> key (t2 ! i) \<le> key (t2 ! j)" "l < m2"
        by (rule partition_tab_progress [OF t1(1) 3 t1(2)]) (use 1(6) [OF ml] in blast)
      obtain t3 where t3: "sorttable compare t1 l h = Some t3" "shuffled l h t1 t3" "sorted_part l h t3"
        using sorttable_pass [OF IH t1(1) 3 t1(2) 2(1,5,2,3,4)] by blast
      have "sorttable compare t1 l l = Some t1" by (subst sorttable.simps) simp
      then have "sorttable compare t l h = Some t3"
        using 3 1(1) ml t3(1) by (subst sorttable.simps) auto
      then show ?thesis using t3 1(4) shuffled_trans by blast
    qed
  qed
qed

end
end
