(* ===== verification/Grades_Roster.thy ===== *)
theory Grades_Roster
  imports Grades_Quicksort
begin

text \<open>
  Sorting linked rosters (hw2/src/sort.c): the table is filled, sorted and linked again. The two
  links of a student are instances of the locale \<open>link\<close>, the three comparisons instances of
  \<open>keyed\<close>; the sorted rosters of a course in the locale \<open>roster_order\<close>, again for the three
  comparisons, and the search for duplicate names.
\<close>

subsection \<open>Relinking\<close>

text \<open>\<open>h'\<close> differs from \<open>h\<close> in the links of the students \<open>A\<close> only.\<close>

definition relinked :: "(ptr \<Rightarrow> student \<Rightarrow> student) \<Rightarrow> nat set \<Rightarrow> students \<Rightarrow> students \<Rightarrow> bool" where
  "relinked upd A h h' \<longleftrightarrow>
     (\<forall>a. a \<notin> A \<longrightarrow> h' a = h a) \<and> (\<forall>a \<in> A. \<exists>x n. h a = Some x \<and> h' a = Some (upd n x))"

text \<open>The accessor and the setter of one link of a student.\<close>

locale link =
  fixes gtnxt :: get_link and stnxt :: set_link and g :: "student \<Rightarrow> ptr" and upd :: "ptr \<Rightarrow> student \<Rightarrow> student"
  assumes get: "h a = Some x \<Longrightarrow> gtnxt h (Some a) = Some (g x)"
    and set: "h a = Some x \<Longrightarrow> stnxt h a n = Some (h(a \<mapsto> upd n x))"
    and g_upd: "g (upd n x) = n"
begin

lemma count_loop_chain: "chain h g p as \<Longrightarrow> count_loop gtnxt h p n = Some (n + length as)"
proof (induction as arbitrary: p n)
  case Nil
  then show ?case by (subst count_loop.simps) simp
next
  case (Cons a as)
  then obtain x where x: "p = Some a" "h a = Some x" "chain h g (g x) as" by auto
  then show ?case using Cons.IH [OF x(3)] by (subst count_loop.simps) (simp add: get)
qed

lemma fill_loop_chain:
  "chain h g p as \<Longrightarrow> length as = i \<Longrightarrow> i \<le> length stab \<Longrightarrow>
   fill_loop gtnxt h p i stab = Some (rev as @ drop i stab)"
proof (induction as arbitrary: p i stab)
  case (Cons a as)
  then obtain x where x: "p = Some a" "h a = Some x" "chain h g (g x) as" by auto
  have i: "i = Suc (length as)" using Cons.prems by simp
  have "fill_loop gtnxt h (g x) (length as) (stab[length as := a]) = Some (rev as @ drop (length as) (stab[length as := a]))"
    using Cons.IH [OF x(3)] Cons.prems by simp
  moreover have "drop (length as) (stab[length as := a]) = a # drop i stab"
    using Cons.prems by (simp add: drop_update_swap i Cons_nth_drop_Suc [symmetric])
  ultimately show ?case using x i Cons.prems by (simp add: get buf_simps)
qed simp

fun relink :: "students \<Rightarrow> nat \<Rightarrow> nat list \<Rightarrow> (students \<times> nat) option" where
  "relink h p [] = Some (h, p)"
| "relink h p (a # as) = do { h \<leftarrow> stnxt h p (Some a); relink h a as }"

lemma relink_loop_relink: "n = length stab \<Longrightarrow> relink_loop stnxt stab n h p i = relink h p (drop i stab)"
proof (induction "n - i" arbitrary: h p i)
  case 0
  then show ?case by (subst relink_loop.simps) simp
next
  case (Suc m)
  then have "i < length stab" "drop i stab = stab ! i # drop (Suc i) stab" by (simp_all add: Cons_nth_drop_Suc)
  then show ?case using Suc by (subst relink_loop.simps) (simp add: buf_simps)
qed

lemma relink_chain:
  "distinct (p # as) \<Longrightarrow> \<forall>a \<in> set (p # as). h a \<noteq> None \<Longrightarrow>
   \<exists>h1 l h'. relink h p as = Some (h1, l) \<and> stnxt h1 l None = Some h' \<and> chain h' g (Some p) (p # as) \<and>
     relinked upd (set (p # as)) h h'"
proof (induction as arbitrary: p h)
  case Nil
  then obtain x where "h p = Some x" by auto
  then show ?case by (auto simp: set g_upd relinked_def)
next
  case (Cons a as)
  obtain x where x: "h p = Some x" using Cons.prems by auto
  let ?h = "h(p \<mapsto> upd (Some a) x)"
  have d: "distinct (a # as)" "\<forall>b \<in> set (a # as). ?h b \<noteq> None" using Cons.prems by auto
  obtain h1 l h' where *: "relink ?h a as = Some (h1, l)" "stnxt h1 l None = Some h'"
    "chain h' g (Some a) (a # as)" "relinked upd (set (a # as)) ?h h'"
    using Cons.IH [OF d] by blast
  have p: "h' p = Some (upd (Some a) x)" using *(4) Cons.prems(1) by (auto simp: relinked_def)
  have "\<exists>y n. h b = Some y \<and> h' b = Some (upd n y)" if "b \<in> set (a # as)" for b
    using *(4) that Cons.prems(1) unfolding relinked_def
    by (metis distinct.simps(2) fun_upd_other)
  then have "relinked upd (set (p # a # as)) h h'"
    using *(4) p x by (auto simp: relinked_def)
  moreover have "chain h' g (Some p) (p # a # as)" using *(3) p by (simp add: g_upd)
  moreover have "relink h p (a # as) = Some (h1, l)" using *(1) x by (simp add: set)
  ultimately show ?case using *(2) by blast
qed

theorem sortroster_ok:
  assumes "keyed (compare h) key A" "chain h g s as" "set as \<subseteq> A"
  shows "\<exists>h' p bs. sortroster gtnxt stnxt compare h s = Some (h', p) \<and> chain h' g p bs \<and> mset bs = mset as \<and>
    sorted (map key bs) \<and> relinked upd (set as) h h'"
proof (cases as)
  case Nil
  then show ?thesis using assms(2) count_loop_chain [OF assms(2), of 0]
    by (auto simp: sortroster_def relinked_def intro!: exI [of _ "[]"])
next
  case (Cons a as')
  let ?n = "length as"
  note sort = keyed.sorttable_ok [OF assms(1), of "rev as" 0 ?n]
  obtain t where t: "sorttable (compare h) (rev as) 0 ?n = Some t" "shuffled 0 ?n (rev as) t"
    "keyed.sorted_part key 0 ?n t"
    using sort assms(3) by auto
  have len: "length t = ?n" and m: "mset t = mset as" using t(2) by (simp_all add: shuffled_def)
  obtain b bs where td: "t = b # bs" using len Cons by (cases t) auto
  have d: "distinct (b # bs)" "\<forall>a \<in> set (b # bs). h a \<noteq> None"
    using chain_distinct [OF assms(2)] chain_dom [OF assms(2)] m unfolding td
    by (metis mset_eq_imp_distinct_iff, metis mset_eq_setD)
  obtain h1 l h' where *: "relink h b bs = Some (h1, l)" "stnxt h1 l None = Some h'"
    "chain h' g (Some b) t" "relinked upd (set t) h h'"
    using relink_chain [OF d] td by blast
  have "sorted (map key t)"
    using t(3) len unfolding keyed.sorted_part_def [OF assms(1)] by (simp add: sorted_iff_nth_mono_less)
  moreover have "fill_loop gtnxt h s ?n (replicate ?n 0) = Some (rev as)"
    using fill_loop_chain [OF assms(2) refl, of "replicate ?n 0"] by simp
  then have "sortroster gtnxt stnxt compare h s = Some (h', Some b)"
    using count_loop_chain [OF assms(2), of 0] Cons t(1) *(1,2) len td
    by (simp add: sortroster_def relink_loop_relink buf_simps)
  ultimately show ?thesis using *(3,4) m by (metis mset_eq_setD)
qed

end

interpretation section_link: link getnext setnext st_next "\<lambda>n x. x\<lparr>st_next := n\<rparr>"
  by unfold_locales (auto simp: getnext_def setnext_def deref_def)

interpretation course_link: link getcnext setcnext st_cnext "\<lambda>n x. x\<lparr>st_cnext := n\<rparr>"
  by unfold_locales (auto simp: getcnext_def setcnext_def deref_def)

subsection \<open>The comparisons\<close>

definition name_key :: "students \<Rightarrow> nat \<Rightarrow> cstr \<times> cstr" where
  "name_key h a = (case h a of None \<Rightarrow> ([], []) | Some x \<Rightarrow> (st_surname x, st_name x))"

definition id_key :: "students \<Rightarrow> nat \<Rightarrow> cstr" where
  "id_key h a = (case h a of None \<Rightarrow> [] | Some x \<Rightarrow> st_id x)"

text \<open>Higher scores come first.\<close>

definition score_key :: "students \<Rightarrow> nat \<Rightarrow> int \<times> rat" where
  "score_key h a = (case h a of None \<Rightarrow> (0, 0) | Some x \<Rightarrow>
     (case rank (st_composite x) of (i, r) \<Rightarrow> (- i, - r)))"

definition scored :: "students \<Rightarrow> nat set" where
  "scored h = {a. \<exists>x. h a = Some x \<and> st_composite x \<noteq> NaN}"

interpretation by_name: keyed "comparename h" "name_key h" "dom h" for h
  by unfold_locales
    (auto simp: comparename_def name_key_def Let_def strcmp_eq strcmp_less less_prod_def' split: if_splits)

interpretation by_id: keyed "compareid h" "id_key h" "dom h" for h
  by unfold_locales (auto simp: compareid_def id_key_def strcmp_eq strcmp_less)

lemma f_less_rank: "x \<noteq> NaN \<Longrightarrow> y \<noteq> NaN \<Longrightarrow> f_less x y \<longleftrightarrow> rank x < rank y"
  by (cases x; cases y) auto

interpretation by_score: keyed "comparescore h" "score_key h" "scored h" for h
proof unfold_locales
  fix a b assume "a \<in> scored h" "b \<in> scored h"
  then obtain x y where x: "h a = Some x" "st_composite x \<noteq> NaN" and y: "h b = Some y" "st_composite y \<noteq> NaN"
    by (auto simp: scored_def)
  have neg: "(case rank v of (i, r) \<Rightarrow> (- i, - r)) < (case rank w of (i, r) \<Rightarrow> (- i, - r)) \<longleftrightarrow> rank w < rank v"
    for v w by (cases "rank v"; cases "rank w") auto
  have eq: "(case rank v of (i, r) \<Rightarrow> (- i, - r)) = (case rank w of (i, r) \<Rightarrow> (- i, - r)) \<longleftrightarrow> rank w = rank v"
    for v w by (cases "rank v"; cases "rank w") auto
  show "\<exists>c. comparescore h a b = Some c \<and> (c < 0 \<longleftrightarrow> score_key h a < score_key h b) \<and>
      (c = 0 \<longleftrightarrow> score_key h a = score_key h b)"
    using x y by (auto simp: comparescore_def score_key_def f_less_rank neg eq)
qed

subsection \<open>Sorting a course\<close>

lemma relinked_chain:
  assumes "relinked upd A h h'" "\<And>n x. g (upd n x) = g x" "chain h g p as"
  shows "chain h' g p as"
proof (rule chain_cong [OF _ assms(3)])
  fix a assume "a \<in> set as"
  then obtain x where "h a = Some x" using chain_dom [OF assms(3)] by blast
  then show "\<exists>x y. h a = Some x \<and> h' a = Some y \<and> g y = g x"
    using assms(1,2) by (cases "a \<in> A") (auto simp: relinked_def)
qed

lemma relinked_disjoint:
  assumes "relinked upd A h h'" "A \<inter> set as = {}" "chain h g p as"
  shows "chain h' g p as"
proof (rule chain_cong [OF _ assms(3)])
  fix a assume a: "a \<in> set as"
  then obtain x where "h a = Some x" using chain_dom [OF assms(3)] by blast
  moreover have "h' a = h a" using assms(1,2) a by (auto simp: relinked_def)
  ultimately show "\<exists>x y. h a = Some x \<and> h' a = Some y \<and> g y = g x" by simp
qed

text \<open>Sorting moves links and nothing else.\<close>

definition unlinked :: "student \<Rightarrow> student" where
  "unlinked x = x\<lparr>st_next := None, st_cnext := None\<rparr>"

definition same_data :: "students \<Rightarrow> students \<Rightarrow> bool" where
  "same_data h h' \<longleftrightarrow> (\<forall>a. map_option unlinked (h' a) = map_option unlinked (h a))"

lemma same_data_refl [simp]: "same_data h h"
  by (simp add: same_data_def)

lemma same_data_trans: "same_data h h' \<Longrightarrow> same_data h' h'' \<Longrightarrow> same_data h h''"
  by (simp add: same_data_def)

lemma same_data_get: "same_data h h' \<Longrightarrow> h a = Some x \<Longrightarrow> \<exists>y. h' a = Some y \<and> unlinked y = unlinked x"
proof -
  assume "same_data h h'" "h a = Some x"
  then have "map_option unlinked (h' a) = Some (unlinked x)" by (simp add: same_data_def)
  then show ?thesis by auto
qed

lemma unlinked_eq: "unlinked y = unlinked x \<Longrightarrow> st_surname y = st_surname x \<and> st_name y = st_name x \<and>
    st_id y = st_id x \<and> st_composite y = st_composite x \<and> st_rawscores y = st_rawscores x \<and>
    st_normscores y = st_normscores x \<and> st_section y = st_section x"
  by (cases x; cases y) (simp add: unlinked_def)

lemma relinked_same_data:
  assumes "relinked upd A h h'" "\<And>n x. unlinked (upd n x) = unlinked x"
  shows "same_data h h'"
  unfolding same_data_def
proof
  fix a show "map_option unlinked (h' a) = map_option unlinked (h a)"
    using assms by (cases "a \<in> A") (auto simp: relinked_def)
qed

lemma unlinked_updates [simp]: "unlinked (x\<lparr>st_next := n\<rparr>) = unlinked x" "unlinked (x\<lparr>st_cnext := n\<rparr>) = unlinked x"
  by (simp_all add: unlinked_def)

text \<open>A comparison of students by a key that does not depend on their links.\<close>

locale roster_order =
  fixes compare :: "students \<Rightarrow> nat comparison" and key :: "students \<Rightarrow> nat \<Rightarrow> 'k :: linorder"
    and good :: "students \<Rightarrow> nat set"
  assumes keyed: "keyed (compare h) (key h) (good h)"
    and good: "good h \<subseteq> dom h"
    and key_data: "same_data h h' \<Longrightarrow> key h' = key h"
    and good_data: "same_data h h' \<Longrightarrow> good h \<subseteq> good h'"
begin

lemmas course_sorted = course_link.sortroster_ok [of compare _ "key _" "good _", OF keyed]
lemmas section_sorted = section_link.sortroster_ok [of compare _ "key _" "good _", OF keyed]

lemma sort_sections_ok:
  assumes "list_all2 (chain h st_next) rs ass" "distinct (concat ass)" "set (concat ass) \<subseteq> good h"
  shows "\<exists>h' ps bss. sort_sections compare h rs = Some (h', ps) \<and> list_all2 (chain h' st_next) ps bss \<and>
    list_all2 (\<lambda>as bs. mset bs = mset as \<and> sorted (map (key h) bs)) ass bss \<and>
    (\<exists>A. relinked (\<lambda>n x. x\<lparr>st_next := n\<rparr>) A h h' \<and> A \<subseteq> set (concat ass))"
  using assms
proof (induction ass arbitrary: h rs rule: list.induct)
  case Nil
  from Nil.prems(1) have "rs = []" by simp
  then have "sort_sections compare h rs = Some (h, [])" by simp
  moreover have "relinked (\<lambda>n x. x\<lparr>st_next := n\<rparr>) {} h h" by (simp add: relinked_def)
  ultimately show ?case by auto
next
  case (Cons as ass)
  let ?u = "\<lambda>n (x :: student). x\<lparr>st_next := n\<rparr>"
  obtain r rs' where rs: "rs = r # rs'" "chain h st_next r as" "list_all2 (chain h st_next) rs' ass"
    using Cons.prems(1) by (auto simp: list_all2_Cons2)
  have g: "set as \<subseteq> good h" "set (concat ass) \<subseteq> good h" using Cons.prems(3) by auto
  obtain h1 p bs where 1: "sortroster getnext setnext compare h r = Some (h1, p)" "chain h1 st_next p bs"
    "mset bs = mset as" "sorted (map (key h) bs)" "relinked ?u (set as) h h1"
    using section_sorted [OF rs(2) g(1)] by blast
  have sd: "same_data h h1" by (rule relinked_same_data [OF 1(5)]) simp
  have disj: "set as \<inter> set bs' = {}" if "bs' \<in> set ass" for bs' using Cons.prems(2) that by auto
  have d': "distinct (concat ass)" "set (concat ass) \<subseteq> good h1" using Cons.prems(2) g(2) good_data [OF sd] by auto
  have c1: "list_all2 (chain h1 st_next) rs' ass"
    using rs(3) disj relinked_disjoint [OF 1(5)] by (simp add: list_all2_conv_all_nth)
  obtain h2 ps bss A where 2: "sort_sections compare h1 rs' = Some (h2, ps)"
    "list_all2 (chain h2 st_next) ps bss"
    "list_all2 (\<lambda>as bs. mset bs = mset as \<and> sorted (map (key h1) bs)) ass bss"
    "relinked ?u A h1 h2" "A \<subseteq> set (concat ass)"
    using Cons.IH [OF c1 d'] by blast
  have "A \<inter> set bs = {}" using 2(5) Cons.prems(2) mset_eq_setD [OF 1(3)] by auto
  then have "chain h2 st_next p bs" using relinked_disjoint [OF 2(4) _ 1(2)] by blast
  moreover have "relinked ?u (set as \<union> A) h h2"
    using 1(5) 2(4,5) Cons.prems(2) unfolding relinked_def by (auto 4 4)
  ultimately show ?case using rs(1) 1 2 key_data [OF sd] by (auto intro!: exI)
qed

lemma sortrosters_ok:
  assumes "chain h st_cnext roster as" "list_all2 (chain h st_next) sections ass" "distinct (concat ass)"
    "set as \<subseteq> good h" "set (concat ass) \<subseteq> good h"
  shows "\<exists>h' p ps bs bss. sortrosters compare h roster sections = Some (h', p, ps) \<and>
    chain h' st_cnext p bs \<and> mset bs = mset as \<and> sorted (map (key h') bs) \<and>
    list_all2 (chain h' st_next) ps bss \<and>
    list_all2 (\<lambda>as bs. mset bs = mset as \<and> sorted (map (key h') bs)) ass bss \<and> same_data h h'"
proof -
  obtain h1 p bs where 1: "sortroster getcnext setcnext compare h roster = Some (h1, p)" "chain h1 st_cnext p bs"
    "mset bs = mset as" "sorted (map (key h) bs)" "relinked (\<lambda>n x. x\<lparr>st_cnext := n\<rparr>) (set as) h h1"
    using course_sorted [OF assms(1,4)] by blast
  have s1: "same_data h h1" by (rule relinked_same_data [OF 1(5)]) simp
  have "list_all2 (chain h1 st_next) sections ass"
    using assms(2) relinked_chain [OF 1(5)] by (simp add: list_all2_conv_all_nth)
  then obtain h2 ps bss A where 2: "sort_sections compare h1 sections = Some (h2, ps)"
    "list_all2 (chain h2 st_next) ps bss"
    "list_all2 (\<lambda>as bs. mset bs = mset as \<and> sorted (map (key h1) bs)) ass bss"
    "relinked (\<lambda>n x. x\<lparr>st_next := n\<rparr>) A h1 h2"
    using sort_sections_ok [OF _ assms(3), of h1 sections] assms(5) good_data [OF s1] by blast
  have s2: "same_data h1 h2" by (rule relinked_same_data [OF 2(4)]) simp
  have "key h1 = key h" "key h2 = key h1" using key_data [OF s1] key_data [OF s2] by simp_all
  moreover have "chain h2 st_cnext p bs" using relinked_chain [OF 2(4) _ 1(2)] by simp
  ultimately show ?thesis using 1 2 same_data_trans [OF s1 s2] by (auto simp: sortrosters_def)
qed

end

lemma same_data_None: "same_data h h' \<Longrightarrow> h a = None \<Longrightarrow> h' a = None"
  unfolding same_data_def by (metis map_option_is_None)

lemma same_data_dom: "same_data h h' \<Longrightarrow> dom h' = dom h"
proof -
  assume s: "same_data h h'"
  have "h' a = None \<longleftrightarrow> h a = None" for a
    using same_data_None [OF s, of a] same_data_get [OF s, of a] by (cases "h a") auto
  then show ?thesis by (simp add: dom_def del: not_None_eq)
qed

text \<open>Keys that are computed from the data of a student.\<close>

lemma same_data_key:
  assumes "same_data h h'" "\<And>x y. unlinked y = unlinked x \<Longrightarrow> f y = f x"
  shows "(case h' a of None \<Rightarrow> d | Some x \<Rightarrow> f x) = (case h a of None \<Rightarrow> d | Some x \<Rightarrow> f x)"
proof (cases "h a")
  case None
  then show ?thesis using same_data_None [OF assms(1)] by simp
next
  case (Some x)
  then obtain y where y: "h' a = Some y" "unlinked y = unlinked x" using same_data_get [OF assms(1)] by blast
  from assms(2) [OF y(2)] show ?thesis by (simp add: Some y(1))
qed

lemma name_key_data: "same_data h h' \<Longrightarrow> name_key h' = name_key h"
proof
  fix a assume s: "same_data h h'"
  show "name_key h' a = name_key h a" unfolding name_key_def
  proof (rule same_data_key [OF s])
    fix x y :: student assume "unlinked y = unlinked x"
    from unlinked_eq [OF this] show "(st_surname y, st_name y) = (st_surname x, st_name x)" by simp
  qed
qed

lemma id_key_data: "same_data h h' \<Longrightarrow> id_key h' = id_key h"
proof
  fix a assume s: "same_data h h'"
  show "id_key h' a = id_key h a" unfolding id_key_def
  proof (rule same_data_key [OF s])
    fix x y :: student assume "unlinked y = unlinked x"
    from unlinked_eq [OF this] show "st_id y = st_id x" by simp
  qed
qed

lemma score_key_data: "same_data h h' \<Longrightarrow> score_key h' = score_key h"
proof
  fix a assume s: "same_data h h'"
  show "score_key h' a = score_key h a" unfolding score_key_def
  proof (rule same_data_key [OF s])
    fix x y :: student assume "unlinked y = unlinked x"
    from unlinked_eq [OF this] show "(case rank (st_composite y) of (i, r) \<Rightarrow> (- i, - r)) = (case rank (st_composite x) of (i, r) \<Rightarrow> (- i, - r))" by simp
  qed
qed

lemma scored_dom: "scored h \<subseteq> dom h"
  by (auto simp: scored_def)

lemma scored_data: "same_data h h' \<Longrightarrow> scored h \<subseteq> scored h'"
proof
  fix a assume s: "same_data h h'" and "a \<in> scored h"
  then obtain x where x: "h a = Some x" "st_composite x \<noteq> NaN" by (auto simp: scored_def)
  obtain y where "h' a = Some y" "unlinked y = unlinked x" using same_data_get [OF s x(1)] by blast
  then show "a \<in> scored h'" using x(2) unlinked_eq [of y x] by (simp add: scored_def)
qed

interpretation name_order: roster_order comparename name_key dom
  by unfold_locales (simp_all add: by_name.keyed_axioms name_key_data same_data_dom)

interpretation id_order: roster_order compareid id_key dom
  by unfold_locales (simp_all add: by_id.keyed_axioms id_key_data same_data_dom)

interpretation score_order: roster_order comparescore score_key scored
  by unfold_locales (fact by_score.keyed_axioms score_key_data scored_data scored_dom)+

text \<open>Three students at which the properties are evaluated: one section with the first two, another
  with the third; the first and the third have the same name.\<close>

definition pupil :: "cstr \<Rightarrow> ptr \<Rightarrow> ptr \<Rightarrow> student" where
  "pupil nm n cn = \<lparr>st_id = [49], st_surname = nm, st_name = [97], st_rawscores = [], st_normscores = [],
     st_composite = Finite 0, st_section = 0, st_next = n, st_cnext = cn\<rparr>"

definition class3 :: students where
  "class3 = [0 \<mapsto> pupil [99] (Some 1) (Some 1), 1 \<mapsto> pupil [98] None (Some 2), 2 \<mapsto> pupil [99] None None]"

text \<open>C31: Sorting a course by name always ends: the rosters of the course and of every section link
  the same students as before, in the order of their names.\<close>

theorem sortrosters_by_name:
  assumes "chain h st_cnext roster as" "list_all2 (chain h st_next) sections ass" "distinct (concat ass)"
  shows "\<exists>h' p ps bs bss. sortrosters comparename h roster sections = Some (h', p, ps) \<and>
    chain h' st_cnext p bs \<and> mset bs = mset as \<and> sorted (map (name_key h') bs) \<and>
    list_all2 (chain h' st_next) ps bss \<and>
    list_all2 (\<lambda>as bs. mset bs = mset as \<and> sorted (map (name_key h') bs)) ass bss"
proof -
  have "a \<in> dom h" if "a \<in> set (concat ass)" for a
  proof -
    from that have "\<exists>ps \<in> set ass. a \<in> set ps" by auto
    then obtain ps where "ps \<in> set ass" "a \<in> set ps" ..
    then obtain i where "i < length ass" "a \<in> set (ass ! i)" by (auto simp: in_set_conv_nth [of ps])
    then show ?thesis using assms(2) chain_dom by (fastforce simp: list_all2_conv_all_nth)
  qed
  then have "set as \<subseteq> dom h" "set (concat ass) \<subseteq> dom h" using chain_dom [OF assms(1)] by auto
  from name_order.sortrosters_ok [OF assms this] show ?thesis by blast
qed

theorem sortrosters_by_name_witness:
  "\<exists>h' p ps bs bss. sortrosters comparename class3 (Some 0) [Some 0, Some 2] = Some (h', p, ps) \<and>
    chain h' st_cnext p bs \<and> mset bs = mset [0, 1, 2] \<and> sorted (map (name_key h') bs) \<and>
    list_all2 (chain h' st_next) ps bss \<and>
    list_all2 (\<lambda>as bs. mset bs = mset as \<and> sorted (map (name_key h') bs)) [[0, 1], [2]] bss"
  by (rule sortrosters_by_name) (simp_all add: class3_def pupil_def)

subsection \<open>Duplicates\<close>

fun adjacent :: "('a \<Rightarrow> 'b) \<Rightarrow> 'a list \<Rightarrow> 'a list" where
  "adjacent f [] = []"
| "adjacent f [x] = []"
| "adjacent f (x # y # xs) = (if f x = f y then x # adjacent f (y # xs) else adjacent f (y # xs))"

lemma checkfordups_adjacent: "chain h st_cnext p as \<Longrightarrow> checkfordups h p = Some (adjacent (name_key h) as)"
proof (induction "name_key h" as arbitrary: p rule: adjacent.induct)
  case 1
  then show ?case by (subst checkfordups.simps) simp
next
  case (2 a)
  then show ?case by (subst checkfordups.simps) auto
next
  case (3 a b as)
  then obtain x where x: "p = Some a" "h a = Some x" "chain h st_cnext (st_cnext x) (b # as)" by auto
  then obtain y where y: "h b = Some y" "st_cnext x = Some b" by auto
  obtain c where c: "comparename h a b = Some c" "c = 0 \<longleftrightarrow> name_key h a = name_key h b"
    using by_name.compare [of a h b] x(2) y(1) by auto
  have "checkfordups h (Some b) = Some (adjacent (name_key h) (b # as))"
    using 3(1,2) x(3) y(2) by (cases "name_key h a = name_key h b") simp_all
  then show ?case using x(1,2) y(2) c by (subst checkfordups.simps) simp
qed

lemma adjacent_distinct: "sorted (map (f :: 'a \<Rightarrow> 'b :: linorder) xs) \<Longrightarrow> adjacent f xs = [] \<longleftrightarrow> distinct (map f xs)"
  by (induction f xs rule: adjacent.induct) (auto simp: order_antisym dest: order_antisym)

text \<open>C34: After sorting by name, the search for duplicates warns exactly when two students of the
  course have the same name.\<close>

theorem checkfordups_sorted:
  assumes "chain h st_cnext s as"
  shows "\<exists>h' p ws. sortroster getcnext setcnext comparename h s = Some (h', p) \<and> checkfordups h' p = Some ws \<and>
    (ws = [] \<longleftrightarrow> distinct (map (name_key h) as))"
proof -
  obtain h1 p bs where 1: "sortroster getcnext setcnext comparename h s = Some (h1, p)" "chain h1 st_cnext p bs"
    "mset bs = mset as" "sorted (map (name_key h) bs)" "relinked (\<lambda>n x. x\<lparr>st_cnext := n\<rparr>) (set as) h h1"
    using name_order.course_sorted [OF assms(1)] chain_dom [OF assms(1)] by blast
  have key: "name_key h1 = name_key h" by (rule name_key_data [OF relinked_same_data [OF 1(5)]]) simp
  have "distinct (map (name_key h) bs) \<longleftrightarrow> distinct (map (name_key h) as)"
    using 1(3) by (metis mset_eq_imp_distinct_iff mset_map)
  then show ?thesis using 1(1,4) checkfordups_adjacent [OF 1(2)] adjacent_distinct [of "name_key h" bs]
    by (auto simp: key)
qed

theorem checkfordups_sorted_witness:
  "\<exists>h' p ws. sortroster getcnext setcnext comparename class3 (Some 0) = Some (h', p) \<and>
    checkfordups h' p = Some ws \<and> ws \<noteq> []"
  using checkfordups_sorted [of class3 "Some 0" "[0, 1, 2]"]
  by (auto simp: class3_def pupil_def name_key_def)

end
