(* ===== verification/Grades_Frames.thy ===== *)
theory Grades_Frames
  imports Grades_Parser Grades_Links
begin

text \<open>
  What each reader of read.c leaves behind, whatever its input: \<open>frames\<close> says that it allocates no
  student, \<open>gives\<close> what holds of its result, and \<open>tidy\<close> both. One rule per combinator of the reader
  monad, collected in \<open>frames_intros\<close>, \<open>gives_rules\<close> and \<open>tidy_rules\<close>, covers the whole parser.
\<close>

subsection \<open>Readers that leave the store alone\<close>

named_theorems frames_intros \<open>readers that allocate nothing\<close>

definition frames :: "'a rd \<Rightarrow> bool" where
  "frames m \<longleftrightarrow> (\<forall>s x s'. m s = Some (Done (x, s')) \<longrightarrow> r_heap s' = r_heap s \<and> r_fresh s' = r_fresh s)"

lemma framesD: "frames m \<Longrightarrow> m s = Some (Done (x, s')) \<Longrightarrow> r_heap s' = r_heap s \<and> r_fresh s' = r_fresh s"
  unfolding frames_def by blast

lemma bnd_Done: "bnd m f s = Some (Done (y, s'')) \<longleftrightarrow> (\<exists>x s'. m s = Some (Done (x, s')) \<and> f x s' = Some (Done (y, s'')))"
proof (cases "m s")
  case (Some r)
  then show ?thesis by (cases r) (auto simp: bnd_def)
qed (simp add: bnd_def)

lemma frames_bnd [frames_intros]: "frames m \<Longrightarrow> (\<And>x. frames (f x)) \<Longrightarrow> frames (bnd m f)"
  unfolding frames_def bnd_Done by metis

lemma frames_andthen [frames_intros]: "frames m \<Longrightarrow> frames n \<Longrightarrow> frames (andthen m n)"
  unfolding andthen_def by (rule frames_bnd)

lemma frames_basic [frames_intros]:
  "frames (ret x)" "frames (gets f)" "frames undefined_behaviour" "frames fatal" "frames error" "frames warning"
  by (auto simp: frames_def ret_def gets_def undefined_behaviour_def fatal_def error_def warning_def message_def
      bind_eq_Some_conv)

lemma frames_modify: "(\<And>s. r_heap (f s) = r_heap s \<and> r_fresh (f s) = r_fresh s) \<Longrightarrow> frames (modify f)"
  by (auto simp: frames_def modify_def)

lemma frames_if [frames_intros]: "(b \<Longrightarrow> frames m) \<Longrightarrow> (\<not> b \<Longrightarrow> frames n) \<Longrightarrow> frames (if b then m else n)"
  by simp

lemma frames_option [frames_intros]:
  "(z = None \<Longrightarrow> frames m) \<Longrightarrow> (\<And>x. z = Some x \<Longrightarrow> frames (n x)) \<Longrightarrow> frames (case z of None \<Rightarrow> m | Some x \<Rightarrow> n x)"
  by (cases z) auto

lemma frames_prod [frames_intros]: "(\<And>x y. frames (f x y)) \<Longrightarrow> frames (case p of (x, y) \<Rightarrow> f x y)"
  by (cases p) auto

lemma frames_updates [frames_intros]:
  "frames (modify (set_rest r))" "frames (modify add_line)" "frames (modify (\<lambda>s. add_line (set_rest r s)))"
  "frames flushtoken" "frames gobblewhitespace"
  unfolding flushtoken_def gobblewhitespace_def
  by (rule frames_modify, simp add: set_rest_def add_line_def)+

lemma frames_scanner [frames_intros]:
  "frames (set_token t)" "frames gobbleblanklines" "frames nextchar" "frames previousfile"
  unfolding set_token_def
  by (auto simp: frames_def undefined_behaviour_def modify_def gobbleblanklines_def nextchar_def previousfile_def ret_def
      fatal_def message_def set_rest_def bind_eq_Some_conv split: if_splits option.splits list.splits prod.splits)

lemma frames_discard [frames_intros]: "frames discard_token"
  unfolding discard_token_def by (intro frames_intros)

lemma frames_advance [frames_intros]: "frames advancetoken" "frames advanceeol"
  unfolding advancetoken_def advanceeol_def by (intro frames_intros)+

lemma frames_need [frames_intros]: "frames need_token"
  unfolding need_token_def by (intro frames_intros)

lemma frames_check [frames_intros]: "frames (checktoken k)" "frames expectnewline" "frames take_string"
  unfolding checktoken_def expectnewline_def take_string_def by (intro frames_intros)+

lemma frames_expect [frames_intros]: "frames (expecttoken k)"
  unfolding expecttoken_def by (intro frames_intros)

lemma frames_pop [frames_intros]: "frames (pop_files n)"
  by (induction n) (auto intro!: frames_intros)

lemma frames_eof [frames_intros]: "frames expecteof"
proof -
  have "frames (\<lambda>s. case getc (if_rest (r_file s)) of (c, bs) \<Rightarrow>
         ret (\<not> (c = EOF_char \<and> r_prev s = [])) (set_rest bs s))"
    by (auto simp: frames_def ret_def set_rest_def split: prod.splits)
  then show ?thesis unfolding expecteof_def by (intro frames_intros)
qed

lemma frames_push [frames_intros]: "frames (pushfile files)"
proof -
  have "frames (\<lambda>s. case files n of None \<Rightarrow> fatal s
     | Some bs \<Rightarrow> gobbleblanklines (s\<lparr>r_file := \<lparr>if_rest = bs, if_name = None, if_line = 1\<rparr>,
         r_prev := r_file s # r_prev s\<rparr>))" for n
    using frames_scanner(2) by (auto simp: frames_def fatal_def message_def bind_eq_Some_conv split: option.splits)
  then show ?thesis unfolding pushfile_def by (intro frames_intros)
qed

lemma frames_names [frames_intros]: "frames scan_token" "frames readword" "frames readname"
  unfolding scan_token_def readword_def readname_def by (intro frames_intros)+

lemma frames_ids [frames_intros]: "frames readid" "frames readsurname" "frames readatype"
  unfolding readid_def readsurname_def readatype_def by (intro frames_intros)+

lemma frames_person [frames_intros]: "frames (readperson k)"
  unfolding readperson_def by (intro frames_intros)

lemma frames_persons [frames_intros]: "frames readprofessor" "frames readassistant"
  unfolding readprofessor_def readassistant_def by (intro frames_intros)+

lemma frames_numbers [frames_intros]: "frames (readweight a)" "frames (readmax a)" "frames (read_number d)"
  unfolding readweight_def readmax_def read_number_def by (intro frames_intros)+

lemma frames_norm_step [frames_intros]: "frames (readnorm_step a)"
  unfolding readnorm_step_def by (intro frames_intros)

lemma frames_grade [frames_intros]: "frames (read_raw a)" "frames (read_norm a)" "frames read_subst" "frames (read_code x)"
proof -
  have "frames (check_norm a f)" for f
    unfolding check_norm_def by (cases "as_npolicy a") (auto intro!: frames_intros split: option.splits)
  then show "frames (read_norm a)" unfolding read_norm_def by (intro frames_intros)
qed (unfold read_raw_def read_subst_def read_code_def, (intro frames_intros)+)


subsection \<open>Values\<close>

definition gives :: "'a rd \<Rightarrow> ('a \<Rightarrow> bool) \<Rightarrow> bool" where
  "gives m R \<longleftrightarrow> (\<forall>s x s'. m s = Some (Done (x, s')) \<longrightarrow> R x)"

lemma gives_bnd: "gives m Q \<Longrightarrow> (\<And>x. Q x \<Longrightarrow> gives (f x) R) \<Longrightarrow> gives (bnd m f) R"
  unfolding gives_def bnd_Done by metis

lemma gives_then: "(\<And>x. gives (f x) R) \<Longrightarrow> gives (bnd m f) R"
  by (rule gives_bnd [where Q = "\<lambda>_. True"]) (simp_all add: gives_def)

lemma gives_andthen: "gives n R \<Longrightarrow> gives (andthen m n) R"
  unfolding andthen_def by (rule gives_then)

lemma gives_ret: "R x \<Longrightarrow> gives (ret x) R"
  by (simp add: gives_def ret_def)

lemma gives_fatal: "gives fatal R"
  by (simp add: gives_def fatal_def message_def bind_eq_Some_conv)

lemma gives_if: "(b \<Longrightarrow> gives m R) \<Longrightarrow> (\<not> b \<Longrightarrow> gives n R) \<Longrightarrow> gives (if b then m else n) R"
  by simp

lemma gives_option: "(z = None \<Longrightarrow> gives m R) \<Longrightarrow> (\<And>x. z = Some x \<Longrightarrow> gives (n x) R) \<Longrightarrow>
    gives (case z of None \<Rightarrow> m | Some x \<Rightarrow> n x) R"
  by (cases z) auto

lemmas gives_rules = gives_if gives_option gives_then gives_andthen gives_ret gives_fatal

definition assignment_typed :: "assignment \<Rightarrow> bool" where
  "assignment_typed a \<longleftrightarrow> (as_npolicy a = LINEAR \<longrightarrow> as_mean a \<noteq> None \<and> as_stddev a \<noteq> None) \<and>
     (as_npolicy a = SCALE \<longrightarrow> as_scale a \<noteq> None)"

definition score_typed :: "nat \<Rightarrow> score \<Rightarrow> bool" where
  "score_typed n x \<longleftrightarrow> sc_asgt x < n \<and> (sc_flag x = VALID \<or> sc_subst x = USERAW \<longrightarrow> sc_grade x \<noteq> None) \<and>
     (sc_flag x = INVALID \<and> sc_subst x = USENORM \<longrightarrow> sc_qnorm x \<noteq> None \<and> sc_lnorm x \<noteq> None \<and> sc_snorm x \<noteq> None)"

definition student_typed :: "nat \<Rightarrow> nat \<Rightarrow> student \<Rightarrow> bool" where
  "student_typed n sep x \<longleftrightarrow> st_section x = sep \<and> (\<forall>y \<in> set (st_rawscores x). score_typed n y)"

lemma readnorm_step_typed: "assignment_typed a \<Longrightarrow>
    gives (readnorm_step a) (\<lambda>r. case r of None \<Rightarrow> True | Some a' \<Rightarrow> assignment_typed a')"
  unfolding readnorm_step_def by (intro gives_rules) (auto simp: assignment_typed_def)

text \<open>The two facts about a reader together, and for the outcome of one run.\<close>

definition tidied :: "('a \<Rightarrow> bool) \<Rightarrow> rstate \<Rightarrow> ('a \<times> rstate) outcome \<Rightarrow> bool" where
  "tidied R s r \<longleftrightarrow> (\<forall>x s'. r = Done (x, s') \<longrightarrow> R x \<and> r_heap s' = r_heap s \<and> r_fresh s' = r_fresh s)"

definition tidy :: "'a rd \<Rightarrow> ('a \<Rightarrow> bool) \<Rightarrow> bool" where
  "tidy m R \<longleftrightarrow> (\<forall>s r. m s = Some r \<longrightarrow> tidied R s r)"

lemma tidyD: "tidy m R \<Longrightarrow> m s = Some (Done (x, s')) \<Longrightarrow> R x \<and> r_heap s' = r_heap s \<and> r_fresh s' = r_fresh s"
  unfolding tidy_def tidied_def by blast

lemma tidyI: "frames m \<Longrightarrow> gives m R \<Longrightarrow> tidy m R"
  unfolding tidy_def tidied_def frames_def gives_def by blast

lemma tidy_frames: "tidy m R \<Longrightarrow> frames m"
  unfolding tidy_def tidied_def frames_def by blast

lemma tidy_bnd:
  assumes "tidy m Q" "\<And>x. Q x \<Longrightarrow> tidy (f x) R"
  shows "tidy (bnd m f) R"
  unfolding tidy_def tidied_def
proof (intro allI impI)
  fix s r y s'' assume "bnd m f s = Some r" "r = Done (y, s'')"
  then obtain x s' where x: "m s = Some (Done (x, s'))" "f x s' = Some (Done (y, s''))" by (auto simp: bnd_Done)
  then show "R y \<and> r_heap s'' = r_heap s \<and> r_fresh s'' = r_fresh s"
    using tidyD [OF assms(1) x(1)] tidyD [OF assms(2) x(2)] by simp
qed

lemma tidy_then: "frames m \<Longrightarrow> (\<And>x. tidy (f x) R) \<Longrightarrow> tidy (bnd m f) R"
  by (rule tidy_bnd [where Q = "\<lambda>_. True"]) (simp_all add: tidyI gives_def)

lemma tidy_andthen: "frames m \<Longrightarrow> tidy n R \<Longrightarrow> tidy (andthen m n) R"
  unfolding andthen_def by (rule tidy_then)

lemma tidy_ret: "R x \<Longrightarrow> tidy (ret x) R"
  by (intro tidyI gives_ret frames_intros)

lemma tidy_if: "(b \<Longrightarrow> tidy m R) \<Longrightarrow> (\<not> b \<Longrightarrow> tidy n R) \<Longrightarrow> tidy (if b then m else n) R"
  by simp

lemma tidy_fatal: "tidy fatal R"
  by (intro tidyI gives_fatal frames_intros)

lemma tidy_error: "R x \<Longrightarrow> tidy (andthen error (ret x)) R"
  by (intro tidy_andthen tidy_ret frames_intros)

lemmas tidy_rules = tidy_then tidy_andthen tidy_ret tidy_if frames_intros

abbreviation opt_typed :: "assignment option \<Rightarrow> bool" where
  "opt_typed r \<equiv> (case r of None \<Rightarrow> True | Some a \<Rightarrow> assignment_typed a)"

subsection \<open>Assignments\<close>

lemma readnorm_loop_tidy: "assignment_typed a \<Longrightarrow> tidy (readnorm_loop a found) (\<lambda>p. assignment_typed (fst p))"
proof -
  have "assignment_typed a \<longrightarrow> tidied (\<lambda>p. assignment_typed (fst p)) s r" if "readnorm_loop a found s = Some r" for s r
    using that
  proof (induction rule: readnorm_loop.raw_induct [rotated 1, consumes 1, case_names step])
    case (step loop a found s r)
    have "tidy (bnd (readnorm_step a) (\<lambda>r. case r of None \<Rightarrow> ret (a, found) | Some a' \<Rightarrow> loop a' True))
      (\<lambda>p. assignment_typed (fst p))" if "assignment_typed a"
      using that step(1)
      by (intro tidy_bnd [OF tidyI [OF frames_norm_step readnorm_step_typed]])
        (auto simp: tidy_def [of "loop _ _"] split: option.splits intro!: tidy_ret)
    then show ?case using step(2) by (auto simp: tidy_def)
  qed
  then show "assignment_typed a \<Longrightarrow> tidy (readnorm_loop a found) (\<lambda>p. assignment_typed (fst p))"
    by (auto simp: tidy_def)
qed

lemma readnorm_tidy: "assignment_typed a \<Longrightarrow> tidy (readnorm a) assignment_typed"
  unfolding readnorm_def
  by (rule tidy_bnd [OF readnorm_loop_tidy])
    (auto intro!: tidy_rules simp: assignment_typed_def)

lemma readoption_tidy: "assignment_typed a \<Longrightarrow> tidy (readoption a) opt_typed"
proof -
  assume a: "assignment_typed a"
  have w: "tidy (readweight a) assignment_typed" and m: "tidy (readmax a) assignment_typed"
    using a by (intro tidyI frames_intros, auto simp: readweight_def readmax_def assignment_typed_def intro!: gives_rules)+
  have e: "tidy (andthen expectnewline (ret (Some b))) opt_typed" if "assignment_typed b" for b
    using that by (intro tidy_rules) simp
  show ?thesis unfolding readoption_def
    by (intro tidy_then tidy_if frames_intros tidy_bnd [OF w e] tidy_bnd [OF m e] tidy_bnd [OF readnorm_tidy [OF a] e])
      (simp_all add: tidy_ret)
qed

lemma readoptions_tidy: "assignment_typed a \<Longrightarrow> tidy (readoptions a) assignment_typed"
proof -
  have "assignment_typed a \<longrightarrow> tidied assignment_typed s r" if "readoptions a s = Some r" for s r
    using that
  proof (induction rule: readoptions.raw_induct [rotated 1, consumes 1, case_names step])
    case (step loop a s r)
    have "tidy (bnd (readoption a) (\<lambda>r. case r of None \<Rightarrow> ret a | Some a' \<Rightarrow> loop a')) assignment_typed"
      if "assignment_typed a"
      using that step(1)
      by (intro tidy_bnd [OF readoption_tidy]) (auto simp: tidy_def [of "loop _"] split: option.splits intro!: tidy_ret)
    then show ?case using step(2) by (auto simp: tidy_def)
  qed
  then show "assignment_typed a \<Longrightarrow> tidy (readoptions a) assignment_typed"
    by (auto simp: tidy_def)
qed

lemma new_assignment_typed: "assignment_typed (new_assignment n t)"
  by (simp add: assignment_typed_def new_assignment_def)

lemma readassignments_tidy: "tidy readassignments (\<lambda>as. \<forall>a \<in> set as. assignment_typed a)"
proof -
  let ?R = "\<lambda>as. \<forall>a \<in> set as. assignment_typed a"
  have "tidied ?R s r" if "readassignments s = Some r" for s r
    using that
  proof (induction rule: readassignments.raw_induct [rotated 1, consumes 1, case_names step])
    case (step loop s r)
    have l: "tidy loop ?R" using step(1) by (simp add: tidy_def)
    have "tidy (bnd (checktoken (cs ''ASSIGNMENT'')) (\<lambda>b. if \<not> b then ret []
     else bnd readid (\<lambda>name. bnd readatype (\<lambda>t. andthen expectnewline
       (bnd (readoptions (new_assignment name t)) (\<lambda>a. bnd loop (\<lambda>as. ret (a # as)))))))) ?R"
      by (intro tidy_rules tidy_bnd [OF readoptions_tidy [OF new_assignment_typed]] tidy_bnd [OF l]) auto
    then show ?case using step(2) by (auto simp: tidy_def)
  qed
  then show ?thesis by (auto simp: tidy_def)
qed

end
