(* ===== verification/Grades_Typing.thy ===== *)
theory Grades_Typing
  imports Grades_Frames
begin

text \<open>
  Every database that \<open>readfile\<close> accepts is well typed: policies have their parameters, scores their
  assignment and grade, and the rosters of the sections are disjoint chains of students.
\<close>

subsection \<open>Scores\<close>

lemma tidy_gets: "(\<And>s. R (f s)) \<Longrightarrow> tidy (gets f) R"
  by (intro tidyI frames_intros) (auto simp: gives_def gets_def)

lemma find_assignment_less: "find_assignment t k as = Some i \<Longrightarrow> k \<le> i \<and> i < k + length as"
  by (induction t k as rule: find_assignment.induct) (auto split: if_splits)

lemma frames_readgrade [frames_intros]: "frames (readgrade a x)"
  unfolding readgrade_def Let_def
  by (intro frames_intros) (auto split: gsubst.splits intro!: frames_intros)

lemma readgrade_typed: "sc_asgt x < n \<Longrightarrow> gives (readgrade a x) (score_typed n)"
proof -
  assume n: "sc_asgt x < n"
  have c: "gives (read_code y) (score_typed n)" if "sc_flag y = INVALID" "sc_asgt y < n"
    "sc_subst y = USERAW \<longrightarrow> sc_grade y \<noteq> None" "sc_subst y = USENORM \<longrightarrow> sc_qnorm y \<noteq> None \<and> sc_lnorm y \<noteq> None \<and> sc_snorm y \<noteq> None" for y
    using that unfolding read_code_def by (intro gives_rules) (auto simp: score_typed_def)
  show ?thesis unfolding readgrade_def
  proof (rule gives_then, rule gives_option, rule gives_then, rule gives_ret)
    show "score_typed n (x\<lparr>sc_flag := VALID, sc_grade := Some g\<rparr>)" for g using n by (simp add: score_typed_def)
  next
    fix u
    let ?x = "x\<lparr>sc_flag := INVALID, sc_subst := u\<rparr>"
    have "gives (case u of USERAW \<Rightarrow> bnd (read_raw a) (\<lambda>g. ret (?x\<lparr>sc_grade := Some g\<rparr>))
         | USENORM \<Rightarrow> bnd (read_norm a) (\<lambda>f. ret (?x\<lparr>sc_qnorm := Some f, sc_lnorm := Some f, sc_snorm := Some f\<rparr>))
         | _ \<Rightarrow> ret ?x) (\<lambda>y. sc_flag y = INVALID \<and> sc_asgt y < n \<and> (sc_subst y = USERAW \<longrightarrow> sc_grade y \<noteq> None) \<and>
           (sc_subst y = USENORM \<longrightarrow> sc_qnorm y \<noteq> None \<and> sc_lnorm y \<noteq> None \<and> sc_snorm y \<noteq> None))"
      using n by (cases u) (auto intro!: gives_rules)
    then show "gives (let s = ?x in bnd (case u of USERAW \<Rightarrow> bnd (read_raw a) (\<lambda>g. ret (s\<lparr>sc_grade := Some g\<rparr>))
         | USENORM \<Rightarrow> bnd (read_norm a) (\<lambda>f. ret (s\<lparr>sc_qnorm := Some f, sc_lnorm := Some f, sc_snorm := Some f\<rparr>))
         | _ \<Rightarrow> ret s) read_code) (score_typed n)"
      unfolding Let_def by (rule gives_bnd) (auto intro: c)
  qed
qed

lemma readscore_tidy: "tidy (readscore as) (score_typed (length as))"
proof -
  have g: "tidy (readgrade (as ! i) (new_score i)) (score_typed (length as))" if "i < length as" for i
    using that by (intro tidyI readgrade_typed frames_intros) (simp add: new_score_def)
  have f: "tidy (gets (\<lambda>s. find_assignment (token_string s) 0 as)) (\<lambda>r. \<forall>i. r = Some i \<longrightarrow> i < length as)"
    by (rule tidy_gets) (auto dest: find_assignment_less)
  have m: "tidy (bnd (gets (\<lambda>s. find_assignment (token_string s) 0 as)) (\<lambda>r. case r of None \<Rightarrow> fatal
       | Some i \<Rightarrow> andthen flushtoken (bnd (readgrade (as ! i) (new_score i)) (\<lambda>s. andthen expectnewline (ret s)))))
       (score_typed (length as))"
    by (rule tidy_bnd [OF f]) (auto split: option.splits intro!: tidy_fatal tidy_rules tidy_bnd [OF g])
  show ?thesis unfolding readscore_def
    by (rule tidy_andthen [OF frames_need tidy_then [OF frames_basic(2) tidy_if [OF tidy_fatal m]]])
qed

lemma readscores_tidy: "tidy (readscores as) (\<lambda>xs. \<forall>x \<in> set xs. score_typed (length as) x)"
proof -
  let ?R = "\<lambda>xs. \<forall>x \<in> set xs. score_typed (length as) x"
  have "\<forall>n. n = length as \<longrightarrow> tidied (\<lambda>xs. \<forall>x \<in> set xs. score_typed n x) s r" if "readscores as s = Some r" for s r
    using that
  proof (induction rule: readscores.raw_induct [rotated 1, consumes 1, case_names step])
    case (step loop as s r)
    have l: "tidy (loop as) (\<lambda>xs. \<forall>x \<in> set xs. score_typed (length as) x)" using step(1) by (simp add: tidy_def)
    have "tidy (bnd (checktoken (cs ''SCORE'')) (\<lambda>b. if \<not> b then ret []
       else bnd (readscore as) (\<lambda>x. bnd (loop as) (\<lambda>xs. ret (x # xs))))) (\<lambda>xs. \<forall>x \<in> set xs. score_typed (length as) x)"
      by (intro tidy_rules tidy_bnd [OF readscore_tidy] tidy_bnd [OF l]) auto
    then show ?case using step(2) by (auto simp: tidy_def)
  qed
  then show ?thesis by (auto simp: tidy_def)
qed

subsection \<open>Rosters\<close>

text \<open>The store \<open>h'\<close> has grown from \<open>h\<close> by addresses from \<open>n\<close> up to \<open>n'\<close>.\<close>

definition grown :: "students \<Rightarrow> nat \<Rightarrow> students \<Rightarrow> nat \<Rightarrow> bool" where
  "grown h n h' n' \<longleftrightarrow> n \<le> n' \<and> (\<forall>a < n. h' a = h a)"

definition students_in :: "nat \<Rightarrow> nat \<Rightarrow> students \<Rightarrow> nat \<Rightarrow> nat \<Rightarrow> nat list \<Rightarrow> bool" where
  "students_in k sep h n n' ps \<longleftrightarrow> (\<forall>a \<in> set ps. n \<le> a \<and> a < n' \<and> (\<exists>x. h a = Some x \<and> student_typed k sep x))"

definition rostered :: "nat \<Rightarrow> nat \<Rightarrow> rstate \<Rightarrow> (ptr \<times> rstate) outcome \<Rightarrow> bool" where
  "rostered k sep s r \<longleftrightarrow> (\<forall>p s'. r = Done (p, s') \<longrightarrow> grown (r_heap s) (r_fresh s) (r_heap s') (r_fresh s') \<and>
     (\<exists>ps. chain (r_heap s') st_next p ps \<and> students_in k sep (r_heap s') (r_fresh s) (r_fresh s') ps))"

lemma set_student_run: "set_student p x s = Some (Done ((), s\<lparr>r_heap := (r_heap s)(p \<mapsto> x)\<rparr>))"
  by (simp add: set_student_def modify_def)

lemma readstudents_step:
  assumes "\<And>s r. loop s = Some r \<Longrightarrow> rostered (length as) sep s r"
    "bnd (checktoken (cs ''STUDENT'')) (\<lambda>b. if \<not> b then ret None
     else bnd newstudent (\<lambda>p. bnd readid (\<lambda>i. bnd readsurname (\<lambda>sn. bnd readname (\<lambda>n.
       bnd (readscores as) (\<lambda>xs. bnd loop (\<lambda>nxt.
         andthen (set_student p (new_student i sn n xs sep nxt)) (ret (Some p))))))))) s = Some r"
  shows "rostered (length as) sep s r"
  unfolding rostered_def
proof (intro allI impI)
  fix p s' assume r: "r = Done (p, s')"
  obtain b s1 where b: "checktoken (cs ''STUDENT'') s = Some (Done (b, s1))"
    and rest: "(if \<not> b then ret None
     else bnd newstudent (\<lambda>p. bnd readid (\<lambda>i. bnd readsurname (\<lambda>sn. bnd readname (\<lambda>n.
       bnd (readscores as) (\<lambda>xs. bnd loop (\<lambda>nxt.
         andthen (set_student p (new_student i sn n xs sep nxt)) (ret (Some p))))))))) s1 = Some (Done (p, s'))"
    using assms(2) unfolding r bnd_Done by blast
  note f1 = framesD [OF frames_check(1) b]
  show "grown (r_heap s) (r_fresh s) (r_heap s') (r_fresh s') \<and>
     (\<exists>ps. chain (r_heap s') st_next p ps \<and> students_in (length as) sep (r_heap s') (r_fresh s) (r_fresh s') ps)"
  proof (cases b)
    case False
    then have "p = None" "s' = s1" using rest by (simp_all add: ret_def)
    then show ?thesis using f1 by (auto simp: grown_def students_in_def intro!: exI [of _ "[]"])
  next
    case True
    obtain q s2 i s3 sn s4 n s5 xs s6 nxt s7 where
      q: "newstudent s1 = Some (Done (q, s2))" and i: "readid s2 = Some (Done (i, s3))"
      and sn: "readsurname s3 = Some (Done (sn, s4))" and n: "readname s4 = Some (Done (n, s5))"
      and xs: "readscores as s5 = Some (Done (xs, s6))" and nxt: "loop s6 = Some (Done (nxt, s7))"
      and e: "andthen (set_student q (new_student i sn n xs sep nxt)) (ret (Some q)) s7 = Some (Done (p, s'))"
      using rest True unfolding bnd_Done by (simp only: not_True_eq_False if_False bnd_Done) blast
    have q': "q = r_fresh s" "r_heap s2 = r_heap s" "r_fresh s2 = Suc (r_fresh s)"
      using q f1 by (simp_all add: newstudent_def ret_def) auto
    have p: "p = Some q" "s' = s7\<lparr>r_heap := (r_heap s7)(q \<mapsto> new_student i sn n xs sep nxt)\<rparr>"
      using e by (auto simp: andthen_def bnd_Done set_student_run ret_def)
    note f3 = framesD [OF frames_ids(1) i] and f4 = framesD [OF frames_ids(2) sn] and f5 = framesD [OF frames_names(3) n]
      and f6 = tidyD [OF readscores_tidy xs]
    have s6: "r_heap s6 = r_heap s" "r_fresh s6 = Suc (r_fresh s)" using f3 f4 f5 f6 q' by simp_all
    from assms(1) [OF nxt] obtain ps where ps: "grown (r_heap s) (Suc (r_fresh s)) (r_heap s7) (r_fresh s7)"
      "chain (r_heap s7) st_next nxt ps" "students_in (length as) sep (r_heap s7) (Suc (r_fresh s)) (r_fresh s7) ps"
      unfolding rostered_def s6 by blast
    have d: "q \<notin> set ps" using ps(3) q'(1) by (auto simp: students_in_def)
    have "chain (r_heap s') st_next p (q # ps)"
      using chain_upd [OF d] ps(2) by (simp add: p new_student_def)
    moreover have "students_in (length as) sep (r_heap s') (r_fresh s) (r_fresh s') (q # ps)"
      using ps(1,3) d f6 q'(1) by (auto simp: students_in_def p grown_def student_typed_def new_student_def)
    moreover have "grown (r_heap s) (r_fresh s) (r_heap s') (r_fresh s')"
      using ps(1) by (simp add: grown_def p q'(1))
    ultimately show ?thesis by blast
  qed
qed

lemma readstudents_rostered:
  assumes "readstudents as sep s = Some r"
  shows "rostered (length as) sep s r"
  using assms
proof (induction rule: readstudents.raw_induct [rotated 1, consumes 1, case_names step])
  case (step loop as sep s r)
  show ?case by (rule readstudents_step [OF _ step(2)]) (rule step(1))
qed


subsection \<open>Sections and courses\<close>

lemma frames_next_section [frames_intros]: "frames next_section_token"
proof -
  have "tidied (\<lambda>_. True) s r" if "next_section_token s = Some r" for s r
    using that
  proof (induction rule: next_section_token.raw_induct [rotated 1, consumes 1, case_names step])
    case (step loop s r)
    have l: "tidy loop (\<lambda>_. True)" using step(1) by (simp add: tidy_def)
    have "tidy (bnd (gets istoken) (\<lambda>t. if t then ret True
       else andthen advancetoken (bnd (gets istoken) (\<lambda>t. if t then loop
         else bnd (gets r_prev) (\<lambda>fs. if fs = [] then ret False else andthen previousfile loop))))) (\<lambda>_. True)"
      by (intro tidy_rules l) auto
    then show ?case using step(2) by (auto simp: tidy_def)
  qed
  then show ?thesis by (intro tidy_frames [where R = "\<lambda>_. True"]) (simp add: tidy_def)
qed

definition rosters_in :: "nat \<Rightarrow> nat \<Rightarrow> students \<Rightarrow> nat \<Rightarrow> nat \<Rightarrow> section_data list \<Rightarrow> nat list list \<Rightarrow> bool" where
  "rosters_in k sep h n n' ses pss \<longleftrightarrow> list_all2 (chain h st_next) (map se_roster ses) pss \<and> distinct (concat pss) \<and>
     (\<forall>i < length pss. students_in k (sep + i) h n n' (pss ! i))"

definition sectioned :: "nat \<Rightarrow> nat \<Rightarrow> rstate \<Rightarrow> (section_data list \<times> rstate) outcome \<Rightarrow> bool" where
  "sectioned k sep s r \<longleftrightarrow> (\<forall>ses s'. r = Done (ses, s') \<longrightarrow> grown (r_heap s) (r_fresh s) (r_heap s') (r_fresh s') \<and>
     (\<exists>pss. rosters_in k sep (r_heap s') (r_fresh s) (r_fresh s') ses pss))"

lemma students_in_grown:
  "students_in k sep h n m ps \<Longrightarrow> grown h m h' n' \<Longrightarrow> students_in k sep h' n n' ps"
  by (auto simp: students_in_def grown_def)

lemma chain_grown: "chain h st_next p ps \<Longrightarrow> students_in k sep h n m ps \<Longrightarrow> grown h m h' n' \<Longrightarrow> chain h' st_next p ps"
  by (rule chain_cong [of ps h h' st_next]) (auto simp: students_in_def grown_def)

lemma rosters_in_Cons:
  assumes "chain h st_next (se_roster se) ps" "students_in k sep h n m ps" "grown h m h' n'"
    "rosters_in k (sep + 1) h' m n' ses pss" "n \<le> m"
  shows "rosters_in k sep h' n n' (se # ses) (ps # pss)"
proof -
  have a: "\<forall>a \<in> set ps. a < m" using assms(2) by (simp add: students_in_def)
  have b: "m \<le> a" if a: "a \<in> set (concat pss)" for a
  proof -
    obtain ps where "ps \<in> set pss" "a \<in> set ps" using a by auto
    then obtain i where "i < length pss" "a \<in> set (pss ! i)" by (auto simp: in_set_conv_nth [of ps])
    then show ?thesis using assms(4) by (auto simp: rosters_in_def students_in_def)
  qed
  have "distinct (concat (ps # pss))"
    using assms(4) chain_distinct [OF assms(1)] a b by (fastforce simp: rosters_in_def)
  moreover have "students_in k (sep + i) h' n n' ((ps # pss) ! i)" if "i < length (ps # pss)" for i
  proof (cases i)
    case 0
    then show ?thesis using students_in_grown [OF assms(2,3)] by simp
  next
    case (Suc j)
    then have "students_in k (sep + 1 + j) h' m n' (pss ! j)" using assms(4) that by (simp add: rosters_in_def)
    then show ?thesis using Suc assms(5) by (fastforce simp: students_in_def)
  qed
  ultimately show ?thesis using assms(4) chain_grown [OF assms(1-3)] by (simp add: rosters_in_def)
qed

lemma grown_trans: "grown h n h' n' \<Longrightarrow> grown h' n' h'' n'' \<Longrightarrow> grown h n h'' n''"
  by (auto simp: grown_def)

lemma read_section_step:
  assumes "\<And>s r. loop s = Some r \<Longrightarrow> sectioned (length as) (sep + 1) s r"
    "bnd readname (\<lambda>n. bnd readassistant (\<lambda>a. bnd (readstudents as sep) (\<lambda>roster. bnd loop (\<lambda>ses.
       ret (\<lparr>se_name = n, se_assistant = a, se_roster = roster\<rparr> # ses))))) s = Some r"
  shows "sectioned (length as) sep s r"
  unfolding sectioned_def
proof (intro allI impI)
  fix ses s' assume r: "r = Done (ses, s')"
  obtain n s4 a s5 p s6 ses' where n: "readname s = Some (Done (n, s4))" and a: "readassistant s4 = Some (Done (a, s5))"
    and p: "readstudents as sep s5 = Some (Done (p, s6))" and l: "loop s6 = Some (Done (ses', s'))"
    and ses: "ses = \<lparr>se_name = n, se_assistant = a, se_roster = p\<rparr> # ses'"
    using assms(2) by (auto simp: r bnd_Done ret_def)
  have s5: "r_heap s5 = r_heap s" "r_fresh s5 = r_fresh s"
    using framesD [OF frames_names(3) n] framesD [OF frames_persons(2) a] by simp_all
  from readstudents_rostered [OF p] obtain ps where
    ps: "grown (r_heap s) (r_fresh s) (r_heap s6) (r_fresh s6)" "chain (r_heap s6) st_next p ps"
      "students_in (length as) sep (r_heap s6) (r_fresh s) (r_fresh s6) ps"
    unfolding rostered_def s5 by blast
  from assms(1) [OF l] obtain pss where pss: "grown (r_heap s6) (r_fresh s6) (r_heap s') (r_fresh s')"
    "rosters_in (length as) (sep + 1) (r_heap s') (r_fresh s6) (r_fresh s') ses' pss"
    unfolding sectioned_def by blast
  have "rosters_in (length as) sep (r_heap s') (r_fresh s) (r_fresh s') ses (ps # pss)"
    unfolding ses by (rule rosters_in_Cons [OF _ ps(3) pss]) (use ps(1,2) in \<open>simp_all add: grown_def\<close>)
  then show "grown (r_heap s) (r_fresh s) (r_heap s') (r_fresh s') \<and>
      (\<exists>pss. rosters_in (length as) sep (r_heap s') (r_fresh s) (r_fresh s') ses pss)"
    using grown_trans [OF ps(1) pss(1)] by blast
qed

text \<open>What comes before leaves the store alone.\<close>

lemma sectioned_after:
  assumes "frames m" "bnd m f s = Some r" "\<And>x s1 r. f x s1 = Some r \<Longrightarrow> sectioned k sep s1 r"
  shows "sectioned k sep s r"
  unfolding sectioned_def
proof (intro allI impI)
  fix ses s' assume "r = Done (ses, s')"
  then obtain x s1 where x: "m s = Some (Done (x, s1))" "f x s1 = Some (Done (ses, s'))"
    using assms(2) by (auto simp: bnd_Done)
  show "grown (r_heap s) (r_fresh s) (r_heap s') (r_fresh s') \<and>
      (\<exists>pss. rosters_in k sep (r_heap s') (r_fresh s) (r_fresh s') ses pss)"
    using assms(3) [OF x(2)] framesD [OF assms(1) x(1)] by (simp add: sectioned_def)
qed

lemma sectioned_empty: "ret [] s = Some r \<Longrightarrow> sectioned k sep s r"
  by (auto simp: ret_def sectioned_def grown_def rosters_in_def)

lemma readsections_step:
  assumes "\<And>sep s r. loop sep s = Some r \<Longrightarrow> sectioned (length as) sep s r"
    "bnd next_section_token (\<lambda>t. if \<not> t then ret []
     else bnd (checktoken (cs ''FILE'')) (\<lambda>b. if b
       then andthen (pushfile files) (loop sep)
       else bnd (checktoken (cs ''SECTION'')) (\<lambda>b. if \<not> b then ret []
         else bnd readname (\<lambda>n. bnd readassistant (\<lambda>a. bnd (readstudents as sep) (\<lambda>roster.
           bnd (loop (sep + 1)) (\<lambda>ses.
             ret (\<lparr>se_name = n, se_assistant = a, se_roster = roster\<rparr> # ses)))))))) s = Some r"
  shows "sectioned (length as) sep s r"
proof (rule sectioned_after [OF frames_next_section assms(2)], split if_split_asm, erule sectioned_empty)
  fix s1 r1
  let ?sect = "bnd readname (\<lambda>n. bnd readassistant (\<lambda>a. bnd (readstudents as sep) (\<lambda>roster.
           bnd (loop (sep + 1)) (\<lambda>ses. ret (\<lparr>se_name = n, se_assistant = a, se_roster = roster\<rparr> # ses)))))"
  assume "bnd (checktoken (cs ''FILE'')) (\<lambda>b. if b then andthen (pushfile files) (loop sep)
       else bnd (checktoken (cs ''SECTION'')) (\<lambda>b. if \<not> b then ret [] else ?sect)) s1 = Some r1"
  then show "sectioned (length as) sep s1 r1"
  proof (rule sectioned_after [OF frames_check(1)], split if_split_asm)
    fix s2 r2 assume "andthen (pushfile files) (loop sep) s2 = Some r2"
    then show "sectioned (length as) sep s2 r2"
      unfolding andthen_def by (rule sectioned_after [OF frames_push]) (rule assms(1))
  next
    fix s2 r2 assume "bnd (checktoken (cs ''SECTION'')) (\<lambda>b. if \<not> b then ret [] else ?sect) s2 = Some r2"
    then show "sectioned (length as) sep s2 r2"
    proof (rule sectioned_after [OF frames_check(1)])
      fix b s3 r3 assume "(if \<not> b then ret [] else ?sect) s3 = Some r3"
      then show "sectioned (length as) sep s3 r3"
        using read_section_step [OF assms(1)] sectioned_empty by (cases b) auto
    qed
  qed
qed

lemma readsections_sectioned:
  assumes "readsections files as sep s = Some r"
  shows "sectioned (length as) sep s r"
  using assms
proof (induction rule: readsections.raw_induct [rotated 1, consumes 1, case_names step])
  case (step loop files as sep s r)
  show ?case by (rule readsections_step [OF _ step(2)]) (rule step(1))
qed

text \<open>A database in which nothing is missing: policies have their parameters, scores their assignment
  and grade, and the rosters of the sections are disjoint chains of students of those sections.\<close>

definition well_typed :: "course \<Rightarrow> students \<Rightarrow> nat list list \<Rightarrow> bool" where
  "well_typed c h pss \<longleftrightarrow> (\<forall>a \<in> set (co_assignments c). assignment_typed a) \<and>
     list_all2 (chain h st_next) (map se_roster (co_sections c)) pss \<and> distinct (concat pss) \<and>
     (\<forall>i < length pss. \<forall>a \<in> set (pss ! i). \<exists>x. h a = Some x \<and> student_typed (length (co_assignments c)) i x)"

lemma readcourse_typed:
  assumes "readcourse files s = Some (Done (c, s'))"
  shows "\<exists>pss. well_typed c (r_heap s') pss"
proof -
  obtain u s1 i s2 n s3 p s4 as s5 ses where
    r: "expecttoken (cs ''COURSE'') s = Some (Done (u, s1))" "readid s1 = Some (Done (i, s2))"
    "readname s2 = Some (Done (n, s3))" "readprofessor s3 = Some (Done (p, s4))"
    "readassignments s4 = Some (Done (as, s5))" "readsections files as 0 s5 = Some (Done (ses, s'))"
    "c = \<lparr>co_number = i, co_title = n, co_professor = p, co_assignments = as, co_sections = ses, co_roster = None\<rparr>"
    using assms by (auto simp: readcourse_def andthen_def bnd_Done ret_def)
  obtain pss where "rosters_in (length as) 0 (r_heap s') (r_fresh s5) (r_fresh s') ses pss"
    using readsections_sectioned [OF r(6)] by (auto simp: sectioned_def)
  then show ?thesis using tidyD [OF readassignments_tidy r(5)] r(7)
    by (intro exI [of _ pss]) (fastforce simp: well_typed_def rosters_in_def students_in_def)
qed

lemma readfile_typed:
  assumes "readfile files name = Some (Done (c, s))"
  shows "\<exists>pss. well_typed c (r_heap s) pss"
proof -
  obtain s0 s1 where r: "readcourse files s0 = Some (Done (c, s1))" "andthen gobbleblanklines (andthen expecteof (ret c)) s1 = Some (Done (c, s))"
    using assms by (auto simp: readfile_def andthen_def bnd_Done ret_def split: option.splits)
  have "frames (andthen gobbleblanklines (andthen expecteof (ret c)))" by (intro frames_intros)
  from framesD [OF this r(2)] readcourse_typed [OF r(1)] show ?thesis by simp
qed

end
