(* ===== verification/Grades_Complete.thy ===== *)
theory Grades_Complete
  imports Grades_Typing
begin

text \<open>
  What the passes of stats.c keep: \<open>do_links\<close> changes the links and the statistics pointers of the
  students and nothing else, and the sums and moments leave the frequency tables alone.
\<close>

subsection \<open>Links\<close>

definition shell :: "student \<Rightarrow> student" where
  "shell x = x\<lparr>st_cnext := None, st_rawscores := map core (st_rawscores x)\<rparr>"

definition same_shells :: "students \<Rightarrow> students \<Rightarrow> bool" where
  "same_shells h h' \<longleftrightarrow> (\<forall>a. map_option shell (h' a) = map_option shell (h a))"

lemma same_shells_refl [simp]: "same_shells h h"
  by (simp add: same_shells_def)

lemma same_shells_trans: "same_shells h h' \<Longrightarrow> same_shells h' h'' \<Longrightarrow> same_shells h h''"
  by (simp add: same_shells_def)

lemma shell_eq: "shell y = shell x \<Longrightarrow> st_next y = st_next x \<and> st_section y = st_section x \<and> st_id y = st_id x \<and>
    st_surname y = st_surname x \<and> st_name y = st_name x \<and> map core (st_rawscores y) = map core (st_rawscores x)"
  by (cases x; cases y) (simp add: shell_def)

lemma same_shells_get: "same_shells h h' \<Longrightarrow> h a = Some x \<Longrightarrow> h' a = Some y \<Longrightarrow> shell y = shell x"
  unfolding same_shells_def by (metis option.map(2) option.inject)

lemma same_shells_upd: "h a = Some x \<Longrightarrow> shell y = shell x \<Longrightarrow> same_shells h (h(a \<mapsto> y))"
  by (simp add: same_shells_def)

lemma link_student_shells: "link_student ap sep stp s = Some s' \<Longrightarrow> same_shells (fst s) (fst s')"
proof -
  assume l: "link_student ap sep stp s = Some s'"
  obtain h p rp where s: "s = (h, p, rp)" by (cases s)
  show ?thesis using l
    by (auto simp: s link_student_def bind_eq_Some_conv same_shells_def shell_def split: option.splits if_splits)
qed

lemma link_section_shells: "link_section ap sep p s = Some s' \<Longrightarrow> same_shells (fst s) (fst s')"
proof (induction rule: link_section.raw_induct [rotated 1, consumes 1, case_names step])
  case (step loop ap sep p s s')
  show ?case
  proof (cases p)
    case (Some a)
    then obtain s1 and x :: student where "link_student ap sep a s = Some s1" "loop ap sep (st_next x) s1 = Some s'"
      using step(2) by (simp only: Some option.case bind_eq_Some_conv) blast
    then show ?thesis using step(1) link_student_shells same_shells_trans by blast
  qed (use step(2) in auto)
qed

lemma link_sections_shells: "link_sections ap sep ses s = Some s' \<Longrightarrow> same_shells (fst s) (fst s')"
  by (induction ap sep ses s rule: link_sections.induct)
    (auto simp: bind_eq_Some_conv dest: link_section_shells intro: same_shells_trans)

lemma link_assignments_shells: "link_assignments ap as ses s = Some s' \<Longrightarrow> same_shells (fst s) (fst s')"
  by (induction ap as ses s rule: link_assignments.induct)
    (auto simp: bind_eq_Some_conv dest: link_sections_shells intro: same_shells_trans)

lemma link_section_empty: "link_section ap sep None s = Some s"
  by (subst link_section.simps) simp

lemma link_sections_empty: "\<forall>se \<in> set ses. se_roster se = None \<Longrightarrow> link_sections ap sep ses s = Some s"
  by (induction ap sep ses s rule: link_sections.induct) (auto simp: link_section_empty)

lemma link_assignments_empty: "\<forall>se \<in> set ses. se_roster se = None \<Longrightarrow> link_assignments ap as ses s = Some s"
  by (induction ap as ses s rule: link_assignments.induct) (auto simp: link_sections_empty)

text \<open>The students of the course, in the order of the rosters, once they are linked.\<close>

definition all_linked :: "nat \<Rightarrow> students \<Rightarrow> nat list list \<Rightarrow> bool" where
  "all_linked n h pss \<longleftrightarrow> (\<forall>i < length pss. \<forall>a \<in> set (pss ! i). \<exists>x. h a = Some x \<and> student_typed n i x \<and>
     linked_upto n i (st_rawscores x))"

lemma core_typed: "core y = core x \<Longrightarrow> score_typed n y \<longleftrightarrow> score_typed n x"
  by (cases x; cases y) (simp add: core_def score_typed_def)

lemma cores_typed: "map core ys = map core xs \<Longrightarrow> (\<forall>y \<in> set ys. score_typed n y) \<longleftrightarrow> (\<forall>x \<in> set xs. score_typed n x)"
proof (induction ys arbitrary: xs)
  case (Cons y ys)
  then obtain x xs' where x: "xs = x # xs'" "core y = core x" "map core ys = map core xs'" by (cases xs) auto
  show ?case using Cons.IH [OF x(3)] core_typed [OF x(2), of n] x(1) by simp
qed simp

lemma well_typedD: "well_typed c h pss \<Longrightarrow> i < length pss \<Longrightarrow> a \<in> set (pss ! i) \<Longrightarrow>
    \<exists>x. h a = Some x \<and> student_typed (length (co_assignments c)) i x"
  unfolding well_typed_def by blast

lemma do_links_typed:
  assumes "well_typed c h pss"
  shows "\<exists>p h'. do_links c h = Some (c\<lparr>co_roster := p\<rparr>, h') \<and> same_shells h h' \<and>
    chain h' st_cnext p (if co_assignments c = [] then [] else concat pss) \<and>
    all_linked (length (co_assignments c)) h' pss"
proof (cases "co_assignments c = [] \<or> concat pss = []")
  case True
  have "\<forall>se \<in> set (co_sections c). se_roster se = None" if e: "concat pss = []"
  proof -
    have "list_all2 (chain h st_next) (map se_roster (co_sections c)) pss" using assms by (simp add: well_typed_def)
    then have r: "length (co_sections c) = length pss"
      "\<forall>i < length pss. chain h st_next (se_roster (co_sections c ! i)) (pss ! i)"
      by (simp_all add: list_all2_conv_all_nth)
    have "se_roster (co_sections c ! i) = None" if i: "i < length (co_sections c)" for i
    proof -
      have "pss ! i = []" using e i r(1) nth_mem [of i pss] by simp
      then show ?thesis using r i by (metis chain.simps(1))
    qed
    then show ?thesis by (metis in_set_conv_nth)
  qed
  then have "link_assignments 0 (co_assignments c) (co_sections c) (h, None, None) = Some (h, None, None)"
    using True link_assignments_empty by auto
  moreover have "all_linked (length (co_assignments c)) h pss"
    unfolding all_linked_def
  proof (intro allI impI ballI)
    fix i a assume i: "i < length pss" "a \<in> set (pss ! i)"
    then have "a \<in> set (concat pss)" using nth_mem [OF i(1)] by (simp only: set_concat) blast
    then have "concat pss \<noteq> []" by (metis empty_iff list.set(1))
    then have n: "co_assignments c = []" using True by blast
    obtain x where x: "h a = Some x" "student_typed 0 i x" using well_typedD [OF assms i] n by auto
    then have "linked_upto 0 i (st_rawscores x)" by (simp add: linked_upto_def)
    then show "\<exists>x. h a = Some x \<and> student_typed (length (co_assignments c)) i x \<and>
        linked_upto (length (co_assignments c)) i (st_rawscores x)"
      using x n by simp
  qed
  moreover have e: "(if co_assignments c = [] then [] else concat pss) = []" using True by auto
  ultimately show ?thesis unfolding e
    by (intro exI [of _ None] exI [of _ h]) (simp add: do_links_def)
next
  case False
  have ch: "list_all2 (chain h st_next) (map se_roster (co_sections c)) pss" "distinct (concat pss)"
    using assms by (auto simp: well_typed_def)
  have "students_linked 0 pss h h"
    using well_typedD [OF assms] by (fastforce simp: students_linked_def linked_upto_def)
  then obtain h' where h': "do_links c h = Some (c\<lparr>co_roster := Some (hd (concat pss))\<rparr>, h')"
    "chain h' st_cnext (Some (hd (concat pss))) (concat pss)" "students_linked (length (co_assignments c)) pss h h'"
    using link_assignments_chain [OF ch(2) _ ch(1), of 0 h None "co_assignments c" None] False
    by (auto simp: do_links_def)
  have s: "same_shells h h'"
    using h'(1) by (auto simp: do_links_def bind_eq_Some_conv dest!: link_assignments_shells)
  have "all_linked (length (co_assignments c)) h' pss"
    unfolding all_linked_def
  proof (intro allI impI ballI)
    fix i a assume i: "i < length pss" "a \<in> set (pss ! i)"
    then obtain x y where x: "h a = Some x" "h' a = Some y" "map core (st_rawscores y) = map core (st_rawscores x)"
      "linked_upto (length (co_assignments c)) i (st_rawscores y)"
      using h'(3) unfolding students_linked_def by blast
    have "student_typed (length (co_assignments c)) i x" using well_typedD [OF assms i] x(1) by auto
    then have "student_typed (length (co_assignments c)) i y"
      using cores_typed [OF x(3)] shell_eq [OF same_shells_get [OF s x(1,2)]] by (simp add: student_typed_def)
    then show "\<exists>x. h' a = Some x \<and> student_typed (length (co_assignments c)) i x \<and>
        linked_upto (length (co_assignments c)) i (st_rawscores x)"
      using x(2,4) by blast
  qed
  then show ?thesis using False h'(1,2) s by auto
qed


subsection \<open>Statistics\<close>

text \<open>What the sums and moments leave alone: which assignment and section a tally is for, and its table.\<close>

definition tally_view :: "'a tally_scheme \<Rightarrow> nat \<times> freqs list" where
  "tally_view t = (t_asgt t, t_freqs t)"

definition section_view :: "sectionstats \<Rightarrow> (nat \<times> freqs list) \<times> nat" where
  "section_view t = (tally_view t, ss_section t)"

definition stats_view :: "stats \<Rightarrow> ((nat \<times> freqs list) \<times> ((nat \<times> freqs list) \<times> nat) list) list" where
  "stats_view s = map (\<lambda>csp. (tally_view csp, map section_view (cl_sstats csp))) s"

definition stats_for :: "stats \<Rightarrow> (nat \<times> (nat \<times> nat) list) list" where
  "stats_for s = map (\<lambda>csp. (t_asgt csp, map (\<lambda>t. (t_asgt t, ss_section t)) (cl_sstats csp))) s"

lemma upd_cstats_map:
  assumes "upd_cstats s p f = Some s'" "\<And>csp csp'. f csp = Some csp' \<Longrightarrow> v csp' = v csp"
  shows "map v s' = map v s"
  using assms by (auto simp: upd_cstats_def bind_eq_Some_conv buf_get_def buf_put_def map_update list_update_same_conv
      split: if_splits)

lemma upd_sstats_map:
  assumes "upd_sstats s p f = Some s'" "\<And>ssp ssp'. f ssp = Some ssp' \<Longrightarrow> w ssp' = w ssp"
    "\<And>csp ssps. map w ssps = map w (cl_sstats csp) \<Longrightarrow> v (csp\<lparr>cl_sstats := ssps\<rparr>) = v csp"
  shows "map v s' = map v s"
proof -
  obtain i j where i: "i < length s" "j < length (cl_sstats (s ! i))"
    and e: "\<exists>ssp'. f (cl_sstats (s ! i) ! j) = Some ssp' \<and>
      s' = s[i := (s ! i)\<lparr>cl_sstats := (cl_sstats (s ! i))[j := ssp']\<rparr>]"
    using assms(1) by (auto simp: upd_sstats_def bind_eq_Some_conv buf_get_def buf_put_def split: if_splits)
  then obtain ssp' where s': "f (cl_sstats (s ! i) ! j) = Some ssp'"
    "s' = s[i := (s ! i)\<lparr>cl_sstats := (cl_sstats (s ! i))[j := ssp']\<rparr>]" by blast
  have "map w ((cl_sstats (s ! i))[j := ssp']) = map w (cl_sstats (s ! i))"
    using assms(2) [OF s'(1)] i(2) by (simp add: map_update list_update_same_conv)
  from assms(3) [OF this] show ?thesis using i(1) s'(2) by (simp add: map_update list_update_same_conv)
qed

lemma view_updates:
  "tally_view (first_valid g t) = tally_view t" "tally_view (add_sums g t) = tally_view t"
  "widen g t = Some t' \<Longrightarrow> tally_view t' = tally_view t" "tally_view (t\<lparr>t_valid := n\<rparr>) = tally_view t"
  by (auto simp: tally_view_def first_valid_def add_sums_def widen_def Let_def bind_eq_Some_conv)

lemma section_updates:
  "ss_section (first_valid g t) = ss_section t" "ss_section (add_sums g t) = ss_section t"
  by (simp_all add: first_valid_def add_sums_def)

lemma class_updates:
  "cl_sstats (first_valid g t) = cl_sstats t" "cl_sstats (add_sums g t) = cl_sstats t"
  "widen g c = Some c' \<Longrightarrow> cl_sstats c' = cl_sstats c"
  by (auto simp: first_valid_def add_sums_def widen_def Let_def bind_eq_Some_conv)

lemma stats_view_section:
  "upd_sstats s p f = Some s' \<Longrightarrow> (\<And>t t'. f t = Some t' \<Longrightarrow> section_view t' = section_view t) \<Longrightarrow> stats_view s' = stats_view s"
  unfolding stats_view_def by (rule upd_sstats_map [where w = section_view]) (auto simp: tally_view_def)

lemma stats_view_class:
  "upd_cstats s p f = Some s' \<Longrightarrow> (\<And>t t'. f t = Some t' \<Longrightarrow> tally_view t' = tally_view t \<and> cl_sstats t' = cl_sstats t) \<Longrightarrow>
     stats_view s' = stats_view s"
  unfolding stats_view_def by (rule upd_cstats_map) auto

lemma sum_score_view: "sum_score scp s = Some s' \<Longrightarrow> stats_view s' = stats_view s"
proof -
  assume "sum_score scp s = Some s'"
  then obtain g s1 s2 s3 and ssp :: sectionstats where r: "upd_cstats s (sc_cstats scp) (\<lambda>csp.
       if t_valid csp = 0 then Some (first_valid g csp) else widen g (csp\<lparr>t_valid := t_valid csp + 1\<rparr>)) = Some s1"
    "(if t_valid ssp = 0 then upd_sstats s1 (sc_sstats scp) (\<lambda>ssp. Some (first_valid g ssp))
           else do {
             s \<leftarrow> upd_sstats s1 (sc_sstats scp) (\<lambda>ssp. Some (ssp\<lparr>t_valid := t_valid ssp + 1\<rparr>));
             upd_cstats s (sc_cstats scp) (widen g)
           }) = Some s2"
    "upd_cstats s2 (sc_cstats scp) (\<lambda>csp. Some (add_sums g csp)) = Some s3"
    "upd_sstats s3 (sc_sstats scp) (\<lambda>ssp. Some (add_sums g ssp)) = Some s'"
    by (auto simp: sum_score_def Let_def bind_eq_Some_conv simp del: fun_upd_apply)
  have 1: "stats_view s1 = stats_view s"
    by (rule stats_view_class [OF r(1)]) (auto simp: view_updates class_updates split: if_splits dest: view_updates(3) class_updates(3))
  have 2: "stats_view s2 = stats_view s1"
    using r(2) by (auto simp: bind_eq_Some_conv section_view_def view_updates section_updates split: if_splits
        dest!: stats_view_section stats_view_class dest: view_updates(3) class_updates(3))
  have 3: "stats_view s3 = stats_view s2"
    by (rule stats_view_class [OF r(3)]) (auto simp: view_updates class_updates)
  have 4: "stats_view s' = stats_view s3"
    by (rule stats_view_section [OF r(4)]) (auto simp: section_view_def view_updates section_updates)
  show ?thesis using 1 2 3 4 by simp
qed

lemma sum_scores_view: "sum_scores scps s = Some s' \<Longrightarrow> stats_view s' = stats_view s"
  by (induction scps s rule: sum_scores.induct) (auto simp: bind_eq_Some_conv sum_score_view split: if_splits)

lemma freq_scores_map:
  assumes "\<And>g csp. v (tally_freq g csp) = v csp" "\<And>g ssp. w (tally_freq g ssp) = w ssp"
    "\<And>csp ssps. map w ssps = map w (cl_sstats csp) \<Longrightarrow> v (csp\<lparr>cl_sstats := ssps\<rparr>) = v csp"
  shows "freq_scores scps s = Some s' \<Longrightarrow> map v s' = map v s"
proof (induction scps s rule: freq_scores.induct)
  case (2 scp scps s)
  show ?case
  proof (cases "counts scp")
    case True
    then obtain g s1 s2 where g: "sc_grade scp = Some g" and r: "upd_cstats s (sc_cstats scp) (\<lambda>csp. Some (tally_freq g csp)) = Some s1"
      "upd_sstats s1 (sc_sstats scp) (\<lambda>ssp. Some (tally_freq g ssp)) = Some s2" "freq_scores scps s2 = Some s'"
      using 2(3) by (auto simp: bind_eq_Some_conv)
    have "map v s1 = map v s" by (rule upd_cstats_map [OF r(1)]) (auto simp: assms(1))
    moreover have "map v s2 = map v s1" by (rule upd_sstats_map [OF r(2), where w = w]) (auto simp: assms)
    moreover have "map v s' = map v s2" using 2(1) [OF True g r(1,2,3)] .
    ultimately show ?thesis by simp
  qed (use 2 in auto)
qed simp

lemma freq_scores_for: "freq_scores scps s = Some s' \<Longrightarrow> stats_for s' = stats_for s"
  unfolding stats_for_def
  by (erule freq_scores_map [where w = "\<lambda>t. (t_asgt t, ss_section t)", rotated 3]) (auto simp: tally_freq_def)

definition valid_view :: "stats \<Rightarrow> (int \<times> int list) list" where
  "valid_view s = map (\<lambda>csp. (t_valid csp, map t_valid (cl_sstats csp))) s"

lemma freq_scores_valid: "freq_scores scps s = Some s' \<Longrightarrow> valid_view s' = valid_view s"
  unfolding valid_view_def
  by (erule freq_scores_map [where w = "t_valid :: sectionstats \<Rightarrow> int", rotated 3]) (auto simp: tally_freq_def)

text \<open>Statistics with nothing missing, for \<open>n\<close> assignments and \<open>m\<close> sections.\<close>

definition counted :: "freqs list \<Rightarrow> bool" where
  "counted fps \<longleftrightarrow> (\<forall>fp \<in> set fps. fr_numless fp \<noteq> None \<and> fr_numlesseq fp \<noteq> None)"

definition tally_full :: "'a tally_scheme \<Rightarrow> bool" where
  "tally_full t \<longleftrightarrow> counted (t_freqs t) \<and> t_mean t \<noteq> None \<and> t_stddev t \<noteq> None"

definition stats_full :: "nat \<Rightarrow> nat \<Rightarrow> stats \<Rightarrow> bool" where
  "stats_full n m s \<longleftrightarrow> stats_for s = map (\<lambda>i. (i, map (\<lambda>j. (i, j)) [0..<m])) [0..<n] \<and>
     (\<forall>csp \<in> set s. tally_full csp \<and> (\<forall>ssp \<in> set (cl_sstats csp). tally_full ssp))"

lemma number_freqs_counted: "counted (number_freqs n fps)"
  by (induction n fps rule: number_freqs.induct) (auto simp: counted_def)

lemma do_quantiles_for: "stats_for (do_quantiles s) = stats_for s"
  by (simp add: stats_for_def do_quantiles_def tally_quantiles_def)

definition table_full :: "(nat \<times> freqs list) \<times> ((nat \<times> freqs list) \<times> nat) list \<Rightarrow> bool" where
  "table_full v \<longleftrightarrow> counted (snd (fst v)) \<and> (\<forall>w \<in> set (snd v). counted (snd (fst w)))"

lemma do_quantiles_counted: "\<forall>v \<in> set (stats_view (do_quantiles s)). table_full v"
  by (auto simp: stats_view_def do_quantiles_def tally_quantiles_def section_view_def tally_view_def table_full_def number_freqs_counted)

lemma stats_for_view: "stats_for s = map (\<lambda>v. (fst (fst v), map (\<lambda>w. (fst (fst w), snd w)) (snd v))) (stats_view s)"
  by (simp add: stats_for_def stats_view_def section_view_def tally_view_def comp_def)

lemma tally_moments_view: "tally_view (fst (tally_moments sect t)) = tally_view t" "t_mean (fst (tally_moments sect t)) \<noteq> None"
  "t_stddev (fst (tally_moments sect t)) \<noteq> None"
  by (auto simp: tally_moments_def tally_view_def Let_def)

lemma section_moments_view: "map section_view (fst (section_moments ssps)) = map section_view ssps \<and>
    (\<forall>ssp \<in> set (fst (section_moments ssps)). t_mean ssp \<noteq> None \<and> t_stddev ssp \<noteq> None)"
proof (induction ssps)
  case (Cons ssp ssps)
  have "ss_section (fst (tally_moments (Some (ss_section ssp)) ssp)) = ss_section ssp"
    by (auto simp: tally_moments_def Let_def)
  then show ?case using Cons tally_moments_view [of "Some (ss_section ssp)" ssp]
    by (auto simp: section_view_def split: prod.splits)
qed simp

lemma do_moments_view: "stats_view (fst (do_moments s)) = stats_view s \<and>
    (\<forall>csp \<in> set (fst (do_moments s)). t_mean csp \<noteq> None \<and> t_stddev csp \<noteq> None \<and>
      (\<forall>ssp \<in> set (cl_sstats csp). t_mean ssp \<noteq> None \<and> t_stddev ssp \<noteq> None))"
proof (induction s)
  case (Cons csp s)
  have "cl_sstats (fst (tally_moments None csp)) = cl_sstats csp"
    by (auto simp: tally_moments_def Let_def)
  then show ?case using Cons tally_moments_view [of None csp] section_moments_view [of "cl_sstats csp"]
    by (auto simp: stats_view_def tally_view_def split: prod.splits)
qed (simp add: stats_view_def)

lemma stats_full_moments:
  assumes "stats_for s = map (\<lambda>i. (i, map (\<lambda>j. (i, j)) [0..<m])) [0..<n]" "\<forall>v \<in> set (stats_view s). table_full v"
  shows "stats_full n m (fst (do_moments s))"
proof -
  have v: "stats_view (fst (do_moments s)) = stats_view s" using do_moments_view [of s] by simp
  have "table_full (tally_view csp, map section_view (cl_sstats csp))" if "csp \<in> set (fst (do_moments s))" for csp
    using assms(2) that unfolding v [symmetric] by (auto simp: stats_view_def)
  then show ?thesis using assms(1) do_moments_view [of s]
    by (auto simp: stats_full_def stats_for_view v tally_full_def table_full_def tally_view_def section_view_def)
qed

lemma stats_for_shape: "stats_for s = map (\<lambda>i. (i, map (\<lambda>j. (i, j)) [0..<m])) [0..<n] \<Longrightarrow> shape s = replicate n m"
proof -
  assume "stats_for s = map (\<lambda>i. (i, map (\<lambda>j. (i, j)) [0..<m])) [0..<n]"
  then have "map (\<lambda>p. length (snd p)) (stats_for s) = map (\<lambda>p. length (snd p)) (map (\<lambda>i. (i, map (\<lambda>j. (i, j)) [0..<m])) [0..<n])"
    by simp
  then show ?thesis by (simp add: stats_for_def shape_def comp_def map_replicate_const)
qed

lemma buildstats_for: "stats_for (buildstats c) =
    map (\<lambda>i. (i, map (\<lambda>j. (i, j)) [0..<length (co_sections c)])) [0..<length (co_assignments c)]"
  by (simp add: stats_for_def buildstats_def new_classstats_def new_sectionstats_def comp_def)

end
