(* ===== verification/Grades_Safety.thy ===== *)
theory Grades_Safety
  imports Grades_Complete Grades_Normal
begin

text \<open>
  The passes over the database run without a memory fault on well typed data: the statistics of stats.c,
  and the normalized and composite scores of normal.c.
\<close>

definition course_list :: "course \<Rightarrow> nat list list \<Rightarrow> nat list" where
  "course_list c pss = (if co_assignments c = [] then [] else concat pss)"

lemma course_list_in: "a \<in> set (course_list c pss) \<Longrightarrow> \<exists>i < length pss. a \<in> set (pss ! i)"
proof -
  assume "a \<in> set (course_list c pss)"
  then obtain ps where "ps \<in> set pss" "a \<in> set ps" by (auto simp: course_list_def split: if_splits)
  then show ?thesis using in_set_conv_nth [of ps pss] by blast
qed

lemma all_linkedD: "all_linked n h pss \<Longrightarrow> i < length pss \<Longrightarrow> a \<in> set (pss ! i) \<Longrightarrow>
    \<exists>x. h a = Some x \<and> student_typed n i x \<and> linked_upto n i (st_rawscores x)"
  unfolding all_linked_def by blast

lemma all_linked_scores:
  assumes "all_linked n h pss" "scp \<in> set (roster_scores h (course_list c pss))"
  shows "\<exists>j < length pss. score_typed n scp \<and> sc_cstats scp = Some (sc_asgt scp) \<and> sc_sstats scp = Some (sc_asgt scp, j)"
proof -
  obtain a where a: "a \<in> set (course_list c pss)" "scp \<in> set (st_rawscores (the (h a)))"
    using assms(2) by (auto simp: roster_scores_def)
  then obtain i where i: "i < length pss" "a \<in> set (pss ! i)" using course_list_in by blast
  obtain x where "h a = Some x" "student_typed n i x" "linked_upto n i (st_rawscores x)"
    using all_linkedD [OF assms(1) i] by blast
  then show ?thesis using a(2) i(1) by (auto simp: student_typed_def linked_upto_def score_typed_def)
qed

lemma stats_ok_start:
  assumes "freq_scores scps (buildstats c) = Some s" "shape (do_quantiles s) = sh"
  shows "stats_ok sh [] (do_quantiles s)"
proof -
  have "valid_view (do_quantiles s) = valid_view s"
    by (simp add: valid_view_def do_quantiles_def tally_quantiles_def)
  moreover have "\<forall>v \<in> set (valid_view (buildstats c)). fst v = 0 \<and> (\<forall>k \<in> set (snd v). k = 0)"
    by (auto simp: valid_view_def buildstats_def new_classstats_def new_sectionstats_def)
  ultimately have v: "\<forall>v \<in> set (valid_view (do_quantiles s)). fst v = 0 \<and> (\<forall>k \<in> set (snd v). k = 0)"
    using freq_scores_valid [OF assms(1)] by simp
  have "t_valid csp = 0 \<and> (\<forall>ssp \<in> set (cl_sstats csp). t_valid ssp = 0)" if "csp \<in> set (do_quantiles s)" for csp
    using v that by (auto simp: valid_view_def)
  then have "t_valid (do_quantiles s ! i) = 0 \<and> (\<forall>j < length (cl_sstats (do_quantiles s ! i)).
      t_valid (cl_sstats (do_quantiles s ! i) ! j) = 0)" if "i < length (do_quantiles s)" for i
    using nth_mem [OF that] by simp
  then show ?thesis using assms(2) by (simp add: stats_ok_def class_ok_def section_ok_def section_grades_def)
qed

lemma statistics_typed:
  assumes "well_typed c h pss"
  shows "\<exists>p h' st ws. statistics c h = Some (c\<lparr>co_roster := p\<rparr>, h', st, ws) \<and> same_shells h h' \<and>
    chain h' st_cnext p (course_list c pss) \<and> all_linked (length (co_assignments c)) h' pss \<and>
    stats_full (length (co_assignments c)) (length (co_sections c)) st"
proof -
  let ?n = "length (co_assignments c)" and ?m = "length (co_sections c)"
  let ?f = "map (\<lambda>i. (i, map (\<lambda>j. (i, j)) [0..<?m])) [0..<?n]"
  have m: "?m = length pss" using assms by (auto simp: well_typed_def dest: list_all2_lengthD)
  obtain p h' where l: "do_links c h = Some (c\<lparr>co_roster := p\<rparr>, h')" "same_shells h h'"
    "chain h' st_cnext p (course_list c pss)" "all_linked ?n h' pss"
    using do_links_typed [OF assms] by (auto simp: course_list_def)
  let ?c = "c\<lparr>co_roster := p\<rparr>" and ?x = "roster_scores h' (course_list c pss)"
  have k: "\<forall>scp \<in> set ?x. counts scp \<longrightarrow> linked (replicate ?n ?m) scp"
  proof (intro ballI impI)
    fix scp assume s: "scp \<in> set ?x" "counts scp"
    obtain j where "j < length pss" "score_typed ?n scp" "sc_cstats scp = Some (sc_asgt scp)" "sc_sstats scp = Some (sc_asgt scp, j)"
      using all_linked_scores [OF l(4) s(1)] by blast
    then show "linked (replicate ?n ?m) scp" using s(2) m by (auto simp: linked_def score_typed_def counts_def)
  qed
  have b: "stats_for (buildstats c) = ?f" "shape (buildstats c) = replicate ?n ?m"
    using buildstats_for stats_for_shape by blast+
  obtain s1 where s1: "freq_scores ?x (buildstats c) = Some s1" using freq_scores_ok [of ?x "buildstats c"] k b(2) by auto
  have f1: "stats_for (do_quantiles s1) = ?f" using freq_scores_for [OF s1] b(1) do_quantiles_for by simp
  have sh: "shape (do_quantiles s1) = replicate ?n ?m" by (rule stats_for_shape [OF f1])
  obtain s2 where s2: "sum_scores ?x (do_quantiles s1) = Some s2"
    using sum_scores_ok [OF stats_ok_start [OF s1 sh] k] by blast
  have v2: "stats_view s2 = stats_view (do_quantiles s1)" by (rule sum_scores_view [OF s2])
  have "stats_full ?n ?m (fst (do_moments s2))"
    using f1 do_quantiles_counted [of s1] by (intro stats_full_moments) (simp_all add: stats_for_view v2)
  moreover have "do_freqs ?c h' (buildstats c) = Some s1"
    using over_roster_concat [OF l(3) freq_scores_append] s1 by (simp add: do_freqs_def)
  moreover have "do_sums ?c h' (do_quantiles s1) = Some s2"
    using over_roster_concat [OF l(3) sum_scores_append] s2 by (simp add: do_sums_def)
  ultimately have "statistics c h = Some (?c, h', do_moments s2)"
    using l(1) by (simp add: statistics_def case_prod_unfold)
  then show ?thesis using l \<open>stats_full ?n ?m (fst (do_moments s2))\<close>
    by (intro exI [of _ p] exI [of _ h'] exI [of _ "fst (do_moments s2)"] exI [of _ "snd (do_moments s2)"]) simp
qed


subsection \<open>Normalization\<close>

definition policy :: "assignment \<Rightarrow> assignment" where
  "policy a = a\<lparr>as_max := Finite 0\<rparr>"

text \<open>What normalization may have changed: declared maxima of the course \<open>c0\<close>, and the statistics.\<close>

definition nstate_ok :: "nat \<Rightarrow> course \<Rightarrow> nstate \<Rightarrow> bool" where
  "nstate_ok m c0 = (\<lambda>(c, st, ws). c = c0\<lparr>co_assignments := co_assignments c\<rparr> \<and>
     map policy (co_assignments c) = map policy (co_assignments c0) \<and> stats_full (length (co_assignments c0)) m st)"

lemma policy_simps: "policy a = policy b \<Longrightarrow> as_npolicy a = as_npolicy b \<and> as_mean a = as_mean b \<and> as_stddev a = as_stddev b \<and>
    as_scale a = as_scale b \<and> as_ngroup a = as_ngroup b \<and> as_name a = as_name b"
  by (cases a; cases b) (simp add: policy_def)

lemma nstate_assignment:
  assumes "nstate_ok m c0 (c, st, ws)" "i < length (co_assignments c0)"
  shows "i < length (co_assignments c)" "policy (co_assignments c ! i) = policy (co_assignments c0 ! i)"
proof -
  have p: "map policy (co_assignments c) = map policy (co_assignments c0)" using assms(1) by (simp add: nstate_ok_def)
  show l: "i < length (co_assignments c)" using arg_cong [OF p, of length] assms(2) by simp
  show "policy (co_assignments c ! i) = policy (co_assignments c0 ! i)"
    using arg_cong [OF p, of "\<lambda>xs. xs ! i"] assms(2) l by simp
qed

lemma stats_full_nth:
  assumes "stats_full n m st" "i < n"
  shows "i < length st" "t_asgt (st ! i) = i" "length (cl_sstats (st ! i)) = m" "tally_full (st ! i)"
    "j < m \<Longrightarrow> tally_full (cl_sstats (st ! i) ! j)"
proof -
  have f: "stats_for st = map (\<lambda>i. (i, map (\<lambda>j. (i, j)) [0..<m])) [0..<n]" using assms(1) by (simp add: stats_full_def)
  show i: "i < length st" using arg_cong [OF f, of length] assms(2) by (simp add: stats_for_def)
  have e: "(t_asgt (st ! i), map (\<lambda>t. (t_asgt t, ss_section t)) (cl_sstats (st ! i))) = (i, map (\<lambda>j. (i, j)) [0..<m])"
    using arg_cong [OF f, of "\<lambda>xs. xs ! i"] assms(2) i by (simp add: stats_for_def)
  then show "t_asgt (st ! i) = i" by simp
  show m: "length (cl_sstats (st ! i)) = m" using arg_cong [OF e, of "\<lambda>p. length (snd p)"] by simp
  show "tally_full (st ! i)" using assms(1) nth_mem [OF i] by (simp add: stats_full_def)
  show "tally_full (cl_sstats (st ! i) ! j)" if "j < m"
    using assms(1) nth_mem [OF i] nth_mem [of j "cl_sstats (st ! i)"] that m by (simp add: stats_full_def)
qed

lemma stats_full_class:
  assumes "stats_full n m st" "i < n" "tally_full t" "t_asgt t = i" "cl_sstats t = cl_sstats (st ! i)"
  shows "\<exists>st'. upd_cstats st (Some i) (\<lambda>_. Some t) = Some st' \<and> stats_full n m st'"
proof -
  note nth = stats_full_nth [OF assms(1,2)]
  have "stats_for (st[i := t]) = stats_for st"
    using nth(1,2) assms(4,5) by (simp add: stats_for_def map_update list_update_same_conv)
  moreover have "\<forall>csp \<in> set (st[i := t]). tally_full csp \<and> (\<forall>ssp \<in> set (cl_sstats csp). tally_full ssp)"
  proof
    fix csp assume "csp \<in> set (st[i := t])"
    then have "csp = t \<or> csp \<in> set st" using set_update_subset_insert by fastforce
    moreover have "\<forall>ssp \<in> set (cl_sstats (st ! i)). tally_full ssp"
      using assms(1) nth_mem [OF nth(1)] by (simp add: stats_full_def)
    ultimately show "tally_full csp \<and> (\<forall>ssp \<in> set (cl_sstats csp). tally_full ssp)"
      using assms(1,3,5) by (auto simp: stats_full_def)
  qed
  ultimately have "stats_full n m (st[i := t])" using assms(1) by (simp add: stats_full_def)
  then show ?thesis using nth(1) by (simp add: upd_cstats_def buf_get_def buf_put_def)
qed

lemma stats_full_section:
  assumes "stats_full n m st" "i < n" "j < m" "tally_full t" "t_asgt t = t_asgt (cl_sstats (st ! i) ! j)"
    "ss_section t = ss_section (cl_sstats (st ! i) ! j)"
  shows "\<exists>st'. upd_sstats st (Some (i, j)) (\<lambda>_. Some t) = Some st' \<and> stats_full n m st'"
proof -
  note nth = stats_full_nth [OF assms(1,2)]
  let ?t = "(st ! i)\<lparr>cl_sstats := (cl_sstats (st ! i))[j := t]\<rparr>"
  have "map (\<lambda>t. (t_asgt t, ss_section t)) ((cl_sstats (st ! i))[j := t]) = map (\<lambda>t. (t_asgt t, ss_section t)) (cl_sstats (st ! i))"
    using nth(3) assms(3,5,6) by (simp add: map_update list_update_same_conv)
  then have "stats_for (st[i := ?t]) = stats_for st"
    using nth(1) by (simp add: stats_for_def map_update list_update_same_conv)
  moreover have "\<forall>csp \<in> set (st[i := ?t]). tally_full csp \<and> (\<forall>ssp \<in> set (cl_sstats csp). tally_full ssp)"
  proof
    fix csp assume "csp \<in> set (st[i := ?t])"
    then have "csp = ?t \<or> csp \<in> set st" using set_update_subset_insert by fastforce
    moreover have "\<forall>ssp \<in> set (cl_sstats ?t). tally_full ssp"
    proof
      fix ssp assume "ssp \<in> set (cl_sstats ?t)"
      then have "ssp = t \<or> ssp \<in> set (cl_sstats (st ! i))" using set_update_subset_insert by fastforce
      then show "tally_full ssp" using assms(1,4) nth_mem [OF nth(1)] by (auto simp: stats_full_def)
    qed
    moreover have "tally_full ?t" using nth(4) by (simp add: tally_full_def)
    ultimately show "tally_full csp \<and> (\<forall>ssp \<in> set (cl_sstats csp). tally_full ssp)"
      using assms(1) unfolding stats_full_def by blast
  qed
  ultimately have "stats_full n m (st[i := ?t])" using assms(1) by (simp add: stats_full_def)
  then show ?thesis using nth(1,3) assms(3) by (simp add: upd_sstats_def buf_get_def buf_put_def)
qed

lemma quantile_loop_runs: "counted fps \<Longrightarrow> \<exists>g. quantile_loop s n fps = Some g"
  by (induction fps) (auto simp: counted_def)

lemma guard_runs: "tally_full t \<Longrightarrow> \<exists>t' b. guard_stddev t = Some (t', b) \<and> tally_full t' \<and> t_asgt t' = t_asgt t"
  by (cases "f_less (the (t_stddev t)) EPSILON") (auto simp: guard_stddev_def tally_full_def)

lemma guard_class: "guard_stddev (t :: classstats) = Some (t', b) \<Longrightarrow> cl_sstats t' = cl_sstats t"
  by (auto simp: guard_stddev_def bind_eq_Some_conv split: if_splits)

lemma guard_section: "guard_stddev (t :: sectionstats) = Some (t', b) \<Longrightarrow> ss_section t' = ss_section t"
  by (auto simp: guard_stddev_def bind_eq_Some_conv split: if_splits)

lemma linear_runs: "tally_full t \<Longrightarrow> as_mean a \<noteq> None \<Longrightarrow> as_stddev a \<noteq> None \<Longrightarrow> \<exists>g. linear_tally s a t = Some g"
  by (auto simp: linear_tally_def tally_full_def)

text \<open>Where the statistics of a score are.\<close>

definition linked_to :: "nat \<Rightarrow> nat \<Rightarrow> nat \<Rightarrow> nat \<Rightarrow> ptr \<Rightarrow> (nat \<times> nat) option \<Rightarrow> bool" where
  "linked_to n m i j cp sp \<longleftrightarrow> i < n \<and> j < m \<and> cp = Some i \<and> sp = Some (i, j)"

lemma normal_linear_runs:
  assumes "nstate_ok m c0 (c, st, ws)" "linked_to (length (co_assignments c0)) m i j cp sp"
    "as_mean a \<noteq> None" "as_stddev a \<noteq> None"
  shows "\<exists>g ns. normal_linear s a cp sp (c, st, ws) = Some (g, ns) \<and> nstate_ok m c0 ns"
proof -
  have f: "stats_full (length (co_assignments c0)) m st" using assms(1) by (simp add: nstate_ok_def)
  have l: "i < length (co_assignments c0)" "j < m" "cp = Some i" "sp = Some (i, j)" using assms(2) by (auto simp: linked_to_def)
  note nth = stats_full_nth [OF f l(1)]
  show ?thesis
  proof (cases "as_ngroup a")
    case BYCLASS
    obtain t b where t: "guard_stddev (st ! i) = Some (t, b)" "tally_full t" "t_asgt t = t_asgt (st ! i)"
      using guard_runs [OF nth(4)] by blast
    obtain st' where st': "upd_cstats st (Some i) (\<lambda>_. Some t) = Some st'" "stats_full (length (co_assignments c0)) m st'"
      using stats_full_class [OF f l(1) t(2)] t(3) nth(2) guard_class [OF t(1)] by auto
    obtain g where "linear_tally s a t = Some g" using linear_runs [OF t(2) assms(3,4)] by blast
    then show ?thesis using BYCLASS t(1) st' nth(1) assms(1) l
      by (simp add: normal_linear_def buf_get_def nstate_ok_def)
  next
    case BYSECTION
    obtain t b where t: "guard_stddev (cl_sstats (st ! i) ! j) = Some (t, b)" "tally_full t"
      "t_asgt t = t_asgt (cl_sstats (st ! i) ! j)"
      using guard_runs [OF nth(5) [OF l(2)]] by blast
    obtain st' where st': "upd_sstats st (Some (i, j)) (\<lambda>_. Some t) = Some st'" "stats_full (length (co_assignments c0)) m st'"
      using stats_full_section [OF f l(1,2) t(2,3)] guard_section [OF t(1)] by auto
    obtain g where "linear_tally s a t = Some g" using linear_runs [OF t(2) assms(3,4)] by blast
    then show ?thesis using BYSECTION t(1) st' nth(1,3) assms(1) l
      by (simp add: normal_linear_def buf_get_def get_sstats_def nstate_ok_def)
  qed
qed

lemma normal_quantile_runs:
  assumes "nstate_ok m c0 (c, st, ws)" "linked_to (length (co_assignments c0)) m i j cp sp"
  shows "\<exists>g ns. normal_quantile s a cp sp (c, st, ws) = Some (g, ns) \<and> nstate_ok m c0 ns"
proof -
  have f: "stats_full (length (co_assignments c0)) m st" using assms(1) by (simp add: nstate_ok_def)
  have l: "i < length (co_assignments c0)" "j < m" "cp = Some i" "sp = Some (i, j)" using assms(2) by (auto simp: linked_to_def)
  note nth = stats_full_nth [OF f l(1)]
  have c: "counted (t_freqs (st ! i))" "counted (t_freqs (cl_sstats (st ! i) ! j))"
    using nth(4) nth(5) [OF l(2)] by (simp_all add: tally_full_def)
  show ?thesis
  proof (cases "as_ngroup a")
    case BYCLASS
    obtain k w where k: "tallied_or_1 None (st ! i) = (k, w)" by (cases "tallied_or_1 None (st ! i)")
    obtain g where "quantile_loop s k (t_freqs (st ! i)) = Some g" using quantile_loop_runs [OF c(1)] by blast
    then show ?thesis using nth(1) assms(1) l BYCLASS k by (simp add: normal_quantile_def buf_get_def nstate_ok_def)
  next
    case BYSECTION
    let ?t = "cl_sstats (st ! i) ! j"
    obtain k w where k: "tallied_or_1 (Some (ss_section ?t)) ?t = (k, w)" by (cases "tallied_or_1 (Some (ss_section ?t)) ?t")
    obtain g where "quantile_loop s k (t_freqs ?t) = Some g" using quantile_loop_runs [OF c(2)] by blast
    then show ?thesis using nth(1,3) assms(1) l BYSECTION k
      by (simp add: normal_quantile_def buf_get_def get_sstats_def nstate_ok_def)
  qed
qed

lemma normal_scale_runs:
  assumes "nstate_ok m c0 (c, st, ws)" "ap < length (co_assignments c0)" "as_scale (co_assignments c ! ap) \<noteq> None"
  shows "\<exists>g ns. normal_scale s ap (co_assignments c ! ap) (c, st, ws) = Some (g, ns) \<and> nstate_ok m c0 ns"
proof -
  note p = nstate_assignment [OF assms(1,2)]
  let ?a = "(co_assignments c ! ap)\<lparr>as_max := twice_EPSILON\<rparr>"
  have "map policy ((co_assignments c)[ap := ?a]) = map policy (co_assignments c)"
    using p(1) by (simp add: map_update list_update_same_conv policy_def)
  moreover have e: "c = c0\<lparr>co_assignments := co_assignments c\<rparr>"
    using assms(1) by (simp only: nstate_ok_def case_prod_conv)
  have "c\<lparr>co_assignments := x\<rparr> = c0\<lparr>co_assignments := x\<rparr>" for x
    by (subst e) simp
  ultimately show ?thesis using assms(1,3) p(1)
    by (auto simp: normal_scale_def buf_put_def nstate_ok_def)
qed

lemma normal_runs:
  assumes "nstate_ok m c0 ns" "linked_to (length (co_assignments c0)) m i j cp sp"
    "\<forall>a \<in> set (co_assignments c0). assignment_typed a"
  shows "\<exists>g ns'. normal s cp sp ns = Some (g, ns') \<and> nstate_ok m c0 ns'"
proof -
  obtain c st ws where ns: "ns = (c, st, ws)" by (cases ns)
  note ok = assms(1) [unfolded ns]
  have f: "stats_full (length (co_assignments c0)) m st" using ok by (simp add: nstate_ok_def)
  have l: "i < length (co_assignments c0)" "cp = Some i" using assms(2) by (auto simp: linked_to_def)
  note nth = stats_full_nth [OF f l(1)] and a = nstate_assignment [OF ok l(1)]
  let ?a = "co_assignments c ! i"
  have t: "assignment_typed ?a" using assms(3) nth_mem [OF l(1)] policy_simps [OF a(2)] by (simp add: assignment_typed_def)
  have n: "normal s cp sp ns = (case as_npolicy ?a of
        RAW \<Rightarrow> Some (to_format single s, c, st, ws)
      | LINEAR \<Rightarrow> normal_linear s ?a cp sp (c, st, ws)
      | SCALE \<Rightarrow> normal_scale s i ?a (c, st, ws)
      | QUANTILE \<Rightarrow> normal_quantile s ?a cp sp (c, st, ws))"
    using nth(1,2) a(1) l(2) by (simp add: normal_def ns buf_get_def split: npolicy.split)
  show ?thesis unfolding n
    using ok t normal_linear_runs [OF ok assms(2), of ?a s] normal_quantile_runs [OF ok assms(2), of s ?a]
      normal_scale_runs [OF ok l(1), of s]
    by (cases "as_npolicy ?a") (auto simp: assignment_typed_def)
qed


definition score_linked :: "nat \<Rightarrow> nat \<Rightarrow> score \<Rightarrow> bool" where
  "score_linked n m scp \<longleftrightarrow> score_typed n scp \<and> sc_cstats scp = Some (sc_asgt scp) \<and>
     (\<exists>j < m. sc_sstats scp = Some (sc_asgt scp, j))"

text \<open>\<open>USECLASSAVG\<close> reads the mean of an assignment that only a LINEAR policy declares.\<close>

definition average_known :: "course \<Rightarrow> score \<Rightarrow> bool" where
  "average_known c scp \<longleftrightarrow> (sc_flag scp = INVALID \<and> sc_subst scp = USECLASSAVG \<longrightarrow>
     as_npolicy (co_assignments c ! sc_asgt scp) \<in> {LINEAR, QUANTILE})"

lemma score_linked_to: "score_linked n m scp \<Longrightarrow> \<exists>j. linked_to n m (sc_asgt scp) j (sc_cstats scp) (sc_sstats scp)"
  by (auto simp: score_linked_def linked_to_def score_typed_def)

abbreviation typed_course :: "course \<Rightarrow> bool" where
  "typed_course c \<equiv> \<forall>a \<in> set (co_assignments c). assignment_typed a"

lemma avg_loop_runs:
  "nstate_ok m c0 ns \<Longrightarrow> \<forall>scp \<in> set scps. score_linked (length (co_assignments c0)) m scp \<Longrightarrow> typed_course c0 \<Longrightarrow>
   \<exists>v' ns'. avg_loop t scps v ns = Some (v', ns') \<and> nstate_ok m c0 ns'"
proof (induction scps arbitrary: v ns)
  case (Cons scp scps)
  obtain c st ws where ns: "ns = (c, st, ws)" by (cases ns)
  obtain n wp sm w where v: "v = (n, wp, sm, w)" by (cases v)
  have sl: "score_linked (length (co_assignments c0)) m scp" using Cons.prems(2) by simp
  then have i: "sc_asgt scp < length (co_assignments c0)" by (simp add: score_linked_def score_typed_def)
  note a = nstate_assignment [OF Cons.prems(1) [unfolded ns] i]
  have IH: "\<exists>v' ns'. avg_loop t scps v ns = Some (v', ns') \<and> nstate_ok m c0 ns'" if "nstate_ok m c0 ns" for v ns
    by (rule Cons.IH [OF that]) (use Cons.prems in auto)
  show ?case
  proof (cases "as_atype (co_assignments c ! sc_asgt scp) = t \<and> counts scp")
    case True
    then obtain s where s: "sc_grade scp = Some s" using sl by (auto simp: score_linked_def score_typed_def counts_def)
    obtain j where j: "linked_to (length (co_assignments c0)) m (sc_asgt scp) j (sc_cstats scp) (sc_sstats scp)"
      using score_linked_to [OF sl] by blast
    obtain g ns1 where n1: "normal s (sc_cstats scp) (sc_sstats scp) ns = Some (g, ns1)" "nstate_ok m c0 ns1"
      using normal_runs [OF Cons.prems(1) j Cons.prems(3)] by blast
    show ?thesis using True s n1(1) a(1) IH [OF n1(2)] by (auto simp: v ns buf_get_def)
  next
    case False
    then show ?thesis using a(1) IH [OF Cons.prems(1)] by (auto simp: v ns buf_get_def)
  qed
qed auto

lemma studentavg_runs:
  assumes "nstate_ok m c0 ns" "\<forall>scp \<in> set (st_rawscores x). score_linked (length (co_assignments c0)) m scp" "typed_course c0"
  shows "\<exists>g ns'. studentavg stp x t ns = Some (g, ns') \<and> nstate_ok m c0 ns'"
proof -
  obtain n wp sm w c st ws where r: "avg_loop t (st_rawscores x) (0, False, Finite 0, Finite 0) ns = Some ((n, wp, sm, w), c, st, ws)"
    "nstate_ok m c0 (c, st, ws)"
    using avg_loop_runs [OF assms, of t "(0, False, Finite 0, Finite 0)"] by (metis prod_cases3)
  then show ?thesis by (auto simp: studentavg_def nstate_ok_def)
qed

lemma norm_grade_runs:
  assumes "nstate_ok m c0 ns" "\<forall>scp \<in> set (st_rawscores x). score_linked (length (co_assignments c0)) m scp" "typed_course c0"
    "scp \<in> set (st_rawscores x)" "average_known c0 scp"
  shows "\<exists>g ns'. norm_grade stp x scp ns = Some (g, ns') \<and> nstate_ok m c0 ns'"
proof -
  obtain c st ws where ns: "ns = (c, st, ws)" by (cases ns)
  have sl: "score_linked (length (co_assignments c0)) m scp" using assms(2,4) by simp
  then have i: "sc_asgt scp < length (co_assignments c0)" "score_typed (length (co_assignments c0)) scp"
    "sc_cstats scp = Some (sc_asgt scp)" by (auto simp: score_linked_def score_typed_def)
  note a = nstate_assignment [OF assms(1) [unfolded ns] i(1)]
  have f: "stats_full (length (co_assignments c0)) m st" using assms(1) by (simp add: nstate_ok_def ns)
  note nth = stats_full_nth [OF f i(1)]
  obtain j where j: "linked_to (length (co_assignments c0)) m (sc_asgt scp) j (sc_cstats scp) (sc_sstats scp)"
    using score_linked_to [OF sl] by blast
  have n: "\<exists>g ns'. normal s (sc_cstats scp) (sc_sstats scp) ns = Some (g, ns') \<and> nstate_ok m c0 ns'" for s
    by (rule normal_runs [OF assms(1) j assms(3)])
  have t: "assignment_typed (co_assignments c0 ! sc_asgt scp)" using assms(3) i(1) by simp
  show ?thesis
  proof (cases "sc_flag scp")
    case VALID
    then show ?thesis using n i(2) by (auto simp: norm_grade_def score_typed_def)
  next
    case INVALID
    show ?thesis
    proof (cases "sc_subst scp")
      case USERAW
      then show ?thesis using INVALID n i(2) by (auto simp: norm_grade_def score_typed_def)
    next
      case USENORM
      then show ?thesis using INVALID i(2) a(1) assms(1) by (auto simp: norm_grade_def score_typed_def buf_get_def ns)
    next
      case USELIKEAVG
      then show ?thesis using INVALID a(1) nth(1,2) i(3) studentavg_runs [OF assms(1-3)]
        by (simp add: norm_grade_def buf_get_def ns)
    next
      case USECLASSAVG
      then have "as_npolicy (co_assignments c ! sc_asgt scp) = QUANTILE \<or> as_mean (co_assignments c ! sc_asgt scp) \<noteq> None"
        using assms(5) INVALID t policy_simps [OF a(2)] by (auto simp: average_known_def assignment_typed_def)
      then show ?thesis using USECLASSAVG INVALID a(1) assms(1) by (auto simp: norm_grade_def buf_get_def ns)
    qed
  qed
qed

lemma norm_scores_runs:
  assumes "\<forall>scp \<in> set (st_rawscores x). score_linked (length (co_assignments c0)) m scp \<and> average_known c0 scp" "typed_course c0"
  shows "nstate_ok m c0 ns \<Longrightarrow> set scps \<subseteq> set (st_rawscores x) \<Longrightarrow>
    \<exists>ys ns'. norm_scores stp x scps ns = Some (ys, ns') \<and> nstate_ok m c0 ns' \<and> length ys = length scps \<and>
      (\<forall>y \<in> set ys. sc_grade y \<noteq> None)"
proof (induction scps arbitrary: ns)
  case (Cons scp scps)
  have l: "\<forall>scp \<in> set (st_rawscores x). score_linked (length (co_assignments c0)) m scp" "average_known c0 scp" "scp \<in> set (st_rawscores x)"
    using assms(1) Cons.prems(2) by auto
  obtain g ns1 where g: "norm_grade stp x scp ns = Some (g, ns1)" "nstate_ok m c0 ns1"
    using norm_grade_runs [OF Cons.prems(1) l(1) assms(2) l(3,2)] by blast
  obtain ys ns2 where "norm_scores stp x scps ns1 = Some (ys, ns2)" "nstate_ok m c0 ns2" "length ys = length scps"
    "\<forall>y \<in> set ys. sc_grade y \<noteq> None"
    using Cons.IH [OF g(2)] Cons.prems(2) by auto
  then show ?case using g(1) by (simp add: new_normscore_def)
qed simp

text \<open>A pass over the students of the course that changes each of them as \<open>R\<close> says, and no other.\<close>

definition updated :: "(student \<Rightarrow> student \<Rightarrow> bool) \<Rightarrow> nat set \<Rightarrow> students \<Rightarrow> students \<Rightarrow> bool" where
  "updated R A h h' \<longleftrightarrow> (\<forall>a. a \<notin> A \<longrightarrow> h' a = h a) \<and> (\<forall>a \<in> A. \<exists>x y. h a = Some x \<and> h' a = Some y \<and> R x y)"

lemma updated_empty [simp]: "updated R {} h h"
  by (simp add: updated_def)

lemma updated_step:
  assumes "h a = Some x" "R x y" "a \<notin> A" "updated R A (h(a \<mapsto> y)) h'"
  shows "updated R (insert a A) h h'"
  unfolding updated_def
proof (intro conjI allI impI ballI)
  show "h' b = h b" if "b \<notin> insert a A" for b using assms(4) that by (simp add: updated_def)
next
  fix b assume b: "b \<in> insert a A"
  show "\<exists>x y. h b = Some x \<and> h' b = Some y \<and> R x y"
  proof (cases "b = a")
    case True
    then show ?thesis using assms by (simp add: updated_def)
  next
    case False
    then have "b \<in> A" using b by simp
    then have "\<exists>x z. (h(a \<mapsto> y)) b = Some x \<and> h' b = Some z \<and> R x z" using assms(4) unfolding updated_def by blast
    then show ?thesis using False by simp
  qed
qed

lemma updated_in: "updated R A h h' \<Longrightarrow> a \<in> A \<Longrightarrow> \<exists>x y. h a = Some x \<and> h' a = Some y \<and> R x y"
  unfolding updated_def by blast

lemma updated_out: "updated R A h h' \<Longrightarrow> a \<notin> A \<Longrightarrow> h' a = h a"
  unfolding updated_def by blast

lemma updated_chain:
  assumes "updated R A h h'" "\<And>x y. R x y \<Longrightarrow> g y = g x" "chain h g p as"
  shows "chain h' g p as"
proof (rule chain_cong [OF _ assms(3)])
  fix a assume "a \<in> set as"
  then obtain x where "h a = Some x" using chain_dom [OF assms(3)] by blast
  then show "\<exists>x y. h a = Some x \<and> h' a = Some y \<and> g y = g x"
    using updated_in [OF assms(1), of a] updated_out [OF assms(1), of a] assms(2) by (cases "a \<in> A") auto
qed

lemma chain_other: "chain h g p as \<Longrightarrow> a \<notin> set as \<Longrightarrow> chain (h(a \<mapsto> y)) g p as"
  by (simp add: chain_upd)

definition normed :: "student \<Rightarrow> student \<Rightarrow> bool" where
  "normed x y \<longleftrightarrow> (\<exists>ys. y = x\<lparr>st_normscores := ys\<rparr> \<and> length ys = length (st_rawscores x) \<and> (\<forall>s \<in> set ys. sc_grade s \<noteq> None))"

definition composed :: "student \<Rightarrow> student \<Rightarrow> bool" where
  "composed x y \<longleftrightarrow> (\<exists>c. y = x\<lparr>st_composite := c\<rparr>)"

definition gradable :: "nat \<Rightarrow> course \<Rightarrow> student \<Rightarrow> bool" where
  "gradable m c x \<longleftrightarrow> (\<forall>scp \<in> set (st_rawscores x). score_linked (length (co_assignments c)) m scp \<and> average_known c scp)"

lemma normalize_loop_runs:
  assumes "typed_course c0"
  shows "chain h st_cnext p as \<Longrightarrow> distinct as \<Longrightarrow> nstate_ok m c0 ns \<Longrightarrow> \<forall>a \<in> set as. gradable m c0 (the (h a)) \<Longrightarrow>
    \<exists>h' ns'. normalize_loop h p ns = Some (h', ns') \<and> nstate_ok m c0 ns' \<and> updated normed (set as) h h'"
proof (induction as arbitrary: h p ns)
  case Nil
  then show ?case by (subst normalize_loop.simps) simp
next
  case (Cons a as)
  obtain x where x: "p = Some a" "h a = Some x" "chain h st_cnext (st_cnext x) as" using Cons.prems(1) by auto
  have g: "\<forall>scp \<in> set (st_rawscores x). score_linked (length (co_assignments c0)) m scp \<and> average_known c0 scp"
    using Cons.prems(4) x(2) by (simp add: gradable_def)
  obtain ys ns1 where ys: "norm_scores a x (st_rawscores x) ns = Some (ys, ns1)" "nstate_ok m c0 ns1"
    "length ys = length (st_rawscores x)" "\<forall>y \<in> set ys. sc_grade y \<noteq> None"
    using norm_scores_runs [OF g assms Cons.prems(3) subset_refl, of a] by blast
  let ?y = "x\<lparr>st_normscores := ys\<rparr>"
  have d: "a \<notin> set as" "distinct as" using Cons.prems(2) by auto
  have "\<forall>b \<in> set as. gradable m c0 (the ((h(a \<mapsto> ?y)) b))" using Cons.prems(4) d(1) by auto
  then obtain h' ns' where h': "normalize_loop (h(a \<mapsto> ?y)) (st_cnext x) ns1 = Some (h', ns')" "nstate_ok m c0 ns'"
    "updated normed (set as) (h(a \<mapsto> ?y)) h'"
    using Cons.IH [OF chain_other [OF x(3) d(1)] d(2) ys(2)] by blast
  have "normed x ?y" using ys(3,4) by (auto simp: normed_def)
  then have "updated normed (set (a # as)) h h'" using updated_step [of h a x normed, OF x(2) _ d(1) h'(3)] by simp
  then show ?case using x(1,2) ys(1) h'(1,2) by (subst normalize_loop.simps) simp
qed

lemma comp_scores_runs: "\<forall>s \<in> set ys. sc_grade s \<noteq> None \<Longrightarrow> \<exists>v'. comp_scores ap a ys v = Some v'"
  by (induction ap a ys v rule: comp_scores.induct) auto

lemma comp_assignments_runs: "\<forall>s \<in> set (st_normscores x). sc_grade s \<noteq> None \<Longrightarrow> \<exists>v'. comp_assignments stp x ap as sm = Some v'"
proof (induction as arbitrary: ap sm)
  case (Cons a as)
  obtain sm1 found where "comp_scores ap a (st_normscores x) (sm, 0) = Some (sm1, found)"
    using comp_scores_runs [OF Cons.prems] by fastforce
  moreover obtain sm2 ws where "comp_assignments stp x (ap + 1) as sm1 = Some (sm2, ws)"
    using Cons.IH [OF Cons.prems] by fastforce
  ultimately show ?case by simp
qed simp

lemma composites_loop_runs:
  "chain h st_cnext p as \<Longrightarrow> distinct as \<Longrightarrow> \<forall>a \<in> set as. \<forall>s \<in> set (st_normscores (the (h a))). sc_grade s \<noteq> None \<Longrightarrow>
    \<exists>h' ws'. composites_loop c h p ws = Some (h', ws') \<and> updated composed (set as) h h'"
proof (induction as arbitrary: h p ws)
  case Nil
  then show ?case by (subst composites_loop.simps) simp
next
  case (Cons a as)
  obtain x where x: "p = Some a" "h a = Some x" "chain h st_cnext (st_cnext x) as" using Cons.prems(1) by auto
  have "\<forall>s \<in> set (st_normscores x). sc_grade s \<noteq> None" using Cons.prems(3) x(2) by simp
  then obtain sm w where sm: "comp_assignments a x 0 (co_assignments c) (Finite 0) = Some (sm, w)"
    using comp_assignments_runs by fastforce
  let ?y = "x\<lparr>st_composite := sm\<rparr>"
  have d: "a \<notin> set as" "distinct as" using Cons.prems(2) by auto
  have "\<forall>b \<in> set as. \<forall>s \<in> set (st_normscores (the ((h(a \<mapsto> ?y)) b))). sc_grade s \<noteq> None" using Cons.prems(3) d(1) by auto
  then obtain h' ws' where h': "composites_loop c (h(a \<mapsto> ?y)) (st_cnext x) (ws @ w) = Some (h', ws')"
    "updated composed (set as) (h(a \<mapsto> ?y)) h'"
    using Cons.IH [OF chain_other [OF x(3) d(1)] d(2)] by blast
  have "composed x ?y" by (auto simp: composed_def)
  then have "updated composed (set (a # as)) h h'" using updated_step [of h a x composed, OF x(2) _ d(1) h'(2)] by simp
  then show ?case using x(1,2) sm h'(1) by (subst composites_loop.simps) simp
qed

end
