(* ===== verification/Grades_Main.thy ===== *)
theory Grades_Main
  imports C_Getopt Grades_Report Grades_Roster Grades_Safety
begin

text \<open>
  hw2/src/main.c: the options, and the pipeline that reads a database, computes with it and prints it.
  \<open>getopt_long\<close> is a library function with a state of its own (it moves \<open>optind\<close> and may permute the
  arguments), a record of operations (C_Getopt). What is printed on the standard error is left out; the
  standard output is the value of a run, and \<^term>\<open>None\<close> is a fault.
\<close>

subsection \<open>Options\<close>

record option_info =
  oi_val :: int
  oi_name :: cstr
  oi_chr :: byte
  oi_has_arg :: bool
  oi_argname :: "cstr option"
  oi_descr :: cstr

definition opt_info :: "int \<Rightarrow> string \<Rightarrow> byte \<Rightarrow> bool \<Rightarrow> cstr option \<Rightarrow> string \<Rightarrow> option_info" where
  "opt_info v n c a an d = \<lparr>oi_val = v, oi_name = cs n, oi_chr = c, oi_has_arg = a, oi_argname = an, oi_descr = cs d\<rparr>"

definition option_table :: "option_info list" where
  "option_table = [
     opt_info 0 ''report'' 114 False None ''Process input data and produce specified reports.'',
     opt_info 1 ''collate'' 99 False None ''Collate input data and dump to standard output.'',
     opt_info 2 ''freqs'' 0 False None ''Print frequency tables.'',
     opt_info 3 ''quants'' 0 False None ''Print quantile information.'',
     opt_info 4 ''summaries'' 0 False None ''Print quantile summaries.'',
     opt_info 5 ''stats'' 0 False None ''Print means and standard deviations.'',
     opt_info 6 ''comps'' 0 False None ''Print students' composite scores.'',
     opt_info 7 ''indivs'' 0 False None ''Print students' individual scores.'',
     opt_info 8 ''histos'' 0 False None ''Print histograms of assignment scores.'',
     opt_info 9 ''tabsep'' 0 False None ''Print tab-separated table of student scores.'',
     opt_info 10 ''all'' 97 False None ''Print all reports.'',
     opt_info 11 ''sortby'' 107 True (Some (cs ''key'')) ''Sort by {name, id, score}.'',
     opt_info 12 ''nonames'' 110 False None ''Suppress printing of students' names.'',
     opt_info 13 ''output'' 111 True (Some (cs ''outfile'')) ''Write output to file, rather than standard output.'']"

definition short_options :: cstr where
  "short_options = cs ''rcak: no: ''"

text \<open>The entries of \<open>long_options\<close>.\<close>

definition init_options :: "long_option list" where
  "init_options = map (\<lambda>oi. (oi_name oi, oi_has_arg oi, oi_val oi)) option_table"

text \<open>The option counters, the comparison that is selected and the output file.\<close>

record options =
  o_report :: nat
  o_collate :: nat
  o_freqs :: nat
  o_quantiles :: nat
  o_summaries :: nat
  o_moments :: nat
  o_scores :: nat
  o_composite :: nat
  o_histograms :: nat
  o_tabsep :: nat
  o_nonames :: nat
  o_output :: nat
  o_compare :: "students \<Rightarrow> nat comparison"
  o_filename :: "cstr option"

definition options0 :: options where
  "options0 = \<lparr>o_report = 0, o_collate = 0, o_freqs = 0, o_quantiles = 0, o_summaries = 0, o_moments = 0, o_scores = 0,
     o_composite = 0, o_histograms = 0, o_tabsep = 0, o_nonames = 0, o_output = 0, o_compare = comparename,
     o_filename = None\<rparr>"

text \<open>The arguments that the loop accepts before it calls \<open>getopt_long\<close>.\<close>

definition known_options :: "cstr list" where
  "known_options = map cs [''-r'', ''--report'', ''-c'', ''--collate'', ''--freqs'', ''--quants'', ''--summaries'',
     ''--stats'', ''--comps'', ''--indivs'', ''--histos'', ''--tabsep'', ''--all'', ''--sortby'', ''--nonames'',
     ''--output'', ''-a'', ''-k'', ''-n'', ''-o'']"

definition inputflag :: "cstr \<Rightarrow> bool option" where
  "inputflag a = (if a \<in> set known_options then Some True else do { b \<leftarrow> c_at a 0; Some (b \<noteq> 45) })"

text \<open>\<open>usage\<close> exits. With an unknown key the code first prints the name of the option from the table
  at the index of the option's value; the short option \<open>-k\<close> has the value 107.\<close>

definition sort_option :: "int \<Rightarrow> cstr option \<Rightarrow> options \<Rightarrow> options outcome option" where
  "sort_option v optarg os = do {
     a \<leftarrow> optarg;
     if a = cs ''name'' then Some (Done (os\<lparr>o_compare := comparename\<rparr>))
     else if a = cs ''id'' then Some (Done (os\<lparr>o_compare := compareid\<rparr>))
     else if a = cs ''score'' then Some (Done (os\<lparr>o_compare := comparescore\<rparr>))
     else do { oi \<leftarrow> buf_get option_table (nat v); Some Abort }
   }"

definition all_reports :: "options \<Rightarrow> options" where
  "all_reports os = os\<lparr>o_freqs := o_freqs os + 1, o_quantiles := o_quantiles os + 1, o_summaries := o_summaries os + 1,
     o_moments := o_moments os + 1, o_composite := o_composite os + 1, o_scores := o_scores os + 1,
     o_histograms := o_histograms os + 1, o_tabsep := o_tabsep os + 1\<rparr>"

text \<open>The switch on \<open>optval\<close>.\<close>

definition set_option :: "int \<Rightarrow> cstr option \<Rightarrow> options \<Rightarrow> options outcome option" where
  "set_option v optarg os =
     (if v = 114 \<or> v = 0 then Some (Done (os\<lparr>o_report := o_report os + 1\<rparr>))
      else if v = 99 \<or> v = 1 then Some (Done (os\<lparr>o_collate := o_collate os + 1\<rparr>))
      else if v = 9 then Some (Done (os\<lparr>o_tabsep := o_tabsep os + 1\<rparr>))
      else if v = 110 \<or> v = 12 then Some (Done (os\<lparr>o_nonames := o_nonames os + 1\<rparr>))
      else if v = 111 \<or> v = 13 then Some (Done (os\<lparr>o_output := o_output os + 1, o_filename := optarg\<rparr>))
      else if v = 107 \<or> v = 11 then sort_option v optarg os
      else if v = 2 then Some (Done (os\<lparr>o_freqs := o_freqs os + 1\<rparr>))
      else if v = 3 then Some (Done (os\<lparr>o_quantiles := o_quantiles os + 1\<rparr>))
      else if v = 4 then Some (Done (os\<lparr>o_summaries := o_summaries os + 1\<rparr>))
      else if v = 5 then Some (Done (os\<lparr>o_moments := o_moments os + 1\<rparr>))
      else if v = 6 then Some (Done (os\<lparr>o_composite := o_composite os + 1\<rparr>))
      else if v = 7 then Some (Done (os\<lparr>o_scores := o_scores os + 1\<rparr>))
      else if v = 8 then Some (Done (os\<lparr>o_histograms := o_histograms os + 1\<rparr>))
      else if v = 97 \<or> v = 10 then Some (Done (all_reports os))
      else if v = 63 then Some Abort
      else Some (Done os))"

text \<open>\<open>Abort\<close> is the exit of \<open>usage\<close>.\<close>

partial_function (option) option_loop :: "'g getopt \<Rightarrow> 'g \<Rightarrow> options \<Rightarrow> ('g \<times> options) outcome option" where
  "option_loop G g os =
     (if go_optind G g < length (go_argv G g) then do {
        a \<leftarrow> arg (go_argv G g) (go_optind G g);
        ok \<leftarrow> inputflag a;
        if \<not> ok then Some Abort
        else (let (v, optarg, g') = go_next G short_options init_options g in
          if v = -1 then Some (Done (g', os))
          else do {
            r \<leftarrow> set_option v optarg os;
            (case r of Abort \<Rightarrow> Some Abort | Done os \<Rightarrow> option_loop G g' os)
          })
      } else Some (Done (g, os)))"

declare option_loop.simps [code]

subsection \<open>The usage message\<close>

definition usage_line :: "option_info \<Rightarrow> byte list option" where
  "usage_line oi = do {
     an \<leftarrow> (if oi_has_arg oi then do { a \<leftarrow> oi_argname oi; Some (cs '' <'' @ take 10 a @ cs ''>'') } else Some []);
     Some (line ([9] @ (if oi_chr oi \<noteq> 0 then [45, oi_chr oi, 44, 32] else cs ''    '') @ cs ''--'' @
       pad_right 10 (oi_name oi) @ pad_right 13 an @ [9] @ oi_descr oi))
   }"

definition usage :: "cstr \<Rightarrow> byte list option" where
  "usage name = do {
     t \<leftarrow> write_all usage_line option_table;
     Some (line (cs ''Usage: '' @ name @ cs '' [options] <data file>'') @ line (cs ''Valid options are:'') @ t)
   }"

subsection \<open>The pipeline\<close>

text \<open>What a run leaves: whether it exits with success, the standard output and the output file.\<close>

datatype exit = Exit bool "byte list" "(cstr \<times> byte list) option"

text \<open>\<open>sortrosters\<close> on the course, and \<open>checkfordups\<close>, whose warnings are counted.\<close>

definition sort_course :: "(students \<Rightarrow> nat comparison) \<Rightarrow> students \<Rightarrow> course \<Rightarrow> (students \<times> course) option" where
  "sort_course compare h c = do {
     (h, p, ps) \<leftarrow> sortrosters compare h (co_roster c) (map se_roster (co_sections c));
     Some (h, c\<lparr>co_roster := p, co_sections := map2 (\<lambda>se r. se\<lparr>se_roster := r\<rparr>) (co_sections c) ps\<rparr>)
   }"

definition compute :: "(students \<Rightarrow> nat comparison) \<Rightarrow> course \<Rightarrow> students \<Rightarrow>
    (course \<times> students \<times> stats \<times> nat) option" where
  "compute compare c h = do {
     (c, h, s, ws) \<leftarrow> statistics c h;
     (h, c, s, ws) \<leftarrow> normalize h (c, s, ws);
     (h, ws) \<leftarrow> composites c h ws;
     (h, c) \<leftarrow> sort_course compare h c;
     dups \<leftarrow> checkfordups h (co_roster c);
     Some (c, h, s, length ws + length dups)
   }"

definition if_report :: "nat \<Rightarrow> byte list option \<Rightarrow> byte list option" where
  "if_report n t = (if n \<noteq> 0 then t else Some [])"

definition reports :: "options \<Rightarrow> course \<Rightarrow> students \<Rightarrow> stats \<Rightarrow> byte list option" where
  "reports os c h s = do {
     t1 \<leftarrow> if_report (o_moments os) (reportmoments c s);
     t2 \<leftarrow> if_report (o_composite os) (reportcomposites h c (o_nonames os \<noteq> 0));
     t3 \<leftarrow> if_report (o_freqs os) (reportfreqs c s);
     t4 \<leftarrow> if_report (o_quantiles os) (reportquantiles c s);
     t5 \<leftarrow> if_report (o_summaries os) (reportquantilesummaries c s);
     t6 \<leftarrow> if_report (o_histograms os) (reporthistos h c s);
     t7 \<leftarrow> if_report (o_scores os) (reportscores h c s (o_nonames os \<noteq> 0));
     t8 \<leftarrow> if_report (o_tabsep os) (reporttabs h c);
     Some (t1 @ t2 @ t3 @ t4 @ t5 @ t6 @ t7 @ t8)
   }"

text \<open>\<open>fopen\<close> and the reports into the output file; \<open>opens\<close> says which files can be opened for writing,
  and writing to the NULL of one that cannot faults.\<close>

definition output_file :: "(cstr \<Rightarrow> bool) \<Rightarrow> options \<Rightarrow> course \<Rightarrow> students \<Rightarrow> stats \<Rightarrow> (cstr \<times> byte list) option option" where
  "output_file opens os c h s = (if o_output os = 0 then Some None
     else do {
       f \<leftarrow> o_filename os;
       u \<leftarrow> (if opens f then Some () else None);
       t \<leftarrow> reports os c h s;
       Some (Some (f, t))
     })"

text \<open>The end frees the roster while its head is NULL, and the names of the professor.\<close>

definition free_all :: "course \<Rightarrow> students \<Rightarrow> unit option" where
  "free_all c h = do {
     u \<leftarrow> (if co_roster c = None then do { x \<leftarrow> deref h (co_roster c); Some () } else Some ());
     k \<leftarrow> co_professor c;
     Some ()
   }"

definition counted_text :: "string \<Rightarrow> nat \<Rightarrow> string \<Rightarrow> byte list" where
  "counted_text w n end = line (format_d (int n) @ cs w @ (if n = 1 then cs '' was'' else cs ''s were'') @ cs end)"

definition print_reports :: "(cstr \<Rightarrow> bool) \<Rightarrow> cstr \<Rightarrow> cstr \<Rightarrow> options \<Rightarrow> course \<Rightarrow> students \<Rightarrow> stats \<Rightarrow> nat \<Rightarrow> exit option" where
  "print_reports opens today ifile os c h s n = do {
     (h, c) \<leftarrow> sort_course (o_compare os) h c;
     t \<leftarrow> reports os c h s;
     f \<leftarrow> output_file opens os c h s;
     u \<leftarrow> free_all c h;
     Some (Exit True (reportparams today ifile c @ t @ counted_text '' warning'' n '' issued.'') f)
   }"

definition run_grades :: "(cstr \<Rightarrow> byte list option) \<Rightarrow> (cstr \<Rightarrow> bool) \<Rightarrow> cstr \<Rightarrow> cstr \<Rightarrow> options \<Rightarrow> exit option" where
  "run_grades files opens today ifile os = do {
     r \<leftarrow> readfile files ifile;
     (case r of
        Abort \<Rightarrow> Some (Exit False [] None)
      | Done (c, st) \<Rightarrow>
          if r_errors st \<noteq> 0 then Some (Exit False
            (counted_text '' error'' (r_errors st) '' found, so no computations were performed.'') None)
          else do {
            (c, h, s, n) \<leftarrow> compute (o_compare os) c (r_heap st);
            if o_collate os \<noteq> 0 then do { t \<leftarrow> writecourse h c; Some (Exit True t None) }
            else print_reports opens today ifile os c h s (r_warnings st + n)
          })
   }"

definition grades_main :: "'g getopt \<Rightarrow> (cstr \<Rightarrow> byte list option) \<Rightarrow> (cstr \<Rightarrow> bool) \<Rightarrow> cstr \<Rightarrow> cstr list \<Rightarrow> exit option" where
  "grades_main G files opens today argv =
     (if length argv \<le> 1 then Some (Exit False [] None)
      else do {
        r \<leftarrow> option_loop G (go_start G argv) options0;
        (case r of
           Abort \<Rightarrow> Some (Exit False [] None)
         | Done (g, os) \<Rightarrow>
             if go_optind G g = length (go_argv G g) then Some (Exit False [] None)
             else do {
               ifile \<leftarrow> arg (go_argv G g) (go_optind G g);
               if o_report os = o_collate os then Some (Exit False [] None)
               else run_grades files opens today ifile os
             })
      })"

end
