(* ===== verification/Grades_Compute.thy ===== *)
theory Grades_Compute
  imports Grades_Main
begin

text \<open>
  The computations of hw2/src/main.c between reading and printing never fault on well typed data:
  statistics, normalized and composite scores, sorting (in the locale \<open>roster_order\<close>, so for every
  comparison that \<open>main\<close> can select) and the search for duplicates. \<open>computed\<close> is what they leave.
\<close>

subsection \<open>What the computations leave\<close>

definition student_linked :: "nat \<Rightarrow> nat \<Rightarrow> nat \<Rightarrow> student \<Rightarrow> bool" where
  "student_linked n m i x \<longleftrightarrow> st_section x = i \<and> (\<forall>scp \<in> set (st_rawscores x). score_linked n m scp)"

definition student_normed :: "student \<Rightarrow> bool" where
  "student_normed x \<longleftrightarrow> length (st_normscores x) = length (st_rawscores x) \<and> (\<forall>s \<in> set (st_normscores x). sc_grade s \<noteq> None)"

text \<open>The students \<open>as\<close> of the course are among those of the sections \<open>pss\<close>.\<close>

definition rosters_linked :: "course \<Rightarrow> students \<Rightarrow> nat list \<Rightarrow> nat list list \<Rightarrow> bool" where
  "rosters_linked c h as pss \<longleftrightarrow> chain h st_cnext (co_roster c) as \<and>
     list_all2 (chain h st_next) (map se_roster (co_sections c)) pss \<and>
     distinct (concat pss) \<and> set as \<subseteq> set (concat pss)"

definition students_ok :: "nat \<Rightarrow> students \<Rightarrow> nat list list \<Rightarrow> bool" where
  "students_ok n h pss \<longleftrightarrow> (\<forall>i < length pss. \<forall>a \<in> set (pss ! i). \<exists>x. h a = Some x \<and> student_linked n (length pss) i x)"

definition computed :: "course \<Rightarrow> students \<Rightarrow> stats \<Rightarrow> nat list \<Rightarrow> nat list list \<Rightarrow> bool" where
  "computed c h st as pss \<longleftrightarrow> typed_course c \<and> rosters_linked c h as pss \<and> students_ok (length (co_assignments c)) h pss \<and>
     stats_full (length (co_assignments c)) (length pss) st \<and> (\<forall>a \<in> set as. student_normed (the (h a)))"

lemma students_okD: "students_ok n h pss \<Longrightarrow> i < length pss \<Longrightarrow> a \<in> set (pss ! i) \<Longrightarrow>
    \<exists>x. h a = Some x \<and> student_linked n (length pss) i x"
  unfolding students_ok_def by blast

lemma concat_nth: "a \<in> set (concat pss) \<Longrightarrow> \<exists>i < length pss. a \<in> set (pss ! i)"
proof -
  assume "a \<in> set (concat pss)"
  then obtain ps where ps: "ps \<in> set pss" "a \<in> set ps" by auto
  then obtain i where "i < length pss" "pss ! i = ps" by (auto simp: in_set_conv_nth)
  with ps(2) show ?thesis by blast
qed

lemma rosters_student:
  assumes "rosters_linked c h as pss" "students_ok n h pss" "a \<in> set as"
  shows "\<exists>i x. i < length pss \<and> h a = Some x \<and> student_linked n (length pss) i x"
proof -
  have "a \<in> set (concat pss)" using assms(1,3) unfolding rosters_linked_def by blast
  from concat_nth [OF this] obtain i where i: "i < length pss" "a \<in> set (pss ! i)" by blast
  show ?thesis using students_okD [OF assms(2) i] i(1) by blast
qed

lemma linked_students_ok: "all_linked n h pss \<Longrightarrow> students_ok n h pss"
  unfolding students_ok_def
proof (intro allI impI ballI)
  fix i a assume l: "all_linked n h pss" and i: "i < length pss" "a \<in> set (pss ! i)"
  obtain x where "h a = Some x" "student_typed n i x" "linked_upto n i (st_rawscores x)"
    using all_linkedD [OF l i] by blast
  then show "\<exists>x. h a = Some x \<and> student_linked n (length pss) i x" using i(1)
    by (auto simp: student_typed_def student_linked_def score_linked_def linked_upto_def score_typed_def)
qed

text \<open>\<open>USECLASSAVG\<close> is used with the policies that define an average only.\<close>

definition averages_known :: "course \<Rightarrow> students \<Rightarrow> bool" where
  "averages_known c h \<longleftrightarrow> (\<forall>a x. h a = Some x \<longrightarrow> (\<forall>scp \<in> set (st_rawscores x). average_known c scp))"

lemma core_average: "core y = core x \<Longrightarrow> average_known c y \<longleftrightarrow> average_known c x"
  by (cases x; cases y) (simp add: core_def average_known_def)

lemma cores_average: "map core ys = map core xs \<Longrightarrow> (\<forall>y \<in> set ys. average_known c y) \<longleftrightarrow> (\<forall>x \<in> set xs. average_known c x)"
proof (induction ys arbitrary: xs)
  case (Cons y ys)
  then obtain x xs' where x: "xs = x # xs'" "core y = core x" "map core ys = map core xs'" by (cases xs) auto
  show ?case using Cons.IH [OF x(3)] core_average [OF x(2), of c] x(1) by simp
qed simp

lemma shells_averages:
  assumes "same_shells h h'" "averages_known c h" "h' a = Some y" "scp \<in> set (st_rawscores y)"
  shows "average_known c scp"
proof -
  have "h a \<noteq> None" using assms(1,3) by (metis map_option_is_None option.distinct(1) same_shells_def)
  then obtain x where x: "h a = Some x" by auto
  have "map core (st_rawscores y) = map core (st_rawscores x)" using shell_eq [OF same_shells_get [OF assms(1) x assms(3)]] by simp
  moreover have "\<forall>s \<in> set (st_rawscores x). average_known c s" using assms(2) x by (auto simp: averages_known_def)
  ultimately show ?thesis using cores_average assms(4) by blast
qed

lemma same_shells_chain:
  assumes "same_shells h h'" "chain h st_next p as"
  shows "chain h' st_next p as"
proof (rule chain_cong [OF _ assms(2)])
  fix a assume "a \<in> set as"
  then obtain x where x: "h a = Some x" using chain_dom [OF assms(2)] by blast
  then have "h' a \<noteq> None" using assms(1) by (metis map_option_is_None option.distinct(1) same_shells_def)
  then obtain y where y: "h' a = Some y" by auto
  show "\<exists>x y. h a = Some x \<and> h' a = Some y \<and> st_next y = st_next x"
    using x y shell_eq [OF same_shells_get [OF assms(1) x y]] by auto
qed

text \<open>A pass that changes the computed fields of the students of the course.\<close>

lemma updated_rosters:
  assumes "updated R (set as) h h'" "\<And>x y. R x y \<Longrightarrow> st_next y = st_next x \<and> st_cnext y = st_cnext x"
    "rosters_linked c h as pss"
  shows "rosters_linked c h' as pss"
proof -
  have "list_all2 (chain h' st_next) (map se_roster (co_sections c)) pss"
    using assms(3) updated_chain [OF assms(1), of st_next] assms(2)
    by (auto simp: rosters_linked_def list_all2_conv_all_nth)
  then show ?thesis using assms(3) updated_chain [OF assms(1), of st_cnext] assms(2)
    by (simp add: rosters_linked_def)
qed

lemma updated_students:
  assumes "updated R (set as) h h'" "\<And>x y. R x y \<Longrightarrow> st_section y = st_section x \<and> st_rawscores y = st_rawscores x"
    "students_ok n h pss"
  shows "students_ok n h' pss"
  unfolding students_ok_def
proof (intro allI impI ballI)
  fix i a assume i: "i < length pss" "a \<in> set (pss ! i)"
  obtain x where x: "h a = Some x" "student_linked n (length pss) i x" using students_okD [OF assms(3) i] by blast
  show "\<exists>x. h' a = Some x \<and> student_linked n (length pss) i x"
  proof (cases "a \<in> set as")
    case True
    then obtain y where "h' a = Some y" "R x y" using updated_in [OF assms(1)] x(1) by fastforce
    then show ?thesis using assms(2) [of x y] x(2) by (simp add: student_linked_def)
  qed (use updated_out [OF assms(1)] x in auto)
qed

lemma updated_normed:
  assumes "updated normed (set as) h h'" "a \<in> set as"
  shows "student_normed (the (h' a))"
  using updated_in [OF assms] by (auto simp: normed_def student_normed_def)

lemma updated_composed:
  assumes "updated composed (set as) h h'" "a \<in> set as" "student_normed (the (h a))"
  shows "student_normed (the (h' a))"
  using updated_in [OF assms(1,2)] assms(3) by (auto simp: composed_def student_normed_def)


lemma statistics_linked:
  assumes "well_typed c h pss" "averages_known c h"
  shows "\<exists>p h' st ws. statistics c h = Some (c\<lparr>co_roster := p\<rparr>, h', st, ws) \<and>
    rosters_linked (c\<lparr>co_roster := p\<rparr>) h' (course_list c pss) pss \<and> students_ok (length (co_assignments c)) h' pss \<and>
    stats_full (length (co_assignments c)) (length pss) st \<and> averages_known c h'"
proof -
  obtain p h' st ws where s: "statistics c h = Some (c\<lparr>co_roster := p\<rparr>, h', st, ws)" "same_shells h h'"
    "chain h' st_cnext p (course_list c pss)" "all_linked (length (co_assignments c)) h' pss"
    "stats_full (length (co_assignments c)) (length (co_sections c)) st"
    using statistics_typed [OF assms(1)] by blast
  have w: "list_all2 (chain h st_next) (map se_roster (co_sections c)) pss" "distinct (concat pss)"
    using assms(1) by (simp_all add: well_typed_def)
  then have "list_all2 (chain h' st_next) (map se_roster (co_sections c)) pss"
    using same_shells_chain [OF s(2)] by (auto simp: list_all2_conv_all_nth)
  then have "rosters_linked (c\<lparr>co_roster := p\<rparr>) h' (course_list c pss) pss"
    using s(3) w(2) by (simp add: rosters_linked_def course_list_def)
  moreover have "averages_known c h'" using shells_averages [OF s(2) assms(2)] by (auto simp: averages_known_def)
  moreover have "length (co_sections c) = length pss" using w(1) by (auto dest: list_all2_lengthD)
  ultimately show ?thesis using s(1,5) linked_students_ok [OF s(4)] by auto
qed

lemma rosters_gradable:
  assumes "rosters_linked c h as pss" "students_ok (length (co_assignments c)) h pss" "averages_known c h" "a \<in> set as"
  shows "gradable (length pss) c (the (h a))"
proof -
  obtain i x where x: "i < length pss" "h a = Some x" "student_linked (length (co_assignments c)) (length pss) i x"
    using rosters_student [OF assms(1,2,4)] by blast
  then show ?thesis using assms(3) by (auto simp: gradable_def student_linked_def averages_known_def)
qed

lemma typed_policies:
  assumes "map policy (co_assignments c) = map policy (co_assignments c0)" "typed_course c0"
  shows "typed_course c"
proof
  fix a assume "a \<in> set (co_assignments c)"
  then have "policy a \<in> set (map policy (co_assignments c0))" unfolding assms(1) [symmetric] by simp
  then obtain b where "b \<in> set (co_assignments c0)" "policy b = policy a" by auto
  then have "assignment_typed b" "policy a = policy b" using assms(2) by simp_all
  then show "assignment_typed a" using policy_simps [of a b] by (simp add: assignment_typed_def)
qed

text \<open>From the statistics to the composite scores.\<close>

lemma grading_runs:
  assumes "rosters_linked c h as pss" "students_ok (length (co_assignments c)) h pss"
    "stats_full (length (co_assignments c)) (length pss) st" "averages_known c h" "typed_course c"
  shows "\<exists>h1 c1 st1 ws1 h2 ws2. normalize h (c, st, ws) = Some (h1, c1, st1, ws1) \<and>
    composites c1 h1 ws1 = Some (h2, ws2) \<and> computed c1 h2 st1 as pss \<and>
    co_professor c1 = co_professor c \<and> co_sections c1 = co_sections c \<and> co_roster c1 = co_roster c"
proof -
  have ch: "chain h st_cnext (co_roster c) as" using assms(1) by (simp add: rosters_linked_def)
  have ns: "nstate_ok (length pss) c (c, st, ws)" using assms(3) by (simp add: nstate_ok_def)
  have "\<forall>a \<in> set as. gradable (length pss) c (the (h a))" using rosters_gradable [OF assms(1,2,4)] by blast
  from normalize_loop_runs [OF assms(5) ch chain_distinct [OF ch] ns this]
  obtain h1 c1 st1 ws1 where n: "normalize_loop h (co_roster c) (c, st, ws) = Some (h1, c1, st1, ws1)"
    "nstate_ok (length pss) c (c1, st1, ws1)" "updated normed (set as) h h1" by (auto simp del: split_paired_Ex)
  have c1: "c1 = c\<lparr>co_assignments := co_assignments c1\<rparr>" "map policy (co_assignments c1) = map policy (co_assignments c)"
    "stats_full (length (co_assignments c)) (length pss) st1" using n(2) by (simp_all only: nstate_ok_def case_prod_conv)
  have e: "co_roster c1 = co_roster c" "co_sections c1 = co_sections c" "co_professor c1 = co_professor c"
    by (subst c1(1), simp)+
  have len: "length (co_assignments c1) = length (co_assignments c)" using arg_cong [OF c1(2), of length] by simp
  have r1: "rosters_linked c h1 as pss" by (rule updated_rosters [OF n(3) _ assms(1)]) (auto simp: normed_def)
  have s1: "students_ok (length (co_assignments c)) h1 pss" by (rule updated_students [OF n(3) _ assms(2)]) (auto simp: normed_def)
  have g1: "\<forall>a \<in> set as. student_normed (the (h1 a))" using updated_normed [OF n(3)] by blast
  have ch1: "chain h1 st_cnext (co_roster c1) as" using r1 by (simp add: rosters_linked_def e)
  obtain h2 ws2 where m: "composites_loop c1 h1 (co_roster c1) ws1 = Some (h2, ws2)" "updated composed (set as) h1 h2"
    using composites_loop_runs [OF ch1 chain_distinct [OF ch1], of c1 ws1] g1 unfolding student_normed_def by blast
  have "rosters_linked c h2 as pss" by (rule updated_rosters [OF m(2) _ r1]) (auto simp: composed_def)
  then have "rosters_linked c1 h2 as pss" by (simp add: rosters_linked_def e)
  moreover have "students_ok (length (co_assignments c)) h2 pss" by (rule updated_students [OF m(2) _ s1]) (auto simp: composed_def)
  moreover have "\<forall>a \<in> set as. student_normed (the (h2 a))" using updated_composed [OF m(2)] g1 by blast
  ultimately have "computed c1 h2 st1 as pss"
    using c1(3) typed_policies [OF c1(2) assms(5)] by (simp add: computed_def len)
  then show ?thesis using n(1) m(1) e by (auto simp: normalize_def composites_def)
qed


lemma list_all2_concat: "list_all2 (\<lambda>as bs. mset bs = mset as) ass bss \<Longrightarrow> mset (concat bss) = mset (concat ass)"
  by (induction rule: list_all2_induct) simp_all

lemma same_data_ok:
  assumes "same_data h h'" "list_all2 (\<lambda>as bs. mset bs = mset as) pss bss" "students_ok n h pss"
  shows "students_ok n h' bss"
  unfolding students_ok_def
proof (intro allI impI ballI)
  fix i a assume i: "i < length bss" "a \<in> set (bss ! i)"
  have l: "length bss = length pss" using assms(2) by (auto dest: list_all2_lengthD)
  have "mset (bss ! i) = mset (pss ! i)" using assms(2) i(1) by (simp add: list_all2_conv_all_nth)
  then have "a \<in> set (pss ! i)" using i(2) mset_eq_setD by blast
  then obtain x where x: "h a = Some x" "student_linked n (length pss) i x"
    using students_okD [OF assms(3)] i(1) l by auto
  obtain y where y: "h' a = Some y" "unlinked y = unlinked x" using same_data_get [OF assms(1) x(1)] by blast
  then show "\<exists>x. h' a = Some x \<and> student_linked n (length bss) i x"
    using x(2) l unlinked_eq [OF y(2)] by (simp add: student_linked_def)
qed

lemma same_data_normed:
  assumes "same_data h h'" "h a \<noteq> None" "student_normed (the (h a))"
  shows "student_normed (the (h' a))"
proof -
  obtain x where x: "h a = Some x" using assms(2) by auto
  obtain y where y: "h' a = Some y" "unlinked y = unlinked x" using same_data_get [OF assms(1) x] by blast
  show ?thesis using assms(3) unlinked_eq [OF y(2)] by (simp add: student_normed_def x y(1))
qed

lemma same_length_rosters: "length ps = length ses \<Longrightarrow> map se_roster (map2 (\<lambda>se r. se\<lparr>se_roster := r\<rparr>) ses ps) = ps"
  by (induction ps ses rule: list_induct2) simp_all

text \<open>No student compares greater than one behind it.\<close>

definition in_order :: "(students \<Rightarrow> nat comparison) \<Rightarrow> students \<Rightarrow> nat \<Rightarrow> nat \<Rightarrow> bool" where
  "in_order compare h a b \<longleftrightarrow> (\<exists>d. compare h a b = Some d \<and> d \<le> 0)"

context roster_order
begin

lemma sorted_in_order:
  assumes "sorted (map (key h) as)" "set as \<subseteq> good h"
  shows "sorted_wrt (in_order compare h) as"
proof (rule sorted_wrt_mono_rel [of as "\<lambda>a b. key h a \<le> key h b"])
  show "sorted_wrt (\<lambda>a b. key h a \<le> key h b) as" using assms(1) by (simp add: sorted_map)
  fix a b assume "a \<in> set as" "b \<in> set as" and le: "key h a \<le> key h b"
  then obtain d where "compare h a b = Some d" "d < 0 \<longleftrightarrow> key h a < key h b" "d = 0 \<longleftrightarrow> key h a = key h b"
    using keyed.compare [OF keyed, of a h b] assms(2) by blast
  then show "in_order compare h a b" using le by (auto simp: in_order_def order_le_less)
qed

lemma sort_course_ok:
  assumes "computed c h st as pss" "set (concat pss) \<subseteq> good h"
  shows "\<exists>h' c' bs bss. sort_course compare h c = Some (h', c') \<and> computed c' h' st bs bss \<and> mset bs = mset as \<and>
    sorted_wrt (in_order compare h') bs \<and> same_data h h' \<and> co_professor c' = co_professor c"
proof -
  have r: "chain h st_cnext (co_roster c) as" "list_all2 (chain h st_next) (map se_roster (co_sections c)) pss"
    "distinct (concat pss)" "set as \<subseteq> set (concat pss)" and so: "students_ok (length (co_assignments c)) h pss"
    and st: "typed_course c" "stats_full (length (co_assignments c)) (length pss) st"
    and nm: "\<forall>a \<in> set as. student_normed (the (h a))"
    using assms(1) unfolding computed_def rosters_linked_def by blast+
  obtain h' p ps bs bss where s: "sortrosters compare h (co_roster c) (map se_roster (co_sections c)) = Some (h', p, ps)"
    "chain h' st_cnext p bs" "mset bs = mset as" "sorted (map (key h') bs)" "list_all2 (chain h' st_next) ps bss"
    "list_all2 (\<lambda>as bs. mset bs = mset as \<and> sorted (map (key h') bs)) pss bss" "same_data h h'"
    using sortrosters_ok [OF r(1-3) subset_trans [OF r(4) assms(2)] assms(2)] by blast
  let ?c = "c\<lparr>co_roster := p, co_sections := map2 (\<lambda>se r. se\<lparr>se_roster := r\<rparr>) (co_sections c) ps\<rparr>"
  have ms: "list_all2 (\<lambda>as bs. mset bs = mset as) pss bss" using s(6) by (auto elim: list_all2_mono)
  have cc: "mset (concat bss) = mset (concat pss)" by (rule list_all2_concat [OF ms])
  have l: "length ps = length bss" "length bss = length pss" "length pss = length (co_sections c)"
    using list_all2_lengthD [OF s(5)] list_all2_lengthD [OF ms] list_all2_lengthD [OF r(2)] by simp_all
  have m: "map se_roster (co_sections ?c) = ps" using same_length_rosters l by simp
  have e: "set bs = set as" "set (concat bss) = set (concat pss)" using s(3) cc mset_eq_setD by blast+
  have "rosters_linked ?c h' bs bss"
    unfolding rosters_linked_def m e using s(2,5) r(3,4) mset_eq_imp_distinct_iff [OF cc] by simp
  moreover have "\<forall>a \<in> set bs. student_normed (the (h' a))"
    unfolding e using same_data_normed [OF s(7)] nm chain_dom [OF r(1)] by blast
  ultimately have "computed ?c h' st bs bss"
    using st same_data_ok [OF s(7) ms so] l(2) by (simp add: computed_def)
  moreover have "set bs \<subseteq> good h'" unfolding e using r(4) assms(2) good_data [OF s(7)] by blast
  then have "sorted_wrt (in_order compare h') bs" by (rule sorted_in_order [OF s(4)])
  moreover have "sort_course compare h c = Some (h', ?c)" using s(1) by (simp add: sort_course_def)
  ultimately show ?thesis using s(3,7)
    by (intro exI [of _ h'] exI [of _ ?c] exI [of _ bs] exI [of _ bss]) simp
qed

end

lemma computed_dom: "computed c h st as pss \<Longrightarrow> set (concat pss) \<subseteq> dom h"
proof
  fix a assume c: "computed c h st as pss" and "a \<in> set (concat pss)"
  from concat_nth [OF this(2)] obtain i where i: "i < length pss" "a \<in> set (pss ! i)" by blast
  have "students_ok (length (co_assignments c)) h pss" using c by (simp add: computed_def)
  from students_okD [OF this i] show "a \<in> dom h" by auto
qed

text \<open>The comparisons that \<open>main\<close> can select: by name, by id, and by score when no composite score
  is a NaN.\<close>

definition sortable :: "(students \<Rightarrow> nat comparison) \<Rightarrow> students \<Rightarrow> bool" where
  "sortable compare h \<longleftrightarrow> compare = comparename \<or> compare = compareid \<or> (compare = comparescore \<and> scored h = dom h)"

lemma sort_course_runs:
  assumes "computed c h st as pss" "sortable compare h"
  shows "\<exists>h' c' bs bss. sort_course compare h c = Some (h', c') \<and> computed c' h' st bs bss \<and> mset bs = mset as \<and>
    sorted_wrt (in_order compare h') bs \<and> same_data h h' \<and> co_professor c' = co_professor c"
proof -
  note d = computed_dom [OF assms(1)]
  consider "compare = comparename" | "compare = compareid" | "compare = comparescore" "set (concat pss) \<subseteq> scored h"
    using assms(2) d unfolding sortable_def by blast
  then show ?thesis
    using name_order.sort_course_ok [OF assms(1) d] id_order.sort_course_ok [OF assms(1) d]
      score_order.sort_course_ok [OF assms(1)]
    by cases blast+
qed

lemma sortable_data: "sortable compare h \<Longrightarrow> same_data h h' \<Longrightarrow> sortable compare h'"
  using scored_data [of h h'] same_data_dom [of h h'] scored_dom [of h'] unfolding sortable_def by blast

lemma compute_runs:
  assumes "well_typed c h pss" "averages_known c h" "compare \<in> {comparename, compareid}"
  shows "\<exists>c' h' st n as bss. compute compare c h = Some (c', h', st, n) \<and> computed c' h' st as bss \<and>
    mset as = mset (course_list c pss) \<and> sorted_wrt (in_order compare h') as \<and> co_professor c' = co_professor c"
proof -
  obtain p h1 st ws where s: "statistics c h = Some (c\<lparr>co_roster := p\<rparr>, h1, st, ws)"
    "rosters_linked (c\<lparr>co_roster := p\<rparr>) h1 (course_list c pss) pss" "students_ok (length (co_assignments c)) h1 pss"
    "stats_full (length (co_assignments c)) (length pss) st" "averages_known c h1"
    using statistics_linked [OF assms(1,2)] by blast
  let ?c = "c\<lparr>co_roster := p\<rparr>"
  have t: "typed_course ?c" "averages_known ?c h1" using assms(1) s(5) by (simp_all add: well_typed_def averages_known_def average_known_def)
  obtain h2 c1 st1 ws1 h3 ws2 where n: "normalize h1 (?c, st, ws) = Some (h2, c1, st1, ws1)"
    "composites c1 h2 ws1 = Some (h3, ws2)" "computed c1 h3 st1 (course_list c pss) pss" "co_professor c1 = co_professor c"
    using grading_runs [OF s(2) _ _ t(2,1), of st ws] s(3,4) by auto
  have "sortable compare h3" using assms(3) by (auto simp: sortable_def)
  then obtain h4 c2 bs bss where o: "sort_course compare h3 c1 = Some (h4, c2)" "computed c2 h4 st1 bs bss"
    "mset bs = mset (course_list c pss)" "sorted_wrt (in_order compare h4) bs" "co_professor c2 = co_professor c1"
    using sort_course_runs [OF n(3)] by blast
  have "chain h4 st_cnext (co_roster c2) bs" using o(2) by (simp add: computed_def rosters_linked_def)
  from checkfordups_adjacent [OF this] show ?thesis using s(1) n(1,2,4) o by (auto simp: compute_def)
qed

end
