(* ===== verification/Grades_Triples.thy ===== *)
theory Grades_Triples
  imports Grades_Write
begin

text \<open>
  A total calculus for the readers of Grades_Parser: \<open>reads m P x Q\<close> says that from every state in
  \<open>P\<close> the reader \<open>m\<close> returns \<open>x\<close> in a state in \<open>Q\<close>. The positions below also say that no error and no
  warning has been counted and that the stack of files is empty, so a triple between positions
  says that the text was read without a complaint.
\<close>

definition reads :: "'a rd \<Rightarrow> (rstate \<Rightarrow> bool) \<Rightarrow> 'a \<Rightarrow> (rstate \<Rightarrow> bool) \<Rightarrow> bool" where
  "reads m P x Q \<longleftrightarrow> (\<forall>s. P s \<longrightarrow> (\<exists>s'. m s = Some (Done (x, s')) \<and> Q s'))"

lemma reads_bnd: "reads m P x Q \<Longrightarrow> reads (f x) Q y R \<Longrightarrow> reads (bnd m f) P y R"
  unfolding reads_def bnd_def by fastforce

lemma reads_andthen: "reads m P () Q \<Longrightarrow> reads n Q y R \<Longrightarrow> reads (andthen m n) P y R"
  unfolding andthen_def by (rule reads_bnd)

lemma reads_ret: "reads (ret x) P x P"
  by (simp add: reads_def ret_def)

lemma reads_gets: "(\<And>s. P s \<Longrightarrow> f s = x) \<Longrightarrow> reads (gets f) P x P"
  by (auto simp: reads_def gets_def)

lemma reads_modify: "(\<And>s. P s \<Longrightarrow> Q (f s)) \<Longrightarrow> reads (modify f) P () Q"
  by (auto simp: reads_def modify_def)

lemma reads_weaken: "reads m P x Q \<Longrightarrow> (\<And>s. P' s \<Longrightarrow> P s) \<Longrightarrow> reads m P' x Q"
  by (auto simp: reads_def)

lemma reads_strengthen: "reads m P x Q \<Longrightarrow> (\<And>s. Q s \<Longrightarrow> Q' s) \<Longrightarrow> reads m P x Q'"
  unfolding reads_def by blast

lemma reads_disj: "reads m P x R \<Longrightarrow> reads m Q x R \<Longrightarrow> reads m (\<lambda>s. P s \<or> Q s) x R"
  by (auto simp: reads_def)

subsection \<open>Positions\<close>

text \<open>The students allocated so far, the token buffered and the text that follows it.\<close>

definition pos :: "students \<times> nat \<Rightarrow> byte list \<Rightarrow> byte list \<Rightarrow> rstate \<Rightarrow> bool" where
  "pos st tok bs s \<longleftrightarrow> r_tok s = tok \<and> if_rest (r_file s) = bs \<and> r_prev s = [] \<and>
     r_errors s = 0 \<and> r_warnings s = 0 \<and> (r_heap s, r_fresh s) = st"

abbreviation clear :: "students \<times> nat \<Rightarrow> byte list \<Rightarrow> rstate \<Rightarrow> bool" where
  "clear st bs \<equiv> pos st [] bs"

abbreviation buffered :: "students \<times> nat \<Rightarrow> byte list \<Rightarrow> byte list \<Rightarrow> rstate \<Rightarrow> bool" where
  "buffered st t r \<equiv> pos st (t @ [0]) r"

definition word :: "byte list \<Rightarrow> bool" where
  "word t \<longleftrightarrow> t \<noteq> [] \<and> length t < 64 \<and> (\<forall>c \<in> set t. \<not> iswhitespace c \<and> c \<noteq> 10 \<and> c \<noteq> 0 \<and> c \<noteq> EOF_char)"

definition delimited :: "byte list \<Rightarrow> bool" where
  "delimited r \<longleftrightarrow> r \<noteq> [] \<and> (iswhitespace (hd r) \<or> hd r = 10)"

text \<open>\<open>heads t r bs\<close>: the first word of \<open>bs\<close> is \<open>t\<close> and \<open>r\<close> follows it.\<close>

definition heads :: "byte list \<Rightarrow> byte list \<Rightarrow> byte list \<Rightarrow> bool" where
  "heads t r bs \<longleftrightarrow> word t \<and> delimited r \<and> skip_white bs = t @ r"

text \<open>The text \<open>bs\<close> is next, and its first word may have been read ahead.\<close>

definition ahead :: "students \<times> nat \<Rightarrow> byte list \<Rightarrow> rstate \<Rightarrow> bool" where
  "ahead st bs s \<longleftrightarrow> clear st bs s \<or> (\<exists>t r. heads t r bs \<and> buffered st t r s)"

text \<open>No word is left in the line.\<close>

definition quiet :: "byte list \<Rightarrow> bool" where
  "quiet bs \<longleftrightarrow> bs = [] \<or> hd bs = 10"

lemma white_newline [simp]: "\<not> iswhitespace 10" "iswhitespace 32" "EOF_char \<noteq> 10" "iswhitespace 44" "EOF_char \<noteq> 32"
  by (simp_all add: iswhitespace_def EOF_char_def)

lemma clear_ahead: "clear st bs s \<Longrightarrow> ahead st bs s"
  by (simp add: ahead_def)

lemma quiet_skip: "quiet bs \<Longrightarrow> skip_white bs = bs"
  by (cases bs) (auto simp: quiet_def ungetc_def)

lemma quiet_ahead: "quiet bs \<Longrightarrow> ahead st bs s \<longleftrightarrow> clear st bs s"
  by (auto simp: ahead_def heads_def quiet_skip) (auto simp: quiet_def word_def Cons_eq_append_conv neq_Nil_conv)

lemma heads_unique: "heads t r bs \<Longrightarrow> heads t' r' bs \<Longrightarrow> t = t' \<and> r = r'"
proof -
  assume h: "heads t r bs" "heads t' r' bs"
  have "takeWhile (\<lambda>c. \<not> iswhitespace c \<and> c \<noteq> 10) (u @ v) = u" if "heads u v bs" for u v
    using that by (cases v) (auto simp: heads_def word_def delimited_def takeWhile_append)
  moreover have "t @ r = t' @ r'" using h by (simp add: heads_def)
  ultimately show ?thesis using h by (metis append_same_eq same_append_eq)
qed

subsection \<open>The scanner\<close>

lemma take_token_word: "word t \<Longrightarrow> delimited r \<Longrightarrow> take_token (t @ r) = (t, r)"
proof (induction t)
  case (Cons c t)
  show ?case
  proof (cases "t = []")
    case True
    then show ?thesis using Cons.prems by (cases r) (auto simp: word_def delimited_def EOF_char_def iswhitespace_def)
  next
    case False
    then have "word t" using Cons.prems(1) by (auto simp: word_def)
    then show ?thesis using Cons by (simp add: word_def)
  qed
qed (simp add: word_def)

lemma discard_clear: "reads discard_token (clear st bs) () (clear st bs)"
  unfolding discard_token_def flushtoken_def
  by (rule reads_bnd [where x = False], rule reads_gets, simp add: pos_def istoken_def)
    (auto intro!: reads_andthen [where Q = "clear st bs"] reads_ret reads_modify simp: pos_def)

lemma gobble_clear: "reads gobblewhitespace (clear st bs) () (clear st (skip_white bs))"
  unfolding gobblewhitespace_def by (rule reads_modify) (simp add: pos_def istoken_def set_rest_def)

lemma set_rest_clear: "reads (modify (set_rest r)) (clear st bs) () (clear st r)"
  by (rule reads_modify) (simp add: pos_def set_rest_def)

lemma set_token_pos: "length t \<le> 64 \<Longrightarrow> reads (set_token t) (pos st t' r) () (pos st t r)"
  by (auto simp: set_token_def pos_def intro!: reads_modify)

lemma rest_clear: "reads (gets (\<lambda>s. f (if_rest (r_file s)))) (clear st bs) (f bs) (clear st bs)"
  by (rule reads_gets) (simp add: pos_def)

lemma advance_clear:
  assumes "take_token (skip_white bs) = (t, r)" "length t < 64"
  shows "reads advancetoken (clear st bs) () (pos st (if t = [] then [] else t @ [0]) r)"
  unfolding advancetoken_def
  by (rule reads_andthen [OF discard_clear], rule reads_andthen [OF gobble_clear], rule reads_bnd [OF rest_clear])
    (use assms in \<open>auto intro!: reads_andthen [OF set_rest_clear] set_token_pos\<close>)

lemma advance_word: "heads t r bs \<Longrightarrow> reads advancetoken (clear st bs) () (buffered st t r)"
  using advance_clear [of bs t r st] by (auto simp: heads_def take_token_word) (auto simp: word_def)

lemma advance_quiet: "quiet bs \<Longrightarrow> reads advancetoken (clear st bs) () (clear st bs)"
  using advance_clear [of bs "[]" bs st] by (cases bs) (auto simp: quiet_def ungetc_def)

lemma need_token_word: "heads t r bs \<Longrightarrow> reads need_token (ahead st bs) () (buffered st t r)"
proof -
  assume h: "heads t r bs"
  have "reads need_token (clear st bs) () (buffered st t r)"
    unfolding need_token_def
    by (rule reads_bnd [where x = False], rule reads_gets, simp add: pos_def istoken_def)
      (simp add: advance_word [OF h])
  moreover have "reads need_token (buffered st t r) () (buffered st t r)"
    unfolding need_token_def
    by (rule reads_bnd [where x = True], rule reads_gets, simp add: pos_def istoken_def) (simp add: reads_ret)
  ultimately show ?thesis
  proof (rule reads_weaken [OF reads_disj])
    show "clear st bs s \<or> buffered st t r s" if "ahead st bs s" for s
      using that heads_unique [OF h] by (auto simp: ahead_def)
  qed
qed

lemma need_token_quiet: "quiet bs \<Longrightarrow> reads need_token (clear st bs) () (clear st bs)"
  unfolding need_token_def
  by (rule reads_bnd [where x = False], rule reads_gets, simp add: pos_def istoken_def) (simp add: advance_quiet)

lemma flush: "reads flushtoken (pos st t r) () (clear st r)"
  unfolding flushtoken_def by (rule reads_modify) (simp add: pos_def)

lemma word_no_zero: "word t \<Longrightarrow> 0 \<notin> set t"
  by (auto simp: word_def)

lemma token_string_word: "0 \<notin> set t \<Longrightarrow> pos st (t @ [0]) r s \<Longrightarrow> token_string s = t"
proof -
  have "takeWhile (\<lambda>b. b \<noteq> 0) (t @ [0]) = t" if "0 \<notin> set t"
    using that by (induction t) auto
  then show "0 \<notin> set t \<Longrightarrow> pos st (t @ [0]) r s \<Longrightarrow> token_string s = t"
    by (simp add: token_string_def pos_def)
qed

lemma istoken_buffered: "buffered st t r s \<Longrightarrow> istoken s"
  by (simp add: pos_def istoken_def)

lemma checktoken_word:
  assumes "heads t r bs"
  shows "reads (checktoken key) (ahead st bs) (t = key) (if t = key then clear st r else buffered st t r)"
proof -
  have "0 \<notin> set t" using assms word_no_zero by (auto simp: heads_def)
  then have g: "reads (gets (\<lambda>s. istoken s \<and> strcmp (token_string s) key = 0)) (buffered st t r) (t = key) (buffered st t r)"
    by (intro reads_gets) (simp add: token_string_word istoken_buffered strcmp_eq)
  show ?thesis unfolding checktoken_def
    by (rule reads_andthen [OF need_token_word [OF assms]], rule reads_bnd [OF g])
      (auto intro: reads_andthen [OF flush] reads_ret)
qed

lemma checktoken_yes: "heads key r bs \<Longrightarrow> reads (checktoken key) (ahead st bs) True (clear st r)"
  using checktoken_word [of key r bs key st] by simp

lemma checktoken_no:
  assumes "heads t r bs" "t \<noteq> key"
  shows "reads (checktoken key) (ahead st bs) False (ahead st bs)"
proof (rule reads_strengthen)
  show "reads (checktoken key) (ahead st bs) False (buffered st t r)"
    using checktoken_word [OF assms(1), of key st] assms(2) by simp
qed (use assms(1) in \<open>auto simp: ahead_def\<close>)

lemma checktoken_quiet: "quiet bs \<Longrightarrow> reads (checktoken key) (clear st bs) False (clear st bs)"
  unfolding checktoken_def
  by (rule reads_andthen [OF need_token_quiet], assumption, rule reads_bnd [where x = False], rule reads_gets)
    (auto simp: pos_def istoken_def intro: reads_ret)



lemma take_string_buffered: "0 \<notin> set t \<Longrightarrow> reads take_string (buffered st t r) t (clear st r)"
proof -
  assume z: "0 \<notin> set t"
  have i: "reads (gets istoken) (buffered st t r) True (buffered st t r)"
    by (rule reads_gets) (simp add: istoken_buffered)
  have g: "reads (gets token_string) (buffered st t r) t (buffered st t r)"
    by (rule reads_gets) (simp add: token_string_word z)
  show ?thesis unfolding take_string_def
    by (rule reads_bnd [OF i], rule reads_bnd [where x = t and Q = "buffered st t r"])
      (auto intro: g reads_andthen [OF flush] reads_ret)
qed

lemma readword_word: "heads t r bs \<Longrightarrow> reads readword (ahead st bs) t (clear st r)"
  unfolding readword_def
  by (rule reads_andthen [OF need_token_word], assumption, rule take_string_buffered)
    (auto simp: heads_def word_no_zero)

lemmas readid_word = readword_word [folded readid_def]
lemmas readsurname_word = readword_word [folded readsurname_def]
lemmas readatype_word = readword_word [folded readatype_def]

text \<open>The text of a name: the rest of a line, without white space before it.\<close>

definition nameline :: "byte list \<Rightarrow> bool" where
  "nameline n \<longleftrightarrow> length n < 64 \<and> (\<forall>c \<in> set n. c \<noteq> 10 \<and> c \<noteq> 0 \<and> c \<noteq> EOF_char) \<and> (n = [] \<or> \<not> iswhitespace (hd n))"

text \<open>A line after which the blank lines end at once.\<close>

definition fresh_line :: "byte list \<Rightarrow> bool" where
  "fresh_line r \<longleftrightarrow> r = [] \<or> hd r \<noteq> ch CHR ''#'' \<and> hd r \<noteq> 10 \<and> hd r \<noteq> EOF_char"

lemma take_line_name: "\<forall>c \<in> set n. c \<noteq> 10 \<and> c \<noteq> EOF_char \<Longrightarrow> take_line (n @ 10 # r) = (n, 10 # r, True)"
  by (induction n) auto

lemma skip_name: "nameline n \<Longrightarrow> skip_white (n @ 10 # r) = n @ 10 # r"
  by (cases n) (auto simp: nameline_def ungetc_def)

lemma advanceeol_name:
  assumes "nameline n" "skip_white bs = n @ 10 # r"
  shows "reads advanceeol (clear st bs) () (buffered st n (10 # r))"
proof -
  have g: "reads (gets (\<lambda>s. take_line (if_rest (r_file s)))) (clear st (n @ 10 # r)) (n, 10 # r, True) (clear st (n @ 10 # r))"
    using assms(1) by (intro reads_gets) (auto simp: pos_def nameline_def take_line_name)
  show ?thesis unfolding advanceeol_def
    by (rule reads_andthen [OF discard_clear], rule reads_andthen [OF gobble_clear], unfold assms(2), rule reads_bnd [OF g])
      (use assms(1) in \<open>auto simp: nameline_def intro!: reads_andthen [OF set_rest_clear] reads_andthen [OF set_token_pos] set_token_pos\<close>)
qed

lemma blank_lines_fresh: "fresh_line r \<Longrightarrow> blank_lines r n = Some (r, n)"
  by (subst blank_lines.simps, cases r) (auto simp: fresh_line_def ungetc_def EOF_char_def)

lemma gobbleblanklines_fresh: "fresh_line r \<Longrightarrow> reads gobbleblanklines (clear st r) () (clear st r)"
  by (auto simp: reads_def gobbleblanklines_def blank_lines_fresh pos_def istoken_def ret_def)

lemma nextchar_clear: "c \<noteq> EOF_char \<Longrightarrow> reads nextchar (clear st (c # r)) c (clear st r)"
  by (auto simp: reads_def nextchar_def pos_def ret_def set_rest_def)

lemma expectnewline_clear:
  assumes "skip_white bs = 10 # r" "fresh_line r"
  shows "reads expectnewline (clear st bs) () (clear st r)"
proof -
  have l: "reads (modify add_line) (clear st r) () (clear st r)"
    by (rule reads_modify) (simp add: pos_def add_line_def)
  show ?thesis unfolding expectnewline_def
    by (rule reads_andthen [OF gobble_clear], unfold assms(1), rule reads_bnd [OF nextchar_clear])
      (auto intro: reads_andthen [OF l] gobbleblanklines_fresh [OF assms(2)] simp: EOF_char_def)
qed

lemma newline [simp]: "skip_white (10 # r) = 10 # r"
  by (simp add: ungetc_def)

lemma readname_name:
  assumes "nameline n" "skip_white bs = n @ 10 # r" "fresh_line r"
  shows "reads readname (clear st bs) n (clear st r)"
proof -
  have "0 \<notin> set n" using assms(1) by (auto simp: nameline_def)
  then show ?thesis unfolding readname_def
    by (rule reads_andthen [OF advanceeol_name [OF assms(1,2)] reads_bnd [OF take_string_buffered
          reads_andthen [OF expectnewline_clear [OF newline assms(3)] reads_ret]]])
qed

lemma scan_token_number:
  assumes "scan_float t = Some x" "0 \<notin> set t"
  shows "reads scan_token (buffered st t r) (Some x) (clear st r)"
proof -
  have g: "reads (gets (\<lambda>s. if istoken s then scan_float (token_string s) else None)) (buffered st t r) (Some x) (buffered st t r)"
    using assms by (intro reads_gets) (simp add: istoken_buffered token_string_word)
  show ?thesis unfolding scan_token_def
    by (rule reads_bnd [OF g]) (auto intro: reads_andthen [OF flush] reads_ret)
qed

text \<open>Branching on the next word.\<close>

lemma check_yes: "heads key r bs \<Longrightarrow> reads (f True) (clear st r) y R \<Longrightarrow> reads (bnd (checktoken key) f) (ahead st bs) y R"
  by (rule reads_bnd [OF checktoken_yes])

lemma check_no: "heads t r bs \<Longrightarrow> t \<noteq> key \<Longrightarrow> reads (f False) (ahead st bs) y R \<Longrightarrow>
    reads (bnd (checktoken key) f) (ahead st bs) y R"
  by (rule reads_bnd [OF checktoken_no])

lemma check_quiet: "quiet bs \<Longrightarrow> reads (f False) (clear st bs) y R \<Longrightarrow> reads (bnd (checktoken key) f) (clear st bs) y R"
  by (rule reads_bnd [OF checktoken_quiet])

lemma clear_weaken: "reads m (ahead st bs) x Q \<Longrightarrow> reads m (clear st bs) x Q"
  by (erule reads_weaken) (simp add: ahead_def)

text \<open>The next word of a text, if there is one.\<close>

definition lacks :: "byte list \<Rightarrow> byte list \<Rightarrow> bool" where
  "lacks key bs \<longleftrightarrow> quiet bs \<or> (\<exists>t r. heads t r bs \<and> t \<noteq> key)"

lemma checktoken_lacks:
  assumes "lacks key bs"
  shows "reads (checktoken key) (ahead st bs) False (ahead st bs)"
proof (cases "quiet bs")
  case True
  then have "ahead st bs = clear st bs" by (intro ext quiet_ahead)
  then show ?thesis using checktoken_quiet [OF True] by simp
next
  case False
  then show ?thesis using assms by (auto simp: lacks_def intro: checktoken_no)
qed

lemma check_lacks: "lacks key bs \<Longrightarrow> reads (f False) (ahead st bs) y R \<Longrightarrow> reads (bnd (checktoken key) f) (ahead st bs) y R"
  by (rule reads_bnd [OF checktoken_lacks])


lemma lacks_heads: "heads t r bs \<Longrightarrow> t \<noteq> key \<Longrightarrow> lacks key bs"
  by (auto simp: lacks_def)

lemma lacks_quiet: "quiet bs \<Longrightarrow> lacks key bs"
  by (simp add: lacks_def)

text \<open>Literal text.\<close>

lemmas literal = iswhitespace_def EOF_char_def ungetc_def

lemma delimited_Cons [simp]: "delimited (c # r) \<longleftrightarrow> iswhitespace c \<or> c = 10"
  by (simp add: delimited_def)

lemma skip_space [simp]: "skip_white (32 # bs) = skip_white bs" "skip_white (44 # bs) = skip_white bs"
  by simp_all

lemma skip_word: "word t \<Longrightarrow> skip_white (t @ r) = t @ r"
  by (cases t) (auto simp: word_def ungetc_def)

lemma heads_word: "word t \<Longrightarrow> delimited r \<Longrightarrow> heads t r (t @ r)"
  by (simp add: heads_def skip_word)

lemma heads_space: "heads t r bs \<Longrightarrow> heads t r (32 # bs)" "heads t r bs \<Longrightarrow> heads t r (44 # bs)"
  by (simp_all add: heads_def)

subsection \<open>Persons\<close>

lemma write_person_heads:
  assumes "word k"
  shows "heads k (32 # x) (32 # k @ 32 # x)"
  using assms by (intro heads_space heads_word) auto

lemma readperson_some:
  assumes "word key" "word s" "nameline n" "fresh_line r"
  shows "reads (readperson key) (ahead st (32 # key @ 32 # s @ 44 # 32 # n @ 10 # r)) (Some (s, n)) (clear st r)"
  unfolding readperson_def
  by (rule check_yes [OF write_person_heads [OF assms(1)]], simp,
      rule reads_bnd [OF clear_weaken [OF readsurname_word [OF heads_space(1) [OF heads_word [OF assms(2)]]]]], simp,
      rule reads_bnd [OF readname_name [OF assms(3) _ assms(4)]])
    (simp_all add: skip_name assms(3) reads_ret)

lemma readperson_none: "lacks key bs \<Longrightarrow> reads (readperson key) (ahead st bs) None (ahead st bs)"
  unfolding readperson_def by (erule check_lacks) (simp add: reads_ret)

lemma words: "word (cs ''PROFESSOR'')" "word (cs ''ASSISTANT'')" "word (cs ''COURSE'')" "word (cs ''ASSIGNMENT'')"
  "word (cs ''SECTION'')" "word (cs ''STUDENT'')" "word (cs ''SCORE'')" "word (cs ''WEIGHT'')" "word (cs ''NORMALIZE'')"
  "word (cs ''MAXIMUM'')" "word (cs ''QUANTILE'')" "word (cs ''SCALE'')" "word (cs ''BYCLASS'')" "word (cs ''BYSECTION'')"
  "word (cs ''USERAW'')" "word (cs ''USELIKEAVG'')" "word (cs ''USECLASSAVG'')"
  by (simp_all add: word_def literal)

definition person_ok :: "person option \<Rightarrow> bool" where
  "person_ok p \<longleftrightarrow> (case p of None \<Rightarrow> True | Some (s, n) \<Rightarrow> word s \<and> nameline n)"

lemma fresh_space [simp]: "fresh_line (32 # r)" "fresh_line []"
  by (simp_all add: fresh_line_def EOF_char_def)

lemma readprofessor_write:
  assumes "person_ok p" "fresh_line r" "p = None \<longrightarrow> lacks (cs ''PROFESSOR'') r"
  shows "reads readprofessor (ahead st (writeprofessor p @ r)) p (ahead st r)"
  using readperson_some [OF words(1), of _ _ r st] readperson_none [of "cs ''PROFESSOR''" r st] assms
  by (auto simp: readprofessor_def writeprofessor_def person_ok_def line_def split: option.splits
      intro: reads_strengthen clear_ahead)

lemma readassistant_write:
  assumes "person_ok p" "fresh_line r" "p = None \<longrightarrow> lacks (cs ''ASSISTANT'') r"
  shows "reads readassistant (ahead st (writeassistant p @ r)) p (ahead st r)"
  using readperson_some [OF words(2), of _ _ r st] readperson_none [of "cs ''ASSISTANT''" r st] assms
  by (auto simp: readassistant_def writeassistant_def person_ok_def line_def split: option.splits
      intro: reads_strengthen clear_ahead)

end
