(* ===== verification/Grades_Numbers.thy ===== *)
theory Grades_Numbers
  imports Grades_Triples
begin

text \<open>
  Numbers in the text of a database: what \<open>sscanf\<close> with \<open>%f\<close> reads from what \<open>fprintf\<close> with \<open>%f\<close>
  has written, and the numbers that survive this.
\<close>

subsection \<open>Decimal digits\<close>

lemma digit_byte: "m < 10 \<Longrightarrow> digit (of_nat (m + 48)) \<and> uint (of_nat (m + 48) :: byte) = int m + 48"
proof -
  assume "m < 10"
  then have "m \<in> {0, 1, 2, 3, 4, 5, 6, 7, 8, 9}" by auto
  then show ?thesis by (elim insertE emptyE) (simp_all add: digit_def)
qed

lemma digit_range: "digit c \<Longrightarrow> 48 \<le> uint c \<and> uint c \<le> 57"
  by (simp add: digit_def word_le_def)

lemma decimal_digits: "\<forall>c \<in> set (decimal k n). digit c"
  using digit_byte by (induction k n rule: decimal.induct) auto

lemma length_decimal [simp]: "length (decimal k n) = k"
  by (induction k n rule: decimal.induct) auto

lemma digit_value_snoc: "digit_value (xs @ [c]) = 10 * digit_value xs + (uint c - 48)"
  by (simp add: digit_value_def)

lemma digit_value_append: "digit_value (xs @ ys) = digit_value xs * 10 ^ length ys + digit_value ys"
proof (induction ys rule: rev_induct)
  case (snoc c ys)
  then show ?case using digit_value_snoc [of "xs @ ys" c] digit_value_snoc [of ys c] by (simp add: algebra_simps)
qed (simp add: digit_value_def)

lemma digit_value_decimal: "n < 10 ^ k \<Longrightarrow> digit_value (decimal k n) = int n"
proof (induction k n rule: decimal.induct)
  case (2 k n)
  have "n mod 10 < 10" by simp
  then have "uint (of_nat (n mod 10 + 48) :: byte) = int (n mod 10) + 48" using digit_byte by blast
  moreover have "n div 10 < 10 ^ k" using 2 by (simp add: less_mult_imp_div_less mult.commute)
  ultimately show ?case using 2 by (simp add: digit_value_snoc zdiv_int zmod_int del: of_nat_add)
qed (simp add: digit_value_def)

lemma width_pos: "0 < width n"
  by (subst width.simps) simp

lemma less_width: "n < 10 ^ width n"
proof (induction n rule: width.induct)
  case (1 n)
  show ?case
  proof (cases "n < 10")
    case False
    then have "n div 10 < 10 ^ width (n div 10)" using 1 by simp
    then show ?thesis using False by (subst width.simps) (simp add: div_less_iff_less_mult mult.commute)
  qed (simp add: width.simps)
qed

lemma width_le: "n < 10 ^ k \<Longrightarrow> 0 < k \<Longrightarrow> width n \<le> k"
proof (induction n arbitrary: k rule: width.induct)
  case (1 n)
  show ?case
  proof (cases "n < 10")
    case False
    then obtain k' where k: "k = Suc k'" "0 < k'" using 1 by (cases k; cases "k - 1") auto
    then have "n div 10 < 10 ^ k'" using 1(2) by (simp add: less_mult_imp_div_less mult.commute)
    then show ?thesis using 1(1) False k by (subst width.simps) simp
  qed (use 1 in \<open>simp add: width.simps\<close>)
qed

subsection \<open>Reading what \<open>%f\<close> wrote\<close>

definition number_text :: "nat \<Rightarrow> byte list" where
  "number_text n = decimal (width (n div 1000000)) (n div 1000000) @ cs ''.'' @ decimal 6 (n mod 1000000)"

lemma lower_digit: "digit c \<or> c = 46 \<Longrightarrow> lower c = c"
  using digit_range [of c] by (auto simp: lower_def word_le_def)

lemma number_text_set: "c \<in> set (number_text n) \<Longrightarrow> digit c \<or> c = 46"
  using decimal_digits by (auto simp: number_text_def)

lemma has_prefix_subset: "has_prefix w t \<Longrightarrow> set w \<subseteq> lower ` set t"
  unfolding has_prefix_def by (metis image_mono set_map set_take_subset)

lemma not_prefix:
  assumes "c \<in> set w" "\<not> digit c" "c \<noteq> 46"
  shows "\<not> has_prefix w (number_text n)"
proof
  assume "has_prefix w (number_text n)"
  then obtain d where "d \<in> set (number_text n)" "c = lower d" using has_prefix_subset assms(1) by blast
  then show False using lower_digit number_text_set assms(2,3) by metis
qed

lemma scan_number_text:
  "scan_number digit digit_value 10 l e (number_text n) = Some (of_nat n / 1000000)"
proof -
  let ?a = "decimal (width (n div 1000000)) (n div 1000000)" and ?b = "decimal 6 (n mod 1000000)"
  have a: "\<forall>c \<in> set ?a. digit c" and b: "\<forall>c \<in> set ?b. digit c" using decimal_digits by blast+
  have p: "\<not> digit 46" by (simp add: digit_def)
  have t: "takeWhile digit (number_text n) = ?a" "dropWhile digit (number_text n) = 46 # ?b"
    using a p by (simp_all add: number_text_def takeWhile_append2 dropWhile_append2)
  have u: "takeWhile digit ?b = ?b" "dropWhile digit ?b = []" using b by (simp_all add: takeWhile_eq_all_conv)
  have "digit_value (?a @ ?b) = int (n div 1000000) * 10 ^ 6 + int (n mod 1000000)"
    using digit_value_decimal [OF less_width, of "n div 1000000"] digit_value_decimal [of "n mod 1000000" 6]
    by (simp add: digit_value_append del: decimal.simps)
  then have v: "digit_value (?a @ ?b) = int n" by (simp add: zdiv_int zmod_int del: decimal.simps)
  have "?a \<noteq> []" using width_pos [of "n div 1000000"] by (metis length_0_conv length_decimal less_numeral_extra(3))
  then show ?thesis using v by (simp add: scan_number_def t u Let_def del: decimal.simps)
qed

lemma scan_unsigned_text: "scan_unsigned (number_text n) = Some (round_flt single (of_nat n / 1000000))"
proof -
  have "\<not> has_prefix (cs ''nan'') (number_text n)" "\<not> has_prefix (cs ''inf'') (number_text n)"
    "\<not> has_prefix (cs ''0x'') (number_text n)"
    using not_prefix [of "ch CHR ''n''"] not_prefix [of "ch CHR ''x''"] by (simp_all add: digit_def)
  then show ?thesis by (simp add: scan_unsigned_def scan_number_text del: list.map)
qed

text \<open>A number whose six decimals determine it.\<close>

definition micros :: "rat \<Rightarrow> nat" where
  "micros r = nat (half_even (\<bar>r\<bar> * 1000000))"

definition printable :: "flt \<Rightarrow> bool" where
  "printable x = (case x of Finite r \<Rightarrow> \<bar>r\<bar> < 10 ^ 40 \<and> round_flt single (of_nat (micros r) / 1000000) = Finite \<bar>r\<bar> | _ \<Rightarrow> False)"

lemma format_f_Finite: "format_f (Finite r) = (if r < 0 then cs ''-'' else []) @ number_text (micros r)"
  by (simp add: format_f_def number_text_def micros_def Let_def)

lemma number_text_Cons: "\<exists>c t. number_text n = c # t \<and> digit c"
  using decimal_digits [of "width (n div 1000000)" "n div 1000000"] width_pos [of "n div 1000000"]
  by (cases "decimal (width (n div 1000000)) (n div 1000000)")
    (auto simp: number_text_def simp del: decimal.simps dest!: arg_cong [of _ "[]" length])

text \<open>Every number that the reader takes from a text of \<open>%f\<close> is the nearest one to its six decimals.\<close>

lemma scan_format_f: "scan_float (format_f (Finite r)) =
  Some ((if r < 0 then f_neg else id) (round_flt single (of_nat (micros r) / 1000000)))"
proof -
  obtain c t where c: "number_text (micros r) = c # t" "digit c" using number_text_Cons by blast
  then have d: "\<not> isspace c" "c \<noteq> 45" "c \<noteq> 43" using digit_range [of c] by (auto simp: isspace_def word_le_def)
  have "\<not> isspace 45" by (simp add: isspace_def)
  then show ?thesis using scan_unsigned_text [of "micros r"] c(1) d
    by (simp add: scan_float_def format_f_Finite)
qed

lemma scan_printable: "printable x \<Longrightarrow> scan_float (format_f x) = Some x"
  by (auto simp: printable_def scan_format_f split: flt.splits)

subsection \<open>Printable numbers\<close>


lemma half_even_le: "of_int (half_even x) \<le> x + 1"
  by (simp add: half_even_def Let_def) linarith

lemma half_even_int [simp]: "half_even (of_int n) = n"
  by (simp add: half_even_def)

lemma width_micros:
  assumes "\<bar>r\<bar> < 10 ^ 40"
  shows "width (micros r div 1000000) \<le> 41"
proof (rule width_le)
  have "of_int (half_even (\<bar>r\<bar> * 1000000)) \<le> \<bar>r\<bar> * 1000000 + 1" by (rule half_even_le)
  also have "\<dots> < of_int (10 ^ 47)" using assms by simp
  finally have "half_even (\<bar>r\<bar> * 1000000) < 10 ^ 47" unfolding of_int_less_iff .
  then have "micros r < 10 ^ 47" by (simp add: micros_def nat_less_iff)
  then show "micros r div 1000000 < 10 ^ 41" by (simp add: less_mult_imp_div_less)
qed simp

lemma printable_word: "printable x \<Longrightarrow> word (format_f x)"
proof -
  assume "printable x"
  then obtain r where x: "x = Finite r" "\<bar>r\<bar> < 10 ^ 40" by (auto simp: printable_def split: flt.splits)
  have "length (number_text (micros r)) \<le> 48"
    using width_micros [OF x(2)] by (simp add: number_text_def del: decimal.simps)
  moreover have "\<not> iswhitespace c \<and> c \<noteq> 10 \<and> c \<noteq> 0 \<and> c \<noteq> EOF_char" if "digit c \<or> c = 46 \<or> c = 45" for c
    using that digit_range [of c] by (auto simp: iswhitespace_def EOF_char_def)
  moreover have "number_text (micros r) \<noteq> []" by (simp add: number_text_def)
  ultimately show ?thesis using number_text_set [of _ "micros r"] by (auto simp: word_def x(1) format_f_Finite)
qed

text \<open>Every multiple of 1/64 below 2^18 is printable: integers, halves and quarters of points.\<close>

lemma powi_nat_diff: "(2 :: rat) powi (int m - int n) = 2 ^ m / 2 ^ n"
  using power_int_diff [of "2 :: rat" "int m" "int n"] by (simp only: power_int_of_nat) simp

lemma round_exact:
  assumes "0 \<le> x" "x = of_int m / 64" "x < 2 ^ 18"
  shows "round_flt single x = Finite x"
proof (cases "x = 0")
  case False
  let ?e = "max (ilog2 x) (- 126)" and ?u = "2 powi (max (ilog2 x) (- 126) - 23) :: rat"
  have "(2 :: rat) powi ilog2 x < 2 powi 18"
  proof (rule le_less_trans)
    show "(2 :: rat) powi ilog2 x \<le> x" using ilog2_le [of x] False assms(1) by simp
    have "(2 :: rat) powi 18 = 2 ^ 18" by (simp add: power_int_def)
    then show "x < 2 powi 18" using assms(3) by simp
  qed
  then have "ilog2 x < 18" using power_int_increasing [of 18 "ilog2 x" "2 :: rat"] by (meson linorder_not_le one_le_numeral)
  then have "0 \<le> 17 - ?e" by simp
  then obtain k where k: "17 - ?e = int k" by (metis nonneg_int_cases)
  then have "?e - 23 = int 0 - int (6 + k)" by simp
  then have "?u = 2 ^ 0 / 2 ^ (6 + k)" by (simp only: powi_nat_diff)
  then have u: "?u = 1 / 64 / 2 ^ k" by (simp add: power_add)
  have "x / (1 / 64 / 2 ^ k) = of_int (m * 2 ^ k)" by (simp add: assms(2))
  then have "x / ?u = of_int (m * 2 ^ k)" by (simp only: u)
  then have "of_int (half_even (x / ?u)) * ?u = x / ?u * ?u" by (simp only: half_even_int)
  then have y: "of_int (half_even (x / ?u)) * ?u = x" by (simp only: nonzero_eq_divide_eq [symmetric] u) simp
  have "x < 2 powi 128" using assms(3) by (simp add: power_int_def)
  then show ?thesis using False assms(1) y by (simp add: round_flt_def single_def Let_def)
qed (simp add: round_flt_def)

lemma printable_64: "\<bar>n\<bar> < 2 ^ 24 \<Longrightarrow> printable (Finite (of_int n / 64))"
proof -
  assume n: "\<bar>n\<bar> < 2 ^ 24"
  let ?r = "of_int n / 64 :: rat"
  have "\<bar>?r\<bar> * 1000000 = of_int (\<bar>n\<bar> * 15625)" by simp
  then have "half_even (\<bar>?r\<bar> * 1000000) = \<bar>n\<bar> * 15625" by (metis half_even_int)
  then have m: "of_nat (micros ?r) / 1000000 = \<bar>?r\<bar>" by (simp add: micros_def)
  have "(of_int \<bar>n\<bar> :: rat) < of_int (2 ^ 24)" using n unfolding of_int_less_iff .
  then have b: "\<bar>?r\<bar> < 2 ^ 18" by simp
  then have "round_flt single \<bar>?r\<bar> = Finite \<bar>?r\<bar>" by (intro round_exact [where m = "\<bar>n\<bar>"]) auto
  then show ?thesis using b m by (simp add: printable_def)
qed

end
