(* ===== verification/Grades_Reread.thy ===== *)
theory Grades_Reread
  imports Grades_Numbers
begin

text \<open>
  What the readers of Grades_Parser make of the lines that Grades_Write prints: assignments with their
  options, and scores. The functions \<open>reread_assignment\<close> and \<open>reread_score\<close> say which fields survive.
\<close>

subsection \<open>Numbers\<close>

lemma number_heads: "printable x \<Longrightarrow> delimited r \<Longrightarrow> heads (format_f x) r (format_f x @ r)"
  by (intro heads_word printable_word)

lemma scan_written: "printable x \<Longrightarrow> reads scan_token (buffered st (format_f x) r) (Some x) (clear st r)"
  by (intro scan_token_number scan_printable word_no_zero printable_word)

lemma key_heads: "word k \<Longrightarrow> heads k (32 # x) (32 # k @ 32 # x)" "word k \<Longrightarrow> heads k (32 # x) (32 # 32 # k @ 32 # x)"
  "word k \<Longrightarrow> heads k (32 # x) (32 # 32 # 32 # k @ 32 # x)" "word k \<Longrightarrow> heads k (10 # x) (32 # k @ 10 # x)"
  by (simp_all add: heads_space heads_word)

subsection \<open>Assignments\<close>

lemma readweight_write:
  assumes "printable x" "delimited r"
  shows "reads (readweight a) (clear st (32 # format_f x @ r)) (a\<lparr>as_wpolicy := WEIGHT, as_weight := x\<rparr>) (clear st r)"
  unfolding readweight_def
  by (rule reads_andthen [OF advance_word [OF heads_space(1) [OF number_heads [OF assms]]]],
      rule reads_bnd [OF scan_written [OF assms(1)]]) (simp add: reads_ret)

lemma readmax_write:
  assumes "printable x" "delimited r"
  shows "reads (readmax a) (clear st (32 # format_f x @ r)) (a\<lparr>as_max := x\<rparr>) (clear st r)"
  unfolding readmax_def
  by (rule reads_andthen [OF advance_word [OF heads_space(1) [OF number_heads [OF assms]]]],
      rule reads_bnd [OF scan_written [OF assms(1)]]) (simp add: reads_ret)

lemma read_number_write:
  assumes "printable x" "delimited r"
  shows "reads (read_number d) (clear st (32 # format_f x @ r)) x (clear st r)"
  unfolding read_number_def
  by (rule reads_andthen [OF advance_word [OF heads_space(1) [OF number_heads [OF assms]]]],
      rule reads_bnd [OF scan_written [OF assms(1)]]) (simp add: reads_ret)

lemma norm_quantile: "heads (cs ''QUANTILE'') r bs \<Longrightarrow>
    reads (readnorm_step a) (ahead st bs) (Some (a\<lparr>as_npolicy := QUANTILE\<rparr>)) (clear st r)"
  unfolding readnorm_step_def
  by (rule check_no, assumption, simp, simp only: if_False)+
    (rule check_yes, assumption, simp only: if_True, rule reads_ret)

lemma norm_scale: "heads (cs ''SCALE'') (32 # format_f x @ r) bs \<Longrightarrow> printable x \<Longrightarrow> delimited r \<Longrightarrow>
    reads (readnorm_step a) (ahead st bs) (Some (a\<lparr>as_npolicy := SCALE, as_scale := Some x\<rparr>)) (clear st r)"
  unfolding readnorm_step_def
  by (rule check_no, assumption, simp, simp only: if_False)+
    (rule check_yes, assumption, simp only: if_True, rule reads_bnd [OF read_number_write], assumption+, rule reads_ret)

abbreviation group_word :: "ngroup \<Rightarrow> byte list" where
  "group_word g \<equiv> (if g = BYCLASS then cs ''BYCLASS'' else cs ''BYSECTION'')"

lemma norm_byclass: "heads (cs ''BYCLASS'') r bs \<Longrightarrow>
    reads (readnorm_step a) (ahead st bs) (Some (a\<lparr>as_ngroup := BYCLASS\<rparr>)) (clear st r)"
  unfolding readnorm_step_def
  by (rule check_no, assumption, simp, simp only: if_False)+
    (rule check_yes, assumption, simp only: if_True, rule reads_ret)

lemma norm_bysection: "heads (cs ''BYSECTION'') r bs \<Longrightarrow>
    reads (readnorm_step a) (ahead st bs) (Some (a\<lparr>as_ngroup := BYSECTION\<rparr>)) (clear st r)"
  unfolding readnorm_step_def
  by (rule check_no, assumption, simp, simp only: if_False)+
    (rule check_yes, assumption, simp only: if_True, rule reads_ret)

lemma norm_group: "heads (group_word g) r bs \<Longrightarrow>
    reads (readnorm_step a) (ahead st bs) (Some (a\<lparr>as_ngroup := g\<rparr>)) (clear st r)"
  using norm_byclass [of r bs a st] norm_bysection [of r bs a st] by (cases g) (simp_all del: list.map)

lemma norm_none: "quiet bs \<Longrightarrow> reads (readnorm_step a) (clear st bs) None (clear st bs)"
  unfolding readnorm_step_def
  by (rule check_quiet, assumption, simp only: if_False)+ (rule reads_ret)

lemma readnorm_loop_unfold: "readnorm_loop a found = bnd (readnorm_step a) (\<lambda>r. case r of
     None \<Rightarrow> ret (a, found) | Some a' \<Rightarrow> readnorm_loop a' True)"
  by (rule ext, subst readnorm_loop.simps, rule refl)

lemma norm_loop_step: "reads (readnorm_step a) P (Some a') Q \<Longrightarrow> reads (readnorm_loop a' True) Q y R \<Longrightarrow>
    reads (readnorm_loop a found) P y R"
  by (subst readnorm_loop_unfold, erule reads_bnd) simp

lemma norm_loop_end: "quiet bs \<Longrightarrow> reads (readnorm_loop a found) (clear st bs) (a, found) (clear st bs)"
  by (subst readnorm_loop_unfold, rule reads_bnd [OF norm_none]) (simp_all add: reads_ret)

lemma norm_loop_group: "heads (group_word g) r bs \<Longrightarrow> quiet r \<Longrightarrow>
    reads (readnorm_loop a found) (clear st bs) (a\<lparr>as_ngroup := g\<rparr>, True) (clear st r)"
  by (rule clear_weaken, rule norm_loop_step [OF norm_group], assumption, rule norm_loop_end)

lemma readnorm_found: "reads (readnorm_loop a False) P (a', True) Q \<Longrightarrow> reads (readnorm a) P a' Q"
  unfolding readnorm_def by (erule reads_bnd) (simp add: reads_ret)

lemma word_group: "word (group_word g)"
  by (simp only: words split: if_split) simp

lemma heads_group: "heads (group_word g) (10 # r) (32 # group_word g @ 10 # r)"
  by (rule key_heads(4) [OF word_group])

lemma quiet_newline [simp]: "quiet (10 # r)"
  by (simp add: quiet_def)

lemma readnorm_quantile:
  "reads (readnorm a) (clear st (32 # cs ''QUANTILE'' @ 32 # group_word g @ 10 # r))
     (a\<lparr>as_npolicy := QUANTILE, as_ngroup := g\<rparr>) (clear st (10 # r))"
  by (rule readnorm_found, rule clear_weaken, rule norm_loop_step [OF norm_quantile [OF key_heads(1)]], rule words,
      rule norm_loop_group [OF heads_group quiet_newline])

lemma readnorm_scale:
  "printable x \<Longrightarrow> reads (readnorm a) (clear st (32 # cs ''SCALE'' @ 32 # format_f x @ 32 # group_word g @ 10 # r))
     (a\<lparr>as_npolicy := SCALE, as_scale := Some x, as_ngroup := g\<rparr>) (clear st (10 # r))"
  by (rule readnorm_found, rule clear_weaken, rule norm_loop_step [OF norm_scale [OF key_heads(1)]], rule words,
      assumption, simp, rule norm_loop_group [OF heads_group quiet_newline])

text \<open>The lines of an assignment.\<close>

lemma readoptions_unfold: "readoptions a = bnd (readoption a) (\<lambda>r. case r of None \<Rightarrow> ret a | Some a' \<Rightarrow> readoptions a')"
  by (rule ext, subst readoptions.simps, rule refl)

lemma options_step: "reads (readoption a) P (Some a') Q \<Longrightarrow> reads (readoptions a') Q y R \<Longrightarrow> reads (readoptions a) P y R"
  by (subst readoptions_unfold, erule reads_bnd) simp

lemma newline_after: "reads m P a' (clear st (10 # r)) \<Longrightarrow> fresh_line r \<Longrightarrow>
    reads (bnd m (\<lambda>a. andthen expectnewline (ret (Some a)))) P (Some a') (clear st r)"
  by (erule reads_bnd, rule reads_andthen [OF expectnewline_clear [OF newline]], assumption, rule reads_ret)

lemma option_weight:
  assumes "printable x" "fresh_line r"
  shows "reads (readoption a) (ahead st (32 # 32 # cs ''WEIGHT'' @ 32 # format_f x @ 10 # r))
     (Some (a\<lparr>as_wpolicy := WEIGHT, as_weight := x\<rparr>)) (clear st r)"
  unfolding readoption_def
  by (rule check_yes [OF key_heads(2) [OF words(8)]], simp only: if_True, rule newline_after [OF readweight_write], rule assms,
      simp, rule assms)

lemma option_max:
  assumes "printable x" "fresh_line r"
  shows "reads (readoption a) (ahead st (32 # 32 # cs ''MAXIMUM'' @ 32 # format_f x @ 10 # r))
     (Some (a\<lparr>as_max := x\<rparr>)) (clear st r)"
  unfolding readoption_def
  by (rule check_no [OF key_heads(2) [OF words(10)]], simp, simp only: if_False)+
    (rule check_yes [OF key_heads(2) [OF words(10)]], simp only: if_True, rule newline_after [OF readmax_write], rule assms,
      simp, rule assms)

lemma option_norm:
  assumes "\<And>x. reads (readnorm a) (clear st (32 # t)) a' (clear st (10 # r))" "fresh_line r"
  shows "reads (readoption a) (ahead st (32 # 32 # cs ''NORMALIZE'' @ 32 # t)) (Some a') (clear st r)"
  unfolding readoption_def
  by (rule check_no [OF key_heads(2) [OF words(9)]], simp, simp only: if_False,
      rule check_yes [OF key_heads(2) [OF words(9)]], simp only: if_True, rule newline_after [OF assms])

text \<open>The text \<open>bs\<close> is at its end, or it begins with a space and one of the words \<open>ks\<close>.\<close>

definition begins :: "byte list list \<Rightarrow> byte list \<Rightarrow> bool" where
  "begins ks bs \<longleftrightarrow> bs = [] \<or> hd bs = 32 \<and> (\<exists>k \<in> set ks. \<exists>r. heads k r bs)"

lemma begins_Nil [simp]: "begins ks []"
  by (simp add: begins_def)

lemma begins_fresh: "begins ks bs \<Longrightarrow> fresh_line bs"
  by (auto simp: begins_def fresh_line_def EOF_char_def)

lemma begins_lacks: "begins ks bs \<Longrightarrow> key \<notin> set ks \<Longrightarrow> lacks key bs"
  by (auto simp: begins_def intro: lacks_heads lacks_quiet simp: quiet_def)

lemma begins_mono: "begins ks bs \<Longrightarrow> set ks \<subseteq> set ls \<Longrightarrow> begins ls bs"
  by (auto simp: begins_def)

lemma begins_key: "word k \<Longrightarrow> k \<in> set ks \<Longrightarrow> begins ks (32 # k @ 32 # x)" "word k \<Longrightarrow> k \<in> set ks \<Longrightarrow> begins ks (32 # 32 # k @ 32 # x)"
  "word k \<Longrightarrow> k \<in> set ks \<Longrightarrow> begins ks (32 # 32 # 32 # k @ 32 # x)"
  using key_heads(1-3) [of k x] by (auto simp: begins_def)

lemma reads_ahead: "reads m P x (clear st bs) \<Longrightarrow> reads m P x (ahead st bs)"
  by (erule reads_strengthen) (rule clear_ahead)

definition weight_text :: "assignment \<Rightarrow> byte list" where
  "weight_text a = (if as_wpolicy a = WEIGHT then 32 # 32 # cs ''WEIGHT'' @ 32 # format_f (as_weight a) @ [10] else [])"

definition norm_text :: "assignment \<Rightarrow> byte list" where
  "norm_text a = (case (as_npolicy a, as_scale a) of
     (QUANTILE, _) \<Rightarrow> 32 # 32 # cs ''NORMALIZE'' @ 32 # cs ''QUANTILE'' @ 32 # group_word (as_ngroup a) @ [10]
   | (SCALE, Some x) \<Rightarrow> 32 # 32 # cs ''NORMALIZE'' @ 32 # cs ''SCALE'' @ 32 # format_f x @ 32 # group_word (as_ngroup a) @ [10]
   | _ \<Rightarrow> [])"

definition max_text :: "assignment \<Rightarrow> byte list" where
  "max_text a = (if as_max a = Finite 0 then [] else 32 # 32 # cs ''MAXIMUM'' @ 32 # format_f (as_max a) @ [10])"

definition assignment_ok :: "assignment \<Rightarrow> bool" where
  "assignment_ok a \<longleftrightarrow> word (as_name a) \<and> word (as_atype a) \<and> (as_wpolicy a = WEIGHT \<longrightarrow> printable (as_weight a)) \<and>
     printable (as_max a) \<and> as_npolicy a \<noteq> LINEAR \<and>
     (as_npolicy a = SCALE \<longrightarrow> (case as_scale a of None \<Rightarrow> False | Some x \<Rightarrow> printable x))"

text \<open>What is read back: the fields that are not written have the values of a new assignment.\<close>

definition with_weight :: "assignment \<Rightarrow> assignment \<Rightarrow> assignment" where
  "with_weight a b = (if as_wpolicy a = WEIGHT then b\<lparr>as_wpolicy := WEIGHT, as_weight := as_weight a\<rparr> else b)"

definition with_norm :: "assignment \<Rightarrow> assignment \<Rightarrow> assignment" where
  "with_norm a b = (case as_npolicy a of
     RAW \<Rightarrow> b
   | LINEAR \<Rightarrow> b
   | QUANTILE \<Rightarrow> b\<lparr>as_npolicy := QUANTILE, as_ngroup := as_ngroup a\<rparr>
   | SCALE \<Rightarrow> b\<lparr>as_npolicy := SCALE, as_scale := as_scale a, as_ngroup := as_ngroup a\<rparr>)"

definition reread_assignment :: "assignment \<Rightarrow> assignment" where
  "reread_assignment a = (with_norm a (with_weight a (new_assignment (as_name a) (as_atype a))))\<lparr>as_max := as_max a\<rparr>"

lemma printable_not_NaN [simp]: "printable x \<Longrightarrow> x \<noteq> NaN"
  by (auto simp: printable_def)

lemma writeassignment_text:
  assumes "assignment_ok a"
  shows "writeassignment a = Some (32 # cs ''ASSIGNMENT'' @ 32 # as_name a @ 32 # as_atype a @ 10 #
    weight_text a @ norm_text a @ max_text a)"
  using assms by (auto simp: writeassignment_def writenorm_def weight_text_def norm_text_def max_text_def
      assignment_ok_def line_def f_eq_rank split: npolicy.splits option.splits)

lemma options_end: "begins [cs ''ASSIGNMENT'', cs ''SECTION''] r \<Longrightarrow> reads (readoptions a) (ahead st r) a (ahead st r)"
  unfolding readoption_def readoptions_unfold [of a]
  by (rule reads_bnd [where x = None],
      (rule check_lacks [OF begins_lacks], assumption, simp, simp only: if_False)+, rule reads_ret, simp add: reads_ret)

lemma options_max:
  assumes "begins [cs ''ASSIGNMENT'', cs ''SECTION''] r" "printable (as_max a)" "as_max b = Finite 0"
  shows "reads (readoptions b) (ahead st (max_text a @ r)) (b\<lparr>as_max := as_max a\<rparr>) (ahead st r)"
proof (cases "as_max a = Finite 0")
  case True
  have "b\<lparr>as_max := as_max a\<rparr> = b" using True assms(3) by (cases b) simp
  then show ?thesis using options_end [OF assms(1), of b st] True by (simp add: max_text_def)
next
  case False
  have "reads (readoptions b) (ahead st (32 # 32 # cs ''MAXIMUM'' @ 32 # format_f (as_max a) @ 10 # r))
    (b\<lparr>as_max := as_max a\<rparr>) (ahead st r)"
    by (rule options_step [OF option_max [OF assms(2) begins_fresh [OF assms(1)]]],
        rule clear_weaken [OF options_end [OF assms(1)]])
  then show ?thesis using False by (simp add: max_text_def)
qed

lemma fresh_max: "fresh_line r \<Longrightarrow> fresh_line (max_text a @ r)"
  by (simp add: max_text_def)

lemma fresh_norm: "fresh_line r \<Longrightarrow> fresh_line (norm_text a @ r)"
  by (auto simp: norm_text_def split: npolicy.splits option.splits)

lemma options_norm:
  assumes "assignment_ok a" "fresh_line r" "reads (readoptions (with_norm a b)) (ahead st r) y Q"
  shows "reads (readoptions b) (ahead st (norm_text a @ r)) y Q"
proof (cases "as_npolicy a")
  case QUANTILE
  have "reads (readoptions b) (ahead st (32 # 32 # cs ''NORMALIZE'' @ 32 # cs ''QUANTILE'' @ 32 # group_word (as_ngroup a) @ 10 # r)) y Q"
    by (rule options_step [OF option_norm [OF readnorm_quantile assms(2)]], rule clear_weaken)
      (use assms(3) QUANTILE in \<open>simp add: with_norm_def\<close>)
  then show ?thesis using QUANTILE by (simp add: norm_text_def split del: if_split)
next
  case SCALE
  then obtain x where x: "as_scale a = Some x" "printable x" using assms(1) by (auto simp: assignment_ok_def split: option.splits)
  have "reads (readoptions b) (ahead st (32 # 32 # cs ''NORMALIZE'' @ 32 # cs ''SCALE'' @ 32 # format_f x @ 32 # group_word (as_ngroup a) @ 10 # r)) y Q"
    by (rule options_step [OF option_norm [OF readnorm_scale [OF x(2)] assms(2)]], rule clear_weaken)
      (use assms(3) SCALE x in \<open>simp add: with_norm_def\<close>)
  then show ?thesis using SCALE x by (simp add: norm_text_def split del: if_split)
qed (use assms in \<open>auto simp: norm_text_def with_norm_def assignment_ok_def\<close>)

lemma options_weight:
  assumes "assignment_ok a" "fresh_line r" "reads (readoptions (with_weight a b)) (ahead st r) y Q"
  shows "reads (readoptions b) (ahead st (weight_text a @ r)) y Q"
proof (cases "as_wpolicy a")
  case WEIGHT
  then have p: "printable (as_weight a)" using assms(1) by (simp add: assignment_ok_def)
  have "reads (readoptions b) (ahead st (32 # 32 # cs ''WEIGHT'' @ 32 # format_f (as_weight a) @ 10 # r)) y Q"
    by (rule options_step [OF option_weight [OF p assms(2)]], rule clear_weaken)
      (use assms(3) WEIGHT in \<open>simp add: with_weight_def\<close>)
  then show ?thesis using WEIGHT by (simp add: weight_text_def)
qed (use assms in \<open>auto simp: weight_text_def with_weight_def\<close>)

lemma options_write:
  assumes "assignment_ok a" "begins [cs ''ASSIGNMENT'', cs ''SECTION''] r"
  shows "reads (readoptions (new_assignment (as_name a) (as_atype a)))
    (ahead st (weight_text a @ norm_text a @ max_text a @ r)) (reread_assignment a) (ahead st r)"
  unfolding reread_assignment_def
  by (rule options_weight [OF assms(1) fresh_norm [OF fresh_max [OF begins_fresh [OF assms(2)]]]],
      rule options_norm [OF assms(1) fresh_max [OF begins_fresh [OF assms(2)]]], rule options_max [OF assms(2)])
    (use assms(1) in \<open>auto simp: assignment_ok_def new_assignment_def with_norm_def with_weight_def split: npolicy.splits\<close>)

lemma readassignments_unfold: "readassignments = bnd (checktoken (cs ''ASSIGNMENT'')) (\<lambda>b. if \<not> b then ret []
     else bnd readid (\<lambda>name. bnd readatype (\<lambda>t. andthen expectnewline
       (bnd (readoptions (new_assignment name t)) (\<lambda>a. bnd readassignments (\<lambda>as. ret (a # as)))))))"
  by (rule ext, subst readassignments.simps, rule refl)

lemma fresh_options: "fresh_line r \<Longrightarrow> fresh_line (weight_text a @ norm_text a @ max_text a @ r)"
  using fresh_norm [OF fresh_max] by (simp add: weight_text_def)

lemma readassignments_write:
  assumes "\<forall>a \<in> set as. assignment_ok a" "begins [cs ''SECTION''] r"
  shows "\<exists>t. write_all writeassignment as = Some t \<and> begins [cs ''ASSIGNMENT'', cs ''SECTION''] (t @ r) \<and>
    (\<forall>st. reads readassignments (ahead st (t @ r)) (map reread_assignment as) (ahead st r))"
  using assms(1)
proof (induction as)
  case Nil
  have "begins [cs ''ASSIGNMENT'', cs ''SECTION''] r" using assms(2) by (rule begins_mono) simp
  moreover have "reads readassignments (ahead st r) [] (ahead st r)" for st
    by (subst readassignments_unfold, rule check_lacks [OF begins_lacks [OF assms(2)]]) (simp_all add: reads_ret)
  ultimately show ?case by simp
next
  case (Cons a as)
  then obtain t where t: "write_all writeassignment as = Some t" "begins [cs ''ASSIGNMENT'', cs ''SECTION''] (t @ r)"
    "\<And>st. reads readassignments (ahead st (t @ r)) (map reread_assignment as) (ahead st r)" by auto
  have ok: "assignment_ok a" "word (as_name a)" "word (as_atype a)" using Cons.prems by (auto simp: assignment_ok_def)
  let ?o = "weight_text a @ norm_text a @ max_text a @ t @ r"
  have "reads readassignments (ahead st (32 # cs ''ASSIGNMENT'' @ 32 # as_name a @ 32 # as_atype a @ 10 # ?o))
    (map reread_assignment (a # as)) (ahead st r)" for st
    by (subst readassignments_unfold, rule check_yes [OF key_heads(1) [OF words(4)]], simp only: not_True_eq_False if_False,
        rule reads_bnd [OF clear_weaken [OF readid_word [OF heads_space(1) [OF heads_word [OF ok(2)]]]]], simp,
        rule reads_bnd [OF clear_weaken [OF readatype_word [OF heads_space(1) [OF heads_word [OF ok(3)]]]]], simp,
        rule reads_andthen [OF expectnewline_clear [OF newline fresh_options [OF begins_fresh [OF t(2)]]]],
        rule reads_bnd [OF clear_weaken [OF options_write [OF ok(1) t(2)]]], rule reads_bnd [OF t(3)], simp add: reads_ret)
  moreover have "begins [cs ''ASSIGNMENT'', cs ''SECTION''] (32 # cs ''ASSIGNMENT'' @ 32 # as_name a @ 32 # as_atype a @ 10 # ?o)"
    by (rule begins_key(1) [OF words(4)]) simp
  ultimately show ?case using t(1) by (simp add: writeassignment_text [OF ok(1)] del: list.map)
qed

subsection \<open>Scores\<close>

definition grade_ok :: "assignment \<Rightarrow> flt \<Rightarrow> bool" where
  "grade_ok a g \<longleftrightarrow> printable g \<and> (as_max a = Finite 0 \<or> \<not> f_less (as_max a) g)"

definition score_ok :: "assignment list \<Rightarrow> score \<Rightarrow> bool" where
  "score_ok as x \<longleftrightarrow> sc_asgt x < length as \<and>
     (sc_flag x = VALID \<or> sc_subst x = USERAW \<longrightarrow>
        (case sc_grade x of None \<Rightarrow> False | Some g \<Rightarrow> grade_ok (as ! sc_asgt x) g)) \<and>
     (sc_flag x = INVALID \<longrightarrow> sc_subst x \<noteq> USENORM \<and> nameline (sc_code x))"

definition reread_score :: "score \<Rightarrow> score" where
  "reread_score x = (new_score (sc_asgt x))\<lparr>sc_flag := sc_flag x,
     sc_grade := (if sc_flag x = VALID \<or> sc_subst x = USERAW then sc_grade x else None),
     sc_subst := (if sc_flag x = VALID then USERAW else sc_subst x),
     sc_code := (if sc_flag x = VALID then [] else sc_code x)\<rparr>"

lemma read_raw_write:
  assumes "grade_ok a g" "delimited r"
  shows "reads (read_raw a) (ahead st (32 # format_f g @ r)) g (clear st r)"
proof -
  have p: "printable g" using assms(1) by (simp add: grade_ok_def)
  have w: "reads (if \<not> f_eq (as_max a) (Finite 0) \<and> f_less (as_max a) g then warning else ret ()) (clear st r) () (clear st r)"
    using assms(1) by (auto simp: grade_ok_def f_eq_def reads_ret)
  show ?thesis unfolding read_raw_def
    by (rule reads_andthen [OF need_token_word [OF heads_space(1) [OF number_heads [OF p assms(2)]]]],
        rule reads_bnd [OF scan_written [OF p]], simp only: option.case, rule reads_bnd [OF reads_ret], rule reads_andthen [OF w],
        rule reads_ret)
qed

lemma format_not_keyword: "printable x \<Longrightarrow> format_f x \<noteq> cs ''USERAW'' \<and> format_f x \<noteq> cs ''USENORM'' \<and>
    format_f x \<noteq> cs ''USELIKEAVG'' \<and> format_f x \<noteq> cs ''USECLASSAVG''"
proof -
  assume "printable x"
  then obtain r where x: "x = Finite r" by (auto simp: printable_def split: flt.splits)
  obtain c t where c: "number_text (micros r) = c # t" "digit c" using number_text_Cons by blast
  then have "hd (format_f x) \<noteq> 85" using digit_range [of c] by (auto simp: x format_f_Finite)
  then show ?thesis by auto
qed

lemma read_subst_none:
  assumes "printable g" "delimited r"
  shows "reads read_subst (ahead st (32 # format_f g @ r)) None (ahead st (32 # format_f g @ r))"
proof -
  have h: "heads (format_f g) r (32 # format_f g @ r)" by (rule heads_space(1) [OF number_heads [OF assms]])
  note k = format_not_keyword [OF assms(1)]
  show ?thesis unfolding read_subst_def
    by (rule check_no [OF h], use k in blast, simp only: if_False)+ (rule reads_ret)
qed

definition subst_word :: "gsubst \<Rightarrow> byte list" where
  "subst_word u = (case u of USERAW \<Rightarrow> cs ''USERAW'' | USENORM \<Rightarrow> cs ''USENORM'' | USELIKEAVG \<Rightarrow> cs ''USELIKEAVG''
     | USECLASSAVG \<Rightarrow> cs ''USECLASSAVG'')"

lemma word_subst: "word (subst_word u)"
  by (cases u) (simp_all add: subst_word_def word_def literal)

lemma read_subst_word: "reads read_subst (ahead st (32 # subst_word u @ 32 # r)) (Some u) (clear st (32 # r))"
proof -
  have h: "heads (subst_word u) (32 # r) (32 # subst_word u @ 32 # r)" by (rule key_heads(1) [OF word_subst])
  note k = subst_word_def gsubst.case
  show ?thesis
  proof (cases u)
    case USERAW
    then show ?thesis using h unfolding read_subst_def by (simp only: k) (rule check_yes, assumption, simp only: if_True, rule reads_ret)
  next
    case USENORM
    then show ?thesis using h unfolding read_subst_def
      by (simp only: k) (rule check_no, assumption, simp, simp only: if_False,
          rule check_yes, assumption, simp only: if_True, rule reads_ret)
  next
    case USELIKEAVG
    then show ?thesis using h unfolding read_subst_def
      by (simp only: k) ((rule check_no, assumption, simp, simp only: if_False)+,
          rule check_yes, assumption, simp only: if_True, rule reads_ret)
  next
    case USECLASSAVG
    then show ?thesis using h unfolding read_subst_def
      by (simp only: k) ((rule check_no, assumption, simp, simp only: if_False)+,
          rule check_yes, assumption, simp only: if_True, rule reads_ret)
  qed
qed

lemma read_code_write:
  assumes "nameline (sc_code x)" "fresh_line r"
  shows "reads (read_code s) (clear st (32 # sc_code x @ 10 # r)) (s\<lparr>sc_code := sc_code x\<rparr>) (clear st (10 # r))"
proof -
  have z: "0 \<notin> set (sc_code x)" using assms(1) by (auto simp: nameline_def)
  have g: "reads (gets token_string) (buffered st (sc_code x) (10 # r)) (sc_code x) (buffered st (sc_code x) (10 # r))"
    by (rule reads_gets) (simp add: token_string_word z)
  have s: "skip_white (32 # sc_code x @ 10 # r) = sc_code x @ 10 # r" using skip_name [OF assms(1)] by simp
  show ?thesis unfolding read_code_def
    by (rule reads_andthen [OF advanceeol_name [OF assms(1) s]], rule reads_bnd [OF g], rule reads_andthen [OF flush], rule reads_ret)
qed

definition value_text :: "score \<Rightarrow> byte list" where
  "value_text x = (if sc_flag x = VALID then 32 # format_f (the (sc_grade x))
     else 32 # subst_word (sc_subst x) @ (if sc_subst x = USERAW then 32 # format_f (the (sc_grade x)) else []) @ 32 # sc_code x)"

lemma readgrade_write:
  assumes "score_ok as x" "fresh_line r" "as_max a = as_max (as ! sc_asgt x)"
  shows "reads (readgrade a (new_score (sc_asgt x))) (clear st (value_text x @ 10 # r)) (reread_score x) (clear st (10 # r))"
proof (cases "sc_flag x")
  case VALID
  then obtain g where g: "sc_grade x = Some g" "grade_ok a g"
    using assms by (auto simp: score_ok_def grade_ok_def split: option.splits)
  then have "printable g" by (simp add: grade_ok_def)
  then have "reads (readgrade a (new_score (sc_asgt x))) (clear st (32 # format_f g @ 10 # r)) (reread_score x) (clear st (10 # r))"
    unfolding readgrade_def
    by (intro clear_weaken reads_bnd [OF read_subst_none]) (use VALID g in \<open>auto simp: reread_score_def new_score_def
        intro!: reads_bnd [OF read_raw_write] reads_ret\<close>)
  then show ?thesis using VALID g by (simp add: value_text_def)
next
  case INVALID
  then have n: "sc_subst x \<noteq> USENORM" "nameline (sc_code x)" using assms(1) by (auto simp: score_ok_def)
  show ?thesis
  proof (cases "sc_subst x = USERAW")
    case True
    then obtain g where g: "sc_grade x = Some g" "grade_ok a g"
      using assms by (auto simp: score_ok_def grade_ok_def split: option.splits)
    let ?s = "(new_score (sc_asgt x))\<lparr>sc_flag := INVALID, sc_subst := USERAW, sc_grade := Some g\<rparr>"
    have e: "reread_score x = ?s\<lparr>sc_code := sc_code x\<rparr>"
      using INVALID True g by (simp add: reread_score_def new_score_def)
    have "reads (readgrade a (new_score (sc_asgt x))) (clear st (32 # subst_word USERAW @ 32 # format_f g @ 32 # sc_code x @ 10 # r))
      (reread_score x) (clear st (10 # r))"
      unfolding readgrade_def e
      by (rule clear_weaken, rule reads_bnd [OF read_subst_word], simp only: option.case Let_def gsubst.case,
          rule reads_bnd, rule reads_bnd [OF clear_weaken [OF read_raw_write [OF g(2)]]], simp, rule reads_ret)
        (use read_code_write [OF n(2) assms(2), of ?s st] in simp)
    then show ?thesis using INVALID True g by (simp add: value_text_def)
  next
    case False
    let ?s = "(new_score (sc_asgt x))\<lparr>sc_flag := INVALID, sc_subst := sc_subst x\<rparr>"
    have e: "reread_score x = ?s\<lparr>sc_code := sc_code x\<rparr>"
      using INVALID False by (simp add: reread_score_def new_score_def)
    have "reads (readgrade a (new_score (sc_asgt x))) (clear st (32 # subst_word (sc_subst x) @ 32 # sc_code x @ 10 # r))
      (reread_score x) (clear st (10 # r))"
      unfolding readgrade_def e
      by (rule clear_weaken, rule reads_bnd [OF read_subst_word], simp only: option.case Let_def,
          rule reads_bnd [where x = ?s and Q = "clear st (32 # sc_code x @ 10 # r)"])
        (use False n(1) in \<open>auto split: gsubst.split intro: reads_ret read_code_write [OF n(2) assms(2)]\<close>)
    then show ?thesis using INVALID False by (simp add: value_text_def)
  qed
qed


definition score_text :: "assignment list \<Rightarrow> score \<Rightarrow> byte list" where
  "score_text as x = 32 # 32 # 32 # cs ''SCORE'' @ 32 # as_name (as ! sc_asgt x) @ value_text x @ [10]"

lemma writescore_text: "score_ok as x \<Longrightarrow> writescore as x = Some (score_text as x)"
  by (cases "sc_flag x"; cases "sc_subst x")
    (auto simp: writescore_def score_ok_def buf_get_def write_subst_def score_text_def value_text_def subst_word_def line_def
      split: option.splits)

lemma find_assignment_nth:
  "distinct (map as_name as) \<Longrightarrow> i < length as \<Longrightarrow> find_assignment (as_name (as ! i)) k as = Some (k + i)"
proof (induction as arbitrary: i k)
  case (Cons a as)
  then show ?case by (cases i) (auto simp: strcmp_eq)
qed simp

lemma reread_name [simp]: "as_name (reread_assignment a) = as_name a" "as_max (reread_assignment a) = as_max a"
  by (simp_all add: reread_assignment_def with_norm_def with_weight_def new_assignment_def split: npolicy.splits)

lemma value_delimited: "delimited (value_text x @ r)"
  by (simp add: value_text_def)

lemma readscore_write:
  assumes "score_ok as x" "distinct (map as_name as)" "word (as_name (as ! sc_asgt x))" "fresh_line r"
  shows "reads (readscore (map reread_assignment as)) (clear st (32 # as_name (as ! sc_asgt x) @ value_text x @ 10 # r))
    (reread_score x) (clear st r)"
proof -
  let ?n = "as_name (as ! sc_asgt x)" and ?v = "value_text x @ 10 # r" and ?as = "map reread_assignment as"
  have i: "sc_asgt x < length as" using assms(1) by (simp add: score_ok_def)
  have "find_assignment ?n 0 ?as = Some (sc_asgt x)"
    using find_assignment_nth [of ?as "sc_asgt x" 0] i assms(2) by (simp add: comp_def)
  then have f: "reads (gets (\<lambda>s. find_assignment (token_string s) 0 ?as)) (buffered st ?n ?v) (Some (sc_asgt x)) (buffered st ?n ?v)"
    using word_no_zero [OF assms(3)] by (intro reads_gets) (simp add: token_string_word)
  have t: "reads (gets istoken) (buffered st ?n ?v) True (buffered st ?n ?v)"
    by (rule reads_gets) (simp add: istoken_buffered)
  have m: "as_max (?as ! sc_asgt x) = as_max (as ! sc_asgt x)" using i by simp
  show ?thesis unfolding readscore_def
    by (rule clear_weaken, rule reads_andthen [OF need_token_word [OF heads_space(1) [OF heads_word [OF assms(3) value_delimited]]]],
        rule reads_bnd [OF t], simp only: not_True_eq_False if_False, rule reads_bnd [OF f], simp only: option.case,
        rule reads_andthen [OF flush], rule reads_bnd [OF readgrade_write [OF assms(1,4) m]],
        rule reads_andthen [OF expectnewline_clear [OF newline assms(4)]], rule reads_ret)
qed

lemma readscores_unfold: "readscores as = bnd (checktoken (cs ''SCORE'')) (\<lambda>b. if \<not> b then ret []
     else bnd (readscore as) (\<lambda>x. bnd (readscores as) (\<lambda>xs. ret (x # xs))))"
  by (rule ext, subst readscores.simps, rule refl)

lemma readscores_write:
  assumes "\<forall>x \<in> set xs. score_ok as x" "distinct (map as_name as)" "\<forall>a \<in> set as. word (as_name a)"
    "begins [cs ''STUDENT'', cs ''SECTION''] r"
  shows "\<exists>t. writescores as xs = Some t \<and> begins [cs ''SCORE'', cs ''STUDENT'', cs ''SECTION''] (t @ r) \<and>
    (\<forall>st. reads (readscores (map reread_assignment as)) (ahead st (t @ r)) (map reread_score xs) (ahead st r))"
  using assms(1)
proof (induction xs)
  case Nil
  have "begins [cs ''SCORE'', cs ''STUDENT'', cs ''SECTION''] r" using assms(4) by (rule begins_mono) auto
  moreover have "reads (readscores (map reread_assignment as)) (ahead st r) [] (ahead st r)" for st
    by (subst readscores_unfold, rule check_lacks [OF begins_lacks [OF assms(4)]]) (simp_all add: reads_ret)
  ultimately show ?case by simp
next
  case (Cons x xs)
  then obtain t where t: "writescores as xs = Some t" "begins [cs ''SCORE'', cs ''STUDENT'', cs ''SECTION''] (t @ r)"
    "\<And>st. reads (readscores (map reread_assignment as)) (ahead st (t @ r)) (map reread_score xs) (ahead st r)" by auto
  have ok: "score_ok as x" "word (as_name (as ! sc_asgt x))" using Cons.prems assms(3) by (auto simp: score_ok_def)
  let ?l = "32 # 32 # 32 # cs ''SCORE'' @ 32 # as_name (as ! sc_asgt x) @ value_text x @ 10 # t @ r"
  have "reads (readscores (map reread_assignment as)) (ahead st ?l) (map reread_score (x # xs)) (ahead st r)" for st
    by (subst readscores_unfold, rule check_yes [OF key_heads(3) [OF words(7)]], simp only: not_True_eq_False if_False,
        rule reads_bnd [OF readscore_write [OF ok(1) assms(2) ok(2) begins_fresh [OF t(2)]]],
        rule reads_bnd [OF clear_weaken [OF t(3)]]) (simp add: reads_ret)
  moreover have "begins [cs ''SCORE'', cs ''STUDENT'', cs ''SECTION''] ?l" by (rule begins_key(3) [OF words(7)]) simp
  ultimately show ?case using t(1) by (simp add: writescore_text [OF ok(1)] score_text_def del: list.map)
qed

end
