(* ===== verification/Grades_Roundtrip.thy ===== *)
theory Grades_Roundtrip
  imports Grades_Reread
begin

text \<open>
  The round trip of a whole database: students, sections and the course. The reader allocates the
  students one after the other; \<open>store_students\<close> and \<open>store_sections\<close> are the store it leaves.
\<close>

subsection \<open>Students\<close>

definition student_ok :: "assignment list \<Rightarrow> student \<Rightarrow> bool" where
  "student_ok as x \<longleftrightarrow> word (st_id x) \<and> word (st_surname x) \<and> nameline (st_name x) \<and>
     (\<forall>y \<in> set (st_rawscores x). score_ok as y)"

definition reread_student :: "student \<Rightarrow> nat \<Rightarrow> ptr \<Rightarrow> student" where
  "reread_student x sep nxt = new_student (st_id x) (st_surname x) (st_name x) (map reread_score (st_rawscores x)) sep nxt"

definition first :: "student list \<Rightarrow> nat \<Rightarrow> ptr" where
  "first xs n = (if xs = [] then None else Some n)"

text \<open>The students of a section are allocated one after the other from the address \<open>n\<close>.\<close>

fun store_students :: "nat \<Rightarrow> student list \<Rightarrow> nat \<Rightarrow> students \<Rightarrow> students" where
  "store_students sep [] n h = h"
| "store_students sep (x # xs) n h =
     (store_students sep xs (Suc n) h)(n \<mapsto> reread_student x sep (first xs (Suc n)))"

definition roster :: "students \<Rightarrow> ptr \<Rightarrow> student list \<Rightarrow> bool" where
  "roster h p xs \<longleftrightarrow> (\<exists>ps. chain h st_next p ps \<and> map h ps = map Some xs)"

lemma roster_Nil [simp]: "roster h p [] \<longleftrightarrow> p = None"
  by (simp add: roster_def)

lemma roster_Cons: "roster h p (x # xs) \<longleftrightarrow> (\<exists>a. p = Some a \<and> h a = Some x \<and> roster h (st_next x) xs)"
proof
  assume "roster h p (x # xs)"
  then obtain ps where ps: "chain h st_next p ps" "map h ps = map Some (x # xs)" 
    unfolding roster_def by blast
  then show "\<exists>a. p = Some a \<and> h a = Some x \<and> roster h (st_next x) xs"
    by (cases ps) (auto simp: roster_def)
next
  assume "\<exists>a. p = Some a \<and> h a = Some x \<and> roster h (st_next x) xs"
  then obtain a ps where "p = Some a" "h a = Some x" "chain h st_next (st_next x) ps" "map h ps = map Some xs"
    by (auto simp: roster_def)
  then show "roster h p (x # xs)" unfolding roster_def by (intro exI [of _ "a # ps"]) simp
qed

definition student_head :: "student \<Rightarrow> byte list" where
  "student_head x = 32 # 32 # cs ''STUDENT'' @ 32 # st_id x @ 32 # st_surname x @ 44 # 32 # st_name x @ [10]"

lemma writestudent_head: "writescores as (st_rawscores x) = Some t \<Longrightarrow> writestudent as x = Some (student_head x @ t)"
  by (simp add: writestudent_def student_head_def line_def)

lemma readstudents_unfold: "readstudents as sep = bnd (checktoken (cs ''STUDENT'')) (\<lambda>b. if \<not> b then ret None
     else bnd newstudent (\<lambda>p. bnd readid (\<lambda>i. bnd readsurname (\<lambda>sn. bnd readname (\<lambda>n.
       bnd (readscores as) (\<lambda>xs. bnd (readstudents as sep) (\<lambda>nxt.
         andthen (set_student p (new_student i sn n xs sep nxt)) (ret (Some p)))))))))"
  by (rule ext, subst readstudents.simps, rule refl)

lemma newstudent_pos: "reads newstudent (clear (h, n) bs) n (clear (h, Suc n) bs)"
  by (auto simp: reads_def newstudent_def ret_def pos_def)

lemma set_student_pos: "reads (set_student p x) (ahead (h, n) bs) () (ahead (h(p \<mapsto> x), n) bs)"
  unfolding set_student_def by (rule reads_modify) (auto simp: ahead_def pos_def)

lemma name_delimits: "skip_white (44 # 32 # n @ 10 # r) = n @ 10 # r" if "nameline n"
  using skip_name [OF that] by simp

lemma readstudents_write:
  assumes "roster h0 p xs" "\<forall>x \<in> set xs. student_ok as x" "distinct (map as_name as)" "\<forall>a \<in> set as. word (as_name a)"
    "begins [cs ''SECTION''] r"
  shows "\<exists>t. writestudents as h0 p = Some t \<and> begins [cs ''STUDENT'', cs ''SECTION''] (t @ r) \<and>
    (\<forall>sep h n. reads (readstudents (map reread_assignment as) sep) (ahead (h, n) (t @ r)) (first xs n)
       (ahead (store_students sep xs n h, n + length xs) r))"
  using assms(1,2)
proof (induction xs arbitrary: p)
  case Nil
  have "begins [cs ''STUDENT'', cs ''SECTION''] r" using assms(5) by (rule begins_mono) auto
  moreover have "reads (readstudents (map reread_assignment as) sep) (ahead (h, n) r) None (ahead (h, n) r)" for sep h n
    by (subst readstudents_unfold, rule check_lacks [OF begins_lacks [OF assms(5)]]) (simp_all add: reads_ret)
  moreover have "writestudents as h0 p = Some []" using Nil by (subst writestudents.simps) simp
  ultimately show ?case by (simp add: first_def)
next
  case (Cons x xs)
  then obtain a where a: "p = Some a" "h0 a = Some x" "roster h0 (st_next x) xs" by (auto simp: roster_Cons)
  obtain t where t: "writestudents as h0 (st_next x) = Some t" "begins [cs ''STUDENT'', cs ''SECTION''] (t @ r)"
    "\<And>sep h n. reads (readstudents (map reread_assignment as) sep) (ahead (h, n) (t @ r)) (first xs n)
       (ahead (store_students sep xs n h, n + length xs) r)"
    using Cons.IH [OF a(3)] Cons.prems(2) by auto
  have ok: "word (st_id x)" "word (st_surname x)" "nameline (st_name x)" "\<forall>y \<in> set (st_rawscores x). score_ok as y"
    using Cons.prems(2) by (auto simp: student_ok_def)
  obtain u where u: "writescores as (st_rawscores x) = Some u" "begins [cs ''SCORE'', cs ''STUDENT'', cs ''SECTION''] (u @ t @ r)"
    "\<And>st. reads (readscores (map reread_assignment as)) (ahead st (u @ t @ r)) (map reread_score (st_rawscores x)) (ahead st (t @ r))"
    using readscores_write [OF ok(4) assms(3,4) t(2)] by auto
  let ?l = "32 # 32 # cs ''STUDENT'' @ 32 # st_id x @ 32 # st_surname x @ 44 # 32 # st_name x @ 10 # u @ t @ r"
  have "reads (readstudents (map reread_assignment as) sep) (ahead (h, n) ?l) (Some n)
      (ahead ((store_students sep xs (Suc n) h)(n \<mapsto> reread_student x sep (first xs (Suc n))), Suc n + length xs) r)" for sep h n
    unfolding reread_student_def
    by (subst readstudents_unfold, rule check_yes [OF key_heads(2) [OF words(6)]], simp only: not_True_eq_False if_False,
        rule reads_bnd [OF newstudent_pos], rule reads_bnd [OF clear_weaken [OF readid_word [OF heads_space(1) [OF heads_word [OF ok(1)]]]]], simp,
        rule reads_bnd [OF clear_weaken [OF readsurname_word [OF heads_space(1) [OF heads_word [OF ok(2)]]]]], simp,
        rule reads_bnd [OF readname_name [OF ok(3) name_delimits [OF ok(3)] begins_fresh [OF u(2)]]],
        rule reads_bnd [OF clear_weaken [OF u(3)]], rule reads_bnd [OF t(3)], rule reads_andthen [OF set_student_pos], rule reads_ret)
  moreover have "begins [cs ''STUDENT'', cs ''SECTION''] ?l" by (rule begins_key(2) [OF words(6)]) simp
  moreover have "writestudents as h0 p = Some (student_head x @ u @ t)"
    using t(1) a(1,2) writestudent_head [OF u(1)] by (subst writestudents.simps) simp
  ultimately show ?case by (simp add: student_head_def first_def [of "x # xs"] del: list.map fun_upd_apply)
qed

subsection \<open>Sections\<close>

definition section_text_ok :: "students \<Rightarrow> assignment list \<Rightarrow> section_data \<Rightarrow> student list \<Rightarrow> bool" where
  "section_text_ok h as se xs \<longleftrightarrow> nameline (se_name se) \<and> person_ok (se_assistant se) \<and> roster h (se_roster se) xs \<and>
     (\<forall>x \<in> set xs. student_ok as x)"

fun store_sections :: "nat \<Rightarrow> student list list \<Rightarrow> nat \<Rightarrow> students \<Rightarrow> students" where
  "store_sections sep [] n h = h"
| "store_sections sep (xs # xss) n h = store_sections (sep + 1) xss (n + length xs) (store_students sep xs n h)"

fun reread_sections :: "section_data list \<Rightarrow> student list list \<Rightarrow> nat \<Rightarrow> section_data list" where
  "reread_sections (se # ses) (xs # xss) n =
     \<lparr>se_name = se_name se, se_assistant = se_assistant se, se_roster = first xs n\<rparr> # reread_sections ses xss (n + length xs)"
| "reread_sections _ _ n = []"

lemma next_section_token_unfold: "next_section_token = bnd (gets istoken) (\<lambda>t. if t then ret True
     else andthen advancetoken (bnd (gets istoken) (\<lambda>t. if t then next_section_token
       else bnd (gets r_prev) (\<lambda>fs. if fs = [] then ret False else andthen previousfile next_section_token))))"
  by (rule ext, subst next_section_token.simps, rule refl)

lemma readsections_unfold: "readsections files as sep = bnd next_section_token (\<lambda>t. if \<not> t then ret []
     else bnd (checktoken (cs ''FILE'')) (\<lambda>b. if b
       then andthen (pushfile files) (readsections files as sep)
       else bnd (checktoken (cs ''SECTION'')) (\<lambda>b. if \<not> b then ret []
         else bnd readname (\<lambda>n. bnd readassistant (\<lambda>a. bnd (readstudents as sep) (\<lambda>roster.
           bnd (readsections files as (sep + 1)) (\<lambda>ses.
             ret (\<lparr>se_name = n, se_assistant = a, se_roster = roster\<rparr> # ses))))))))"
  by (rule ext, subst readsections.simps, rule refl)

lemma istoken_pos: "reads (gets istoken) (pos st t bs) (t \<noteq> []) (pos st t bs)"
  by (rule reads_gets) (simp add: pos_def istoken_def)

lemma next_section_buffered: "reads next_section_token (buffered st t r) True (buffered st t r)"
  by (subst next_section_token_unfold, rule reads_bnd [OF istoken_pos]) (simp add: reads_ret)

lemma next_section_word:
  assumes "heads t r bs"
  shows "reads next_section_token (ahead st bs) True (buffered st t r)"
proof -
  have "reads next_section_token (clear st bs) True (buffered st t r)"
    by (subst next_section_token_unfold, rule reads_bnd [OF istoken_pos],
        simp, rule reads_andthen [OF advance_word [OF assms]], rule reads_bnd [OF istoken_pos])
      (simp add: next_section_buffered)
  from reads_disj [OF this next_section_buffered] show ?thesis
    by (rule reads_weaken) (use heads_unique [OF assms] in \<open>auto simp: ahead_def\<close>)
qed

lemma next_section_end: "reads next_section_token (clear st []) False (clear st [])"
proof -
  have p: "reads (gets r_prev) (clear st []) [] (clear st [])"
    by (rule reads_gets) (simp add: pos_def)
  have q: "quiet []" by (simp add: quiet_def)
  show ?thesis
    by (subst next_section_token_unfold, rule reads_bnd [OF istoken_pos],
        simp, rule reads_andthen [OF advance_quiet [OF q]], rule reads_bnd [OF istoken_pos], simp, rule reads_bnd [OF p])
      (simp add: reads_ret)
qed

lemma ahead_Nil: "ahead st [] = clear st []"
  by (intro ext quiet_ahead) (simp add: quiet_def)

lemma next_section_ahead: "heads t r bs \<Longrightarrow> reads next_section_token (ahead st bs) True (ahead st bs)"
  by (rule reads_strengthen [OF next_section_word], assumption) (auto simp: ahead_def)

lemma readsections_write:
  assumes "list_all2 (section_text_ok h0 as) ses xss" "distinct (map as_name as)" "\<forall>a \<in> set as. word (as_name a)"
  shows "\<exists>t. write_all (writesection as h0) ses = Some t \<and> begins [cs ''SECTION''] t \<and>
    (\<forall>files h n sep. reads (readsections files (map reread_assignment as) sep) (ahead (h, n) t) (reread_sections ses xss n)
       (clear (store_sections sep xss n h, n + sum_list (map length xss)) []))"
  using assms(1)
proof (induction ses xss rule: list_all2_induct)
  case Nil
  have "reads (readsections files (map reread_assignment as) sep) (ahead (h, n) []) [] (clear (h, n) [])" for files h n sep
    by (subst readsections_unfold, rule reads_bnd [OF next_section_end [folded ahead_Nil]]) (simp add: reads_ret ahead_Nil)
  then show ?case by simp
next
  case (Cons se ses xs xss)
  then obtain t where t: "write_all (writesection as h0) ses = Some t" "begins [cs ''SECTION''] t"
    "\<And>files h n sep. reads (readsections files (map reread_assignment as) sep) (ahead (h, n) t) (reread_sections ses xss n)
       (clear (store_sections sep xss n h, n + sum_list (map length xss)) [])" by auto
  have ok: "nameline (se_name se)" "person_ok (se_assistant se)" "roster h0 (se_roster se) xs" "\<forall>x \<in> set xs. student_ok as x"
    using Cons.hyps(1) by (auto simp: section_text_ok_def)
  obtain u where u: "writestudents as h0 (se_roster se) = Some u" "begins [cs ''STUDENT'', cs ''SECTION''] (u @ t)"
    "\<And>sep h n. reads (readstudents (map reread_assignment as) sep) (ahead (h, n) (u @ t)) (first xs n)
       (ahead (store_students sep xs n h, n + length xs) t)"
    using readstudents_write [OF ok(3,4) assms(2,3) t(2)] by blast
  let ?a = "writeassistant (se_assistant se) @ u @ t"
  let ?l = "32 # cs ''SECTION'' @ 32 # se_name se @ 10 # ?a"
  have f: "fresh_line ?a" using begins_fresh [OF u(2)] by (simp add: writeassistant_def line_def split: option.split)
  have s: "skip_white (32 # se_name se @ 10 # ?a) = se_name se @ 10 # ?a" using skip_name [OF ok(1)] by simp
  have hd: "heads (cs ''SECTION'') (32 # se_name se @ 10 # ?a) ?l" by (rule key_heads(1) [OF words(5)])
  have l: "lacks (cs ''ASSISTANT'') (u @ t)" by (rule begins_lacks [OF u(2)]) simp
  have "reads (readsections files (map reread_assignment as) sep) (ahead (h, n) ?l)
    (reread_sections (se # ses) (xs # xss) n)
    (clear (store_sections sep (xs # xss) n h, n + length xs + sum_list (map length xss)) [])" for files h n sep
    unfolding store_sections.simps reread_sections.simps
    apply (subst readsections_unfold)
    apply (rule reads_bnd [OF next_section_ahead [OF hd]])
    apply (simp only: not_True_eq_False if_False, rule check_no [OF hd], simp, simp only: if_False)
    apply (rule check_yes [OF hd], simp only: not_True_eq_False if_False)
    apply (rule reads_bnd [OF readname_name [OF ok(1) s f]])
    apply (rule reads_bnd [OF clear_weaken [OF readassistant_write [OF ok(2) begins_fresh [OF u(2)]]]], rule impI, rule l)
    apply (rule reads_bnd [OF u(3)], rule reads_bnd [OF t(3)], rule reads_ret)
    done
  moreover have "begins [cs ''SECTION''] ?l" by (rule begins_key(1) [OF words(5)]) simp
  moreover have "writesection as h0 se = Some (32 # cs ''SECTION'' @ 32 # se_name se @ 10 # writeassistant (se_assistant se) @ u)"
    using u(1) by (simp add: writesection_def line_def)
  ultimately show ?case using t(1) by (simp add: add.assoc list.map(2) [of length] del: list.map)
qed


subsection \<open>Courses\<close>

definition course_ok :: "students \<Rightarrow> course \<Rightarrow> student list list \<Rightarrow> bool" where
  "course_ok h c xss \<longleftrightarrow> word (co_number c) \<and> nameline (co_title c) \<and> person_ok (co_professor c) \<and>
     (\<forall>a \<in> set (co_assignments c). assignment_ok a) \<and> distinct (map as_name (co_assignments c)) \<and>
     list_all2 (section_text_ok h (co_assignments c)) (co_sections c) xss"

definition reread_course :: "course \<Rightarrow> student list list \<Rightarrow> course" where
  "reread_course c xss = \<lparr>co_number = co_number c, co_title = co_title c, co_professor = co_professor c,
     co_assignments = map reread_assignment (co_assignments c), co_sections = reread_sections (co_sections c) xss 0,
     co_roster = None\<rparr>"

lemma readcourse_write:
  assumes "course_ok h c xss"
  shows "\<exists>t. writecourse h c = Some t \<and> fresh_line t \<and> (\<forall>files. reads (readcourse files) (clear (Map.empty, 0) t) (reread_course c xss)
      (clear (store_sections 0 xss 0 Map.empty, sum_list (map length xss)) []))"
proof -
  let ?as = "co_assignments c"
  have ok: "word (co_number c)" "nameline (co_title c)" "person_ok (co_professor c)" "\<forall>a \<in> set ?as. assignment_ok a"
    "distinct (map as_name ?as)" "list_all2 (section_text_ok h ?as) (co_sections c) xss"
    using assms by (auto simp: course_ok_def)
  have w: "\<forall>a \<in> set ?as. word (as_name a)" using ok(4) by (simp add: assignment_ok_def)
  obtain u where u: "write_all (writesection ?as h) (co_sections c) = Some u" "begins [cs ''SECTION''] u"
    "\<And>files h n sep. reads (readsections files (map reread_assignment ?as) sep) (ahead (h, n) u) (reread_sections (co_sections c) xss n)
       (clear (store_sections sep xss n h, n + sum_list (map length xss)) [])"
    using readsections_write [OF ok(6,5) w] by blast
  obtain t where t: "write_all writeassignment ?as = Some t" "begins [cs ''ASSIGNMENT'', cs ''SECTION''] (t @ u)"
    "\<And>st. reads readassignments (ahead st (t @ u)) (map reread_assignment ?as) (ahead st u)"
    using readassignments_write [OF ok(4) u(2)] by blast
  let ?p = "writeprofessor (co_professor c) @ t @ u"
  let ?l = "cs ''COURSE'' @ 32 # co_number c @ 32 # co_title c @ 10 # ?p"
  have f: "fresh_line ?p" using begins_fresh [OF t(2)] by (simp add: writeprofessor_def line_def split: option.split)
  have s: "skip_white (32 # co_title c @ 10 # ?p) = co_title c @ 10 # ?p" using skip_name [OF ok(2)] by simp
  have k: "heads (cs ''COURSE'') (32 # co_number c @ 32 # co_title c @ 10 # ?p) ?l"
    by (rule heads_word [OF words(3)]) simp
  have l: "lacks (cs ''PROFESSOR'') (t @ u)" by (rule begins_lacks [OF t(2)]) simp
  have x: "reads (expecttoken (cs ''COURSE'')) (ahead st ?l) () (clear st (32 # co_number c @ 32 # co_title c @ 10 # ?p))" for st
    unfolding expecttoken_def by (rule check_yes [OF k]) (simp add: reads_ret)
  have "reads (readcourse files) (clear (Map.empty, 0) ?l) (reread_course c xss)
      (clear (store_sections 0 xss 0 Map.empty, 0 + sum_list (map length xss)) [])" for files
    unfolding readcourse_def reread_course_def
    by (rule clear_weaken, rule reads_andthen [OF x],
        rule reads_bnd [OF clear_weaken [OF readid_word [OF heads_space(1) [OF heads_word [OF ok(1)]]]]], simp,
        rule reads_bnd [OF readname_name [OF ok(2) s f]],
        rule reads_bnd [OF clear_weaken [OF readprofessor_write [OF ok(3) begins_fresh [OF t(2)]]]], rule impI, rule l,
        rule reads_bnd [OF t(3)], rule reads_bnd [OF u(3)], rule reads_ret)
  moreover have "writecourse h c = Some ?l"
    using t(1) u(1) by (simp add: writecourse_def line_def)
  moreover have "fresh_line ?l" by (simp add: fresh_line_def EOF_char_def)
  ultimately show ?thesis by simp
qed

lemma readfile_write:
  assumes "course_ok h c xss" "files name = writecourse h c"
  shows "\<exists>s. readfile files name = Some (Done (reread_course c xss, s)) \<and>
    clear (store_sections 0 xss 0 Map.empty, sum_list (map length xss)) [] s"
proof -
  obtain t where t: "writecourse h c = Some t" "fresh_line t" and
    r: "reads (readcourse files) (clear (Map.empty, 0) t) (reread_course c xss)
      (clear (store_sections 0 xss 0 Map.empty, sum_list (map length xss)) [])"
    using readcourse_write [OF assms(1)] by auto
  have e: "reads expecteof (clear st []) () (clear st [])" for st
    by (auto simp: reads_def expecteof_def bnd_def gets_def ret_def istoken_def pos_def set_rest_def)
  have "reads (andthen gobbleblanklines (bnd (readcourse files) (\<lambda>c. andthen gobbleblanklines (andthen expecteof (ret c)))))
    (clear (Map.empty, 0) t) (reread_course c xss) (clear (store_sections 0 xss 0 Map.empty, sum_list (map length xss)) [])"
    by (rule reads_andthen [OF gobbleblanklines_fresh [OF t(2)]], rule reads_bnd [OF r],
        rule reads_andthen [OF gobbleblanklines_fresh], simp, rule reads_andthen [OF e], rule reads_ret)
  then show ?thesis unfolding reads_def readfile_def assms(2) t(1) by (simp add: pos_def)
qed


text \<open>The rosters that the reader has built.\<close>

fun relaid :: "nat \<Rightarrow> student list \<Rightarrow> nat \<Rightarrow> student list" where
  "relaid sep [] n = []"
| "relaid sep (x # xs) n = reread_student x sep (first xs (Suc n)) # relaid sep xs (Suc n)"

lemma store_students_below: "a < n \<Longrightarrow> store_students sep xs n h a = h a"
  by (induction sep xs n h rule: store_students.induct) auto

lemma store_sections_below: "a < n \<Longrightarrow> store_sections sep xss n h a = h a"
  by (induction sep xss n h rule: store_sections.induct) (auto simp: store_students_below)

lemma store_students_roster:
  "\<forall>a. n \<le> a \<and> a < n + length xs \<longrightarrow> h' a = store_students sep xs n h a \<Longrightarrow> roster h' (first xs n) (relaid sep xs n)"
proof (induction sep xs n h rule: store_students.induct)
  case (2 sep x xs n h)
  have "roster h' (first xs (Suc n)) (relaid sep xs (Suc n))"
    using 2(2) by (intro 2(1)) auto
  then show ?case using 2(2) by (simp add: first_def [of "x # xs"] roster_Cons reread_student_def new_student_def)
qed (simp add: first_def)

lemma store_sections_roster:
  "length ses = length xss \<Longrightarrow> i < length xss \<Longrightarrow> \<exists>m. roster (store_sections sep xss n h) (se_roster (reread_sections ses xss n ! i))
     (relaid (sep + i) (xss ! i) m)"
proof (induction ses xss n arbitrary: i sep h rule: reread_sections.induct)
  case (1 se ses xs xss n)
  show ?case
  proof (cases i)
    case 0
    have "roster (store_sections (sep + 1) xss (n + length xs) (store_students sep xs n h)) (first xs n) (relaid sep xs n)"
      by (rule store_students_roster [where h = h]) (simp add: store_sections_below)
    then show ?thesis using 0 by auto
  next
    case (Suc j)
    then show ?thesis using 1(1) [of j "sep + 1" "store_students sep xs n h"] 1(2,3) by simp
  qed
qed auto

lemma relaid_rereads: "list_all2 (\<lambda>x y. y = reread_student x sep (st_next y)) xs (relaid sep xs n)"
  by (induction sep xs n rule: relaid.induct) (auto simp: reread_student_def new_student_def)

lemma reread_sections_names:
  "length ses = length xss \<Longrightarrow> map se_name (reread_sections ses xss n) = map se_name ses \<and>
     map se_assistant (reread_sections ses xss n) = map se_assistant ses"
  by (induction ses xss n rule: reread_sections.induct) auto

text \<open>C4: Reading back what \<open>writecourse\<close> printed, without a warning or an error, restores a database
  of the following kind: number, title and professor, the assignments up to the fields that are not
  printed, the names and assistants of the sections, and in every section the students in their order
  with the fields and scores that a database file can hold. The database (\<open>course_ok\<close>) has single words
  of less than 64 bytes as identifiers, surnames, types and names of assignments; lines of less than 64
  bytes, without white space at the start, as titles, names and codes of scores; assignments with
  different names, not normalized by a line, and with a scale factor when they are scaled;
  weights, maxima, scale factors and grades that \<open>%f\<close> prints so that \<open>scanf\<close> reads the same float;
  grades not above the maximum, when there is one; a grade for every score that is valid or counts as
  it is; and no invalid score that is to be replaced by the normalized one. Outside of it the text is not
  read back: \<open>writenorm\<close> prints a line that the reader refuses for a linear normalization, and an invalid
  score with \<open>USENORM\<close> is printed with \<open>USELIKEAVG\<close> behind it.\<close>

theorem readfile_writecourse:
  assumes "course_ok h c xss" "files name = writecourse h c"
  shows "\<exists>c' s. readfile files name = Some (Done (c', s)) \<and> r_errors s = 0 \<and> r_warnings s = 0 \<and>
    co_number c' = co_number c \<and> co_title c' = co_title c \<and> co_professor c' = co_professor c \<and>
    co_assignments c' = map reread_assignment (co_assignments c) \<and>
    map se_name (co_sections c') = map se_name (co_sections c) \<and>
    map se_assistant (co_sections c') = map se_assistant (co_sections c) \<and>
    (\<forall>i < length xss. \<exists>ys. roster (r_heap s) (se_roster (co_sections c' ! i)) ys \<and>
      list_all2 (\<lambda>x y. y = reread_student x i (st_next y)) (xss ! i) ys)"
proof -
  obtain s where s: "readfile files name = Some (Done (reread_course c xss, s))"
    "clear (store_sections 0 xss 0 Map.empty, sum_list (map length xss)) [] s"
    using readfile_write [of h c xss files name, OF assms(1) assms(2)] by blast
  have l: "length (co_sections c) = length xss" using assms(1) by (auto simp: course_ok_def dest: list_all2_lengthD)
  have "\<exists>ys. roster (r_heap s) (se_roster (co_sections (reread_course c xss) ! i)) ys \<and>
      list_all2 (\<lambda>x y. y = reread_student x i (st_next y)) (xss ! i) ys" if i: "i < length xss" for i
  proof -
    obtain m where "roster (store_sections 0 xss 0 Map.empty) (se_roster (reread_sections (co_sections c) xss 0 ! i)) (relaid i (xss ! i) m)"
      using store_sections_roster [OF l i, of 0 0 Map.empty] by auto
    then show ?thesis using s(2) relaid_rereads [of i "xss ! i" m] by (auto simp: reread_course_def pos_def)
  qed
  then show ?thesis using s reread_sections_names [OF l, of 0]
    by (intro exI [of _ "reread_course c xss"] exI [of _ s]) (simp add: reread_course_def pos_def)
qed

lemma reread_name_of: "st_name (reread_student x sep p) = st_name x"
  by (simp add: reread_student_def new_student_def)

definition asgt_hw :: assignment where
  "asgt_hw = (new_assignment (cs ''HW1'') (cs ''HW''))\<lparr>as_wpolicy := WEIGHT, as_weight := Finite (1 / 4), as_npolicy := QUANTILE,
     as_ngroup := BYSECTION, as_max := Finite 100\<rparr>"

definition student_a :: student where
  "student_a = new_student (cs ''ada'') (cs ''Lovelace'') (cs ''Ada K.'')
     [(new_score 0)\<lparr>sc_flag := VALID, sc_grade := Some (Finite (171 / 2))\<rparr>] 0 (Some 2)"

definition student_b :: student where
  "student_b = new_student (cs ''gh'') (cs ''Hopper'') (cs ''Grace'')
     [(new_score 0)\<lparr>sc_subst := USELIKEAVG, sc_code := cs ''ILL''\<rparr>] 0 None"

definition store_ab :: students where
  "store_ab = [1 \<mapsto> student_a, 2 \<mapsto> student_b]"

definition course_ab :: course where
  "course_ab = \<lparr>co_number = cs ''CSE320'', co_title = cs ''System Programming'', co_professor = Some (cs ''Stark'', cs ''E. W.''),
     co_assignments = [asgt_hw], co_sections = [\<lparr>se_name = cs ''01'', se_assistant = None, se_roster = Some 1\<rparr>],
     co_roster = None\<rparr>"

lemma course_ab_ok: "course_ok store_ab course_ab [[student_a, student_b]]"
proof -
  have p: "printable (Finite (1 / 4))" "printable (Finite 100)" "printable (Finite (171 / 2))"
    using printable_64 [of 16] printable_64 [of 6400] printable_64 [of "171 * 32"] by simp_all
  have w: "word (cs ''HW1'')" "word (cs ''HW'')" "word (cs ''ada'')" "word (cs ''Lovelace'')" "word (cs ''gh'')" "word (cs ''Hopper'')"
    "word (cs ''CSE320'')" "word (cs ''Stark'')"
    by (simp_all add: word_def literal)
  have n: "nameline (cs ''Ada K.'')" "nameline (cs ''Grace'')" "nameline (cs ''System Programming'')" "nameline (cs ''E. W.'')"
    "nameline (cs ''01'')" "nameline (cs ''ILL'')"
    by (simp_all add: nameline_def literal)
  have a: "assignment_ok asgt_hw" using w p by (simp add: assignment_ok_def asgt_hw_def new_assignment_def del: list.map)
  have x: "student_ok [asgt_hw] student_a"
    using w n p by (simp add: student_ok_def student_a_def new_student_def new_score_def score_ok_def grade_ok_def
        asgt_hw_def del: list.map)
  have y: "student_ok [asgt_hw] student_b"
    using w n p by (simp add: student_ok_def student_b_def new_student_def new_score_def score_ok_def grade_ok_def
        asgt_hw_def del: list.map)
  have r: "roster store_ab (Some 1) [student_a, student_b]"
    by (simp add: roster_Cons store_ab_def student_a_def student_b_def new_student_def del: list.map)
  show ?thesis using a x y r w n
    by (simp add: course_ok_def course_ab_def section_text_ok_def person_ok_def del: list.map)
      (simp add: asgt_hw_def)
qed

lemma readfile_writecourse_witness:
  "\<exists>c' s ys. readfile (\<lambda>_. writecourse store_ab course_ab) (cs ''db'') = Some (Done (c', s)) \<and> r_errors s = 0 \<and>
    co_number c' = cs ''CSE320'' \<and> co_assignments c' = [asgt_hw] \<and> roster (r_heap s) (se_roster (co_sections c' ! 0)) ys \<and>
    map st_name ys = [cs ''Ada K.'', cs ''Grace'']"
proof -
  obtain c' s where c: "readfile (\<lambda>_. writecourse store_ab course_ab) (cs ''db'') = Some (Done (c', s))" "r_errors s = 0"
    "co_number c' = co_number course_ab" "co_assignments c' = map reread_assignment (co_assignments course_ab)"
    and r: "\<forall>i < length [[student_a, student_b]]. \<exists>ys. roster (r_heap s) (se_roster (co_sections c' ! i)) ys \<and>
      list_all2 (\<lambda>x y. y = reread_student x i (st_next y)) ([[student_a, student_b]] ! i) ys"
    using readfile_writecourse [OF course_ab_ok, of "\<lambda>_. writecourse store_ab course_ab" "cs ''db''", OF refl] by blast
  have "0 < length [[student_a, student_b]]" by simp
  from mp [OF spec [OF r] this] obtain ys where ys: "roster (r_heap s) (se_roster (co_sections c' ! 0)) ys"
    "list_all2 (\<lambda>x y. y = reread_student x 0 (st_next y)) [student_a, student_b] ys"
    unfolding nth_Cons_0 by blast
  have "length ys = Suc (Suc 0)" using list_all2_lengthD [OF ys(2)] by simp
  then obtain u v where uv: "ys = [u, v]" by (auto simp: length_Suc_conv)
  note y = ys(2) [unfolded uv list_all2_Cons]
  have "st_name u = st_name student_a" "st_name v = st_name student_b"
    by (rule trans [OF arg_cong [where f = st_name, OF y [THEN conjunct1]] reread_name_of],
      rule trans [OF arg_cong [where f = st_name, OF y [THEN conjunct2, THEN conjunct1]] reread_name_of])
  then have "map st_name ys = [st_name student_a, st_name student_b]" using uv by simp
  moreover have "reread_assignment asgt_hw = asgt_hw"
    by (simp add: reread_assignment_def asgt_hw_def with_norm_def with_weight_def new_assignment_def)
  then have "map reread_assignment (co_assignments course_ab) = [asgt_hw]" "co_number course_ab = cs ''CSE320''"
    by (simp_all add: course_ab_def)
  moreover have "st_name student_a = cs ''Ada K.''" "st_name student_b = cs ''Grace''"
    by (simp_all add: student_a_def student_b_def new_student_def)
  ultimately show ?thesis using c ys(1)
    by (intro exI [of _ c'] exI [of _ s] exI [of _ ys]) (simp del: list.map)
qed

end
