(* ===== verification/Grades_Program.thy ===== *)
theory Grades_Program
  imports Grades_Compute Grades_Roundtrip
begin

text \<open>
  The reports and the collated text of a computed course, with one rule per way of composing
  computations that do not fault (\<open>run_intros\<close>), and the whole program from the input file on.
\<close>

subsection \<open>The reports\<close>

text \<open>A computation that does not fault, with a rule for each way of composing computations.\<close>

definition returns :: "'a option \<Rightarrow> bool" where
  "returns m \<longleftrightarrow> (\<exists>x. m = Some x)"

named_theorems run_intros \<open>computations that do not fault\<close>

lemma returnsE: "returns m \<Longrightarrow> (\<And>x. m = Some x \<Longrightarrow> P) \<Longrightarrow> P"
  unfolding returns_def by blast

lemma returns_Some [run_intros]: "returns (Some x)"
  by (simp add: returns_def)

lemma returns_bind [run_intros]: "returns m \<Longrightarrow> (\<And>x. m = Some x \<Longrightarrow> returns (f x)) \<Longrightarrow> returns (Option.bind m f)"
  by (auto simp: returns_def)

lemma returns_if [run_intros]: "(b \<Longrightarrow> returns m) \<Longrightarrow> (\<not> b \<Longrightarrow> returns n) \<Longrightarrow> returns (if b then m else n)"
  by simp

lemma returns_pair [run_intros]: "(\<And>x y. p = (x, y) \<Longrightarrow> returns (f x y)) \<Longrightarrow> returns (case p of (x, y) \<Rightarrow> f x y)"
  by (cases p) simp

lemma returns_buf_get [run_intros]: "i < length b \<Longrightarrow> returns (buf_get b i)"
  by (simp add: buf_get_def returns_def)

lemma returns_field: "z \<noteq> None \<Longrightarrow> returns z"
  by (auto simp: returns_def)

lemma returns_write_all [run_intros]: "(\<And>x. x \<in> set xs \<Longrightarrow> returns (f x)) \<Longrightarrow> returns (write_all f xs)"
proof (induction xs)
  case (Cons x xs)
  show ?case unfolding write_all.simps by (intro run_intros Cons.IH) (simp_all add: Cons.prems)
qed (simp add: returns_def)

lemma returns_each_student:
  "chain h st_cnext p as \<Longrightarrow> (\<And>a. a \<in> set as \<Longrightarrow> returns (f (the (h a)))) \<Longrightarrow> returns (each_student f h p)"
proof (induction as arbitrary: p)
  case Nil
  then show ?case by (subst each_student.simps) (simp add: returns_def)
next
  case (Cons a as)
  then obtain x where x: "p = Some a" "h a = Some x" "chain h st_cnext (st_cnext x) as" by auto
  have "returns (f x)" "returns (each_student f h (st_cnext x))" using Cons.prems(2) [of a] Cons.IH [OF x(3)] Cons.prems(2) x(2) by auto
  then show ?case using x(1,2) by (subst each_student.simps) (auto simp: returns_def)
qed

text \<open>The statistics of an assignment of the course and of one of its sections.\<close>

definition tally_known :: "nat \<Rightarrow> 'a tally_scheme \<Rightarrow> bool" where
  "tally_known n t \<longleftrightarrow> t_asgt t < n \<and> tally_full t"

definition section_known :: "nat \<Rightarrow> nat \<Rightarrow> sectionstats \<Rightarrow> bool" where
  "section_known n m ssp \<longleftrightarrow> tally_known n ssp \<and> ss_section ssp < m"

definition class_known :: "nat \<Rightarrow> nat \<Rightarrow> classstats \<Rightarrow> bool" where
  "class_known n m csp \<longleftrightarrow> tally_known n csp \<and> (\<forall>ssp \<in> set (cl_sstats csp). section_known n m ssp)"

lemma stats_full_known:
  assumes "stats_full n m st" "csp \<in> set st"
  shows "class_known n m csp"
proof -
  have f: "stats_for st = map (\<lambda>i. (i, map (\<lambda>j. (i, j)) [0..<m])) [0..<n]"
    and t: "tally_full csp \<and> (\<forall>ssp \<in> set (cl_sstats csp). tally_full ssp)" using assms by (simp_all add: stats_full_def)
  have "(t_asgt csp, map (\<lambda>t. (t_asgt t, ss_section t)) (cl_sstats csp)) \<in> set (stats_for st)"
    using assms(2) by (auto simp: stats_for_def)
  then obtain i where i: "i < n" "t_asgt csp = i" "map (\<lambda>t. (t_asgt t, ss_section t)) (cl_sstats csp) = map (\<lambda>j. (i, j)) [0..<m]"
    unfolding f by auto
  have "t_asgt ssp < n \<and> ss_section ssp < m" if "ssp \<in> set (cl_sstats csp)" for ssp
  proof -
    have "(t_asgt ssp, ss_section ssp) \<in> set (map (\<lambda>t. (t_asgt t, ss_section t)) (cl_sstats csp))" using that by auto
    then show ?thesis using i(1) unfolding i(3) by auto
  qed
  then show ?thesis using i(1,2) t by (auto simp: class_known_def section_known_def tally_known_def)
qed

text \<open>What a report may rely on.\<close>

definition reportable :: "course \<Rightarrow> stats \<Rightarrow> bool" where
  "reportable c st \<longleftrightarrow> (\<forall>csp \<in> set st. class_known (length (co_assignments c)) (length (co_sections c)) csp)"

lemma reportableD: "reportable c st \<Longrightarrow> csp \<in> set st \<Longrightarrow> class_known (length (co_assignments c)) (length (co_sections c)) csp"
  unfolding reportable_def by blast

lemma computed_reportable: "computed c h st as pss \<Longrightarrow> reportable c st"
  unfolding reportable_def
proof
  fix csp assume c: "computed c h st as pss" "csp \<in> set st"
  have "length pss = length (co_sections c)" using c(1) by (auto simp: computed_def rosters_linked_def dest: list_all2_lengthD)
  then show "class_known (length (co_assignments c)) (length (co_sections c)) csp"
    using stats_full_known [OF _ c(2)] c(1) by (simp add: computed_def)
qed

lemma class_knownD: "class_known n m csp \<Longrightarrow> ssp \<in> set (cl_sstats csp) \<Longrightarrow> section_known n m ssp"
  unfolding class_known_def by blast

lemma heading_runs [run_intros]:
  "t_asgt csp < length (co_assignments c) \<Longrightarrow> returns (class_heading c csp)"
  "ss_section ssp < length (co_sections c) \<Longrightarrow> returns (section_heading c ssp)"
  unfolding class_heading_def section_heading_def by (intro run_intros, assumption)+

lemma table_items_runs: "(\<And>fp. fp \<in> set fps \<Longrightarrow> returns (item fp)) \<Longrightarrow> returns (table_items k item i fps)"
proof (induction fps arbitrary: i)
  case (Cons fp fps)
  then show ?case unfolding table_items.simps by (intro run_intros) auto
qed (simp add: returns_def)

lemma tables_run:
  assumes "reportable c st" "\<And>n fps. counted fps \<Longrightarrow> returns (body n fps)"
  shows "returns (write_all (table_class body c) st)"
proof (rule returns_write_all)
  fix csp assume "csp \<in> set st"
  note k = reportableD [OF assms(1) this]
  have "returns (table_section body c ssp)" if s: "ssp \<in> set (cl_sstats csp)" for ssp
    unfolding table_section_def using class_knownD [OF k s]
    by (intro run_intros assms(2)) (simp_all add: section_known_def tally_known_def tally_full_def)
  then show "returns (table_class body c csp)" unfolding table_class_def using k
    by (intro run_intros assms(2)) (simp_all add: class_known_def tally_known_def tally_full_def)
qed

lemma reportfreqs_runs [run_intros]: "reportable c st \<Longrightarrow> returns (reportfreqs c st)"
proof -
  assume "reportable c st"
  then have "returns (write_all (table_class (table_lines 7 freq_item) c) st)"
    by (rule tables_run) (auto simp: table_lines_def freq_item_def intro!: run_intros table_items_runs)
  then show ?thesis unfolding reportfreqs_def by (rule returns_bind) (rule returns_Some)
qed

lemma reportquantiles_runs [run_intros]: "reportable c st \<Longrightarrow> returns (reportquantiles c st)"
proof -
  assume "reportable c st"
  then have "returns (write_all (table_class (table_lines 6 quantile_item) c) st)"
  proof (rule tables_run)
    show "returns (table_lines 6 quantile_item n fps)" if "counted fps" for n fps
      unfolding table_lines_def quantile_item_def
      by (intro run_intros table_items_runs returns_field) (use that in \<open>simp add: counted_def\<close>)
  qed
  then show ?thesis unfolding reportquantiles_def by (rule returns_bind) (rule returns_Some)
qed

lemma moment_text_runs: "tally_full t \<Longrightarrow> returns (moment_text t)"
  unfolding moment_text_def by (intro run_intros returns_field) (simp_all add: tally_full_def)

lemma reportmoments_runs [run_intros]: "reportable c st \<Longrightarrow> returns (reportmoments c st)"
proof -
  assume r: "reportable c st"
  have "returns (moment_class c csp)" if "csp \<in> set st" for csp
  proof -
    note k = reportableD [OF r that]
    have "returns (moment_section c a ssp)" if s: "ssp \<in> set (cl_sstats csp)" for a ssp
      unfolding moment_section_def using class_knownD [OF k s]
      by (intro run_intros moment_text_runs) (simp_all add: section_known_def tally_known_def)
    then show ?thesis unfolding moment_class_def using k
      by (intro run_intros moment_text_runs) (simp_all add: class_known_def tally_known_def)
  qed
  then show ?thesis unfolding reportmoments_def by (intro run_intros)
qed

text \<open>The reports on students.\<close>

lemma student_heading_runs [run_intros]: "st_section x < length (co_sections c) \<Longrightarrow> returns (student_heading c nm sep x)"
  unfolding student_heading_def by (intro run_intros)

lemma score_lines_run:
  assumes "stats_full (length (co_assignments c)) m st"
  shows "\<forall>scp \<in> set scps. score_linked (length (co_assignments c)) m scp \<Longrightarrow> length nscps = length scps \<Longrightarrow>
    \<forall>s \<in> set nscps. sc_grade s \<noteq> None \<Longrightarrow> returns (score_lines c st scps nscps)"
proof (induction scps arbitrary: nscps)
  case (Cons scp scps)
  then obtain s nscps' where n: "nscps = s # nscps'" "length nscps' = length scps" by (cases nscps) auto
  obtain j where l: "score_typed (length (co_assignments c)) scp" "sc_cstats scp = Some (sc_asgt scp)"
    "j < m" "sc_sstats scp = Some (sc_asgt scp, j)" using Cons.prems(1) by (auto simp: score_linked_def)
  then have i: "sc_asgt scp < length (co_assignments c)" by (simp add: score_typed_def)
  note nth = stats_full_nth [OF assms i]
  have "returns (score_lines c st scps nscps')" using Cons.IH [OF _ n(2)] Cons.prems(1,3) n(1) by simp
  moreover have "returns (t_mean (st ! sc_asgt scp))" "returns (t_mean (cl_sstats (st ! sc_asgt scp) ! j))"
    using nth(4) nth(5) [OF l(3)] by (auto simp: tally_full_def returns_def)
  moreover have "\<exists>g. sc_grade scp = Some g" if "counts scp"
    using that l(1) by (auto simp: score_typed_def counts_def)
  moreover have "returns (sc_grade s)" using Cons.prems(3) n(1) by (simp add: returns_field)
  ultimately show ?case using i nth(1,3) l(2-4)
    by (cases "counts scp") (auto simp: n(1) buf_get_def get_sstats_def simp del: list.map elim!: returnsE intro!: returns_Some)
qed (simp add: returns_def)

lemma computed_student:
  assumes "computed c h st as pss" "a \<in> set as"
  shows "\<exists>x. h a = Some x \<and> st_section x < length (co_sections c) \<and> student_normed x \<and>
    (\<forall>scp \<in> set (st_rawscores x). score_linked (length (co_assignments c)) (length pss) scp)"
proof -
  have c: "rosters_linked c h as pss" "students_ok (length (co_assignments c)) h pss" "student_normed (the (h a))"
    using assms by (simp_all add: computed_def)
  obtain i x where x: "i < length pss" "h a = Some x" "student_linked (length (co_assignments c)) (length pss) i x"
    using rosters_student [OF c(1,2) assms(2)] by blast
  have "length pss = length (co_sections c)" using c(1) by (auto simp: rosters_linked_def dest: list_all2_lengthD)
  then show ?thesis using x c(3) by (auto simp: student_linked_def)
qed

lemma roster_runs:
  assumes "computed c h st as pss" "\<And>x. st_section x < length (co_sections c) \<Longrightarrow> student_normed x \<Longrightarrow>
    \<forall>scp \<in> set (st_rawscores x). score_linked (length (co_assignments c)) (length pss) scp \<Longrightarrow> returns (f x)"
  shows "returns (each_student f h (co_roster c))"
proof (rule returns_each_student)
  show "chain h st_cnext (co_roster c) as" using assms(1) by (simp add: computed_def rosters_linked_def)
  show "returns (f (the (h a)))" if "a \<in> set as" for a using computed_student [OF assms(1) that] assms(2) by auto
qed

lemma reportscores_runs: "computed c h st as pss \<Longrightarrow> returns (reportscores h c st nm)"
proof -
  assume c: "computed c h st as pss"
  then have f: "stats_full (length (co_assignments c)) (length pss) st" by (simp add: computed_def)
  have "returns (student_scores c st nm x)" if "st_section x < length (co_sections c)" "student_normed x"
    "\<forall>scp \<in> set (st_rawscores x). score_linked (length (co_assignments c)) (length pss) scp" for x
    unfolding student_scores_def
    by (intro run_intros score_lines_run [OF f]) (use that in \<open>simp_all add: student_normed_def\<close>)
  then show ?thesis unfolding reportscores_def by (intro run_intros roster_runs [OF c])
qed

lemma reportcomposites_runs: "computed c h st as pss \<Longrightarrow> returns (reportcomposites h c nm)"
  unfolding reportcomposites_def by (intro run_intros roster_runs) (auto simp: student_composite_def intro!: run_intros)

lemma tab_score_runs: "\<forall>scp \<in> set scps. score_linked n m scp \<Longrightarrow> returns (tab_score ap scps)"
proof (induction scps)
  case (Cons scp scps)
  then have "returns (if counts scp then do { g \<leftarrow> sc_grade scp; Some (f62 g) } else Some (cs ''***.**''))"
    by (intro run_intros returns_field) (auto simp: score_linked_def score_typed_def counts_def)
  then show ?case using Cons by (simp del: list.map)
qed (simp add: returns_def)

lemma reporttabs_runs: "computed c h st as pss \<Longrightarrow> returns (reporttabs h c)"
  unfolding reporttabs_def tab_line_def by (intro run_intros roster_runs tab_score_runs) auto


subsection \<open>The collated text\<close>

lemma writenorm_runs: "assignment_typed a \<Longrightarrow> returns (writenorm a)"
  by (cases "as_npolicy a") (auto simp: writenorm_def assignment_typed_def returns_def)

lemma writeassignment_runs: "assignment_typed a \<Longrightarrow> returns (writeassignment a)"
  unfolding writeassignment_def by (intro run_intros writenorm_runs)

lemma write_subst_runs: "score_typed n s \<Longrightarrow> sc_flag s \<noteq> VALID \<Longrightarrow> returns (write_subst a s)"
  by (cases "sc_flag s"; cases "sc_subst s"; cases "as_npolicy a") (auto simp: write_subst_def score_typed_def returns_def)

lemma writescore_runs: "score_typed (length as) s \<Longrightarrow> returns (writescore as s)"
  unfolding writescore_def
  by (intro run_intros returns_field write_subst_runs [of "length as"]) (auto simp: score_typed_def)

lemma writescores_run: "\<forall>s \<in> set ss. score_typed (length as) s \<Longrightarrow> returns (writescores as ss)"
proof (induction ss)
  case (Cons s ss)
  show ?case unfolding writescores.simps by (intro run_intros writescore_runs Cons.IH) (use Cons.prems in auto)
qed (simp add: returns_def)

lemma writestudents_run:
  "chain h st_next p ps \<Longrightarrow> \<forall>a \<in> set ps. \<exists>x. h a = Some x \<and> (\<forall>s \<in> set (st_rawscores x). score_typed (length as) s) \<Longrightarrow>
   returns (writestudents as h p)"
proof (induction ps arbitrary: p)
  case Nil
  then show ?case by (subst writestudents.simps) (simp add: returns_def)
next
  case (Cons a ps)
  then obtain x where x: "p = Some a" "h a = Some x" "chain h st_next (st_next x) ps"
    "\<forall>s \<in> set (st_rawscores x). score_typed (length as) s" by auto
  have "returns (writestudent as x)" unfolding writestudent_def by (intro run_intros writescores_run x(4))
  moreover have "returns (writestudents as h (st_next x))" using Cons.IH [OF x(3)] Cons.prems(2) by simp
  ultimately show ?case using x(1,2) by (subst writestudents.simps) (auto simp: returns_def)
qed

lemma writecourse_runs:
  assumes "computed c h st as pss"
  shows "returns (writecourse h c)"
proof -
  have c: "typed_course c" "list_all2 (chain h st_next) (map se_roster (co_sections c)) pss"
    "students_ok (length (co_assignments c)) h pss"
    using assms by (simp_all add: computed_def rosters_linked_def)
  have "returns (writesection (co_assignments c) h se)" if "se \<in> set (co_sections c)" for se
  proof -
    obtain i where i: "i < length (co_sections c)" "co_sections c ! i = se" using \<open>se \<in> _\<close> by (auto simp: in_set_conv_nth)
    have r: "i < length pss" "chain h st_next (se_roster se) (pss ! i)" using c(2) i by (auto simp: list_all2_conv_all_nth)
    have "\<exists>x. h a = Some x \<and> (\<forall>s \<in> set (st_rawscores x). score_typed (length (co_assignments c)) s)"
      if "a \<in> set (pss ! i)" for a
      using students_okD [OF c(3) r(1) that] by (auto simp: student_linked_def score_linked_def)
    then have "returns (writestudents (co_assignments c) h (se_roster se))" using writestudents_run [OF r(2)] by blast
    then show ?thesis unfolding writesection_def by (rule returns_bind) (rule returns_Some)
  qed
  then show ?thesis unfolding writecourse_def by (intro run_intros writeassignment_runs) (use c(1) in auto)
qed

subsection \<open>The program\<close>

lemma if_report_runs [run_intros]: "(n \<noteq> 0 \<Longrightarrow> returns t) \<Longrightarrow> returns (if_report n t)"
  unfolding if_report_def by (intro run_intros)

lemma reports_run:
  assumes "computed c h st as pss" "o_summaries os = 0" "o_histograms os = 0"
  shows "returns (reports os c h st)"
proof -
  note r = computed_reportable [OF assms(1)]
  show ?thesis unfolding reports_def
    using reportmoments_runs [OF r] reportcomposites_runs [OF assms(1)] reportfreqs_runs [OF r]
      reportquantiles_runs [OF r] reportscores_runs [OF assms(1)] reporttabs_runs [OF assms(1)]
    by (intro run_intros) (simp_all add: assms(2,3) r)
qed

text \<open>The output file, when one is asked for, can be opened.\<close>

definition output_ok :: "(cstr \<Rightarrow> bool) \<Rightarrow> options \<Rightarrow> bool" where
  "output_ok opens os \<longleftrightarrow> o_output os = 0 \<or> (\<exists>f. o_filename os = Some f \<and> opens f)"

lemma print_reports_run:
  assumes "computed c h st as pss" "o_summaries os = 0" "o_histograms os = 0" "sortable (o_compare os) h"
  shows "if co_professor c \<noteq> None \<and> as \<noteq> [] \<and> output_ok opens os
    then \<exists>out f. print_reports opens today ifile os c h st n = Some (Exit True out f)
    else print_reports opens today ifile os c h st n = None"
proof -
  obtain h' c' bs bss where s: "sort_course (o_compare os) h c = Some (h', c')" "computed c' h' st bs bss"
    "mset bs = mset as" "co_professor c' = co_professor c"
    using sort_course_runs [OF assms(1,4)] by blast
  have "chain h' st_cnext (co_roster c') bs" using s(2) by (simp add: computed_def rosters_linked_def)
  then have "co_roster c' = None \<longleftrightarrow> as = []" using s(3) by (cases bs) auto
  moreover obtain t where t: "reports os c' h' st = Some t" using reports_run [OF s(2) assms(2,3)] by (auto elim: returnsE)
  moreover have "output_file opens os c' h' st \<noteq> None \<longleftrightarrow> output_ok opens os"
    using t by (cases "o_filename os") (auto simp: output_file_def output_ok_def)
  ultimately show ?thesis using s(1,4)
    by (cases "co_professor c"; cases "as = []"; cases "output_file opens os c' h' st")
      (auto simp: print_reports_def free_all_def deref_def bind_eq_None_conv)
qed

lemma course_list_empty:
  assumes "well_typed c h pss"
  shows "course_list c pss \<noteq> [] \<longleftrightarrow> co_assignments c \<noteq> [] \<and> (\<exists>se \<in> set (co_sections c). se_roster se \<noteq> None)"
proof -
  have l: "list_all2 (\<lambda>se ps. chain h st_next (se_roster se) ps) (co_sections c) pss"
    using assms by (simp add: well_typed_def list_all2_map1)
  have e: "se_roster se = None \<longleftrightarrow> ps = []" if "chain h st_next (se_roster se) ps" for se ps
    using that by (cases ps) auto
  from l have "(\<exists>se \<in> set (co_sections c). se_roster se \<noteq> None) \<longleftrightarrow> concat pss \<noteq> []"
    by (induction rule: list_all2_induct) (auto simp: e)
  then show ?thesis by (simp add: course_list_def)
qed

text \<open>C1: When the input has no errors and every \<open>USECLASSAVG\<close> belongs to an assignment with an average,
  collating by name or by id never faults: it prints the text of the computed course, whose roster has
  the students of all sections in order (without an assignment the code links no student).\<close>

theorem run_collates:
  assumes "readfile files ifile = Some (Done (c, s))" "r_errors s = 0" "averages_known c (r_heap s)"
    "o_collate os \<noteq> 0" "o_compare os \<in> {comparename, compareid}"
  shows "\<exists>pss c' h st n as out. list_all2 (chain (r_heap s) st_next) (map se_roster (co_sections c)) pss \<and>
    compute (o_compare os) c (r_heap s) = Some (c', h, st, n) \<and> chain h st_cnext (co_roster c') as \<and>
    mset as = (if co_assignments c = [] then {#} else mset (concat pss)) \<and> sorted_wrt (in_order (o_compare os) h) as \<and>
    writecourse h c' = Some out \<and> run_grades files opens today ifile os = Some (Exit True out None)"
proof -
  obtain pss where w: "well_typed c (r_heap s) pss" using readfile_typed [OF assms(1)] by blast
  then obtain c' h st n as bss where r: "compute (o_compare os) c (r_heap s) = Some (c', h, st, n)"
    "computed c' h st as bss" "sorted_wrt (in_order (o_compare os) h) as" "mset as = mset (course_list c pss)"
    using compute_runs [OF _ assms(3,5)] by blast
  obtain out where "writecourse h c' = Some out" using writecourse_runs [OF r(2)] by (auto elim: returnsE)
  moreover have "chain h st_cnext (co_roster c') as" using r(2) by (simp add: computed_def rosters_linked_def)
  moreover have "mset as = (if co_assignments c = [] then {#} else mset (concat pss))" using r(4) by (simp add: course_list_def)
  moreover have "list_all2 (chain (r_heap s) st_next) (map se_roster (co_sections c)) pss" using w by (simp add: well_typed_def)
  ultimately show ?thesis using assms(1,2,4) r(1,3)
    by (intro exI [of _ pss] exI [of _ c'] exI [of _ h] exI [of _ st] exI [of _ n] exI [of _ as] exI [of _ out])
      (simp add: run_grades_def)
qed

text \<open>C2: Take an input that is read without an error, in which every score to be replaced by the class
  average belongs to an assignment normalized by a line or by quantiles (for the others the code
  reads an average that was never computed), and a run that reports, sorts by name or id and asks for
  neither histograms nor quantile summaries. The run faults exactly when the course has no
  professor, or has no assignment or no student (so that its roster stays empty), or when an
  output file is asked for and cannot be opened; otherwise it prints its reports and succeeds.\<close>

theorem run_reports:
  assumes "readfile files ifile = Some (Done (c, s))" "r_errors s = 0" "averages_known c (r_heap s)"
    "o_collate os = 0" "o_compare os \<in> {comparename, compareid}" "o_summaries os = 0" "o_histograms os = 0"
  shows "if co_professor c \<noteq> None \<and> co_assignments c \<noteq> [] \<and> (\<exists>se \<in> set (co_sections c). se_roster se \<noteq> None) \<and>
      output_ok opens os
    then \<exists>out f. run_grades files opens today ifile os = Some (Exit True out f)
    else run_grades files opens today ifile os = None"
proof -
  obtain pss where w: "well_typed c (r_heap s) pss" using readfile_typed [OF assms(1)] by blast
  obtain c' h st n as bss where r: "compute (o_compare os) c (r_heap s) = Some (c', h, st, n)"
    "computed c' h st as bss" "mset as = mset (course_list c pss)" "co_professor c' = co_professor c"
    using compute_runs [OF w assms(3,5)] by blast
  have "sortable (o_compare os) h" using assms(5) by (auto simp: sortable_def)
  note p = print_reports_run [OF r(2) assms(6,7) this, of opens today ifile "r_warnings s + n"]
  have "as \<noteq> [] \<longleftrightarrow> co_assignments c \<noteq> [] \<and> (\<exists>se \<in> set (co_sections c). se_roster se \<noteq> None)"
    using course_list_empty [OF w] r(3) by auto
  then show ?thesis using p assms(1,2,4) r(1,4) by (simp add: run_grades_def)
qed


lemma reread_average:
  "sc_flag x = VALID \<or> sc_subst x \<noteq> USECLASSAVG \<Longrightarrow> average_known c (reread_score x)"
  by (auto simp: average_known_def reread_score_def Let_def split: if_splits gsubst.splits)

lemma reread_students_average:
  "\<forall>x \<in> set (st_rawscores y). sc_flag x = VALID \<or> sc_subst x \<noteq> USECLASSAVG \<Longrightarrow>
    scp \<in> set (st_rawscores (reread_student y sep p)) \<Longrightarrow> average_known c scp"
  by (auto simp: reread_student_def new_student_def reread_average)

lemma averages_ab: "averages_known c (store_sections 0 [[student_a, student_b]] 0 Map.empty)"
proof -
  have a: "\<forall>x \<in> set (st_rawscores student_a). sc_flag x = VALID \<or> sc_subst x \<noteq> USECLASSAVG"
    "\<forall>x \<in> set (st_rawscores student_b). sc_flag x = VALID \<or> sc_subst x \<noteq> USECLASSAVG"
    by (simp_all add: student_a_def student_b_def new_student_def)
  have "\<exists>sep p. x = reread_student student_a sep p \<or> x = reread_student student_b sep p"
    if "store_sections 0 [[student_a, student_b]] 0 Map.empty b = Some x" for b x
    using that by (auto split: if_splits)
  then show ?thesis using reread_students_average [OF a(1)] reread_students_average [OF a(2)]
    unfolding averages_known_def by blast
qed

lemma read_ab:
  "\<exists>s. readfile (\<lambda>_. writecourse store_ab course_ab) (cs ''db'') =
      Some (Done (reread_course course_ab [[student_a, student_b]], s)) \<and> r_errors s = 0 \<and>
    averages_known (reread_course course_ab [[student_a, student_b]]) (r_heap s)"
proof -
  obtain s where s: "readfile (\<lambda>_. writecourse store_ab course_ab) (cs ''db'') =
      Some (Done (reread_course course_ab [[student_a, student_b]], s))"
    "clear (store_sections 0 [[student_a, student_b]] 0 Map.empty, sum_list (map length [[student_a, student_b]])) [] s"
    using readfile_write [OF course_ab_ok, of "\<lambda>_. writecourse store_ab course_ab" "cs ''db''", OF refl] by blast
  have "r_errors s = 0" "r_heap s = store_sections 0 [[student_a, student_b]] 0 Map.empty"
    using s(2) by (simp_all only: pos_def simp_thms prod.inject)
  then show ?thesis using s(1) averages_ab by auto
qed

definition collate_options :: options where
  "collate_options = options0\<lparr>o_collate := 1, o_compare := compareid\<rparr>"

theorem run_collates_witness:
  "\<exists>out. run_grades (\<lambda>_. writecourse store_ab course_ab) (\<lambda>_. False) (cs ''today'') (cs ''db'') collate_options = Some (Exit True out None)"
proof -
  obtain s where s: "readfile (\<lambda>_. writecourse store_ab course_ab) (cs ''db'') =
      Some (Done (reread_course course_ab [[student_a, student_b]], s))" "r_errors s = 0"
    "averages_known (reread_course course_ab [[student_a, student_b]]) (r_heap s)"
    using read_ab by blast
  have "o_collate collate_options \<noteq> 0" "o_compare collate_options \<in> {comparename, compareid}"
    by (simp_all add: collate_options_def)
  from run_collates [OF s this] show ?thesis by blast
qed

definition report_options :: options where
  "report_options = options0\<lparr>o_report := 1, o_freqs := 1, o_quantiles := 1, o_moments := 1, o_composite := 1, o_scores := 1, o_tabsep := 1\<rparr>"

theorem run_reports_witness:
  "\<exists>out f. run_grades (\<lambda>_. writecourse store_ab course_ab) (\<lambda>_. False) (cs ''today'') (cs ''db'') report_options = Some (Exit True out f)"
proof -
  obtain s where s: "readfile (\<lambda>_. writecourse store_ab course_ab) (cs ''db'') =
      Some (Done (reread_course course_ab [[student_a, student_b]], s))" "r_errors s = 0"
    "averages_known (reread_course course_ab [[student_a, student_b]]) (r_heap s)"
    using read_ab by blast
  have o: "o_collate report_options = 0" "o_compare report_options \<in> {comparename, compareid}" "o_summaries report_options = 0"
    "o_histograms report_options = 0"
    by (simp_all add: report_options_def options0_def)
  have f: "output_ok (\<lambda>_. False) report_options" by (simp add: output_ok_def report_options_def options0_def)
  let ?c = "reread_course course_ab [[student_a, student_b]]"
  have c: "co_professor ?c \<noteq> None" "co_assignments ?c \<noteq> []" "\<exists>se \<in> set (co_sections ?c). se_roster se \<noteq> None"
    by (simp_all add: reread_course_def course_ab_def first_def)
  from run_reports [OF s o, of "\<lambda>_. False" "cs ''today''"] show ?thesis by (simp only: c f simp_thms if_True)
qed


subsection \<open>The token buffer and the stack of files\<close>

lemma skip_white_append: "\<forall>b \<in> set ws. iswhitespace b \<Longrightarrow> skip_white (ws @ bs) = skip_white bs"
  by (induction ws) auto

lemma take_token_bytes:
  "\<forall>b \<in> set w. \<not> iswhitespace b \<and> b \<noteq> 10 \<and> b \<noteq> EOF_char \<Longrightarrow> iswhitespace c \<or> c = 10 \<Longrightarrow> take_token (w @ c # bs) = (w, c # bs)"
  by (induction w) (auto simp: EOF_char_def iswhitespace_def)

text \<open>C39: The scanner delivers the next word of the input when it has less than 64 bytes and overflows its buffer
  otherwise.\<close>

theorem advancetoken_bound:
  assumes "r_tok s = []" "if_rest (r_file s) = ws @ w @ c # bs" "\<forall>b \<in> set ws. iswhitespace b"
    "\<forall>b \<in> set w. \<not> iswhitespace b \<and> b \<noteq> 10 \<and> b \<noteq> EOF_char" "iswhitespace c \<or> c = 10" "w \<noteq> []"
  shows "advancetoken s = (if length w < 64 then Some (Done ((), (set_rest (c # bs) s)\<lparr>r_tok := w @ [0]\<rparr>)) else None)"
proof -
  have "skip_white (w @ c # bs) = w @ c # bs" using assms(4,6) by (cases w) (auto simp: ungetc_def)
  then have k: "skip_white (if_rest (r_file s)) = w @ c # bs" by (simp add: assms(2) skip_white_append [OF assms(3)])
  have t: "take_token (w @ c # bs) = (w, c # bs)" by (rule take_token_bytes [OF assms(4,5)])
  have "s\<lparr>r_tok := []\<rparr> = s" using assms(1) by simp
  then show ?thesis using assms(1,6) k t
    by (simp add: advancetoken_def andthen_def bnd_def discard_token_def flushtoken_def gobblewhitespace_def istoken_def
        modify_def gets_def ret_def set_token_def undefined_behaviour_def set_rest_def)
qed

definition start_at :: "byte list \<Rightarrow> rstate" where
  "start_at bs = \<lparr>r_file = \<lparr>if_rest = bs, if_name = Some [], if_line = 1\<rparr>, r_prev = [], r_tok = [], r_errors = 0, r_warnings = 0,
     r_heap = Map.empty, r_fresh = 0\<rparr>"

theorem advancetoken_bound_witness:
  "advancetoken (start_at (32 # replicate 63 97 @ [10])) \<noteq> None \<and> advancetoken (start_at (32 # replicate 64 97 @ [10])) = None"
proof -
  have w: "\<forall>b \<in> set (replicate n (97 :: byte)). \<not> iswhitespace b \<and> b \<noteq> 10 \<and> b \<noteq> EOF_char" for n
    by (auto simp: iswhitespace_def EOF_char_def)
  have s: "\<forall>b \<in> set [32]. iswhitespace b" by (simp add: iswhitespace_def)
  have "advancetoken (start_at (32 # replicate n 97 @ [10])) = (if length (replicate n (97 :: byte)) < 64
      then Some (Done ((), (set_rest [10] (start_at (32 # replicate n 97 @ [10])))\<lparr>r_tok := replicate n 97 @ [0]\<rparr>)) else None)"
    if "n \<noteq> 0" for n
    by (rule advancetoken_bound [OF _ _ s w]) (use that in \<open>simp_all add: start_at_def\<close>)
  from this [of 63] this [of 64] show ?thesis by simp
qed

lemma advancetoken_heads:
  assumes "r_tok s = []" "heads t r (if_rest (r_file s))"
  shows "advancetoken s = Some (Done ((), (set_rest r s)\<lparr>r_tok := t @ [0]\<rparr>))"
proof -
  have t: "take_token (skip_white (if_rest (r_file s))) = (t, r)" "length t < 64" "t \<noteq> []"
    using assms(2) by (auto simp: heads_def take_token_word) (auto simp: word_def)
  have "s\<lparr>r_tok := []\<rparr> = s" using assms(1) by simp
  then show ?thesis using assms(1) t
    by (simp add: advancetoken_def andthen_def bnd_def discard_token_def flushtoken_def gobblewhitespace_def istoken_def
        modify_def gets_def ret_def set_token_def set_rest_def)
qed

lemma checktoken_buffered:
  assumes "r_tok s = t @ [0]" "0 \<notin> set t"
  shows "checktoken key s = Some (Done (t = key, if t = key then s\<lparr>r_tok := []\<rparr> else s))"
proof -
  have "takeWhile (\<lambda>b. b \<noteq> 0) (t @ [0]) = t" using assms(2) by (induction t) auto
  then show ?thesis using assms(1)
    by (simp add: checktoken_def need_token_def andthen_def bnd_def gets_def istoken_def ret_def token_string_def strcmp_eq
        flushtoken_def modify_def)
qed

lemma next_section_heads:
  assumes "r_tok s = []" "heads t r (if_rest (r_file s))"
  shows "next_section_token s = Some (Done (True, (set_rest r s)\<lparr>r_tok := t @ [0]\<rparr>))"
proof -
  have found: "next_section_token s' = Some (Done (True, s'))" if "r_tok s' \<noteq> []" for s'
    using that by (subst next_section_token.simps) (simp add: bnd_def gets_def istoken_def ret_def)
  show ?thesis using assms(1) found [of "(set_rest r s)\<lparr>r_tok := t @ [0]\<rparr>"]
    by (subst next_section_token.simps)
      (simp add: bnd_def andthen_def gets_def istoken_def advancetoken_heads [OF assms])
qed

lemma next_section_return:
  assumes "r_tok s = []" "skip_white (if_rest (r_file s)) = []" "r_prev s = f # fs"
  shows "next_section_token s = next_section_token (s\<lparr>r_file := f, r_prev := fs\<rparr>)"
proof -
  have t: "s\<lparr>r_tok := []\<rparr> = s" using assms(1) by simp
  have "advancetoken s = Some (Done ((), set_rest [] s))"
    using assms(1,2) t
    by (simp add: advancetoken_def andthen_def bnd_def discard_token_def flushtoken_def gobblewhitespace_def istoken_def
        modify_def gets_def ret_def set_token_def set_rest_def)
  then show ?thesis using assms(1,3)
    by (subst next_section_token.simps)
      (simp add: bnd_def andthen_def gets_def istoken_def previousfile_def ret_def set_rest_def)
qed

lemma pushfile_opens:
  assumes "r_tok s = []" "if_rest (r_file s) = 32 # n @ 10 # rest" "nameline n" "fresh_line rest"
    "files n = Some bs" "blank_lines bs 1 = Some (bs', l)"
  shows "pushfile files s = Some (Done ((), s\<lparr>r_file := \<lparr>if_rest = bs', if_name = None, if_line = l\<rparr>,
     r_prev := (r_file s)\<lparr>if_rest := rest, if_line := if_line (r_file s) + 1\<rparr> # r_prev s\<rparr>))"
proof -
  have n: "skip_white (n @ 10 # rest) = n @ 10 # rest" "take_line (n @ 10 # rest) = (n, 10 # rest, True)" "length n < 64"
    "takeWhile (\<lambda>b. b \<noteq> 0) (n @ [0]) = n"
    using assms(3) by (auto simp: skip_name take_line_name nameline_def)
  have t: "s\<lparr>r_tok := []\<rparr> = s" using assms(1) by simp
  have a: "advanceeol s = Some (Done ((), (set_rest (10 # rest) s)\<lparr>r_tok := n @ [0]\<rparr>))"
    using assms(1,2) n t
    by (simp add: advanceeol_def andthen_def bnd_def discard_token_def flushtoken_def gobblewhitespace_def istoken_def
        modify_def gets_def ret_def set_token_def set_rest_def)
  have u: "s\<lparr>r_file := f, r_tok := []\<rparr> = s\<lparr>r_file := f\<rparr>" for f using assms(1) by simp
  have k: "take_string ((set_rest (10 # rest) s)\<lparr>r_tok := n @ [0]\<rparr>) = Some (Done (n, set_rest (10 # rest) s))"
    using n(4) u by (simp add: take_string_def bnd_def andthen_def gets_def istoken_def token_string_def flushtoken_def
        modify_def ret_def set_rest_def)
  have e: "expectnewline (set_rest (10 # rest) s) = Some (Done ((), add_line (set_rest rest s)))"
    using assms(1) blank_lines_fresh [OF assms(4)]
    by (simp add: expectnewline_def bnd_def andthen_def gobblewhitespace_def modify_def istoken_def set_rest_def
        nextchar_def EOF_char_def ungetc_def ret_def gobbleblanklines_def add_line_def)
  let ?s = "add_line (set_rest rest s)"
  have "pushfile files s = gobbleblanklines (?s\<lparr>r_file := \<lparr>if_rest = bs, if_name = None, if_line = 1\<rparr>,
      r_prev := r_file ?s # r_prev ?s\<rparr>)"
    by (simp add: pushfile_def andthen_def bnd_def a k e assms(5))
  then show ?thesis using assms(1,6)
    by (simp add: gobbleblanklines_def istoken_def ret_def add_line_def set_rest_def)
qed

lemma file_word: "word (cs ''FILE'')"
  by (simp add: word_def literal)

lemma readsections_file:
  assumes "r_tok s = []" "heads (cs ''FILE'') r (if_rest (r_file s))"
  shows "readsections files as sep s = bnd (pushfile files) (\<lambda>_. readsections files as sep) (set_rest r s)"
proof -
  have "(set_rest r s)\<lparr>r_tok := []\<rparr> = set_rest r s" using assms(1) by (simp add: set_rest_def)
  then show ?thesis
    using next_section_heads [OF assms] checktoken_buffered [of "(set_rest r s)\<lparr>r_tok := cs ''FILE'' @ [0]\<rparr>" "cs ''FILE''" "cs ''FILE''"]
      word_no_zero [OF file_word]
    by (subst readsections_unfold) (simp add: bnd_def andthen_def)
qed

lemma excess_faults:
  assumes "r_tok s = []" "heads t r (if_rest (r_file s))" "t \<notin> {cs ''FILE'', cs ''SECTION''}" "if_name (r_file s) = None"
  shows "bnd (readsections files as sep) (\<lambda>_. andthen gobbleblanklines expecteof) s = None"
proof -
  let ?s = "(set_rest r s)\<lparr>r_tok := t @ [0]\<rparr>"
  have z: "0 \<notin> set t" using assms(2) word_no_zero by (auto simp: heads_def)
  have "readsections files as sep s = Some (Done ([], ?s))"
    using next_section_heads [OF assms(1,2)] checktoken_buffered [of ?s t, OF _ z] assms(3)
    by (subst readsections_unfold) (simp add: bnd_def ret_def)
  then show ?thesis using assms(4)
    by (simp add: bnd_def andthen_def gobbleblanklines_def istoken_def ret_def expecteof_def gets_def error_def message_def
        set_rest_def)
qed



subsection \<open>Types\<close>

text \<open>C3: Whatever the files contain, a database that \<open>readfile\<close> accepts is well typed, and the statistics
  of a well typed database are complete: they cover every assignment and section without a fault.\<close>

theorem readfile_well_typed:
  assumes "readfile files ifile = Some (Done (c, s))"
  shows "\<exists>pss. well_typed c (r_heap s) pss \<and> (\<exists>p h st ws. statistics c (r_heap s) = Some (c\<lparr>co_roster := p\<rparr>, h, st, ws) \<and>
    chain h st_cnext p (course_list c pss) \<and> stats_full (length (co_assignments c)) (length (co_sections c)) st)"
  using readfile_typed [OF assms] statistics_typed by blast

theorem readfile_well_typed_witness:
  "\<exists>c s pss p h st ws. readfile (\<lambda>_. writecourse store_ab course_ab) (cs ''db'') = Some (Done (c, s)) \<and>
    length (co_assignments c) = 1 \<and> statistics c (r_heap s) = Some (c\<lparr>co_roster := p\<rparr>, h, st, ws) \<and>
    chain h st_cnext p (course_list c pss)"
proof -
  obtain s where s: "readfile (\<lambda>_. writecourse store_ab course_ab) (cs ''db'') =
      Some (Done (reread_course course_ab [[student_a, student_b]], s))"
    using read_ab by blast
  have "length (co_assignments (reread_course course_ab [[student_a, student_b]])) = 1"
    by (simp add: reread_course_def course_ab_def)
  with s readfile_well_typed [OF s] show ?thesis by blast
qed

subsection \<open>The sort key\<close>

text \<open>An unknown sort key is reported with the usage message when it comes with \<open>--sortby\<close>; with \<open>-k\<close> the
  report itself indexes the table of 14 options with 107.\<close>

theorem sort_key_unknown:
  assumes "go_optind G g < length (go_argv G g)" "inputflag (go_argv G g ! go_optind G g) = Some True"
    "go_next G short_options init_options g = (v, Some key, g')" "v \<in> {11, 107}"
    "key \<notin> {cs ''name'', cs ''id'', cs ''score''}"
  shows "option_loop G g os = (if v = 107 then None else Some Abort)"
proof -
  have "sort_option v (Some key) os = (if v = 107 then None else Some Abort)"
    using assms(4,5) by (auto simp: sort_option_def buf_get_def option_table_def simp del: list.map)
  then have "set_option v (Some key) os = (if v = 107 then None else Some Abort)"
    using assms(4) by (auto simp: set_option_def)
  then show ?thesis using assms(1-4) by (subst option_loop.simps) (auto simp: arg_def)
qed

text \<open>A \<open>getopt_long\<close> for the two spellings of the sort key, on arguments and \<open>optind\<close>.\<close>

definition getopt_sort :: "(cstr list \<times> nat) getopt" where
  "getopt_sort = \<lparr>go_start = (\<lambda>argv. (argv, 1)),
     go_next = (\<lambda>short long (argv, i). if argv ! i = cs ''-k'' then (107, Some (argv ! (i + 1)), argv, i + 2)
       else if argv ! i = cs ''--sortby'' then (11, Some (argv ! (i + 1)), argv, i + 2) else (- 1, None, argv, i)),
     go_argv = fst, go_optind = snd\<rparr>"

theorem sort_key_unknown_witness:
  "grades_main getopt_sort (\<lambda>_. None) (\<lambda>_. True) [] [cs ''grades'', cs ''-k'', cs ''age'', cs ''db''] = None \<and>
   grades_main getopt_sort (\<lambda>_. None) (\<lambda>_. True) [] [cs ''grades'', cs ''--sortby'', cs ''age'', cs ''db''] = Some (Exit False [] None)"
proof -
  let ?g = "\<lambda>k. ([cs ''grades'', k, cs ''age'', cs ''db''], 1)"
  have k: "option_loop getopt_sort (?g (cs ''-k'')) options0 = None"
    by (subst sort_key_unknown [where v = 107 and key = "cs ''age''"]) (simp_all add: getopt_sort_def inputflag_def known_options_def)
  have l: "option_loop getopt_sort (?g (cs ''--sortby'')) options0 = Some Abort"
    by (subst sort_key_unknown [where v = 11 and key = "cs ''age''"]) (simp_all add: getopt_sort_def inputflag_def known_options_def)
  have "go_start getopt_sort argv = (argv, 1)" for argv by (simp add: getopt_sort_def)
  then show ?thesis using k l by (simp add: grades_main_def del: list.map)
qed

end
