(* ===== verification/Grades_Figures.thy ===== *)
theory Grades_Figures
  imports Grades_Program
begin

text \<open>
  What single reports print: the bars and the bins of the histograms, with the rounding errors of
  \<open>float\<close>, the fields of the tab-separated table, and the quantiles of the summaries.
\<close>

subsection \<open>Histograms\<close>

lemma fold_max_le: "(m :: int) \<le> fold max bins m"
proof (induction bins arbitrary: m)
  case (Cons b bins)
  have "m \<le> max b m" by simp
  then show ?case using Cons [of "max b m"] by (simp only: fold_simps)
qed simp

lemma le_fold_max: "b \<in> set bins \<Longrightarrow> (b :: int) \<le> fold max bins m"
proof (induction bins arbitrary: m)
  case (Cons a bins)
  then show ?case using fold_max_le [of "max a m" bins] by auto
qed simp

lemma ceiling_div: "0 < (k :: int) \<Longrightarrow> r * k < n \<longleftrightarrow> r < (n + k - 1) div k"
proof -
  assume k: "0 < k"
  have "r * k < n \<longleftrightarrow> (r + 1) * k \<le> n + k - 1" by (simp add: algebra_simps) linarith
  also have "\<dots> \<longleftrightarrow> r + 1 \<le> (n + k - 1) div k"
  proof
    assume "(r + 1) * k \<le> n + k - 1"
    from zdiv_mono1 [OF this k] show "r + 1 \<le> (n + k - 1) div k" using k by simp
  next
    assume "r + 1 \<le> (n + k - 1) div k"
    then have "(r + 1) * k \<le> (n + k - 1) div k * k" using k by simp
    also have "\<dots> \<le> n + k - 1" using pos_mod_sign [OF k, of "n + k - 1"] by (simp add: minus_mod_eq_div_mult [symmetric])
    finally show "(r + 1) * k \<le> n + k - 1" .
  qed
  finally show ?thesis by linarith
qed

lemma count_below: "0 \<le> k \<Longrightarrow> k \<le> n + 1 \<Longrightarrow> length (filter (\<lambda>r. r < k) [0..n]) = nat k"
proof -
  assume k: "0 \<le> k" "k \<le> n + 1"
  have "{0..n} \<inter> {r. r < k} = {0..<k}" using k by auto
  then show ?thesis using distinct_length_filter [of "[0..n]" "\<lambda>r. r < k"] by (simp add: Int_commute)
qed

text \<open>C37: In a histogram the column of a bin is a bar of ceil(20 * bin / cmax) stars standing on the axis, where cmax
  is the largest bin: 20 stars for that one. The caret that the code has for the topmost row never appears.\<close>

theorem histo_columns:
  assumes "cmax = fold max bins 0" "0 < cmax" "col < length bins" "0 \<le> bins ! col"
  shows "(\<forall>row \<in> {0..20}. bars bins cmax row ! col = (if row < (20 * bins ! col + cmax - 1) div cmax then 42 else 32)) \<and>
    length (filter (\<lambda>row. bars bins cmax row ! col = 42) [0..20]) = nat ((20 * bins ! col + cmax - 1) div cmax) \<and>
    bars bins cmax 20 = replicate (length bins) 32"
proof -
  let ?b = "bins ! col" and ?k = "(20 * bins ! col + cmax - 1) div cmax"
  have le: "b \<le> cmax" if "b \<in> set bins" for b using le_fold_max [OF that] assms(1) by simp
  have top: "bars bins cmax 20 = replicate (length bins) 32"
    using le by (fastforce simp: bars_def intro!: replicate_eqI)
  have "\<not> 20 < ?k" unfolding ceiling_div [OF assms(2), symmetric] using le [OF nth_mem [OF assms(3)]] by simp
  then have k: "?k \<le> 20" "0 \<le> ?k" using assms(2,4) by (auto intro!: pos_imp_zdiv_nonneg_iff [THEN iffD2])
  have c: "bars bins cmax row ! col = (if row < ?k then 42 else 32)" if "row \<in> {0..20}" for row
  proof (cases "row = 20")
    case True
    then show ?thesis using top k(1) assms(3) by simp
  next
    case False
    then show ?thesis using ceiling_div [OF assms(2), of row "20 * ?b"] assms(3) by (simp add: bars_def)
  qed
  have "filter (\<lambda>row. bars bins cmax row ! col = 42) [0..20] = filter (\<lambda>row. row < ?k) [0..20]"
    using c by (intro filter_cong) auto
  then show ?thesis using c top count_below [of ?k 20] k by simp
qed

theorem histo_columns_witness:
  "length (filter (\<lambda>row. bars [0, 1, 3] 3 row ! 1 = 42) [0..20]) = 7 \<and> bars [0, 1, 3] 3 20 = [32, 32, 32]"
  using histo_columns [of 3 "[0, 1, 3]" 1] by (simp add: numeral_eq_Suc)

subsection \<open>Tab-separated scores\<close>

lemma decimal_no_tab: "9 \<notin> set (decimal k n)"
  using decimal_digits [of k n] by (auto simp: digit_def)

lemma format_fixed_no_tab: "9 \<notin> set (format_fixed k x)"
  using decimal_no_tab by (cases x) (auto simp: format_fixed_def Let_def)

lemma f62_no_tab: "9 \<notin> set (f62 x)"
  using format_fixed_no_tab by (auto simp: f62_def pad_left_def)

lemma tab_score_no_tab: "tab_score ap scps = Some t \<Longrightarrow> 9 \<notin> set t"
  by (induction ap scps rule: tab_score.induct) (auto simp: bind_eq_Some_conv f62_no_tab split: if_splits)

lemma count_list_none: "x \<notin> set xs \<Longrightarrow> count_list xs x = 0"
  by (simp add: count_list_0_iff)

lemma tab_fields:
  "write_all (\<lambda>ap. do { t \<leftarrow> tab_score ap scps; Some (t @ [9]) }) aps = Some t \<Longrightarrow> count_list t 9 = length aps"
proof (induction aps arbitrary: t)
  case (Cons ap aps)
  then obtain u v where "tab_score ap scps = Some u"
    "write_all (\<lambda>ap. do { t \<leftarrow> tab_score ap scps; Some (t @ [9]) }) aps = Some v" "t = u @ [9] @ v"
    by (auto simp: bind_eq_Some_conv)
  then show ?case using Cons.IH count_list_none [OF tab_score_no_tab] by simp
qed simp

text \<open>A line of the tab-separated table has one field per assignment between the student's id and the composite
  score, like the heading of the table.\<close>

theorem tab_line_fields:
  assumes "tab_line c x = Some t" "9 \<notin> set (st_id x)"
  shows "count_list t 9 = length (co_assignments c) + 1 \<and> takeWhile (\<lambda>b. b \<noteq> 9) t = st_id x \<and> last t = 10"
proof -
  obtain u where u: "write_all (\<lambda>ap. do { t \<leftarrow> tab_score ap (st_rawscores x); Some (t @ [9]) }) [0..<length (co_assignments c)] = Some u"
    "t = st_id x @ [9] @ u @ line (f62 (st_composite x))"
    using assms(1) by (auto simp: tab_line_def bind_eq_Some_conv)
  have "\<forall>b \<in> set (st_id x). b \<noteq> 9" using assms(2) by auto
  then have "takeWhile (\<lambda>b. b \<noteq> 9) t = st_id x" by (simp add: u(2) takeWhile_append2)
  then show ?thesis using tab_fields [OF u(1)] count_list_none [OF assms(2)] count_list_none [OF f62_no_tab]
    by (simp add: u(2) line_def)
qed

definition pupil_tab :: student where
  "pupil_tab = (student1 ((score1 (Finite 5) None None)\<lparr>sc_asgt := 0\<rparr>) None None)\<lparr>st_id := cs ''a1''\<rparr>"

theorem tab_line_fields_witness:
  "count_list (the (tab_line (course1 None) pupil_tab)) 9 = 2"
proof -
  obtain t where t: "tab_line (course1 None) pupil_tab = Some t"
    by (auto simp: tab_line_def pupil_tab_def student1_def score1_def course1_def counts_def)
  have "9 \<notin> set (st_id pupil_tab)" by (simp add: pupil_tab_def)
  from tab_line_fields [OF t this] have "count_list t 9 = length (co_assignments (course1 None)) + 1" by blast
  then show ?thesis unfolding t by (simp add: course1_def)
qed

subsection \<open>Quantile summaries\<close>

lemma percent_zero: "0 \<le> r \<Longrightarrow> \<not> f_less (Finite r) (percent_less 0 n)"
  by (cases "f_of_int double n") (auto simp: percent_less_def f_of_int_def round_flt_def)

lemma first_numless:
  assumes "frequency_table gs (fp # fps)"
  shows "fr_numless fp = Some 0"
proof -
  have "\<not> f_less g (fr_score fp)" if "g \<in> set gs" for g
  proof -
    have "g \<in> fr_score ` set (fp # fps)" using assms that by (simp add: frequency_table_def)
    then have "g = fr_score fp \<or> f_less (fr_score fp) g" using assms by (auto simp: frequency_table_def)
    then show ?thesis using f_less_trans f_less_irrefl by blast
  qed
  then have "filter (\<lambda>g. f_less g (fr_score fp)) gs = []" by (simp add: filter_empty_conv)
  then show ?thesis using assms by (simp add: frequency_table_def)
qed

definition top_score :: "freqs list \<Rightarrow> flt" where
  "top_score fps = (if fps = [] then Finite 0 else fr_score (last fps))"

lemma few_scores:
  assumes "frequency_table gs fps" "length fps \<le> 2" "0 \<le> r"
  shows "interpolatequantile fps n (Finite r) = Some (top_score fps)"
proof -
  consider "fps = []" | fp where "fps = [fp]" | fp fp' where "fps = [fp, fp']"
    using assms(2) by (cases fps; cases "tl fps") (auto simp: numeral_eq_Suc)
  then show ?thesis
  proof cases
    case (3 fp fp')
    have "fr_numless fp = Some 0" using first_numless assms(1) unfolding 3 by blast
    then show ?thesis using percent_zero [OF assms(3)] by (simp add: 3 interpolatequantile_def top_score_def Let_def)
  qed (simp_all add: interpolatequantile_def top_score_def)
qed

lemma few_quantiles:
  assumes "frequency_table gs fps" "length fps \<le> 2"
  shows "quantile_scores fps n quantiles = Some (replicate 5 (top_score fps))"
  using few_scores [OF assms] by (simp add: quantiles_def numeral_eq_Suc)

text \<open>C38: When an assignment has at most two different grades, every quantile that the summaries compute is the
  greatest grade, whatever the frequencies are; if it is the first assignment, they then read a
  variable that was never written.\<close>

theorem summaries_few_scores:
  assumes "frequency_table gs (t_freqs csp)" "length (t_freqs csp) \<le> 2" "q \<in> set quantiles"
  shows "interpolatequantile (t_freqs csp) (t_tallied csp) q = Some (top_score (t_freqs csp)) \<and>
    reportquantilesummaries c (csp # st) = None"
proof -
  have "\<exists>r \<ge> 0. q = Finite r" using assms(3) by (auto simp: quantiles_def)
  then have "interpolatequantile (t_freqs csp) (t_tallied csp) q = Some (top_score (t_freqs csp))"
    using few_scores [OF assms(1,2)] by blast
  moreover have "summary (t_freqs csp) (t_tallied csp) None = None"
    using few_quantiles [OF assms(1,2)] by (simp add: summary_def buf_get_def quantiles_def numeral_eq_Suc)
  then have "summary_classes c (csp # st) None = None" by (simp add: bind_eq_None_conv)
  ultimately show ?thesis by (simp add: reportquantilesummaries_def)
qed

definition nine_fifties :: classstats where
  "nine_fifties = (new_classstats 0 [])\<lparr>t_tallied := 10,
     t_freqs := number_freqs 0 (fold count_score (Finite 100 # replicate 9 (Finite 50)) [])\<rparr>"

theorem summaries_few_scores_witness:
  "interpolatequantile (t_freqs nine_fifties) (t_tallied nine_fifties) (Finite 50) = Some (Finite 100) \<and>
    reportquantilesummaries (course1 None) [nine_fifties] = None"
proof -
  have t: "frequency_table (Finite 100 # replicate 9 (Finite 50)) (t_freqs nine_fifties)"
    unfolding nine_fifties_def using frequency_table_ok [of "Finite 100 # replicate 9 (Finite 50)"] by simp
  have f: "length (t_freqs nine_fifties) \<le> 2" "top_score (t_freqs nine_fifties) = Finite 100"
    by (simp_all add: nine_fifties_def newfreqs_def f_eq_def numeral_eq_Suc top_score_def)
  have "Finite 50 \<in> set quantiles" by (simp add: quantiles_def)
  from summaries_few_scores [OF t f(1) this] show ?thesis by (simp add: f(2))
qed

subsection \<open>Histograms of negative scores\<close>

lemma add_bin_outside: "p < 0 \<or> int (length bins) \<le> p \<Longrightarrow> add_bin bins p n = None"
  by (auto simp: add_bin_def buf_get_def)

lemma add_bin_length: "add_bin bins p n = Some bins' \<Longrightarrow> length bins' = length bins"
  by (auto simp: add_bin_def buf_get_def buf_put_def split: if_splits)


text \<open>\<open>49*x/y\<close> in \<open>float\<close>, as the bin of a histogram.\<close>

definition bin_of :: "flt \<Rightarrow> flt \<Rightarrow> int option" where
  "bin_of x y = to_int (f_div single (f_mul single (Finite 49) x) y)"

lemma to_int_bin: "- 1 < r \<Longrightarrow> r < 50 \<Longrightarrow> \<exists>p. to_int (Finite r) = Some p \<and> 0 \<le> p \<and> p < 50"
proof (cases "r < 0")
  case True
  assume "- 1 < r"
  then have "\<lfloor>- r\<rfloor> = 0" using True by (intro floor_unique) simp_all
  then show ?thesis using True by (simp add: to_int_def)
next
  case False
  assume "r < 50"
  then have "0 \<le> \<lfloor>r\<rfloor>" "\<lfloor>r\<rfloor> < 50" using False by (simp_all add: floor_less_iff)
  then show ?thesis using False by (simp add: to_int_def)
qed

lemma to_int_negative: "r \<le> - 1 \<Longrightarrow> to_int (Finite r) = Some p \<Longrightarrow> p < 0"
proof -
  assume r: "r \<le> - 1" "to_int (Finite r) = Some p"
  have "1 \<le> \<lfloor>- r\<rfloor>" using r(1) by (simp add: le_floor_iff)
  then show "p < 0" using r by (auto simp: to_int_def Let_def split: if_splits)
qed

lemma bin_inside:
  assumes "- (m / 100) \<le> s" "s \<le> m * (1001 / 1000)" "1 / 2 ^ 100 \<le> m" "m \<le> 2 ^ 90"
  shows "\<exists>p. bin_of (Finite s) (Finite m) = Some p \<and> 0 \<le> p \<and> p < 50"
proof -
  have "(0 :: rat) < 1 / 2 ^ 100" by simp
  then have m: "0 < m" using assms(3) by linarith
  have big: "(50 :: rat) * 2 ^ 90 \<le> 2 ^ 100" by simp
  have a: "\<bar>49 * s\<bar> \<le> 50 * m" using assms(1,2) m by (simp add: abs_le_iff)
  then have "\<bar>49 * s\<bar> \<le> 2 ^ 100" using assms(4) big by linarith
  then obtain u where u: "round_flt single (49 * s) = Finite u" "\<bar>u - 49 * s\<bar> \<le> \<bar>49 * s\<bar> / 2 ^ 20 + 1 / 2 ^ 150"
    using round_single by blast
  have "(1 :: rat) / 2 ^ 150 = 1 / 2 ^ 100 / 2 ^ 50" by simp
  then have d: "1 / 2 ^ 150 \<le> m / 2 ^ 50" using assms(3) by (simp add: divide_right_mono)
  have e: "\<bar>u - 49 * s\<bar> \<le> m / 1000" using u(2) a d m by simp
  then have "u \<le> 49 * s + m / 1000" "49 * s - m / 1000 \<le> u" by linarith+
  then have "- (m / 2) \<le> u" "u \<le> m * 495 / 10" using assms(1,2) m by linarith+
  define v where "v = u / m"
  have q: "- (1 / 2) \<le> v" "v \<le> 495 / 10" using \<open>- (m / 2) \<le> u\<close> \<open>u \<le> m * 495 / 10\<close> m by (simp_all add: v_def field_simps)
  then have "\<bar>v\<bar> \<le> 50" by (simp add: abs_le_iff)
  moreover have "(50 :: rat) \<le> 2 ^ 100" by simp
  ultimately obtain y where y: "round_flt single (v) = Finite y" "\<bar>y - v\<bar> \<le> \<bar>v\<bar> / 2 ^ 20 + 1 / 2 ^ 150"
    using round_single [of "v"] by (meson order_trans)
  have "\<bar>y - v\<bar> \<le> 1 / 1000" using y(2) \<open>\<bar>v\<bar> \<le> 50\<close> by simp
  then have "- 1 < y" "y < 50" using q by linarith+
  then obtain p where "to_int (Finite y) = Some p" "0 \<le> p" "p < 50" using to_int_bin by blast
  then show ?thesis using u(1) y(1) m by (simp add: bin_of_def v_def)
qed

text \<open>A score that is negative by more than one fiftieth of the maximum falls outside.\<close>

lemma bin_negative:
  assumes "49 * s \<le> - (2 * m)" "1 / 2 ^ 100 \<le> m" "bin_of (Finite s) (Finite m) = Some p"
  shows "p < 0"
proof -
  have "(0 :: rat) < 1 / 2 ^ 100" by simp
  then have m: "0 < m" using assms(2) by linarith
  have d: "1 / 2 ^ 150 \<le> m / 2 ^ 50"
  proof -
    have "(1 :: rat) / 2 ^ 150 = 1 / 2 ^ 100 / 2 ^ 50" by simp
    then show ?thesis using assms(2) by (simp add: divide_right_mono)
  qed
  show ?thesis
  proof (cases "round_flt single (49 * s)")
    case (Finite u)
    have "\<bar>u - 49 * s\<bar> \<le> \<bar>49 * s\<bar> / 2 ^ 20 + 1 / 2 ^ 150" by (rule round_single_error [OF Finite])
    then have "u \<le> - (m * 3 / 2)" using d assms(1) m by (simp add: abs_le_iff)
    then have "u / m \<le> - (3 / 2)" using m by (simp add: field_simps)
    then obtain v where v_def: "v = u / m" and q: "v \<le> - (3 / 2)" by blast
    show ?thesis
    proof (cases "round_flt single v")
      case y: (Finite y)
      have "y \<le> - 1" using round_single_error [OF y] q by (simp add: abs_le_iff)
      then show ?thesis using to_int_negative [of y p] assms(3) Finite y m by (simp add: bin_of_def v_def)
    qed (use assms(3) Finite m in \<open>simp_all add: bin_of_def to_int_def v_def\<close>)
  next
    case NaN
    then show ?thesis using assms(3) by (simp add: bin_of_def to_int_def)
  next
    case (Infinite b)
    then show ?thesis using assms(3) by (simp add: bin_of_def to_int_def)
  qed
qed

definition sane :: "rat \<Rightarrow> bool" where
  "sane r \<longleftrightarrow> r = 0 \<or> (1 / 2 ^ 90 \<le> \<bar>r\<bar> \<and> \<bar>r\<bar> \<le> 2 ^ 80)"

lemma add_bin_inside: "0 \<le> p \<Longrightarrow> p < int (length bins) \<Longrightarrow> \<exists>bins'. add_bin bins p n = Some bins' \<and> length bins' = length bins"
  by (simp add: add_bin_def buf_get_def buf_put_def)

lemma freq_bins_run:
  assumes "1 / 2 ^ 100 \<le> m" "m \<le> 2 ^ 90"
  shows "\<forall>fp \<in> set fps. \<exists>s \<ge> 0. fr_score fp = Finite s \<Longrightarrow> length bins = 50 \<Longrightarrow> returns (freq_bins (Finite m) fps bins)"
proof (induction fps arbitrary: bins)
  case (Cons fp fps)
  obtain s where s: "fr_score fp = Finite s" "0 \<le> s" using Cons.prems(1) by auto
  have "(0 :: rat) < 1 / 2 ^ 100" by simp
  then have m: "0 < m" using assms(1) by linarith
  obtain p where p: "(if f_less (Finite m) (fr_score fp) then Some 49 else bin_of (fr_score fp) (Finite m)) = Some p" "0 \<le> p" "p < 50"
  proof (cases "m < s")
    case False
    then have "s \<le> m * (1001 / 1000)" "- (m / 100) \<le> s" using m s(2) by linarith+
    then show ?thesis using that bin_inside [OF _ _ assms] s(1) False by fastforce
  qed (use that [of 49] s in simp)
  obtain bins' where b: "add_bin bins p (fr_count fp) = Some bins'" "length bins' = 50"
    using add_bin_inside [OF p(2), of bins] p(3) Cons.prems(2) by auto
  have "returns (freq_bins (Finite m) fps bins')" using Cons.IH [OF _ b(2)] Cons.prems(1) by simp
  then show ?case using p(1) b(1) by (auto simp: bin_of_def split: if_splits)
qed (simp add: returns_def)

text \<open>The composite scores are spread over their range.\<close>

lemma composite_range_run:
  "chain h st_cnext p as \<Longrightarrow> \<forall>a \<in> set as. \<exists>r. st_composite (the (h a)) = Finite r \<and> sane r \<Longrightarrow> sane mn \<Longrightarrow> sane mx \<Longrightarrow>
   \<exists>mn' mx' cnt'. composite_range h p (Finite mn, Finite mx, cnt) = Some (Finite mn', Finite mx', cnt') \<and> sane mn' \<and> sane mx' \<and>
     mn' \<le> mn \<and> mx \<le> mx' \<and> (\<forall>a \<in> set as. \<exists>r. st_composite (the (h a)) = Finite r \<and> mn' \<le> r \<and> r \<le> mx' \<and> sane r)"
proof (induction as arbitrary: p mn mx cnt)
  case Nil
  then show ?case by (subst composite_range.simps) simp
next
  case (Cons a as)
  obtain x r where x: "p = Some a" "h a = Some x" "chain h st_cnext (st_cnext x) as" "st_composite x = Finite r" "sane r"
    using Cons.prems(1,2) by auto
  let ?mn = "min r mn" and ?mx = "max r mx"
  have s: "sane ?mn" "sane ?mx" using Cons.prems(3,4) x(5) by (simp_all add: min_def max_def)
  have as: "\<forall>a \<in> set as. \<exists>r. st_composite (the (h a)) = Finite r \<and> sane r" using Cons.prems(2) by simp
  obtain mn' mx' cnt' where i: "composite_range h (st_cnext x) (Finite ?mn, Finite ?mx, cnt + 1) = Some (Finite mn', Finite mx', cnt')"
    "sane mn'" "sane mx'" "mn' \<le> ?mn" "?mx \<le> mx'"
    "\<forall>a \<in> set as. \<exists>r. st_composite (the (h a)) = Finite r \<and> mn' \<le> r \<and> r \<le> mx' \<and> sane r"
    using Cons.IH [OF x(3) as s] by blast
  have "composite_range h p (Finite mn, Finite mx, cnt) = composite_range h (st_cnext x) (Finite ?mn, Finite ?mx, cnt + 1)"
    using x by (subst composite_range.simps) (auto simp: min_def max_def)
  then show ?case using i x(2,4,5) by auto
qed

lemma small_error: "\<bar>y - x\<bar> \<le> \<bar>x\<bar> / 2 ^ 20 + 1 / 2 ^ 150 \<Longrightarrow> \<bar>x\<bar> \<le> z \<Longrightarrow> 1 / 2 ^ 150 \<le> z / 2 ^ 50 \<Longrightarrow>
    \<bar>y - x\<bar> \<le> z / (10000 :: rat)"
  by simp

lemma spread_bounds:
  assumes "\<bar>y - d\<bar> \<le> d / 10000" "\<bar>t - z\<bar> \<le> d / 10000" "0 \<le> z" "z \<le> d" "0 < (d :: rat)"
  shows "- (y / 100) \<le> t" "t \<le> y * (1001 / 1000)" "d / 2 \<le> y" "y \<le> 2 * d"
proof -
  have y: "d - d / 10000 \<le> y" "y \<le> d + d / 10000" and t: "z - d / 10000 \<le> t" "t \<le> z + d / 10000"
    using assms(1,2) unfolding abs_le_iff by linarith+
  show "- (y / 100) \<le> t" using y t assms(3-5) by linarith
  show "t \<le> y * (1001 / 1000)" using y t assms(3-5) by linarith
  show "d / 2 \<le> y" using y assms(5) by linarith
  show "y \<le> 2 * d" using y assms(5) by linarith
qed

text \<open>The width by which the code divides, and a composite score above the least one.\<close>

lemma spread:
  assumes "sane mn" "sane mx" "mn \<le> 0" "0 \<le> mx" "mn \<le> r" "r \<le> mx" "d = f_sub single (Finite mx) (Finite mn)"
  shows "\<exists>p. bin_of (f_sub single (Finite r) (Finite mn)) (if f_eq d (Finite 0) then Finite 1 else d) = Some p \<and> 0 \<le> p \<and> p < 50"
proof (cases "mx - mn = 0")
  case True
  then have "mx = 0" "mn = 0" "r = 0" using assms(3-6) by linarith+
  then show ?thesis using assms(7) bin_inside [of 1 0] by (simp add: f_sub_def round_flt_def f_eq_def)
next
  case False
  let ?D = "mx - mn"
  have D: "1 / 2 ^ 90 \<le> ?D" "?D \<le> 2 ^ 81" using False assms(1-4) by (auto simp: sane_def)
  have "(1 :: rat) / 2 ^ 150 \<le> 1 / 2 ^ 90 / 2 ^ 50" "(0 :: rat) < 1 / 2 ^ 90" by simp_all
  moreover have "1 / 2 ^ 90 / 2 ^ 50 \<le> ?D / 2 ^ 50" using D(1) by (rule divide_right_mono) simp
  ultimately have e: "1 / 2 ^ 150 \<le> ?D / 2 ^ 50" "0 < ?D" using D(1) by linarith+
  have big: "(2 :: rat) ^ 81 \<le> 2 ^ 100" by simp
  have "\<bar>?D\<bar> \<le> 2 ^ 100" using D(2) big e(2) by linarith
  then obtain dr where dr: "round_flt single ?D = Finite dr" "\<bar>dr - ?D\<bar> \<le> \<bar>?D\<bar> / 2 ^ 20 + 1 / 2 ^ 150" using round_single by blast
  have t0: "0 \<le> r - mn" "r - mn \<le> ?D" using assms(5,6) by simp_all
  then have "\<bar>r - mn\<bar> \<le> 2 ^ 100" using D(2) big by linarith
  then obtain t where t: "round_flt single (r - mn) = Finite t" "\<bar>t - (r - mn)\<bar> \<le> \<bar>r - mn\<bar> / 2 ^ 20 + 1 / 2 ^ 150" using round_single by blast
  have "\<bar>?D\<bar> \<le> ?D" "\<bar>r - mn\<bar> \<le> ?D" using t0 e(2) by simp_all
  then have "\<bar>dr - ?D\<bar> \<le> ?D / 10000" "\<bar>t - (r - mn)\<bar> \<le> ?D / 10000"
    using small_error [OF dr(2) _ e(1)] small_error [OF t(2) _ e(1)] by blast+
  note b = spread_bounds [OF this t0 e(2)]
  have "1 / 2 ^ 100 \<le> dr" "dr \<le> 2 ^ 90" using b(3,4) D by simp_all
  moreover have "0 < dr" using b(3) e(2) by (metis half_gt_zero order_less_le_trans)
  ultimately show ?thesis using bin_inside [OF b(1,2)] dr(1) t(1) assms(7) by (simp add: f_sub_def f_eq_def)
qed

lemma composite_bins_run:
  assumes "sane mn" "sane mx" "mn \<le> 0" "0 \<le> mx" "d = f_sub single (Finite mx) (Finite mn)"
  shows "chain h st_cnext p as \<Longrightarrow> \<forall>a \<in> set as. \<exists>r. st_composite (the (h a)) = Finite r \<and> mn \<le> r \<and> r \<le> mx \<and> sane r \<Longrightarrow>
    length bins = 50 \<Longrightarrow> returns (composite_bins (Finite mn) (if f_eq d (Finite 0) then Finite 1 else d) h p bins)"
proof (induction as arbitrary: p bins)
  case Nil
  then show ?case by (subst composite_bins.simps) (simp add: returns_def)
next
  case (Cons a as)
  let ?d = "if f_eq d (Finite 0) then Finite 1 else d"
  obtain x r where x: "p = Some a" "h a = Some x" "chain h st_cnext (st_cnext x) as" "st_composite x = Finite r" "mn \<le> r" "r \<le> mx"
    using Cons.prems(1,2) by auto
  obtain k where k: "bin_of (f_sub single (Finite r) (Finite mn)) ?d = Some k" "0 \<le> k" "k < 50"
    using spread [OF assms(1-4) x(5,6) assms(5)] by blast
  obtain bins' where b: "add_bin bins k 1 = Some bins'" "length bins' = 50"
    using add_bin_inside [OF k(2), of bins] k(3) Cons.prems(3) by auto
  have "returns (composite_bins (Finite mn) ?d h (st_cnext x) bins')" using Cons.IH [OF x(3) _ b(2)] Cons.prems(2) by simp
  then show ?case using x(1,2,4) k(1) b(1) by (subst composite_bins.simps) (simp add: bin_of_def)
qed

text \<open>C36: The histograms stay inside their 50 bins when no score is negative, every assignment has a declared
  maximum, and the numbers are zero or of a magnitude between 1/2^90 and 2^80 (composite scores may be negative).\<close>

theorem reporthistos_inside:
  assumes "computed c h st as pss"
    "\<forall>a \<in> set as. \<exists>r. st_composite (the (h a)) = Finite r \<and> sane r"
    "\<forall>a \<in> set (co_assignments c). \<exists>m > 0. as_max a = Finite m \<and> sane m"
    "\<forall>csp \<in> set st. \<forall>fp \<in> set (t_freqs csp). \<exists>s \<ge> 0. fr_score fp = Finite s"
  shows "\<exists>t. reporthistos h c st = Some t"
proof -
  have ch: "chain h st_cnext (co_roster c) as" using assms(1) by (simp add: computed_def rosters_linked_def)
  have "sane 0" by (simp add: sane_def)
  from composite_range_run [OF ch assms(2) this this]
  obtain mn mx cnt where r: "composite_range h (co_roster c) (Finite 0, Finite 0, 0) = Some (Finite mn, Finite mx, cnt)" "sane mn" "sane mx"
    "mn \<le> 0" "0 \<le> mx" "\<forall>a \<in> set as. \<exists>r. st_composite (the (h a)) = Finite r \<and> mn \<le> r \<and> r \<le> mx \<and> sane r"
    by blast
  have "returns (composite_bins (Finite mn) (if f_eq (f_sub single (Finite mx) (Finite mn)) (Finite 0) then Finite 1
      else f_sub single (Finite mx) (Finite mn)) h (co_roster c) (replicate 50 0))"
    by (rule composite_bins_run [OF r(2-5) refl ch r(6)]) simp
  moreover have "returns (class_histo c csp)" if csp: "csp \<in> set st" for csp
  proof -
    have i: "t_asgt csp < length (co_assignments c)"
      using reportableD [OF computed_reportable [OF assms(1)] csp] by (simp add: class_known_def tally_known_def)
    then obtain m where m: "0 < m" "as_max (co_assignments c ! t_asgt csp) = Finite m" "sane m" using assms(3) nth_mem by blast
    then have "1 / 2 ^ 100 \<le> m" "m \<le> 2 ^ 90" by (auto simp: sane_def)
    then have "returns (freq_bins (Finite m) (t_freqs csp) (replicate 50 0))"
      using freq_bins_run [of m "t_freqs csp" "replicate 50 0"] assms(4) csp by simp
    then show ?thesis using i m(1,2) by (auto simp: class_histo_def buf_get_def f_eq_def returns_def)
  qed
  then have "returns (write_all (class_histo c) st)" by (intro returns_write_all)
  ultimately show ?thesis using r(1) by (auto simp: reporthistos_def Let_def elim!: returnsE)
qed

lemma write_all_None: "x \<in> set xs \<Longrightarrow> f x = None \<Longrightarrow> write_all f xs = None"
  by (induction xs) (auto simp: bind_eq_None_conv)

lemma freq_bins_negative:
  "fp \<in> set fps \<Longrightarrow> \<not> f_less mx (fr_score fp) \<Longrightarrow> (\<And>p. bin_of (fr_score fp) mx = Some p \<Longrightarrow> p < 0) \<Longrightarrow> freq_bins mx fps bins = None"
proof (induction fps arbitrary: bins)
  case (Cons fp' fps)
  show ?case
  proof (cases "fp = fp'")
    case True
    then show ?thesis using Cons.prems(2,3) add_bin_outside by (auto simp: bin_of_def bind_eq_None_conv)
  next
    case False
    then have "freq_bins mx fps b = None" for b using Cons by simp
    then show ?thesis by (auto simp: bind_eq_None_conv)
  qed
qed simp

text \<open>A score that is below zero by more than a twentieth of the maximum makes the histograms count
  in front of their bins.\<close>

theorem reporthistos_negative:
  assumes "csp \<in> set st" "t_asgt csp < length (co_assignments c)" "as_max (co_assignments c ! t_asgt csp) = Finite m"
    "1 / 2 ^ 100 \<le> m" "fp \<in> set (t_freqs csp)" "fr_score fp = Finite s" "20 * s \<le> - m"
  shows "reporthistos h c st = None"
proof -
  have "(0 :: rat) < 1 / 2 ^ 100" by simp
  then have m: "0 < m" using assms(4) by linarith
  have n: "49 * s \<le> - (2 * m)" "\<not> m < s" using assms(7) m by linarith+
  have "freq_bins (Finite m) (t_freqs csp) (replicate 50 0) = None"
    by (rule freq_bins_negative [OF assms(5)]) (use bin_negative [OF n(1) assms(4)] n(2) in \<open>simp_all add: assms(6)\<close>)
  then have "class_histo c csp = None" using assms(2,3) m by (simp add: class_histo_def buf_get_def f_eq_def)
  then have "write_all (class_histo c) st = None" using write_all_None [OF assms(1)] by blast
  then show ?thesis by (simp add: reporthistos_def bind_eq_None_conv case_prod_unfold Let_def)
qed

text \<open>A course of two students with one graded assignment, after the computations.\<close>

definition course_100 :: course where
  "course_100 = (course1 (Some 0))\<lparr>co_assignments := map (\<lambda>a. a\<lparr>as_max := Finite 100\<rparr>) (co_assignments (course1 (Some 0)))\<rparr>"

definition tallied :: "flt list \<Rightarrow> 'a tally_scheme \<Rightarrow> 'a tally_scheme" where
  "tallied gs t = t\<lparr>t_tallied := int (length gs), t_mean := Some (Finite 4), t_stddev := Some (Finite 1),
     t_freqs := number_freqs 0 (fold count_score gs [])\<rparr>"

definition stats_53 :: stats where
  "stats_53 = [tallied [Finite 5, Finite 3] (new_classstats 0 [tallied [Finite 5, Finite 3] (new_sectionstats 0 0)])]"

definition graded2 :: students where
  "graded2 = map_option (\<lambda>x. x\<lparr>st_normscores := st_rawscores x\<rparr>) \<circ> linked2"

lemma graded2_computed: "computed course_100 graded2 stats_53 [0, 1] [[0, 1]]"
proof -
  have "stats_full 1 1 stats_53"
    by (simp add: stats_full_def stats_for_def stats_53_def tallied_def new_classstats_def new_sectionstats_def
        tally_full_def number_freqs_counted)
  moreover have "rosters_linked course_100 graded2 [0, 1] [[0, 1]]"
    by (simp add: rosters_linked_def graded2_def linked2_def course_100_def course1_def student1_def)
  moreover have "students_ok 1 graded2 [[0, 1]]"
    by (simp add: students_ok_def graded2_def linked2_def student1_def student_linked_def score_linked_def score_typed_def score1_def)
  ultimately show ?thesis
    by (simp add: computed_def course_100_def course1_def assignment_typed_def student_normed_def graded2_def linked2_def
        student1_def score1_def)
qed

theorem reporthistos_inside_witness: "\<exists>t. reporthistos graded2 course_100 stats_53 = Some t"
proof (rule reporthistos_inside [OF graded2_computed])
  show "\<forall>a \<in> set [0, 1]. \<exists>r. st_composite (the (graded2 a)) = Finite r \<and> sane r"
    by (simp add: graded2_def linked2_def student1_def sane_def)
  show "\<forall>a \<in> set (co_assignments course_100). \<exists>m > 0. as_max a = Finite m \<and> sane m"
    by (simp add: course_100_def course1_def sane_def)
  show "\<forall>csp \<in> set stats_53. \<forall>fp \<in> set (t_freqs csp). \<exists>s \<ge> 0. fr_score fp = Finite s"
    by (simp add: stats_53_def tallied_def newfreqs_def f_eq_def)
qed

definition below_zero :: classstats where
  "below_zero = tallied [Finite (- 10)] (new_classstats 0 [])"

theorem reporthistos_negative_witness: "reporthistos graded2 course_100 [below_zero] = None"
proof (rule reporthistos_negative [where csp = below_zero and m = 100 and s = "- 10"
      and fp = "\<lparr>fr_score = Finite (- 10), fr_count = 1, fr_numless = Some 0, fr_numlesseq = Some 1\<rparr>"])
  show "t_asgt below_zero < length (co_assignments course_100)"
    "as_max (co_assignments course_100 ! t_asgt below_zero) = Finite 100"
    by (simp_all add: below_zero_def tallied_def new_classstats_def course_100_def course1_def)
  show "\<lparr>fr_score = Finite (- 10), fr_count = 1, fr_numless = Some 0, fr_numlesseq = Some 1\<rparr> \<in> set (t_freqs below_zero)"
    by (simp add: below_zero_def tallied_def newfreqs_def)
qed simp_all

end
