(* ===== verification/Spec2Isabelle.thy ===== *)
theory Spec2Isabelle
  imports Audio_Recode Sf_Properties Xacto_Main Imp_Main Grades_Figures
begin

text \<open>
  A verification library for the C programs of this repository, the homeworks hw1 to hw5.

  \<^bold>\<open>Conventions.\<close> Theory C_Prelude has the shared vocabulary: machine integers are words of their
  width, C strings are byte lists that end at the terminator, buffers are lists of fixed length.
  Undefined behaviour of C (an access outside an object, a dereference of NULL or of freed memory,
  a read of a field that was never written) is \<^term>\<open>None\<close> of the option monad; every error that
  the code reports itself is an ordinary value. A theorem that an operation yields \<open>Some\<close> therefore
  also says that it is free of memory faults. Loops that may run forever are partial functions into
  option, where not returning is \<^term>\<open>None\<close> too; the theorems about them prove that they return.
  \<open>malloc\<close> does not fail. Theory C_Float has the IEEE numbers with correct rounding.

  \<^bold>\<open>hw1, an audio recoder.\<close> \<open>validargs\<close> (Audio_Args) turns the command line into the option bitmap;
  \<open>recode\<close> (Audio_Recode) reads a Sun audio header and annotation (Audio_Header) and drops,
  interpolates or encrypts frames (Audio_Frames) with the generator of myrand.c (Audio_Rand);
  \<open>audio_main\<close> is \<open>main\<close> from the argument vector and standard input to standard output. The lemmas
  show what each mode writes on whole files, that encrypting twice restores the input, which
  headers are accepted, that interpolated samples lie between their neighbours, and where the frame
  buffers overflow. A frame buffer holds two ints (\<open>FRAME_INTS\<close>), one for each byte of a frame, so the
  theorems on whole files are about frames of at most two bytes; their texts say where the code
  departs from audio.h. Input streams are finite byte lists, so the loops over them are recursive.

  \<^bold>\<open>hw3, a storage allocator.\<close> Sf_Heap has the heap of src/sfmm.c as a store of 64-bit words with
  bit-fields and links inside the blocks; Sf_Malloc and Sf_Free are \<open>sf_malloc\<close>, \<open>sf_free\<close> and
  \<open>sf_realloc\<close> with every branch. Theory Ring abstracts a doubly linked list as a cycle, and
  Sf_Lists and Sf_Properties show that the list operations refine removal and insertion on it, what
  coalescing and carving write, that the first fitting block is found, and where the code leaves a
  stale back link. Sf_Blocks has the heap as a sequence of abstract blocks and the invariant \<open>heap_ok\<close>:
  headers and footers tile the heap, the lists, in order of size, hold exactly the free blocks, and free
  blocks are not neighbours. Sf_Merge and Sf_Release show that \<open>sf_free\<close> refines releasing and
  merging a block on it, Sf_Allot that \<open>sf_malloc\<close> takes a best fit, keeps the tiling and every other
  payload, and what the initialisation establishes; Sf_Grow what growing the heap keeps. Both hold
  whatever is in the page that \<open>sf_mem_grow\<close> adds: the code never clears the bit of the new epilogue for the
  block in front of it, so the invariant holds exactly when the page had it clear, and otherwise it
  holds of the heap with that bit cleared (Sf_Epilogue). After an allocation the free lists
  may have stale links, so only the tiling is stated of it. sfutil.o (\<open>sf_mem_grow\<close>, \<open>sf_add_free_list\<close>) has no
  source and is a parameter; the contracts \<open>first_page\<close>, \<open>new_page\<close> (the page is added behind the heap, its
  words are arbitrary) and \<open>adds_lists\<close> are hypotheses.

  \<^bold>\<open>hw5, a transactional store server.\<close> Xacto_Trans has the transaction manager (transaction.c);
  its reference counts are refined to the clients, the entries in the dependency sets of live transactions
  and the leaked entries of freed ones (the locale \<open>refinement\<close> of C_Prelude,
  interpreted here, for the blobs and for the free lists of hw3), and Xacto_Contract has its properties.
  The loop of \<open>trans_abort\<close> that does not advance is modelled as it is, and does not end. Xacto_Data and Xacto_Blobs have the blobs,
  keys and versions (data.c), Xacto_Registry the client registry with the interleaved steps of
  the service threads and the wait for the last client, Xacto_Protocol the packets over sockets that
  transfer arbitrary parts (protocol.c, \<open>rio_readn\<close> and \<open>rio_writen\<close> of csapp.c), and Xacto_Server the
  service thread and \<open>terminate\<close>, Xacto_Main the options and the loop that accepts connections (main.c). The store itself (lib/xacto.a) has no source and is a parameter.
  A transaction that waits for another is a step that is not enabled.

  \<^bold>\<open>hw4, a printer spooler.\<close> Imp_Spooler has the command file and the interactive loop of main.c with
  all commands and the scheduling pass, over arrays of the sizes that the code has (40 words per
  line, 100 types, 32 printers, 1024 jobs); imp_util.o has no source, and what it would format is
  kept as an event. An entry of the printer array that no command has written is a fault to read, although it
  is inside the array: this is how the scheduling pass shows that it prints the wrong printer. Imp_Main adds the options. Imp_Invariant proves the invariant of the spooler for every operation, and
  Imp_Properties lifts it to whole runs, shows that a scheduling pass starts every job that it can,
  and which printer sets a print command computes.

  \<^bold>\<open>hw2, a grade book: the components.\<close> Grades_Data has the database: students live in a store
  because two rosters link them, their scores are lists. Grades_Sort has sort.c, Grades_Stats stats.c,
  Grades_Normal normal.c (percentiles, averages, composite scores), Grades_Reader the scanner of read.c
  with its 64-byte token buffer and the stack of files as a state monad with faults and aborts (where a
  missing token becomes \<open>newstring("", 0)\<close>, which writes no terminator, the model has the empty string),
  Grades_Parser the recursive descent over it, Grades_Write the text that write.c prints, Grades_Report
  the reports of report.c, and Grades_Main the options of main.c and the pipeline from the arguments to
  the output. \<open>getopt_long\<close> is a record of operations with a state of its own there, the date of
  \<open>ctime\<close> and whether \<open>fopen\<close> opens the output file are arguments.

  \<^bold>\<open>hw2: what is proved.\<close> Grades_Quicksort proves in the locale \<open>keyed\<close> that the quicksort ends and
  sorts for every comparison by a key, although a pass may leave one part as large as before;
  Grades_Roster lifts this to linked rosters through the locale \<open>link\<close>, interpreted for both links,
  and to whole courses through \<open>roster_order\<close>, interpreted for the three comparisons of the program.
  Grades_Tables compares the frequency tables with the list of grades, Grades_Links shows that the
  course roster is linked correctly. Grades_Triples, Grades_Numbers, Grades_Reread and
  Grades_Roundtrip show that reading what was written restores the database, with a total calculus
  of the readers and the exact effect of \<open>%f\<close> on numbers. Grades_Frames and Grades_Typing show that
  every database that \<open>readfile\<close> accepts is well typed, whatever the file; Grades_Complete,
  Grades_Safety and Grades_Compute that statistics, normalization and sorting run on well typed data
  without a fault and what they leave; Grades_Program that the reports and the collated text are then
  printed, from the input file on, and what including a file does; and Grades_Figures what single reports show, with the rounding
  errors of \<open>float\<close> from C_Float.

  \<^bold>\<open>Not modelled.\<close> Of hw2 the text on the standard error, and the wrappers of \<open>malloc\<close> in allocate.c,
  which only exit when memory runs out; sockets, threads, signals and the redirection of output,
  which are library calls; the parts of the vendored csapp.c that the server does not call; hw0,
  which prints a greeting; the tests; and the object files without source named above.
\<close>

end
